(* ===== verification/Prelude.thy ===== *)
theory Prelude
  imports Main "HOL-Library.Word"
begin

section \<open>Prelude: machine types, errors, buffers\<close>

text \<open>
  Shared by every component of the uDepot key-value server:
  \<^item> the C integer types as words, and the sizes of \<open>include/config.h\<close> and
    \<open>include/type.h\<close>;
  \<^item> the error type: every \<open>abort()\<close>, null dereference, access outside a buffer and
    invalid \<open>free\<close> of the source is a value of type \<open>crash\<close>, and an operation that may
    end in one returns \<open>crash + 'a\<close>;
  \<^item> heap buffers (\<open>char *\<close> obtained from \<open>aligned_alloc\<close>, \<open>malloc\<close> or \<open>mmap\<close>)
    as lengths with a content function, and \<open>memcpy\<close>, \<open>memset\<close> and \<open>free\<close> on them,
    with the bounds the C standard requires as explicit checks;
  \<^item> the generic lemmas on these, collected in \<open>mem_simps\<close> and \<open>res_simps\<close>.
  Large C arrays (a table of \<open>2\<^sup>2\<^sup>7\<close> entries, a segment of 2 MiB) are functions from indices;
  pointers are natural numbers with 0 for \<open>NULL\<close>.
\<close>

unbundle bit_operations_syntax

named_theorems res_simps "sequencing of operations that may crash"
named_theorems mem_simps "buffers, memcpy, allocation"

subsection \<open>Integer types\<close>

type_synonym u8 = "8 word"
type_synonym u16 = "16 word"
type_synonym u32 = "32 word"
type_synonym u64 = "64 word"
type_synonym byte = "8 word"
type_synonym ptr = nat

abbreviation (input) NULL :: ptr where "NULL \<equiv> 0"

subsection \<open>Configuration (\<open>include/config.h\<close>)\<close>

definition Ki :: nat where "Ki = 1024"
definition Mi :: nat where "Mi = 1024 * Ki"
definition SEGMENT_SIZE :: nat where "SEGMENT_SIZE = 2 * Mi"
definition GRAIN_UNIT :: nat where "GRAIN_UNIT = 128"
definition KEY_LEN :: nat where "KEY_LEN = 32"
definition VALUE_LEN :: nat where "VALUE_LEN = 1024"
definition KEY_LEN_MAX :: nat where "KEY_LEN_MAX = 256"
definition VALUE_LEN_MAX :: nat where "VALUE_LEN_MAX = 4 * Ki"
definition CDF_TABLE_MAX :: nat where "CDF_TABLE_MAX = 100000"
definition QSIZE :: nat where "QSIZE = 1024"
definition QDEPTH :: nat where "QDEPTH = 256"

lemmas config_defs =
  Ki_def Mi_def SEGMENT_SIZE_def GRAIN_UNIT_def KEY_LEN_def VALUE_LEN_def
  KEY_LEN_MAX_def VALUE_LEN_MAX_def CDF_TABLE_MAX_def QSIZE_def QDEPTH_def

subsection \<open>Enumerations of \<open>include/type.h\<close>\<close>

datatype seg_state_t = SEG_STATE_FREE | SEG_STATE_STAGED | SEG_STATE_USED

text \<open>
  \<open>req_type_t\<close> is stored in an \<open>unsigned char\<close> that comes from the network, so a byte that is no
  enumerator is a value of the type too.
\<close>

datatype req_type_t =
    REQ_TYPE_PADDING | REQ_TYPE_SET | REQ_TYPE_GET | REQ_TYPE_DELETE
  | REQ_TYPE_RANGE | REQ_TYPE_ITERATOR | REQ_TYPE_OTHER u8

subsection \<open>Operations that may crash\<close>

datatype crash = Abort | NullDeref | OutOfBounds | BadFree | DivByZero

type_synonym 'a res = "crash + 'a"

definition ebind :: "'a res \<Rightarrow> ('a \<Rightarrow> 'b res) \<Rightarrow> 'b res" where
  "ebind r f = (case r of Inl e \<Rightarrow> Inl e | Inr x \<Rightarrow> f x)"

lemma ebind_Inl [simp]: "ebind (Inl e) f = Inl e"
  by (simp add: ebind_def)

lemma ebind_Inr [simp]: "ebind (Inr x) f = f x"
  by (simp add: ebind_def)

lemma ebind_eq_Inr [res_simps]: "ebind r f = Inr y \<longleftrightarrow> (\<exists>x. r = Inr x \<and> f x = Inr y)"
  by (cases r) auto

lemma ebind_eq_Inl: "ebind r f = Inl e \<longleftrightarrow> r = Inl e \<or> (\<exists>x. r = Inr x \<and> f x = Inl e)"
  by (cases r) auto

lemma ebind_assoc: "ebind (ebind r f) g = ebind r (\<lambda>x. ebind (f x) g)"
  by (cases r) auto

definition guard :: "bool \<Rightarrow> crash \<Rightarrow> unit res" where
  "guard b e = (if b then Inr () else Inl e)"

lemma guard_True [simp]: "guard True e = Inr ()"
  by (simp add: guard_def)

lemma guard_False [simp]: "guard False e = Inl e"
  by (simp add: guard_def)

lemma guard_eq_Inr [res_simps]: "guard b e = Inr u \<longleftrightarrow> b"
  by (simp add: guard_def)

subsection \<open>Buffers\<close>

text \<open>
  A buffer is its length in bytes and its content; content outside the length is never
  observed, because every access checks the bound first.
\<close>

record mbuf =
  blen :: nat
  bdat :: "nat \<Rightarrow> byte"

record memory =
  cells :: "ptr \<Rightarrow> mbuf option"
  brk :: ptr

definition copy_bytes ::
  "(nat \<Rightarrow> byte) \<Rightarrow> nat \<Rightarrow> (nat \<Rightarrow> byte) \<Rightarrow> nat \<Rightarrow> nat \<Rightarrow> (nat \<Rightarrow> byte)" where
  "copy_bytes dst doff src soff n =
     (\<lambda>i. if doff \<le> i \<and> i < doff + n then src (soff + (i - doff)) else dst i)"

lemma copy_bytes_in [mem_simps]:
  "doff \<le> i \<Longrightarrow> i < doff + n \<Longrightarrow> copy_bytes dst doff src soff n i = src (soff + (i - doff))"
  by (simp add: copy_bytes_def)

lemma copy_bytes_out [mem_simps]:
  "i < doff \<or> doff + n \<le> i \<Longrightarrow> copy_bytes dst doff src soff n i = dst i"
  by (auto simp: copy_bytes_def)

text \<open>
  Copying a range out and in again: the round trip through a staging buffer.
\<close>

lemma copy_bytes_roundtrip [mem_simps]:
  assumes "doff \<le> j" and "j < doff + n"
  shows "copy_bytes d2 doff (copy_bytes d1 off2 src soff n) off2 n j = src (soff + (j - doff))"
  using assms by (auto simp: copy_bytes_def)

definition mem_buf :: "memory \<Rightarrow> ptr \<Rightarrow> mbuf res" where
  "mem_buf m p =
     (if p = NULL then Inl NullDeref
      else case cells m p of None \<Rightarrow> Inl OutOfBounds | Some b \<Rightarrow> Inr b)"

text \<open>
  \<open>memcpy(dst + doff, src + soff, n)\<close>: both ranges have to lie inside their buffers.
\<close>

definition memcpy :: "ptr \<Rightarrow> nat \<Rightarrow> ptr \<Rightarrow> nat \<Rightarrow> nat \<Rightarrow> memory \<Rightarrow> memory res" where
  "memcpy dst doff src soff n m =
     ebind (mem_buf m dst) (\<lambda>db.
     ebind (mem_buf m src) (\<lambda>sb.
     if doff + n \<le> blen db \<and> soff + n \<le> blen sb
     then Inr (m\<lparr>cells := (cells m)(dst \<mapsto>
            db\<lparr>bdat := copy_bytes (bdat db) doff (bdat sb) soff n\<rparr>)\<rparr>)
     else Inl OutOfBounds))"

text \<open>
  \<open>memcpy(dst + doff, a, n)\<close> from an object \<open>a\<close> outside the heap whose readable size is
  \<open>alen\<close> bytes.
\<close>

definition memcpy_from ::
  "ptr \<Rightarrow> nat \<Rightarrow> (nat \<Rightarrow> byte) \<Rightarrow> nat \<Rightarrow> nat \<Rightarrow> memory \<Rightarrow> memory res" where
  "memcpy_from dst doff a alen n m =
     ebind (mem_buf m dst) (\<lambda>db.
     if doff + n \<le> blen db \<and> n \<le> alen
     then Inr (m\<lparr>cells := (cells m)(dst \<mapsto>
            db\<lparr>bdat := copy_bytes (bdat db) doff a 0 n\<rparr>)\<rparr>)
     else Inl OutOfBounds)"

text \<open>
  Allocation takes a fresh address and never fails; the content is what the allocator
  returns (\<open>calloc\<close> and an anonymous \<open>mmap\<close> return zeroes).
\<close>

definition mem_alloc :: "nat \<Rightarrow> (nat \<Rightarrow> byte) \<Rightarrow> memory \<Rightarrow> ptr \<times> memory" where
  "mem_alloc n content m =
     (brk m, m\<lparr>cells := (cells m)(brk m \<mapsto> \<lparr>blen = n, bdat = content\<rparr>), brk := Suc (brk m)\<rparr>)"

text \<open>
  Memory from \<open>aligned_alloc\<close> is not initialised: for each address its content is some function, of which nothing is known.
\<close>

definition uninit :: "ptr \<Rightarrow> nat \<Rightarrow> byte" where "uninit = undefined"

definition mem_free :: "ptr \<Rightarrow> memory \<Rightarrow> memory res" where
  "mem_free p m =
     (if p = NULL then Inr m
      else case cells m p of None \<Rightarrow> Inl BadFree | Some _ \<Rightarrow> Inr (m\<lparr>cells := (cells m)(p := None)\<rparr>))"

text \<open>No live buffer has the null address or an address that is still to be handed out.\<close>

definition mem_wf :: "memory \<Rightarrow> bool" where
  "mem_wf m \<longleftrightarrow> 0 < brk m \<and> cells m 0 = None \<and> (\<forall>p. brk m \<le> p \<longrightarrow> cells m p = None)"

lemma mem_wf_alloc: "mem_wf m \<Longrightarrow> mem_alloc n c m = (p, m') \<Longrightarrow> mem_wf m' \<and> cells m p = None \<and> p \<noteq> NULL"
  by (auto simp: mem_wf_def mem_alloc_def)

lemma mem_wf_memcpy: "mem_wf m \<Longrightarrow> memcpy dst doff src soff n m = Inr m' \<Longrightarrow> mem_wf m'"
  by (auto simp: mem_wf_def memcpy_def mem_buf_def res_simps split: if_splits option.splits)

lemma mem_wf_memcpy_from: "mem_wf m \<Longrightarrow> memcpy_from dst doff a l n m = Inr m' \<Longrightarrow> mem_wf m'"
  by (auto simp: mem_wf_def memcpy_from_def mem_buf_def res_simps split: if_splits option.splits)

lemma mem_wf_free: "mem_wf m \<Longrightarrow> mem_free p m = Inr m' \<Longrightarrow> mem_wf m'"
  by (auto simp: mem_wf_def mem_free_def split: if_splits option.splits)

lemma memcpy_ok:
  assumes "cells m dst = Some db" "cells m src = Some sb" "dst \<noteq> NULL" "src \<noteq> NULL"
    and "doff + n \<le> blen db" "soff + n \<le> blen sb"
  shows "memcpy dst doff src soff n m = Inr (m\<lparr>cells := (cells m)(dst \<mapsto>
            db\<lparr>bdat := copy_bytes (bdat db) doff (bdat sb) soff n\<rparr>)\<rparr>)"
  using assms by (simp add: memcpy_def mem_buf_def)

subsection \<open>Signed division of C (towards zero)\<close>

definition c_div :: "int \<Rightarrow> int \<Rightarrow> int" where
  "c_div a b = sgn a * sgn b * (\<bar>a\<bar> div \<bar>b\<bar>)"

definition c_mod :: "int \<Rightarrow> int \<Rightarrow> int" where
  "c_mod a b = sgn a * (\<bar>a\<bar> mod \<bar>b\<bar>)"

lemma c_div_nonneg [simp]: "0 \<le> a \<Longrightarrow> 0 < b \<Longrightarrow> c_div a b = a div b"
  by (cases "a = 0") (simp_all add: c_div_def)

lemma c_mod_nonneg [simp]: "0 \<le> a \<Longrightarrow> 0 < b \<Longrightarrow> c_mod a b = a mod b"
  by (cases "a = 0") (simp_all add: c_mod_def)

subsection \<open>Words\<close>

lemma unat_u32_lt [simp]: "unat (s :: u32) < 4294967296"
  using unsigned_less [of s, where ?'a = nat] by simp

lemma unat_u64_lt [simp]: "unat (s :: u64) < 18446744073709551616"
  using unsigned_less [of s, where ?'a = nat] by simp

lemma unat_u8_lt [simp]: "unat (s :: u8) < 256"
  using unsigned_less [of s, where ?'a = nat] by simp

lemma unat_ucast_32_64 [simp]: "unat (ucast (s :: u32) :: u64) = unat s"
  by (simp add: unsigned_ucast_eq take_bit_nat_eq_self less_trans [OF unat_u32_lt])

lemma unat_ucast_8_32 [simp]: "unat (ucast (s :: u8) :: u32) = unat s"
  by (simp add: unsigned_ucast_eq take_bit_nat_eq_self less_trans [OF unat_u8_lt])

lemma unat_ucast_small:
  "unat (w :: 'a::len word) < 2 ^ LENGTH('b) \<Longrightarrow> unat (ucast w :: 'b::len word) = unat w"
  by (simp only: unsigned_ucast_eq take_bit_nat_eq_self)

lemma unat_add_u64: "unat a + unat b < 18446744073709551616 \<Longrightarrow> unat (a + b :: u64) = unat a + unat b"
  by (simp add: unat_word_ariths)

lemma unat_mult_u64: "unat a * unat b < 18446744073709551616 \<Longrightarrow> unat (a * b :: u64) = unat a * unat b"
  by (simp add: unat_word_ariths)

lemma unat_add_u32: "unat a + unat b < 4294967296 \<Longrightarrow> unat (a + b :: u32) = unat a + unat b"
  by (simp add: unat_word_ariths)

lemma unat_mult_u32: "unat a * unat b < 4294967296 \<Longrightarrow> unat (a * b :: u32) = unat a * unat b"
  by (simp add: unat_word_ariths)

lemma unat_diff: "unat (b :: 'a::len word) \<le> unat a \<Longrightarrow> unat (a - b) = unat a - unat b"
  by (simp add: unat_sub word_le_nat_alt)

lemma unat_of_nat_u64: "n < 18446744073709551616 \<Longrightarrow> unat (of_nat n :: u64) = n"
  by (simp add: unat_of_nat)

lemma unat_of_nat_u32: "n < 4294967296 \<Longrightarrow> unat (of_nat n :: u32) = n"
  by (simp add: unat_of_nat)

lemmas unat_u64_arith = unat_add_u64 unat_mult_u64 unat_diff unat_div unat_mod unat_of_nat_u64
lemmas unat_u32_arith = unat_add_u32 unat_mult_u32 unat_diff unat_div unat_mod unat_of_nat_u32

end
