(* ===== verification/Stopwatch.thy ===== *)
theory Stopwatch
  imports Prelude
begin

section \<open>The stopwatch (\<open>include/stopwatch.h\<close>)\<close>

text \<open>
  Elapsed time between two readings of the clock, in microseconds. The reading of
  \<open>gettimeofday\<close> is an argument of the operations that take one. Times are unbounded integers,
  where the source has a \<open>time_t\<close> of 64 bits: below 292000 years the number of microseconds is the same.
\<close>

record timeval =
  tv_sec :: int
  tv_usec :: int

record stopwatch =
  sw_start_tv :: timeval
  sw_end_tv :: timeval
  lap_sum :: int

definition sw_create :: stopwatch where
  "sw_create = \<lparr>sw_start_tv = \<lparr>tv_sec = 0, tv_usec = 0\<rparr>, sw_end_tv = \<lparr>tv_sec = 0, tv_usec = 0\<rparr>,
     lap_sum = 0\<rparr>"

definition sw_start :: "timeval \<Rightarrow> stopwatch \<Rightarrow> stopwatch" where
  "sw_start clock sw = sw\<lparr>sw_start_tv := clock\<rparr>"

definition sw_end :: "timeval \<Rightarrow> stopwatch \<Rightarrow> stopwatch" where
  "sw_end clock sw = sw\<lparr>sw_end_tv := clock\<rparr>"

definition sw_get_usec :: "stopwatch \<Rightarrow> int" where
  "sw_get_usec sw =
     (tv_sec (sw_end_tv sw) - tv_sec (sw_start_tv sw)) * 1000000 +
     (tv_usec (sw_end_tv sw) - tv_usec (sw_start_tv sw))"

text \<open>The numbers \<open>sw_print\<close> writes: seconds, milliseconds, microseconds (C division).\<close>

definition sw_print :: "stopwatch \<Rightarrow> int \<times> int \<times> int" where
  "sw_print sw =
     (let usec = sw_get_usec sw
      in (c_div usec 1000000, c_mod (c_div usec 1000) 1000, c_mod usec 1000))"

definition sw_lap :: "timeval \<Rightarrow> stopwatch \<Rightarrow> stopwatch" where
  "sw_lap clock sw = (let sw' = sw_end clock sw in sw'\<lparr>lap_sum := lap_sum sw' + sw_get_usec sw'\<rparr>)"

definition sw_get_lap_sum :: "stopwatch \<Rightarrow> int" where
  "sw_get_lap_sum sw = lap_sum sw"

definition tv_usecs :: "timeval \<Rightarrow> int" where
  "tv_usecs t = tv_sec t * 1000000 + tv_usec t"

lemma sw_get_usec_diff: "sw_get_usec sw = tv_usecs (sw_end_tv sw) - tv_usecs (sw_start_tv sw)"
  by (simp add: sw_get_usec_def tv_usecs_def algebra_simps)

lemma sw_elapsed: "sw_get_usec (sw_end t2 (sw_start t1 sw)) = tv_usecs t2 - tv_usecs t1"
  by (simp add: sw_get_usec_diff sw_start_def sw_end_def)

text \<open>A sequence of laps, each started and ended at the given readings.\<close>

fun sw_laps :: "(timeval \<times> timeval) list \<Rightarrow> stopwatch \<Rightarrow> stopwatch" where
  "sw_laps [] sw = sw"
| "sw_laps ((t1, t2) # ts) sw = sw_laps ts (sw_lap t2 (sw_start t1 sw))"

text \<open>
  The lap sum of a stopwatch is the sum of the elapsed microseconds of its laps, and what
  \<open>sw_print\<close> writes adds up to the elapsed time whenever that is not negative.
\<close>

theorem sw_laps_sum:
  "sw_get_lap_sum (sw_laps ts sw_create) = (\<Sum>(t1, t2) \<leftarrow> ts. tv_usecs t2 - tv_usecs t1) \<and>
   (0 \<le> sw_get_usec sw \<longrightarrow>
     (case sw_print sw of (s, ms, us) \<Rightarrow>
        s * 1000000 + ms * 1000 + us = sw_get_usec sw \<and> 0 \<le> ms \<and> ms < 1000 \<and> 0 \<le> us \<and> us < 1000))"
proof -
  have gen: "lap_sum (sw_laps ts w) = lap_sum w + (\<Sum>(t1, t2) \<leftarrow> ts. tv_usecs t2 - tv_usecs t1)" for w
  proof (induction ts arbitrary: w)
    case Nil
    show ?case by simp
  next
    case (Cons t ts)
    obtain t1 t2 where t: "t = (t1, t2)" by (cases t)
    have "lap_sum (sw_lap t2 (sw_start t1 w)) = lap_sum w + (tv_usecs t2 - tv_usecs t1)"
      using sw_elapsed [of t2 t1 w] by (simp add: sw_lap_def Let_def sw_end_def sw_start_def)
    with Cons.IH [of "sw_lap t2 (sw_start t1 w)"] t show ?case by simp
  qed
  have print: "s * 1000000 + ms * 1000 + us = sw_get_usec sw \<and> 0 \<le> ms \<and> ms < 1000 \<and> 0 \<le> us \<and> us < 1000"
    if "0 \<le> sw_get_usec sw" "sw_print sw = (s, ms, us)" for s ms us
  proof -
    define u where "u = sw_get_usec sw"
    from that have "s = u div 1000000" "ms = u div 1000 mod 1000" "us = u mod 1000"
      by (auto simp: sw_print_def Let_def u_def [symmetric] pos_imp_zdiv_nonneg_iff)
    moreover have "u div 1000000 = u div 1000 div 1000" using zdiv_zmult2_eq [of 1000 u 1000] by simp
    ultimately have "s * 1000000 + ms * 1000 + us
        = (u div 1000 div 1000 * 1000 + u div 1000 mod 1000) * 1000 + u mod 1000"
      and "0 \<le> ms \<and> ms < 1000 \<and> 0 \<le> us \<and> us < 1000" by (simp_all only: algebra_simps) simp_all
    then show ?thesis unfolding u_def [symmetric] by (simp only: div_mult_mod_eq)
  qed
  have "sw_get_lap_sum (sw_laps ts sw_create) = (\<Sum>(t1, t2) \<leftarrow> ts. tv_usecs t2 - tv_usecs t1)"
    using gen [of sw_create] by (simp add: sw_get_lap_sum_def sw_create_def)
  with print show ?thesis by (cases "sw_print sw") simp
qed

theorem sw_laps_sum_witness:
  "0 \<le> sw_get_usec (sw_end \<lparr>tv_sec = 3, tv_usec = 4\<rparr> (sw_start \<lparr>tv_sec = 1, tv_usec = 999999\<rparr> sw_create)) \<and>
   sw_print (sw_end \<lparr>tv_sec = 3, tv_usec = 4\<rparr> (sw_start \<lparr>tv_sec = 1, tv_usec = 999999\<rparr> sw_create)) = (1, 0, 5)"
proof -
  let ?w = "sw_end \<lparr>tv_sec = 3, tv_usec = 4\<rparr> (sw_start \<lparr>tv_sec = 1, tv_usec = 999999\<rparr> sw_create)"
  have u: "sw_get_usec ?w = 1000005" by (simp add: sw_elapsed tv_usecs_def)
  show ?thesis using sw_laps_sum [of "[]" ?w] by (simp add: u) (simp add: sw_print_def u)
qed

end
