(* ===== verification/Timing.thy ===== *)
theory Timing
  imports Stopwatch Complex_Main
begin

section \<open>Seconds as a floating-point number (\<open>sw_get_sec\<close> of \<open>include/stopwatch.h\<close>)\<close>

text \<open>
  The client prints the elapsed seconds and the throughput from a \<open>double\<close>. The arithmetic of the processor is an argument: \<open>rnd\<close> rounds a real number to a double, and
  every conversion, division and addition of the source is one rounding. Documented behaviour of the binary64 format, in the range that occurs here (no overflow, no subnormal numbers): integers up
  to \<open>2 ^ 53\<close> are exact, and the relative error of a rounding is at most \<open>2 ^ -53\<close>.
\<close>

definition sw_get_sec :: "(real \<Rightarrow> real) \<Rightarrow> stopwatch \<Rightarrow> real" where
  "sw_get_sec rnd sw =
     (let sec = tv_sec (sw_end_tv sw) - tv_sec (sw_start_tv sw);
          usec = tv_usec (sw_end_tv sw) - tv_usec (sw_start_tv sw);
          ret = rnd (of_int sec)
      in rnd (ret + rnd (rnd (of_int usec) / 1000000)))"

definition rounds :: "(real \<Rightarrow> real) \<Rightarrow> bool" where
  "rounds rnd \<longleftrightarrow> (\<forall>n. \<bar>n\<bar> \<le> 2 ^ 53 \<longrightarrow> rnd (of_int n) = of_int n) \<and> (\<forall>x. \<bar>rnd x - x\<bar> \<le> \<bar>x\<bar> / 2 ^ 53)"

definition tv_wf :: "timeval \<Rightarrow> bool" where
  "tv_wf t \<longleftrightarrow> 0 \<le> tv_usec t \<and> tv_usec t < 1000000"

lemma rnd_twice:
  fixes a b c :: real
  assumes b: "\<bar>b - x\<bar> \<le> \<bar>x\<bar> * u" and c: "\<bar>c - (a + b)\<bar> \<le> \<bar>a + b\<bar> * u" and x: "\<bar>x\<bar> \<le> 1" and u: "0 \<le> u" "u \<le> 1"
  shows "\<bar>c - (a + x)\<bar> \<le> (\<bar>a\<bar> + 3) * u"
proof -
  have bx: "\<bar>b - x\<bar> \<le> u" using b mult_right_mono [OF x u(1)] by simp
  then have "\<bar>a + b\<bar> \<le> \<bar>a\<bar> + 2" using x u(2) by linarith
  from mult_right_mono [OF this u(1)] c bx show ?thesis by (simp add: algebra_simps)
qed

text \<open>
  The seconds the client reports. For two readings of the clock less than a million seconds apart, \<open>sw_get_sec\<close> differs from the exact elapsed time, \<open>sw_get_usec\<close> microseconds, by less than a nanosecond,
  also when the microseconds of the end are below those of the start.
\<close>

theorem sw_get_sec_error:
  assumes "rounds rnd" and "tv_wf (sw_start_tv sw)" and "tv_wf (sw_end_tv sw)" and "\<bar>tv_sec (sw_end_tv sw) - tv_sec (sw_start_tv sw)\<bar> \<le> 1000000"
  shows "\<bar>sw_get_sec rnd sw - of_int (sw_get_usec sw) / 1000000\<bar> < 1 / 10 ^ 9"
proof -
  define s where "s = tv_sec (sw_end_tv sw) - tv_sec (sw_start_tv sw)"
  define v where "v = tv_usec (sw_end_tv sw) - tv_usec (sw_start_tv sw)"
  define x where "x = (of_int v :: real) / 1000000"
  have sv: "\<bar>s\<bar> \<le> 1000000" "\<bar>v\<bar> \<le> 1000000" using assms(2-4) by (auto simp: s_def v_def tv_wf_def)
  have ex: "rnd (of_int s) = of_int s" "rnd (of_int v) = of_int v" using assms(1) sv by (auto simp: rounds_def)
  have rel: "\<bar>rnd y - y\<bar> \<le> \<bar>y\<bar> * (1 / 2 ^ 53)" for y using assms(1) by (simp add: rounds_def)
  have "\<bar>of_int v :: real\<bar> \<le> 1000000" "\<bar>of_int s :: real\<bar> \<le> 1000000" using sv by linarith+
  then have x: "\<bar>x\<bar> \<le> 1" and s: "\<bar>of_int s :: real\<bar> \<le> 1000000" by (simp_all add: x_def)
  have "\<bar>rnd (of_int s + rnd x) - (of_int s + x)\<bar> \<le> (\<bar>of_int s\<bar> + 3) * (1 / 2 ^ 53)"
    by (rule rnd_twice [OF rel rel x]) simp_all
  also have "\<dots> \<le> 1000003 * (1 / 2 ^ 53)" using s by (intro mult_right_mono) simp_all
  also have "\<dots> < 1 / 10 ^ 9" by simp
  finally have "\<bar>rnd (of_int s + rnd x) - (of_int s + x)\<bar> < 1 / 10 ^ 9" .
  moreover have "sw_get_sec rnd sw = rnd (of_int s + rnd x)"
    by (simp add: sw_get_sec_def Let_def x_def ex flip: s_def v_def)
  moreover have "of_int (sw_get_usec sw) / 1000000 = of_int s + x"
    by (simp add: sw_get_usec_def x_def field_simps flip: s_def v_def)
  ultimately show ?thesis by metis
qed

theorem sw_get_sec_error_witness:
  "rounds (\<lambda>x. x) \<and> \<bar>sw_get_sec (\<lambda>x. x) (sw_end \<lparr>tv_sec = 3, tv_usec = 4\<rparr> (sw_start \<lparr>tv_sec = 1, tv_usec = 999999\<rparr> sw_create)) - 1000005 / 1000000\<bar> < 1 / 10 ^ 9"
proof -
  let ?w = "sw_end \<lparr>tv_sec = 3, tv_usec = 4\<rparr> (sw_start \<lparr>tv_sec = 1, tv_usec = 999999\<rparr> sw_create)"
  have "rounds (\<lambda>x. x)" by (simp add: rounds_def)
  moreover have "sw_get_usec ?w = 1000005" by (simp add: sw_elapsed tv_usecs_def)
  ultimately show ?thesis using sw_get_sec_error [of "\<lambda>x. x" ?w] by (simp add: sw_start_def sw_end_def tv_wf_def)
qed

end
