(* ===== verification/Queue.thy ===== *)
theory Queue
  imports Prelude
begin

section \<open>The bounded queue (\<open>src/queue.c\<close>, \<open>include/queue.h\<close>)\<close>

text \<open>
  A mutex-protected singly linked list with a size and a capacity. The nodes live in a store
  indexed by address, the fields \<open>head\<close>, \<open>tail\<close> and \<open>node_next\<close> are addresses (0 is
  \<open>NULL\<close>), and every dereference of a node that is not allocated is a crash. Each operation
  runs under the queue's mutex from its first to its last line, so it is one atomic function.
  The union \<open>d\<close> is the type parameter: \<open>ptr\<close> for the queues of pointers, \<open>int\<close> for the
  queues of integers. The field \<open>prev\<close> of a node is never accessed and has no counterpart.

  The section on refinement relates the linked structure to a list: \<open>q_rep q as\<close> says that
  the nodes of \<open>q\<close> are exactly the addresses \<open>as\<close>, in order; \<open>q_list\<close> is the sequence of
  payloads. The locale \<open>bounded_fifo\<close> is the interface the handler relies on.
\<close>

subsection \<open>Data and operations\<close>

record 'a node =
  node_d :: 'a
  node_next :: ptr

record 'a queue =
  qsize :: int
  m_size :: int
  firstFlag :: bool
  head :: ptr
  tail :: ptr
  nodes :: "ptr \<Rightarrow> 'a node option"
  qbrk :: ptr

definition q_init :: "int \<Rightarrow> 'a queue" where
  "q_init qs = \<lparr>qsize = 0, m_size = qs, firstFlag = True, head = NULL, tail = NULL,
     nodes = (\<lambda>_. None), qbrk = 1\<rparr>"

definition node_at :: "'a queue \<Rightarrow> ptr \<Rightarrow> 'a node res" where
  "node_at q p =
     (if p = NULL then Inl NullDeref
      else case nodes q p of None \<Rightarrow> Inl OutOfBounds | Some n \<Rightarrow> Inr n)"

definition q_new_node :: "'a \<Rightarrow> 'a queue \<Rightarrow> 'a queue" where
  "q_new_node x q =
     q\<lparr>nodes := (nodes q)(qbrk q \<mapsto> \<lparr>node_d = x, node_next = NULL\<rparr>), qbrk := Suc (qbrk q)\<rparr>"

definition node_set_next :: "ptr \<Rightarrow> ptr \<Rightarrow> 'a queue \<Rightarrow> 'a queue res" where
  "node_set_next p nx q =
     ebind (node_at q p) (\<lambda>n. Inr (q\<lparr>nodes := (nodes q)(p \<mapsto> n\<lparr>node_next := nx\<rparr>)\<rparr>))"

definition q_enqueue :: "'a \<Rightarrow> 'a queue \<Rightarrow> (bool \<times> 'a queue) res" where
  "q_enqueue req q =
     (if qsize q = m_size q then Inr (False, q)
      else
        let new_node = qbrk q; q1 = q_new_node req q
        in if qsize q1 = 0
           then Inr (True, q1\<lparr>head := new_node, tail := new_node, qsize := qsize q1 + 1\<rparr>)
           else ebind (node_set_next (tail q1) new_node q1) (\<lambda>q2.
                Inr (True, q2\<lparr>tail := new_node, qsize := qsize q2 + 1\<rparr>)))"

definition q_enqueue_front :: "'a \<Rightarrow> 'a queue \<Rightarrow> (bool \<times> 'a queue) res" where
  "q_enqueue_front req q =
     (if qsize q = m_size q then Inr (False, q)
      else
        let new_node = qbrk q; q1 = q_new_node req q
        in if qsize q1 = 0
           then Inr (True, q1\<lparr>head := new_node, tail := new_node, qsize := qsize q1 + 1\<rparr>)
           else ebind (node_set_next new_node (head q1) q1) (\<lambda>q2.
                Inr (True, q2\<lparr>head := new_node, qsize := qsize q2 + 1\<rparr>)))"

text \<open>The common tail of \<open>q_dequeue\<close> and \<open>q_dequeue_int\<close>: unlink and free the head node.\<close>

definition q_unlink_head :: "'a queue \<Rightarrow> ('a \<times> 'a queue) res" where
  "q_unlink_head q =
     ebind (node_at q (head q)) (\<lambda>target.
     Inr (node_d target,
          q\<lparr>head := node_next target, qsize := qsize q - 1, nodes := (nodes q)(head q := None)\<rparr>))"

definition q_dequeue :: "ptr queue \<Rightarrow> (ptr \<times> ptr queue) res" where
  "q_dequeue q =
     (if head q = NULL \<or> qsize q = 0 then Inr (NULL, q) else q_unlink_head q)"

definition q_pick :: "ptr queue \<Rightarrow> ptr res" where
  "q_pick q =
     (if head q = NULL \<or> qsize q = 0 then Inr NULL
      else ebind (node_at q (head q)) (\<lambda>target. Inr (node_d target)))"

definition q_enqueue_int :: "int \<Rightarrow> int queue \<Rightarrow> (bool \<times> int queue) res" where
  "q_enqueue_int req q =
     (if qsize q = m_size q then Inr (False, q)
      else
        let new_node = qbrk q; q1 = q_new_node req q
        in if qsize q1 = 0
           then Inr (True, q1\<lparr>head := new_node, tail := new_node, qsize := qsize q1 + 1\<rparr>)
           else ebind (node_set_next (tail q1) new_node q1) (\<lambda>q2.
                Inr (True, q2\<lparr>tail := new_node, qsize := qsize q2 + 1\<rparr>)))"

definition q_dequeue_int :: "int queue \<Rightarrow> (int \<times> int queue) res" where
  "q_dequeue_int q =
     (if head q = NULL \<or> qsize q = 0 then Inr (0, q) else q_unlink_head q)"

text \<open>
  The loop of \<open>q_free\<close> runs until \<open>q_dequeue\<close> returns a null pointer; \<open>None\<close> is a loop that
  does not return. The result is the queue just before its own storage is released.
\<close>

partial_function (option) q_free :: "ptr queue \<Rightarrow> ptr queue res option" where
  "q_free q =
     (case q_dequeue q of
        Inl e \<Rightarrow> Some (Inl e)
      | Inr (r, q') \<Rightarrow> (if r = NULL then Some (Inr q') else q_free q'))"

text \<open>
  The macro \<open>for_each_intqueue\<close> of \<open>queue.h\<close>: its loop ends when \<open>q_dequeue_int\<close> returns -1.
\<close>

partial_function (option) for_each_intqueue :: "int queue \<Rightarrow> int list \<Rightarrow> (int list \<times> int queue) res option" where
  "for_each_intqueue q seen =
     (case q_dequeue_int q of
        Inl e \<Rightarrow> Some (Inl e)
      | Inr (a, q') \<Rightarrow> (if a = -1 then Some (Inr (seen, q')) else for_each_intqueue q' (seen @ [a])))"

subsection \<open>The linked structure represents a list\<close>

fun chain :: "(ptr \<Rightarrow> 'a node option) \<Rightarrow> ptr \<Rightarrow> ptr list \<Rightarrow> bool" where
  "chain ns p [] \<longleftrightarrow> p = NULL"
| "chain ns p (a # as) \<longleftrightarrow> p = a \<and> a \<noteq> NULL \<and> ns a \<noteq> None \<and> chain ns (node_next (the (ns a))) as"

fun walk :: "(ptr \<Rightarrow> 'a node option) \<Rightarrow> ptr \<Rightarrow> nat \<Rightarrow> 'a list" where
  "walk ns p 0 = []"
| "walk ns p (Suc k) = (case ns p of None \<Rightarrow> [] | Some n \<Rightarrow> node_d n # walk ns (node_next n) k)"

definition q_list :: "'a queue \<Rightarrow> 'a list" where
  "q_list q = walk (nodes q) (head q) (nat (qsize q))"

definition q_rep :: "'a queue \<Rightarrow> ptr list \<Rightarrow> bool" where
  "q_rep q as \<longleftrightarrow>
     chain (nodes q) (head q) as \<and> distinct as \<and> dom (nodes q) = set as \<and>
     (\<forall>a \<in> set as. a < qbrk q) \<and> 0 < qbrk q \<and>
     qsize q = int (length as) \<and> qsize q \<le> m_size q \<and> (as \<noteq> [] \<longrightarrow> tail q = last as)"

definition q_inv :: "'a queue \<Rightarrow> bool" where
  "q_inv q \<longleftrightarrow> (\<exists>as. q_rep q as)"

definition payloads :: "(ptr \<Rightarrow> 'a node option) \<Rightarrow> ptr list \<Rightarrow> 'a list" where
  "payloads ns as = map (\<lambda>a. node_d (the (ns a))) as"

lemma walk_chain: "chain ns p as \<Longrightarrow> walk ns p (length as) = payloads ns as"
  by (induction as arbitrary: p) (auto simp: payloads_def)

lemma q_list_rep: "q_rep q as \<Longrightarrow> q_list q = payloads (nodes q) as"
  by (simp add: q_list_def q_rep_def walk_chain)

lemma chain_upd [simp]: "a \<notin> set as \<Longrightarrow> chain (ns(a := v)) p as = chain ns p as"
  by (induction as arbitrary: p) auto

lemma chain_nonnull: "chain ns p as \<Longrightarrow> a \<in> set as \<Longrightarrow> a \<noteq> NULL"
  by (induction as arbitrary: p) auto

lemma payloads_upd [simp]: "a \<notin> set as \<Longrightarrow> payloads (ns(a := v)) as = payloads ns as"
  by (auto simp: payloads_def)

lemma payloads_append: "payloads ns (as @ bs) = payloads ns as @ payloads ns bs"
  by (simp add: payloads_def)

lemma chain_snoc:
  assumes "chain ns p (bs @ [t])" "distinct (bs @ [t])" "b \<notin> set (bs @ [t])" "b \<noteq> NULL"
    and "ns t = Some n"
  shows "chain (ns(b \<mapsto> \<lparr>node_d = x, node_next = NULL\<rparr>, t \<mapsto> n\<lparr>node_next := b\<rparr>)) p (bs @ [t, b])"
  using assms by (induction bs arbitrary: p) auto

lemma q_rep_fresh: "q_rep q as \<Longrightarrow> qbrk q \<notin> set as \<and> qbrk q \<noteq> NULL"
  by (auto simp: q_rep_def)

lemma q_init_rep: "0 \<le> m \<Longrightarrow> q_rep (q_init m) []"
  by (simp add: q_rep_def q_init_def)

lemma q_init_inv [simp, intro]: "0 \<le> m \<Longrightarrow> q_inv (q_init m)"
  using q_init_rep by (auto simp: q_inv_def)

lemma m_size_q_init [simp]: "m_size (q_init m) = m"
  by (simp add: q_init_def)

lemma q_init_list [simp]: "q_list (q_init m) = []"
  by (simp add: q_list_def q_init_def)

lemma q_inv_size: "q_inv q \<Longrightarrow> qsize q = int (length (q_list q)) \<and> qsize q \<le> m_size q"
proof -
  assume "q_inv q"
  then obtain as where r: "q_rep q as" by (auto simp: q_inv_def)
  then have "length (q_list q) = length as" by (simp add: q_list_rep payloads_def)
  with r show ?thesis by (simp add: q_rep_def)
qed

subsection \<open>Each operation on the list\<close>

lemma q_enqueue_rep:
  assumes r: "q_rep q as" and room: "qsize q < m_size q"
  shows "\<exists>q'. q_enqueue x q = Inr (True, q') \<and> q_rep q' (as @ [qbrk q]) \<and>
           q_list q' = q_list q @ [x] \<and> m_size q' = m_size q"
proof (cases as rule: rev_cases)
  case Nil
  then have "q_list q = []" using q_list_rep [OF r] by (simp add: payloads_def)
  with Nil r room show ?thesis
    by (auto simp: q_enqueue_def q_new_node_def q_rep_def Let_def q_list_def numeral_2_eq_2)
next
  case (snoc bs t)
  let ?b = "qbrk q"
  from r snoc obtain n where n: "nodes q t = Some n" by (auto simp: q_rep_def dest: equalityD2)
  have t: "tail q = t" "t \<noteq> NULL" "qsize q \<noteq> 0" "t \<noteq> ?b"
    using r snoc n by (auto simp: q_rep_def dest: equalityD2 chain_nonnull)
  let ?ns = "(nodes q)(?b \<mapsto> \<lparr>node_d = x, node_next = NULL\<rparr>, t \<mapsto> n\<lparr>node_next := ?b\<rparr>)"
  let ?q = "q\<lparr>tail := ?b, qsize := qsize q + 1, nodes := ?ns, qbrk := Suc ?b\<rparr>"
  have eq: "q_enqueue x q = Inr (True, ?q)"
    using t n room by (simp add: q_enqueue_def q_new_node_def node_set_next_def node_at_def Let_def)
  have ch: "chain ?ns (head q) (bs @ [t, ?b])"
    by (rule chain_snoc) (use r snoc n q_rep_fresh [OF r] in \<open>auto simp: q_rep_def\<close>)
  have rep': "q_rep ?q (as @ [?b])"
    using ch r snoc room q_rep_fresh [OF r] by (auto simp: q_rep_def)
  have "t \<notin> set bs" using r snoc by (auto simp: q_rep_def)
  then have "payloads ?ns (as @ [?b]) = payloads (nodes q) as @ [x]"
    using snoc t n q_rep_fresh [OF r] by (simp add: payloads_append) (simp add: payloads_def)
  then have "q_list ?q = q_list q @ [x]"
    using q_list_rep [OF rep'] q_list_rep [OF r] by simp
  with eq rep' show ?thesis by auto
qed

lemma q_enqueue_front_rep:
  assumes r: "q_rep q as" and room: "qsize q < m_size q"
  shows "\<exists>q'. q_enqueue_front x q = Inr (True, q') \<and> q_rep q' (qbrk q # as) \<and>
           q_list q' = x # q_list q \<and> m_size q' = m_size q"
proof (cases as)
  case Nil
  then have "q_list q = []" using q_list_rep [OF r] by (simp add: payloads_def)
  with Nil r room show ?thesis
    by (auto simp: q_enqueue_front_def q_new_node_def q_rep_def Let_def q_list_def numeral_2_eq_2)
next
  case (Cons a as')
  let ?b = "qbrk q"
  let ?ns = "(nodes q)(?b \<mapsto> \<lparr>node_d = x, node_next = head q\<rparr>)"
  let ?q = "q\<lparr>head := ?b, qsize := qsize q + 1, nodes := ?ns, qbrk := Suc ?b\<rparr>"
  have eq: "q_enqueue_front x q = Inr (True, ?q)"
    using r Cons room
    by (simp add: q_enqueue_front_def q_new_node_def node_set_next_def node_at_def Let_def q_rep_def)
  have rep': "q_rep ?q (?b # as)"
    using r Cons room q_rep_fresh [OF r] by (auto simp: q_rep_def)
  have "payloads ?ns (?b # as) = x # payloads (nodes q) as"
    using q_rep_fresh [OF r] by (simp add: payloads_def)
  then have "q_list ?q = x # q_list q"
    using q_list_rep [OF rep'] q_list_rep [OF r] by simp
  with eq rep' show ?thesis by auto
qed

lemma q_unlink_head_rep:
  assumes r: "q_rep q (a # as)"
  shows "\<exists>q'. q_unlink_head q = Inr (hd (q_list q), q') \<and> q_rep q' as \<and>
           q_list q' = tl (q_list q) \<and> m_size q' = m_size q"
proof -
  from r obtain n where n: "nodes q a = Some n" and a: "head q = a" "a \<noteq> NULL" "a \<notin> set as"
    by (auto simp: q_rep_def)
  let ?q = "q\<lparr>head := node_next n, qsize := qsize q - 1, nodes := (nodes q)(a := None)\<rparr>"
  have eq: "q_unlink_head q = Inr (node_d n, ?q)"
    using n a by (simp add: q_unlink_head_def node_at_def)
  have rep': "q_rep ?q as"
    using r n a by (auto simp: q_rep_def)
  have "payloads (nodes q) (a # as) = node_d n # payloads ((nodes q)(a := None)) as"
    using n a by (simp add: payloads_def)
  then show ?thesis
    using eq rep' q_list_rep [OF rep'] q_list_rep [OF r] by auto
qed

lemma q_rep_Nil_iff: "q_rep q as \<Longrightarrow> (as = []) = (q_list q = [])"
  by (auto simp: q_list_rep payloads_def)

lemma q_rep_head: "q_rep q as \<Longrightarrow> (head q = NULL \<or> qsize q = 0) = (as = [])"
  by (cases as) (auto simp: q_rep_def)

subsection \<open>The interface\<close>

text \<open>
  What a client of the queue relies on: an enqueue appends while there is room and is refused,
  changing nothing, when the capacity is reached; a dequeue returns the oldest element, or a
  null pointer when there is none.
\<close>

locale bounded_fifo =
  fixes enq :: "ptr \<Rightarrow> 'q \<Rightarrow> (bool \<times> 'q) res"
    and deq :: "'q \<Rightarrow> (ptr \<times> 'q) res"
    and contents :: "'q \<Rightarrow> ptr list"
    and capacity :: "'q \<Rightarrow> int"
    and invar :: "'q \<Rightarrow> bool"
  assumes enq_room: "invar q \<Longrightarrow> int (length (contents q)) < capacity q \<Longrightarrow>
      \<exists>q'. enq x q = Inr (True, q') \<and> invar q' \<and> contents q' = contents q @ [x] \<and>
           capacity q' = capacity q"
    and enq_full: "invar q \<Longrightarrow> int (length (contents q)) = capacity q \<Longrightarrow> enq x q = Inr (False, q)"
    and deq_nonempty: "invar q \<Longrightarrow> contents q \<noteq> [] \<Longrightarrow>
      \<exists>q'. deq q = Inr (hd (contents q), q') \<and> invar q' \<and> contents q' = tl (contents q) \<and>
           capacity q' = capacity q"
    and deq_empty: "invar q \<Longrightarrow> contents q = [] \<Longrightarrow> deq q = Inr (NULL, q)"
    and within_capacity: "invar q \<Longrightarrow> int (length (contents q)) \<le> capacity q"
begin

lemma enq_total:
  assumes "invar q"
  shows "\<exists>b q'. enq x q = Inr (b, q') \<and> invar q' \<and> capacity q' = capacity q \<and>
           contents q' = (if b then contents q @ [x] else contents q) \<and>
           b = (int (length (contents q)) < capacity q)"
proof (cases "int (length (contents q)) < capacity q")
  case True
  with enq_room [OF assms] show ?thesis by fastforce
next
  case False
  with within_capacity [OF assms] enq_full [OF assms] assms show ?thesis by fastforce
qed

lemma deq_total:
  assumes "invar q"
  shows "\<exists>p q'. deq q = Inr (p, q') \<and> invar q' \<and> capacity q' = capacity q \<and>
           contents q' = tl (contents q) \<and> p = (case contents q of [] \<Rightarrow> NULL | x # _ \<Rightarrow> x)"
proof (cases "contents q")
  case Nil
  with deq_empty [OF assms] assms show ?thesis by simp
next
  case (Cons x xs)
  with deq_nonempty [OF assms] show ?thesis by auto
qed

lemma enq_Inr:
  "invar q \<Longrightarrow> enq x q = Inr (b, q') \<Longrightarrow>
     invar q' \<and> capacity q' = capacity q \<and>
     contents q' = (if b then contents q @ [x] else contents q) \<and>
     b = (int (length (contents q)) < capacity q)"
  using enq_total [of q x] by auto

lemma deq_Inr:
  "invar q \<Longrightarrow> deq q = Inr (p, q') \<Longrightarrow>
     invar q' \<and> capacity q' = capacity q \<and> contents q' = tl (contents q) \<and>
     p = (case contents q of [] \<Rightarrow> NULL | x # _ \<Rightarrow> x)"
  using deq_total [of q] by auto

end

text \<open>Enqueuing and dequeuing sequences, as the initialisation loops of the handler do.\<close>

fun enq_list :: "(ptr \<Rightarrow> 'q \<Rightarrow> (bool \<times> 'q) res) \<Rightarrow> ptr list \<Rightarrow> 'q \<Rightarrow> 'q res" where
  "enq_list enq [] q = Inr q"
| "enq_list enq (x # xs) q = ebind (enq x q) (\<lambda>(_, q'). enq_list enq xs q')"

fun deq_list :: "('q \<Rightarrow> (ptr \<times> 'q) res) \<Rightarrow> nat \<Rightarrow> 'q \<Rightarrow> (ptr list \<times> 'q) res" where
  "deq_list deq 0 q = Inr ([], q)"
| "deq_list deq (Suc n) q =
     ebind (deq q) (\<lambda>(p, q'). ebind (deq_list deq n q') (\<lambda>(ps, q''). Inr (p # ps, q'')))"

context bounded_fifo
begin

lemma enq_list_contents:
  "invar q \<Longrightarrow> int (length (contents q) + length xs) \<le> capacity q \<Longrightarrow>
     \<exists>q'. enq_list enq xs q = Inr q' \<and> invar q' \<and> capacity q' = capacity q \<and>
          contents q' = contents q @ xs"
proof (induction xs arbitrary: q)
  case Nil
  then show ?case by simp
next
  case (Cons x xs)
  from Cons.prems have "int (length (contents q)) < capacity q" by simp
  with enq_room [OF Cons.prems(1)] obtain q1 where
    q1: "enq x q = Inr (True, q1)" "invar q1" "contents q1 = contents q @ [x]" "capacity q1 = capacity q"
    by blast
  with Cons.prems have "int (length (contents q1) + length xs) \<le> capacity q1" by simp
  from Cons.IH [OF q1(2) this] q1 show ?case by auto
qed

lemma deq_list_contents:
  "invar q \<Longrightarrow> n \<le> length (contents q) \<Longrightarrow>
     \<exists>q'. deq_list deq n q = Inr (take n (contents q), q') \<and> invar q' \<and>
          capacity q' = capacity q \<and> contents q' = drop n (contents q)"
proof (induction n arbitrary: q)
  case 0
  then show ?case by simp
next
  case (Suc n)
  then obtain x xs where xs: "contents q = x # xs" by (cases "contents q") auto
  with deq_nonempty [OF Suc.prems(1)] obtain q1 where
    q1: "deq q = Inr (x, q1)" "invar q1" "contents q1 = xs" "capacity q1 = capacity q"
    by auto
  from Suc.prems xs q1(3) have "n \<le> length (contents q1)" by simp
  from Suc.IH [OF q1(2) this] q1 xs show ?case by auto
qed

lemma fifo_roundtrip:
  assumes "invar q" and "contents q = []" and "int (length xs) \<le> capacity q"
  shows "\<exists>q' q''. enq_list enq xs q = Inr q' \<and> deq_list deq (length xs) q' = Inr (xs, q'') \<and>
           contents q'' = []"
proof -
  from assms have "int (length (contents q) + length xs) \<le> capacity q" by simp
  from enq_list_contents [OF assms(1) this] assms(2) obtain q' where
    q': "enq_list enq xs q = Inr q'" "invar q'" "contents q' = xs" by auto
  from deq_list_contents [OF q'(2), of "length xs"] q' show ?thesis by auto
qed

end

interpretation lq: bounded_fifo q_enqueue q_dequeue q_list m_size q_inv
proof unfold_locales
  fix q :: "ptr queue" and x
  assume i: "q_inv q" and l: "int (length (q_list q)) < m_size q"
  then obtain as where r: "q_rep q as" by (auto simp: q_inv_def)
  have lt: "qsize q < m_size q" using q_inv_size [OF i] l by simp
  from q_enqueue_rep [OF r lt, of x]
  show "\<exists>q'. q_enqueue x q = Inr (True, q') \<and> q_inv q' \<and> q_list q' = q_list q @ [x] \<and> m_size q' = m_size q"
    by (auto simp: q_inv_def)
next
  fix q :: "ptr queue" and x
  assume "q_inv q" and "int (length (q_list q)) = m_size q"
  then show "q_enqueue x q = Inr (False, q)"
    using q_inv_size [of q] by (simp add: q_enqueue_def)
next
  fix q :: "ptr queue"
  assume "q_inv q" and ne: "q_list q \<noteq> []"
  then obtain as where r: "q_rep q as" by (auto simp: q_inv_def)
  with ne q_rep_Nil_iff [OF r] obtain a as' where as: "as = a # as'" by (cases as) simp_all
  from q_unlink_head_rep [OF r [unfolded as]]
  show "\<exists>q'. q_dequeue q = Inr (hd (q_list q), q') \<and> q_inv q' \<and> q_list q' = tl (q_list q) \<and> m_size q' = m_size q"
    using q_rep_head [OF r] as by (auto simp: q_dequeue_def q_inv_def)
next
  fix q :: "ptr queue"
  assume "q_inv q" and e: "q_list q = []"
  then obtain as where r: "q_rep q as" by (auto simp: q_inv_def)
  from q_rep_Nil_iff [OF r] e have "as = []" by simp
  with q_rep_head [OF r] show "q_dequeue q = Inr (NULL, q)"
    by (simp add: q_dequeue_def)
next
  fix q :: "ptr queue"
  assume "q_inv q"
  then show "int (length (q_list q)) \<le> m_size q" using q_inv_size [of q] by simp
qed

subsection \<open>Properties\<close>

lemma q_enqueue_front_total:
  assumes i: "q_inv q"
  shows "\<exists>b q'. q_enqueue_front x q = Inr (b, q') \<and> q_inv q' \<and>
           q_list q' = (if b then x # q_list q else q_list q) \<and>
           b = (int (length (q_list q)) < m_size q)"
proof (cases "qsize q < m_size q")
  case True
  from i obtain as where r: "q_rep q as" by (auto simp: q_inv_def)
  from q_enqueue_front_rep [OF r True, of x] True q_inv_size [OF i] show ?thesis
    by (auto simp: q_inv_def)
next
  case False
  with q_inv_size [OF i] have "q_enqueue_front x q = Inr (False, q)" by (simp add: q_enqueue_front_def)
  with False i q_inv_size [OF i] show ?thesis by fastforce
qed

lemma q_pick_hd:
  assumes i: "q_inv q"
  shows "q_pick q = Inr (case q_list q of [] \<Rightarrow> NULL | x # _ \<Rightarrow> x)"
proof -
  from i obtain as where r: "q_rep q as" by (auto simp: q_inv_def)
  show ?thesis
  proof (cases as)
    case Nil
    with q_rep_head [OF r] q_rep_Nil_iff [OF r] show ?thesis by (simp add: q_pick_def)
  next
    case (Cons a as')
    with r obtain n where "nodes q a = Some n" "head q = a" "a \<noteq> NULL" by (auto simp: q_rep_def)
    with Cons q_rep_head [OF r] q_list_rep [OF r] show ?thesis
      by (simp add: q_pick_def node_at_def payloads_def)
  qed
qed

text \<open>
  C21: the linked queue refines a bounded FIFO list. From a well-formed queue no operation
  crashes, and on the list of payloads: \<open>q_enqueue\<close> appends and \<open>q_enqueue_front\<close> prepends
  exactly when the capacity is not reached (otherwise they return false and change nothing),
  \<open>q_dequeue\<close> removes and \<open>q_pick\<close> returns the first payload, a null pointer when there is
  none; every result is well-formed again.
\<close>

theorem queue_refines_bounded_fifo:
  assumes "q_inv q"
  shows "(\<exists>b q'. q_enqueue x q = Inr (b, q') \<and> q_inv q' \<and>
             q_list q' = (if b then q_list q @ [x] else q_list q) \<and>
             b = (int (length (q_list q)) < m_size q))
       \<and> (\<exists>b q'. q_enqueue_front x q = Inr (b, q') \<and> q_inv q' \<and>
             q_list q' = (if b then x # q_list q else q_list q) \<and>
             b = (int (length (q_list q)) < m_size q))
       \<and> (\<exists>q'. q_dequeue q = Inr (case q_list q of [] \<Rightarrow> NULL | y # _ \<Rightarrow> y, q') \<and> q_inv q' \<and>
             q_list q' = tl (q_list q))
       \<and> q_pick q = Inr (case q_list q of [] \<Rightarrow> NULL | y # _ \<Rightarrow> y)"
  using lq.enq_total [OF assms, of x] q_enqueue_front_total [OF assms, of x]
    lq.deq_total [OF assms] q_pick_hd [OF assms]
  by blast

theorem queue_refines_bounded_fifo_witness:
  "(\<exists>b q'. q_enqueue (7 :: ptr) (q_init 2) = Inr (b, q') \<and> q_inv q' \<and> q_list q' = [7] \<and> b)
   \<and> q_pick (q_init 2) = Inr NULL"
proof -
  have i: "q_inv (q_init 2 :: ptr queue)" by simp
  show ?thesis using queue_refines_bounded_fifo [OF i, of 7] by auto
qed

text \<open>
  First in, first out. Any sequence of pointers that fits the capacity of a fresh queue is
  returned by as many dequeues in the order it was enqueued, and leaves the queue empty.
\<close>

theorem queue_fifo_order:
  assumes "length xs \<le> m"
  shows "\<exists>q q'. enq_list q_enqueue xs (q_init (int m)) = Inr q \<and>
           deq_list q_dequeue (length xs) q = Inr (xs, q') \<and> q_list q' = []"
proof -
  have "q_inv (q_init (int m))" and "q_list (q_init (int m)) = []" by simp_all
  moreover have "int (length xs) \<le> m_size (q_init (int m))"
    using assms by (simp add: q_init_def)
  ultimately show ?thesis by (rule lq.fifo_roundtrip)
qed

theorem queue_fifo_order_witness:
  "\<exists>q q'. enq_list q_enqueue [5, 9, 5] (q_init 3) = Inr q \<and>
     deq_list q_dequeue 3 q = Inr ([5, 9, 5], q') \<and> q_list q' = []"
  using queue_fifo_order [of "[5, 9, 5]" 3] by (simp add: numeral_3_eq_3)

lemma q_free_enough:
  "q_inv q \<Longrightarrow> NULL \<notin> set (q_list q) \<Longrightarrow>
     \<exists>q'. q_free q = Some (Inr q') \<and> q_inv q' \<and> q_list q' = []"
proof (induction "q_list q" arbitrary: q)
  case Nil
  then have "q_dequeue q = Inr (NULL, q)" using lq.deq_empty by simp
  then have "q_free q = Some (Inr q)" by (subst q_free.simps) simp
  with Nil show ?case by auto
next
  case (Cons x xs)
  from Cons.hyps(2) have ne: "q_list q \<noteq> []" "hd (q_list q) = x" "tl (q_list q) = xs"
    by (metis list.distinct(1), metis list.sel(1), metis list.sel(3))
  with lq.deq_nonempty [OF Cons.prems(1)] obtain q1 where
    q1: "q_dequeue q = Inr (x, q1)" "q_inv q1" "q_list q1 = xs" by auto
  have "x \<in> set (q_list q)" by (simp add: Cons.hyps(2) [symmetric])
  with Cons.prems(2) have x: "x \<noteq> NULL" by metis
  from Cons.prems(2) have "NULL \<notin> set (q_list q1)" by (simp add: q1(3) Cons.hyps(2) [symmetric])
  from Cons.hyps(1) [OF q1(3) [symmetric] q1(2) this]
  obtain q' where "q_free q1 = Some (Inr q')" "q_inv q'" "q_list q' = []" by auto
  moreover have "q_free q = q_free q1" by (subst q_free.simps) (simp add: q1(1) x)
  ultimately show ?case by auto
qed

text \<open>
  \<open>q_free\<close> returns and leaks nothing: on a well-formed queue without null payloads the
  draining loop ends, without a crash, with every node released.
\<close>

theorem q_free_releases_all:
  assumes "q_inv q" and "NULL \<notin> set (q_list q)"
  shows "\<exists>q'. q_free q = Some (Inr q') \<and> nodes q' = (\<lambda>_. None)"
proof -
  from q_free_enough [OF assms] obtain q' where
    q': "q_free q = Some (Inr q')" "q_inv q'" "q_list q' = []" by auto
  then obtain as where r: "q_rep q' as" by (auto simp: q_inv_def)
  with q_rep_Nil_iff [OF r] q'(3) have "dom (nodes q') = {}" by (simp add: q_rep_def)
  with q'(1) show ?thesis by (auto simp: dom_def)
qed

theorem q_free_releases_all_witness:
  "\<exists>q q'. q_enqueue 7 (q_init 2) = Inr (True, q) \<and> q_free q = Some (Inr q') \<and> nodes q' = (\<lambda>_. None)"
proof -
  have m: "int (length (q_list (q_init 2 :: ptr queue))) < m_size (q_init 2 :: ptr queue)"
    by simp
  have i: "q_inv (q_init 2 :: ptr queue)" by simp
  from lq.enq_room [OF i m, of 7] obtain q :: "ptr queue" where
    q: "q_enqueue 7 (q_init 2) = Inr (True, q)" "q_inv q" "q_list q = [7]" by auto
  from q(3) have nn: "NULL \<notin> set (q_list q)" by simp
  from q_free_releases_all [OF q(2) nn] q(1) show ?thesis by auto
qed

lemma q_dequeue_int_total:
  assumes i: "q_inv q"
  shows "\<exists>q'. q_dequeue_int q = Inr (case q_list q of [] \<Rightarrow> 0 | x # _ \<Rightarrow> x, q') \<and> q_inv q' \<and>
           q_list q' = tl (q_list q)"
proof -
  from i obtain as where r: "q_rep q as" by (auto simp: q_inv_def)
  show ?thesis
  proof (cases as)
    case Nil
    with q_rep_head [OF r] q_rep_Nil_iff [OF r] i show ?thesis by (simp add: q_dequeue_int_def)
  next
    case (Cons a as')
    with r have r': "q_rep q (a # as')" by simp
    from Cons q_rep_Nil_iff [OF r] have "q_list q \<noteq> []" by simp
    with q_unlink_head_rep [OF r'] q_rep_head [OF r'] show ?thesis
      by (cases "q_list q") (auto simp: q_dequeue_int_def q_inv_def)
  qed
qed

lemma for_each_intqueue_needs_minus_one:
  assumes ret: "for_each_intqueue q seen = Some r" and "q_inv q"
  shows "-1 \<in> set (q_list q)"
proof -
  have "q_inv q \<longrightarrow> -1 \<in> set (q_list q)"
  proof (rule for_each_intqueue.raw_induct [where P = "\<lambda>q seen r. q_inv q \<longrightarrow> -1 \<in> set (q_list q)", OF _ ret])
    fix f :: "int queue \<Rightarrow> int list \<Rightarrow> (int list \<times> int queue) res option" and q seen r
    assume IH: "\<And>q seen r. f q seen = Some r \<Longrightarrow> q_inv q \<longrightarrow> -1 \<in> set (q_list q)"
      and eq: "(case q_dequeue_int q of Inl e \<Rightarrow> Some (Inl e)
         | Inr (a, q') \<Rightarrow> if a = -1 then Some (Inr (seen, q')) else f q' (seen @ [a])) = Some r"
    show "q_inv q \<longrightarrow> -1 \<in> set (q_list q)"
    proof
      assume "q_inv q"
      from q_dequeue_int_total [OF this] obtain q' where
        q': "q_dequeue_int q = Inr (case q_list q of [] \<Rightarrow> 0 | x # _ \<Rightarrow> x, q')"
        "q_inv q'" "q_list q' = tl (q_list q)" by blast
      with eq IH [of q'] show "-1 \<in> set (q_list q)"
        by (cases "q_list q") (auto split: if_splits)
    qed
  qed
  with assms(2) show ?thesis by simp
qed

text \<open>
  The iteration macro \<open>for_each_intqueue\<close> stops at -1, but an empty queue answers 0: over a
  well-formed queue that does not happen to hold -1, the empty one included, the loop never ends.
\<close>

theorem for_each_intqueue_diverges:
  assumes "q_inv q" and "-1 \<notin> set (q_list q)"
  shows "for_each_intqueue q seen = None"
  using for_each_intqueue_needs_minus_one [of q seen] assms by (cases "for_each_intqueue q seen") auto

theorem for_each_intqueue_diverges_witness: "for_each_intqueue (q_init 4) [] = None"
  using for_each_intqueue_diverges [of "q_init 4" "[]"] by simp

end
