(* ===== verification/Cond_Lock.thy ===== *)
theory Cond_Lock
  imports Prelude
begin

section \<open>The counting lock (\<open>src/cond_lock.c\<close>, \<open>include/cond_lock.h\<close>)\<close>

text \<open>
  A counter guarded by a mutex and a condition variable. With \<open>zero_lock\<close> unset it is a window
  that at most \<open>cnt\<close> holders may be in (the handler's \<open>flying\<close> lock); with \<open>zero_lock\<close> set it
  counts available items.

  The body of each function is an atomic function on the lock, because it holds the mutex from
  its first to its last line; only \<open>pthread_cond_wait\<close> gives the mutex up. \<open>cl_grap\<close> evaluates
  the guard of the waiting loop once: \<open>None\<close> means that the caller goes to sleep, and evaluates
  the guard again when it is woken. The relation \<open>cl_step\<close> runs any number of threads over the
  lock: \<open>blocked\<close> threads sleep on the condition variable, \<open>ready\<close> threads have been woken (by a
  broadcast or spuriously) and re-enter the loop. \<open>tokens\<close> counts grants less releases.
\<close>

subsection \<open>Data and operations\<close>

record cl_lock =
  cnt :: int
  now :: int
  zero_lock :: bool

definition cl_init :: "int \<Rightarrow> bool \<Rightarrow> cl_lock" where
  "cl_init c z = \<lparr>cnt = c, now = 0, zero_lock = z\<rparr>"

definition cl_grap :: "cl_lock \<Rightarrow> cl_lock option" where
  "cl_grap cl =
     (if zero_lock cl
      then (if now cl = 0 then None else Some (cl\<lparr>now := now cl - 1\<rparr>))
      else (if now cl = cnt cl then None else Some (cl\<lparr>now := now cl + 1\<rparr>)))"

text \<open>
  \<open>cl_cond_grap\<close> waits at most once, whatever the counter is: \<open>cl_cond_grap_waits\<close> is the test
  before the wait and \<open>cl_cond_grap\<close> what is done after it, without another test.
\<close>

definition cl_cond_grap_waits :: "bool \<Rightarrow> bool" where
  "cl_cond_grap_waits flag = flag"

definition cl_cond_grap :: "cl_lock \<Rightarrow> cl_lock" where
  "cl_cond_grap cl =
     (if zero_lock cl then cl\<lparr>now := now cl - 1\<rparr> else cl\<lparr>now := now cl + 1\<rparr>)"

text \<open>The flag of the result says whether the waiting threads are woken by a broadcast.\<close>

definition cl_always_release :: "cl_lock \<Rightarrow> cl_lock \<times> bool" where
  "cl_always_release cl = (cl, True)"

definition cl_now_update :: "cl_lock \<Rightarrow> int \<Rightarrow> cl_lock \<times> bool" where
  "cl_now_update cl input = (cl\<lparr>now := input\<rparr>, False)"

definition cl_release :: "cl_lock \<Rightarrow> cl_lock \<times> bool" where
  "cl_release cl =
     (if zero_lock cl
      then (if now cl = 0 then (cl\<lparr>now := now cl + 1\<rparr>, True) else (cl\<lparr>now := now cl + 1\<rparr>, False))
      else (if now cl = cnt cl then (cl\<lparr>now := now cl - 1\<rparr>, True) else (cl\<lparr>now := now cl - 1\<rparr>, False)))"

definition cl_grep_with_f :: "int \<Rightarrow> int \<Rightarrow> (int \<Rightarrow> int \<Rightarrow> bool) \<Rightarrow> bool" where
  "cl_grep_with_f s d cmp = cmp s d"

definition cl_release_with_f :: "cl_lock \<Rightarrow> int \<Rightarrow> int \<Rightarrow> (int \<Rightarrow> int \<Rightarrow> bool) \<Rightarrow> cl_lock \<times> bool" where
  "cl_release_with_f cl s d cmp = (cl, cmp s d)"

subsection \<open>Threads over the lock\<close>

record cl_sys =
  lk :: cl_lock
  blocked :: "nat set"
  ready :: "nat set"
  tokens :: int

definition cl_start :: "cl_lock \<Rightarrow> cl_sys" where
  "cl_start l = \<lparr>lk = l, blocked = {}, ready = {}, tokens = 0\<rparr>"

definition wake_if :: "bool \<Rightarrow> cl_sys \<Rightarrow> cl_sys" where
  "wake_if b s = (if b then s\<lparr>blocked := {}, ready := ready s \<union> blocked s\<rparr> else s)"

inductive cl_step :: "cl_sys \<Rightarrow> cl_sys \<Rightarrow> bool" where
  grap_now: "t \<notin> blocked s \<union> ready s \<Longrightarrow> cl_grap (lk s) = Some l \<Longrightarrow>
     cl_step s (s\<lparr>lk := l, tokens := tokens s + 1\<rparr>)"
| grap_wait: "t \<notin> blocked s \<union> ready s \<Longrightarrow> cl_grap (lk s) = None \<Longrightarrow>
     cl_step s (s\<lparr>blocked := insert t (blocked s)\<rparr>)"
| wake_grap: "t \<in> ready s \<Longrightarrow> cl_grap (lk s) = Some l \<Longrightarrow>
     cl_step s (s\<lparr>lk := l, ready := ready s - {t}, tokens := tokens s + 1\<rparr>)"
| wake_wait: "t \<in> ready s \<Longrightarrow> cl_grap (lk s) = None \<Longrightarrow>
     cl_step s (s\<lparr>blocked := insert t (blocked s), ready := ready s - {t}\<rparr>)"
| spurious: "t \<in> blocked s \<Longrightarrow>
     cl_step s (s\<lparr>blocked := blocked s - {t}, ready := insert t (ready s)\<rparr>)"
| release: "zero_lock (lk s) \<or> 0 < tokens s \<Longrightarrow> cl_release (lk s) = (l, b) \<Longrightarrow>
     cl_step s (wake_if b (s\<lparr>lk := l, tokens := tokens s - 1\<rparr>))"

inductive cl_reachable :: "cl_lock \<Rightarrow> cl_sys \<Rightarrow> bool" for l0 where
  start: "cl_reachable l0 (cl_start l0)"
| step: "cl_reachable l0 s \<Longrightarrow> cl_step s s' \<Longrightarrow> cl_reachable l0 s'"

inductive_cases cl_stepE: "cl_step s s'"

subsection \<open>Invariants\<close>

definition window_inv :: "int \<Rightarrow> cl_sys \<Rightarrow> bool" where
  "window_inv c s \<longleftrightarrow>
     \<not> zero_lock (lk s) \<and> cnt (lk s) = c \<and> now (lk s) = tokens s \<and>
     0 \<le> now (lk s) \<and> now (lk s) \<le> c \<and> (blocked s \<noteq> {} \<longrightarrow> now (lk s) = c)"

definition items_inv :: "cl_sys \<Rightarrow> bool" where
  "items_inv s \<longleftrightarrow>
     zero_lock (lk s) \<and> now (lk s) = - tokens s \<and> 0 \<le> now (lk s) \<and>
     (blocked s \<noteq> {} \<longrightarrow> now (lk s) = 0)"

lemmas cl_defs = cl_grap_def cl_release_def wake_if_def

lemma window_inv_step: "cl_step s s' \<Longrightarrow> window_inv c s \<Longrightarrow> window_inv c s'"
  by (erule cl_stepE) (auto simp: window_inv_def cl_defs split: if_splits)

lemma items_inv_step: "cl_step s s' \<Longrightarrow> items_inv s \<Longrightarrow> items_inv s'"
  by (erule cl_stepE) (auto simp: items_inv_def cl_defs split: if_splits)

lemma window_inv_reachable:
  "cl_reachable (cl_init c False) s \<Longrightarrow> 0 \<le> c \<Longrightarrow> window_inv c s"
  by (induction rule: cl_reachable.induct)
     (auto simp: window_inv_step, simp add: window_inv_def cl_start_def cl_init_def)

lemma items_inv_reachable: "cl_reachable (cl_init c True) s \<Longrightarrow> items_inv s"
  by (induction rule: cl_reachable.induct)
     (auto simp: items_inv_step, simp add: items_inv_def cl_start_def cl_init_def)

subsection \<open>Properties\<close>

text \<open>
  C23: the window is respected under every interleaving. In every reachable state of a lock made by
  \<open>cl_init c false\<close> the counter equals the number of holders and lies between 0 and \<open>c\<close>.
\<close>

theorem cl_window_bounded:
  assumes "cl_reachable (cl_init c False) s" and "0 \<le> c"
  shows "0 \<le> now (lk s) \<and> now (lk s) \<le> c \<and> now (lk s) = tokens s"
  using window_inv_reachable [OF assms] by (simp add: window_inv_def)

lemma cl_reachable_one_grap: "0 < c \<Longrightarrow> cl_reachable (cl_init c False)
   ((cl_start (cl_init c False))\<lparr>lk := \<lparr>cnt = c, now = 1, zero_lock = False\<rparr>, tokens := 1\<rparr>)"
  by (rule cl_reachable.step [OF cl_reachable.start], rule back_subst [of "cl_step _"], rule cl_step.grap_now [of 0])
     (auto simp: cl_start_def cl_init_def cl_grap_def)

lemma cl_reachable_full_wait: "cl_reachable (cl_init 1 False)
   \<lparr>lk = \<lparr>cnt = 1, now = 1, zero_lock = False\<rparr>, blocked = {7}, ready = {}, tokens = 1\<rparr>"
  by (rule cl_reachable.step [OF cl_reachable_one_grap], simp, rule back_subst [of "cl_step _"],
      rule cl_step.grap_wait [of 7]) (auto simp: cl_start_def cl_init_def cl_grap_def)

theorem cl_window_bounded_witness:
  "\<exists>s. cl_reachable (cl_init 1 False) s \<and> blocked s = {7} \<and> 0 \<le> now (lk s) \<and> now (lk s) \<le> 1"
  using cl_window_bounded [OF cl_reachable_full_wait] cl_reachable_full_wait by fastforce

text \<open>
  C24: no wake-up is lost. Whenever a thread sleeps in \<open>cl_grap\<close> the window is full, so there is a
  holder (for \<open>c > 0\<close>), and the next \<open>cl_release\<close> broadcasts: after that step no thread is asleep
  and every former sleeper is about to test the guard again.
\<close>

theorem cl_no_lost_wakeup:
  assumes "cl_reachable (cl_init c False) s" and "0 < c" and "t \<in> blocked s"
  shows "now (lk s) = c \<and> 0 < tokens s \<and>
    (\<exists>l s'. cl_release (lk s) = (l, True) \<and> cl_step s s' \<and> lk s' = l \<and> blocked s' = {} \<and>
       t \<in> ready s' \<and> cl_grap (lk s') \<noteq> None)"
proof -
  have inv: "window_inv c s" using window_inv_reachable assms(1,2) by simp
  with assms(2,3) have full: "now (lk s) = c" "0 < tokens s" "cnt (lk s) = c" "\<not> zero_lock (lk s)"
    by (auto simp: window_inv_def)
  let ?l = "(lk s)\<lparr>now := c - 1\<rparr>"
  have rel: "cl_release (lk s) = (?l, True)" using full by (simp add: cl_release_def)
  have "cl_step s (wake_if True (s\<lparr>lk := ?l, tokens := tokens s - 1\<rparr>))"
    using cl_step.release [OF _ rel] full by blast
  then show ?thesis using rel full assms(3)
    by (intro conjI exI [of _ ?l] exI [of _ "wake_if True (s\<lparr>lk := ?l, tokens := tokens s - 1\<rparr>)"])
       (auto simp: wake_if_def cl_grap_def)
qed

theorem cl_no_lost_wakeup_witness:
  "\<exists>s s'. cl_reachable (cl_init 1 False) s \<and> 7 \<in> blocked s \<and> cl_step s s' \<and> blocked s' = {} \<and>
     7 \<in> ready s'"
  using cl_no_lost_wakeup [OF cl_reachable_full_wait, of 7] cl_reachable_full_wait by fastforce

text \<open>
  The counting use (\<open>zero_lock\<close>) never goes below zero, and a thread sleeps only while the
  counter is zero.
\<close>

theorem cl_items_nonneg:
  assumes "cl_reachable (cl_init c True) s"
  shows "0 \<le> now (lk s) \<and> (blocked s \<noteq> {} \<longrightarrow> now (lk s) = 0)"
  using items_inv_reachable [OF assms] by (auto simp: items_inv_def)

lemma cl_reachable_items_wait: "cl_reachable (cl_init 4 True)
   \<lparr>lk = \<lparr>cnt = 4, now = 0, zero_lock = True\<rparr>, blocked = {3}, ready = {}, tokens = 0\<rparr>"
  by (rule cl_reachable.step [OF cl_reachable.start], rule back_subst [of "cl_step _"],
      rule cl_step.grap_wait [of 3]) (auto simp: cl_start_def cl_init_def cl_grap_def)

theorem cl_items_nonneg_witness:
  "\<exists>s. cl_reachable (cl_init 4 True) s \<and> blocked s = {3} \<and> 0 \<le> now (lk s)"
  using cl_items_nonneg [OF cl_reachable_items_wait] cl_reachable_items_wait by fastforce

text \<open>
  \<open>cl_now_update\<close> writes the counter without a broadcast and so can strand a sleeper: there is
  a reachable state in which lowering the counter leaves a thread asleep although the window has
  room, which no sequence of \<open>cl_grap\<close> and \<open>cl_release\<close> steps does.
\<close>

theorem cl_now_update_strands:
  "\<exists>s l b. cl_reachable (cl_init 1 False) s \<and> cl_now_update (lk s) 0 = (l, b) \<and> \<not> b \<and>
     blocked s \<noteq> {} \<and> cl_grap l \<noteq> None \<and> \<not> cl_reachable (cl_init 1 False) (s\<lparr>lk := l\<rparr>)"
proof -
  let ?s = "\<lparr>lk = \<lparr>cnt = 1, now = 1, zero_lock = False\<rparr>, blocked = {7}, ready = {}, tokens = 1\<rparr>"
  let ?l = "\<lparr>cnt = 1, now = 0, zero_lock = False\<rparr>"
  have "\<not> cl_reachable (cl_init 1 False) (?s\<lparr>lk := ?l\<rparr>)"
    using window_inv_reachable [of 1 "?s\<lparr>lk := ?l\<rparr>"] by (auto simp: window_inv_def)
  then show ?thesis using cl_reachable_full_wait
    by (intro exI [of _ ?s] exI [of _ ?l] exI [of _ False]) (simp add: cl_now_update_def cl_grap_def)
qed

end
