(* ===== verification/Handler_Types.thy ===== *)
theory Handler_Types
  imports Queue Cond_Lock Stopwatch
begin

section \<open>Requests, callbacks, devices, handlers (the structures of \<open>include/\<close>)\<close>

text \<open>
  The structures the components of one handler share: \<open>include/request.h\<close>,
  \<open>include/device.h\<close>, \<open>include/handler.h\<close>, the acknowledgement of \<open>include/type.h\<close>.
  The state of a handler is one record: its queues, pools and lock, the arrays the pool pointers
  point into (requests, callbacks, I/O control blocks), its device, the heap its buffers live in,
  and its environment (the I/Os the kernel has accepted, the content of the block device, the
  acknowledgements written to client sockets, the clock, the outcomes of the system calls).

  A function pointer is a constructor of \<open>cb_func\<close>; running one is the job of the index the
  handler is built with, so the operations that call one take a runner as argument. \<open>params\<close>
  is the index's own per-request state (\<open>void *params\<close>), the type parameter \<open>'p\<close>.
\<close>

record key_struct =
  kkey :: "nat \<Rightarrow> byte"
  klen :: u8
  hash_low :: u64
  hash_high :: u64

record val_struct =
  vvalue :: ptr
  vlen :: u32

record 'p request =
  rtype :: req_type_t
  seq_num :: u32
  rkey :: key_struct
  rvalue :: val_struct
  rsw :: stopwatch
  params :: "'p option"
  temp_buf :: ptr
  cl_sock :: int

record netack =
  ack_seq_num :: u32
  ack_type :: req_type_t
  elapsed_time :: int

record segment =
  seg_idx :: u32
  seg_state :: seg_state_t
  start_addr :: u64
  end_addr :: u64
  seg_offset :: u64

record dev_abs =
  nr_logical_block :: u32
  logical_block_size :: u32
  size_in_byte :: u64
  segment_size :: u64
  nr_segment :: u32
  seg_array :: "nat \<Rightarrow> segment"
  staged_seg :: nat
  staged_seg_idx :: u32
  staged_seg_buf :: ptr
  grain_unit :: u32

text \<open>
  The functions a callback may point to: \<open>net_end_req\<close> (\<open>request.c\<close>), \<open>reap_seg_buf\<close>
  (\<open>device.c\<close>), \<open>cb_keycmp\<close> (both indexes), and the three of \<open>bigkv_index.c\<close>.
\<close>

datatype cb_func =
    CB_net_end_req | CB_reap_seg_buf | CB_keycmp
  | CB_part_table_read | CB_part_table_write | CB_part_table_write_for_get

record callback =
  cbfunc :: cb_func
  cbarg :: ptr
  cbiocb :: ptr

datatype io_cmd = IO_PREAD | IO_PWRITE

record iocb =
  io_cmd :: io_cmd
  io_buf :: ptr
  io_nbytes :: nat
  io_offset :: u64
  io_data :: ptr

record 'p handler =
  number :: int
  dev :: dev_abs
  flying :: cl_lock
  req_q :: "ptr queue"
  retry_q :: "ptr queue"
  done_q :: "ptr queue"
  req_pool :: "ptr queue"
  iocb_pool :: "ptr queue"
  cb_pool :: "ptr queue"
  req_arr :: "ptr \<Rightarrow> 'p request"
  iocb_arr :: "ptr \<Rightarrow> iocb"
  cb_arr :: "ptr \<Rightarrow> callback"
  mem :: memory
  submitted :: "ptr list"
  disk :: "nat \<Rightarrow> byte"
  acks :: "(int \<times> netack) list"
  clock :: timeval
  mmap_ok :: "nat \<Rightarrow> bool"
  n_mmap :: nat
  submit_ok :: "nat \<Rightarrow> bool"
  n_submit :: nat

type_synonym 'p runner = "cb_func \<Rightarrow> ptr \<Rightarrow> 'p handler \<Rightarrow> 'p handler res"

subsection \<open>Callbacks and queues of a handler (\<open>include/handler.h\<close>, \<open>src/handler.c\<close>)\<close>

text \<open>\<open>make_callback\<close>: an empty pool is a null dereference.\<close>

definition make_callback :: "cb_func \<Rightarrow> ptr \<Rightarrow> 'p handler \<Rightarrow> (ptr \<times> 'p handler) res" where
  "make_callback func arg h =
     ebind (q_dequeue (cb_pool h)) (\<lambda>(cb, q).
     if cb = NULL then Inl NullDeref
     else Inr (cb, h\<lparr>cb_pool := q,
            cb_arr := (cb_arr h)(cb := \<lparr>cbfunc = func, cbarg = arg, cbiocb = NULL\<rparr>)\<rparr>))"

definition retry_req_to_hlr :: "ptr \<Rightarrow> 'p handler \<Rightarrow> (int \<times> 'p handler) res" where
  "retry_req_to_hlr req h =
     ebind (q_enqueue req (retry_q h)) (\<lambda>(ok, q).
     Inr (if ok then 0 else 1, h\<lparr>retry_q := q\<rparr>))"

text \<open>
  \<open>cb->func(cb->arg); q_enqueue(cb, hlr->cb_pool)\<close>, as the device and the poller do it.
\<close>

definition run_and_recycle :: "'p runner \<Rightarrow> ptr \<Rightarrow> 'p handler \<Rightarrow> 'p handler res" where
  "run_and_recycle run cb h =
     ebind (run (cbfunc (cb_arr h cb)) (cbarg (cb_arr h cb)) h) (\<lambda>h1.
     ebind (q_enqueue cb (cb_pool h1)) (\<lambda>(_, q). Inr (h1\<lparr>cb_pool := q\<rparr>)))"

lemma make_callback_ok:
  assumes "q_inv (cb_pool h)" and "q_list (cb_pool h) = cb # rest" and "cb \<noteq> NULL"
  shows "\<exists>q. make_callback func arg h = Inr (cb, h\<lparr>cb_pool := q,
            cb_arr := (cb_arr h)(cb := \<lparr>cbfunc = func, cbarg = arg, cbiocb = NULL\<rparr>)\<rparr>)
          \<and> q_inv q \<and> q_list q = rest \<and> m_size q = m_size (cb_pool h)"
  using lq.deq_nonempty [OF assms(1)] assms(2,3) by (auto simp: make_callback_def)

lemma make_callback_empty:
  assumes "q_inv (cb_pool h)" and "q_list (cb_pool h) = []"
  shows "make_callback func arg h = Inl NullDeref"
  using lq.deq_empty [OF assms] by (simp add: make_callback_def)

end
