(* ===== verification/Device.thy ===== *)
theory Device
  imports Handler_Types
begin

section \<open>The log-structured device (\<open>src/device.c\<close>, \<open>src/aio.c\<close>)\<close>

text \<open>
  A block device cut into segments of 2 MiB. One segment is staged: its content is a buffer in
  memory, space in it is handed out front to back by \<open>get_next_pba\<close> in grains of 128 bytes, and
  when the next allocation does not fit, the buffer is written out asynchronously and the next
  segment, round robin, is staged. A block address (\<open>pba\<close>) counts grains.

  The first part translates the source; \<open>dev_inv\<close> is the well-formedness of a device, and
  \<open>staged_ok\<close> adds that the staging buffer exists with the size of a segment. All address
  arithmetic is on words of the widths the source declares.
\<close>

subsection \<open>Asynchronous I/O (\<open>src/aio.c\<close>)\<close>

text \<open>
  \<open>io_prep_pread\<close> and \<open>io_prep_pwrite\<close> fill the control block; whether the kernel accepts the
  \<open>n\<close>-th \<open>io_submit\<close> is the environment's \<open>submit_ok n\<close>.
\<close>

definition aio_submit ::
  "io_cmd \<Rightarrow> u64 \<Rightarrow> u32 \<Rightarrow> ptr \<Rightarrow> ptr \<Rightarrow> 'p handler \<Rightarrow> (int \<times> 'p handler) res" where
  "aio_submit cmd addr_in_byte sz buf cb h =
     ebind (q_dequeue (iocb_pool h)) (\<lambda>(iocb, q).
     if iocb = NULL then Inl NullDeref
     else
       let h1 = h\<lparr>iocb_pool := q,
             iocb_arr := (iocb_arr h)(iocb := \<lparr>io_cmd = cmd, io_buf = buf, io_nbytes = unat sz,
                                               io_offset = addr_in_byte, io_data = cb\<rparr>),
             cb_arr := (cb_arr h)(cb := (cb_arr h cb)\<lparr>cbiocb := iocb\<rparr>),
             n_submit := Suc (n_submit h)\<rparr>
       in if submit_ok h (n_submit h)
          then Inr (0, h1\<lparr>submitted := submitted h1 @ [iocb]\<rparr>)
          else Inr (-1, h1))"

definition aio_read :: "u64 \<Rightarrow> u32 \<Rightarrow> ptr \<Rightarrow> ptr \<Rightarrow> 'p handler \<Rightarrow> (int \<times> 'p handler) res" where
  "aio_read addr_in_byte sz buf cb h = aio_submit IO_PREAD addr_in_byte sz buf cb h"

definition aio_write :: "u64 \<Rightarrow> u32 \<Rightarrow> ptr \<Rightarrow> ptr \<Rightarrow> 'p handler \<Rightarrow> (int \<times> 'p handler) res" where
  "aio_write addr_in_byte sz buf cb h = aio_submit IO_PWRITE addr_in_byte sz buf cb h"

subsection \<open>Set-up\<close>

text \<open>
  \<open>alloc_seg_buffer\<close>, built with \<open>USE_HUGEPAGE\<close>: \<open>mmap\<close> signals failure by \<open>MAP_FAILED\<close>, the
  address with all bits set, which the test for a null pointer lets through.
\<close>

definition MAP_FAILED :: ptr where "MAP_FAILED = 18446744073709551615"

definition alloc_seg_buffer :: "nat \<Rightarrow> 'p handler \<Rightarrow> (ptr \<times> 'p handler) res" where
  "alloc_seg_buffer sz h =
     (let h1 = h\<lparr>n_mmap := Suc (n_mmap h)\<rparr>;
          (seg_buffer, m) = (if mmap_ok h (n_mmap h) then mem_alloc sz (\<lambda>_. 0) (mem h)
                             else (MAP_FAILED, mem h))
      in if seg_buffer = NULL then Inl Abort else Inr (seg_buffer, h1\<lparr>mem := m\<rparr>))"

definition init_segment :: "u64 \<Rightarrow> nat \<Rightarrow> segment" where
  "init_segment segsz i =
     \<lparr>seg_idx = of_nat i, seg_state = SEG_STATE_FREE,
      start_addr = of_nat i * segsz, end_addr = (of_nat i + 1) * segsz,
      seg_offset = of_nat i * segsz\<rparr>"

text \<open>
  \<open>dev_abs_init\<close>: the arguments are the outcome of \<open>open\<close> and of the two \<open>ioctl\<close> calls (\<open>None\<close>
  for a failure). Without a single segment the write to \<open>seg_array[0]\<close> is out of bounds.
\<close>

definition dev_abs_init :: "bool \<Rightarrow> u32 option \<Rightarrow> u32 option \<Rightarrow> 'p handler \<Rightarrow> 'p handler res" where
  "dev_abs_init opened nblk lbs h =
     (if \<not> opened then Inl Abort
      else case nblk of None \<Rightarrow> Inl Abort | Some nb \<Rightarrow>
      (case lbs of None \<Rightarrow> Inl Abort | Some bs \<Rightarrow>
       (let sz = ucast nb * ucast bs :: u64;
            segsz = of_nat SEGMENT_SIZE :: u64;
            nseg = ucast (sz div segsz) :: u32
        in if nseg = 0 then Inl OutOfBounds
           else ebind (alloc_seg_buffer (unat segsz) h) (\<lambda>(buf, h1).
                Inr (h1\<lparr>dev := \<lparr>nr_logical_block = nb, logical_block_size = bs, size_in_byte = sz,
                   segment_size = segsz, nr_segment = nseg,
                   seg_array = (init_segment segsz)(0 := (init_segment segsz 0)\<lparr>seg_state := SEG_STATE_STAGED\<rparr>),
                   staged_seg = 0, staged_seg_idx = 0, staged_seg_buf = buf,
                   grain_unit = of_nat GRAIN_UNIT\<rparr>\<rparr>)))))"

text \<open>\<open>munmap\<close> of an address that is not mapped fails without effect.\<close>

definition munmap :: "ptr \<Rightarrow> 'p handler \<Rightarrow> 'p handler" where
  "munmap p h = h\<lparr>mem := (mem h)\<lparr>cells := (cells (mem h))(p := None)\<rparr>\<rparr>"

definition dev_abs_free :: "'p handler \<Rightarrow> 'p handler" where
  "dev_abs_free h = munmap (staged_seg_buf (dev h)) h"

definition reap_seg_buf :: "ptr \<Rightarrow> 'p handler \<Rightarrow> 'p handler" where
  "reap_seg_buf arg h = munmap arg h"

subsection \<open>Reading and writing\<close>

definition staged :: "dev_abs \<Rightarrow> segment" where
  "staged d = seg_array d (staged_seg d)"

definition is_staged :: "dev_abs \<Rightarrow> u64 \<Rightarrow> int" where
  "is_staged d pba =
     (let addr_in_byte = pba * ucast (grain_unit d); ss = staged d
      in if addr_in_byte < start_addr ss then -1
         else if seg_offset ss \<le> addr_in_byte then 1
         else 0)"

definition dev_abs_read ::
  "'p runner \<Rightarrow> u64 \<Rightarrow> u32 \<Rightarrow> ptr \<Rightarrow> ptr \<Rightarrow> 'p handler \<Rightarrow> (int \<times> 'p handler) res" where
  "dev_abs_read run pba size_in_grain buf cb h =
     (let d = dev h; ss = staged d;
          sz = size_in_grain * grain_unit d;
          addr_in_byte = pba * ucast (grain_unit d)
      in if is_staged d pba = 0
         then (let offset = addr_in_byte - start_addr ss
               in ebind (memcpy buf 0 (staged_seg_buf d) (unat offset) (unat sz) (mem h)) (\<lambda>m.
                  ebind (run_and_recycle run cb (h\<lparr>mem := m\<rparr>)) (\<lambda>h1. Inr (0, h1))))
         else aio_read addr_in_byte sz buf cb h)"

definition dev_abs_write ::
  "'p runner \<Rightarrow> u64 \<Rightarrow> u32 \<Rightarrow> ptr \<Rightarrow> ptr \<Rightarrow> 'p handler \<Rightarrow> (int \<times> 'p handler) res" where
  "dev_abs_write run pba size_in_grain buf cb h =
     (let d = dev h; ss = staged d;
          sz = size_in_grain * grain_unit d;
          offset = pba * ucast (grain_unit d) - start_addr ss
      in ebind (memcpy (staged_seg_buf d) (unat offset) buf 0 (unat sz) (mem h)) (\<lambda>m.
         ebind (run_and_recycle run cb (h\<lparr>mem := m\<rparr>)) (\<lambda>h1. Inr (0, h1))))"

subsection \<open>Allocation\<close>

definition stage_next_segment :: "'p handler \<Rightarrow> 'p handler res" where
  "stage_next_segment h =
     (let d = dev h
      in if nr_segment d = 0 then Inl DivByZero
         else
           (let idx = (staged_seg_idx d + 1) mod nr_segment d;
                s = seg_array d (unat idx);
                d1 = d\<lparr>staged_seg_idx := idx, staged_seg := unat idx,
                       seg_array := (seg_array d)(unat idx :=
                         s\<lparr>seg_state := SEG_STATE_STAGED, seg_offset := start_addr s\<rparr>)\<rparr>
            in ebind (alloc_seg_buffer (unat (segment_size d1)) (h\<lparr>dev := d1\<rparr>)) (\<lambda>(buf, h1).
               Inr (h1\<lparr>dev := (dev h1)\<lparr>staged_seg_buf := buf\<rparr>\<rparr>))))"

definition round_to_grain :: "u32 \<Rightarrow> u32 \<Rightarrow> u32" where
  "round_to_grain g sz = (if sz mod g \<noteq> 0 then sz + (g - sz mod g) else sz)"

text \<open>The branch of \<open>get_next_pba\<close> that retires the staged segment.\<close>

definition retire_segment :: "'p handler \<Rightarrow> 'p handler res" where
  "retire_segment h =
     (let d = dev h; ss = staged d;
          h1 = h\<lparr>dev := d\<lparr>seg_array := (seg_array d)(staged_seg d := ss\<lparr>seg_state := SEG_STATE_USED\<rparr>)\<rparr>\<rparr>
      in ebind (make_callback CB_reap_seg_buf (staged_seg_buf d) h1) (\<lambda>(new_cb, h2).
         ebind (aio_write (start_addr ss) (ucast (segment_size d)) (staged_seg_buf d) new_cb h2) (\<lambda>(_, h3).
         stage_next_segment h3)))"

definition bump_offset :: "u32 \<Rightarrow> dev_abs \<Rightarrow> dev_abs" where
  "bump_offset sz d =
     d\<lparr>seg_array := (seg_array d)(staged_seg d :=
        (staged d)\<lparr>seg_offset := seg_offset (staged d) + ucast sz\<rparr>)\<rparr>"

definition get_next_pba :: "u32 \<Rightarrow> 'p handler \<Rightarrow> (u64 \<times> 'p handler) res" where
  "get_next_pba sz h =
     ebind (if end_addr (staged (dev h)) < seg_offset (staged (dev h)) + ucast sz
            then retire_segment h else Inr h) (\<lambda>h1.
     (let d = dev h1;
          pba = seg_offset (staged d) div ucast (grain_unit d);
          sz' = round_to_grain (grain_unit d) sz
      in if sz' mod grain_unit d \<noteq> 0 then Inl Abort
         else Inr (pba, h1\<lparr>dev := bump_offset sz' d\<rparr>)))"

subsection \<open>Well-formed devices\<close>

definition seg_ok :: "segment \<Rightarrow> nat \<Rightarrow> bool" where
  "seg_ok s i \<longleftrightarrow>
     unat (start_addr s) = i * SEGMENT_SIZE \<and> unat (end_addr s) = Suc i * SEGMENT_SIZE \<and>
     unat (start_addr s) \<le> unat (seg_offset s) \<and> unat (seg_offset s) \<le> unat (end_addr s) \<and>
     unat (seg_offset s) mod GRAIN_UNIT = 0"

definition dev_layout :: "dev_abs \<Rightarrow> bool" where
  "dev_layout d \<longleftrightarrow>
     unat (segment_size d) = SEGMENT_SIZE \<and> unat (grain_unit d) = GRAIN_UNIT \<and>
     0 < unat (nr_segment d) \<and> unat (nr_segment d) * SEGMENT_SIZE < 2 ^ 64 - 2 ^ 32 \<and>
     staged_seg d = unat (staged_seg_idx d) \<and> staged_seg d < unat (nr_segment d) \<and>
     (\<forall>i < unat (nr_segment d). seg_ok (seg_array d i) i)"

definition dev_inv :: "dev_abs \<Rightarrow> bool" where
  "dev_inv d \<longleftrightarrow> dev_layout d \<and> seg_state (staged d) = SEG_STATE_STAGED"

definition staged_ok :: "'p handler \<Rightarrow> bool" where
  "staged_ok h \<longleftrightarrow>
     dev_inv (dev h) \<and> mem_wf (mem h) \<and>
     (\<exists>b. cells (mem h) (staged_seg_buf (dev h)) = Some b \<and> blen b = SEGMENT_SIZE)"

text \<open>The bytes an allocation of \<open>sz\<close> bytes takes: rounded up to grains.\<close>

definition grains :: "nat \<Rightarrow> nat" where
  "grains sz = (sz + GRAIN_UNIT - 1) div GRAIN_UNIT * GRAIN_UNIT"

subsection \<open>Arithmetic of the layout\<close>

lemma unat_ucast_64_32: "unat (ucast (w :: u64) :: u32) = unat w mod 4294967296"
  by (simp add: unsigned_ucast_eq take_bit_eq_mod)

lemma segsz_64 [simp]: "unat (of_nat SEGMENT_SIZE :: u64) = SEGMENT_SIZE"
  by (simp add: unat_of_nat_u64 config_defs)

lemma grain_32 [simp]: "unat (of_nat GRAIN_UNIT :: u32) = GRAIN_UNIT"
  by (simp add: unat_of_nat_u32 config_defs)

lemma grains_mod [simp]: "grains n mod GRAIN_UNIT = 0"
  by (simp add: grains_def)

lemma grains_cases:
  "grains n = (if n mod GRAIN_UNIT = 0 then n else n + (GRAIN_UNIT - n mod GRAIN_UNIT))"
proof -
  define q r where "q = n div 128" and "r = n mod 128"
  then have n: "n = 128 * q + r" and r: "r < 128" by simp_all
  have "(n + 127) div 128 = q + (r + 127) div 128" by (simp add: n)
  moreover have "(r + 127) div 128 = (if r = 0 then 0 else 1)"
    using r by (cases "r = 0") simp_all
  ultimately have "(n + 127) div 128 * 128 = (if r = 0 then n else n + (128 - r))"
    using r by (cases "r = 0") (simp_all add: n)
  moreover have "n + 128 - 1 = n + 127" by simp
  ultimately show ?thesis unfolding grains_def GRAIN_UNIT_def r_def by presburger
qed

lemma grains_ge: "n \<le> grains n"
  by (auto simp: grains_cases)

text \<open>
  The bound is tested with the requested size, the space is taken with the rounded one; this is
  sound because both the current offset and the end of a segment are multiples of a grain.
\<close>

lemma grains_fit:
  assumes "off mod GRAIN_UNIT = 0" and "e mod GRAIN_UNIT = 0" and "off + n \<le> e"
  shows "off + grains n \<le> e"
proof -
  from assms(1,2) obtain k l where k: "off = GRAIN_UNIT * k" and l: "e = GRAIN_UNIT * l"
    by (auto simp: mod_eq_0_iff_dvd elim!: dvdE)
  with assms(3) have kl: "n \<le> GRAIN_UNIT * (l - k)" "k \<le> l"
    by (auto simp: diff_mult_distrib2 GRAIN_UNIT_def)
  then have "(n + GRAIN_UNIT - 1) div GRAIN_UNIT \<le> (GRAIN_UNIT * (l - k) + (GRAIN_UNIT - 1)) div GRAIN_UNIT"
    by (intro div_le_mono) (simp add: GRAIN_UNIT_def)
  also have "\<dots> = l - k" by (simp add: GRAIN_UNIT_def)
  finally have "grains n \<le> (l - k) * GRAIN_UNIT" unfolding grains_def by (rule mult_le_mono1)
  with k l kl(2) show ?thesis by (simp add: GRAIN_UNIT_def)
qed

lemma init_segment_ok: "Suc i * SEGMENT_SIZE < 2 ^ 64 \<Longrightarrow> seg_ok (init_segment (of_nat SEGMENT_SIZE) i) i"
proof -
  assume b: "Suc i * SEGMENT_SIZE < 2 ^ 64"
  then have i: "i < 18446744073709551616" "Suc i < 18446744073709551616" by (simp_all add: config_defs)
  have one: "of_nat i + 1 = (of_nat (Suc i) :: u64)" by simp
  have "unat (of_nat i * of_nat SEGMENT_SIZE :: u64) = i * SEGMENT_SIZE"
    using b i by (subst unat_mult_u64) (simp_all add: unat_of_nat_u64 config_defs)
  moreover have "unat ((of_nat i + 1) * of_nat SEGMENT_SIZE :: u64) = Suc i * SEGMENT_SIZE"
    unfolding one using b i by (subst unat_mult_u64) (simp_all add: unat_of_nat_u64 config_defs del: of_nat_Suc)
  moreover have "i * SEGMENT_SIZE mod GRAIN_UNIT = 0"
    by (simp add: config_defs mod_eq_0_iff_dvd dvd_mult)
  ultimately show ?thesis by (simp add: seg_ok_def init_segment_def)
qed

lemma round_to_grain_unat:
  assumes g: "unat g = GRAIN_UNIT" and n: "unat sz \<le> SEGMENT_SIZE"
  shows "unat (round_to_grain g sz) = grains (unat sz)" "round_to_grain g sz mod g = 0"
proof -
  have m: "unat (sz mod g) = unat sz mod GRAIN_UNIT" by (simp add: unat_mod g)
  have z: "(sz mod g = 0) = (unat sz mod GRAIN_UNIT = 0)" by (simp add: m [symmetric] unat_eq_zero)
  have lt: "unat sz mod GRAIN_UNIT < GRAIN_UNIT" by (simp add: GRAIN_UNIT_def)
  have d: "unat (g - sz mod g) = GRAIN_UNIT - unat sz mod GRAIN_UNIT"
    using lt by (subst unat_diff) (simp_all add: m g)
  have "unat (sz + (g - sz mod g)) = unat sz + (GRAIN_UNIT - unat sz mod GRAIN_UNIT)"
    using n by (subst unat_add_u32) (simp_all add: d config_defs)
  then show r: "unat (round_to_grain g sz) = grains (unat sz)"
    by (simp add: round_to_grain_def grains_cases z)
  have "unat (round_to_grain g sz mod g) = 0" by (simp add: unat_mod r g)
  then show "round_to_grain g sz mod g = 0" by (simp add: unat_eq_zero)
qed

subsection \<open>Operations keep the device well-formed\<close>

lemma seg_ok_state [simp]: "seg_ok (s\<lparr>seg_state := x\<rparr>) i = seg_ok s i"
  by (simp add: seg_ok_def)

lemma dev_inv_staged: "dev_inv d \<Longrightarrow> seg_ok (staged d) (staged_seg d)"
  by (simp add: dev_inv_def dev_layout_def staged_def)

lemma alloc_seg_buffer_ok:
  assumes "mem_wf (mem h)" and "mmap_ok h (n_mmap h)"
  shows "alloc_seg_buffer n h = Inr (brk (mem h), h\<lparr>n_mmap := Suc (n_mmap h),
           mem := snd (mem_alloc n (\<lambda>_. 0) (mem h))\<rparr>)"
  using assms by (simp add: alloc_seg_buffer_def mem_alloc_def mem_wf_def)

lemma dev_abs_init_inv:
  fixes nb bs :: u32
  assumes big: "SEGMENT_SIZE \<le> unat nb * unat bs" and small: "unat nb * unat bs < 2 ^ 32 * SEGMENT_SIZE"
    and m: "mem_wf (mem h)" "mmap_ok h (n_mmap h)"
  shows "\<exists>h'. dev_abs_init True (Some nb) (Some bs) h = Inr h' \<and> staged_ok h' \<and>
           unat (nr_segment (dev h')) = unat nb * unat bs div SEGMENT_SIZE"
proof -
  let ?sz = "ucast nb * ucast bs :: u64" and ?segsz = "of_nat SEGMENT_SIZE :: u64"
  let ?nseg = "ucast (?sz div ?segsz) :: u32"
  have le: "unat nb * unat bs \<le> 4294967295 * 4294967295"
  proof (rule mult_le_mono)
    show "unat nb \<le> 4294967295" using unat_u32_lt [of nb] by linarith
    show "unat bs \<le> 4294967295" using unat_u32_lt [of bs] by linarith
  qed
  then have sz: "unat ?sz = unat nb * unat bs" by (subst unat_mult_u64) simp_all
  have "unat nb * unat bs div SEGMENT_SIZE < 4294967296"
    using small by (simp add: less_mult_imp_div_less config_defs)
  then have nseg: "unat ?nseg = unat nb * unat bs div SEGMENT_SIZE"
    by (simp add: unat_ucast_64_32 unat_div sz)
  have pos: "0 < unat ?nseg" unfolding nseg using big by (simp add: div_greater_zero_iff config_defs)
  have lim: "unat ?nseg * SEGMENT_SIZE \<le> 4294967295 * 4294967295"
    unfolding nseg using le div_times_less_eq_dividend [of "unat nb * unat bs" SEGMENT_SIZE] by linarith
  have ok: "seg_ok (init_segment ?segsz i) i" if "i < unat ?nseg" for i
  proof (rule init_segment_ok)
    from that have "Suc i * SEGMENT_SIZE \<le> unat ?nseg * SEGMENT_SIZE" by (intro mult_le_mono1) simp
    with lim show "Suc i * SEGMENT_SIZE < 2 ^ 64" by simp
  qed
  from pos have nz: "?nseg \<noteq> 0" by (metis unat_0 less_irrefl)
  let ?segs = "(init_segment ?segsz)(0 := (init_segment ?segsz 0)\<lparr>seg_state := SEG_STATE_STAGED\<rparr>)"
  have "\<forall>i < unat ?nseg. seg_ok (?segs i) i" using ok pos by auto
  then show ?thesis
    using nz pos lim m nseg
    by (simp add: dev_abs_init_def Let_def alloc_seg_buffer_ok staged_ok_def dev_inv_def dev_layout_def
        staged_def mem_wf_def mem_alloc_def)
qed

text \<open>At least \<open>n\<close> callbacks and \<open>n\<close> control blocks are free.\<close>

definition pools_hold :: "nat \<Rightarrow> 'p handler \<Rightarrow> bool" where
  "pools_hold n h \<longleftrightarrow>
     q_inv (cb_pool h) \<and> n \<le> length (q_list (cb_pool h)) \<and> NULL \<notin> set (q_list (cb_pool h)) \<and>
     q_inv (iocb_pool h) \<and> n \<le> length (q_list (iocb_pool h)) \<and> NULL \<notin> set (q_list (iocb_pool h))"

lemma pools_hold_mono: "pools_hold n h \<Longrightarrow> k \<le> n \<Longrightarrow> pools_hold k h"
  by (simp add: pools_hold_def)

lemma aio_submit_ok:
  assumes "q_inv (iocb_pool h)" "q_list (iocb_pool h) \<noteq> []" "NULL \<notin> set (q_list (iocb_pool h))"
  shows "\<exists>rc h'. aio_submit cmd a sz buf cb h = Inr (rc, h') \<and>
           dev h' = dev h \<and> mem h' = mem h \<and> mmap_ok h' = mmap_ok h \<and> n_mmap h' = n_mmap h \<and>
           cb_pool h' = cb_pool h \<and> q_inv (iocb_pool h') \<and> q_list (iocb_pool h') = tl (q_list (iocb_pool h)) \<and>
           (submit_ok h (n_submit h) \<longrightarrow> rc = 0 \<and> submitted h' = submitted h @ [hd (q_list (iocb_pool h))]) \<and>
           iocb_arr h' = (iocb_arr h)(hd (q_list (iocb_pool h)) :=
             \<lparr>io_cmd = cmd, io_buf = buf, io_nbytes = unat sz, io_offset = a, io_data = cb\<rparr>)"
proof -
  from lq.deq_nonempty [OF assms(1,2)] obtain q where
    q: "q_dequeue (iocb_pool h) = Inr (hd (q_list (iocb_pool h)), q)" "q_inv q"
       "q_list q = tl (q_list (iocb_pool h))" by blast
  have "hd (q_list (iocb_pool h)) \<noteq> NULL" using assms(2,3) hd_in_set by metis
  with q show ?thesis by (simp add: aio_submit_def Let_def)
qed

lemma stage_next_segment_ok:
  assumes inv: "dev_layout (dev h)" and m: "mem_wf (mem h)" "mmap_ok h (n_mmap h)"
  shows "\<exists>h'. stage_next_segment h = Inr h' \<and> staged_ok h' \<and> cb_pool h' = cb_pool h \<and>
           iocb_pool h' = iocb_pool h \<and> mmap_ok h' = mmap_ok h \<and>
           nr_segment (dev h') = nr_segment (dev h) \<and>
           staged_seg (dev h') = Suc (staged_seg (dev h)) mod unat (nr_segment (dev h)) \<and>
           unat (seg_offset (staged (dev h'))) = staged_seg (dev h') * SEGMENT_SIZE"
proof -
  let ?d = "dev h"
  let ?idx = "(staged_seg_idx ?d + 1) mod nr_segment ?d"
  have lt: "Suc (unat (staged_seg_idx ?d)) < 4294967296"
  proof -
    have "unat (staged_seg_idx ?d) < unat (nr_segment ?d)" using inv by (simp add: dev_layout_def)
    with unat_u32_lt [of "nr_segment ?d"] show ?thesis by linarith
  qed
  then have "unat (staged_seg_idx ?d + 1) = Suc (unat (staged_seg_idx ?d))"
    by (subst unat_add_u32) simp_all
  then have idx: "unat ?idx = Suc (staged_seg ?d) mod unat (nr_segment ?d)"
    using inv by (simp add: unat_mod dev_layout_def)
  have nz: "nr_segment ?d \<noteq> 0" using inv by (auto simp: dev_layout_def)
  have idx_lt: "unat ?idx < unat (nr_segment ?d)" using inv by (simp add: idx dev_layout_def)
  have so: "seg_ok (seg_array ?d (unat ?idx)) (unat ?idx)" using inv idx_lt by (simp add: dev_layout_def)
  have al: "unat (start_addr (seg_array ?d (unat ?idx))) mod GRAIN_UNIT = 0"
    using so by (simp add: seg_ok_def config_defs mod_eq_0_iff_dvd dvd_mult)
  let ?s = "seg_array ?d (unat ?idx)"
  let ?d1 = "?d\<lparr>staged_seg_idx := ?idx, staged_seg := unat ?idx,
      seg_array := (seg_array ?d)(unat ?idx := ?s\<lparr>seg_state := SEG_STATE_STAGED, seg_offset := start_addr ?s\<rparr>),
      staged_seg_buf := brk (mem h)\<rparr>"
  let ?h = "h\<lparr>dev := ?d1, n_mmap := Suc (n_mmap h), mem := snd (mem_alloc (unat (segment_size ?d)) (\<lambda>_. 0) (mem h))\<rparr>"
  have eq: "stage_next_segment h = Inr ?h"
    using nz m by (simp add: stage_next_segment_def Let_def alloc_seg_buffer_ok)
  have "dev_inv ?d1"
    using inv idx_lt so al by (auto simp: dev_inv_def dev_layout_def staged_def seg_ok_def)
  then have "staged_ok ?h"
    using m inv by (auto simp: staged_ok_def mem_wf_def mem_alloc_def dev_layout_def)
  moreover have "unat (seg_offset (staged ?d1)) = unat ?idx * SEGMENT_SIZE"
    using so by (simp add: staged_def seg_ok_def)
  ultimately show ?thesis using eq idx by simp
qed

lemma retire_segment_ok:
  assumes inv: "dev_layout (dev h)" and m: "mem_wf (mem h)" "mmap_ok h (n_mmap h)" and p: "pools_hold (Suc n) h"
  shows "\<exists>h'. retire_segment h = Inr h' \<and> staged_ok h' \<and> pools_hold n h' \<and> mmap_ok h' = mmap_ok h \<and>
           nr_segment (dev h') = nr_segment (dev h) \<and>
           staged_seg (dev h') = Suc (staged_seg (dev h)) mod unat (nr_segment (dev h)) \<and>
           unat (seg_offset (staged (dev h'))) = staged_seg (dev h') * SEGMENT_SIZE"
proof -
  let ?d = "dev h"
  let ?d1 = "?d\<lparr>seg_array := (seg_array ?d)(staged_seg ?d := (staged ?d)\<lparr>seg_state := SEG_STATE_USED\<rparr>)\<rparr>"
  let ?h1 = "h\<lparr>dev := ?d1\<rparr>"
  have lay: "dev_layout ?d1" using inv by (auto simp: dev_layout_def staged_def seg_ok_def)
  from p obtain cb rest where cb: "q_inv (cb_pool ?h1)" "q_list (cb_pool ?h1) = cb # rest" "cb \<noteq> NULL"
    by (cases "q_list (cb_pool h)") (auto simp: pools_hold_def)
  obtain q where q: "q_inv q" "q_list q = rest"
    and mk: "make_callback CB_reap_seg_buf (staged_seg_buf ?d) ?h1 = Inr (cb, ?h1\<lparr>cb_pool := q,
      cb_arr := (cb_arr ?h1)(cb := \<lparr>cbfunc = CB_reap_seg_buf, cbarg = staged_seg_buf ?d, cbiocb = NULL\<rparr>)\<rparr>)"
    using make_callback_ok [OF cb] by blast
  let ?h2 = "?h1\<lparr>cb_pool := q,
      cb_arr := (cb_arr ?h1)(cb := \<lparr>cbfunc = CB_reap_seg_buf, cbarg = staged_seg_buf ?d, cbiocb = NULL\<rparr>)\<rparr>"
  have "q_inv (iocb_pool ?h2)" "q_list (iocb_pool ?h2) \<noteq> []" "NULL \<notin> set (q_list (iocb_pool ?h2))"
    using p by (auto simp: pools_hold_def)
  from aio_submit_ok [OF this] obtain rc h3 where
    wr: "aio_write (start_addr (staged ?d)) (ucast (segment_size ?d)) (staged_seg_buf ?d) cb ?h2 = Inr (rc, h3)"
    and h3: "dev h3 = ?d1" "mem h3 = mem h" "mmap_ok h3 = mmap_ok h" "n_mmap h3 = n_mmap h"
    and pool3: "cb_pool h3 = q" "q_inv (iocb_pool h3)" "q_list (iocb_pool h3) = tl (q_list (iocb_pool h))"
    unfolding aio_write_def by fastforce
  have "dev_layout (dev h3)" "mem_wf (mem h3)" "mmap_ok h3 (n_mmap h3)" using lay m h3 by simp_all
  note st = stage_next_segment_ok [OF this]
  have "q_list (iocb_pool h) \<noteq> []" using p by (auto simp: pools_hold_def)
  then have "set (tl (q_list (iocb_pool h))) \<subseteq> set (q_list (iocb_pool h))" by (simp add: list.set_sel(2) subsetI)
  then have "pools_hold n h3"
    using p q pool3 cb(2) by (auto simp: pools_hold_def)
  with st h3 mk wr show ?thesis
    by (auto simp: retire_segment_def Let_def pools_hold_def)
qed

text \<open>
  The effect of \<open>get_next_pba\<close> on a well-formed handler: the start of the allocation, in bytes, and
  the new offset of the staged segment.
\<close>

lemma bump_offset_inv:
  assumes inv: "dev_inv d" and al: "unat sz mod GRAIN_UNIT = 0"
    and fit: "unat (seg_offset (staged d)) + unat sz \<le> unat (end_addr (staged d))"
  shows "dev_inv (bump_offset sz d) \<and>
    unat (seg_offset (staged (bump_offset sz d))) = unat (seg_offset (staged d)) + unat sz"
proof -
  let ?s = "staged d"
  have so: "seg_ok ?s (staged_seg d)" using dev_inv_staged [OF inv] .
  have "unat (seg_offset ?s) + unat sz < 18446744073709551616"
    using fit unat_u64_lt [of "end_addr ?s"] by linarith
  then have sum: "unat (seg_offset ?s + ucast sz) = unat (seg_offset ?s) + unat sz"
    by (subst unat_add_u64) simp_all
  have "(unat (seg_offset ?s) + unat sz) mod GRAIN_UNIT = 0"
    using so al by (simp add: seg_ok_def mod_add_eq [symmetric, of "unat (seg_offset ?s)"])
  with so sum fit have "seg_ok (?s\<lparr>seg_offset := seg_offset ?s + ucast sz\<rparr>) (staged_seg d)"
    by (simp add: seg_ok_def)
  with inv sum show ?thesis
    by (auto simp: dev_inv_def dev_layout_def bump_offset_def staged_def)
qed

lemma get_next_pba_spec:
  assumes st: "staged_ok h" and p: "pools_hold (Suc n) h" and m: "mmap_ok h (n_mmap h)"
    and sz: "unat sz \<le> SEGMENT_SIZE"
  shows "\<exists>pba h'. get_next_pba sz h = Inr (pba, h') \<and> staged_ok h' \<and> pools_hold n h' \<and>
     mmap_ok h' = mmap_ok h \<and> nr_segment (dev h') = nr_segment (dev h) \<and>
     unat pba * GRAIN_UNIT + grains (unat sz) = unat (seg_offset (staged (dev h'))) \<and>
     unat (start_addr (staged (dev h'))) \<le> unat pba * GRAIN_UNIT \<and>
     (if unat (seg_offset (staged (dev h))) + unat sz \<le> unat (end_addr (staged (dev h)))
      then staged_seg (dev h') = staged_seg (dev h) \<and> mem h' = mem h \<and>
           unat pba * GRAIN_UNIT = unat (seg_offset (staged (dev h)))
      else staged_seg (dev h') = Suc (staged_seg (dev h)) mod unat (nr_segment (dev h)) \<and>
           unat pba * GRAIN_UNIT = staged_seg (dev h') * SEGMENT_SIZE)"
proof -
  let ?ss = "staged (dev h)"
  let ?fits = "unat (seg_offset ?ss) + unat sz \<le> unat (end_addr ?ss)"
  from st have inv: "dev_inv (dev h)" and wf: "mem_wf (mem h)" by (simp_all add: staged_ok_def)
  have so: "seg_ok ?ss (staged_seg (dev h))" by (rule dev_inv_staged [OF inv])
  have endlt: "unat (end_addr ?ss) < 2 ^ 64 - 2 ^ 32"
  proof -
    have "Suc (staged_seg (dev h)) * SEGMENT_SIZE \<le> unat (nr_segment (dev h)) * SEGMENT_SIZE"
      using inv by (intro mult_le_mono1) (simp add: dev_inv_def dev_layout_def Suc_le_eq)
    moreover have "unat (nr_segment (dev h)) * SEGMENT_SIZE < 2 ^ 64 - 2 ^ 32"
      using inv by (simp add: dev_inv_def dev_layout_def)
    ultimately show ?thesis using so by (simp add: seg_ok_def)
  qed
  have "unat (seg_offset ?ss + ucast sz) = unat (seg_offset ?ss) + unat sz"
    using so endlt sz by (subst unat_add_u64) (simp_all add: seg_ok_def config_defs)
  then have test: "(end_addr ?ss < seg_offset ?ss + ucast sz) = (\<not> ?fits)"
    by (simp add: word_less_nat_alt not_le)
  \<comment> \<open>the handler after the test\<close>
  obtain h1 where h1: "(if end_addr ?ss < seg_offset ?ss + ucast sz then retire_segment h else Inr h) = Inr h1"
    and st1: "staged_ok h1" and nr1: "nr_segment (dev h1) = nr_segment (dev h)"
    and env1: "pools_hold n h1" "mmap_ok h1 = mmap_ok h"
    and c1: "if ?fits then h1 = h
             else staged_seg (dev h1) = Suc (staged_seg (dev h)) mod unat (nr_segment (dev h)) \<and>
                  unat (seg_offset (staged (dev h1))) = staged_seg (dev h1) * SEGMENT_SIZE"
  proof (cases ?fits)
    case True
    with st that test pools_hold_mono [OF p, of n] show ?thesis by simp
  next
    case False
    have lay: "dev_layout (dev h)" using inv by (simp add: dev_inv_def)
    from retire_segment_ok [OF lay wf m p] False that test show ?thesis by auto
  qed
  let ?d1 = "dev h1" and ?ss1 = "staged (dev h1)"
  let ?sz' = "round_to_grain (grain_unit ?d1) sz"
  from st1 have inv1: "dev_inv ?d1" by (simp add: staged_ok_def)
  have so1: "seg_ok ?ss1 (staged_seg ?d1)" by (rule dev_inv_staged [OF inv1])
  have g: "unat (grain_unit ?d1) = GRAIN_UNIT" using inv1 by (simp add: dev_inv_def dev_layout_def)
  note rg = round_to_grain_unat [OF g sz]
  have al: "unat (end_addr ?ss1) mod GRAIN_UNIT = 0"
    using so1 by (simp add: seg_ok_def config_defs mod_eq_0_iff_dvd dvd_add dvd_mult)
  have fit1: "unat (seg_offset ?ss1) + unat sz \<le> unat (end_addr ?ss1)"
    using c1 so1 sz by (cases ?fits) (auto simp: seg_ok_def)
  have "unat (seg_offset ?ss1) + grains (unat sz) \<le> unat (end_addr ?ss1)"
    using grains_fit [OF _ al fit1] so1 by (simp add: seg_ok_def)
  with bump_offset_inv [OF inv1, of ?sz'] rg
  have b: "dev_inv (bump_offset ?sz' ?d1)"
    "unat (seg_offset (staged (bump_offset ?sz' ?d1))) = unat (seg_offset ?ss1) + grains (unat sz)"
    by simp_all
  have pba: "unat (seg_offset ?ss1 div ucast (grain_unit ?d1)) * GRAIN_UNIT = unat (seg_offset ?ss1)"
    using so1 by (simp add: unat_div g seg_ok_def) (metis add.right_neutral div_mult_mod_eq)
  have eq: "get_next_pba sz h = Inr (seg_offset ?ss1 div ucast (grain_unit ?d1), h1\<lparr>dev := bump_offset ?sz' ?d1\<rparr>)"
    using h1 rg by (simp add: get_next_pba_def Let_def)
  have frame: "staged_seg (bump_offset ?sz' ?d1) = staged_seg ?d1"
    "nr_segment (bump_offset ?sz' ?d1) = nr_segment ?d1"
    "staged_seg_buf (bump_offset ?sz' ?d1) = staged_seg_buf ?d1"
    "start_addr (staged (bump_offset ?sz' ?d1)) = start_addr ?ss1"
    by (simp_all add: bump_offset_def staged_def)
  show ?thesis
    using eq b pba frame st1 nr1 c1 so1 env1
    by (cases ?fits) (auto simp: staged_ok_def seg_ok_def pools_hold_def)
qed

subsection \<open>Addresses inside the staged segment\<close>

definition in_staged :: "dev_abs \<Rightarrow> u64 \<Rightarrow> nat \<Rightarrow> bool" where
  "in_staged d pba n \<longleftrightarrow>
     unat (start_addr (staged d)) \<le> unat pba * GRAIN_UNIT \<and>
     unat pba * GRAIN_UNIT + n \<le> unat (seg_offset (staged d))"

lemma pba_bytes:
  assumes "dev_inv d" and "unat (pba :: u64) * GRAIN_UNIT < 2 ^ 64"
  shows "unat (pba * ucast (grain_unit d)) = unat pba * GRAIN_UNIT"
  using assms by (subst unat_mult_u64) (simp_all add: dev_inv_def dev_layout_def)

lemma is_staged_iff:
  assumes inv: "dev_inv d" and b: "unat pba * GRAIN_UNIT < 2 ^ 64"
  shows "is_staged d pba =
    (if unat pba * GRAIN_UNIT < unat (start_addr (staged d)) then -1
     else if unat (seg_offset (staged d)) \<le> unat pba * GRAIN_UNIT then 1 else 0)"
  using pba_bytes [OF assms] by (simp add: is_staged_def Let_def word_less_nat_alt word_le_nat_alt)

lemma in_staged_offset:
  assumes inv: "dev_inv d" and i: "in_staged d pba n"
  shows "unat pba * GRAIN_UNIT < 2 ^ 64"
    and "unat (pba * ucast (grain_unit d) - start_addr (staged d)) =
           unat pba * GRAIN_UNIT - unat (start_addr (staged d))"
    and "unat pba * GRAIN_UNIT - unat (start_addr (staged d)) + n \<le> SEGMENT_SIZE"
proof -
  show b: "unat pba * GRAIN_UNIT < 2 ^ 64"
  proof -
    have "unat pba * GRAIN_UNIT \<le> unat (seg_offset (staged d))" using i by (simp add: in_staged_def)
    with unat_u64_lt [of "seg_offset (staged d)"] show ?thesis by (simp add: le_less_trans)
  qed
  show "unat (pba * ucast (grain_unit d) - start_addr (staged d)) =
           unat pba * GRAIN_UNIT - unat (start_addr (staged d))"
    using i by (subst unat_diff) (simp_all add: pba_bytes [OF inv b] in_staged_def)
  show "unat pba * GRAIN_UNIT - unat (start_addr (staged d)) + n \<le> SEGMENT_SIZE"
    using i dev_inv_staged [OF inv] by (auto simp: in_staged_def seg_ok_def)
qed

lemma size_bytes:
  assumes "dev_inv d" and "unat (n :: u32) * GRAIN_UNIT < 2 ^ 32"
  shows "unat (n * grain_unit d) = unat n * GRAIN_UNIT"
  using assms by (subst unat_mult_u32) (simp_all add: dev_inv_def dev_layout_def)

lemma dev_abs_write_staged:
  assumes inv: "dev_inv (dev h)" and i: "in_staged (dev h) pba (unat n * GRAIN_UNIT)"
  shows "dev_abs_write run pba n buf cb h =
    ebind (memcpy (staged_seg_buf (dev h)) (unat pba * GRAIN_UNIT - unat (start_addr (staged (dev h))))
             buf 0 (unat n * GRAIN_UNIT) (mem h)) (\<lambda>m.
    ebind (run_and_recycle run cb (h\<lparr>mem := m\<rparr>)) (\<lambda>h1. Inr (0, h1)))"
proof -
  have "unat n * GRAIN_UNIT < 2 ^ 32"
    using in_staged_offset(3) [OF inv i] by (simp add: config_defs)
  from size_bytes [OF inv this] in_staged_offset(2) [OF inv i]
  show ?thesis by (simp add: dev_abs_write_def Let_def)
qed

lemma dev_abs_read_staged:
  assumes inv: "dev_inv (dev h)" and i: "in_staged (dev h) pba (unat n * GRAIN_UNIT)" and n: "0 < unat n"
  shows "dev_abs_read run pba n buf cb h =
    ebind (memcpy buf 0 (staged_seg_buf (dev h)) (unat pba * GRAIN_UNIT - unat (start_addr (staged (dev h))))
             (unat n * GRAIN_UNIT) (mem h)) (\<lambda>m.
    ebind (run_and_recycle run cb (h\<lparr>mem := m\<rparr>)) (\<lambda>h1. Inr (0, h1)))"
proof -
  have "unat n * GRAIN_UNIT < 2 ^ 32"
    using in_staged_offset(3) [OF inv i] by (simp add: config_defs)
  moreover have "is_staged (dev h) pba = 0"
    using i n in_staged_offset(1) [OF inv i] by (simp add: is_staged_iff [OF inv] in_staged_def GRAIN_UNIT_def)
  ultimately show ?thesis
    using size_bytes [OF inv, of n] in_staged_offset(2) [OF inv i] by (simp add: dev_abs_read_def Let_def)
qed

subsection \<open>Sequences of allocations\<close>

fun alloc_seq :: "u32 list \<Rightarrow> 'p handler \<Rightarrow> (u64 list \<times> 'p handler) res" where
  "alloc_seq [] h = Inr ([], h)"
| "alloc_seq (sz # szs) h =
     ebind (get_next_pba sz h) (\<lambda>(pba, h1).
     ebind (alloc_seq szs h1) (\<lambda>(ps, h2). Inr (pba # ps, h2)))"

text \<open>\<open>after a b\<close>: the allocation \<open>b\<close> starts where \<open>a\<close> ends, or later.\<close>

definition after :: "u64 \<times> u32 \<Rightarrow> u64 \<times> u32 \<Rightarrow> bool" where
  "after a b \<longleftrightarrow> unat (fst a) * GRAIN_UNIT + grains (unat (snd a)) \<le> unat (fst b) * GRAIN_UNIT"

lemma get_next_pba_forward:
  assumes st: "staged_ok h" and p: "pools_hold (Suc n) h" and m: "mmap_ok h (n_mmap h)"
    and sz: "unat sz \<le> SEGMENT_SIZE" and nw: "Suc (staged_seg (dev h)) < unat (nr_segment (dev h))"
  shows "\<exists>pba h'. get_next_pba sz h = Inr (pba, h') \<and> staged_ok h' \<and> pools_hold n h' \<and>
     mmap_ok h' = mmap_ok h \<and> nr_segment (dev h') = nr_segment (dev h) \<and>
     staged_seg (dev h') \<le> Suc (staged_seg (dev h)) \<and>
     unat (seg_offset (staged (dev h))) \<le> unat pba * GRAIN_UNIT \<and>
     unat pba * GRAIN_UNIT + grains (unat sz) = unat (seg_offset (staged (dev h')))"
proof -
  have "seg_ok (staged (dev h)) (staged_seg (dev h))"
    using st dev_inv_staged by (simp add: staged_ok_def)
  then have e: "unat (seg_offset (staged (dev h))) \<le> Suc (staged_seg (dev h)) * SEGMENT_SIZE"
    by (simp add: seg_ok_def)
  from get_next_pba_spec [OF st p m sz] e nw show ?thesis
    by (auto split: if_splits)
qed

lemma alloc_seq_ordered:
  assumes "staged_ok h" and "pools_hold (length szs) h" and "\<forall>n. mmap_ok h n"
    and "\<forall>sz \<in> set szs. unat sz \<le> SEGMENT_SIZE"
    and "staged_seg (dev h) + length szs < unat (nr_segment (dev h))"
  shows "\<exists>ps h'. alloc_seq szs h = Inr (ps, h') \<and> length ps = length szs \<and>
     sorted_wrt after (zip ps szs) \<and>
     (\<forall>p \<in> set ps. unat (seg_offset (staged (dev h))) \<le> unat p * GRAIN_UNIT)"
  using assms
proof (induction szs arbitrary: h)
  case Nil
  then show ?case by simp
next
  case (Cons sz szs)
  have "pools_hold (Suc (length szs)) h" "mmap_ok h (n_mmap h)" "unat sz \<le> SEGMENT_SIZE"
    "Suc (staged_seg (dev h)) < unat (nr_segment (dev h))"
    using Cons.prems by simp_all
  from get_next_pba_forward [OF Cons.prems(1) this] obtain pba h1 where
    a: "get_next_pba sz h = Inr (pba, h1)" "staged_ok h1" "pools_hold (length szs) h1"
    "mmap_ok h1 = mmap_ok h" "nr_segment (dev h1) = nr_segment (dev h)"
    "staged_seg (dev h1) \<le> Suc (staged_seg (dev h))"
    and lo: "unat (seg_offset (staged (dev h))) \<le> unat pba * GRAIN_UNIT"
    and hi: "unat pba * GRAIN_UNIT + grains (unat sz) = unat (seg_offset (staged (dev h1)))" by blast
  have "\<forall>n. mmap_ok h1 n" "\<forall>sz \<in> set szs. unat sz \<le> SEGMENT_SIZE"
    "staged_seg (dev h1) + length szs < unat (nr_segment (dev h1))"
    using Cons.prems a by simp_all
  from Cons.IH [OF a(2,3) this] obtain ps h2 where
    r: "alloc_seq szs h1 = Inr (ps, h2)" "length ps = length szs" "sorted_wrt after (zip ps szs)"
    "\<forall>p \<in> set ps. unat (seg_offset (staged (dev h1))) \<le> unat p * GRAIN_UNIT" by blast
  have "\<forall>b \<in> set (zip ps szs). after (pba, sz) b"
    using r(4) hi by (auto simp: after_def dest: set_zip_leftD)
  moreover have "unat (seg_offset (staged (dev h))) \<le> unat p * GRAIN_UNIT" if "p \<in> set ps" for p
    using r(4) that lo hi by fastforce
  ultimately show ?case using a(1) r lo by auto
qed

subsection \<open>Setting up a handler (\<open>handler_init\<close> of \<open>src/handler.c\<close>)\<close>

text \<open>
  \<open>hlr_alloc\<close> is the zeroed structure with its lock and its empty queues; the last arguments are
  the environment: the content of the block device and the outcomes of the \<open>mmap\<close> and
  \<open>io_submit\<close> calls. \<open>hlr_fill_pools\<close> puts the addresses of the \<open>QSIZE\<close> requests, control blocks and
  callbacks into their pools. \<open>ops->init\<close> is in the theories of the indexes, which keep their
  tables apart from the handler.
\<close>

definition zero_request :: "'p request" where
  "zero_request = \<lparr>rtype = REQ_TYPE_PADDING, seq_num = 0,
     rkey = \<lparr>kkey = (\<lambda>_. 0), klen = 0, hash_low = 0, hash_high = 0\<rparr>,
     rvalue = \<lparr>vvalue = NULL, vlen = 0\<rparr>, rsw = sw_create, params = None, temp_buf = NULL, cl_sock = 0\<rparr>"

definition zero_segment :: segment where
  "zero_segment = \<lparr>seg_idx = 0, seg_state = SEG_STATE_FREE, start_addr = 0, end_addr = 0, seg_offset = 0\<rparr>"

definition zero_dev :: dev_abs where
  "zero_dev = \<lparr>nr_logical_block = 0, logical_block_size = 0, size_in_byte = 0, segment_size = 0,
     nr_segment = 0, seg_array = (\<lambda>_. zero_segment), staged_seg = 0, staged_seg_idx = 0,
     staged_seg_buf = NULL, grain_unit = 0\<rparr>"

definition hlr_alloc :: "int \<Rightarrow> (nat \<Rightarrow> byte) \<Rightarrow> (nat \<Rightarrow> bool) \<Rightarrow> (nat \<Rightarrow> bool) \<Rightarrow> 'p handler" where
  "hlr_alloc num dsk mok sok =
     \<lparr>number = num, dev = zero_dev, flying = cl_init (int QDEPTH) False,
      req_q = q_init (int QSIZE), retry_q = q_init (int QSIZE), done_q = q_init (int QSIZE),
      req_pool = q_init (int QSIZE), iocb_pool = q_init (int QSIZE), cb_pool = q_init (int QSIZE),
      req_arr = (\<lambda>_. zero_request),
      iocb_arr = (\<lambda>_. \<lparr>io_cmd = IO_PREAD, io_buf = NULL, io_nbytes = 0, io_offset = 0, io_data = NULL\<rparr>),
      cb_arr = (\<lambda>_. \<lparr>cbfunc = CB_net_end_req, cbarg = NULL, cbiocb = NULL\<rparr>),
      mem = \<lparr>cells = (\<lambda>_. None), brk = 1\<rparr>, submitted = [], disk = dsk, acks = [],
      clock = \<lparr>tv_sec = 0, tv_usec = 0\<rparr>, mmap_ok = mok, n_mmap = 0, submit_ok = sok, n_submit = 0\<rparr>"

definition pool_ptrs :: "ptr list" where
  "pool_ptrs = [1..<Suc QSIZE]"

definition hlr_fill_pools :: "'p handler \<Rightarrow> 'p handler res" where
  "hlr_fill_pools h =
     ebind (enq_list q_enqueue pool_ptrs (req_pool h)) (\<lambda>rq.
     ebind (enq_list q_enqueue pool_ptrs (iocb_pool h)) (\<lambda>iq.
     ebind (enq_list q_enqueue pool_ptrs (cb_pool h)) (\<lambda>cq.
     Inr (h\<lparr>req_pool := rq, iocb_pool := iq, cb_pool := cq\<rparr>))))"

definition handler_init ::
  "int \<Rightarrow> bool \<Rightarrow> u32 option \<Rightarrow> u32 option \<Rightarrow> bool \<Rightarrow> (nat \<Rightarrow> byte) \<Rightarrow> (nat \<Rightarrow> bool) \<Rightarrow> (nat \<Rightarrow> bool) \<Rightarrow>
     'p handler res" where
  "handler_init num opened nblk lbs io_setup_ok dsk mok sok =
     ebind (dev_abs_init opened nblk lbs (hlr_alloc num dsk mok sok)) (\<lambda>h1.
     ebind (hlr_fill_pools h1) (\<lambda>h2.
     if io_setup_ok then Inr h2 else Inl Abort))"

lemma length_pool_ptrs [simp]: "length pool_ptrs = QSIZE"
  by (simp add: pool_ptrs_def)

lemma null_notin_pool_ptrs [simp]: "0 \<notin> set pool_ptrs"
  by (simp add: pool_ptrs_def)

lemma fill_pool:
  "\<exists>q. enq_list q_enqueue pool_ptrs (q_init (int QSIZE)) = Inr q \<and> q_inv q \<and>
       m_size q = int QSIZE \<and> q_list q = pool_ptrs"
  using lq.enq_list_contents [of "q_init (int QSIZE)" pool_ptrs] by simp

lemma dev_abs_init_frame:
  "dev_abs_init o1 nb bs h = Inr h' \<Longrightarrow>
     h' = h\<lparr>dev := dev h', mem := mem h', n_mmap := n_mmap h'\<rparr>"
  by (auto simp: dev_abs_init_def alloc_seg_buffer_def Let_def mem_alloc_def
      split: if_splits option.splits)

lemma handler_init_ok:
  fixes nb bs :: u32
  assumes big: "SEGMENT_SIZE \<le> unat nb * unat bs" "unat nb * unat bs < 2 ^ 32 * SEGMENT_SIZE" and mok: "mok 0"
  shows "\<exists>h :: 'p handler. handler_init num True (Some nb) (Some bs) True dsk mok sok = Inr h \<and> staged_ok h \<and>
     pools_hold QSIZE h \<and> q_inv (req_pool h) \<and> q_list (req_pool h) = pool_ptrs \<and>
     unat (nr_segment (dev h)) = unat nb * unat bs div SEGMENT_SIZE \<and> mmap_ok h = mok \<and>
     req_q h = q_init (int QSIZE) \<and> retry_q h = q_init (int QSIZE) \<and>
     flying h = cl_init (int QDEPTH) False \<and> acks h = []"
proof -
  let ?h0 = "hlr_alloc num dsk mok sok :: 'p handler"
  have "mem_wf (mem ?h0)" "mmap_ok ?h0 (n_mmap ?h0)"
    using mok by (simp_all add: hlr_alloc_def mem_wf_def)
  from dev_abs_init_inv [OF big this] obtain h1 where
    h1: "dev_abs_init True (Some nb) (Some bs) ?h0 = Inr h1" "staged_ok h1"
    "unat (nr_segment (dev h1)) = unat nb * unat bs div SEGMENT_SIZE" by blast
  obtain d m k where h1f: "h1 = ?h0\<lparr>dev := d, mem := m, n_mmap := k\<rparr>"
    using dev_abs_init_frame [OF h1(1)] by metis
  have q0: "req_pool h1 = q_init (int QSIZE)" "iocb_pool h1 = q_init (int QSIZE)" "cb_pool h1 = q_init (int QSIZE)"
    "req_q h1 = q_init (int QSIZE)" "retry_q h1 = q_init (int QSIZE)" "flying h1 = cl_init (int QDEPTH) False"
    "acks h1 = []" "mmap_ok h1 = mok"
    by (simp_all add: h1f hlr_alloc_def)
  obtain q where q: "enq_list q_enqueue pool_ptrs (q_init (int QSIZE)) = Inr q" "q_inv q" "q_list q = pool_ptrs"
    using fill_pool by blast
  have fill: "hlr_fill_pools h1 = Inr (h1\<lparr>req_pool := q, iocb_pool := q, cb_pool := q\<rparr>)"
    using q by (simp add: hlr_fill_pools_def q0)
  show ?thesis using h1 fill q q0
    by (simp add: handler_init_def staged_ok_def pools_hold_def)
qed

lemma stage_next_segment_frame:
  "stage_next_segment h = Inr h' \<Longrightarrow>
     submitted h' = submitted h \<and> iocb_arr h' = iocb_arr h \<and> submit_ok h' = submit_ok h \<and>
     iocb_pool h' = iocb_pool h \<and> disk h' = disk h \<and> req_arr h' = req_arr h"
  by (auto simp: stage_next_segment_def alloc_seg_buffer_def Let_def mem_alloc_def split: if_splits)

lemma aio_submit_Inr:
  assumes "q_inv (iocb_pool h)" "q_list (iocb_pool h) = w # rest" "NULL \<notin> set (q_list (iocb_pool h))"
    and "aio_submit cmd a sz buf cb h = Inr (rc, h')" and "submit_ok h (n_submit h)"
  shows "rc = 0 \<and> submitted h' = submitted h @ [w] \<and> io_cmd (iocb_arr h' w) = cmd \<and>
         io_offset (iocb_arr h' w) = a \<and> (\<forall>v. v \<noteq> w \<longrightarrow> iocb_arr h' v = iocb_arr h v) \<and>
         submit_ok h' = submit_ok h \<and> q_inv (iocb_pool h') \<and> q_list (iocb_pool h') = rest"
proof -
  have "q_list (iocb_pool h) \<noteq> []" using assms(2) by simp
  from aio_submit_ok [OF assms(1) this assms(3), of cmd a sz buf cb] assms(2,4,5)
  have *: "rc = 0 \<and> submitted h' = submitted h @ [w]" "q_inv (iocb_pool h')" "q_list (iocb_pool h') = rest"
    "iocb_arr h' = (iocb_arr h)(w := \<lparr>io_cmd = cmd, io_buf = buf, io_nbytes = unat sz, io_offset = a, io_data = cb\<rparr>)"
    by auto
  have "submit_ok h' = submit_ok h"
    using assms(4) by (auto simp: aio_submit_def Let_def res_simps split: if_splits)
  with * show ?thesis by simp
qed

lemma retire_segment_submits:
  assumes p: "pools_hold (Suc n) h" and w: "q_list (iocb_pool h) = w # rest"
    and ok: "submit_ok h (n_submit h)" and r: "retire_segment h = Inr h'"
  shows "submitted h' = submitted h @ [w] \<and> io_cmd (iocb_arr h' w) = IO_PWRITE \<and>
     io_offset (iocb_arr h' w) = start_addr (staged (dev h)) \<and> submit_ok h' = submit_ok h \<and>
     q_inv (iocb_pool h') \<and> q_list (iocb_pool h') = rest"
proof -
  let ?d1 = "(dev h)\<lparr>seg_array := (seg_array (dev h))(staged_seg (dev h) := (staged (dev h))\<lparr>seg_state := SEG_STATE_USED\<rparr>)\<rparr>"
  let ?h1 = "h\<lparr>dev := ?d1\<rparr>"
  from r obtain cb h2 rc h3 where
    mk: "make_callback CB_reap_seg_buf (staged_seg_buf (dev h)) ?h1 = Inr (cb, h2)"
    and wr: "aio_submit IO_PWRITE (start_addr (staged (dev h))) (ucast (segment_size (dev h))) (staged_seg_buf (dev h)) cb h2 = Inr (rc, h3)"
    and st: "stage_next_segment h3 = Inr h'"
    by (auto simp: retire_segment_def Let_def res_simps aio_write_def)
  have h2: "submitted h2 = submitted h" "iocb_pool h2 = iocb_pool h" "submit_ok h2 = submit_ok h" "n_submit h2 = n_submit h"
    using mk by (auto simp: make_callback_def res_simps split: if_splits)
  have pre: "q_inv (iocb_pool h2)" "q_list (iocb_pool h2) = w # rest" "NULL \<notin> set (q_list (iocb_pool h2))"
    "submit_ok h2 (n_submit h2)"
    using p w ok by (auto simp: pools_hold_def h2)
  from aio_submit_Inr [OF pre(1-3) wr pre(4)] stage_next_segment_frame [OF st] h2 show ?thesis by simp
qed

subsection \<open>Properties\<close>

text \<open>
  Initialisation. On a device of at least one segment (and at most \<open>2\<^sup>3\<^sup>2\<close> of them)
  \<open>handler_init\<close> returns a handler whose segments tile the device from address 0, whose first
  segment is staged and empty in a buffer of exactly one segment, and whose three pools hold
  all their \<open>QSIZE\<close> entries; a failed \<open>open\<close>, \<open>ioctl\<close> or \<open>io_setup\<close> aborts, and on a device smaller
  than one segment the initialisation writes outside its (empty) segment array.
\<close>

theorem handler_init_establishes:
  fixes nb bs :: u32
  assumes "mok 0" and "unat nb * unat bs < 2 ^ 32 * SEGMENT_SIZE"
  shows "(SEGMENT_SIZE \<le> unat nb * unat bs \<longrightarrow>
      (\<exists>h :: 'p handler. handler_init num True (Some nb) (Some bs) True dsk mok sok = Inr h \<and>
         staged_ok h \<and> pools_hold QSIZE h \<and> q_list (req_pool h) = pool_ptrs \<and>
         unat (nr_segment (dev h)) = unat nb * unat bs div SEGMENT_SIZE \<and>
         (\<forall>i < unat (nr_segment (dev h)). unat (start_addr (seg_array (dev h) i)) = i * SEGMENT_SIZE \<and>
            unat (end_addr (seg_array (dev h) i)) = Suc i * SEGMENT_SIZE)))
    \<and> (unat nb * unat bs < SEGMENT_SIZE \<longrightarrow>
        handler_init num True (Some nb) (Some bs) io dsk mok sok = (Inl OutOfBounds :: 'p handler res))
    \<and> handler_init num False nbo bso io dsk mok sok = (Inl Abort :: 'p handler res)
    \<and> handler_init num True None bso io dsk mok sok = (Inl Abort :: 'p handler res)
    \<and> handler_init num True (Some nb) None io dsk mok sok = (Inl Abort :: 'p handler res)"
proof (intro conjI impI)
  assume "SEGMENT_SIZE \<le> unat nb * unat bs"
  from handler_init_ok [where 'p = 'p and mok = mok, OF this assms(2,1), of num dsk sok]
  show "\<exists>h :: 'p handler. handler_init num True (Some nb) (Some bs) True dsk mok sok = Inr h \<and>
         staged_ok h \<and> pools_hold QSIZE h \<and> q_list (req_pool h) = pool_ptrs \<and>
         unat (nr_segment (dev h)) = unat nb * unat bs div SEGMENT_SIZE \<and>
         (\<forall>i < unat (nr_segment (dev h)). unat (start_addr (seg_array (dev h) i)) = i * SEGMENT_SIZE \<and>
            unat (end_addr (seg_array (dev h) i)) = Suc i * SEGMENT_SIZE)"
    by (fastforce simp: staged_ok_def dev_inv_def dev_layout_def seg_ok_def)
next
  assume small: "unat nb * unat bs < SEGMENT_SIZE"
  then have "unat (ucast nb * ucast bs :: u64) = unat nb * unat bs"
    by (subst unat_mult_u64) (simp_all add: config_defs)
  with small have "(ucast ((ucast nb * ucast bs :: u64) div of_nat SEGMENT_SIZE) :: u32) = 0"
    by (intro unat_eq_zero [THEN iffD1]) (simp add: unat_ucast_64_32 unat_div)
  then show "handler_init num True (Some nb) (Some bs) io dsk mok sok = (Inl OutOfBounds :: 'p handler res)"
    by (simp add: handler_init_def dev_abs_init_def Let_def)
qed (simp_all add: handler_init_def dev_abs_init_def)

theorem handler_init_establishes_witness:
  "(\<exists>h :: unit handler. handler_init 0 True (Some 16384) (Some 512) True (\<lambda>_. 0) (\<lambda>_. True) (\<lambda>_. True) = Inr h \<and>
      unat (nr_segment (dev h)) = 4)
   \<and> handler_init 0 True (Some 1) (Some 512) True (\<lambda>_. 0) (\<lambda>_. True) (\<lambda>_. True) = (Inl OutOfBounds :: unit handler res)"
  using handler_init_establishes [where 'p = unit, of "\<lambda>_. True" 16384 512 0 "\<lambda>_. 0" "\<lambda>_. True" True None None]
    handler_init_establishes [where 'p = unit, of "\<lambda>_. True" 1 512 0 "\<lambda>_. 0" "\<lambda>_. True" True None None]
  by (auto simp: config_defs)

text \<open>
  C18: allocation. For every size up to a segment \<open>get_next_pba\<close> returns without a crash, keeps the
  device well-formed, and hands out, rounded up to grains, exactly the bytes between the returned
  address and the new offset, inside the staged segment; when the request did not fit, it comes
  from the start of the next segment, round robin.
\<close>

theorem get_next_pba_allocates:
  assumes "staged_ok h" and "pools_hold (Suc n) h" and "mmap_ok h (n_mmap h)" and "unat sz \<le> SEGMENT_SIZE"
  shows "\<exists>pba h'. get_next_pba sz h = Inr (pba, h') \<and> staged_ok h' \<and> pools_hold n h' \<and>
     in_staged (dev h') pba (grains (unat sz)) \<and>
     unat pba * GRAIN_UNIT + grains (unat sz) = unat (seg_offset (staged (dev h'))) \<and>
     unat (seg_offset (staged (dev h'))) \<le> unat (end_addr (staged (dev h'))) \<and>
     (if unat (seg_offset (staged (dev h))) + unat sz \<le> unat (end_addr (staged (dev h)))
      then staged_seg (dev h') = staged_seg (dev h) \<and> unat pba * GRAIN_UNIT = unat (seg_offset (staged (dev h)))
      else staged_seg (dev h') = Suc (staged_seg (dev h)) mod unat (nr_segment (dev h)) \<and>
           unat pba * GRAIN_UNIT = staged_seg (dev h') * SEGMENT_SIZE)"
proof -
  obtain pba h' where r: "get_next_pba sz h = Inr (pba, h')" "staged_ok h'" "pools_hold n h'"
     "unat pba * GRAIN_UNIT + grains (unat sz) = unat (seg_offset (staged (dev h')))"
     "unat (start_addr (staged (dev h'))) \<le> unat pba * GRAIN_UNIT"
     "if unat (seg_offset (staged (dev h))) + unat sz \<le> unat (end_addr (staged (dev h)))
      then staged_seg (dev h') = staged_seg (dev h) \<and> mem h' = mem h \<and> unat pba * GRAIN_UNIT = unat (seg_offset (staged (dev h)))
      else staged_seg (dev h') = Suc (staged_seg (dev h)) mod unat (nr_segment (dev h)) \<and>
           unat pba * GRAIN_UNIT = staged_seg (dev h') * SEGMENT_SIZE"
    using get_next_pba_spec [OF assms] by blast
  moreover have "seg_ok (staged (dev h')) (staged_seg (dev h'))"
    using r(2) dev_inv_staged by (simp add: staged_ok_def)
  ultimately show ?thesis by (auto simp: in_staged_def seg_ok_def split: if_splits)
qed

lemma ex_handler_unit:
  "\<exists>h :: unit handler. handler_init 0 True (Some 16384) (Some 512) True (\<lambda>_. 0) (\<lambda>_. True) (\<lambda>_. True) = Inr h \<and>
     staged_ok h \<and> pools_hold QSIZE h \<and> mmap_ok h = (\<lambda>_. True) \<and> unat (nr_segment (dev h)) = 4 \<and>
     staged_seg (dev h) = 0 \<and> seg_offset (staged (dev h)) = 0"
proof -
  have c: "SEGMENT_SIZE \<le> unat (16384 :: u32) * unat (512 :: u32)"
    "unat (16384 :: u32) * unat (512 :: u32) < 2 ^ 32 * SEGMENT_SIZE" by (simp_all add: config_defs)
  obtain h :: "unit handler" where h: "handler_init 0 True (Some 16384) (Some 512) True (\<lambda>_. 0) (\<lambda>_. True) (\<lambda>_. True) = Inr h"
    "staged_ok h" "pools_hold QSIZE h" "mmap_ok h = (\<lambda>_. True)" "unat (nr_segment (dev h)) = 4"
    using handler_init_ok [where 'p = unit, OF c, of "\<lambda>_. True" 0 "\<lambda>_. 0" "\<lambda>_. True"] by (auto simp: config_defs)
  from h(1) have "staged_seg (dev h) = 0 \<and> seg_offset (staged (dev h)) = 0"
    by (auto simp: handler_init_def dev_abs_init_def hlr_fill_pools_def Let_def res_simps init_segment_def staged_def
        split: if_splits)
  with h show ?thesis by blast
qed

theorem get_next_pba_allocates_witness:
  "\<exists>(h :: unit handler) pba h'.
     handler_init 0 True (Some 16384) (Some 512) True (\<lambda>_. 0) (\<lambda>_. True) (\<lambda>_. True) = Inr h \<and>
     get_next_pba 1000 h = Inr (pba, h') \<and> staged_ok h' \<and> unat pba = 0 \<and> unat (seg_offset (staged (dev h'))) = 1024"
proof -
  obtain h :: "unit handler" where h: "handler_init 0 True (Some 16384) (Some 512) True (\<lambda>_. 0) (\<lambda>_. True) (\<lambda>_. True) = Inr h"
    "staged_ok h" "pools_hold QSIZE h" "mmap_ok h = (\<lambda>_. True)" "staged_seg (dev h) = 0" "seg_offset (staged (dev h)) = 0"
    using ex_handler_unit by blast
  have e: "unat (end_addr (staged (dev h))) = SEGMENT_SIZE"
    using h(2,5) dev_inv_staged [of "dev h"] by (simp add: staged_ok_def seg_ok_def)
  have p: "pools_hold (Suc 0) h" using h(3) by (rule pools_hold_mono) (simp add: config_defs)
  have "mmap_ok h (n_mmap h)" "unat (1000 :: u32) \<le> SEGMENT_SIZE" using h(4) by (simp_all add: config_defs)
  from get_next_pba_allocates [OF h(2) p this] h(1,6) e show ?thesis
    by (auto simp: config_defs grains_def)
qed

text \<open>
  No two live allocations overlap. A sequence of allocations, each at most a segment, that does
  not run past the last segment of the device succeeds, and every allocation ends before the next
  one starts, so all of them are disjoint and handed out in increasing order of address.
\<close>

theorem allocations_disjoint:
  assumes "staged_ok h" and "pools_hold (length szs) h" and "\<forall>n. mmap_ok h n"
    and "\<forall>sz \<in> set szs. unat sz \<le> SEGMENT_SIZE"
    and "staged_seg (dev h) + length szs < unat (nr_segment (dev h))"
  shows "\<exists>ps h'. alloc_seq szs h = Inr (ps, h') \<and> length ps = length szs \<and>
     (\<forall>i j. i < j \<longrightarrow> j < length szs \<longrightarrow>
        unat (ps ! i) * GRAIN_UNIT + grains (unat (szs ! i)) \<le> unat (ps ! j) * GRAIN_UNIT)"
proof -
  from alloc_seq_ordered [OF assms] obtain ps h' where
    r: "alloc_seq szs h = Inr (ps, h')" "length ps = length szs" "sorted_wrt after (zip ps szs)" by blast
  have "unat (ps ! i) * GRAIN_UNIT + grains (unat (szs ! i)) \<le> unat (ps ! j) * GRAIN_UNIT"
    if "i < j" "j < length szs" for i j
    using sorted_wrt_nth_less [OF r(3), of i j] that r(2) by (simp add: after_def)
  with r(1,2) show ?thesis by blast
qed

theorem allocations_disjoint_witness:
  "\<exists>(h :: unit handler) ps h'. alloc_seq [2097152, 1000] h = Inr (ps, h') \<and> length ps = 2 \<and>
     unat (ps ! 0) * GRAIN_UNIT + grains 2097152 \<le> unat (ps ! 1) * GRAIN_UNIT"
proof -
  obtain h :: "unit handler" where h: "staged_ok h" "pools_hold QSIZE h" "mmap_ok h = (\<lambda>_. True)"
    "unat (nr_segment (dev h)) = 4" "staged_seg (dev h) = 0"
    using ex_handler_unit by blast
  have p: "pools_hold (length [2097152, 1000 :: u32]) h" using h(2) by (rule pools_hold_mono) (simp add: config_defs)
  have "\<forall>n. mmap_ok h n" "\<forall>sz \<in> set [2097152, 1000 :: u32]. unat sz \<le> SEGMENT_SIZE"
    "staged_seg (dev h) + length [2097152, 1000 :: u32] < unat (nr_segment (dev h))"
    using h by (simp_all add: config_defs)
  from allocations_disjoint [OF h(1) p this] obtain ps h' where
    r: "alloc_seq [2097152, 1000] h = Inr (ps, h')" "length ps = 2"
    "\<forall>i j. i < j \<longrightarrow> j < length [2097152, 1000 :: u32] \<longrightarrow>
        unat (ps ! i) * GRAIN_UNIT + grains (unat ([2097152, 1000 :: u32] ! i)) \<le> unat (ps ! j) * GRAIN_UNIT" by auto
  from r(3) [rule_format, of 0 1] r(1,2) show ?thesis by auto
qed

text \<open>
  What is written into the staged segment is what is read back. For a range of whole grains
  inside the allocated part of the staged segment, \<open>dev_abs_write\<close> reaches its callback with the
  bytes of the source buffer in the staging buffer, and from any later state of the same device
  with that staging buffer, \<open>dev_abs_read\<close> of the range reaches its callback with the same
  bytes in the destination buffer; neither touches the disk.
\<close>

theorem staged_write_read_roundtrip:
  assumes inv: "dev_inv (dev h)" and i: "in_staged (dev h) pba (unat n * GRAIN_UNIT)" and n: "0 < unat n"
    and sb: "cells (mem h) (staged_seg_buf (dev h)) = Some s" "blen s = SEGMENT_SIZE" "staged_seg_buf (dev h) \<noteq> NULL"
    and b: "cells (mem h) buf = Some b" "buf \<noteq> NULL" "unat n * GRAIN_UNIT \<le> blen b"
  shows "\<exists>m1. dev_abs_write run pba n buf cb h =
             ebind (run_and_recycle run cb (h\<lparr>mem := m1\<rparr>)) (\<lambda>h1. Inr (0, h1)) \<and>
     (\<forall>h1 run2 cb2 buf2 b2.
        dev h1 = dev h \<and> cells (mem h1) (staged_seg_buf (dev h)) = cells m1 (staged_seg_buf (dev h)) \<and>
        cells (mem h1) buf2 = Some b2 \<and> buf2 \<noteq> NULL \<and> buf2 \<noteq> staged_seg_buf (dev h) \<and>
        unat n * GRAIN_UNIT \<le> blen b2 \<longrightarrow>
        (\<exists>m2 b2'. dev_abs_read run2 pba n buf2 cb2 h1 =
                ebind (run_and_recycle run2 cb2 (h1\<lparr>mem := m2\<rparr>)) (\<lambda>h2. Inr (0, h2)) \<and>
              cells m2 buf2 = Some b2' \<and> (\<forall>k < unat n * GRAIN_UNIT. bdat b2' k = bdat b k)))"
proof -
  let ?off = "unat pba * GRAIN_UNIT - unat (start_addr (staged (dev h)))"
  let ?n = "unat n * GRAIN_UNIT"
  let ?s = "s\<lparr>bdat := copy_bytes (bdat s) ?off (bdat b) 0 ?n\<rparr>"
  let ?m1 = "(mem h)\<lparr>cells := (cells (mem h))(staged_seg_buf (dev h) \<mapsto> ?s)\<rparr>"
  have fit: "?off + ?n \<le> blen s" using in_staged_offset(3) [OF inv i] sb(2) by simp
  have w: "dev_abs_write run pba n buf cb h = ebind (run_and_recycle run cb (h\<lparr>mem := ?m1\<rparr>)) (\<lambda>h1. Inr (0, h1))"
    using memcpy_ok [OF sb(1) b(1) sb(3) b(2) fit, of 0] b(3)
    by (simp add: dev_abs_write_staged [OF inv i])
  have "\<exists>m2 b2'. dev_abs_read run2 pba n buf2 cb2 h1 =
                ebind (run_and_recycle run2 cb2 (h1\<lparr>mem := m2\<rparr>)) (\<lambda>h2. Inr (0, h2)) \<and>
              cells m2 buf2 = Some b2' \<and> (\<forall>k < ?n. bdat b2' k = bdat b k)"
    if h1: "dev h1 = dev h" and sb1: "cells (mem h1) (staged_seg_buf (dev h)) = Some ?s"
      and b2: "cells (mem h1) buf2 = Some b2" "buf2 \<noteq> NULL" "?n \<le> blen b2" for h1 run2 cb2 buf2 b2
  proof -
    let ?b2 = "b2\<lparr>bdat := copy_bytes (bdat b2) 0 (bdat ?s) ?off ?n\<rparr>"
    let ?m2 = "(mem h1)\<lparr>cells := (cells (mem h1))(buf2 \<mapsto> ?b2)\<rparr>"
    have "dev_abs_read run2 pba n buf2 cb2 h1 = ebind (run_and_recycle run2 cb2 (h1\<lparr>mem := ?m2\<rparr>)) (\<lambda>h2. Inr (0, h2))"
      using memcpy_ok [OF b2(1) sb1 b2(2) sb(3), of 0 ?n ?off] b2(3) fit inv i n
      by (subst dev_abs_read_staged) (simp_all add: h1)
    moreover have "\<forall>k < ?n. bdat ?b2 k = bdat b k" by (simp add: copy_bytes_def)
    ultimately show ?thesis by (intro exI [of _ ?m2] exI [of _ ?b2]) simp
  qed
  with w show ?thesis by (intro exI [of _ ?m1]) auto
qed

theorem staged_write_read_roundtrip_witness:
  "\<exists>(h :: unit handler) h0 pba m1 buf b.
     get_next_pba 1024 h0 = Inr (pba, h) \<and> unat pba = 0 \<and> cells (mem h) buf = Some b \<and> blen b = SEGMENT_SIZE \<and>
     dev_abs_write (\<lambda>_ _. Inr) pba 8 buf 5 h = ebind (run_and_recycle (\<lambda>_ _. Inr) 5 (h\<lparr>mem := m1\<rparr>)) (\<lambda>h1. Inr (0, h1))"
proof -
  obtain h0 :: "unit handler" where h0: "staged_ok h0" "pools_hold QSIZE h0" "mmap_ok h0 = (\<lambda>_. True)"
    "staged_seg (dev h0) = 0" "seg_offset (staged (dev h0)) = 0"
    using ex_handler_unit by blast
  have e: "unat (end_addr (staged (dev h0))) = SEGMENT_SIZE"
    using h0(1,4) dev_inv_staged [of "dev h0"] by (simp add: staged_ok_def seg_ok_def)
  have p: "pools_hold (Suc 0) h0" using h0(2) by (rule pools_hold_mono) (simp add: config_defs)
  have c: "mmap_ok h0 (n_mmap h0)" "unat (1024 :: u32) \<le> SEGMENT_SIZE" using h0(3) by (simp_all add: config_defs)
  obtain pba h where h: "get_next_pba 1024 h0 = Inr (pba, h)" "staged_ok h" "unat pba = 0"
    "unat pba * GRAIN_UNIT + grains 1024 = unat (seg_offset (staged (dev h)))"
    "unat (start_addr (staged (dev h))) \<le> unat pba * GRAIN_UNIT"
    using get_next_pba_spec [OF h0(1) p c] h0(5) e by (auto simp: config_defs)
  then obtain s where s: "cells (mem h) (staged_seg_buf (dev h)) = Some s" "blen s = SEGMENT_SIZE"
    "staged_seg_buf (dev h) \<noteq> NULL" by (fastforce simp: staged_ok_def mem_wf_def)
  have st: "dev_inv (dev h)" "in_staged (dev h) pba (unat (8 :: u32) * GRAIN_UNIT)"
    "unat (8 :: u32) * GRAIN_UNIT \<le> blen s"
    using h s by (simp_all add: staged_ok_def in_staged_def config_defs grains_def)
  have n: "0 < unat (8 :: u32)" by simp
  obtain m1 where w: "dev_abs_write (\<lambda>_ _. Inr) pba 8 (staged_seg_buf (dev h)) 5 h =
      ebind (run_and_recycle (\<lambda>_ _. Inr) 5 (h\<lparr>mem := m1\<rparr>)) (\<lambda>h1. Inr (0, h1))"
    using staged_write_read_roundtrip [OF st(1,2) n s s(1,3) st(3), of "\<lambda>_ _. Inr" 5] by blast
  show ?thesis using h(1,3) s(1,2) w by blast
qed

text \<open>
  The log has no garbage collection. When the last segment of the device is full the allocation
  restarts at block 0 and the segment staged there forgets its previous content, whatever entries
  still refer to it.
\<close>

theorem log_wraps_onto_segment_zero:
  assumes "staged_ok h" and "pools_hold (Suc n) h" and "mmap_ok h (n_mmap h)" and "unat sz \<le> SEGMENT_SIZE"
    and "Suc (staged_seg (dev h)) = unat (nr_segment (dev h))"
    and "unat (end_addr (staged (dev h))) < unat (seg_offset (staged (dev h))) + unat sz"
  shows "\<exists>h'. get_next_pba sz h = Inr (0, h') \<and> staged_seg (dev h') = 0 \<and>
     unat (seg_offset (staged (dev h'))) = grains (unat sz)"
  using get_next_pba_spec [OF assms(1-4)] assms(5,6)
  by (auto simp: GRAIN_UNIT_def unat_eq_zero not_le [symmetric])

theorem log_wraps_onto_segment_zero_witness:
  "\<exists>(h :: unit handler) h'. get_next_pba 4096 h = Inr (0, h') \<and> staged_seg (dev h') = 0 \<and>
     seg_offset (staged (dev h)) \<noteq> 0"
proof -
  let ?one = "handler_init 0 True (Some 4096) (Some 512) True (\<lambda>_. 0) (\<lambda>_. True) (\<lambda>_. True)"
  have c: "SEGMENT_SIZE \<le> unat (4096 :: u32) * unat (512 :: u32)"
    "unat (4096 :: u32) * unat (512 :: u32) < 2 ^ 32 * SEGMENT_SIZE" by (simp_all add: config_defs)
  obtain h0 :: "unit handler" where h0: "?one = Inr h0" "staged_ok h0" "pools_hold QSIZE h0" "mmap_ok h0 = (\<lambda>_. True)"
    "unat (nr_segment (dev h0)) = 1"
    using handler_init_ok [where 'p = unit, OF c, of "\<lambda>_. True" 0 "\<lambda>_. 0" "\<lambda>_. True"] by (auto simp: config_defs)
  have s0: "staged_seg (dev h0) = 0" using h0(2,5) by (simp add: staged_ok_def dev_inv_def dev_layout_def)
  have off0: "seg_offset (staged (dev h0)) = 0"
    using h0(1) by (auto simp: handler_init_def dev_abs_init_def hlr_fill_pools_def Let_def res_simps init_segment_def
        staged_def split: if_splits)
  have e0: "unat (end_addr (staged (dev h0))) = SEGMENT_SIZE"
    using h0(2) s0 dev_inv_staged [of "dev h0"] by (simp add: staged_ok_def seg_ok_def)
  have p: "pools_hold (Suc (Suc 0)) h0" using h0(3) by (rule pools_hold_mono) (simp add: config_defs)
  have a: "mmap_ok h0 (n_mmap h0)" "unat (2097152 :: u32) \<le> SEGMENT_SIZE" using h0(4) by (simp_all add: config_defs)
  obtain pba h where h: "get_next_pba 2097152 h0 = Inr (pba, h)" "staged_ok h" "pools_hold (Suc 0) h"
    "mmap_ok h = mmap_ok h0" "nr_segment (dev h) = nr_segment (dev h0)" "staged_seg (dev h) = 0"
    "unat (seg_offset (staged (dev h))) = 2097152"
    using get_next_pba_spec [OF h0(2) p a] off0 e0 s0 by (auto simp: config_defs grains_def)
  have e: "unat (end_addr (staged (dev h))) = SEGMENT_SIZE"
    using h(2,6) dev_inv_staged [of "dev h"] by (simp add: staged_ok_def seg_ok_def)
  have b: "mmap_ok h (n_mmap h)" "unat (4096 :: u32) \<le> SEGMENT_SIZE"
    "Suc (staged_seg (dev h)) = unat (nr_segment (dev h))"
    "unat (end_addr (staged (dev h))) < unat (seg_offset (staged (dev h))) + unat (4096 :: u32)"
    using h h0 e by (simp_all add: config_defs)
  have ne: "seg_offset (staged (dev h)) \<noteq> 0" using h(7) by auto
  from log_wraps_onto_segment_zero [OF h(2,3) b] ne show ?thesis by blast
qed

end
