(* ===== verification/Net.thy ===== *)
theory Net
  imports Handler_Types
begin

section \<open>Wire format, socket I/O, latency tables (\<open>src/util.c\<close>, \<open>include/type.h\<close>)\<close>

text \<open>
  The packed \<open>struct netreq\<close> and its 42 bytes on the wire, the loops that read whole objects from
  a stream socket, the acknowledgement sent back, and the latency histogram.

  A socket is the list of what its \<open>read\<close> calls will see: an error (\<open>EAGAIN\<close> on the non-blocking
  sockets of the master), the end of the stream, or a chunk of bytes of which a call takes as many
  as it asked for. A list that runs out stands for a call that never returns; the loops are partial
  functions, so that \<open>None\<close> is a loop that never returns. CityHash is not part of the repository: it is an argument.
\<close>

subsection \<open>Little-endian words\<close>

fun bytes_of_word :: "nat \<Rightarrow> 'a::len word \<Rightarrow> byte list" where
  "bytes_of_word 0 w = []"
| "bytes_of_word (Suc n) w = ucast w # bytes_of_word n (drop_bit 8 w)"

fun word_of_bytes :: "byte list \<Rightarrow> 'a::len word" where
  "word_of_bytes [] = 0"
| "word_of_bytes (b # bs) = ucast b OR push_bit 8 (word_of_bytes bs)"

lemma length_bytes_of_word [simp]: "length (bytes_of_word n w) = n"
  by (induction n arbitrary: w) simp_all

lemma word_of_bytes_of_word: "word_of_bytes (bytes_of_word n w) = take_bit (8 * n) w"
proof (induction n arbitrary: w)
  case (Suc n)
  show ?case
    by (rule bit_word_eqI) (auto simp: Suc.IH bit_simps)
qed simp

lemma word_of_bytes_of_word_id [simp]:
  "LENGTH('a) \<le> 8 * n \<Longrightarrow> word_of_bytes (bytes_of_word n (w :: 'a::len word)) = w"
  by (simp add: word_of_bytes_of_word take_bit_word_eq_self)

lemma bytes_of_word_cong:
  "(\<And>i. i < 8 * n \<Longrightarrow> bit x i = bit y i) \<Longrightarrow> bytes_of_word n (x :: 'a::len word) = bytes_of_word n y"
proof (induction n arbitrary: x y)
  case (Suc n)
  have "ucast x = (ucast y :: byte)"
    by (rule bit_word_eqI) (use Suc.prems in \<open>auto simp: bit_simps\<close>)
  moreover have "bytes_of_word n (drop_bit 8 x) = bytes_of_word n (drop_bit 8 y)"
    by (rule Suc.IH) (use Suc.prems in \<open>auto simp: bit_simps\<close>)
  ultimately show ?case by simp
qed simp

lemma bytes_of_word_of_bytes:
  "length bs = n \<Longrightarrow> 8 * n \<le> LENGTH('a) \<Longrightarrow> bytes_of_word n (word_of_bytes bs :: 'a::len word) = bs"
proof (induction bs arbitrary: n)
  case (Cons b bs)
  then obtain m where n: "n = Suc m" "length bs = m" by auto
  have "ucast (ucast b OR push_bit 8 (word_of_bytes bs) :: 'a word) = b"
    by (rule bit_word_eqI) (use Cons.prems n in \<open>auto simp: bit_simps\<close>)
  moreover have "bytes_of_word m (drop_bit 8 (ucast b OR push_bit 8 (word_of_bytes bs) :: 'a word)) =
      bytes_of_word m (word_of_bytes bs :: 'a word)"
    by (rule bytes_of_word_cong) (use Cons.prems n in \<open>auto simp: bit_simps dest: bit_imp_le_length\<close>)
  ultimately show ?case using Cons n by simp
qed simp

subsection \<open>\<open>struct netreq\<close> on the wire\<close>

record netreq =
  nr_type :: req_type_t
  nr_keylen :: u8
  nr_seq_num :: u32
  nr_key :: "byte list"
  nr_kv_size :: u32

definition type_code :: "req_type_t \<Rightarrow> u8" where
  "type_code t = (case t of REQ_TYPE_PADDING \<Rightarrow> 0 | REQ_TYPE_SET \<Rightarrow> 1 | REQ_TYPE_GET \<Rightarrow> 2
     | REQ_TYPE_DELETE \<Rightarrow> 3 | REQ_TYPE_RANGE \<Rightarrow> 4 | REQ_TYPE_ITERATOR \<Rightarrow> 5 | REQ_TYPE_OTHER b \<Rightarrow> b)"

definition type_of_code :: "u8 \<Rightarrow> req_type_t" where
  "type_of_code b =
     (if b = 0 then REQ_TYPE_PADDING else if b = 1 then REQ_TYPE_SET else if b = 2 then REQ_TYPE_GET
      else if b = 3 then REQ_TYPE_DELETE else if b = 4 then REQ_TYPE_RANGE
      else if b = 5 then REQ_TYPE_ITERATOR else REQ_TYPE_OTHER b)"

definition NETREQ_SIZE :: nat where "NETREQ_SIZE = 42"

definition netreq_bytes :: "netreq \<Rightarrow> byte list" where
  "netreq_bytes nr = type_code (nr_type nr) # nr_keylen nr # bytes_of_word 4 (nr_seq_num nr) @
     nr_key nr @ bytes_of_word 4 (nr_kv_size nr)"

definition netreq_of_bytes :: "byte list \<Rightarrow> netreq" where
  "netreq_of_bytes bs =
     \<lparr>nr_type = type_of_code (bs ! 0), nr_keylen = bs ! 1, nr_seq_num = word_of_bytes (take 4 (drop 2 bs)),
      nr_key = take 32 (drop 6 bs), nr_kv_size = word_of_bytes (take 4 (drop 38 bs))\<rparr>"

definition netreq_wf :: "netreq \<Rightarrow> bool" where
  "netreq_wf nr \<longleftrightarrow> length (nr_key nr) = KEY_LEN \<and>
     (case nr_type nr of REQ_TYPE_OTHER b \<Rightarrow> b \<notin> {0, 1, 2, 3, 4, 5} | _ \<Rightarrow> True)"

lemma type_code_of_code [simp]: "type_code (type_of_code b) = b"
  by (simp add: type_code_def type_of_code_def)

lemma type_of_code_code: "(case t of REQ_TYPE_OTHER b \<Rightarrow> b \<notin> {0, 1, 2, 3, 4, 5} | _ \<Rightarrow> True) \<Longrightarrow> type_of_code (type_code t) = t"
  by (auto simp: type_code_def type_of_code_def split: req_type_t.splits)

lemma netreq_of_bytes_wf: "length bs = NETREQ_SIZE \<Longrightarrow> netreq_wf (netreq_of_bytes bs)"
  by (auto simp: netreq_wf_def netreq_of_bytes_def type_of_code_def NETREQ_SIZE_def config_defs)

lemma length_netreq_bytes: "netreq_wf nr \<Longrightarrow> length (netreq_bytes nr) = NETREQ_SIZE"
  by (simp add: netreq_bytes_def netreq_wf_def NETREQ_SIZE_def config_defs)

lemma netreq_decode_encode: "netreq_wf nr \<Longrightarrow> netreq_of_bytes (netreq_bytes nr) = nr"
  by (simp add: netreq_of_bytes_def netreq_bytes_def netreq_wf_def type_of_code_code config_defs)

lemma list_42:
  assumes "length bs = 42"
  shows "bs = (bs ! 0) # (bs ! 1) # take 4 (drop 2 bs) @ take 32 (drop 6 bs) @ take 4 (drop 38 bs)"
  by (rule nth_equalityI) (use assms in \<open>auto simp: nth_append nth_Cons split: nat.splits\<close>)

lemma netreq_encode_decode:
  assumes "length bs = NETREQ_SIZE"
  shows "netreq_bytes (netreq_of_bytes bs) = bs"
proof -
  from assms have l: "length bs = 42" by (simp add: NETREQ_SIZE_def)
  have "netreq_bytes (netreq_of_bytes bs) =
      (bs ! 0) # (bs ! 1) # take 4 (drop 2 bs) @ take 32 (drop 6 bs) @ take 4 (drop 38 bs)"
    using l by (simp add: netreq_bytes_def netreq_of_bytes_def bytes_of_word_of_bytes)
  with list_42 [OF l] show ?thesis by simp
qed

subsection \<open>Reading from a socket\<close>

datatype sock_ev = SOCK_ERR | SOCK_EOF | SOCK_DATA "byte list"

text \<open>\<open>read(sock, p, n)\<close>: the return value, the bytes, what is left.\<close>

fun sys_read :: "nat \<Rightarrow> sock_ev list \<Rightarrow> (int \<times> byte list \<times> sock_ev list) option" where
  "sys_read n [] = None"
| "sys_read n (SOCK_ERR # es) = Some (-1, [], es)"
| "sys_read n (SOCK_EOF # es) = Some (0, [], es)"
| "sys_read n (SOCK_DATA bs # es) =
     Some (int (length (take n bs)), take n bs, if drop n bs = [] then es else SOCK_DATA (drop n bs) # es)"

text \<open>
  \<open>buf\<close> holds the bytes read so far, so \<open>readed\<close> is its length. An error after the first byte is
  retried at once.
\<close>

partial_function (option) read_sock_from ::
  "nat \<Rightarrow> byte list \<Rightarrow> sock_ev list \<Rightarrow> (int \<times> byte list \<times> sock_ev list) option" where
  "read_sock_from count buf es =
     (if length buf < count
      then (case sys_read (count - length buf) es of
          None \<Rightarrow> None
        | Some (len, bs, es') \<Rightarrow>
            (if len = -1 then (if buf = [] then Some (-1, buf, es') else read_sock_from count buf es')
             else if len = 0 then Some (0, buf, es')
             else read_sock_from count (buf @ bs) es'))
      else Some (int (length buf), buf, es))"

definition read_sock :: "nat \<Rightarrow> sock_ev list \<Rightarrow> (int \<times> byte list \<times> sock_ev list) option" where
  "read_sock count es = read_sock_from count [] es"

partial_function (option) read_sock_bulk_from ::
  "nat \<Rightarrow> nat \<Rightarrow> byte list \<Rightarrow> sock_ev list \<Rightarrow> (int \<times> byte list \<times> sock_ev list) option" where
  "read_sock_bulk_from max_count align buf es =
     (if length buf < max_count
      then (case sys_read (max_count - length buf) es of
          None \<Rightarrow> None
        | Some (len, bs, es') \<Rightarrow>
            (if len = -1 then (if buf = [] then Some (-1, buf, es') else read_sock_bulk_from max_count align buf es')
             else if len = 0 then Some (0, buf, es')
             else if length (buf @ bs) mod align = 0 then Some (int (length (buf @ bs)), buf @ bs, es')
             else read_sock_bulk_from max_count align (buf @ bs) es'))
      else Some (int (length buf), buf, es))"

definition read_sock_bulk :: "nat \<Rightarrow> nat \<Rightarrow> sock_ev list \<Rightarrow> (int \<times> byte list \<times> sock_ev list) option" where
  "read_sock_bulk max_objs align es = read_sock_bulk_from (align * max_objs) align [] es"

definition hashing_key_128 :: "(byte list \<Rightarrow> u64 \<times> u64) \<Rightarrow> byte list \<Rightarrow> u8 \<Rightarrow> (u64 \<times> u64) res" where
  "hashing_key_128 CityHash128 key len =
     (if unat len \<le> length key then Inr (CityHash128 (take (unat len) key)) else Inl OutOfBounds)"

definition recv_request :: "sock_ev list \<Rightarrow> (int \<times> byte list \<times> sock_ev list) option" where
  "recv_request es = read_sock NETREQ_SIZE es"

text \<open>The bytes of a stream: what its chunks hold, in order, whatever errors come between.\<close>

fun stream_bytes :: "sock_ev list \<Rightarrow> byte list" where
  "stream_bytes [] = []"
| "stream_bytes (SOCK_DATA bs # es) = bs @ stream_bytes es"
| "stream_bytes (_ # es) = stream_bytes es"

fun live_stream :: "sock_ev list \<Rightarrow> bool" where
  "live_stream [] = True"
| "live_stream (SOCK_DATA bs # es) = (bs \<noteq> [] \<and> live_stream es)"
| "live_stream (SOCK_ERR # es) = live_stream es"
| "live_stream (SOCK_EOF # es) = False"

fun stream_measure :: "sock_ev list \<Rightarrow> nat" where
  "stream_measure [] = 0"
| "stream_measure (SOCK_DATA bs # es) = length bs + stream_measure es"
| "stream_measure (_ # es) = Suc (stream_measure es)"

lemma sys_read_live:
  assumes "live_stream es" and "sys_read n es = Some (len, bs, es')" and "0 < n"
  shows "live_stream es' \<and> stream_bytes es = bs @ stream_bytes es' \<and>
    stream_measure es' < stream_measure es \<and>
    ((len = -1 \<and> bs = []) \<or> (len = int (length bs) \<and> bs \<noteq> [] \<and> length bs \<le> n))"
proof (cases es)
  case (Cons e es0)
  show ?thesis
  proof (cases e)
    case (SOCK_DATA cs)
    define ds where "ds = drop n cs"
    have r: "len = int (length bs)" "bs = take n cs" "es' = (if ds = [] then es0 else SOCK_DATA ds # es0)"
      using assms(2) Cons SOCK_DATA by (auto simp: ds_def)
    have cs: "cs = bs @ ds" by (simp add: r(2) ds_def)
    have "cs \<noteq> []" "live_stream es0" using assms(1) Cons SOCK_DATA by simp_all
    moreover from this(1) assms(3) have "bs \<noteq> []" "length bs \<le> n" by (auto simp: r(2))
    ultimately show ?thesis
      using r(1,3) by (cases "ds = []") (simp_all add: Cons SOCK_DATA cs)
  qed (use assms Cons in auto)
qed (use assms in simp)

lemma sys_read_some:
  assumes "stream_bytes es \<noteq> []"
  shows "\<exists>r. sys_read n es = Some r"
  using assms by (cases es rule: stream_bytes.cases) auto

lemma read_sock_from_ok:
  assumes "live_stream es" and "length buf \<le> count" and "count \<le> length buf + length (stream_bytes es)"
    and "buf \<noteq> [] \<or> hd es \<noteq> SOCK_ERR"
  shows "\<exists>buf' es'. read_sock_from count buf es = Some (int count, buf', es') \<and> length buf' = count \<and>
     buf @ stream_bytes es = buf' @ stream_bytes es'"
  using assms
proof (induction "stream_measure es" arbitrary: es buf rule: less_induct)
  case less
  show ?case
  proof (cases "length buf < count")
    case False
    with less.prems show ?thesis by (simp add: read_sock_from.simps)
  next
    case True
    with less.prems(3) have "stream_bytes es \<noteq> []" by auto
    then obtain len bs es' where r: "sys_read (count - length buf) es = Some (len, bs, es')"
      using sys_read_some [of es "count - length buf"] by auto
    from sys_read_live [OF less.prems(1) r] True
    have l: "live_stream es'" "stream_bytes es = bs @ stream_bytes es'" "stream_measure es' < stream_measure es"
      and c: "(len = -1 \<and> bs = []) \<or> (len = int (length bs) \<and> bs \<noteq> [] \<and> length bs \<le> count - length buf)"
      by auto
    from c show ?thesis
    proof
      assume e: "len = -1 \<and> bs = []"
      with r less.prems(4) have "buf \<noteq> []" by (cases es rule: stream_bytes.cases) auto
      with less.hyps [OF l(3,1), of buf] less.prems(2,3) e l(2) r True show ?thesis
        by (subst read_sock_from.simps) simp
    next
      assume d: "len = int (length bs) \<and> bs \<noteq> [] \<and> length bs \<le> count - length buf"
      with less.hyps [OF l(3,1), of "buf @ bs"] less.prems(2,3) l(2) r True show ?thesis
        by (subst read_sock_from.simps) auto
    qed
  qed
qed

lemma read_sock_bulk_from_ok:
  assumes "live_stream es" and "length buf \<le> mx" and "mx mod align = 0"
    and "(length buf + length (stream_bytes es)) mod align = 0" and "length buf mod align \<noteq> 0 \<or> stream_bytes es \<noteq> []"
    and "buf \<noteq> [] \<or> hd es \<noteq> SOCK_ERR" and "length buf < mx"
  shows "\<exists>buf' es'. read_sock_bulk_from mx align buf es = Some (int (length buf'), buf', es') \<and>
     0 < length buf' \<and> length buf' \<le> mx \<and> length buf' mod align = 0 \<and> buf @ stream_bytes es = buf' @ stream_bytes es' \<and>
     live_stream es' \<and> stream_measure es' < stream_measure es"
  using assms
proof (induction "stream_measure es" arbitrary: es buf rule: less_induct)
  case less
  have "stream_bytes es \<noteq> []" using less.prems(4,5) by auto
  then obtain len bs es' where r: "sys_read (mx - length buf) es = Some (len, bs, es')"
    using sys_read_some [of es "mx - length buf"] by auto
  from sys_read_live [OF less.prems(1) r] less.prems(7)
  have l: "live_stream es'" "stream_bytes es = bs @ stream_bytes es'" "stream_measure es' < stream_measure es"
    and c: "(len = -1 \<and> bs = []) \<or> (len = int (length bs) \<and> bs \<noteq> [] \<and> length bs \<le> mx - length buf)"
    by auto
  from c show ?case
  proof
    assume e: "len = -1 \<and> bs = []"
    with r less.prems(6) have "buf \<noteq> []" by (cases es rule: stream_bytes.cases) auto
    with less.hyps [OF l(3,1), of buf] less.prems e l(2,3) r show ?thesis
      by (subst read_sock_bulk_from.simps) (auto intro: less_trans)
  next
    assume d: "len = int (length bs) \<and> bs \<noteq> [] \<and> length bs \<le> mx - length buf"
    show ?thesis
    proof (cases "length (buf @ bs) mod align = 0")
      case True
      with d l r less.prems(2,7) show ?thesis by (subst read_sock_bulk_from.simps) auto
    next
      case False
      with d less.prems(2,3) have lt: "length (buf @ bs) < mx"
        by (metis (no_types, lifting) le_neq_implies_less length_append le_diff_conv2 add.commute)
      have "(length (buf @ bs) + length (stream_bytes es')) mod align = 0" using less.prems(4) l(2) by (simp add: add.assoc)
      with less.hyps [OF l(3,1), of "buf @ bs"] less.prems(3) lt False d l(2,3) r less.prems(7) show ?thesis
        by (subst read_sock_bulk_from.simps) (auto intro: less_trans)
    qed
  qed
qed

text \<open>
  Objects of a fixed size in a stream: the bulk loop takes a positive number of them, in order, and a buffer of whole objects is read
  back object by object (\<open>na_arr[i]\<close> and \<open>netreq_buf[i]\<close>).
\<close>

lemma concat_blocks:
  assumes "\<forall>x \<in> set xs. length (f x) = n"
  shows "take (k * n) (concat (map f xs)) = concat (map f (take k xs)) \<and> drop (k * n) (concat (map f xs)) = concat (map f (drop k xs)) \<and>
     length (concat (map f xs)) = length xs * n"
  using assms
proof (induction xs arbitrary: k)
  case (Cons x xs)
  then show ?case by (cases k) simp_all
qed simp

definition blocks :: "nat \<Rightarrow> (byte list \<Rightarrow> 'a) \<Rightarrow> byte list \<Rightarrow> 'a list" where
  "blocks n dec bs = map (\<lambda>i. dec (take n (drop (i * n) bs))) [0..<length bs div n]"

lemma blocks_append:
  assumes "length x = n" and "0 < n"
  shows "blocks n dec (x @ bs) = dec x # blocks n dec bs"
proof -
  have "length (x @ bs) div n = Suc (length bs div n)" using assms by (simp add: div_add_self1)
  then have "blocks n dec (x @ bs) = map (\<lambda>i. dec (take n (drop (i * n) (x @ bs)))) (0 # map Suc [0..<length bs div n])"
    unfolding blocks_def by (simp only: upt_conv_Cons zero_less_Suc map_Suc_upt)
  also have "\<dots> = dec x # blocks n dec bs" using assms by (simp add: blocks_def comp_def)
  finally show ?thesis .
qed

lemma blocks_concat: "\<forall>x \<in> set xs. length (f x) = n \<and> dec (f x) = x \<Longrightarrow> 0 < n \<Longrightarrow> blocks n dec (concat (map f xs)) = xs"
proof (induction xs)
  case (Cons x xs)
  then show ?case by (simp add: blocks_append)
qed (simp add: blocks_def)

lemma read_blocks:
  assumes es: "live_stream es" "hd es \<noteq> SOCK_ERR" and bytes: "stream_bytes es = concat (map f xs)" "xs \<noteq> []"
    and len: "\<forall>x \<in> set xs. length (f x) = n" and pos: "0 < n" "0 < mx"
  shows "\<exists>k buf es'. 0 < k \<and> k \<le> length xs \<and> read_sock_bulk mx n es = Some (int (length buf), buf, es') \<and> 0 < length buf \<and>
     buf = concat (map f (take k xs)) \<and> stream_bytes es' = concat (map f (drop k xs)) \<and> live_stream es' \<and> stream_measure es' < stream_measure es"
proof -
  note blk = concat_blocks [of xs f n, OF len]
  have ne: "stream_bytes es \<noteq> []" using blk bytes pos by (metis length_0_conv mult_is_0 neq0_conv)
  from read_sock_bulk_from_ok [OF es(1), of "[]" "n * mx" n] es(2) ne blk bytes pos
  obtain buf es' where rd: "read_sock_bulk mx n es = Some (int (length buf), buf, es')" "0 < length buf"
    "length buf mod n = 0" "stream_bytes es = buf @ stream_bytes es'" "live_stream es'" "stream_measure es' < stream_measure es"
    by (auto simp: read_sock_bulk_def)
  define k where "k = length buf div n"
  have lk: "length buf = k * n" using rd(3) by (simp add: k_def mod_0_imp_dvd)
  then have k: "0 < k" using rd(2) by (cases k) simp_all
  have "k * n \<le> length xs * n" using blk [of k] bytes(1) rd(4) lk by (metis length_append le_add1)
  then have "k \<le> length xs" using pos by simp
  moreover have "buf = concat (map f (take k xs))" "stream_bytes es' = concat (map f (drop k xs))"
    using blk [of k] bytes(1) rd(4) lk by (metis append_eq_conv_conj)+
  ultimately show ?thesis using k rd(1,2,5,6) by blast
qed

subsection \<open>Latency histogram\<close>

text \<open>
  \<open>time_t\<close> is signed: \<open>latency/10\<close> truncates towards zero, and an index outside the table of
  \<open>CDF_TABLE_MAX\<close> counters is out of bounds.
\<close>

definition collect_latency :: "int \<Rightarrow> (nat \<Rightarrow> u64) \<Rightarrow> (nat \<Rightarrow> u64) res" where
  "collect_latency latency table =
     (if latency \<noteq> -1
      then (let i = c_div latency 10
            in if 0 \<le> i \<and> i < int CDF_TABLE_MAX then Inr (table(nat i := table (nat i) + 1))
               else Inl OutOfBounds)
      else Inr table)"

text \<open>
  A printed line is the bucket's lower bound, its count and the running sum (the third column of
  the output is this sum divided by \<open>nr_query\<close>).
\<close>

function print_cdf_from ::
  "nat \<Rightarrow> u64 \<Rightarrow> u64 \<Rightarrow> (nat \<Rightarrow> u64) \<Rightarrow> (nat \<times> u64 \<times> u64) list \<times> (nat \<Rightarrow> u64)" where
  "print_cdf_from i cdf_sum nr_query table =
     (if i < CDF_TABLE_MAX \<and> cdf_sum \<noteq> nr_query
      then (if table i \<noteq> 0
            then (let s = cdf_sum + table i; (out, t) = print_cdf_from (Suc i) s nr_query (table(i := 0))
                  in ((i * 10, table i, s) # out, t))
            else print_cdf_from (Suc i) cdf_sum nr_query table)
      else ([], table))"
  by pat_completeness auto

termination by (relation "measure (\<lambda>(i, _). CDF_TABLE_MAX - i)") auto

declare print_cdf_from.simps [simp del]

definition print_cdf :: "(nat \<Rightarrow> u64) \<Rightarrow> u64 \<Rightarrow> (nat \<times> u64 \<times> u64) list \<times> (nat \<Rightarrow> u64)" where
  "print_cdf table nr_query = print_cdf_from 0 0 nr_query table"

fun collect_all :: "int list \<Rightarrow> (nat \<Rightarrow> u64) \<Rightarrow> (nat \<Rightarrow> u64) res" where
  "collect_all [] table = Inr table"
| "collect_all (l # ls) table = ebind (collect_latency l table) (collect_all ls)"

definition bucket_count :: "int list \<Rightarrow> nat \<Rightarrow> nat" where
  "bucket_count ls i = length (filter (\<lambda>l. l div 10 = int i) ls)"

lemma lat_bucket: "0 \<le> l \<Longrightarrow> l < 10 * int n \<Longrightarrow> 0 \<le> l div 10 \<and> l div 10 < int n"
  by presburger

lemma collect_all_counts:
  assumes "\<forall>l \<in> set ls. 0 \<le> l \<and> l < 10 * int CDF_TABLE_MAX"
  shows "collect_all ls table = Inr (\<lambda>i. table i + of_nat (bucket_count ls i))"
  using assms
proof (induction ls arbitrary: table)
  case (Cons l ls)
  then have b: "l div 10 < int CDF_TABLE_MAX" "0 \<le> l div 10" using lat_bucket [of l CDF_TABLE_MAX] by simp_all
  then have "collect_latency l table = Inr (table(nat (l div 10) := table (nat (l div 10)) + 1))"
    using Cons.prems by (simp add: collect_latency_def Let_def)
  moreover have "(\<lambda>i. (table(nat (l div 10) := table (nat (l div 10)) + 1)) i + of_nat (bucket_count ls i)) =
      (\<lambda>i. table i + of_nat (bucket_count (l # ls) i))"
    using b by (auto simp: bucket_count_def fun_eq_iff)
  ultimately show ?case using Cons by simp
qed (simp add: bucket_count_def)

lemma sum_bucket_count:
  assumes "\<forall>l \<in> set ls. 0 \<le> l \<and> l < 10 * int CDF_TABLE_MAX"
  shows "(\<Sum>i < CDF_TABLE_MAX. bucket_count ls i) = length ls"
  using assms
proof (induction ls)
  case (Cons l ls)
  then have i: "nat (l div 10) < CDF_TABLE_MAX" "0 \<le> l div 10"
    using lat_bucket [of l CDF_TABLE_MAX] by (simp_all add: nat_less_iff)
  have "bucket_count (l # ls) i = bucket_count ls i + (if i = nat (l div 10) then 1 else 0)" for i
    using i(2) by (auto simp: bucket_count_def)
  with Cons i(1) show ?case by (simp add: sum.distrib)
qed (simp add: bucket_count_def)

text \<open>
  The loop prints one row per used bucket, in order, with the running sum, clears every bucket and
  stops early only when the remaining buckets are empty.
\<close>

fun cdf_rows :: "nat list \<Rightarrow> u64 \<Rightarrow> (nat \<Rightarrow> u64) \<Rightarrow> (nat \<times> u64 \<times> u64) list" where
  "cdf_rows [] s table = []"
| "cdf_rows (j # js) s table =
     (if table j = 0 then cdf_rows js s table else (j * 10, table j, s + table j) # cdf_rows js (s + table j) table)"

lemma cdf_rows_zero: "(\<forall>j \<in> set js. table j = 0) \<Longrightarrow> cdf_rows js s table = []"
  by (induction js) auto

lemma cdf_rows_cong: "(\<And>j. j \<in> set js \<Longrightarrow> t1 j = t2 j) \<Longrightarrow> cdf_rows js s t1 = cdf_rows js s t2"
  by (induction js arbitrary: s) auto

lemma print_cdf_from_drains:
  assumes "unat s + (\<Sum>j \<in> {i..<CDF_TABLE_MAX}. unat (table j)) = unat n"
  shows "print_cdf_from i s n table =
     (cdf_rows [i..<CDF_TABLE_MAX] s table, \<lambda>j. if i \<le> j \<and> j < CDF_TABLE_MAX then 0 else table j)"
  using assms
proof (induction i s n table rule: print_cdf_from.induct)
  case (1 i s n table)
  show ?case
  proof (cases "i < CDF_TABLE_MAX \<and> s \<noteq> n")
    case False
    have z: "table j = 0" if "i \<le> j" "j < CDF_TABLE_MAX" for j
    proof -
      from False that have "s = n" by auto
      with "1.prems" have "(\<Sum>j \<in> {i..<CDF_TABLE_MAX}. unat (table j)) = 0" by simp
      with that show ?thesis by (simp add: unat_eq_zero)
    qed
    with False show ?thesis
      by (subst print_cdf_from.simps) (auto simp: cdf_rows_zero fun_eq_iff)
  next
    case True
    then have i: "[i..<CDF_TABLE_MAX] = i # [Suc i..<CDF_TABLE_MAX]" "{i..<CDF_TABLE_MAX} = insert i {Suc i..<CDF_TABLE_MAX}"
      by (auto simp: upt_conv_Cons)
    have sum: "unat s + unat (table i) + (\<Sum>j \<in> {Suc i..<CDF_TABLE_MAX}. unat (table j)) = unat n"
      using "1.prems" by (simp add: i(2))
    show ?thesis
    proof (cases "table i = 0")
      case z: True
      have "print_cdf_from (Suc i) s n table =
          (cdf_rows [Suc i..<CDF_TABLE_MAX] s table, \<lambda>j. if Suc i \<le> j \<and> j < CDF_TABLE_MAX then 0 else table j)"
        using "1.IH"(2) [OF True] z sum by simp
      with True z show ?thesis
        by (subst print_cdf_from.simps) (auto simp: i(1) fun_eq_iff Suc_le_eq le_less)
    next
      case nz: False
      have "unat s + unat (table i) < 18446744073709551616" using sum unat_u64_lt [of n] by linarith
      then have "unat (s + table i) = unat s + unat (table i)" by (rule unat_add_u64)
      moreover have "(\<Sum>j \<in> {Suc i..<CDF_TABLE_MAX}. unat ((table(i := 0)) j)) =
          (\<Sum>j \<in> {Suc i..<CDF_TABLE_MAX}. unat (table j))" by (rule sum.cong) auto
      ultimately have "print_cdf_from (Suc i) (s + table i) n (table(i := 0)) =
          (cdf_rows [Suc i..<CDF_TABLE_MAX] (s + table i) (table(i := 0)),
           \<lambda>j. if Suc i \<le> j \<and> j < CDF_TABLE_MAX then 0 else (table(i := 0)) j)"
        using "1.IH"(1) [OF True] nz sum by (simp add: fun_upd_def)
      moreover have "cdf_rows [Suc i..<CDF_TABLE_MAX] (s + table i) (table(i := 0)) =
          cdf_rows [Suc i..<CDF_TABLE_MAX] (s + table i) table" by (rule cdf_rows_cong) simp
      ultimately show ?thesis using True nz
        by (subst print_cdf_from.simps) (auto simp: i(1) fun_eq_iff Let_def)
    qed
  qed
qed

subsection \<open>Properties\<close>

text \<open>
  The wire format loses nothing. Every 42-byte message decodes to a well-formed \<open>netreq\<close> whose
  encoding is that message, and every well-formed \<open>netreq\<close> is decoded from its encoding.
\<close>

theorem netreq_roundtrip:
  "(length bs = NETREQ_SIZE \<longrightarrow> netreq_wf (netreq_of_bytes bs) \<and> netreq_bytes (netreq_of_bytes bs) = bs) \<and>
   (netreq_wf nr \<longrightarrow> length (netreq_bytes nr) = NETREQ_SIZE \<and> netreq_of_bytes (netreq_bytes nr) = nr)"
  by (simp add: netreq_of_bytes_wf netreq_encode_decode length_netreq_bytes netreq_decode_encode)

theorem netreq_roundtrip_witness:
  "netreq_bytes (netreq_of_bytes (replicate 42 7)) = replicate 42 7 \<and>
   netreq_of_bytes (netreq_bytes \<lparr>nr_type = REQ_TYPE_SET, nr_keylen = 16, nr_seq_num = 70000,
     nr_key = replicate 32 65, nr_kv_size = 1024\<rparr>) =
   \<lparr>nr_type = REQ_TYPE_SET, nr_keylen = 16, nr_seq_num = 70000, nr_key = replicate 32 65, nr_kv_size = 1024\<rparr>"
  using netreq_roundtrip [of "replicate 42 7" "\<lparr>nr_type = REQ_TYPE_SET, nr_keylen = 16, nr_seq_num = 70000,
     nr_key = replicate 32 65, nr_kv_size = 1024\<rparr>"]
  by (simp add: netreq_wf_def NETREQ_SIZE_def config_defs)

text \<open>
  Framing. From a stream that carries whole objects, however the network cuts it into chunks
  and wherever errors come between (the first call apart), \<open>read_sock\<close> returns exactly the bytes asked
  for and \<open>read_sock_bulk\<close> a positive whole number of objects, at most the maximum; neither loses, repeats nor
  reorders a byte of the stream.
\<close>

theorem socket_framing:
  assumes "live_stream es" and "hd es \<noteq> SOCK_ERR" and "stream_bytes es \<noteq> []"
  shows "(count \<le> length (stream_bytes es) \<longrightarrow>
       (\<exists>buf es'. read_sock count es = Some (int count, buf, es') \<and> length buf = count \<and>
          stream_bytes es = buf @ stream_bytes es')) \<and>
     (length (stream_bytes es) mod align = 0 \<and> 0 < max_objs \<and> 0 < align \<longrightarrow>
       (\<exists>buf es'. read_sock_bulk max_objs align es = Some (int (length buf), buf, es') \<and>
          0 < length buf \<and> length buf \<le> align * max_objs \<and> length buf mod align = 0 \<and>
          stream_bytes es = buf @ stream_bytes es'))"
proof (intro conjI impI)
  assume "count \<le> length (stream_bytes es)"
  with read_sock_from_ok [OF assms(1), of "[]" count] assms(2)
  show "\<exists>buf es'. read_sock count es = Some (int count, buf, es') \<and> length buf = count \<and> stream_bytes es = buf @ stream_bytes es'"
    by (simp add: read_sock_def)
next
  assume "length (stream_bytes es) mod align = 0 \<and> 0 < max_objs \<and> 0 < align"
  with read_sock_bulk_from_ok [OF assms(1), of "[]" "align * max_objs" align] assms(2,3)
  obtain buf es' where "read_sock_bulk max_objs align es = Some (int (length buf), buf, es')" "0 < length buf" "length buf \<le> align * max_objs"
    "length buf mod align = 0" "stream_bytes es = buf @ stream_bytes es'" by (auto simp: read_sock_bulk_def)
  then show "\<exists>buf es'. read_sock_bulk max_objs align es = Some (int (length buf), buf, es') \<and>
     0 < length buf \<and> length buf \<le> align * max_objs \<and> length buf mod align = 0 \<and> stream_bytes es = buf @ stream_bytes es'"
    by (intro exI [of _ buf] exI [of _ es']) simp
qed

theorem socket_framing_witness:
  "(\<exists>buf es'. read_sock 2 [SOCK_DATA [1], SOCK_ERR, SOCK_DATA [2, 3]] = Some (2, buf, es') \<and>
     [1, 2, 3] = buf @ stream_bytes es') \<and>
   (\<exists>buf es'. read_sock_bulk 8 3 [SOCK_DATA [1], SOCK_ERR, SOCK_DATA [2, 3]] = Some (int (length buf), buf, es') \<and>
     length buf mod 3 = 0)"
  using socket_framing [of "[SOCK_DATA [1], SOCK_ERR, SOCK_DATA [2, 3]]" 2 3 8] by auto

text \<open>
  The latency report accounts for every query. After any number of latencies below one second
  has been collected in a cleared table, \<open>print_cdf\<close> prints one row per used bucket in increasing
  order with the exact counts and their running sum, and leaves the table cleared.
\<close>

theorem cdf_reports_all:
  assumes "\<forall>l \<in> set ls. 0 \<le> l \<and> l < 10 * int CDF_TABLE_MAX" and "length ls < 2 ^ 64"
  shows "\<exists>table. collect_all ls (\<lambda>_. 0) = Inr table \<and>
     (\<forall>i. unat (table i) = bucket_count ls i) \<and>
     print_cdf table (of_nat (length ls)) = (cdf_rows [0..<CDF_TABLE_MAX] 0 table, \<lambda>i. if i < CDF_TABLE_MAX then 0 else table i)"
proof -
  let ?t = "\<lambda>i. of_nat (bucket_count ls i) :: u64"
  have c: "collect_all ls (\<lambda>_. 0) = Inr ?t" using collect_all_counts [OF assms(1), of "\<lambda>_. 0"] by simp
  have u: "unat (?t i) = bucket_count ls i" for i
  proof (rule unat_of_nat_u64)
    have "bucket_count ls i \<le> length ls" by (simp add: bucket_count_def)
    with assms(2) show "bucket_count ls i < 18446744073709551616" by simp
  qed
  have "(\<Sum>j \<in> {0..<CDF_TABLE_MAX}. unat (?t j)) = length ls"
    using sum_bucket_count [OF assms(1)] by (simp add: u atLeast0LessThan)
  with assms(2) have "unat (0 :: u64) + (\<Sum>j \<in> {0..<CDF_TABLE_MAX}. unat (?t j)) = unat (of_nat (length ls) :: u64)"
    by (simp add: unat_of_nat_u64)
  from print_cdf_from_drains [OF this] c u show ?thesis by (auto simp: print_cdf_def)
qed

theorem cdf_reports_all_witness:
  "\<exists>table. collect_all [5, 27, 21] (\<lambda>_. 0) = Inr table \<and> unat (table 2) = 2 \<and>
     print_cdf table 3 = (cdf_rows [0..<CDF_TABLE_MAX] 0 table, \<lambda>i. if i < CDF_TABLE_MAX then 0 else table i)"
  using cdf_reports_all [of "[5, 27, 21]"] by (auto simp: config_defs bucket_count_def)

text \<open>
  A latency of a second or more is counted outside the table: the index is not checked against
  the size of the table.
\<close>

theorem collect_latency_overflow:
  assumes "10 * int CDF_TABLE_MAX \<le> latency"
  shows "collect_latency latency table = Inl OutOfBounds"
proof -
  have "int CDF_TABLE_MAX \<le> latency div 10" using assms by (simp add: config_defs)
  with assms show ?thesis by (simp add: collect_latency_def Let_def config_defs)
qed

theorem collect_latency_overflow_witness: "collect_latency 1000000 (\<lambda>_. 0) = Inl OutOfBounds"
  by (rule collect_latency_overflow) (simp add: config_defs)

end
