(* ===== verification/Request.thy ===== *)
theory Request
  imports Device Net
begin

section \<open>The life of a request (\<open>src/request.c\<close>)\<close>

text \<open>
  A request is taken from the handler's pool when a \<open>netreq\<close> arrives, completed with its hashes and
  a value buffer when the handler first sees it, and given back to the pool by \<open>net_end_req\<close>, which
  sends the acknowledgement and releases the window. \<open>end_req\<close> is always \<open>net_end_req\<close>: it is the
  only function the source stores there. A freed pointer stays in its field, as in the source: a
  second \<open>net_end_req\<close> frees the value buffer again, which is the crash \<open>BadFree\<close>.
\<close>

text \<open>
  What the handler hands to \<open>write\<close>, in order. The result of the write is not looked at; what becomes of an acknowledgement that the socket takes in part or refuses is in \<open>Ack_Wire\<close>.
\<close>

definition send_ack :: "int \<Rightarrow> netack \<Rightarrow> 'p handler \<Rightarrow> 'p handler" where
  "send_ack sock na h = h\<lparr>acks := acks h @ [(sock, na)]\<rparr>"

text \<open>\<open>ok\<close>: \<open>aligned_alloc\<close> returns a buffer; the code aborts when it does not.\<close>

definition set_value :: "bool \<Rightarrow> u32 \<Rightarrow> byte list option \<Rightarrow> memory \<Rightarrow> (val_struct \<times> memory) res" where
  "set_value ok len input_val m =
     (if \<not> ok then Inl Abort
      else let (p, m1) = mem_alloc (unat len) (\<lambda>_. 0) m
      in case input_val of
           Some v \<Rightarrow> ebind (memcpy_from p 0 (nth v) (length v) (unat len) m1) (\<lambda>m2.
                     Inr (\<lparr>vvalue = p, vlen = len\<rparr>, m2))
         | None \<Rightarrow> Inr (\<lparr>vvalue = p, vlen = len\<rparr>, m1))"

text \<open>The assignments of \<open>make_request_from_netreq\<close> to the fields of the request it took.\<close>

definition fill_request :: "netreq \<Rightarrow> int \<Rightarrow> timeval \<Rightarrow> 'p request \<Rightarrow> 'p request" where
  "fill_request nr sock t r =
     r\<lparr>rtype := nr_type nr, seq_num := nr_seq_num nr,
       rkey := (rkey r)\<lparr>klen := nr_keylen nr,
                        kkey := copy_bytes (kkey (rkey r)) 0 (nth (nr_key nr)) 0 (unat (nr_keylen nr))\<rparr>,
       rvalue := \<lparr>vvalue = NULL, vlen = nr_kv_size nr\<rparr>,
       cl_sock := sock, rsw := sw_start t (rsw r)\<rparr>"

definition make_request_from_netreq :: "netreq \<Rightarrow> int \<Rightarrow> 'p handler \<Rightarrow> (ptr \<times> 'p handler) res" where
  "make_request_from_netreq nr sock h =
     ebind (q_dequeue (req_pool h)) (\<lambda>(req, q).
     if req = NULL then Inl NullDeref
     else if length (nr_key nr) < unat (nr_keylen nr) then Inl OutOfBounds
     else Inr (req, h\<lparr>req_pool := q,
            req_arr := (req_arr h)(req := fill_request nr sock (clock h) (req_arr h req))\<rparr>))"

definition key_bytes :: "key_struct \<Rightarrow> byte list" where
  "key_bytes k = map (kkey k) [0..<KEY_LEN_MAX]"

text \<open>The value buffer of a request, by its type; every type but GET and SET is left without one.\<close>

definition value_for :: "bool \<Rightarrow> 'p request \<Rightarrow> memory \<Rightarrow> (val_struct \<times> memory) res" where
  "value_for ok r m =
     (case rtype r of
        REQ_TYPE_GET \<Rightarrow> set_value ok (of_nat VALUE_LEN_MAX) None m
      | REQ_TYPE_SET \<Rightarrow> set_value ok (vlen (rvalue r)) None m
      | _ \<Rightarrow> Inr (rvalue r, m))"

definition add_request_info ::
  "(byte list \<Rightarrow> u64 \<times> u64) \<Rightarrow> bool \<Rightarrow> ptr \<Rightarrow> 'p handler \<Rightarrow> 'p handler res" where
  "add_request_info CityHash128 ok req h =
     (let r = req_arr h req
      in ebind (hashing_key_128 CityHash128 (key_bytes (rkey r)) (klen (rkey r))) (\<lambda>(lo, hi).
         ebind (value_for ok r (mem h)) (\<lambda>(v, m).
         Inr (h\<lparr>mem := m, req_arr := (req_arr h)(req :=
                r\<lparr>rkey := (rkey r)\<lparr>hash_low := lo, hash_high := hi\<rparr>, rvalue := v,
                  params := None, temp_buf := NULL\<rparr>)\<rparr>))))"

definition net_end_req :: "ptr \<Rightarrow> 'p handler \<Rightarrow> 'p handler res" where
  "net_end_req req h =
     (let r = req_arr h req;
          sw = sw_end (clock h) (rsw r);
          h1 = h\<lparr>req_arr := (req_arr h)(req := r\<lparr>rsw := sw\<rparr>)\<rparr>;
          h2 = send_ack (cl_sock r) \<lparr>ack_seq_num = seq_num r, ack_type = rtype r, elapsed_time = sw_get_usec sw\<rparr> h1;
          h3 = h2\<lparr>flying := fst (cl_release (flying h2))\<rparr>
      in ebind (mem_free (vvalue (rvalue r)) (mem h3)) (\<lambda>m.
         ebind (q_enqueue req (req_pool h3)) (\<lambda>(_, q).
         Inr (h3\<lparr>mem := m, req_pool := q\<rparr>))))"

subsection \<open>Behaviour of the operations\<close>

lemma set_value_None:
  "mem_wf m \<Longrightarrow> \<exists>m'. set_value True len None m = Inr (\<lparr>vvalue = brk m, vlen = len\<rparr>, m') \<and> mem_wf m' \<and>
     cells m' = (cells m)(brk m \<mapsto> \<lparr>blen = unat len, bdat = \<lambda>_. 0\<rparr>) \<and> brk m' = Suc (brk m)"
  by (auto simp: set_value_def mem_alloc_def mem_wf_def)

lemma hashing_own_key [simp]:
  "hashing_key_128 C (key_bytes k) (klen k) = Inr (C (map (kkey k) [0..<unat (klen k)]))"
proof -
  have "unat (klen k) \<le> KEY_LEN_MAX" using unat_u8_lt [of "klen k"] unfolding KEY_LEN_MAX_def by linarith
  then show ?thesis by (simp add: hashing_key_128_def key_bytes_def take_map)
qed

lemma fill_request_fields [simp]:
  "rtype (fill_request nr sock t r) = nr_type nr" "seq_num (fill_request nr sock t r) = nr_seq_num nr"
  "cl_sock (fill_request nr sock t r) = sock" "klen (rkey (fill_request nr sock t r)) = nr_keylen nr"
  "rvalue (fill_request nr sock t r) = \<lparr>vvalue = NULL, vlen = nr_kv_size nr\<rparr>"
  "sw_start_tv (rsw (fill_request nr sock t r)) = t"
  by (simp_all add: fill_request_def sw_start_def)

lemma fill_request_key:
  assumes "unat (nr_keylen nr) \<le> length (nr_key nr)"
  shows "map (kkey (rkey (fill_request nr sock t r))) [0..<unat (nr_keylen nr)] = take (unat (nr_keylen nr)) (nr_key nr)"
  using assms by (intro nth_equalityI) (simp_all add: fill_request_def copy_bytes_def)

lemma make_request_ok:
  assumes "q_inv (req_pool h)" and "q_list (req_pool h) = req # rest" and "req \<noteq> NULL"
    and "unat (nr_keylen nr) \<le> length (nr_key nr)"
  shows "\<exists>q. make_request_from_netreq nr sock h =
       Inr (req, h\<lparr>req_pool := q, req_arr := (req_arr h)(req := fill_request nr sock (clock h) (req_arr h req))\<rparr>) \<and>
     q_inv q \<and> q_list q = rest \<and> m_size q = m_size (req_pool h)"
  using lq.deq_nonempty [OF assms(1)] assms(2-4)
  by (auto simp: make_request_from_netreq_def)

lemma make_request_empty:
  assumes "q_inv (req_pool h)" and "q_list (req_pool h) = []"
  shows "make_request_from_netreq nr sock h = Inl NullDeref"
  using lq.deq_empty [OF assms] by (simp add: make_request_from_netreq_def)

lemma value_for_ok:
  assumes "mem_wf m" and "vvalue (rvalue r) = NULL"
  shows "\<exists>v m'. value_for True r m = Inr (v, m') \<and> mem_wf m' \<and>
     (if rtype r \<in> {REQ_TYPE_GET, REQ_TYPE_SET}
      then vvalue v = brk m \<and> vlen v = (if rtype r = REQ_TYPE_GET then of_nat VALUE_LEN_MAX else vlen (rvalue r)) \<and>
           cells m' = (cells m)(brk m \<mapsto> \<lparr>blen = unat (vlen v), bdat = \<lambda>_. 0\<rparr>)
      else v = rvalue r \<and> m' = m)"
  using set_value_None [OF assms(1), of "of_nat VALUE_LEN_MAX"] set_value_None [OF assms(1), of "vlen (rvalue r)"] assms
  by (cases "rtype r") (auto simp: value_for_def)

lemma add_request_info_eq:
  assumes "value_for ok (req_arr h req) (mem h) = Inr (v, m)"
    and "C (map (kkey (rkey (req_arr h req))) [0..<unat (klen (rkey (req_arr h req)))]) = (lo, hi)"
  shows "add_request_info C ok req h = Inr (h\<lparr>mem := m, req_arr := (req_arr h)(req :=
      (req_arr h req)\<lparr>rkey := (rkey (req_arr h req))\<lparr>hash_low := lo, hash_high := hi\<rparr>, rvalue := v,
        params := None, temp_buf := NULL\<rparr>)\<rparr>)"
  using assms by (simp add: add_request_info_def Let_def)

text \<open>Without memory for the value the handler aborts.\<close>

lemma add_request_info_no_memory:
  "rtype (req_arr h req) \<in> {REQ_TYPE_GET, REQ_TYPE_SET} \<Longrightarrow> add_request_info C False req h = Inl Abort"
  by (auto simp: add_request_info_def value_for_def set_value_def Let_def split: prod.splits)

lemma add_request_info_memory: "add_request_info C ok req h = Inr h' \<Longrightarrow> add_request_info C True req h = Inr h'"
  by (cases ok) (auto simp: add_request_info_def value_for_def set_value_def Let_def res_simps split: prod.splits req_type_t.splits)

definition ack_of :: "timeval \<Rightarrow> 'p request \<Rightarrow> int \<times> netack" where
  "ack_of t r = (cl_sock r, \<lparr>ack_seq_num = seq_num r, ack_type = rtype r,
     elapsed_time = tv_usecs t - tv_usecs (sw_start_tv (rsw r))\<rparr>)"

lemma net_end_req_ok:
  assumes "q_inv (req_pool h)" and "int (length (q_list (req_pool h))) < m_size (req_pool h)"
    and "mem_free (vvalue (rvalue (req_arr h req))) (mem h) = Inr m"
  shows "\<exists>q. net_end_req req h = Inr (h\<lparr>mem := m, req_pool := q,
       req_arr := (req_arr h)(req := (req_arr h req)\<lparr>rsw := sw_end (clock h) (rsw (req_arr h req))\<rparr>),
       flying := fst (cl_release (flying h)), acks := acks h @ [ack_of (clock h) (req_arr h req)]\<rparr>) \<and>
     q_inv q \<and> q_list q = q_list (req_pool h) @ [req] \<and> m_size q = m_size (req_pool h)"
proof -
  obtain q where q: "q_enqueue req (req_pool h) = Inr (True, q)" "q_inv q" "q_list q = q_list (req_pool h) @ [req]"
    "m_size q = m_size (req_pool h)"
    using lq.enq_room [OF assms(1,2), of req] by blast
  show ?thesis
    by (rule exI [of _ q]) (use q assms(3) in
        \<open>simp add: net_end_req_def Let_def send_ack_def sw_get_usec_diff sw_end_def ack_of_def\<close>)
qed

lemma net_end_req_bad_free:
  "vvalue (rvalue (req_arr h req)) \<noteq> NULL \<Longrightarrow> cells (mem h) (vvalue (rvalue (req_arr h req))) = None \<Longrightarrow>
     net_end_req req h = Inl BadFree"
  by (simp add: net_end_req_def Let_def send_ack_def mem_free_def)

lemma pool_ptrs_Cons: "pool_ptrs = 1 # [2..<Suc QSIZE]"
proof -
  have "1 < Suc QSIZE" by (simp add: QSIZE_def)
  from upt_conv_Cons [OF this] show ?thesis by (simp only: pool_ptrs_def Suc_1)
qed

subsection \<open>Properties\<close>

text \<open>
  The life cycle of a request. A message whose key length does not exceed its key field takes the
  first free request, which then carries the hashes of exactly the key bytes sent and a zeroed buffer of the
  requested size (4096 bytes for a GET); ending it sends one acknowledgement with the
  sequence number and type of the message to its socket, leaves no buffer allocated and returns the
  request to the pool; ending it twice frees its buffer twice.
\<close>

theorem request_lifecycle:
  assumes p: "q_inv (req_pool h)" "q_list (req_pool h) = req # rest" "req \<noteq> NULL" and m: "mem_wf (mem h)"
    and k: "unat (nr_keylen nr) \<le> length (nr_key nr)"
  shows "\<exists>h1 h2 h3. make_request_from_netreq nr sock h = Inr (req, h1) \<and> add_request_info C True req h1 = Inr h2 \<and>
     net_end_req req h2 = Inr h3 \<and>
     (hash_low (rkey (req_arr h2 req)), hash_high (rkey (req_arr h2 req))) = C (take (unat (nr_keylen nr)) (nr_key nr)) \<and>
     (nr_type nr \<in> {REQ_TYPE_GET, REQ_TYPE_SET} \<longrightarrow>
        cells (mem h2) (vvalue (rvalue (req_arr h2 req))) =
          Some \<lparr>blen = (if nr_type nr = REQ_TYPE_GET then VALUE_LEN_MAX else unat (nr_kv_size nr)), bdat = \<lambda>_. 0\<rparr> \<and>
        net_end_req req h3 = Inl BadFree) \<and>
     acks h3 = acks h @ [(sock, \<lparr>ack_seq_num = nr_seq_num nr, ack_type = nr_type nr, elapsed_time = 0\<rparr>)] \<and>
     cells (mem h3) = cells (mem h) \<and> q_list (req_pool h3) = rest @ [req]"
proof -
  let ?r1 = "fill_request nr sock (clock h) (req_arr h req)"
  obtain q where q: "make_request_from_netreq nr sock h = Inr (req, h\<lparr>req_pool := q, req_arr := (req_arr h)(req := ?r1)\<rparr>)"
    "q_inv q" "q_list q = rest" "m_size q = m_size (req_pool h)"
    using make_request_ok [OF p k] by blast
  let ?h1 = "h\<lparr>req_pool := q, req_arr := (req_arr h)(req := ?r1)\<rparr>"
  obtain lo hi where C: "C (take (unat (nr_keylen nr)) (nr_key nr)) = (lo, hi)" by fastforce
  obtain v m1 where v: "value_for True ?r1 (mem h) = Inr (v, m1)" "mem_wf m1"
    "if nr_type nr \<in> {REQ_TYPE_GET, REQ_TYPE_SET}
      then vvalue v = brk (mem h) \<and> vlen v = (if nr_type nr = REQ_TYPE_GET then of_nat VALUE_LEN_MAX else nr_kv_size nr) \<and>
           cells m1 = (cells (mem h))(brk (mem h) \<mapsto> \<lparr>blen = unat (vlen v), bdat = \<lambda>_. 0\<rparr>)
      else v = rvalue ?r1 \<and> m1 = mem h"
    using value_for_ok [OF m, of ?r1] by (auto simp del: fun_upd_apply)
  let ?r2 = "?r1\<lparr>rkey := (rkey ?r1)\<lparr>hash_low := lo, hash_high := hi\<rparr>, rvalue := v, params := None, temp_buf := NULL\<rparr>"
  let ?h2 = "?h1\<lparr>mem := m1, req_arr := (req_arr ?h1)(req := ?r2)\<rparr>"
  have a: "add_request_info C True req ?h1 = Inr ?h2"
    using add_request_info_eq [of True ?h1 req v m1 C lo hi] v(1) C fill_request_key [OF k, of sock "clock h" "req_arr h req"]
    by simp
  have fresh: "brk (mem h) \<noteq> NULL" "cells (mem h) (brk (mem h)) = None" using m by (auto simp: mem_wf_def)
  obtain m2 where f: "mem_free (vvalue v) m1 = Inr m2" "cells m2 = cells (mem h)"
    using v(3) fresh by (cases "nr_type nr \<in> {REQ_TYPE_GET, REQ_TYPE_SET}") (auto simp: mem_free_def fun_upd_idem)
  have room: "int (length (q_list q)) < m_size q"
    using lq.within_capacity [OF p(1)] p(2) q(3,4) by simp
  obtain q2 where e: "net_end_req req ?h2 = Inr (?h2\<lparr>mem := m2, req_pool := q2,
       req_arr := (req_arr ?h2)(req := ?r2\<lparr>rsw := sw_end (clock h) (rsw ?r2)\<rparr>),
       flying := fst (cl_release (flying h)), acks := acks h @ [ack_of (clock h) ?r2]\<rparr>)" "q_list q2 = rest @ [req]"
    using net_end_req_ok [of ?h2 req m2] q(2,3) room f(1) by auto
  let ?h3 = "?h2\<lparr>mem := m2, req_pool := q2,
       req_arr := (req_arr ?h2)(req := ?r2\<lparr>rsw := sw_end (clock h) (rsw ?r2)\<rparr>),
       flying := fst (cl_release (flying h)), acks := acks h @ [ack_of (clock h) ?r2]\<rparr>"
  have "nr_type nr \<in> {REQ_TYPE_GET, REQ_TYPE_SET} \<longrightarrow>
        cells (mem ?h2) (vvalue (rvalue (req_arr ?h2 req))) =
          Some \<lparr>blen = (if nr_type nr = REQ_TYPE_GET then VALUE_LEN_MAX else unat (nr_kv_size nr)), bdat = \<lambda>_. 0\<rparr> \<and>
        net_end_req req ?h3 = Inl BadFree"
    using v(3) fresh f(2) by (auto intro!: net_end_req_bad_free simp: unat_of_nat_u32 config_defs)
  with q(1) a e C f(2) show ?thesis
    by (intro exI [of _ ?h1] exI [of _ ?h2] exI [of _ ?h3]) (simp add: ack_of_def)
qed

theorem request_lifecycle_witness:
  "\<exists>(h :: unit handler) req h1 h2 h3.
     make_request_from_netreq \<lparr>nr_type = REQ_TYPE_SET, nr_keylen = 2, nr_seq_num = 7, nr_key = [65, 66], nr_kv_size = 1024\<rparr> 5 h
       = Inr (req, h1) \<and> add_request_info (\<lambda>_. (3, 4)) True req h1 = Inr h2 \<and> net_end_req req h2 = Inr h3 \<and>
     acks h3 = [(5, \<lparr>ack_seq_num = 7, ack_type = REQ_TYPE_SET, elapsed_time = 0\<rparr>)] \<and>
     net_end_req req h3 = Inl BadFree"
proof -
  obtain h :: "unit handler" where h: "staged_ok h" "q_inv (req_pool h)" "q_list (req_pool h) = pool_ptrs" "acks h = []"
    using handler_init_ok [where 'p = unit, of 16384 512 "\<lambda>_. True" 0 "\<lambda>_. 0" "\<lambda>_. True"]
    by (auto simp: config_defs)
  have p: "q_list (req_pool h) = 1 # [2..<Suc QSIZE]" using h(3) pool_ptrs_Cons by simp
  have m: "mem_wf (mem h)" using h(1) by (simp add: staged_ok_def)
  let ?nr = "\<lparr>nr_type = REQ_TYPE_SET, nr_keylen = 2, nr_seq_num = 7, nr_key = [65, 66], nr_kv_size = 1024\<rparr>"
  have k: "unat (nr_keylen ?nr) \<le> length (nr_key ?nr)" "(1 :: ptr) \<noteq> NULL" by simp_all
  from request_lifecycle [OF h(2) p k(2) m k(1), of 5 "\<lambda>_. (3, 4)"] obtain h1 h2 h3 where
    "make_request_from_netreq ?nr 5 h = Inr (1, h1)" "add_request_info (\<lambda>_. (3, 4)) True 1 h1 = Inr h2" "net_end_req 1 h2 = Inr h3"
    "net_end_req 1 h3 = Inl BadFree" "acks h3 = [(5, \<lparr>ack_seq_num = 7, ack_type = REQ_TYPE_SET, elapsed_time = 0\<rparr>)]"
    using h(4) by auto
  then show ?thesis by blast
qed

text \<open>
  A key length is taken from the network unchecked. A message that announces more key bytes than the
  32 of its key field makes the server read past the field, and an exhausted pool is a null
  dereference.
\<close>

theorem make_request_unchecked:
  assumes "q_inv (req_pool h)" and "NULL \<notin> set (q_list (req_pool h))" and "netreq_wf nr"
  shows "(q_list (req_pool h) = [] \<longrightarrow> make_request_from_netreq nr sock h = Inl NullDeref) \<and>
     (q_list (req_pool h) \<noteq> [] \<and> KEY_LEN < unat (nr_keylen nr) \<longrightarrow>
        make_request_from_netreq nr sock h = Inl OutOfBounds)"
proof (intro conjI impI)
  assume n: "q_list (req_pool h) \<noteq> [] \<and> KEY_LEN < unat (nr_keylen nr)"
  then obtain req rest where l: "q_list (req_pool h) = req # rest" by (cases "q_list (req_pool h)") auto
  with lq.deq_nonempty [OF assms(1)] assms(2,3) n show "make_request_from_netreq nr sock h = Inl OutOfBounds"
    by (auto simp: make_request_from_netreq_def netreq_wf_def)
qed (simp add: make_request_empty [OF assms(1)])

theorem make_request_unchecked_witness:
  "\<exists>h :: unit handler. make_request_from_netreq
     \<lparr>nr_type = REQ_TYPE_GET, nr_keylen = 33, nr_seq_num = 1, nr_key = replicate 32 65, nr_kv_size = 0\<rparr> 5 h = Inl OutOfBounds"
proof -
  obtain h :: "unit handler" where h: "q_inv (req_pool h)" "q_list (req_pool h) = pool_ptrs"
    using handler_init_ok [where 'p = unit, of 16384 512 "\<lambda>_. True" 0 "\<lambda>_. 0" "\<lambda>_. True"]
    by (auto simp: config_defs)
  then have "q_list (req_pool h) \<noteq> []" "NULL \<notin> set (q_list (req_pool h))"
    by (simp_all add: pool_ptrs_Cons)
  with make_request_unchecked [of h "\<lparr>nr_type = REQ_TYPE_GET, nr_keylen = 33, nr_seq_num = 1, nr_key = replicate 32 65, nr_kv_size = 0\<rparr>" 5] h(1)
  show ?thesis by (auto simp: netreq_wf_def config_defs)
qed

end
