(* ===== verification/Kv_Ops.thy ===== *)
theory Kv_Ops
  imports Request
begin

section \<open>The interface of an index (\<open>include/kv_ops.h\<close>)\<close>

text \<open>
  A handler calls its index through the function pointers of \<open>struct kv_ops\<close>. This theory has what the two
  indexes share: the comparison of a key with a stored pair and the copy of the key in front of
  the value (both source files have their own, identical, static copies), the dispatch of a
  request to the index, and the contract of an index, the locale \<open>kv_index\<close>, from which the
  properties of every sequence of dispatches follow once.
\<close>

subsection \<open>Comparing keys\<close>

text \<open>
  \<open>strncmp(key->key, value->value+1, n)\<close>: byte by byte, the end at the first difference or at a
  common NUL byte; a byte of the value is read only when the comparison gets there.
\<close>

function strncmp_from :: "(nat \<Rightarrow> byte) \<Rightarrow> mbuf \<Rightarrow> nat \<Rightarrow> nat \<Rightarrow> int res" where
  "strncmp_from k b i n =
     (if i < n
      then (if blen b \<le> Suc i then Inl OutOfBounds
            else if k i \<noteq> bdat b (Suc i) then Inr (if k i < bdat b (Suc i) then -1 else 1)
            else if k i = 0 then Inr 0
            else strncmp_from k b (Suc i) n)
      else Inr 0)"
  by pat_completeness auto

termination by (relation "measure (\<lambda>(_, _, i, n). n - i)") auto

declare strncmp_from.simps [simp del]

definition keycmp_k_v :: "key_struct \<Rightarrow> val_struct \<Rightarrow> memory \<Rightarrow> int res" where
  "keycmp_k_v key v m =
     ebind (mem_buf m (vvalue v)) (\<lambda>b.
     if blen b = 0 then Inl OutOfBounds
     else if klen key \<noteq> bdat b 0 then Inr (if bdat b 0 < klen key then 1 else -1)
     else strncmp_from (kkey key) b 0 (unat (klen key)))"

definition copy_key_to_value :: "key_struct \<Rightarrow> val_struct \<Rightarrow> memory \<Rightarrow> memory res" where
  "copy_key_to_value key v m =
     ebind (memcpy_from (vvalue v) 0 (\<lambda>_. klen key) 1 1 m) (\<lambda>m1.
     memcpy_from (vvalue v) 1 (kkey key) KEY_LEN_MAX (unat (klen key)) m1)"

subsection \<open>Shared steps\<close>

definition set_params :: "ptr \<Rightarrow> 'p \<Rightarrow> 'p handler \<Rightarrow> 'p handler" where
  "set_params req p h = h\<lparr>req_arr := (req_arr h)(req := (req_arr h req)\<lparr>params := Some p\<rparr>)\<rparr>"

definition retry_req :: "ptr \<Rightarrow> 'p handler \<Rightarrow> 'p handler res" where
  "retry_req req h = ebind (retry_req_to_hlr req h) (\<lambda>(_, h1). Inr h1)"

text \<open>The \<open>switch\<close> of \<open>request_handler\<close>: \<open>None\<close> for a request type that ends the thread.\<close>

definition dispatch ::
  "(ptr \<Rightarrow> 'i \<Rightarrow> 'p handler \<Rightarrow> (int \<times> 'i \<times> 'p handler) res) \<Rightarrow>
   (ptr \<Rightarrow> 'i \<Rightarrow> 'p handler \<Rightarrow> (int \<times> 'i \<times> 'p handler) res) \<Rightarrow>
   ptr \<Rightarrow> 'i \<Rightarrow> 'p handler \<Rightarrow> ('i \<times> 'p handler) res option" where
  "dispatch set_kv get_kv req ix h =
     (case rtype (req_arr h req) of
        REQ_TYPE_SET \<Rightarrow> Some (ebind (set_kv req ix h) (\<lambda>(_, ix', h'). Inr (ix', h')))
      | REQ_TYPE_GET \<Rightarrow> Some (ebind (get_kv req ix h) (\<lambda>(rc, ix', h').
          if rc \<noteq> 0 then ebind (net_end_req req h') (\<lambda>h''. Inr (ix', h'')) else Inr (ix', h')))
      | _ \<Rightarrow> None)"

fun dispatch_all ::
  "(ptr \<Rightarrow> 'i \<Rightarrow> 'p handler \<Rightarrow> (int \<times> 'i \<times> 'p handler) res) \<Rightarrow>
   (ptr \<Rightarrow> 'i \<Rightarrow> 'p handler \<Rightarrow> (int \<times> 'i \<times> 'p handler) res) \<Rightarrow>
   ptr list \<Rightarrow> 'i \<Rightarrow> 'p handler \<Rightarrow> ('i \<times> 'p handler) res option" where
  "dispatch_all set_kv get_kv [] ix h = Some (Inr (ix, h))"
| "dispatch_all set_kv get_kv (req # reqs) ix h =
     (case dispatch set_kv get_kv req ix h of
        None \<Rightarrow> None
      | Some (Inl e) \<Rightarrow> Some (Inl e)
      | Some (Inr (ix', h')) \<Rightarrow> dispatch_all set_kv get_kv reqs ix' h')"

subsection \<open>What an index may do to its handler\<close>

text \<open>
  An index neither consumes requests nor touches the block device behind the kernel: it may only
  submit further I/Os, send further acknowledgements, move requests to the retry queue and use
  the pools, the heap and the log.
\<close>

definition hlr_ext :: "'p handler \<Rightarrow> 'p handler \<Rightarrow> bool" where
  "hlr_ext h h' \<longleftrightarrow> req_q h' = req_q h \<and> done_q h' = done_q h \<and> disk h' = disk h \<and> number h' = number h \<and>
     clock h' = clock h \<and> (\<exists>a. acks h' = acks h @ a) \<and> (\<exists>s. submitted h' = submitted h @ s)"

lemma hlr_ext_refl [simp, intro]: "hlr_ext h h"
  by (simp add: hlr_ext_def)

lemma hlr_ext_trans [trans]: "hlr_ext h1 h2 \<Longrightarrow> hlr_ext h2 h3 \<Longrightarrow> hlr_ext h1 h3"
  by (auto simp: hlr_ext_def)

lemma hlr_ext_updates [simp]:
  "hlr_ext h (h'\<lparr>mem := m\<rparr>) = hlr_ext h h'" "hlr_ext h (h'\<lparr>dev := d\<rparr>) = hlr_ext h h'"
  "hlr_ext h (h'\<lparr>req_arr := ra\<rparr>) = hlr_ext h h'" "hlr_ext h (h'\<lparr>cb_pool := q\<rparr>) = hlr_ext h h'"
  "hlr_ext h (h'\<lparr>iocb_pool := q\<rparr>) = hlr_ext h h'" "hlr_ext h (h'\<lparr>retry_q := q\<rparr>) = hlr_ext h h'"
  "hlr_ext h (h'\<lparr>req_pool := q\<rparr>) = hlr_ext h h'" "hlr_ext h (h'\<lparr>flying := l\<rparr>) = hlr_ext h h'"
  "hlr_ext (h\<lparr>mem := m\<rparr>) h' = hlr_ext h h'" "hlr_ext (h\<lparr>dev := d\<rparr>) h' = hlr_ext h h'"
  "hlr_ext (h\<lparr>req_arr := ra\<rparr>) h' = hlr_ext h h'"
  by (simp_all add: hlr_ext_def)

lemma set_params_ext [simp]: "hlr_ext h (set_params req p h') = hlr_ext h h'" "hlr_ext (set_params req p h) h' = hlr_ext h h'"
  by (simp_all add: set_params_def)

lemma make_callback_ext: "make_callback f a h = Inr (cb, h') \<Longrightarrow> hlr_ext h h'"
  by (auto simp: make_callback_def res_simps hlr_ext_def split: if_splits)

lemma retry_req_ext: "retry_req req h = Inr h' \<Longrightarrow> hlr_ext h h'"
  by (auto simp: retry_req_def retry_req_to_hlr_def res_simps hlr_ext_def)

lemma net_end_req_ext: "net_end_req req h = Inr h' \<Longrightarrow> hlr_ext h h'"
  by (auto simp: net_end_req_def Let_def send_ack_def res_simps hlr_ext_def)

lemma aio_submit_ext: "aio_submit c a sz buf cb h = Inr (rc, h') \<Longrightarrow> hlr_ext h h'"
  by (auto simp: aio_submit_def Let_def res_simps hlr_ext_def split: if_splits)

lemma stage_next_segment_ext: "stage_next_segment h = Inr h' \<Longrightarrow> hlr_ext h h'"
  by (auto simp: stage_next_segment_def alloc_seg_buffer_def Let_def mem_alloc_def res_simps hlr_ext_def split: if_splits)

lemma retire_segment_ext: "retire_segment h = Inr h' \<Longrightarrow> hlr_ext h h'"
  unfolding retire_segment_def Let_def aio_write_def
  by (auto simp: res_simps dest!: make_callback_ext aio_submit_ext stage_next_segment_ext intro: hlr_ext_trans)

lemma get_next_pba_ext: "get_next_pba sz h = Inr (pba, h') \<Longrightarrow> hlr_ext h h'"
  by (auto simp: get_next_pba_def Let_def res_simps split: if_splits dest: retire_segment_ext)

definition runner_ext :: "'p runner \<Rightarrow> bool" where
  "runner_ext run \<longleftrightarrow> (\<forall>f a h h'. run f a h = Inr h' \<longrightarrow> hlr_ext h h')"

lemma run_and_recycle_ext: "run_and_recycle run cb h = Inr h' \<Longrightarrow> runner_ext run \<Longrightarrow> hlr_ext h h'"
  by (auto simp: run_and_recycle_def runner_ext_def res_simps)

lemma dev_abs_read_ext: "dev_abs_read run pba n buf cb h = Inr (rc, h') \<Longrightarrow> runner_ext run \<Longrightarrow> hlr_ext h h'"
  by (auto simp: dev_abs_read_def aio_read_def Let_def res_simps split: if_splits
      dest!: run_and_recycle_ext aio_submit_ext)

lemma dev_abs_write_ext: "dev_abs_write run pba n buf cb h = Inr (rc, h') \<Longrightarrow> runner_ext run \<Longrightarrow> hlr_ext h h'"
  by (auto simp: dev_abs_write_def Let_def res_simps dest!: run_and_recycle_ext)

subsection \<open>What allocating space leaves alone\<close>

definition mem_le :: "memory \<Rightarrow> memory \<Rightarrow> bool" where
  "mem_le m m' \<longleftrightarrow> brk m \<le> brk m' \<and> (\<forall>p b. cells m p = Some b \<longrightarrow> cells m' p = Some b)"

definition same_requests :: "'p handler \<Rightarrow> 'p handler \<Rightarrow> bool" where
  "same_requests h h' \<longleftrightarrow> req_arr h' = req_arr h \<and> req_pool h' = req_pool h \<and> retry_q h' = retry_q h \<and>
     flying h' = flying h \<and> acks h' = acks h \<and> clock h' = clock h"

lemma same_requests_refl [simp]: "same_requests h h"
  by (simp add: same_requests_def)

lemma alloc_seg_buffer_frame:
  "alloc_seg_buffer n h = Inr (buf, h') \<Longrightarrow> mem_wf (mem h) \<Longrightarrow>
     same_requests h h' \<and> mem_le (mem h) (mem h') \<and> (mmap_ok h (n_mmap h) \<longrightarrow> cells (mem h) buf = None)"
  by (auto simp: alloc_seg_buffer_def mem_alloc_def Let_def same_requests_def mem_le_def mem_wf_def split: if_splits)

lemma retire_segment_mem:
  assumes r: "retire_segment h = Inr h'" and wf: "mem_wf (mem h)" and ok: "mmap_ok h (n_mmap h)"
  shows "same_requests h h' \<and> mem_le (mem h) (mem h') \<and> cells (mem h) (staged_seg_buf (dev h')) = None"
proof -
  let ?h1 = "h\<lparr>dev := (dev h)\<lparr>seg_array := (seg_array (dev h))(staged_seg (dev h) := (staged (dev h))\<lparr>seg_state := SEG_STATE_USED\<rparr>)\<rparr>\<rparr>"
  from r obtain cb h2 rc h3 where
    mk: "make_callback CB_reap_seg_buf (staged_seg_buf (dev h)) ?h1 = Inr (cb, h2)"
    and wr: "aio_submit IO_PWRITE (start_addr (staged (dev h))) (ucast (segment_size (dev h))) (staged_seg_buf (dev h)) cb h2 = Inr (rc, h3)"
    and st: "stage_next_segment h3 = Inr h'"
    by (auto simp: retire_segment_def Let_def res_simps aio_write_def)
  have h3: "same_requests h h3 \<and> mem h3 = mem h \<and> mmap_ok h3 = mmap_ok h \<and> n_mmap h3 = n_mmap h"
    using mk wr by (auto simp: make_callback_def aio_submit_def Let_def res_simps same_requests_def split: if_splits)
  from st obtain n d1 buf h4 where a: "alloc_seg_buffer n (h3\<lparr>dev := d1\<rparr>) = Inr (buf, h4)"
    and h': "h' = h4\<lparr>dev := (dev h4)\<lparr>staged_seg_buf := buf\<rparr>\<rparr>"
    by (auto simp: stage_next_segment_def Let_def res_simps split: if_splits)
  from alloc_seg_buffer_frame [OF a] h3 wf ok show ?thesis by (simp add: h' same_requests_def)
qed

lemma get_next_pba_frame:
  assumes r: "get_next_pba sz h = Inr (pba, h')" and wf: "mem_wf (mem h)" and ok: "mmap_ok h (n_mmap h)"
  shows "same_requests h h' \<and> mem_le (mem h) (mem h') \<and>
     (staged_seg_buf (dev h') = staged_seg_buf (dev h) \<or> cells (mem h) (staged_seg_buf (dev h')) = None)"
proof -
  from r obtain h1 where h1: "(if end_addr (staged (dev h)) < seg_offset (staged (dev h)) + ucast sz
        then retire_segment h else Inr h) = Inr h1"
    and h': "h' = h1\<lparr>dev := bump_offset (round_to_grain (grain_unit (dev h1)) sz) (dev h1)\<rparr>"
    by (auto simp: get_next_pba_def Let_def res_simps split: if_splits)
  from h1 retire_segment_mem [OF _ wf ok, of h1]
  have "same_requests h h1 \<and> mem_le (mem h) (mem h1) \<and>
     (staged_seg_buf (dev h1) = staged_seg_buf (dev h) \<or> cells (mem h) (staged_seg_buf (dev h1)) = None)"
    by (auto simp: mem_le_def split: if_splits)
  then show ?thesis by (simp add: h' same_requests_def bump_offset_def)
qed

subsection \<open>Keys in front of values\<close>

definition with_key :: "key_struct \<Rightarrow> (nat \<Rightarrow> byte) \<Rightarrow> nat \<Rightarrow> byte" where
  "with_key k f = (\<lambda>i. if i = 0 then klen k else if i \<le> unat (klen k) then kkey k (i - 1) else f i)"

lemma copy_key_to_value_ok:
  assumes "cells m (vvalue v) = Some b" and "vvalue v \<noteq> NULL" and "Suc (unat (klen k)) \<le> blen b"
  shows "copy_key_to_value k v m = Inr (m\<lparr>cells := (cells m)(vvalue v \<mapsto> b\<lparr>bdat := with_key k (bdat b)\<rparr>)\<rparr>)"
proof -
  have "unat (klen k) \<le> KEY_LEN_MAX" using unat_u8_lt [of "klen k"] unfolding KEY_LEN_MAX_def by linarith
  moreover have "copy_bytes (copy_bytes f 0 (\<lambda>_. klen k) 0 (Suc 0)) (Suc 0) (kkey k) 0 (unat (klen k)) = with_key k f" for f
    by (auto simp: copy_bytes_def with_key_def fun_eq_iff)
  ultimately show ?thesis
    using assms by (simp add: copy_key_to_value_def memcpy_from_def mem_buf_def)
qed

lemma copy_key_to_value_short:
  assumes "cells m (vvalue v) = Some b" and "vvalue v \<noteq> NULL" and "blen b < Suc (unat (klen k))"
  shows "copy_key_to_value k v m = Inl OutOfBounds"
  using assms by (auto simp: copy_key_to_value_def memcpy_from_def mem_buf_def)

text \<open>Two keys the comparison takes for equal: equal up to the first NUL byte of both.\<close>

definition same_c_string :: "nat \<Rightarrow> (nat \<Rightarrow> byte) \<Rightarrow> (nat \<Rightarrow> byte) \<Rightarrow> bool" where
  "same_c_string n f g \<longleftrightarrow> (\<forall>i < n. f i = g i \<or> (\<exists>j < i. f j = 0 \<and> g j = 0))"

lemma strncmp_from_zero_iff:
  assumes "i \<le> n" and "Suc n \<le> blen b" and "\<forall>j < i. k j = bdat b (Suc j) \<and> k j \<noteq> 0"
  shows "(strncmp_from k b i n = Inr 0 \<longleftrightarrow> same_c_string n k (\<lambda>j. bdat b (Suc j))) \<and> (\<exists>c. strncmp_from k b i n = Inr c)"
  using assms
proof (induction k b i n rule: strncmp_from.induct)
  case (1 k b i n)
  show ?case
  proof (cases "i < n \<and> k i = bdat b (Suc i) \<and> k i \<noteq> 0")
    case True
    with "1.prems" have a: "\<forall>j < Suc i. k j = bdat b (Suc j) \<and> k j \<noteq> 0" by (auto simp: less_Suc_eq)
    have "(strncmp_from k b (Suc i) n = Inr 0 \<longleftrightarrow> same_c_string n k (\<lambda>j. bdat b (Suc j))) \<and>
        (\<exists>c. strncmp_from k b (Suc i) n = Inr c)" 
      by (rule "1.IH" [OF _ _ _ _ _ _ a]) (use True "1.prems"(2) in auto)
    moreover have "strncmp_from k b i n = strncmp_from k b (Suc i) n"
      using True "1.prems"(2) by (subst strncmp_from.simps) auto
    ultimately show ?thesis by simp
  next
    case False
    consider "i = n" | "i < n" "k i \<noteq> bdat b (Suc i)" | "i < n" "k i = bdat b (Suc i)" "k i = 0"
      using False "1.prems"(1) by fastforce
    then show ?thesis
    proof cases
      case 1
      then have "strncmp_from k b i n = Inr 0" by (subst strncmp_from.simps) simp
      with 1 "1.prems" show ?thesis by (auto simp: same_c_string_def)
    next
      case 2
      then have "\<not> same_c_string n k (\<lambda>j. bdat b (Suc j))"
        using "1.prems"(3) by (auto simp: same_c_string_def)
      moreover have "strncmp_from k b i n = Inr (if k i < bdat b (Suc i) then -1 else 1)"
        using 2 "1.prems"(2) by (subst strncmp_from.simps) simp
      ultimately show ?thesis by simp
    next
      case 3
      have "same_c_string n k (\<lambda>j. bdat b (Suc j))"
        unfolding same_c_string_def using 3 "1.prems"(3) by (metis linorder_neqE_nat)
      moreover have "strncmp_from k b i n = Inr 0"
        using 3 "1.prems"(2) by (subst strncmp_from.simps) simp
      ultimately show ?thesis by simp
    qed
  qed
qed

lemma keycmp_zero_iff:
  assumes "cells m (vvalue v) = Some b" and "vvalue v \<noteq> NULL" and "Suc (unat (klen k)) \<le> blen b"
  shows "(keycmp_k_v k v m = Inr 0 \<longleftrightarrow> bdat b 0 = klen k \<and> same_c_string (unat (klen k)) (kkey k) (\<lambda>j. bdat b (Suc j))) \<and>
     (\<exists>c. keycmp_k_v k v m = Inr c)"
  using assms strncmp_from_zero_iff [of 0 "unat (klen k)" b "kkey k"]
  by (auto simp: keycmp_k_v_def mem_buf_def)

subsection \<open>Storing a pair in the log\<close>

text \<open>
  The last steps of a SET, the same in both indexes: take space in the log, put the key in front
  of the value, write the pair, and end the request from the callback of the write.
  \<open>index_env n h\<close>: a device below 128 TiB that is well-formed, \<open>n\<close> free callbacks and control blocks,
  and room for the request in its pool.
\<close>

definition index_env :: "nat \<Rightarrow> 'p handler \<Rightarrow> bool" where
  "index_env n h \<longleftrightarrow> staged_ok h \<and> pools_hold n h \<and> (\<forall>k. mmap_ok h k) \<and> unat (nr_segment (dev h)) < 2 ^ 26 \<and>
     q_inv (req_pool h) \<and> int (length (q_list (req_pool h))) < m_size (req_pool h)"

definition req_buf :: "ptr \<Rightarrow> 'p handler \<Rightarrow> mbuf \<Rightarrow> bool" where
  "req_buf req h b \<longleftrightarrow> cells (mem h) (vvalue (rvalue (req_arr h req))) = Some b \<and>
     blen b = unat (vlen (rvalue (req_arr h req))) \<and> vvalue (rvalue (req_arr h req)) \<noteq> NULL \<and>
     vvalue (rvalue (req_arr h req)) \<noteq> staged_seg_buf (dev h)"

definition stored_at :: "'p handler \<Rightarrow> u64 \<Rightarrow> nat \<Rightarrow> (nat \<Rightarrow> byte) \<Rightarrow> bool" where
  "stored_at h pba n f \<longleftrightarrow> in_staged (dev h) pba n \<and>
     (\<exists>s. cells (mem h) (staged_seg_buf (dev h)) = Some s \<and> blen s = SEGMENT_SIZE \<and>
        (\<forall>j < n. bdat s (unat pba * GRAIN_UNIT - unat (start_addr (staged (dev h))) + j) = f j))"

lemma staged_end:
  assumes "dev_inv d" and "unat (nr_segment d) < 2 ^ 26"
  shows "unat (seg_offset (staged d)) \<le> 67108863 * SEGMENT_SIZE"
proof -
  have "unat (seg_offset (staged d)) \<le> Suc (staged_seg d) * SEGMENT_SIZE"
    using dev_inv_staged [OF assms(1)] by (simp add: seg_ok_def)
  also have "\<dots> \<le> 67108863 * SEGMENT_SIZE"
    using assms by (intro mult_le_mono1) (simp add: dev_inv_def dev_layout_def)
  finally show ?thesis .
qed

lemma index_alloc:
  assumes env: "index_env (Suc n) h" and sz: "unat sz \<le> SEGMENT_SIZE" "0 < unat sz"
  shows "\<exists>pba h1. get_next_pba sz h = Inr (pba, h1) \<and> index_env n h1 \<and> same_requests h h1 \<and> mem_le (mem h) (mem h1) \<and>
     in_staged (dev h1) pba (grains (unat sz)) \<and> unat pba < 1099511627775 \<and> nr_segment (dev h1) = nr_segment (dev h) \<and>
     (staged_seg_buf (dev h1) = staged_seg_buf (dev h) \<or> cells (mem h) (staged_seg_buf (dev h1)) = None)"
proof -
  from env have e: "staged_ok h" "pools_hold (Suc n) h" "mmap_ok h (n_mmap h)" "mem_wf (mem h)" "\<forall>k. mmap_ok h k"
    by (simp_all add: index_env_def staged_ok_def)
  obtain pba h1 where r: "get_next_pba sz h = Inr (pba, h1)" "staged_ok h1" "pools_hold n h1" "mmap_ok h1 = mmap_ok h"
    "nr_segment (dev h1) = nr_segment (dev h)"
    "unat pba * GRAIN_UNIT + grains (unat sz) = unat (seg_offset (staged (dev h1)))"
    "unat (start_addr (staged (dev h1))) \<le> unat pba * GRAIN_UNIT"
    using get_next_pba_spec [OF e(1-3) sz(1)] by blast
  note fr = get_next_pba_frame [OF r(1) e(4,3)]
  have "unat (seg_offset (staged (dev h1))) \<le> 67108863 * SEGMENT_SIZE"
    using r(2,5) env by (intro staged_end) (simp_all add: staged_ok_def index_env_def)
  with r(6) have "unat pba * 128 \<le> 67108863 * 2097152" by (simp add: config_defs)
  then have "unat pba < 1099511627775" by simp
  moreover have "in_staged (dev h1) pba (grains (unat sz))"
    using r(6,7) by (simp add: in_staged_def)
  moreover have "index_env n h1" using r env fr by (simp add: index_env_def same_requests_def)
  ultimately show ?thesis using r(1,5) fr by blast
qed

text \<open>
  \<open>pair_logged k req b n pba h h'\<close>: between \<open>h\<close> and \<open>h'\<close> the first \<open>n\<close> bytes of the pair of \<open>req\<close>, whose value buffer
  was \<open>b\<close>, were stored at the address \<open>pba\<close> and the request ended; \<open>k\<close> callbacks and control blocks are left.
\<close>

definition pair_logged :: "nat \<Rightarrow> ptr \<Rightarrow> mbuf \<Rightarrow> nat \<Rightarrow> u64 \<Rightarrow> 'p handler \<Rightarrow> 'p handler \<Rightarrow> bool" where
  "pair_logged k req b n pba h h' \<longleftrightarrow>
     stored_at h' pba n (with_key (rkey (req_arr h req)) (bdat b)) \<and>
     acks h' = acks h @ [ack_of (clock h) (req_arr h req)] \<and> q_list (req_pool h') = q_list (req_pool h) @ [req] \<and>
     cells (mem h') (vvalue (rvalue (req_arr h req))) = None \<and>
     (\<forall>p c. cells (mem h) p = Some c \<and> p \<noteq> vvalue (rvalue (req_arr h req)) \<and> p \<noteq> staged_seg_buf (dev h) \<longrightarrow>
        cells (mem h') p = Some c \<and> p \<noteq> staged_seg_buf (dev h')) \<and>
     req_arr h' = (req_arr h)(req := (req_arr h req)\<lparr>rsw := sw_end (clock h) (rsw (req_arr h req))\<rparr>) \<and>
     staged_ok h' \<and> pools_hold k h' \<and> q_inv (req_pool h') \<and> m_size (req_pool h') = m_size (req_pool h) \<and> clock h' = clock h \<and>
     (\<forall>k. mmap_ok h' k) \<and> nr_segment (dev h') = nr_segment (dev h) \<and> retry_q h' = retry_q h"

lemma log_store:
  fixes req :: ptr and h :: "'p handler"
  defines "r \<equiv> req_arr h req"
  assumes env: "index_env (Suc (Suc k)) h" and buf: "req_buf req h b"
    and key: "Suc (unat (klen (rkey r))) \<le> unat (vlen (rvalue r))" and sz: "unat (vlen (rvalue r)) \<le> SEGMENT_SIZE"
    and n: "unat n * GRAIN_UNIT \<le> unat (vlen (rvalue r))"
    and run: "\<And>h. run CB_net_end_req req h = net_end_req req h"
  shows "\<exists>pba h1 cb h2 m h3. get_next_pba (vlen (rvalue r)) h = Inr (pba, h1) \<and>
     make_callback CB_net_end_req req h1 = Inr (cb, h2) \<and> copy_key_to_value (rkey r) (rvalue r) (mem h2) = Inr m \<and>
     dev_abs_write run pba n (vvalue (rvalue r)) cb (h2\<lparr>mem := m\<rparr>) = Inr (0, h3) \<and> unat pba < 1099511627775 \<and>
     pair_logged k req b (unat n * GRAIN_UNIT) pba h h3"
proof -
  let ?v = "vvalue (rvalue r)"
  have b: "cells (mem h) ?v = Some b" "blen b = unat (vlen (rvalue r))" "?v \<noteq> NULL" "?v \<noteq> staged_seg_buf (dev h)"
    using buf by (simp_all add: req_buf_def r_def)
  have pos: "0 < unat (vlen (rvalue r))" using key by linarith
  obtain pba h1 where h1: "get_next_pba (vlen (rvalue r)) h = Inr (pba, h1)" "index_env (Suc k) h1" "same_requests h h1"
    "mem_le (mem h) (mem h1)" "in_staged (dev h1) pba (grains (unat (vlen (rvalue r))))" "unat pba < 1099511627775"
    "nr_segment (dev h1) = nr_segment (dev h)"
    "staged_seg_buf (dev h1) = staged_seg_buf (dev h) \<or> cells (mem h) (staged_seg_buf (dev h1)) = None"
    using index_alloc [OF env sz pos] by blast
  let ?sb = "staged_seg_buf (dev h1)"
  have e1: "staged_ok h1" "pools_hold (Suc k) h1" "q_inv (req_pool h1)" "int (length (q_list (req_pool h1))) < m_size (req_pool h1)"
    using h1(2) by (simp_all add: index_env_def)
  then obtain s where s: "cells (mem h1) ?sb = Some s" "blen s = SEGMENT_SIZE" "dev_inv (dev h1)" "mem_wf (mem h1)" "?sb \<noteq> NULL"
    by (fastforce simp: staged_ok_def mem_wf_def)
  have b1: "cells (mem h1) ?v = Some b" "?v \<noteq> ?sb" using h1(4,8) b by (auto simp: mem_le_def)
  obtain cb rest where cb: "q_list (cb_pool h1) = cb # rest" "cb \<noteq> NULL"
    using e1(2) by (cases "q_list (cb_pool h1)") (auto simp: pools_hold_def)
  obtain q where h2: "make_callback CB_net_end_req req h1 = Inr (cb, h1\<lparr>cb_pool := q,
      cb_arr := (cb_arr h1)(cb := \<lparr>cbfunc = CB_net_end_req, cbarg = req, cbiocb = NULL\<rparr>)\<rparr>)"
    and q: "q_inv q" "q_list q = rest" "m_size q = m_size (cb_pool h1)"
    using make_callback_ok [OF _ cb] e1(2) by (auto simp: pools_hold_def)
  let ?h2 = "h1\<lparr>cb_pool := q, cb_arr := (cb_arr h1)(cb := \<lparr>cbfunc = CB_net_end_req, cbarg = req, cbiocb = NULL\<rparr>)\<rparr>"
  let ?b = "b\<lparr>bdat := with_key (rkey r) (bdat b)\<rparr>"
  let ?m = "(mem h1)\<lparr>cells := (cells (mem h1))(?v \<mapsto> ?b)\<rparr>"
  have m: "copy_key_to_value (rkey r) (rvalue r) (mem ?h2) = Inr ?m"
    using copy_key_to_value_ok [of "mem h1" "rvalue r" b "rkey r"] b1(1) b(2,3) key by simp
  let ?off = "unat pba * GRAIN_UNIT - unat (start_addr (staged (dev h1)))"
  let ?n = "unat n * GRAIN_UNIT"
  have ins: "in_staged (dev h1) pba ?n" using h1(5) n grains_ge [of "unat (vlen (rvalue r))"] by (simp add: in_staged_def)
  have fit: "?off + ?n \<le> blen s" using in_staged_offset(3) [OF s(3) ins] s(2) by simp
  let ?s = "s\<lparr>bdat := copy_bytes (bdat s) ?off (with_key (rkey r) (bdat b)) 0 ?n\<rparr>"
  let ?m2 = "?m\<lparr>cells := (cells ?m)(?sb \<mapsto> ?s)\<rparr>"
  let ?h3 = "?h2\<lparr>mem := ?m2\<rparr>"
  have mc: "memcpy ?sb ?off ?v 0 ?n ?m = Inr ?m2"
    using memcpy_ok [of ?m ?sb s ?v ?b ?off ?n 0] b1 s(1,5) b(2,3) fit n by simp
  have r1: "req_arr h1 req = r" "clock h1 = clock h" "acks h1 = acks h" "req_arr h1 = req_arr h" "req_pool h1 = req_pool h"
    using h1(3) by (simp_all add: same_requests_def r_def)
  let ?m3 = "?m2\<lparr>cells := (cells ?m2)(?v := None)\<rparr>"
  have fr: "mem_free ?v ?m2 = Inr ?m3" using b(3) b1(2) by (simp add: mem_free_def)
  obtain q3 where ne: "net_end_req req ?h3 = Inr (?h3\<lparr>mem := ?m3, req_pool := q3,
       req_arr := (req_arr h1)(req := r\<lparr>rsw := sw_end (clock h1) (rsw r)\<rparr>),
       flying := fst (cl_release (flying h1)), acks := acks h1 @ [ack_of (clock h1) r]\<rparr>)"
    and q3: "q_inv q3" "q_list q3 = q_list (req_pool h1) @ [req]" "m_size q3 = m_size (req_pool h1)"
    using net_end_req_ok [of ?h3 req ?m3] e1(3,4) fr r1(1) by auto
  have room: "int (length (q_list q)) < m_size q"
    using lq.within_capacity [of "cb_pool h1"] e1(2) cb(1) q(2,3) by (simp add: pools_hold_def)
  obtain q4 where q4: "q_enqueue cb q = Inr (True, q4)" "q_inv q4" "q_list q4 = rest @ [cb]"
    using lq.enq_room [OF q(1) room, of cb] q(2) by blast
  let ?h4 = "?h3\<lparr>mem := ?m3, req_pool := q3, req_arr := (req_arr h1)(req := r\<lparr>rsw := sw_end (clock h1) (rsw r)\<rparr>),
       flying := fst (cl_release (flying h1)), acks := acks h1 @ [ack_of (clock h1) r], cb_pool := q4\<rparr>"
  have w: "dev_abs_write run pba n ?v cb (?h2\<lparr>mem := ?m\<rparr>) = Inr (0, ?h4)"
    using ne q4(1) by (subst dev_abs_write_staged) (simp_all add: s(3) ins mc run_and_recycle_def run)
  define h4 where "h4 = ?h4"
  have "stored_at h4 pba ?n (with_key (rkey r) (bdat b))"
    using ins b1(2) s(2) by (simp add: h4_def stored_at_def copy_bytes_def)
  moreover have "staged_ok h4"
    using s b1(2) by (auto simp: h4_def staged_ok_def mem_wf_def)
  moreover have "pools_hold k h4"
    using e1(2) q4(2,3) cb by (auto simp: h4_def pools_hold_def)
  moreover have "\<forall>p c. cells (mem h) p = Some c \<and> p \<noteq> ?v \<and> p \<noteq> staged_seg_buf (dev h) \<longrightarrow>
      cells (mem h4) p = Some c \<and> p \<noteq> staged_seg_buf (dev h4)"
    using h1(4,8) by (auto simp: h4_def mem_le_def)
  moreover have "acks h4 = acks h @ [ack_of (clock h) r]" "q_list (req_pool h4) = q_list (req_pool h) @ [req]"
    "cells (mem h4) ?v = None" "req_arr h4 = (req_arr h)(req := r\<lparr>rsw := sw_end (clock h) (rsw r)\<rparr>)"
    "q_inv (req_pool h4)" "m_size (req_pool h4) = m_size (req_pool h)" "clock h4 = clock h" "retry_q h4 = retry_q h"
    using q3 b1(2) r1 h1(3) by (simp_all add: h4_def same_requests_def)
  moreover have "\<forall>k. mmap_ok h4 k" "nr_segment (dev h4) = nr_segment (dev h)"
    using h1(2,7) by (simp_all add: h4_def index_env_def)
  ultimately have "pair_logged k req b ?n pba h h4" by (simp only: pair_logged_def r_def simp_thms)
  moreover have "dev_abs_write run pba n ?v cb (?h2\<lparr>mem := ?m\<rparr>) = Inr (0, h4)" using w by (simp only: h4_def)
  ultimately show ?thesis using h1(1,6) h2 m by blast
qed

text \<open>Reading a stored range back: its bytes are in the buffer when the callback runs.\<close>

lemma log_read:
  assumes "dev_inv (dev h)" and st: "stored_at h pba (unat n * GRAIN_UNIT) f" and n: "0 < unat n"
    and v: "cells (mem h) v = Some b" "v \<noteq> NULL" "v \<noteq> staged_seg_buf (dev h)" "unat n * GRAIN_UNIT \<le> blen b"
    and sb: "staged_seg_buf (dev h) \<noteq> NULL"
  shows "\<exists>g. dev_abs_read run pba n v cb h =
       ebind (run_and_recycle run cb (h\<lparr>mem := (mem h)\<lparr>cells := (cells (mem h))(v \<mapsto> b\<lparr>bdat := g\<rparr>)\<rparr>\<rparr>)) (\<lambda>h1. Inr (0, h1)) \<and>
     (\<forall>j. g j = (if j < unat n * GRAIN_UNIT then f j else bdat b j))"
proof -
  let ?off = "unat pba * GRAIN_UNIT - unat (start_addr (staged (dev h)))"
  from st obtain s where ins: "in_staged (dev h) pba (unat n * GRAIN_UNIT)"
    and s: "cells (mem h) (staged_seg_buf (dev h)) = Some s" "blen s = SEGMENT_SIZE"
    "\<forall>j < unat n * GRAIN_UNIT. bdat s (?off + j) = f j" by (auto simp: stored_at_def)
  let ?g = "copy_bytes (bdat b) 0 (bdat s) ?off (unat n * GRAIN_UNIT)"
  have fit: "?off + unat n * GRAIN_UNIT \<le> blen s" using in_staged_offset(3) [OF assms(1) ins] s(2) by simp
  have "memcpy v 0 (staged_seg_buf (dev h)) ?off (unat n * GRAIN_UNIT) (mem h) =
      Inr ((mem h)\<lparr>cells := (cells (mem h))(v \<mapsto> b\<lparr>bdat := ?g\<rparr>)\<rparr>)"
    using memcpy_ok [of "mem h" v b "staged_seg_buf (dev h)" s 0 "unat n * GRAIN_UNIT" ?off] v s sb fit by simp
  with dev_abs_read_staged [OF assms(1) ins n, of run v cb] have
    "dev_abs_read run pba n v cb h =
       ebind (run_and_recycle run cb (h\<lparr>mem := (mem h)\<lparr>cells := (cells (mem h))(v \<mapsto> b\<lparr>bdat := ?g\<rparr>)\<rparr>\<rparr>)) (\<lambda>h1. Inr (0, h1))"
    by simp
  moreover have "\<forall>j. ?g j = (if j < unat n * GRAIN_UNIT then f j else bdat b j)" using s(3) by (simp add: copy_bytes_def)
  ultimately show ?thesis by blast
qed

text \<open>A pair whose stored bytes begin with a key compares equal to that key.\<close>

lemma keycmp_with_key:
  assumes "cells m (vvalue v) = Some b" and "vvalue v \<noteq> NULL" and "Suc (unat (klen k)) \<le> blen b"
    and "\<forall>j \<le> unat (klen k). bdat b j = with_key k f j"
  shows "keycmp_k_v k v m = Inr 0"
proof -
  have "bdat b 0 = klen k" using assms(4) [rule_format, of 0] by (simp add: with_key_def)
  moreover have "same_c_string (unat (klen k)) (kkey k) (\<lambda>j. bdat b (Suc j))"
    using assms(4) by (simp add: same_c_string_def with_key_def Suc_le_eq)
  ultimately show ?thesis using keycmp_zero_iff [OF assms(1-3)] by blast
qed

subsection \<open>A request ready for the index\<close>

text \<open>
  \<open>accept_request\<close> is what happens to a message before the index sees it: the master makes
  the request, the handler completes it. The result has what \<open>log_store\<close> asks for.
\<close>

definition accept_request ::
  "(byte list \<Rightarrow> u64 \<times> u64) \<Rightarrow> bool \<Rightarrow> netreq \<Rightarrow> int \<Rightarrow> 'p handler \<Rightarrow> (ptr \<times> 'p handler) res" where
  "accept_request CityHash128 ok nr sock h =
     ebind (make_request_from_netreq nr sock h) (\<lambda>(req, h1).
     ebind (add_request_info CityHash128 ok req h1) (\<lambda>h2. Inr (req, h2)))"

definition fresh_env :: "nat \<Rightarrow> 'p handler \<Rightarrow> bool" where
  "fresh_env n h \<longleftrightarrow> staged_ok h \<and> pools_hold n h \<and> (\<forall>k. mmap_ok h k) \<and> unat (nr_segment (dev h)) < 2 ^ 26 \<and> q_inv (req_pool h)"

definition accepted ::
  "nat \<Rightarrow> (byte list \<Rightarrow> u64 \<times> u64) \<Rightarrow> netreq \<Rightarrow> ptr \<Rightarrow> ptr list \<Rightarrow> 'p handler \<Rightarrow> 'p handler \<Rightarrow> bool" where
  "accepted n C nr req rest h h2 \<longleftrightarrow>
     index_env n h2 \<and>
     req_buf req h2 \<lparr>blen = (if nr_type nr = REQ_TYPE_GET then VALUE_LEN_MAX else unat (nr_kv_size nr)), bdat = \<lambda>_. 0\<rparr> \<and>
     rtype (req_arr h2 req) = nr_type nr \<and> params (req_arr h2 req) = None \<and> klen (rkey (req_arr h2 req)) = nr_keylen nr \<and>
     map (kkey (rkey (req_arr h2 req))) [0..<unat (nr_keylen nr)] = take (unat (nr_keylen nr)) (nr_key nr) \<and>
     (hash_low (rkey (req_arr h2 req)), hash_high (rkey (req_arr h2 req))) = C (take (unat (nr_keylen nr)) (nr_key nr)) \<and>
     q_list (req_pool h2) = rest \<and> (\<forall>q. q \<noteq> req \<longrightarrow> req_arr h2 q = req_arr h q) \<and>
     (\<forall>q b. cells (mem h) q = Some b \<longrightarrow> cells (mem h2) q = Some b \<and> q \<noteq> vvalue (rvalue (req_arr h2 req))) \<and>
     cells (mem h2) (vvalue (rvalue (req_arr h2 req))) \<noteq> None \<and>
     dev h2 = dev h \<and> acks h2 = acks h \<and> clock h2 = clock h \<and> retry_q h2 = retry_q h \<and> m_size (req_pool h2) = m_size (req_pool h)"

lemma accept_request_ok:
  assumes env: "fresh_env n h" and p: "q_list (req_pool h) = req # rest" "req \<noteq> NULL"
    and k: "unat (nr_keylen nr) \<le> length (nr_key nr)" and ty: "nr_type nr \<in> {REQ_TYPE_GET, REQ_TYPE_SET}"
  shows "\<exists>h2. accept_request C True nr sock h = Inr (req, h2) \<and> accepted n C nr req rest h h2"
proof -
  have e: "staged_ok h" "pools_hold n h" "\<forall>k. mmap_ok h k" "unat (nr_segment (dev h)) < 2 ^ 26" "q_inv (req_pool h)" "mem_wf (mem h)"
    using env by (simp_all add: fresh_env_def staged_ok_def)
  let ?r1 = "fill_request nr sock (clock h) (req_arr h req)"
  obtain q where q: "make_request_from_netreq nr sock h = Inr (req, h\<lparr>req_pool := q, req_arr := (req_arr h)(req := ?r1)\<rparr>)"
    "q_inv q" "q_list q = rest" "m_size q = m_size (req_pool h)"
    using make_request_ok [OF e(5) p k] by blast
  let ?h1 = "h\<lparr>req_pool := q, req_arr := (req_arr h)(req := ?r1)\<rparr>"
  obtain lo hi where C: "C (take (unat (nr_keylen nr)) (nr_key nr)) = (lo, hi)" by fastforce
  obtain v m1 where v: "value_for True ?r1 (mem h) = Inr (v, m1)" "mem_wf m1"
    "vvalue v = brk (mem h)" "vlen v = (if nr_type nr = REQ_TYPE_GET then of_nat VALUE_LEN_MAX else nr_kv_size nr)"
    "cells m1 = (cells (mem h))(brk (mem h) \<mapsto> \<lparr>blen = unat (vlen v), bdat = \<lambda>_. 0\<rparr>)"
    using value_for_ok [OF e(6), of ?r1] ty by (auto simp del: fun_upd_apply)
  define r2 where "r2 = ?r1\<lparr>rkey := (rkey ?r1)\<lparr>hash_low := lo, hash_high := hi\<rparr>, rvalue := v, params := None, temp_buf := NULL\<rparr>"
  define h2 where "h2 = ?h1\<lparr>mem := m1, req_arr := (req_arr ?h1)(req := r2)\<rparr>"
  have a: "accept_request C True nr sock h = Inr (req, h2)"
    using q(1) add_request_info_eq [of True ?h1 req v m1 C lo hi] v(1) C fill_request_key [OF k, of sock "clock h" "req_arr h req"]
    by (simp add: accept_request_def h2_def r2_def)
  obtain sb where sb: "cells (mem h) (staged_seg_buf (dev h)) = Some sb" "blen sb = SEGMENT_SIZE" "dev_inv (dev h)"
    using e(1) by (auto simp: staged_ok_def)
  have fresh: "brk (mem h) \<noteq> NULL" "cells (mem h) (brk (mem h)) = None" using e(6) by (auto simp: mem_wf_def)
  then have ne: "brk (mem h) \<noteq> staged_seg_buf (dev h)" using sb(1) by auto
  have len: "unat (vlen v) = (if nr_type nr = REQ_TYPE_GET then VALUE_LEN_MAX else unat (nr_kv_size nr))"
    by (simp add: v(4) unat_of_nat_u32 config_defs)
  have room: "int (length rest) < m_size q" using lq.within_capacity [OF e(5)] p(1) q(4) by simp
  have "index_env n h2"
    using e(2-4) v(2,5) sb ne q(2,3) room by (auto simp: h2_def index_env_def staged_ok_def pools_hold_def)
  moreover have "req_buf req h2 \<lparr>blen = (if nr_type nr = REQ_TYPE_GET then VALUE_LEN_MAX else unat (nr_kv_size nr)), bdat = \<lambda>_. 0\<rparr>"
    using v(3,5) len fresh(1) ne by (simp add: req_buf_def h2_def r2_def)
  moreover have "map (kkey (rkey (req_arr h2 req))) [0..<unat (nr_keylen nr)] = take (unat (nr_keylen nr)) (nr_key nr)"
    using fill_request_key [OF k] by (simp add: h2_def r2_def)
  moreover have "rtype (req_arr h2 req) = nr_type nr" "params (req_arr h2 req) = None" "klen (rkey (req_arr h2 req)) = nr_keylen nr"
    "(hash_low (rkey (req_arr h2 req)), hash_high (rkey (req_arr h2 req))) = C (take (unat (nr_keylen nr)) (nr_key nr))"
    "q_list (req_pool h2) = rest" "\<forall>q. q \<noteq> req \<longrightarrow> req_arr h2 q = req_arr h q"
    "dev h2 = dev h" "acks h2 = acks h" "clock h2 = clock h" "retry_q h2 = retry_q h" "m_size (req_pool h2) = m_size (req_pool h)"
    "cells (mem h2) (vvalue (rvalue (req_arr h2 req))) \<noteq> None"
    using q(3,4) C v(3,5) by (simp_all add: h2_def r2_def)
  moreover have "\<forall>q b. cells (mem h) q = Some b \<longrightarrow> cells (mem h2) q = Some b \<and> q \<noteq> vvalue (rvalue (req_arr h2 req))"
    using fresh(2) v(3,5) by (auto simp: h2_def r2_def)
  ultimately show ?thesis using a unfolding accepted_def by blast
qed

lemma ex_fresh_env:
  "\<exists>h :: 'p handler. fresh_env QSIZE h \<and> q_list (req_pool h) = pool_ptrs \<and> acks h = [] \<and> q_inv (retry_q h) \<and>
     unat (nr_segment (dev h)) < 2 ^ 24 \<and>
     handler_init 0 True (Some 16384) (Some 512) True (\<lambda>_. 0) (\<lambda>_. True) (\<lambda>_. True) = Inr h"
  using handler_init_ok [where 'p = 'p, of 16384 512 "\<lambda>_. True" 0 "\<lambda>_. 0" "\<lambda>_. True"]
  by (auto simp: fresh_env_def config_defs)

text \<open>
  A SET of 1024 bytes and a GET, or SET, of the same two-byte key with 4096 bytes, both ready for the index of a
  fresh handler.
\<close>

lemma ex_set_and_get:
  fixes C :: "byte list \<Rightarrow> u64 \<times> u64"
  assumes ty: "ty \<in> {REQ_TYPE_GET, REQ_TYPE_SET}"
  shows "\<exists>(h :: 'p handler) ba bb. index_env QSIZE h \<and> unat (nr_segment (dev h)) < 2 ^ 24 \<and> int (length (q_list (req_pool h))) + 1 < m_size (req_pool h) \<and>
     q_inv (retry_q h) \<and> req_buf 1 h ba \<and> req_buf 2 h bb \<and> blen ba = 1024 \<and> blen bb = 4096 \<and> bdat ba = (\<lambda>_. 0) \<and>
     unat (vlen (rvalue (req_arr h 1))) = 1024 \<and> unat (vlen (rvalue (req_arr h 2))) = 4096 \<and>
     rtype (req_arr h 1) = REQ_TYPE_SET \<and> rtype (req_arr h 2) = ty \<and>
     params (req_arr h 1) = None \<and> params (req_arr h 2) = None \<and>
     klen (rkey (req_arr h 1)) = 2 \<and> klen (rkey (req_arr h 2)) = 2 \<and>
     (\<forall>i < 2. kkey (rkey (req_arr h 1)) i = kkey (rkey (req_arr h 2)) i) \<and>
     (hash_low (rkey (req_arr h 1)), hash_high (rkey (req_arr h 1))) = C [65, 66] \<and>
     (hash_low (rkey (req_arr h 2)), hash_high (rkey (req_arr h 2))) = C [65, 66] \<and>
     vvalue (rvalue (req_arr h 1)) \<noteq> vvalue (rvalue (req_arr h 2)) \<and> acks h = []"
proof -
  obtain h0 :: "'p handler" where h0: "fresh_env QSIZE h0" "q_list (req_pool h0) = pool_ptrs" "acks h0 = []" "q_inv (retry_q h0)"
    and seg: "unat (nr_segment (dev h0)) < 2 ^ 24"
    using ex_fresh_env by blast
  have "2 < Suc QSIZE" by (simp add: QSIZE_def)
  from upt_conv_Cons [OF this] obtain rest where p: "q_list (req_pool h0) = 1 # 2 # rest"
    using h0(2) pool_ptrs_Cons by simp
  let ?s = "\<lparr>nr_type = REQ_TYPE_SET, nr_keylen = 2, nr_seq_num = 1, nr_key = [65, 66], nr_kv_size = 1024\<rparr>"
  let ?g = "\<lparr>nr_type = ty, nr_keylen = 2, nr_seq_num = 2, nr_key = [65, 66], nr_kv_size = 4096\<rparr>"
  have k: "unat (nr_keylen ?s) \<le> length (nr_key ?s)" "nr_type ?s \<in> {REQ_TYPE_GET, REQ_TYPE_SET}" "(1 :: ptr) \<noteq> NULL"
    "unat (nr_keylen ?g) \<le> length (nr_key ?g)" "nr_type ?g \<in> {REQ_TYPE_GET, REQ_TYPE_SET}" "(2 :: ptr) \<noteq> NULL" using ty by simp_all
  obtain h1 where a1: "accepted QSIZE C ?s 1 (2 # rest) h0 h1" using accept_request_ok [OF h0(1) p k(3,1,2), of C 5] by blast
  then have h1: "index_env QSIZE h1" "req_buf 1 h1 \<lparr>blen = 1024, bdat = \<lambda>_. 0\<rparr>"
    "rtype (req_arr h1 1) = REQ_TYPE_SET" "params (req_arr h1 1) = None" "klen (rkey (req_arr h1 1)) = 2"
    "kkey (rkey (req_arr h1 1)) 0 = 65 \<and> kkey (rkey (req_arr h1 1)) 1 = 66"
    "(hash_low (rkey (req_arr h1 1)), hash_high (rkey (req_arr h1 1))) = C [65, 66]"
    "q_list (req_pool h1) = 2 # rest" "acks h1 = []" "retry_q h1 = retry_q h0" "dev h1 = dev h0"
    "m_size (req_pool h1) = m_size (req_pool h0)"
    using h0(3) by (simp_all add: accepted_def upt_rec)
  have e1: "fresh_env QSIZE h1" using h1(1) by (simp add: fresh_env_def index_env_def)
  obtain h2 where "accepted QSIZE C ?g 2 rest h1 h2" using accept_request_ok [OF e1 h1(8) k(6,4,5), of C 5] by blast
  then have h2: "index_env QSIZE h2" "req_buf 2 h2 \<lparr>blen = VALUE_LEN_MAX, bdat = \<lambda>_. 0\<rparr>"
    "rtype (req_arr h2 2) = ty" "params (req_arr h2 2) = None" "klen (rkey (req_arr h2 2)) = 2"
    "kkey (rkey (req_arr h2 2)) 0 = 65 \<and> kkey (rkey (req_arr h2 2)) 1 = 66"
    "(hash_low (rkey (req_arr h2 2)), hash_high (rkey (req_arr h2 2))) = C [65, 66]"
    "q_list (req_pool h2) = rest" "req_arr h2 1 = req_arr h1 1" "acks h2 = []" "retry_q h2 = retry_q h1" "dev h2 = dev h1"
    "\<forall>q b. cells (mem h1) q = Some b \<longrightarrow> cells (mem h2) q = Some b \<and> q \<noteq> vvalue (rvalue (req_arr h2 2))"
    "m_size (req_pool h2) = m_size (req_pool h1)"
    using h1(9) ty by (simp_all add: accepted_def upt_rec config_defs split: if_splits)
  have b1: "req_buf 1 h2 \<lparr>blen = 1024, bdat = \<lambda>_. 0\<rparr>" "vvalue (rvalue (req_arr h2 1)) \<noteq> vvalue (rvalue (req_arr h2 2))"
    using h1(2) h2(9,12,13) by (auto simp: req_buf_def)
  have "q_inv (req_pool h1)" using e1 by (simp add: fresh_env_def)
  from lq.within_capacity [OF this] have room: "int (length (q_list (req_pool h2))) + 1 < m_size (req_pool h2) \<or>
      int (length (q_list (req_pool h1))) = m_size (req_pool h1)"
    using h1(8) h2(8,14) by auto
  moreover have "int (length (q_list (req_pool h1))) < m_size (req_pool h1)" using h1(1) by (simp add: index_env_def)
  ultimately have "int (length (q_list (req_pool h2))) + 1 < m_size (req_pool h2)" by linarith
  moreover have "\<forall>i < 2. kkey (rkey (req_arr h2 1)) i = kkey (rkey (req_arr h2 2)) i"
    using h1(6) h2(6,9) by (auto simp: less_2_cases_iff)
  moreover have "unat (vlen (rvalue (req_arr h2 1))) = 1024" "unat (vlen (rvalue (req_arr h2 2))) = 4096"
    using b1(1) h2(2) by (simp_all add: req_buf_def config_defs)
  ultimately show ?thesis
    using h1(3-5,7,9,10,11) h2 b1 h0(4) seg by (intro exI [of _ h2] exI [of _ "\<lparr>blen = 1024, bdat = \<lambda>_. 0\<rparr>"]
        exI [of _ "\<lparr>blen = VALUE_LEN_MAX, bdat = \<lambda>_. 0\<rparr>"]) (simp add: config_defs)
qed

subsection \<open>The contract\<close>

locale kv_index =
  fixes set_kv get_kv :: "ptr \<Rightarrow> 'i \<Rightarrow> 'p handler \<Rightarrow> (int \<times> 'i \<times> 'p handler) res"
    and index_ok :: "'i \<Rightarrow> bool"
  assumes set_ext: "set_kv req ix h = Inr (rc, ix', h') \<Longrightarrow> hlr_ext h h'"
    and get_ext: "get_kv req ix h = Inr (rc, ix', h') \<Longrightarrow> hlr_ext h h'"
    and set_ok: "set_kv req ix h = Inr (rc, ix', h') \<Longrightarrow> index_ok ix \<Longrightarrow> index_ok ix'"
    and get_ok: "get_kv req ix h = Inr (rc, ix', h') \<Longrightarrow> index_ok ix \<Longrightarrow> index_ok ix'"
begin

lemma dispatch_keeps:
  assumes "dispatch set_kv get_kv req ix h = Some (Inr (ix', h'))" and "index_ok ix"
  shows "index_ok ix' \<and> hlr_ext h h'"
  using assms
  by (auto simp: dispatch_def res_simps split: req_type_t.splits if_splits
      dest: set_ext get_ext set_ok get_ok net_end_req_ext intro: hlr_ext_trans)

lemma dispatch_all_keeps:
  assumes "dispatch_all set_kv get_kv reqs ix h = Some (Inr (ix', h'))" and "index_ok ix"
  shows "index_ok ix' \<and> hlr_ext h h'"
  using assms
proof (induction reqs arbitrary: ix h)
  case (Cons req reqs)
  then obtain ix1 h1 where d: "dispatch set_kv get_kv req ix h = Some (Inr (ix1, h1))"
    "dispatch_all set_kv get_kv reqs ix1 h1 = Some (Inr (ix', h'))"
    by (auto split: option.splits sum.splits)
  from dispatch_keeps [OF d(1) Cons.prems(2)] Cons.IH [OF d(2)] show ?case by (auto intro: hlr_ext_trans)
qed simp

end

end
