(* ===== verification/Hopscotch.thy ===== *)
theory Hopscotch
  imports Kv_Ops
begin

section \<open>The hopscotch index (\<open>src/hopscotch.c\<close>, \<open>include/hopscotch.h\<close>)\<close>

text \<open>
  A table of \<open>2\<^sup>2\<^sup>7\<close> eight-byte entries. A key hashes to a home slot and an 8-bit tag; its entry lies
  at most 31 slots after its home and stores that distance (\<open>neigh_off\<close>, 5 bits), the tag, the size of the
  stored pair in grains (11 bits) and its block address (40 bits, all ones for a free slot). The
  bit-fields are words of their widths, so every truncation of the source is one of the model.

  \<open>items\<close> is the abstraction: the set of what is stored, with the home of each entry computed
  from where it lies. The properties of the table are stated on it.
\<close>

subsection \<open>Data\<close>

definition IDX_BIT :: nat where "IDX_BIT = 27"
definition NR_ENTRY :: nat where "NR_ENTRY = 2 ^ 27"
definition MAX_HOP :: int where "MAX_HOP = 32"

lemmas hop_config = IDX_BIT_def NR_ENTRY_def MAX_HOP_def

record hop_entry =
  neigh_off :: "5 word"
  key_fp_tag :: u8
  hkv_size :: "11 word"
  hpba :: "40 word"

definition PBA_INVALID :: "40 word" where "PBA_INVALID = 0xffffffffff"

type_synonym hop_table = "nat \<Rightarrow> hop_entry"

record hopscotch =
  hs_table :: "nat \<Rightarrow> hop_table"

datatype hop_step = HOP_STEP_INIT | HOP_STEP_KEY_MATCH | HOP_STEP_KEY_MISMATCH

record hop_params =
  hp_offset :: int
  lookup_step :: hop_step
  insert_step :: hop_step

definition make_hop_params :: hop_params where
  "make_hop_params = \<lparr>hp_offset = 0, lookup_step = HOP_STEP_INIT, insert_step = HOP_STEP_INIT\<rparr>"

definition free_hop_entry :: hop_entry where
  "free_hop_entry = \<lparr>neigh_off = 0, key_fp_tag = 0, hkv_size = 0, hpba = PBA_INVALID\<rparr>"

definition hopscotch_init :: hopscotch where
  "hopscotch_init = \<lparr>hs_table = (\<lambda>_ _. free_hop_entry)\<rparr>"

text \<open>What \<open>hopscotch_free\<close> reports as population.\<close>

definition population :: "hopscotch \<Rightarrow> nat" where
  "population hs = length (filter (\<lambda>j. hpba (hs_table hs 0 j) \<noteq> PBA_INVALID) [0..<NR_ENTRY])"

subsection \<open>The table\<close>

text \<open>\<open>(idx + offset) % NR_ENTRY\<close>, in unsigned arithmetic because \<open>idx\<close> is unsigned.\<close>

definition slot :: "u32 \<Rightarrow> int \<Rightarrow> nat" where
  "slot idx offset = unat ((idx + of_int offset) mod of_nat NR_ENTRY)"

function find_matching_tag :: "hop_table \<Rightarrow> u32 \<Rightarrow> int \<Rightarrow> u8 \<Rightarrow> int" where
  "find_matching_tag ht idx offset tag =
     (if offset < MAX_HOP
      then (if key_fp_tag (ht (slot idx offset)) = tag then offset
            else find_matching_tag ht idx (offset + 1) tag)
      else -1)"
  by pat_completeness auto

termination by (relation "measure (\<lambda>(_, _, offset, _). nat (MAX_HOP - offset))") auto

definition fill_entry :: "hop_table \<Rightarrow> nat \<Rightarrow> u8 \<Rightarrow> u8 \<Rightarrow> u16 \<Rightarrow> u64 \<Rightarrow> hop_table" where
  "fill_entry ht i offset tag sz pba =
     ht(i := \<lparr>neigh_off = ucast offset, key_fp_tag = tag, hkv_size = ucast sz,
              hpba = ucast (pba AND ucast PBA_INVALID)\<rparr>)"

function first_free :: "hop_table \<Rightarrow> u32 \<Rightarrow> int \<Rightarrow> int" where
  "first_free ht idx offset =
     (if offset < MAX_HOP
      then (if hpba (ht (slot idx offset)) = PBA_INVALID then offset else first_free ht idx (offset + 1))
      else -1)"
  by pat_completeness auto

termination by (relation "measure (\<lambda>(_, _, offset). nat (MAX_HOP - offset))") auto

function displace_to :: "hop_table \<Rightarrow> int \<Rightarrow> int \<Rightarrow> (int \<times> nat) option" where
  "displace_to ht ori_idx dis_off =
     (if dis_off < MAX_HOP
      then (let dis_idx = nat ((ori_idx + dis_off) mod int NR_ENTRY)
            in if hpba (ht dis_idx) = PBA_INVALID then Some (dis_off, dis_idx)
               else displace_to ht ori_idx (dis_off + 1))
      else None)"
  by pat_completeness auto

termination by (relation "measure (\<lambda>(_, _, dis_off). nat (MAX_HOP - dis_off))") auto

definition home :: "nat \<Rightarrow> hop_entry \<Rightarrow> int" where
  "home i e = (int NR_ENTRY + int i - uint (neigh_off e)) mod int NR_ENTRY"

function make_free :: "hop_table \<Rightarrow> u32 \<Rightarrow> int \<Rightarrow> int \<times> hop_table" where
  "make_free ht idx offset =
     (if 0 \<le> offset
      then (let current_idx = slot idx offset; entry = ht current_idx
            in case displace_to ht (home current_idx entry) (uint (neigh_off entry) + 1) of
                 Some (dis_off, dis_idx) \<Rightarrow>
                   (offset, fill_entry ht dis_idx (of_int dis_off) (key_fp_tag entry)
                              (ucast (hkv_size entry)) (ucast (hpba entry)))
               | None \<Rightarrow> make_free ht idx (offset - 1))
      else (-1, ht))"
  by pat_completeness auto

termination by (relation "measure (\<lambda>(_, _, offset). nat (offset + 1))") auto

declare find_matching_tag.simps [simp del] first_free.simps [simp del] displace_to.simps [simp del]
  make_free.simps [simp del]

definition find_free_entry :: "hop_table \<Rightarrow> u32 \<Rightarrow> int \<times> hop_table" where
  "find_free_entry ht idx =
     (let offset = first_free ht idx 0
      in if offset \<noteq> -1 then (offset, ht) else make_free ht idx (MAX_HOP - 1))"

subsection \<open>Callbacks\<close>

definition hop_cb_keycmp :: "ptr \<Rightarrow> hop_params handler \<Rightarrow> hop_params handler res" where
  "hop_cb_keycmp req h =
     (let r = req_arr h req
      in case params r of None \<Rightarrow> Inl NullDeref | Some p \<Rightarrow>
         (case rtype r of
            REQ_TYPE_GET \<Rightarrow>
              ebind (keycmp_k_v (rkey r) (rvalue r) (mem h)) (\<lambda>c.
              if c = 0 then net_end_req req (set_params req (p\<lparr>lookup_step := HOP_STEP_KEY_MATCH\<rparr>) h)
              else retry_req req (set_params req (p\<lparr>lookup_step := HOP_STEP_KEY_MISMATCH\<rparr>) h))
          | REQ_TYPE_SET \<Rightarrow>
              ebind (keycmp_k_v (rkey r) (rvalue r) (mem h)) (\<lambda>c.
              retry_req req (set_params req
                (p\<lparr>insert_step := if c = 0 then HOP_STEP_KEY_MATCH else HOP_STEP_KEY_MISMATCH\<rparr>) h))
          | _ \<Rightarrow> retry_req req h))"

text \<open>The callbacks of the other index are never made by this one.\<close>

fun hop_run :: "hop_params runner" where
  "hop_run CB_net_end_req arg h = net_end_req arg h"
| "hop_run CB_reap_seg_buf arg h = Inr (reap_seg_buf arg h)"
| "hop_run CB_keycmp arg h = hop_cb_keycmp arg h"
| "hop_run _ arg h = Inl Abort"

subsection \<open>SET and GET\<close>

definition hop_idx :: "u64 \<Rightarrow> u32" where
  "hop_idx h_key = ucast (h_key AND mask IDX_BIT)"

definition hop_tag :: "u64 \<Rightarrow> u8" where
  "hop_tag h_key = ucast (drop_bit IDX_BIT h_key)"

text \<open>\<open>DIR_BIT\<close> is 0: there is one table.\<close>

definition hop_dir :: "u8 \<Rightarrow> nat" where
  "hop_dir tag = unat (tag AND mask 0)"

definition set_ht :: "nat \<Rightarrow> hop_table \<Rightarrow> hopscotch \<Rightarrow> hopscotch" where
  "set_ht d ht hs = hs\<lparr>hs_table := (hs_table hs)(d := ht)\<rparr>"

text \<open>Phase 3 of \<open>hopscotch_set\<close>, from the label \<open>hop_insert_key_match\<close>.\<close>

definition hop_store :: "ptr \<Rightarrow> int \<Rightarrow> hopscotch \<Rightarrow> hop_params handler \<Rightarrow> (int \<times> hopscotch \<times> hop_params handler) res" where
  "hop_store req offset hs h =
     (let r = req_arr h req; h_key = hash_low (rkey r); idx = hop_idx h_key; tag = hop_tag h_key; d = hop_dir tag
      in ebind (get_next_pba (vlen (rvalue r)) h) (\<lambda>(pba, h1).
         (let ht = fill_entry (hs_table hs d) (slot idx offset) (of_int offset) tag
                     (ucast (vlen (rvalue r) div of_nat GRAIN_UNIT)) pba;
              entry = ht (slot idx offset)
          in ebind (make_callback CB_net_end_req req h1) (\<lambda>(cb, h2).
             ebind (copy_key_to_value (rkey r) (rvalue r) (mem h2)) (\<lambda>m.
             ebind (dev_abs_write hop_run (ucast (hpba entry)) (ucast (hkv_size entry)) (vvalue (rvalue r)) cb
                      (h2\<lparr>mem := m\<rparr>)) (\<lambda>(_, h3).
             Inr (0, set_ht d ht hs, h3)))))))"

text \<open>Reading the pair a matching tag points to, in both operations.\<close>

definition hop_read :: "ptr \<Rightarrow> int \<Rightarrow> hopscotch \<Rightarrow> hop_params handler \<Rightarrow> (int \<times> hopscotch \<times> hop_params handler) res" where
  "hop_read req offset hs h =
     (let r = req_arr h req; h_key = hash_low (rkey r); idx = hop_idx h_key;
          entry = hs_table hs (hop_dir (hop_tag h_key)) (slot idx offset)
      in case params r of None \<Rightarrow> Inl NullDeref | Some p \<Rightarrow>
         ebind (make_callback CB_keycmp req h) (\<lambda>(cb, h1).
         ebind (dev_abs_read hop_run (ucast (hpba entry)) (ucast (hkv_size entry)) (vvalue (rvalue r)) cb
                  (set_params req (p\<lparr>hp_offset := offset\<rparr>) h1)) (\<lambda>(_, h2).
         Inr (0, hs, h2))))"

text \<open>Phases 1 and 2 of \<open>hopscotch_set\<close>, from the label \<open>hop_insert_key_mismatch\<close>.\<close>

definition hop_insert_from :: "ptr \<Rightarrow> int \<Rightarrow> hopscotch \<Rightarrow> hop_params handler \<Rightarrow> (int \<times> hopscotch \<times> hop_params handler) res" where
  "hop_insert_from req start hs h =
     (let h_key = hash_low (rkey (req_arr h req)); idx = hop_idx h_key; tag = hop_tag h_key; d = hop_dir tag;
          offset = find_matching_tag (hs_table hs d) idx start tag
      in if offset \<noteq> -1 then hop_read req offset hs h
         else (case find_free_entry (hs_table hs d) idx of (offset, ht) \<Rightarrow>
               if offset = -1 then Inl Abort
               else hop_store req offset (set_ht d ht hs) h))"

definition hop_ensure_params :: "ptr \<Rightarrow> hop_params handler \<Rightarrow> hop_params \<times> hop_params handler" where
  "hop_ensure_params req h =
     (case params (req_arr h req) of Some p \<Rightarrow> (p, h) | None \<Rightarrow> (make_hop_params, set_params req make_hop_params h))"

definition hopscotch_set :: "ptr \<Rightarrow> hopscotch \<Rightarrow> hop_params handler \<Rightarrow> (int \<times> hopscotch \<times> hop_params handler) res" where
  "hopscotch_set req hs h =
     (case hop_ensure_params req h of (p, h1) \<Rightarrow>
      (case insert_step p of
         HOP_STEP_KEY_MATCH \<Rightarrow> hop_store req (hp_offset p) hs h1
       | HOP_STEP_KEY_MISMATCH \<Rightarrow> hop_insert_from req (hp_offset p + 1) hs h1
       | HOP_STEP_INIT \<Rightarrow> hop_insert_from req 0 hs h1))"

definition hopscotch_get :: "ptr \<Rightarrow> hopscotch \<Rightarrow> hop_params handler \<Rightarrow> (int \<times> hopscotch \<times> hop_params handler) res" where
  "hopscotch_get req hs h =
     (case hop_ensure_params req h of (p, h1) \<Rightarrow>
      (let start = (if lookup_step p = HOP_STEP_KEY_MISMATCH then hp_offset p + 1 else 0);
           h_key = hash_low (rkey (req_arr h1 req)); tag = hop_tag h_key;
           offset = find_matching_tag (hs_table hs (hop_dir tag)) (hop_idx h_key) start tag
       in if offset \<noteq> -1 then hop_read req offset hs h1 else Inr (1, hs, h1)))"

definition hopscotch_delete :: "ptr \<Rightarrow> hopscotch \<Rightarrow> hop_params handler \<Rightarrow> (int \<times> hopscotch \<times> hop_params handler) res" where
  "hopscotch_delete req hs h = Inr (0, hs, h)"

subsection \<open>What is stored\<close>

definition items :: "hop_table \<Rightarrow> (int \<times> u8 \<times> 11 word \<times> 40 word) set" where
  "items ht = {(home i (ht i), key_fp_tag (ht i), hkv_size (ht i), hpba (ht i)) | i.
                 i < NR_ENTRY \<and> hpba (ht i) \<noteq> PBA_INVALID}"

definition item :: "nat \<Rightarrow> hop_entry \<Rightarrow> int \<times> u8 \<times> 11 word \<times> 40 word" where
  "item i e = (home i e, key_fp_tag e, hkv_size e, hpba e)"

lemma items_alt: "items ht = {item i (ht i) | i. i < NR_ENTRY \<and> hpba (ht i) \<noteq> PBA_INVALID}"
  by (simp add: items_def item_def)

subsection \<open>Slots and homes\<close>

lemma nr_entry_32 [simp]: "unat (of_nat NR_ENTRY :: u32) = NR_ENTRY"
  by (simp add: unat_of_nat_u32 hop_config)

lemma slot_lt [simp]: "slot idx offset < NR_ENTRY"
  by (simp add: slot_def unat_mod) (simp add: hop_config)

lemma slot_nat:
  assumes "uint idx < int NR_ENTRY" and "0 \<le> offset" and "offset < MAX_HOP"
  shows "int (slot idx offset) = (uint idx + offset) mod int NR_ENTRY"
proof -
  from assms(2,3) obtain n where n: "offset = int n" "n < 32" by (metis hop_config(3) nonneg_int_cases of_nat_less_numeral_iff)
  have i: "unat idx < NR_ENTRY" using assms(1) by (simp only: uint_nat of_nat_less_iff)
  have "unat (of_nat n :: u32) = n" using n(2) by (simp add: unat_of_nat_u32)
  then have "unat (idx + of_nat n) = unat idx + n"
    using i n(2) by (subst unat_add_u32) (simp_all add: hop_config)
  then have "slot idx offset = (unat idx + n) mod NR_ENTRY" by (simp add: slot_def unat_mod n(1))
  then show ?thesis by (simp add: zmod_int n(1))
qed

lemma neigh_off_bounds [simp]: "0 \<le> uint (neigh_off e)" "uint (neigh_off e) < MAX_HOP"
  using unsigned_less [of "neigh_off e", where ?'a = int] by (simp_all add: MAX_HOP_def)

lemma home_bounds: "0 \<le> home i e" "home i e < int NR_ENTRY"
  by (simp_all add: home_def hop_config)

lemma home_of_shift:
  assumes "0 \<le> H" and "H < int NR_ENTRY" and "uint (neigh_off e) = d"
  shows "home (nat ((H + d) mod int NR_ENTRY)) e = H"
proof -
  have "int (nat ((H + d) mod int NR_ENTRY)) = (H + d) mod int NR_ENTRY"
    by (simp add: hop_config)
  then have "home (nat ((H + d) mod int NR_ENTRY)) e = (int NR_ENTRY + (H + d) mod int NR_ENTRY - d) mod int NR_ENTRY"
    by (simp add: home_def assms(3))
  also have "\<dots> = (int NR_ENTRY + (H + d) - d) mod int NR_ENTRY"
    by (metis mod_add_right_eq mod_diff_left_eq)
  also have "\<dots> = H" using assms(1,2) by simp
  finally show ?thesis .
qed

lemma slot_shift:
  assumes "uint idx < int NR_ENTRY" and "0 \<le> offset" and "offset < MAX_HOP"
  shows "slot idx offset = nat ((uint idx + offset) mod int NR_ENTRY)"
  using slot_nat [OF assms] by linarith

lemma home_slot:
  assumes "uint idx < int NR_ENTRY" and "0 \<le> offset" and "offset < MAX_HOP" and "uint (neigh_off e) = offset"
  shows "home (slot idx offset) e = uint idx"
  using assms home_of_shift [of "uint idx" e offset] by (simp add: slot_shift)

subsection \<open>Entries\<close>

lemma unat_off: "0 \<le> d \<Longrightarrow> d < MAX_HOP \<Longrightarrow> uint (ucast (of_int d :: u8) :: 5 word) = d"
proof -
  assume "0 \<le> d" "d < MAX_HOP"
  then obtain n where n: "d = int n" "n < 32" by (metis hop_config(3) nonneg_int_cases of_nat_less_numeral_iff)
  then have "unat (of_nat n :: u8) = n" by (simp add: unat_of_nat)
  then have "unat (ucast (of_nat n :: u8) :: 5 word) = n" using n by (simp add: unsigned_ucast_eq take_bit_nat_eq_self)
  then show ?thesis using n by (simp only: uint_nat of_int_of_nat_eq)
qed

lemma copy_size [simp]: "ucast (ucast (w :: 11 word) :: u16) = w"
  by (rule bit_word_eqI) (auto simp: bit_simps dest: bit_imp_le_length)

lemma pba_invalid_mask: "(ucast PBA_INVALID :: u64) = mask 40"
  by (simp add: PBA_INVALID_def mask_eq_exp_minus_1)

lemma copy_pba [simp]: "ucast (ucast (w :: 40 word) AND (ucast PBA_INVALID :: u64)) = w"
  unfolding pba_invalid_mask by (rule bit_word_eqI) (auto simp: bit_simps dest: bit_imp_le_length)

lemma copy_pba_64 [simp]: "ucast (ucast (w :: 40 word) :: u64) = w"
  by (rule bit_word_eqI) (auto simp: bit_simps dest: bit_imp_le_length)

lemma trunc_pba [simp]: "(ucast (w AND (ucast PBA_INVALID :: u64)) :: 40 word) = ucast (w :: u64)"
  unfolding pba_invalid_mask by (rule bit_word_eqI) (auto simp: bit_simps)

subsection \<open>The searches\<close>

lemma find_matching_tag_spec:
  assumes "0 \<le> offset" and "find_matching_tag ht idx offset tag = r"
  shows "if r = -1 then \<forall>o'. offset \<le> o' \<and> o' < MAX_HOP \<longrightarrow> key_fp_tag (ht (slot idx o')) \<noteq> tag
     else offset \<le> r \<and> r < MAX_HOP \<and> key_fp_tag (ht (slot idx r)) = tag \<and>
          (\<forall>o'. offset \<le> o' \<and> o' < r \<longrightarrow> key_fp_tag (ht (slot idx o')) \<noteq> tag)"
  using assms
proof (induction ht idx offset tag arbitrary: r rule: find_matching_tag.induct)
  case (1 ht idx offset tag)
  show ?case
  proof (cases "offset < MAX_HOP \<and> key_fp_tag (ht (slot idx offset)) \<noteq> tag")
    case True
    then have r: "find_matching_tag ht idx (offset + 1) tag = r"
      using "1.prems"(2) by (simp add: find_matching_tag.simps)
    have ext: "(offset \<le> o' \<and> P) = (o' = offset \<and> P \<or> offset + 1 \<le> o' \<and> P)" for o' P by auto
    from "1.IH" [OF _ _ _ r] True "1.prems"(1) show ?thesis by (auto simp: ext split: if_splits)
  next
    case False
    with "1.prems" show ?thesis by (auto simp: find_matching_tag.simps split: if_splits)
  qed
qed

lemma first_free_spec:
  assumes "0 \<le> offset" and "first_free ht idx offset = r"
  shows "if r = -1 then \<forall>o'. offset \<le> o' \<and> o' < MAX_HOP \<longrightarrow> hpba (ht (slot idx o')) \<noteq> PBA_INVALID
     else offset \<le> r \<and> r < MAX_HOP \<and> hpba (ht (slot idx r)) = PBA_INVALID"
  using assms
proof (induction ht idx offset arbitrary: r rule: first_free.induct)
  case (1 ht idx offset)
  show ?case
  proof (cases "offset < MAX_HOP \<and> hpba (ht (slot idx offset)) \<noteq> PBA_INVALID")
    case True
    then have r: "first_free ht idx (offset + 1) = r"
      using "1.prems"(2) by (simp add: first_free.simps)
    have ext: "(offset \<le> o' \<and> P) = (o' = offset \<and> P \<or> offset + 1 \<le> o' \<and> P)" for o' P by auto
    from "1.IH" [OF _ _ _ r] True "1.prems"(1) show ?thesis by (auto simp: ext split: if_splits)
  next
    case False
    with "1.prems" show ?thesis by (auto simp: first_free.simps split: if_splits)
  qed
qed

lemma displace_to_spec:
  "case displace_to ht ori dis_off of
     None \<Rightarrow> \<forall>d. dis_off \<le> d \<and> d < MAX_HOP \<longrightarrow> hpba (ht (nat ((ori + d) mod int NR_ENTRY))) \<noteq> PBA_INVALID
   | Some (d, i) \<Rightarrow> dis_off \<le> d \<and> d < MAX_HOP \<and> i = nat ((ori + d) mod int NR_ENTRY) \<and> hpba (ht i) = PBA_INVALID"
proof (induction ht ori dis_off rule: displace_to.induct)
  case (1 ht ori dis_off)
  show ?case
  proof (cases "dis_off < MAX_HOP \<and> hpba (ht (nat ((ori + dis_off) mod int NR_ENTRY))) \<noteq> PBA_INVALID")
    case True
    have ext: "(dis_off \<le> d \<and> P) = (d = dis_off \<and> P \<or> dis_off + 1 \<le> d \<and> P)" for d P by auto
    from True have "displace_to ht ori dis_off = displace_to ht ori (dis_off + 1)" by (simp add: displace_to.simps)
    with "1.IH" [OF _ refl] True show ?thesis by (auto simp: ext split: option.splits)
  next
    case False
    then show ?thesis by (auto simp: displace_to.simps)
  qed
qed

text \<open>No entry of slots \<open>0..offset\<close> of the neighbourhood can move further within its own.\<close>

definition stuck :: "hop_table \<Rightarrow> nat \<Rightarrow> bool" where
  "stuck ht s \<longleftrightarrow> (\<forall>d. uint (neigh_off (ht s)) < d \<and> d < MAX_HOP \<longrightarrow>
     hpba (ht (nat ((home s (ht s) + d) mod int NR_ENTRY))) \<noteq> PBA_INVALID)"

lemma make_free_spec:
  assumes "make_free ht idx offset = (r, ht')"
  shows "if r = -1 then ht' = ht \<and> (\<forall>o'. 0 \<le> o' \<and> o' \<le> offset \<longrightarrow> stuck ht (slot idx o'))
     else 0 \<le> r \<and> r \<le> offset \<and> (\<exists>d i. uint (neigh_off (ht (slot idx r))) < d \<and> d < MAX_HOP \<and>
        i = nat ((home (slot idx r) (ht (slot idx r)) + d) mod int NR_ENTRY) \<and> hpba (ht i) = PBA_INVALID \<and>
        ht' = ht(i := (ht (slot idx r))\<lparr>neigh_off := ucast (of_int d :: u8)\<rparr>))"
  using assms
proof (induction ht idx offset rule: make_free.induct)
  case (1 ht idx offset)
  let ?s = "slot idx offset"
  show ?case
  proof (cases "0 \<le> offset")
    case True
    show ?thesis
    proof (cases "displace_to ht (home ?s (ht ?s)) (uint (neigh_off (ht ?s)) + 1)")
      case None
      then have "make_free ht idx (offset - 1) = (r, ht')" using "1.prems" True
        by (subst (asm) make_free.simps) (simp add: Let_def)
      moreover have "stuck ht ?s"
        using displace_to_spec [where ht = ht and ori = "home ?s (ht ?s)" and dis_off = "uint (neigh_off (ht ?s)) + 1"] None by (simp add: stuck_def)
      moreover have ext: "(0 \<le> o' \<and> o' \<le> offset) = (o' = offset \<or> 0 \<le> o' \<and> o' \<le> offset - 1)" for o' using True by auto
      ultimately show ?thesis
        using "1.IH" [OF True refl refl None] by (auto simp: ext split: if_splits)
    next
      case (Some di)
      obtain d i where di: "di = (d, i)" by fastforce
      have r: "r = offset" "ht' = fill_entry ht i (of_int d) (key_fp_tag (ht ?s)) (ucast (hkv_size (ht ?s))) (ucast (hpba (ht ?s)))"
        using "1.prems" True Some di by (subst (asm) make_free.simps, simp add: Let_def)+
      then have ht': "ht' = ht(i := (ht ?s)\<lparr>neigh_off := ucast (of_int d :: u8)\<rparr>)"
        by (cases "ht ?s") (simp add: fill_entry_def)
      have "uint (neigh_off (ht ?s)) < d" "d < MAX_HOP" "i = nat ((home ?s (ht ?s) + d) mod int NR_ENTRY)" "hpba (ht i) = PBA_INVALID"
        using displace_to_spec [where ht = ht and ori = "home ?s (ht ?s)" and dis_off = "uint (neigh_off (ht ?s)) + 1"] Some di
        by auto
      with ht' True show ?thesis unfolding r(1) by auto
    qed
  next
    case False
    with "1.prems" show ?thesis by (auto simp: make_free.simps)
  qed
qed

subsection \<open>Updating the table\<close>

lemma items_update:
  assumes "i < NR_ENTRY"
  shows "items (ht(i := e)) = {item j (ht j) | j. j < NR_ENTRY \<and> j \<noteq> i \<and> hpba (ht j) \<noteq> PBA_INVALID} \<union>
     (if hpba e = PBA_INVALID then {} else {item i e})"
  using assms unfolding items_alt by (auto split: if_splits)

lemma items_update_free:
  assumes "i < NR_ENTRY" and "hpba (ht i) = PBA_INVALID"
  shows "items (ht(i := e)) = (if hpba e = PBA_INVALID then {} else {item i e}) \<union> items ht"
  unfolding items_update [OF assms(1)] using assms(2) by (auto simp: items_alt)

lemma items_update_dup:
  assumes "i < NR_ENTRY" and "j < NR_ENTRY" and "j \<noteq> i" and "item j (ht j) = item i (ht i)"
  shows "items (ht(i := e)) = (if hpba e = PBA_INVALID then {} else {item i e}) \<union> items ht"
proof -
  let ?A = "{item k (ht k) | k. k < NR_ENTRY \<and> k \<noteq> i \<and> hpba (ht k) \<noteq> PBA_INVALID}"
  have "items ht = ?A \<union> (if hpba (ht i) = PBA_INVALID then {} else {item i (ht i)})"
    using items_update [OF assms(1), of ht "ht i"] by simp
  moreover have "hpba (ht j) = hpba (ht i)" using assms(4) by (simp add: item_def)
  then have "item i (ht i) \<in> ?A" if "hpba (ht i) \<noteq> PBA_INVALID"
    using that assms(2,3) assms(4) [symmetric] by (intro CollectI exI [of _ j]) simp
  ultimately have "items ht = ?A" by auto
  then show ?thesis using items_update [OF assms(1), of ht e] by blast
qed

lemma shift_lt [simp]: "nat (x mod int NR_ENTRY) < NR_ENTRY"
  by (simp add: nat_less_iff hop_config)

text \<open>Moving an entry within its neighbourhood duplicates it, and changes nothing of what is stored.\<close>

lemma move_item:
  assumes "uint (neigh_off e) < d" and "d < MAX_HOP" and "i = nat ((home s e + d) mod int NR_ENTRY)"
  shows "item i (e\<lparr>neigh_off := ucast (of_int d :: u8)\<rparr>) = item s e"
proof -
  have d: "uint (ucast (of_int d :: u8) :: 5 word) = d"
    using assms(1,2) neigh_off_bounds(1) [of e] by (intro unat_off) linarith+
  have "home i (e\<lparr>neigh_off := ucast (of_int d :: u8)\<rparr>) = home s e"
    unfolding assms(3) by (rule home_of_shift) (simp_all add: home_bounds d)
  then show ?thesis by (simp add: item_def)
qed

text \<open>
  The outcome of the search for a slot: either the slot is free, or its entry has been copied to
  another slot of its own neighbourhood.
\<close>

lemma find_free_entry_spec:
  assumes "find_free_entry ht idx = (offset, ht1)"
  shows "if offset = -1
     then ht1 = ht \<and> (\<forall>o'. 0 \<le> o' \<and> o' < MAX_HOP \<longrightarrow> hpba (ht (slot idx o')) \<noteq> PBA_INVALID \<and> stuck ht (slot idx o'))
     else 0 \<le> offset \<and> offset < MAX_HOP \<and> items ht1 = items ht \<and>
       (hpba (ht1 (slot idx offset)) = PBA_INVALID \<or>
        (\<exists>i < NR_ENTRY. i \<noteq> slot idx offset \<and> item i (ht1 i) = item (slot idx offset) (ht1 (slot idx offset))))"
proof (cases "first_free ht idx 0 = -1")
  case False
  with assms first_free_spec [of 0 ht idx, OF _ refl] show ?thesis
    by (auto simp: find_free_entry_def)
next
  case True
  then have full: "\<forall>o'. 0 \<le> o' \<and> o' < MAX_HOP \<longrightarrow> hpba (ht (slot idx o')) \<noteq> PBA_INVALID"
    using first_free_spec [of 0 ht idx, OF _ refl] by simp
  from assms True have mf: "make_free ht idx (MAX_HOP - 1) = (offset, ht1)" by (simp add: find_free_entry_def)
  show ?thesis
  proof (cases "offset = -1")
    case True
    with make_free_spec [OF mf] full show ?thesis by auto
  next
    case False
    let ?s = "slot idx offset"
    from make_free_spec [OF mf] False obtain d i where r: "0 \<le> offset" "offset < MAX_HOP"
      and d: "uint (neigh_off (ht ?s)) < d" "d < MAX_HOP" "i = nat ((home ?s (ht ?s) + d) mod int NR_ENTRY)"
      and i: "hpba (ht i) = PBA_INVALID" and ht1: "ht1 = ht(i := (ht ?s)\<lparr>neigh_off := ucast (of_int d :: u8)\<rparr>)" by auto
    have s: "hpba (ht ?s) \<noteq> PBA_INVALID" using full r by blast
    have it: "item i ((ht ?s)\<lparr>neigh_off := ucast (of_int d :: u8)\<rparr>) = item ?s (ht ?s)" by (rule move_item [OF d])
    have lt: "i < NR_ENTRY" by (simp add: d(3))
    have "item ?s (ht ?s) \<in> items ht" using s by (auto simp: items_alt)
    then have "items ht1 = items ht" using items_update_free [of i ht, OF lt i] it by (auto simp: ht1)
    moreover have "i \<noteq> ?s" using i s by auto
    ultimately show ?thesis using r lt it False by (auto simp: ht1)
  qed
qed

subsection \<open>The contract of an index\<close>

text \<open>Every write of the index goes to a slot of its one table.\<close>

definition hop_ok :: "hopscotch \<Rightarrow> bool" where
  "hop_ok hs \<longleftrightarrow> (\<forall>d > 0. hs_table hs d = hs_table hopscotch_init d) \<and> (\<forall>i \<ge> NR_ENTRY. hs_table hs 0 i = free_hop_entry)"

lemma hop_dir_zero [simp]: "hop_dir tag = 0"
  by (simp add: hop_dir_def)

lemma hop_ok_init: "hop_ok hopscotch_init"
  by (simp add: hop_ok_def hopscotch_init_def)

lemma hop_ok_set_ht:
  "hop_ok hs \<Longrightarrow> (\<And>i. NR_ENTRY \<le> i \<Longrightarrow> ht i = hs_table hs 0 i) \<Longrightarrow> hop_ok (set_ht 0 ht hs)"
  by (simp add: hop_ok_def set_ht_def)

lemma fill_entry_out: "i < NR_ENTRY \<Longrightarrow> NR_ENTRY \<le> j \<Longrightarrow> fill_entry ht i off tag sz pba j = ht j"
  by (auto simp: fill_entry_def)

lemma find_free_entry_out: "find_free_entry ht idx = (offset, ht1) \<Longrightarrow> NR_ENTRY \<le> j \<Longrightarrow> ht1 j = ht j"
proof (cases "first_free ht idx 0 = -1")
  case True
  assume r: "find_free_entry ht idx = (offset, ht1)" and j: "NR_ENTRY \<le> j"
  with True have mf: "make_free ht idx (MAX_HOP - 1) = (offset, ht1)" by (simp add: find_free_entry_def)
  have "j \<noteq> nat (x mod int NR_ENTRY)" for x using shift_lt [of x] j by linarith
  with make_free_spec [OF mf] show ?thesis by (cases "offset = -1") fastforce+
qed (simp add: find_free_entry_def)

lemma hop_cb_keycmp_ext: "hop_cb_keycmp req h = Inr h' \<Longrightarrow> hlr_ext h h'"
  by (auto simp: hop_cb_keycmp_def Let_def res_simps split: option.splits req_type_t.splits if_splits
      dest!: net_end_req_ext retry_req_ext)

lemma hop_run_ext: "runner_ext hop_run"
proof -
  have "hop_run f a h = Inr h' \<Longrightarrow> hlr_ext h h'" for f a h h'
    by (cases f) (auto simp: reap_seg_buf_def munmap_def dest: net_end_req_ext hop_cb_keycmp_ext)
  then show ?thesis by (simp add: runner_ext_def)
qed

lemma hop_store_keeps:
  assumes "hop_store req offset hs h = Inr (rc, hs', h')"
  shows "hlr_ext h h' \<and> (hop_ok hs \<longrightarrow> hop_ok hs')"
proof -
  from assms obtain pba h1 cb h2 m rc2 ht n where
    a: "get_next_pba (vlen (rvalue (req_arr h req))) h = Inr (pba, h1)" "make_callback CB_net_end_req req h1 = Inr (cb, h2)"
    "dev_abs_write hop_run (ucast (hpba (ht (slot (hop_idx (hash_low (rkey (req_arr h req)))) offset)))) n
       (vvalue (rvalue (req_arr h req))) cb (h2\<lparr>mem := m\<rparr>) = Inr (rc2, h')"
    and hs': "hs' = set_ht 0 ht hs"
    and ht: "ht = fill_entry (hs_table hs 0) (slot (hop_idx (hash_low (rkey (req_arr h req)))) offset) (of_int offset)
      (hop_tag (hash_low (rkey (req_arr h req)))) (ucast (vlen (rvalue (req_arr h req)) div of_nat GRAIN_UNIT)) pba"
    unfolding hop_store_def Let_def by (auto simp: res_simps)
  have "hlr_ext h h'"
    using get_next_pba_ext [OF a(1)] make_callback_ext [OF a(2)] dev_abs_write_ext [OF a(3) hop_run_ext]
    by (auto intro: hlr_ext_trans)
  moreover have "hop_ok hs \<longrightarrow> hop_ok hs'" unfolding hs' by (intro impI hop_ok_set_ht) (simp_all add: ht fill_entry_out)
  ultimately show ?thesis by blast
qed

lemma hop_read_keeps:
  assumes "hop_read req offset hs h = Inr (rc, hs', h')"
  shows "hlr_ext h h' \<and> hs' = hs \<and> rc = 0"
  using assms unfolding hop_read_def Let_def
  by (auto simp: res_simps split: option.splits
      dest!: make_callback_ext dev_abs_read_ext [OF _ hop_run_ext] intro: hlr_ext_trans)

lemma hop_insert_from_keeps:
  assumes "hop_insert_from req start hs h = Inr (rc, hs', h')"
  shows "hlr_ext h h' \<and> (hop_ok hs \<longrightarrow> hop_ok hs')"
proof -
  have ok: "hop_ok hs \<Longrightarrow> find_free_entry (hs_table hs 0) idx = (off, ht) \<Longrightarrow> hop_ok (set_ht 0 ht hs)" for idx off ht
    by (rule hop_ok_set_ht) (auto dest: find_free_entry_out)
  from assms ok show ?thesis
    by (auto simp: hop_insert_from_def Let_def split: if_splits prod.splits dest!: hop_read_keeps hop_store_keeps)
qed

lemma hop_ensure_params_ext: "hop_ensure_params req h = (p, h1) \<Longrightarrow> hlr_ext h h1"
  by (auto simp: hop_ensure_params_def split: option.splits)

lemma hopscotch_set_keeps:
  "hopscotch_set req hs h = Inr (rc, hs', h') \<Longrightarrow> hlr_ext h h' \<and> (hop_ok hs \<longrightarrow> hop_ok hs')"
  by (auto simp: hopscotch_set_def split: prod.splits hop_step.splits
      dest!: hop_ensure_params_ext hop_store_keeps hop_insert_from_keeps intro: hlr_ext_trans)

lemma hopscotch_get_keeps:
  "hopscotch_get req hs h = Inr (rc, hs', h') \<Longrightarrow> hlr_ext h h' \<and> hs' = hs \<and> rc \<in> {0, 1}"
  by (auto simp: hopscotch_get_def Let_def split: prod.splits if_splits
      dest!: hop_ensure_params_ext hop_read_keeps intro: hlr_ext_trans)

interpretation hop: kv_index hopscotch_set hopscotch_get hop_ok
  by unfold_locales (auto dest: hopscotch_set_keeps hopscotch_get_keeps)

subsection \<open>Storing and finding a pair\<close>

text \<open>The entry of a request for a pair at \<open>pba\<close>, \<open>offset\<close> slots after its home.\<close>

definition new_entry :: "'p request \<Rightarrow> int \<Rightarrow> u64 \<Rightarrow> hop_entry" where
  "new_entry r offset pba =
     \<lparr>neigh_off = ucast (of_int offset :: u8), key_fp_tag = hop_tag (hash_low (rkey r)),
      hkv_size = of_nat (unat (vlen (rvalue r)) div GRAIN_UNIT), hpba = ucast pba\<rparr>"

lemma hop_idx_lt [simp]: "uint (hop_idx h) < int NR_ENTRY"
proof -
  have "unat (h AND mask 27) < 2 ^ 27"
    by (simp only: take_bit_eq_mask [symmetric] unsigned_take_bit_eq take_bit_nat_less_exp)
  then have "unat (hop_idx h) < 2 ^ 27" by (simp add: hop_idx_def IDX_BIT_def unat_ucast_small)
  then have "int (unat (hop_idx h)) < int (2 ^ 27)" unfolding of_nat_less_iff .
  then show ?thesis by (simp add: NR_ENTRY_def)
qed

lemma size_field:
  assumes "unat (len :: u32) < 262144"
  shows "(ucast (ucast (len div of_nat GRAIN_UNIT) :: u16) :: 11 word) = of_nat (unat len div GRAIN_UNIT)"
    and "unat (ucast (of_nat (unat len div GRAIN_UNIT) :: 11 word) :: u32) = unat len div GRAIN_UNIT"
proof -
  have d: "unat (len div of_nat GRAIN_UNIT) = unat len div GRAIN_UNIT" by (simp add: unat_div)
  have lt: "unat len div GRAIN_UNIT < 2048" using assms by (simp add: GRAIN_UNIT_def)
  have "unat (ucast (len div of_nat GRAIN_UNIT) :: u16) = unat len div GRAIN_UNIT"
    using lt by (subst unat_ucast_small) (simp_all add: d)
  then have "unat (ucast (ucast (len div of_nat GRAIN_UNIT) :: u16) :: 11 word) = unat len div GRAIN_UNIT"
    using lt by (subst unat_ucast_small) simp_all
  then show e: "(ucast (ucast (len div of_nat GRAIN_UNIT) :: u16) :: 11 word) = of_nat (unat len div GRAIN_UNIT)"
    using lt by (simp add: word_unat_eq_iff unat_of_nat)
  show "unat (ucast (of_nat (unat len div GRAIN_UNIT) :: 11 word) :: u32) = unat len div GRAIN_UNIT"
    using lt by (subst unat_ucast_small) (simp_all add: unat_of_nat)
qed

lemma pba_field:
  assumes "unat (pba :: u64) < 1099511627775"
  shows "(ucast (ucast pba :: 40 word) :: u64) = pba" and "(ucast pba :: 40 word) \<noteq> PBA_INVALID"
proof -
  have u: "unat (ucast pba :: 40 word) = unat pba"
    using assms by (intro unat_ucast_small) simp
  then have "unat (ucast (ucast pba :: 40 word) :: u64) = unat pba"
    using assms by (subst unat_ucast_small) simp_all
  then show "(ucast (ucast pba :: 40 word) :: u64) = pba" by (simp add: word_unat_eq_iff)
  show "(ucast pba :: 40 word) \<noteq> PBA_INVALID"
  proof
    assume "(ucast pba :: 40 word) = PBA_INVALID"
    with u have "unat pba = unat PBA_INVALID" by simp
    with assms show False by (simp add: PBA_INVALID_def)
  qed
qed

lemma fill_new_entry:
  assumes "unat (vlen (rvalue r)) < 262144"
  shows "fill_entry ht i (of_int offset) (hop_tag (hash_low (rkey r))) (ucast (vlen (rvalue r) div of_nat GRAIN_UNIT)) pba =
     ht(i := new_entry r offset pba)"
  using size_field(1) [OF assms] by (simp add: fill_entry_def new_entry_def)

lemma hop_store_ok:
  fixes req :: ptr and h :: "hop_params handler"
  defines "r \<equiv> req_arr h req"
  assumes env: "index_env (Suc (Suc k)) h" and buf: "req_buf req h b"
    and key: "Suc (unat (klen (rkey r))) \<le> unat (vlen (rvalue r))" and sz: "unat (vlen (rvalue r)) < 262144"
  shows "\<exists>pba h3. hop_store req offset hs h =
       Inr (0, set_ht 0 ((hs_table hs 0)(slot (hop_idx (hash_low (rkey r))) offset := new_entry r offset pba)) hs, h3) \<and>
     unat pba < 1099511627775 \<and>
     stored_at h3 pba (unat (vlen (rvalue r)) div GRAIN_UNIT * GRAIN_UNIT) (with_key (rkey r) (bdat b)) \<and>
     acks h3 = acks h @ [ack_of (clock h) r] \<and> q_list (req_pool h3) = q_list (req_pool h) @ [req] \<and>
     cells (mem h3) (vvalue (rvalue r)) = None \<and>
     (\<forall>p c. cells (mem h) p = Some c \<and> p \<noteq> vvalue (rvalue r) \<and> p \<noteq> staged_seg_buf (dev h) \<longrightarrow>
        cells (mem h3) p = Some c \<and> p \<noteq> staged_seg_buf (dev h3)) \<and>
     req_arr h3 = (req_arr h)(req := r\<lparr>rsw := sw_end (clock h) (rsw r)\<rparr>) \<and>
     staged_ok h3 \<and> pools_hold k h3 \<and> q_inv (req_pool h3) \<and> m_size (req_pool h3) = m_size (req_pool h) \<and> clock h3 = clock h \<and>
     (\<forall>k. mmap_ok h3 k) \<and> unat (nr_segment (dev h3)) < 2 ^ 26 \<and> retry_q h3 = retry_q h"
proof -
  let ?n = "ucast (of_nat (unat (vlen (rvalue r)) div GRAIN_UNIT) :: 11 word) :: u32"
  have n: "unat ?n = unat (vlen (rvalue r)) div GRAIN_UNIT" by (rule size_field(2) [OF sz])
  have "unat (vlen (rvalue r)) \<le> SEGMENT_SIZE" using sz by (simp add: config_defs)
  from log_store [OF env buf key [unfolded r_def] this [unfolded r_def], of ?n hop_run] obtain pba h1 cb h2 m h3 where
    r: "get_next_pba (vlen (rvalue r)) h = Inr (pba, h1)" "make_callback CB_net_end_req req h1 = Inr (cb, h2)"
    "copy_key_to_value (rkey r) (rvalue r) (mem h2) = Inr m"
    "dev_abs_write hop_run pba ?n (vvalue (rvalue r)) cb (h2\<lparr>mem := m\<rparr>) = Inr (0, h3)"
    and pba: "unat pba < 1099511627775"
    and rest: "stored_at h3 pba (unat (vlen (rvalue r)) div GRAIN_UNIT * GRAIN_UNIT) (with_key (rkey r) (bdat b)) \<and>
     acks h3 = acks h @ [ack_of (clock h) r] \<and> q_list (req_pool h3) = q_list (req_pool h) @ [req] \<and>
     cells (mem h3) (vvalue (rvalue r)) = None \<and>
     (\<forall>p c. cells (mem h) p = Some c \<and> p \<noteq> vvalue (rvalue r) \<and> p \<noteq> staged_seg_buf (dev h) \<longrightarrow>
        cells (mem h3) p = Some c \<and> p \<noteq> staged_seg_buf (dev h3)) \<and>
     req_arr h3 = (req_arr h)(req := r\<lparr>rsw := sw_end (clock h) (rsw r)\<rparr>) \<and>
     staged_ok h3 \<and> pools_hold k h3 \<and> q_inv (req_pool h3) \<and> m_size (req_pool h3) = m_size (req_pool h) \<and> clock h3 = clock h \<and>
     (\<forall>k. mmap_ok h3 k) \<and> unat (nr_segment (dev h3)) < 2 ^ 26 \<and> retry_q h3 = retry_q h"
    using env unfolding r_def [symmetric] n pair_logged_def index_env_def by (auto simp: GRAIN_UNIT_def)
  have "hop_store req offset hs h =
       Inr (0, set_ht 0 ((hs_table hs 0)(slot (hop_idx (hash_low (rkey r))) offset := new_entry r offset pba)) hs, h3)"
    unfolding hop_store_def Let_def r_def [symmetric] fill_new_entry [OF sz] hop_dir_zero
    using r pba_field(1) [OF pba] by (simp add: new_entry_def)
  with pba rest show ?thesis by blast
qed

text \<open>
  Reading the entry a matching tag points to: when the pair of the request's key is stored there, the
  callback runs with the stored bytes in the value buffer and the comparison succeeds.
\<close>

definition compared :: "ptr \<Rightarrow> int \<Rightarrow> hop_params \<Rightarrow> ptr \<Rightarrow> ptr queue \<Rightarrow> mbuf \<Rightarrow> hop_params handler \<Rightarrow> hop_params handler" where
  "compared req offset p cb q b h =
     (set_params req (p\<lparr>hp_offset := offset\<rparr>)
        (h\<lparr>cb_pool := q, cb_arr := (cb_arr h)(cb := \<lparr>cbfunc = CB_keycmp, cbarg = req, cbiocb = NULL\<rparr>)\<rparr>))
      \<lparr>mem := (mem h)\<lparr>cells := (cells (mem h))(vvalue (rvalue (req_arr h req)) \<mapsto> b)\<rparr>\<rparr>"

lemma hop_read_compares:
  fixes req :: ptr and h :: "hop_params handler"
  defines "r \<equiv> req_arr h req"
  assumes st: "staged_ok h" "pools_hold (Suc k) h" and buf: "req_buf req h b" and p: "params r = Some p"
    and e: "hs_table hs 0 (slot (hop_idx (hash_low (rkey r))) offset) = e"
    and stored: "stored_at h (ucast (hpba e)) (unat (hkv_size e) * GRAIN_UNIT) (with_key (rkey r) f)"
    and key: "Suc (unat (klen (rkey r))) \<le> unat (hkv_size e) * GRAIN_UNIT" and fit: "unat (hkv_size e) * GRAIN_UNIT \<le> blen b"
  shows "\<exists>cb rest q b3. q_list (cb_pool h) = cb # rest \<and> cb \<noteq> NULL \<and> q_inv q \<and> q_list q = rest \<and> blen b3 = blen b \<and>
     hop_read req offset hs h = ebind (hop_cb_keycmp req (compared req offset p cb q b3 h)) (\<lambda>h1.
       ebind (q_enqueue cb (cb_pool h1)) (\<lambda>(_, q'). Inr (0, hs, h1\<lparr>cb_pool := q'\<rparr>))) \<and>
     (\<forall>j < unat (hkv_size e) * GRAIN_UNIT. bdat b3 j = with_key (rkey r) f j) \<and>
     keycmp_k_v (rkey r) (rvalue r) (mem (compared req offset p cb q b3 h)) = Inr 0"
proof -
  let ?v = "vvalue (rvalue r)"
  let ?n = "ucast (hkv_size e) :: u32"
  have n: "unat ?n = unat (hkv_size e)"
    using unsigned_less [of "hkv_size e", where ?'a = nat] by (intro unat_ucast_small) simp
  have b: "cells (mem h) ?v = Some b" "?v \<noteq> NULL" "?v \<noteq> staged_seg_buf (dev h)"
    using buf by (simp_all add: req_buf_def r_def)
  have inv: "dev_inv (dev h)" "staged_seg_buf (dev h) \<noteq> NULL" using st(1) by (auto simp: staged_ok_def mem_wf_def intro!: gr0I)
  obtain cb rest where cb: "q_list (cb_pool h) = cb # rest" "cb \<noteq> NULL"
    using st(2) by (cases "q_list (cb_pool h)") (auto simp: pools_hold_def)
  obtain q where mk: "make_callback CB_keycmp req h = Inr (cb, h\<lparr>cb_pool := q,
      cb_arr := (cb_arr h)(cb := \<lparr>cbfunc = CB_keycmp, cbarg = req, cbiocb = NULL\<rparr>)\<rparr>)" "q_inv q" "q_list q = rest"
    using make_callback_ok [OF _ cb, of CB_keycmp req] st(2) by (auto simp: pools_hold_def)
  let ?h1 = "set_params req (p\<lparr>hp_offset := offset\<rparr>)
      (h\<lparr>cb_pool := q, cb_arr := (cb_arr h)(cb := \<lparr>cbfunc = CB_keycmp, cbarg = req, cbiocb = NULL\<rparr>)\<rparr>)"
  have pos: "0 < unat ?n" using key n by (cases "unat (hkv_size e)") simp_all
  have pre: "stored_at ?h1 (ucast (hpba e)) (unat ?n * GRAIN_UNIT) (with_key (rkey r) f)" "dev_inv (dev ?h1)"
    "cells (mem ?h1) ?v = Some b" "?v \<noteq> staged_seg_buf (dev ?h1)" "staged_seg_buf (dev ?h1) \<noteq> NULL" "unat ?n * GRAIN_UNIT \<le> blen b"
    using stored inv b fit n by (simp_all add: set_params_def stored_at_def)
  obtain g where g: "dev_abs_read hop_run (ucast (hpba e)) ?n ?v cb ?h1 =
      ebind (run_and_recycle hop_run cb (?h1\<lparr>mem := (mem ?h1)\<lparr>cells := (cells (mem ?h1))(?v \<mapsto> b\<lparr>bdat := g\<rparr>)\<rparr>\<rparr>)) (\<lambda>h1. Inr (0, h1))"
    "\<forall>j. g j = (if j < unat ?n * GRAIN_UNIT then with_key (rkey r) f j else bdat b j)"
    using log_read [OF pre(2,1) pos pre(3) b(2) pre(4,6,5)] by blast
  let ?c = "compared req offset p cb q (b\<lparr>bdat := g\<rparr>) h"
  have "keycmp_k_v (rkey r) (rvalue r) (mem ?c) = Inr 0"
    by (rule keycmp_with_key [where b = "b\<lparr>bdat := g\<rparr>" and f = f])
      (use b(2) key fit g(2) n in \<open>auto simp: compared_def set_params_def r_def\<close>)
  moreover have "hop_read req offset hs h = ebind (hop_cb_keycmp req ?c) (\<lambda>h1.
       ebind (q_enqueue cb (cb_pool h1)) (\<lambda>(_, q'). Inr (0, hs, h1\<lparr>cb_pool := q'\<rparr>)))"
    using mk(1) g(1) p
    by (simp add: hop_read_def Let_def r_def [symmetric] e run_and_recycle_def compared_def set_params_def ebind_assoc split_def)
  moreover have "\<forall>j < unat (hkv_size e) * GRAIN_UNIT. bdat (b\<lparr>bdat := g\<rparr>) j = with_key (rkey r) f j" using g(2) n by simp
  ultimately show ?thesis using cb mk(2,3) by (intro exI [of _ cb] exI [of _ rest] exI [of _ q] exI [of _ "b\<lparr>bdat := g\<rparr>"]) simp
qed

lemma compared_fields [simp]:
  "acks (compared req offset p cb q b h) = acks h" "req_pool (compared req offset p cb q b h) = req_pool h"
  "retry_q (compared req offset p cb q b h) = retry_q h" "cb_pool (compared req offset p cb q b h) = q"
  "clock (compared req offset p cb q b h) = clock h" "dev (compared req offset p cb q b h) = dev h"
  "flying (compared req offset p cb q b h) = flying h"
  "req_arr (compared req offset p cb q b h) req = (req_arr h req)\<lparr>params := Some (p\<lparr>hp_offset := offset\<rparr>)\<rparr>"
  by (simp_all add: compared_def set_params_def)

text \<open>A GET that reaches the entry of its key is acknowledged from the callback of the read.\<close>

lemma hop_read_hit:
  fixes req :: ptr and h :: "hop_params handler"
  defines "r \<equiv> req_arr h req"
  assumes st: "staged_ok h" "pools_hold (Suc k) h"
    and pool: "q_inv (req_pool h)" "int (length (q_list (req_pool h))) < m_size (req_pool h)"
    and buf: "req_buf req h b" and ty: "rtype r = REQ_TYPE_GET" and p: "params r = Some p"
    and e: "hs_table hs 0 (slot (hop_idx (hash_low (rkey r))) offset) = e"
    and stored: "stored_at h (ucast (hpba e)) (unat (hkv_size e) * GRAIN_UNIT) (with_key (rkey r) f)"
    and key: "Suc (unat (klen (rkey r))) \<le> unat (hkv_size e) * GRAIN_UNIT" and fit: "unat (hkv_size e) * GRAIN_UNIT \<le> blen b"
  shows "\<exists>h3. hop_read req offset hs h = Inr (0, hs, h3) \<and> acks h3 = acks h @ [ack_of (clock h) r] \<and>
     q_list (req_pool h3) = q_list (req_pool h) @ [req] \<and> cells (mem h3) (vvalue (rvalue r)) = None"
proof -
  let ?v = "vvalue (rvalue r)"
  obtain cb q b3 where c: "q_inv q" "hop_read req offset hs h = ebind (hop_cb_keycmp req (compared req offset p cb q b3 h)) (\<lambda>h1.
       ebind (q_enqueue cb (cb_pool h1)) (\<lambda>(_, q'). Inr (0, hs, h1\<lparr>cb_pool := q'\<rparr>)))"
    and cmp: "keycmp_k_v (rkey r) (rvalue r) (mem (compared req offset p cb q b3 h)) = Inr 0"
    using hop_read_compares [OF st buf p [unfolded r_def] e [unfolded r_def] stored [unfolded r_def] key [unfolded r_def] fit]
    unfolding r_def by blast
  let ?h2 = "set_params req (p\<lparr>hp_offset := offset, lookup_step := HOP_STEP_KEY_MATCH\<rparr>) (compared req offset p cb q b3 h)"
  have v: "?v \<noteq> NULL" using buf by (simp add: req_buf_def r_def)
  obtain m3 where m3: "mem_free ?v (mem ?h2) = Inr m3" "cells m3 ?v = None"
    using v by (auto simp: mem_free_def set_params_def compared_def r_def)
  obtain q3 where ne: "net_end_req req ?h2 = Inr (?h2\<lparr>mem := m3, req_pool := q3,
       req_arr := (req_arr ?h2)(req := (req_arr ?h2 req)\<lparr>rsw := sw_end (clock h) (rsw r)\<rparr>),
       flying := fst (cl_release (flying h)), acks := acks h @ [ack_of (clock h) (req_arr ?h2 req)]\<rparr>)"
    and q3: "q_list q3 = q_list (req_pool h) @ [req]"
    using net_end_req_ok [of ?h2 req m3] pool m3(1) by (auto simp: set_params_def r_def)
  obtain q4 x where q4: "q_enqueue cb q = Inr (x, q4)" using lq.enq_total [OF c(1), of cb] by auto
  have "hop_cb_keycmp req (compared req offset p cb q b3 h) = net_end_req req ?h2"
    using ty cmp by (simp add: hop_cb_keycmp_def Let_def r_def)
  with c(2) ne q3 q4 m3(2) show ?thesis by (simp add: set_params_def ack_of_def r_def)
qed

text \<open>Filling the slot \<open>find_free_entry\<close> found adds one item and loses none.\<close>

lemma insert_items:
  assumes f: "find_free_entry ht idx = (offset, ht1)" "offset \<noteq> -1" and idx: "uint idx < int NR_ENTRY"
    and e: "hpba e \<noteq> PBA_INVALID" "uint (neigh_off e) = offset"
  shows "0 \<le> offset \<and> offset < MAX_HOP \<and> items ht1 = items ht \<and>
     items (ht1(slot idx offset := e)) = insert (uint idx, key_fp_tag e, hkv_size e, hpba e) (items ht)"
proof -
  let ?s = "slot idx offset"
  from find_free_entry_spec [OF f(1)] f(2) have r: "0 \<le> offset" "offset < MAX_HOP" "items ht1 = items ht"
    and c: "hpba (ht1 ?s) = PBA_INVALID \<or> (\<exists>i < NR_ENTRY. i \<noteq> ?s \<and> item i (ht1 i) = item ?s (ht1 ?s))" by simp_all
  have "item ?s e = (uint idx, key_fp_tag e, hkv_size e, hpba e)"
    using home_slot [OF idx r(1,2) e(2)] by (simp add: item_def)
  with c e(1) r items_update_free [of ?s ht1 e] items_update_dup [of ?s _ ht1 e] show ?thesis by auto
qed

text \<open>An entry lies \<open>neigh_off\<close> slots after its home.\<close>

lemma slot_of_home:
  assumes "i < NR_ENTRY" and "home i e = uint idx"
  shows "i = slot idx (uint (neigh_off e))"
proof -
  let ?o = "uint (neigh_off e)"
  have idx: "uint idx < int NR_ENTRY" using home_bounds(2) [of i e] assms(2) by simp
  have "int (slot idx ?o) = (home i e + ?o) mod int NR_ENTRY" using slot_nat [OF idx] assms(2) by simp
  also have "\<dots> = (int NR_ENTRY + int i - ?o + ?o) mod int NR_ENTRY" unfolding home_def by (rule mod_add_left_eq)
  also have "\<dots> = int i" using assms(1) by simp
  finally show ?thesis by simp
qed

text \<open>The offsets a request reads one after the other as long as the keys mismatch.\<close>

function probes :: "hop_table \<Rightarrow> u32 \<Rightarrow> int \<Rightarrow> u8 \<Rightarrow> int list" where
  "probes ht idx start tag =
     (if start < 0 then []
      else (let offset = find_matching_tag ht idx start tag
            in if offset = -1 then [] else offset # probes ht idx (offset + 1) tag))"
  by pat_completeness auto

termination
proof (relation "measure (\<lambda>(_, _, start, _). nat (MAX_HOP - start))")
  fix ht :: hop_table and idx start tag x
  assume a: "\<not> start < 0" "x = find_matching_tag ht idx start tag" "x \<noteq> -1"
  with find_matching_tag_spec [of start ht idx tag x] have "start \<le> x" "x < MAX_HOP" by auto
  then show "((ht, idx, x + 1, tag), ht, idx, start, tag) \<in> measure (\<lambda>(_, _, start, _). nat (MAX_HOP - start))" by simp
qed simp

declare probes.simps [simp del]

lemma probes_set:
  "0 \<le> start \<Longrightarrow> set (probes ht idx start tag) = {o'. start \<le> o' \<and> o' < MAX_HOP \<and> key_fp_tag (ht (slot idx o')) = tag} \<and>
     sorted_wrt (<) (probes ht idx start tag)"
proof (induction ht idx start tag rule: probes.induct)
  case (1 ht idx start tag)
  let ?r = "find_matching_tag ht idx start tag"
  note sp = find_matching_tag_spec [OF "1.prems" refl, of ht idx tag]
  show ?case
  proof (cases "?r = -1")
    case True
    with sp "1.prems" show ?thesis by (subst (1 2) probes.simps) auto
  next
    case False
    with sp have r: "start \<le> ?r" "?r < MAX_HOP" "key_fp_tag (ht (slot idx ?r)) = tag"
      "\<forall>o'. start \<le> o' \<and> o' < ?r \<longrightarrow> key_fp_tag (ht (slot idx o')) \<noteq> tag" by simp_all
    have p: "probes ht idx start tag = ?r # probes ht idx (?r + 1) tag"
      using False "1.prems" by (subst probes.simps) (simp add: Let_def)
    have ih: "set (probes ht idx (?r + 1) tag) = {o'. ?r + 1 \<le> o' \<and> o' < MAX_HOP \<and> key_fp_tag (ht (slot idx o')) = tag}"
      "sorted_wrt (<) (probes ht idx (?r + 1) tag)"
      using "1.IH" [OF _ refl False] r(1) "1.prems" by simp_all
    have "{o'. start \<le> o' \<and> o' < MAX_HOP \<and> key_fp_tag (ht (slot idx o')) = tag} =
        insert ?r {o'. ?r + 1 \<le> o' \<and> o' < MAX_HOP \<and> key_fp_tag (ht (slot idx o')) = tag}"
      using r by force
    with ih show ?thesis by (auto simp: p)
  qed
qed

lemma hop_set_new:
  fixes req :: ptr and h :: "hop_params handler"
  defines "r \<equiv> req_arr h req"
  assumes env: "index_env (Suc (Suc k)) h" and buf: "req_buf req h b" and p: "params r = None"
    and key: "Suc (unat (klen (rkey r))) \<le> unat (vlen (rvalue r))" and sz: "unat (vlen (rvalue r)) < 262144"
    and new: "find_matching_tag (hs_table hs 0) (hop_idx (hash_low (rkey r))) 0 (hop_tag (hash_low (rkey r))) = -1"
    and free: "find_free_entry (hs_table hs 0) (hop_idx (hash_low (rkey r))) = (offset, ht1)" "offset \<noteq> -1"
  shows "\<exists>pba h3. hopscotch_set req hs h =
       Inr (0, set_ht 0 (ht1(slot (hop_idx (hash_low (rkey r))) offset := new_entry r offset pba)) hs, h3) \<and>
     unat pba < 1099511627775 \<and>
     items (ht1(slot (hop_idx (hash_low (rkey r))) offset := new_entry r offset pba)) =
       insert (uint (hop_idx (hash_low (rkey r))), hop_tag (hash_low (rkey r)),
               of_nat (unat (vlen (rvalue r)) div GRAIN_UNIT), ucast pba) (items (hs_table hs 0)) \<and>
     stored_at h3 pba (unat (vlen (rvalue r)) div GRAIN_UNIT * GRAIN_UNIT) (with_key (rkey r) (bdat b)) \<and>
     acks h3 = acks h @ [ack_of (clock h) r] \<and> q_list (req_pool h3) = q_list (req_pool h) @ [req] \<and>
     cells (mem h3) (vvalue (rvalue r)) = None \<and>
     (\<forall>p c. cells (mem h) p = Some c \<and> p \<noteq> vvalue (rvalue r) \<and> p \<noteq> staged_seg_buf (dev h) \<longrightarrow>
        cells (mem h3) p = Some c \<and> p \<noteq> staged_seg_buf (dev h3)) \<and>
     (\<forall>q. q \<noteq> req \<longrightarrow> req_arr h3 q = req_arr h q) \<and>
     staged_ok h3 \<and> pools_hold k h3 \<and> q_inv (req_pool h3) \<and> m_size (req_pool h3) = m_size (req_pool h) \<and> clock h3 = clock h \<and>
     (\<forall>k. mmap_ok h3 k) \<and> unat (nr_segment (dev h3)) < 2 ^ 26 \<and> retry_q h3 = retry_q h"
proof -
  let ?h1 = "set_params req make_hop_params h"
  let ?hs = "set_ht 0 ht1 hs"
  let ?r1 = "req_arr ?h1 req"
  have r1: "rkey ?r1 = rkey r" "rvalue ?r1 = rvalue r" "ack_of (clock h) ?r1 = ack_of (clock h) r"
    "new_entry ?r1 offset = new_entry r offset"
    by (simp_all add: set_params_def r_def ack_of_def new_entry_def fun_eq_iff)
  have frame: "acks ?h1 = acks h" "req_pool ?h1 = req_pool h" "mem ?h1 = mem h" "dev ?h1 = dev h" "clock ?h1 = clock h"
    "retry_q ?h1 = retry_q h"
    by (simp_all add: set_params_def)
  have env1: "index_env (Suc (Suc k)) ?h1" "req_buf req ?h1 b"
    using env buf by (simp_all add: index_env_def req_buf_def set_params_def staged_ok_def pools_hold_def)
  have sets: "hopscotch_set req hs h = hop_store req offset ?hs ?h1"
    using p new free by (simp add: hopscotch_set_def hop_ensure_params_def hop_insert_from_def Let_def make_hop_params_def
        set_params_def r_def)
  obtain pba h3 where st: "hop_store req offset ?hs ?h1 =
       Inr (0, set_ht 0 ((hs_table ?hs 0)(slot (hop_idx (hash_low (rkey r))) offset := new_entry r offset pba)) ?hs, h3)"
    "unat pba < 1099511627775"
    "stored_at h3 pba (unat (vlen (rvalue r)) div GRAIN_UNIT * GRAIN_UNIT) (with_key (rkey r) (bdat b))"
    "acks h3 = acks h @ [ack_of (clock h) r]" "q_list (req_pool h3) = q_list (req_pool h) @ [req]"
    "cells (mem h3) (vvalue (rvalue r)) = None"
    "\<forall>p c. cells (mem h) p = Some c \<and> p \<noteq> vvalue (rvalue r) \<and> p \<noteq> staged_seg_buf (dev h) \<longrightarrow>
        cells (mem h3) p = Some c \<and> p \<noteq> staged_seg_buf (dev h3)"
    "req_arr h3 = (req_arr ?h1)(req := ?r1\<lparr>rsw := sw_end (clock h) (rsw ?r1)\<rparr>)"
    "staged_ok h3" "pools_hold k h3" "q_inv (req_pool h3)" "m_size (req_pool h3) = m_size (req_pool h)" "clock h3 = clock h"
    "\<forall>k. mmap_ok h3 k" "unat (nr_segment (dev h3)) < 2 ^ 26" "retry_q h3 = retry_q h"
    using hop_store_ok [OF env1, of offset ?hs, unfolded frame, unfolded r1, OF key sz] by blast
  have "0 \<le> offset" "offset < MAX_HOP" using find_free_entry_spec [OF free(1)] free(2) by simp_all
  then have ne: "hpba (new_entry r offset pba) \<noteq> PBA_INVALID" "uint (neigh_off (new_entry r offset pba)) = offset"
    using pba_field(2) [OF st(2)] unat_off [of offset] by (simp_all add: new_entry_def)
  have "set_ht 0 ((hs_table ?hs 0)(s := x)) ?hs = set_ht 0 (ht1(s := x)) hs" for s x by (simp add: set_ht_def)
  moreover have "\<forall>q. q \<noteq> req \<longrightarrow> req_arr h3 q = req_arr h q" using st(8) by (simp add: set_params_def)
  ultimately show ?thesis
    using sets st(1-7,9-16) insert_items [OF free hop_idx_lt ne] by (simp add: new_entry_def) blast
qed

lemma slot_inj:
  assumes "uint idx < int NR_ENTRY" and "0 \<le> a" "a < MAX_HOP" and "0 \<le> b" "b < MAX_HOP" and "slot idx a = slot idx b"
  shows "a = b"
proof -
  have "(uint idx + a) mod int NR_ENTRY = (uint idx + b) mod int NR_ENTRY"
    using slot_nat [OF assms(1-3)] slot_nat [OF assms(1,4,5)] assms(6) by simp
  then have "int NR_ENTRY dvd a - b" by (simp add: mod_eq_dvd_iff)
  moreover have "\<bar>a - b\<bar> < int NR_ENTRY" using assms(2-5) by (simp add: hop_config)
  ultimately show ?thesis using dvd_imp_le_int [of "a - b" "int NR_ENTRY"] by fastforce
qed

text \<open>Moving entries brings no new tag into a neighbourhood.\<close>

lemma find_free_entry_tag:
  assumes "find_free_entry ht idx = (offset, ht1)" and "\<forall>o'. 0 \<le> o' \<and> o' < MAX_HOP \<longrightarrow> key_fp_tag (ht (slot idx o')) \<noteq> tag"
    and "0 \<le> a" and "a < MAX_HOP"
  shows "key_fp_tag (ht1 (slot idx a)) \<noteq> tag"
proof (cases "first_free ht idx 0 = -1")
  case True
  with assms(1) have mf: "make_free ht idx (MAX_HOP - 1) = (offset, ht1)" by (simp add: find_free_entry_def)
  show ?thesis
  proof (cases "offset = -1")
    case False
    from make_free_spec [OF mf] False obtain d i where "0 \<le> offset" "offset < MAX_HOP"
      "ht1 = ht(i := (ht (slot idx offset))\<lparr>neigh_off := ucast (of_int d :: u8)\<rparr>)" by auto
    with assms(2-4) show ?thesis by simp
  qed (use make_free_spec [OF mf] assms(2-4) in simp)
qed (use assms in \<open>simp add: find_free_entry_def\<close>)

lemma find_new_entry:
  assumes idx: "uint idx < int NR_ENTRY" and new: "find_matching_tag ht idx 0 tag = -1"
    and free: "find_free_entry ht idx = (offset, ht1)" "offset \<noteq> -1" and e: "key_fp_tag e = tag"
  shows "find_matching_tag (ht1(slot idx offset := e)) idx 0 tag = offset"
proof -
  let ?ht = "ht1(slot idx offset := e)"
  have off: "0 \<le> offset" "offset < MAX_HOP" using find_free_entry_spec [OF free(1)] free(2) by simp_all
  have "\<forall>o'. 0 \<le> o' \<and> o' < MAX_HOP \<longrightarrow> key_fp_tag (ht (slot idx o')) \<noteq> tag"
    using find_matching_tag_spec [OF _ new] by simp
  then have no: "key_fp_tag (ht1 (slot idx a)) \<noteq> tag" if "0 \<le> a" "a < MAX_HOP" for a
    using find_free_entry_tag [OF free(1)] that by blast
  let ?r = "find_matching_tag ?ht idx 0 tag"
  have "?r \<noteq> -1" using find_matching_tag_spec [of 0 ?ht idx tag, OF _ refl] off e by (auto split: if_splits)
  then have r: "0 \<le> ?r" "?r < MAX_HOP" "key_fp_tag (?ht (slot idx ?r)) = tag"
    using find_matching_tag_spec [of 0 ?ht idx tag, OF _ refl] by simp_all
  then have "slot idx ?r = slot idx offset" using no [OF r(1,2)] by (auto split: if_splits)
  with slot_inj [OF idx r(1,2) off] show ?thesis by simp
qed

lemma hop_get_hit:
  fixes req :: ptr and h :: "hop_params handler"
  defines "r \<equiv> req_arr h req"
  assumes st: "staged_ok h" "pools_hold (Suc k) h"
    and pool: "q_inv (req_pool h)" "int (length (q_list (req_pool h))) < m_size (req_pool h)"
    and buf: "req_buf req h b" and ty: "rtype r = REQ_TYPE_GET" and p: "params r = None"
    and f: "find_matching_tag (hs_table hs 0) (hop_idx (hash_low (rkey r))) 0 (hop_tag (hash_low (rkey r))) = offset" "offset \<noteq> -1"
    and e: "hs_table hs 0 (slot (hop_idx (hash_low (rkey r))) offset) = e"
    and stored: "stored_at h (ucast (hpba e)) (unat (hkv_size e) * GRAIN_UNIT) (with_key (rkey r) g)"
    and key: "Suc (unat (klen (rkey r))) \<le> unat (hkv_size e) * GRAIN_UNIT" and fit: "unat (hkv_size e) * GRAIN_UNIT \<le> blen b"
  shows "\<exists>h3. hopscotch_get req hs h = Inr (0, hs, h3) \<and> acks h3 = acks h @ [ack_of (clock h) r] \<and>
     q_list (req_pool h3) = q_list (req_pool h) @ [req] \<and> cells (mem h3) (vvalue (rvalue r)) = None"
proof -
  let ?h1 = "set_params req make_hop_params h"
  let ?r1 = "req_arr ?h1 req"
  have r1: "rkey ?r1 = rkey r" "rvalue ?r1 = rvalue r" "ack_of (clock h) ?r1 = ack_of (clock h) r" "rtype ?r1 = rtype r"
    "params ?r1 = Some make_hop_params"
    by (simp_all add: set_params_def r_def ack_of_def)
  have frame: "acks ?h1 = acks h" "req_pool ?h1 = req_pool h" "mem ?h1 = mem h" "dev ?h1 = dev h" "clock ?h1 = clock h"
    by (simp_all add: set_params_def)
  have pre: "staged_ok ?h1" "pools_hold (Suc k) ?h1" "req_buf req ?h1 b"
    "stored_at ?h1 (ucast (hpba e)) (unat (hkv_size e) * GRAIN_UNIT) (with_key (rkey r) g)"
    using st buf stored by (simp_all add: set_params_def staged_ok_def pools_hold_def req_buf_def stored_at_def)
  have "hopscotch_get req hs h = hop_read req offset hs ?h1"
    using p f by (simp add: hopscotch_get_def hop_ensure_params_def Let_def make_hop_params_def set_params_def r_def)
  with hop_read_hit [OF pre(1,2), unfolded frame, OF pool pre(3), unfolded r1, OF ty refl e pre(4) key fit] r1(5) show ?thesis
    by simp
qed

text \<open>
  A SET that finds its key: the comparison succeeds, the request is queued again, and its value
  buffer now holds what was read.
\<close>

lemma hop_read_set:
  fixes req :: ptr and h :: "hop_params handler"
  defines "r \<equiv> req_arr h req"
  assumes env: "index_env (Suc k) h" and rq: "q_inv (retry_q h)" and ty: "rtype r = REQ_TYPE_SET" and p: "params r = Some p"
    and buf: "req_buf req h b" and e: "hs_table hs 0 (slot (hop_idx (hash_low (rkey r))) offset) = e"
    and stored: "stored_at h (ucast (hpba e)) (unat (hkv_size e) * GRAIN_UNIT) (with_key (rkey r) f)"
    and key: "Suc (unat (klen (rkey r))) \<le> unat (hkv_size e) * GRAIN_UNIT" and fit: "unat (hkv_size e) * GRAIN_UNIT \<le> blen b"
  shows "\<exists>h3 b3. hop_read req offset hs h = Inr (0, hs, h3) \<and> index_env k h3 \<and> req_buf req h3 b3 \<and>
     (\<forall>j < unat (hkv_size e) * GRAIN_UNIT. bdat b3 j = with_key (rkey r) f j) \<and>
     req_arr h3 req = r\<lparr>params := Some (p\<lparr>hp_offset := offset, insert_step := HOP_STEP_KEY_MATCH\<rparr>)\<rparr> \<and>
     acks h3 = acks h \<and> clock h3 = clock h"
proof -
  let ?v = "vvalue (rvalue r)"
  have st: "staged_ok h" "pools_hold (Suc k) h" using env by (simp_all add: index_env_def)
  obtain cb rest q b3 where c: "q_list (cb_pool h) = cb # rest" "cb \<noteq> NULL" "q_inv q" "q_list q = rest" "blen b3 = blen b"
    "hop_read req offset hs h = ebind (hop_cb_keycmp req (compared req offset p cb q b3 h)) (\<lambda>h1.
       ebind (q_enqueue cb (cb_pool h1)) (\<lambda>(_, q'). Inr (0, hs, h1\<lparr>cb_pool := q'\<rparr>)))"
    and bytes: "\<forall>j < unat (hkv_size e) * GRAIN_UNIT. bdat b3 j = with_key (rkey r) f j"
    and cmp: "keycmp_k_v (rkey r) (rvalue r) (mem (compared req offset p cb q b3 h)) = Inr 0"
    using hop_read_compares [OF st buf p [unfolded r_def] e [unfolded r_def] stored [unfolded r_def] key [unfolded r_def] fit]
    unfolding r_def by blast
  obtain x q3 where q3: "q_enqueue req (retry_q h) = Inr (x, q3)" using lq.enq_total [OF rq, of req] by auto
  obtain y q4 where q4: "q_enqueue cb q = Inr (y, q4)" "q_inv q4" "q_list q4 = (if y then rest @ [cb] else rest)"
    using lq.enq_total [OF c(3), of cb] c(4) by auto
  define h3 where "h3 = (set_params req (p\<lparr>hp_offset := offset, insert_step := HOP_STEP_KEY_MATCH\<rparr>)
      (compared req offset p cb q b3 h))\<lparr>retry_q := q3, cb_pool := q4\<rparr>"
  have "hop_read req offset hs h = Inr (0, hs, h3)"
    using c(6) q3 q4(1) cmp ty
    by (simp add: hop_cb_keycmp_def Let_def r_def set_params_def retry_req_def retry_req_to_hlr_def h3_def)
  moreover have "index_env k h3" "req_buf req h3 b3"
    using env buf q4(2,3) c(1,2,5)
    by (auto simp: index_env_def h3_def set_params_def compared_def staged_ok_def mem_wf_def pools_hold_def req_buf_def)
  moreover have "req_arr h3 req = r\<lparr>params := Some (p\<lparr>hp_offset := offset, insert_step := HOP_STEP_KEY_MATCH\<rparr>)\<rparr>"
    "acks h3 = acks h" "clock h3 = clock h"
    by (simp_all add: h3_def set_params_def r_def)
  ultimately show ?thesis using bytes by blast
qed

subsection \<open>Properties\<close>

text \<open>
  C14: making room never loses a pair. Whatever the table holds, when \<open>find_free_entry\<close> finds or makes a free
  slot in the 32 slots after the home, the set of stored items is the same before and after, and
  filling the slot adds exactly the new item; it fails only when all 32 slots are occupied
  and none of their entries can be moved further within its own neighbourhood, and then changes nothing.
\<close>

theorem hop_insert_preserves_items:
  assumes "find_free_entry ht idx = (offset, ht1)" and "uint idx < int NR_ENTRY"
  shows "(offset \<noteq> -1 \<longrightarrow> 0 \<le> offset \<and> offset < MAX_HOP \<and> items ht1 = items ht \<and>
       (\<forall>tag sz pba. (ucast (pba :: u64) :: 40 word) \<noteq> PBA_INVALID \<longrightarrow>
          items (fill_entry ht1 (slot idx offset) (of_int offset) tag sz pba) =
            insert (uint idx, tag, ucast sz, ucast pba) (items ht))) \<and>
     (offset = -1 \<longrightarrow> ht1 = ht \<and> (\<forall>o'. 0 \<le> o' \<and> o' < MAX_HOP \<longrightarrow>
          hpba (ht (slot idx o')) \<noteq> PBA_INVALID \<and> stuck ht (slot idx o')))"
proof (intro conjI impI allI)
  assume o: "offset \<noteq> -1"
  then show "0 \<le> offset" "offset < MAX_HOP" "items ht1 = items ht"
    using find_free_entry_spec [OF assms(1)] by simp_all
  fix tag and sz :: u16 and pba :: u64 assume "(ucast pba :: 40 word) \<noteq> PBA_INVALID"
  with insert_items [OF assms(1) o assms(2), of "\<lparr>neigh_off = ucast (of_int offset :: u8), key_fp_tag = tag, hkv_size = ucast sz, hpba = ucast pba\<rparr>"]
    unat_off [OF \<open>0 \<le> offset\<close> \<open>offset < MAX_HOP\<close>]
  show "items (fill_entry ht1 (slot idx offset) (of_int offset) tag sz pba) =
      insert (uint idx, tag, ucast sz, ucast pba) (items ht)" by (simp add: fill_entry_def)
qed (use find_free_entry_spec [OF assms(1)] in simp_all)

text \<open>A full neighbourhood of entries that all can move by one slot, and a free slot after it.\<close>

definition crowded :: hop_table where
  "crowded i = \<lparr>neigh_off = 0, key_fp_tag = 9, hkv_size = 1, hpba = if i < 32 then of_nat i else PBA_INVALID\<rparr>"

lemma crowded_slots: "0 \<le> o' \<Longrightarrow> o' < MAX_HOP \<Longrightarrow> slot 0 o' = nat o'"
  by (simp add: slot_shift hop_config)

theorem hop_insert_preserves_items_witness:
  "\<exists>offset ht1. find_free_entry crowded 0 = (offset, ht1) \<and> offset \<noteq> -1 \<and> items ht1 = items crowded \<and>
     items (fill_entry ht1 (slot 0 offset) (of_int offset) 7 4 99) = insert (0, 7, 4, 99) (items crowded)"
proof -
  obtain offset ht1 where f: "find_free_entry crowded 0 = (offset, ht1)" by fastforce
  have "\<not> stuck crowded (slot 0 31)"
    by (auto simp: stuck_def crowded_slots hop_config home_def crowded_def intro!: exI [of _ 1])
  then have "offset \<noteq> -1" using find_free_entry_spec [OF f] by (auto simp: MAX_HOP_def)
  moreover have "(ucast (99 :: u64) :: 40 word) \<noteq> PBA_INVALID" by (simp add: PBA_INVALID_def)
  ultimately show ?thesis using hop_insert_preserves_items [OF f] f by (simp add: hop_config)
qed

text \<open>
  A lookup finds every pair. The offsets a GET or SET reads one after the other, as long as the
  keys differ, are strictly increasing, at most 32, and include the slot of every stored item with the
  home and the tag of the key.
\<close>

theorem hop_probe_complete:
  assumes "(uint idx, tag, sz, pba) \<in> items ht"
  shows "\<exists>offset \<in> set (probes ht idx 0 tag). hkv_size (ht (slot idx offset)) = sz \<and> hpba (ht (slot idx offset)) = pba \<and>
     sorted_wrt (<) (probes ht idx 0 tag) \<and> length (probes ht idx 0 tag) \<le> 32"
proof -
  from assms obtain i where i: "i < NR_ENTRY" "home i (ht i) = uint idx" "key_fp_tag (ht i) = tag"
    "hkv_size (ht i) = sz" "hpba (ht i) = pba" by (auto simp: items_def)
  from slot_of_home [OF i(1,2)] have s: "i = slot idx (uint (neigh_off (ht i)))" .
  have pr: "set (probes ht idx 0 tag) = {o'. 0 \<le> o' \<and> o' < MAX_HOP \<and> key_fp_tag (ht (slot idx o')) = tag}"
    "sorted_wrt (<) (probes ht idx 0 tag)"
    using probes_set [of 0 ht idx tag] by simp_all
  from s i(3) have o: "uint (neigh_off (ht i)) \<in> set (probes ht idx 0 tag)" unfolding pr(1) by simp
  have "set (probes ht idx 0 tag) \<subseteq> {0..<32}" unfolding pr(1) by (auto simp: MAX_HOP_def)
  then have "card (set (probes ht idx 0 tag)) \<le> 32" using card_mono [of "{0..<32 :: int}"] by fastforce
  moreover have "distinct (probes ht idx 0 tag)" using pr(2) strict_sorted_iff by blast
  ultimately have "length (probes ht idx 0 tag) \<le> 32" by (simp add: distinct_card)
  then show ?thesis using pr(2) s [symmetric] i(4,5) by (intro bexI [OF _ o]) simp
qed

theorem hop_probe_complete_witness:
  "\<exists>offset \<in> set (probes crowded 3 0 9). hpba (crowded (slot 3 offset)) = 3 \<and> length (probes crowded 3 0 9) \<le> 32"
proof -
  have "(uint (3 :: u32), 9, 1, 3) \<in> items crowded"
    by (auto simp: items_def crowded_def home_def hop_config PBA_INVALID_def intro!: exI [of _ 3])
  from hop_probe_complete [OF this] show ?thesis by blast
qed

text \<open>
  C15: a SET without a matching tag. When no slot of the neighbourhood, free ones included, has the tag of the key and a slot can be
  had, \<open>hopscotch_set\<close> returns 0 with exactly one more item in the index, whose address is that of the
  pair it wrote: the staged segment holds there the key length, the key and then the value, for every whole grain of the
  value; the request is acknowledged once, its buffer freed and itself returned to the pool.
\<close>

theorem hop_set_stores:
  fixes h :: "hop_params handler"
  assumes "index_env (Suc (Suc k)) h" and "req_buf req h b" and "req_arr h req = r" and "params r = None"
    and "Suc (unat (klen (rkey r))) \<le> unat (vlen (rvalue r))" and "unat (vlen (rvalue r)) < 262144"
    and "hop_idx (hash_low (rkey r)) = idx" and "hop_tag (hash_low (rkey r)) = tag"
    and "find_matching_tag (hs_table hs 0) idx 0 tag = -1"
    and "find_free_entry (hs_table hs 0) idx = (offset, ht1)" and "offset \<noteq> -1"
  shows "\<exists>hs' h' pba. hopscotch_set req hs h = Inr (0, hs', h') \<and>
     items (hs_table hs' 0) =
       insert (uint idx, tag, of_nat (unat (vlen (rvalue r)) div GRAIN_UNIT), ucast pba) (items (hs_table hs 0)) \<and>
     stored_at h' pba (unat (vlen (rvalue r)) div GRAIN_UNIT * GRAIN_UNIT) (with_key (rkey r) (bdat b)) \<and>
     acks h' = acks h @ [ack_of (clock h) r] \<and> q_list (req_pool h') = q_list (req_pool h) @ [req] \<and>
     cells (mem h') (vvalue (rvalue r)) = None \<and> staged_ok h' \<and> pools_hold k h'"
proof -
  obtain pba h3 where s: "hopscotch_set req hs h = Inr (0, set_ht 0 (ht1(slot idx offset := new_entry r offset pba)) hs, h3)"
    "items (ht1(slot idx offset := new_entry r offset pba)) =
       insert (uint idx, tag, of_nat (unat (vlen (rvalue r)) div GRAIN_UNIT), ucast pba) (items (hs_table hs 0))"
    "stored_at h3 pba (unat (vlen (rvalue r)) div GRAIN_UNIT * GRAIN_UNIT) (with_key (rkey r) (bdat b)) \<and>
     acks h3 = acks h @ [ack_of (clock h) r] \<and> q_list (req_pool h3) = q_list (req_pool h) @ [req] \<and>
     cells (mem h3) (vvalue (rvalue r)) = None \<and> staged_ok h3 \<and> pools_hold k h3"
    using hop_set_new [OF assms(1,2), unfolded assms(3,7,8), OF assms(4-6,9-11)] by blast
  moreover have "hs_table (set_ht 0 ht hs) 0 = ht" for ht by (simp add: set_ht_def)
  ultimately show ?thesis by metis
qed

lemma find_tag_init: "tag \<noteq> 0 \<Longrightarrow> find_matching_tag (hs_table hopscotch_init 0) idx 0 tag = -1"
  using find_matching_tag_spec [of 0 "hs_table hopscotch_init 0" idx tag, OF _ refl]
  by (auto simp: hopscotch_init_def free_hop_entry_def split: if_splits)

lemma find_free_init: "find_free_entry (hs_table hopscotch_init 0) idx = (0, hs_table hopscotch_init 0)"
proof -
  have "first_free (hs_table hopscotch_init 0) idx 0 = 0"
    by (subst first_free.simps) (simp add: MAX_HOP_def hopscotch_init_def free_hop_entry_def)
  then show ?thesis by (simp add: find_free_entry_def)
qed

lemma hop_tag_sample: "hop_tag (0x8000005) = 1" "hop_idx 0x8000005 = 5"
  by (simp_all add: hop_tag_def hop_idx_def IDX_BIT_def mask_eq_exp_minus_1)

theorem hop_set_stores_witness:
  "\<exists>(h :: hop_params handler) hs' h' pba. hopscotch_set 1 hopscotch_init h = Inr (0, hs', h') \<and>
     items (hs_table hs' 0) = {(5, 1, 8, ucast pba)} \<and>
     stored_at h' pba 1024 (with_key (rkey (req_arr h 1)) (\<lambda>_. 0)) \<and> length (acks h') = 1"
proof -
  obtain h :: "hop_params handler" and ba where h: "index_env QSIZE h" "req_buf 1 h ba" "bdat ba = (\<lambda>_. 0)"
    "unat (vlen (rvalue (req_arr h 1))) = 1024" "params (req_arr h 1) = None" "klen (rkey (req_arr h 1)) = 2"
    "hash_low (rkey (req_arr h 1)) = 0x8000005" "acks h = []"
    using ex_set_and_get [where 'p = hop_params and ty = REQ_TYPE_GET and C = "\<lambda>_. (0x8000005, 0)"] by auto
  have e: "index_env (Suc (Suc 0)) h" using h(1) by (auto simp: index_env_def config_defs intro: pools_hold_mono)
  have "items (hs_table hopscotch_init 0) = {}" by (simp add: items_def hopscotch_init_def free_hop_entry_def)
  with hop_set_stores [OF e h(2) refl h(5), of 5 1 hopscotch_init 0 "hs_table hopscotch_init 0"] h hop_tag_sample
    find_tag_init find_free_init
  show ?thesis by (auto simp: GRAIN_UNIT_def intro!: exI [of _ h])
qed

text \<open>
  C16: what is set can be got. After a SET of a key whose tag no slot of the neighbourhood had, free ones included, a GET of the same key (the same bytes, hence
  the same hash) with a buffer that holds the pair finds the new entry, reads the pair and
  is acknowledged, as the second acknowledgement after the one of the SET.
\<close>

theorem hop_set_get_roundtrip:
  fixes h :: "hop_params handler"
  assumes env: "index_env (Suc (Suc (Suc k))) h" "int (length (q_list (req_pool h))) + 1 < m_size (req_pool h)"
    and a: "req_buf a h ba" "req_arr h a = ra" "params ra = None" "unat (vlen (rvalue ra)) < 262144"
    and b: "req_buf b h bb" "req_arr h b = rb" "params rb = None" "rtype rb = REQ_TYPE_GET"
    and ab: "a \<noteq> b" "vvalue (rvalue ra) \<noteq> vvalue (rvalue rb)"
    and same: "klen (rkey rb) = klen (rkey ra)" "\<forall>i < unat (klen (rkey ra)). kkey (rkey rb) i = kkey (rkey ra) i"
      "hash_low (rkey rb) = hash_low (rkey ra)"
    and fit: "Suc (unat (klen (rkey ra))) \<le> unat (vlen (rvalue ra)) div GRAIN_UNIT * GRAIN_UNIT"
      "unat (vlen (rvalue ra)) div GRAIN_UNIT * GRAIN_UNIT \<le> blen bb"
    and new: "find_matching_tag (hs_table hs 0) (hop_idx (hash_low (rkey ra))) 0 (hop_tag (hash_low (rkey ra))) = -1"
    and free: "find_free_entry (hs_table hs 0) (hop_idx (hash_low (rkey ra))) = (offset, ht1)" "offset \<noteq> -1"
  shows "\<exists>hs1 h1 h2. hopscotch_set a hs h = Inr (0, hs1, h1) \<and> hopscotch_get b hs1 h1 = Inr (0, hs1, h2) \<and>
     acks h2 = acks h @ [ack_of (clock h) ra, ack_of (clock h) rb]"
proof -
  let ?idx = "hop_idx (hash_low (rkey ra))" and ?tag = "hop_tag (hash_low (rkey ra))"
  have key: "Suc (unat (klen (rkey ra))) \<le> unat (vlen (rvalue ra))"
    using fit(1) div_times_less_eq_dividend [of "unat (vlen (rvalue ra))" GRAIN_UNIT] by linarith
  obtain pba h1 where s: "hopscotch_set a hs h = Inr (0, set_ht 0 (ht1(slot ?idx offset := new_entry ra offset pba)) hs, h1)"
    "unat pba < 1099511627775"
    "stored_at h1 pba (unat (vlen (rvalue ra)) div GRAIN_UNIT * GRAIN_UNIT) (with_key (rkey ra) (bdat ba))"
    "acks h1 = acks h @ [ack_of (clock h) ra]" "q_list (req_pool h1) = q_list (req_pool h) @ [a]"
    "\<forall>p c. cells (mem h) p = Some c \<and> p \<noteq> vvalue (rvalue ra) \<and> p \<noteq> staged_seg_buf (dev h) \<longrightarrow>
        cells (mem h1) p = Some c \<and> p \<noteq> staged_seg_buf (dev h1)"
    "\<forall>q. q \<noteq> a \<longrightarrow> req_arr h1 q = req_arr h q" "staged_ok h1" "pools_hold (Suc k) h1" "q_inv (req_pool h1)"
    "m_size (req_pool h1) = m_size (req_pool h)" "clock h1 = clock h"
    using hop_set_new [OF env(1) a(1), unfolded a(2), OF a(3) key a(4) new free] by blast
  let ?hs1 = "set_ht 0 (ht1(slot ?idx offset := new_entry ra offset pba)) hs"
  let ?e = "new_entry ra offset pba"
  have e: "(ucast (hpba ?e) :: u64) = pba" "unat (hkv_size ?e) = unat (vlen (rvalue ra)) div GRAIN_UNIT" "key_fp_tag ?e = ?tag"
    using pba_field(1) [OF s(2)] a(4) by (simp_all add: new_entry_def unat_of_nat GRAIN_UNIT_def)
  have b1: "req_arr h1 b = rb" "req_buf b h1 bb" using s(6,7) ab b(1,2) by (auto simp: req_buf_def)
  have tbl: "hs_table ?hs1 0 (slot ?idx offset) = ?e" by (simp add: set_ht_def)
  have find: "find_matching_tag (hs_table ?hs1 0) ?idx 0 ?tag = offset"
    using find_new_entry [OF hop_idx_lt new free e(3)] by (simp add: set_ht_def)
  have wk: "with_key (rkey rb) f = with_key (rkey ra) f" for f using same(1,2) by (auto simp: with_key_def fun_eq_iff)
  have room: "int (length (q_list (req_pool h1))) < m_size (req_pool h1)" using env(2) s(5,11) by simp
  have "\<exists>h3. hopscotch_get b ?hs1 h1 = Inr (0, ?hs1, h3) \<and> acks h3 = acks h1 @ [ack_of (clock h1) rb] \<and>
     q_list (req_pool h3) = q_list (req_pool h1) @ [b] \<and> cells (mem h3) (vvalue (rvalue rb)) = None"
    by (rule hop_get_hit [OF s(8-10) room b1(2), unfolded b1(1), OF b(4,3), of ?hs1 offset ?e "bdat ba"])
      (use find tbl free(2) same(1,3) e s(3) fit wk in simp_all)
  with s(1,4,12) show ?thesis by auto
qed

theorem hop_set_get_roundtrip_witness:
  "\<exists>(h :: hop_params handler) hs1 h1 h2. hopscotch_set 1 hopscotch_init h = Inr (0, hs1, h1) \<and>
     hopscotch_get 2 hs1 h1 = Inr (0, hs1, h2) \<and> acks h = [] \<and> length (acks h2) = 2"
proof -
  obtain h :: "hop_params handler" and ba bb where h: "index_env QSIZE h" "int (length (q_list (req_pool h))) + 1 < m_size (req_pool h)"
    "req_buf 1 h ba" "req_buf 2 h bb" "blen bb = 4096" "unat (vlen (rvalue (req_arr h 1))) = 1024"
    "params (req_arr h 1) = None" "params (req_arr h 2) = None" "rtype (req_arr h 2) = REQ_TYPE_GET"
    "klen (rkey (req_arr h 1)) = 2" "klen (rkey (req_arr h 2)) = 2"
    "\<forall>i < 2. kkey (rkey (req_arr h 1)) i = kkey (rkey (req_arr h 2)) i"
    "hash_low (rkey (req_arr h 1)) = 0x8000005" "hash_low (rkey (req_arr h 2)) = 0x8000005"
    "vvalue (rvalue (req_arr h 1)) \<noteq> vvalue (rvalue (req_arr h 2))" "acks h = []"
    using ex_set_and_get [where 'p = hop_params and ty = REQ_TYPE_GET and C = "\<lambda>_. (0x8000005, 0)"] by auto
  have e: "index_env (Suc (Suc (Suc 0))) h" using h(1) by (auto simp: index_env_def config_defs intro: pools_hold_mono)
  have "\<exists>hs1 h1 h2. hopscotch_set 1 hopscotch_init h = Inr (0, hs1, h1) \<and> hopscotch_get 2 hs1 h1 = Inr (0, hs1, h2) \<and>
     acks h2 = acks h @ [ack_of (clock h) (req_arr h 1), ack_of (clock h) (req_arr h 2)]"
    by (rule hop_set_get_roundtrip [OF e h(2,3) refl h(7) _ h(4) refl h(8,9) _ h(15), of hopscotch_init 0 "hs_table hopscotch_init 0"])
      (use h find_tag_init find_free_init hop_tag_sample in \<open>simp_all add: GRAIN_UNIT_def\<close>)
  then obtain hs1 h1 h2 where "hopscotch_set 1 hopscotch_init h = Inr (0, hs1, h1)" "hopscotch_get 2 hs1 h1 = Inr (0, hs1, h2)"
     "acks h2 = acks h @ [ack_of (clock h) (req_arr h 1), ack_of (clock h) (req_arr h 2)]" by blast
  then show ?thesis using h(16) by (intro exI [of _ h] exI [of _ hs1] exI [of _ h1] exI [of _ h2]) simp
qed

text \<open>
  The branches that do not store. A GET whose tag is nowhere in the neighbourhood returns 1 without
  touching the device, and a SET for which no slot can be freed aborts the server.
\<close>

theorem hop_miss_and_full:
  fixes h :: "hop_params handler"
  assumes "req_arr h req = r" and "params r = None" and "hop_idx (hash_low (rkey r)) = idx" and "hop_tag (hash_low (rkey r)) = tag"
    and "\<forall>o'. 0 \<le> o' \<and> o' < MAX_HOP \<longrightarrow> key_fp_tag (hs_table hs 0 (slot idx o')) \<noteq> tag"
  shows "hopscotch_get req hs h = Inr (1, hs, set_params req make_hop_params h) \<and>
     ((\<forall>o'. 0 \<le> o' \<and> o' < MAX_HOP \<longrightarrow> hpba (hs_table hs 0 (slot idx o')) \<noteq> PBA_INVALID \<and> stuck (hs_table hs 0) (slot idx o')) \<longrightarrow>
       hopscotch_set req hs h = Inl Abort)"
proof -
  have none: "find_matching_tag (hs_table hs 0) idx 0 tag = -1"
    using find_matching_tag_spec [of 0 "hs_table hs 0" idx tag, OF _ refl] assms(5) by (auto split: if_splits)
  have "fst (find_free_entry (hs_table hs 0) idx) = -1"
    if "\<forall>o'. 0 \<le> o' \<and> o' < MAX_HOP \<longrightarrow> hpba (hs_table hs 0 (slot idx o')) \<noteq> PBA_INVALID \<and> stuck (hs_table hs 0) (slot idx o')"
  proof (rule ccontr)
    let ?ht = "hs_table hs 0"
    assume n: "fst (find_free_entry ?ht idx) \<noteq> -1"
    have ff: "first_free ?ht idx 0 = -1"
      using first_free_spec [of 0 ?ht idx, OF _ refl] that by (auto split: if_splits)
    obtain off ht1 where mf: "make_free ?ht idx (MAX_HOP - 1) = (off, ht1)" by fastforce
    with ff n have "off \<noteq> -1" by (simp add: find_free_entry_def)
    with make_free_spec [OF mf] that show False by (auto simp: stuck_def)
  qed
  with none assms(1-4) show ?thesis
    by (auto simp: hopscotch_get_def hopscotch_set_def hop_ensure_params_def hop_insert_from_def Let_def make_hop_params_def
        set_params_def split: prod.splits)
qed

theorem hop_miss_and_full_witness:
  "\<exists>h :: hop_params handler. hopscotch_get 2 hopscotch_init h = Inr (1, hopscotch_init, set_params 2 make_hop_params h)"
proof -
  obtain h :: "hop_params handler" where "params (req_arr h 2) = None" "hash_low (rkey (req_arr h 2)) = 0x8000005"
    using ex_set_and_get [where 'p = hop_params and ty = REQ_TYPE_GET and C = "\<lambda>_. (0x8000005, 0)"] by auto
  with hop_miss_and_full [OF refl, of h 2 5 1 hopscotch_init] hop_tag_sample show ?thesis
    by (auto simp: hopscotch_init_def free_hop_entry_def)
qed

text \<open>
  C17: an update stores the old value. \<open>hopscotch_set\<close> reads the pair an entry with its tag points to
  into the value buffer of the request, to compare the keys; when they are equal, the second pass
  writes that buffer. So the pair stored for the key again begins with the bytes of the old pair, whatever value the
  request carried.
\<close>

theorem hop_update_stores_old_value:
  fixes h :: "hop_params handler"
  assumes env: "index_env (Suc (Suc (Suc k))) h" "q_inv (retry_q h)" and buf: "req_buf req h b"
    and r: "req_arr h req = r" "rtype r = REQ_TYPE_SET" "params r = None"
    and f: "find_matching_tag (hs_table hs 0) (hop_idx (hash_low (rkey r))) 0 (hop_tag (hash_low (rkey r))) = offset" "offset \<noteq> -1"
    and e: "hs_table hs 0 (slot (hop_idx (hash_low (rkey r))) offset) = e"
    and old: "stored_at h (ucast (hpba e)) (unat (hkv_size e) * GRAIN_UNIT) (with_key (rkey r) old_value)"
    and fit: "Suc (unat (klen (rkey r))) \<le> unat (hkv_size e) * GRAIN_UNIT" "unat (hkv_size e) * GRAIN_UNIT \<le> unat (vlen (rvalue r))"
      "unat (vlen (rvalue r)) < 262144"
  shows "\<exists>h1 hs2 h2 pba stored. hopscotch_set req hs h = Inr (0, hs, h1) \<and> hopscotch_set req hs h1 = Inr (0, hs2, h2) \<and>
     hpba (hs_table hs2 0 (slot (hop_idx (hash_low (rkey r))) offset)) = ucast pba \<and>
     stored_at h2 pba (unat (vlen (rvalue r)) div GRAIN_UNIT * GRAIN_UNIT) stored \<and>
     (\<forall>j < unat (hkv_size e) * GRAIN_UNIT. stored j = with_key (rkey r) old_value j)"
proof -
  let ?h0 = "set_params req make_hop_params h"
  let ?r0 = "r\<lparr>params := Some make_hop_params\<rparr>"
  have r0: "req_arr ?h0 req = ?r0" by (simp add: set_params_def r(1))
  have pre: "index_env (Suc (Suc (Suc k))) ?h0" "q_inv (retry_q ?h0)" "req_buf req ?h0 b"
    "stored_at ?h0 (ucast (hpba e)) (unat (hkv_size e) * GRAIN_UNIT) (with_key (rkey r) old_value)"
    using env buf old r(1) by (simp_all add: index_env_def set_params_def staged_ok_def pools_hold_def req_buf_def stored_at_def)
  have bl: "blen b = unat (vlen (rvalue r))" using buf r(1) by (simp add: req_buf_def)
  have first: "hopscotch_set req hs h = hop_read req offset hs ?h0"
    using f r by (simp add: hopscotch_set_def hop_ensure_params_def hop_insert_from_def Let_def make_hop_params_def set_params_def)
  obtain h1 b1 where h1: "hop_read req offset hs ?h0 = Inr (0, hs, h1)" "index_env (Suc (Suc k)) h1" "req_buf req h1 b1"
    "\<forall>j < unat (hkv_size e) * GRAIN_UNIT. bdat b1 j = with_key (rkey r) old_value j"
    "req_arr h1 req = ?r0\<lparr>params := Some (make_hop_params\<lparr>hp_offset := offset, insert_step := HOP_STEP_KEY_MATCH\<rparr>)\<rparr>"
    using hop_read_set [OF pre(1,2), where req = req and p = make_hop_params and b = b and hs = hs and offset = offset
          and e = e and f = old_value, unfolded r0]
      r(2) pre(3,4) e fit bl by auto
  have second: "hopscotch_set req hs h1 = hop_store req offset hs h1"
    by (simp add: hopscotch_set_def hop_ensure_params_def h1(5))
  have key: "Suc (unat (klen (rkey (req_arr h1 req)))) \<le> unat (vlen (rvalue (req_arr h1 req)))"
    "unat (vlen (rvalue (req_arr h1 req))) < 262144"
    using fit by (simp_all add: h1(5))
  obtain pba h2 where h2: "hop_store req offset hs h1 = Inr (0, set_ht 0 ((hs_table hs 0)
      (slot (hop_idx (hash_low (rkey r))) offset := new_entry (req_arr h1 req) offset pba)) hs, h2)"
    "stored_at h2 pba (unat (vlen (rvalue r)) div GRAIN_UNIT * GRAIN_UNIT) (with_key (rkey r) (bdat b1))"
    using hop_store_ok [OF h1(2,3) key, of offset hs] by (auto simp: h1(5))
  have "with_key (rkey r) (bdat b1) j = with_key (rkey r) old_value j" if "j < unat (hkv_size e) * GRAIN_UNIT" for j
    using h1(4) that by (simp add: with_key_def)
  with first second h1(1) h2 show ?thesis
    by (intro exI [of _ h1] exI [of _ "set_ht 0 ((hs_table hs 0)
      (slot (hop_idx (hash_low (rkey r))) offset := new_entry (req_arr h1 req) offset pba)) hs"] exI [of _ h2] exI [of _ pba])
      (auto simp: set_ht_def new_entry_def)
qed

theorem hop_update_stores_old_value_witness:
  "\<exists>(h :: hop_params handler) hs h1 hs2 h2 pba stored. rtype (req_arr h 2) = REQ_TYPE_SET \<and>
     hopscotch_set 2 hs h = Inr (0, hs, h1) \<and> hopscotch_set 2 hs h1 = Inr (0, hs2, h2) \<and>
     stored_at h2 pba 4096 stored \<and> (\<exists>old. \<forall>j < 1024. stored j = with_key (rkey (req_arr h 2)) old j)"
proof -
  obtain h :: "hop_params handler" and ba bb where h: "index_env QSIZE h" "int (length (q_list (req_pool h))) + 1 < m_size (req_pool h)"
    "req_buf 1 h ba" "req_buf 2 h bb" "unat (vlen (rvalue (req_arr h 1))) = 1024" "unat (vlen (rvalue (req_arr h 2))) = 4096"
    "params (req_arr h 1) = None" "params (req_arr h 2) = None" "rtype (req_arr h 2) = REQ_TYPE_SET"
    "klen (rkey (req_arr h 1)) = 2" "klen (rkey (req_arr h 2)) = 2"
    "\<forall>i < 2. kkey (rkey (req_arr h 1)) i = kkey (rkey (req_arr h 2)) i"
    "hash_low (rkey (req_arr h 1)) = 0x8000005" "hash_low (rkey (req_arr h 2)) = 0x8000005"
    "vvalue (rvalue (req_arr h 1)) \<noteq> vvalue (rvalue (req_arr h 2))" "q_inv (retry_q h)"
    using ex_set_and_get [where 'p = hop_params and ty = REQ_TYPE_SET and C = "\<lambda>_. (0x8000005, 0)"] by auto
  have e: "index_env (Suc (Suc (Suc (Suc (Suc 0))))) h" using h(1) by (auto simp: index_env_def config_defs intro: pools_hold_mono)
  let ?ht = "hs_table hopscotch_init 0"
  let ?ra = "req_arr h 1" and ?rb = "req_arr h 2"
  have key: "Suc (unat (klen (rkey ?ra))) \<le> unat (vlen (rvalue ?ra))" "unat (vlen (rvalue ?ra)) < 262144" using h by simp_all
  have nt: "find_matching_tag ?ht (hop_idx (hash_low (rkey ?ra))) 0 (hop_tag (hash_low (rkey ?ra))) = -1"
    using find_tag_init h(13) hop_tag_sample by simp
  obtain pba h1 where s: "stored_at h1 pba 1024 (with_key (rkey ?ra) (bdat ba))" "unat pba < 1099511627775"
    "staged_ok h1" "pools_hold (Suc (Suc (Suc 0))) h1" "q_inv (req_pool h1)" "m_size (req_pool h1) = m_size (req_pool h)"
    "q_list (req_pool h1) = q_list (req_pool h) @ [1]" "\<forall>k. mmap_ok h1 k" "unat (nr_segment (dev h1)) < 2 ^ 26" "retry_q h1 = retry_q h"
    "req_arr h1 2 = ?rb"
    "\<forall>p c. cells (mem h) p = Some c \<and> p \<noteq> vvalue (rvalue ?ra) \<and> p \<noteq> staged_seg_buf (dev h) \<longrightarrow>
        cells (mem h1) p = Some c \<and> p \<noteq> staged_seg_buf (dev h1)"
    using hop_set_new [OF e h(3,7) key nt find_free_init] h(5) by (auto simp: GRAIN_UNIT_def)
  let ?hs = "set_ht 0 (?ht(slot 5 0 := new_entry ?ra 0 pba)) hopscotch_init"
  let ?e = "new_entry ?ra 0 pba"
  have en: "(ucast (hpba ?e) :: u64) = pba" "unat (hkv_size ?e) = 8" "key_fp_tag ?e = 1"
    using pba_field(1) [OF s(2)] h(5,13) hop_tag_sample by (simp_all add: new_entry_def GRAIN_UNIT_def)
  have env: "index_env (Suc (Suc (Suc 0))) h1" "q_inv (retry_q h1)" "req_buf 2 h1 bb"
    using s h(2,4,15,16) by (auto simp: index_env_def req_buf_def)
  have fnd: "find_matching_tag (hs_table ?hs 0) 5 0 1 = 0"
    using find_new_entry [of 5 ?ht 1 0 ?ht ?e] find_tag_init find_free_init en(3) by (simp add: set_ht_def hop_config)
  have wk: "with_key (rkey ?rb) f = with_key (rkey ?ra) f" for f using h(10-12) by (auto simp: with_key_def fun_eq_iff)
  have "\<exists>h2 hs3 h3 pba' stored. hopscotch_set 2 ?hs h1 = Inr (0, ?hs, h2) \<and> hopscotch_set 2 ?hs h2 = Inr (0, hs3, h3) \<and>
     hpba (hs_table hs3 0 (slot (hop_idx (hash_low (rkey ?rb))) 0)) = ucast pba' \<and>
     stored_at h3 pba' (unat (vlen (rvalue ?rb)) div GRAIN_UNIT * GRAIN_UNIT) stored \<and>
     (\<forall>j < unat (hkv_size ?e) * GRAIN_UNIT. stored j = with_key (rkey ?rb) (bdat ba) j)"
    by (rule hop_update_stores_old_value [OF env s(11) h(9,8)])
      (use fnd en s(1) h(6,11,14) wk hop_tag_sample in \<open>simp_all add: set_ht_def GRAIN_UNIT_def\<close>)
  then obtain h2 hs3 h3 pba' stored where "hopscotch_set 2 ?hs h1 = Inr (0, ?hs, h2)" "hopscotch_set 2 ?hs h2 = Inr (0, hs3, h3)"
     "stored_at h3 pba' 4096 stored" "\<forall>j < 1024. stored j = with_key (rkey ?rb) (bdat ba) j"
    using h(6) en(2) by (auto simp: GRAIN_UNIT_def)
  moreover have "rtype (req_arr h1 2) = REQ_TYPE_SET" using s(11) h(9) by simp
  ultimately show ?thesis using s(11) by metis
qed

text \<open>
  Free slots match the tag 0. The table is calloc'ed, so on a fresh table a key with the tag 0 matches the first free
  slot: \<open>hopscotch_set\<close> inserts nothing and \<open>hopscotch_get\<close> does not report a miss, both submit
  a read of no bytes at the address of the mark for a free slot, far behind the end of the device.
\<close>

theorem hop_tag_zero_reads_free_slot:
  fixes h :: "hop_params handler"
  assumes env: "index_env (Suc k) h" and ok: "submit_ok h (n_submit h)" and r: "params (req_arr h req) = None"
    and tag: "hop_tag (hash_low (rkey (req_arr h req))) = 0"
  shows "\<exists>h' w. hopscotch_set req hopscotch_init h = Inr (0, hopscotch_init, h') \<and>
     hopscotch_get req hopscotch_init h = Inr (0, hopscotch_init, h') \<and> submitted h' = submitted h @ [w] \<and>
     io_cmd (iocb_arr h' w) = IO_PREAD \<and> io_nbytes (iocb_arr h' w) = 0 \<and> unat (io_offset (iocb_arr h' w)) = 0xffffffffff * GRAIN_UNIT"
proof -
  let ?h0 = "set_params req make_hop_params h"
  let ?idx = "hop_idx (hash_low (rkey (req_arr h req)))"
  have e: "staged_ok h" "pools_hold (Suc k) h" "dev_inv (dev h)" "unat (nr_segment (dev h)) < 2 ^ 26"
    using env by (simp_all add: index_env_def staged_ok_def)
  have "find_matching_tag (hs_table hopscotch_init 0) ?idx 0 0 = 0"
    by (subst find_matching_tag.simps) (simp add: MAX_HOP_def hopscotch_init_def free_hop_entry_def)
  then have both: "hopscotch_set req hopscotch_init h = hop_read req 0 hopscotch_init ?h0"
    "hopscotch_get req hopscotch_init h = hop_read req 0 hopscotch_init ?h0"
    using r tag by (simp_all add: hopscotch_set_def hopscotch_get_def hop_ensure_params_def hop_insert_from_def Let_def
        make_hop_params_def set_params_def)
  obtain cb rest where cb: "q_list (cb_pool h) = cb # rest" "cb \<noteq> NULL"
    using e(2) by (cases "q_list (cb_pool h)") (auto simp: pools_hold_def)
  obtain q where mk: "make_callback CB_keycmp req ?h0 = Inr (cb, ?h0\<lparr>cb_pool := q,
      cb_arr := (cb_arr ?h0)(cb := \<lparr>cbfunc = CB_keycmp, cbarg = req, cbiocb = NULL\<rparr>)\<rparr>)"
    using make_callback_ok [of ?h0 cb rest CB_keycmp req] e(2) cb by (auto simp: pools_hold_def set_params_def)
  let ?h1 = "set_params req (make_hop_params\<lparr>hp_offset := 0\<rparr>)
      (?h0\<lparr>cb_pool := q, cb_arr := (cb_arr ?h0)(cb := \<lparr>cbfunc = CB_keycmp, cbarg = req, cbiocb = NULL\<rparr>)\<rparr>)"
  have pba: "unat (ucast PBA_INVALID :: u64) = 0xffffffffff" by (simp add: PBA_INVALID_def)
  have bytes: "unat (ucast PBA_INVALID * ucast (grain_unit (dev h)) :: u64) = 0xffffffffff * GRAIN_UNIT"
    using pba_bytes [OF e(3), of "ucast PBA_INVALID"] by (simp add: pba GRAIN_UNIT_def)
  have "is_staged (dev h) (ucast PBA_INVALID) \<noteq> 0"
    using is_staged_iff [OF e(3), of "ucast PBA_INVALID"] staged_end [OF e(3,4)] by (simp add: pba config_defs)
  then have rd: "dev_abs_read hop_run (ucast PBA_INVALID) 0 (vvalue (rvalue (req_arr h req))) cb ?h1 =
      aio_submit IO_PREAD (ucast PBA_INVALID * ucast (grain_unit (dev h))) 0 (vvalue (rvalue (req_arr h req))) cb ?h1"
    by (simp add: dev_abs_read_def aio_read_def Let_def set_params_def)
  have io: "q_inv (iocb_pool ?h1)" "q_list (iocb_pool ?h1) \<noteq> []" "NULL \<notin> set (q_list (iocb_pool ?h1))" "submit_ok ?h1 (n_submit ?h1)"
    using e(2) ok by (auto simp: set_params_def pools_hold_def)
  obtain h' where h': "aio_submit IO_PREAD (ucast PBA_INVALID * ucast (grain_unit (dev h))) 0 (vvalue (rvalue (req_arr h req))) cb ?h1 = Inr (0, h')"
    "submitted h' = submitted h @ [hd (q_list (iocb_pool h))]"
    "iocb_arr h' (hd (q_list (iocb_pool h))) = \<lparr>io_cmd = IO_PREAD, io_buf = vvalue (rvalue (req_arr h req)), io_nbytes = 0,
       io_offset = ucast PBA_INVALID * ucast (grain_unit (dev h)), io_data = cb\<rparr>"
    using aio_submit_ok [OF io(1-3), of IO_PREAD "ucast PBA_INVALID * ucast (grain_unit (dev h))" 0 "vvalue (rvalue (req_arr h req))" cb] io(4)
    by (auto simp: set_params_def)
  have "hop_read req 0 hopscotch_init ?h0 = Inr (0, hopscotch_init, h')"
    using mk rd h'(1) by (simp add: hop_read_def Let_def hopscotch_init_def free_hop_entry_def set_params_def)
  with both h'(2,3) bytes show ?thesis by (intro exI [of _ h'] exI [of _ "hd (q_list (iocb_pool h))"]) simp
qed

theorem hop_tag_zero_reads_free_slot_witness:
  "\<exists>(h :: hop_params handler) h' w. hopscotch_set 1 hopscotch_init h = Inr (0, hopscotch_init, h') \<and>
     submitted h' = submitted h @ [w] \<and> unat (io_offset (iocb_arr h' w)) = 0xffffffffff * GRAIN_UNIT"
proof -
  obtain h :: "hop_params handler" where h: "index_env QSIZE h" "params (req_arr h 1) = None" "hash_low (rkey (req_arr h 1)) = 5"
    using ex_set_and_get [where 'p = hop_params and ty = REQ_TYPE_GET and C = "\<lambda>_. (5, 0)"] by auto
  let ?h = "h\<lparr>submit_ok := \<lambda>_. True\<rparr>"
  have "index_env (Suc 0) ?h"
    using h(1) by (auto simp: index_env_def staged_ok_def pools_hold_def config_defs)
  moreover have "hop_tag (hash_low (rkey (req_arr ?h 1))) = 0" using h(3) by (simp add: hop_tag_def IDX_BIT_def)
  ultimately have "\<exists>h' w. hopscotch_set 1 hopscotch_init ?h = Inr (0, hopscotch_init, h') \<and>
     submitted h' = submitted ?h @ [w] \<and> unat (io_offset (iocb_arr h' w)) = 0xffffffffff * GRAIN_UNIT"
    using hop_tag_zero_reads_free_slot [of 0 ?h 1] h(2) by auto
  then show ?thesis by blast
qed

end
