(* ===== verification/Part_Table.thy ===== *)
theory Part_Table
  imports Kv_Ops
begin

section \<open>Partition tables of the BigKV index (\<open>src/bigkv_index.c\<close>)\<close>

text \<open>
  A partition table is 16 KiB of the log that the code casts to \<open>struct hash_part_table\<close>: 1024 entries of 16 bytes, searched
  by open addressing over at most 256 entries from the one the fingerprint gives. \<open>pt_get\<close> and \<open>pt_put\<close> read and write
  the bit-fields of an entry in the bytes, \<open>get_match_entry_f\<close> and \<open>insert_to_ptable\<close> are the functions of that name. The lemmas show that
  a table is a finite map from fingerprints to sizes and addresses, which is the contract (the locale \<open>entry_store\<close>) the buckets rely on.
\<close>

subsection \<open>Data\<close>

definition NR_SET :: nat where "NR_SET = 4"
definition BUCKETS_IN_PART :: nat where "BUCKETS_IN_PART = 4"
definition PART_TABLE_SIZE :: nat where "PART_TABLE_SIZE = 16 * Ki"
definition PART_TABLE_GRAINS :: nat where "PART_TABLE_GRAINS = 128"
definition PART_TABLE_ENTRYS :: nat where "PART_TABLE_ENTRYS = 1024"
definition NR_BUCKET :: nat where "NR_BUCKET = 2 ^ 22"
definition BI_MAX_HOP :: nat where "BI_MAX_HOP = 256"
definition BI_PBA_INVALID :: "42 word" where "BI_PBA_INVALID = 0x3fffffffff"

lemmas bi_config = NR_SET_def BUCKETS_IN_PART_def PART_TABLE_SIZE_def PART_TABLE_GRAINS_def PART_TABLE_ENTRYS_def
  NR_BUCKET_def BI_MAX_HOP_def

record bi_entry =
  fingerprint :: u64
  reserve :: "5 word"
  dirty_bit :: bool
  lru_bit :: "2 word"
  bkv_size :: "14 word"
  bpba :: "42 word"

record bi_entry_f =
  f_fingerprint :: u64
  f_offset :: u8
  f_kv_size :: "14 word"
  f_pba :: "42 word"

definition pt_word :: "(nat \<Rightarrow> byte) \<Rightarrow> nat \<Rightarrow> u64" where
  "pt_word f off = word_of_bytes (map (\<lambda>j. f (off + j)) [0..<8])"

definition pt_get :: "(nat \<Rightarrow> byte) \<Rightarrow> nat \<Rightarrow> bi_entry_f" where
  "pt_get f i =
     (let w = pt_word f (16 * i + 8)
      in \<lparr>f_fingerprint = pt_word f (16 * i), f_offset = ucast w, f_kv_size = ucast (drop_bit 8 w),
          f_pba = ucast (drop_bit 22 w)\<rparr>)"

definition pt_fields :: "bi_entry_f \<Rightarrow> u64" where
  "pt_fields e = ucast (f_offset e) OR push_bit 8 (ucast (f_kv_size e)) OR push_bit 22 (ucast (f_pba e))"

definition pt_put :: "(nat \<Rightarrow> byte) \<Rightarrow> nat \<Rightarrow> bi_entry_f \<Rightarrow> nat \<Rightarrow> byte" where
  "pt_put f i e =
     (\<lambda>p. if 16 * i \<le> p \<and> p < 16 * i + 16
          then (bytes_of_word 8 (f_fingerprint e) @ bytes_of_word 8 (pt_fields e)) ! (p - 16 * i)
          else f p)"

function match_f_from :: "(nat \<Rightarrow> byte) \<Rightarrow> u64 \<Rightarrow> nat \<Rightarrow> nat \<Rightarrow> nat option" where
  "match_f_from f fp i idx =
     (if i < BI_MAX_HOP
      then (if f_fingerprint (pt_get f idx) = fp then Some idx
            else match_f_from f fp (Suc i) ((idx + 1) mod PART_TABLE_ENTRYS))
      else None)"
  by pat_completeness auto

termination by (relation "measure (\<lambda>(_, _, i, _). BI_MAX_HOP - i)") auto

definition get_match_entry_f :: "(nat \<Rightarrow> byte) \<Rightarrow> u64 \<Rightarrow> nat option" where
  "get_match_entry_f f fp = match_f_from f fp 0 (unat fp mod PART_TABLE_ENTRYS)"

function insert_slot_from :: "(nat \<Rightarrow> byte) \<Rightarrow> u64 \<Rightarrow> nat \<Rightarrow> nat \<Rightarrow> (nat \<times> nat) option" where
  "insert_slot_from f fp i idx =
     (if i < BI_MAX_HOP
      then (if f_pba (pt_get f idx) = BI_PBA_INVALID then Some (i, idx)
            else if f_fingerprint (pt_get f idx) = fp then Some (i, idx)
            else insert_slot_from f fp (Suc i) ((idx + 1) mod PART_TABLE_ENTRYS))
      else None)"
  by pat_completeness auto

termination by (relation "measure (\<lambda>(_, _, i, _). BI_MAX_HOP - i)") auto

declare match_f_from.simps [simp del] insert_slot_from.simps [simp del]

text \<open>\<open>None\<close> is the return value -1.\<close>

definition insert_to_ptable :: "bi_entry \<Rightarrow> (nat \<Rightarrow> byte) \<Rightarrow> (nat \<Rightarrow> byte) option" where
  "insert_to_ptable e f =
     (case insert_slot_from f (fingerprint e) 0 (unat (fingerprint e) mod PART_TABLE_ENTRYS) of
        Some (i, idx) \<Rightarrow> Some (pt_put f idx \<lparr>f_fingerprint = fingerprint e, f_offset = of_nat i,
                                         f_kv_size = bkv_size e, f_pba = bpba e\<rparr>)
      | None \<Rightarrow> None)"

text \<open>The bytes of a partition table without entries.\<close>

definition pt_empty :: "nat \<Rightarrow> byte" where
  "pt_empty = fold (\<lambda>i f. pt_put f i ((pt_get f i)\<lparr>f_pba := BI_PBA_INVALID\<rparr>)) [0..<PART_TABLE_ENTRYS] (\<lambda>_. 0)"

subsection \<open>The bytes of a partition table\<close>

lemma pt_fields_get:
  "(ucast (pt_fields e) :: u8) = f_offset e" "(ucast (drop_bit 8 (pt_fields e)) :: 14 word) = f_kv_size e"
  "(ucast (drop_bit 22 (pt_fields e)) :: 42 word) = f_pba e"
  by (rule bit_word_eqI; auto simp: pt_fields_def bit_simps dest: bit_imp_le_length)+

lemma pt_get_put_same [simp]: "pt_get (pt_put f i e) i = e"
proof -
  let ?a = "bytes_of_word 8 (f_fingerprint e)" and ?b = "bytes_of_word 8 (pt_fields e)"
  have "map (\<lambda>j. pt_put f i e (16 * i + j)) [0..<8] = ?a"
    by (rule nth_equalityI) (simp_all add: pt_put_def nth_append)
  then have "pt_word (pt_put f i e) (16 * i) = f_fingerprint e" by (simp add: pt_word_def)
  moreover have "map (\<lambda>j. pt_put f i e (16 * i + 8 + j)) [0..<8] = ?b"
    by (rule nth_equalityI) (simp_all add: pt_put_def nth_append)
  then have "pt_word (pt_put f i e) (16 * i + 8) = pt_fields e" by (simp add: pt_word_def)
  ultimately show ?thesis by (simp add: pt_get_def Let_def pt_fields_get)
qed

lemma pt_get_put_other [simp]: "i \<noteq> j \<Longrightarrow> pt_get (pt_put f i e) j = pt_get f j"
proof -
  assume "i \<noteq> j"
  have eq: "pt_put f i e (16 * j + k) = f (16 * j + k)" if "k < 16" for k
  proof -
    have "16 * j + k < 16 * i \<or> 16 * i + 16 \<le> 16 * j + k" using that \<open>i \<noteq> j\<close> by linarith
    then show ?thesis by (auto simp: pt_put_def)
  qed
  have "pt_word (pt_put f i e) (16 * j + o') = pt_word f (16 * j + o')" if "o' \<le> 8" for o'
    unfolding pt_word_def using that eq by (intro arg_cong [where f = word_of_bytes] map_cong) (simp_all add: add.assoc)
  from this [of 0] this [of 8] show ?thesis by (simp add: pt_get_def Let_def)
qed

subsection \<open>Searches\<close>

lemma find_upt_Some: "find P [a..<n] = Some i \<longleftrightarrow> a \<le> i \<and> i < n \<and> P i \<and> (\<forall>j. a \<le> j \<and> j < i \<longrightarrow> \<not> P j)"
proof -
  have "find P [a..<n] = Some i \<longleftrightarrow> (\<exists>k<n - a. P (a + k) \<and> i = a + k \<and> (\<forall>l<k. \<not> P (a + l)))"
    by (auto simp: find_Some_iff)
  also have "\<dots> \<longleftrightarrow> a \<le> i \<and> i < n \<and> P i \<and> (\<forall>j. a \<le> j \<and> j < i \<longrightarrow> \<not> P j)" (is "?l \<longleftrightarrow> ?r")
  proof
    assume ?l
    then obtain k where k: "k < n - a" "P (a + k)" "i = a + k" "\<forall>l<k. \<not> P (a + l)" by blast
    have "\<not> P j" if "a \<le> j" "j < i" for j using that k(3) spec [OF k(4), of "j - a"] by simp
    with k show ?r by simp
  next
    assume ?r
    then show ?l by (intro exI [of _ "i - a"]) (auto simp: diff_less_mono)
  qed
  finally show ?thesis .
qed

lemma find_upt_None: "find P [a..<n] = None \<longleftrightarrow> (\<forall>j. a \<le> j \<and> j < n \<longrightarrow> \<not> P j)"
  by (auto simp: find_None_iff)

definition pt_slot :: "u64 \<Rightarrow> nat \<Rightarrow> nat" where
  "pt_slot fp j = (unat fp mod PART_TABLE_ENTRYS + j) mod PART_TABLE_ENTRYS"

lemma pt_slot_next: "(pt_slot fp i + 1) mod PART_TABLE_ENTRYS = pt_slot fp (Suc i)"
  by (simp add: pt_slot_def mod_Suc_eq)

lemma pt_slot_lt [simp]: "pt_slot fp j < PART_TABLE_ENTRYS"
  by (simp add: pt_slot_def bi_config)

lemma pt_slot_eq: "pt_slot fp j = (if unat fp mod 1024 + j < 1024 then unat fp mod 1024 + j else unat fp mod 1024 + j - 1024)"
  if "j < BI_MAX_HOP"
proof -
  have "unat fp mod 1024 + j < 2048" using that by (simp add: bi_config add_less_le_mono [of _ 1024, simplified])
  then show ?thesis by (simp add: pt_slot_def bi_config le_mod_geq)
qed

lemma pt_slot_inj: "i < BI_MAX_HOP \<Longrightarrow> j < BI_MAX_HOP \<Longrightarrow> pt_slot fp i = pt_slot fp j \<Longrightarrow> i = j"
  by (simp add: pt_slot_eq bi_config split: if_splits)

lemma match_f_from_find:
  "match_f_from f fp i (pt_slot fp i) =
     map_option (pt_slot fp) (find (\<lambda>j. f_fingerprint (pt_get f (pt_slot fp j)) = fp) [i..<BI_MAX_HOP])"
proof (induction "BI_MAX_HOP - i" arbitrary: i)
  case (Suc k)
  then have "k = BI_MAX_HOP - Suc i" "[i..<BI_MAX_HOP] = i # [Suc i..<BI_MAX_HOP]" by (simp_all add: upt_conv_Cons)
  moreover have "i < BI_MAX_HOP" using Suc.hyps(2) by linarith
  moreover note Suc.hyps(1) [OF calculation(1)]
  ultimately show ?case by (subst match_f_from.simps) (simp add: pt_slot_next [simplified])
qed (simp add: match_f_from.simps)

lemma insert_slot_from_find:
  "insert_slot_from f fp i (pt_slot fp i) =
     map_option (\<lambda>j. (j, pt_slot fp j)) (find (\<lambda>j. f_pba (pt_get f (pt_slot fp j)) = BI_PBA_INVALID \<or>
        f_fingerprint (pt_get f (pt_slot fp j)) = fp) [i..<BI_MAX_HOP])"
proof (induction "BI_MAX_HOP - i" arbitrary: i)
  case (Suc k)
  then have "k = BI_MAX_HOP - Suc i" "[i..<BI_MAX_HOP] = i # [Suc i..<BI_MAX_HOP]" by (simp_all add: upt_conv_Cons)
  moreover have "i < BI_MAX_HOP" using Suc.hyps(2) by linarith
  moreover note Suc.hyps(1) [OF calculation(1)]
  ultimately show ?case by (subst insert_slot_from.simps) (simp add: pt_slot_next [simplified])
qed (simp add: insert_slot_from.simps)

lemma pt_slot_0: "unat fp mod PART_TABLE_ENTRYS = pt_slot fp 0"
  by (simp add: pt_slot_def)

lemma get_match_entry_f_find:
  "get_match_entry_f f fp =
     map_option (pt_slot fp) (find (\<lambda>j. f_fingerprint (pt_get f (pt_slot fp j)) = fp) [0..<BI_MAX_HOP])"
  unfolding get_match_entry_f_def pt_slot_0 by (rule match_f_from_find)

lemma insert_to_ptable_find:
  "insert_to_ptable e f =
     map_option (\<lambda>j. pt_put f (pt_slot (fingerprint e) j) \<lparr>f_fingerprint = fingerprint e, f_offset = of_nat j,
         f_kv_size = bkv_size e, f_pba = bpba e\<rparr>)
       (find (\<lambda>j. f_pba (pt_get f (pt_slot (fingerprint e) j)) = BI_PBA_INVALID \<or>
          f_fingerprint (pt_get f (pt_slot (fingerprint e) j)) = fingerprint e) [0..<BI_MAX_HOP])"
  unfolding insert_to_ptable_def pt_slot_0 insert_slot_from_find by (auto split: option.splits)

subsection \<open>A partition table is a map\<close>

text \<open>
  \<open>pt_ok\<close>: an entry that is in use sits where a search for its fingerprint gets to, over entries
  in use by other fingerprints. \<open>pt_map\<close>: the size and address a search returns, when the entry found is in use.
\<close>

definition pt_used :: "(nat \<Rightarrow> byte) \<Rightarrow> nat \<Rightarrow> bool" where
  "pt_used f k \<longleftrightarrow> f_pba (pt_get f k) \<noteq> BI_PBA_INVALID"

definition pt_ok :: "(nat \<Rightarrow> byte) \<Rightarrow> bool" where
  "pt_ok f \<longleftrightarrow> (\<forall>k < PART_TABLE_ENTRYS. pt_used f k \<longrightarrow>
     (let fp = f_fingerprint (pt_get f k) in \<exists>j < BI_MAX_HOP. k = pt_slot fp j \<and> f_offset (pt_get f k) = of_nat j \<and>
        (\<forall>i < j. pt_used f (pt_slot fp i) \<and> f_fingerprint (pt_get f (pt_slot fp i)) \<noteq> fp)))"

definition pt_map :: "(nat \<Rightarrow> byte) \<Rightarrow> u64 \<rightharpoonup> 14 word \<times> 42 word" where
  "pt_map f fp =
     (case get_match_entry_f f fp of
        None \<Rightarrow> None
      | Some k \<Rightarrow> if pt_used f k then Some (f_kv_size (pt_get f k), f_pba (pt_get f k)) else None)"

lemma pt_okD:
  assumes "pt_ok f" and "j < BI_MAX_HOP" and "pt_used f (pt_slot fp j)" and "f_fingerprint (pt_get f (pt_slot fp j)) = fp" and "i < j"
  shows "pt_used f (pt_slot fp i) \<and> f_fingerprint (pt_get f (pt_slot fp i)) \<noteq> fp"
proof -
  from assms(1,3,4) obtain j' where j': "j' < BI_MAX_HOP" "pt_slot fp j = pt_slot fp j'"
    "\<forall>i < j'. pt_used f (pt_slot fp i) \<and> f_fingerprint (pt_get f (pt_slot fp i)) \<noteq> fp"
    using pt_slot_lt [of fp j] unfolding pt_ok_def Let_def by metis
  with pt_slot_inj [OF assms(2) j'(1,2)] assms(5) show ?thesis by blast
qed

lemma pt_map_iff:
  assumes "pt_ok f"
  shows "pt_map f fp = Some x \<longleftrightarrow> (\<exists>j < BI_MAX_HOP. pt_used f (pt_slot fp j) \<and> f_fingerprint (pt_get f (pt_slot fp j)) = fp \<and>
     x = (f_kv_size (pt_get f (pt_slot fp j)), f_pba (pt_get f (pt_slot fp j))))"
    (is "?l \<longleftrightarrow> (\<exists>j < BI_MAX_HOP. ?P j)")
proof
  assume ?l
  then obtain j where "find (\<lambda>j. f_fingerprint (pt_get f (pt_slot fp j)) = fp) [0..<BI_MAX_HOP] = Some j"
    "pt_used f (pt_slot fp j)" "x = (f_kv_size (pt_get f (pt_slot fp j)), f_pba (pt_get f (pt_slot fp j)))"
    by (auto simp: pt_map_def get_match_entry_f_find split: option.splits if_splits)
  then show "\<exists>j < BI_MAX_HOP. ?P j" by (auto simp: find_upt_Some)
next
  assume "\<exists>j < BI_MAX_HOP. ?P j"
  then obtain j where j: "j < BI_MAX_HOP" "?P j" by blast
  with pt_okD [OF assms j(1)] have "find (\<lambda>j. f_fingerprint (pt_get f (pt_slot fp j)) = fp) [0..<BI_MAX_HOP] = Some j"
    by (auto simp: find_upt_Some)
  with j show ?l by (simp add: pt_map_def get_match_entry_f_find)
qed

definition f_entry :: "bi_entry \<Rightarrow> nat \<Rightarrow> bi_entry_f" where
  "f_entry e j = \<lparr>f_fingerprint = fingerprint e, f_offset = of_nat j, f_kv_size = bkv_size e, f_pba = bpba e\<rparr>"

lemma insert_to_ptable_at:
  assumes "insert_to_ptable e f = Some f'"
  shows "\<exists>j < BI_MAX_HOP. f' = pt_put f (pt_slot (fingerprint e) j) (f_entry e j) \<and>
     (pt_used f (pt_slot (fingerprint e) j) \<longrightarrow> f_fingerprint (pt_get f (pt_slot (fingerprint e) j)) = fingerprint e) \<and>
     (\<forall>i < j. pt_used f (pt_slot (fingerprint e) i) \<and> f_fingerprint (pt_get f (pt_slot (fingerprint e) i)) \<noteq> fingerprint e)"
  using assms by (auto simp: insert_to_ptable_find find_upt_Some pt_used_def f_entry_def)

lemma pt_get_put: "pt_get (pt_put f s e) k = (if k = s then e else pt_get f k)"
  by simp

lemma insert_to_ptable_ok:
  assumes ins: "insert_to_ptable e f = Some f'" and valid: "bpba e \<noteq> BI_PBA_INVALID" and ok: "pt_ok f"
  shows "pt_ok f'"
  unfolding pt_ok_def Let_def
proof (intro allI impI)
  fix k assume k: "k < PART_TABLE_ENTRYS" "pt_used f' k"
  let ?fp = "fingerprint e" and ?fk = "f_fingerprint (pt_get f' k)"
  obtain j where j: "j < BI_MAX_HOP" "f' = pt_put f (pt_slot ?fp j) (f_entry e j)"
    "pt_used f (pt_slot ?fp j) \<Longrightarrow> f_fingerprint (pt_get f (pt_slot ?fp j)) = ?fp"
    "\<And>i. i < j \<Longrightarrow> pt_used f (pt_slot ?fp i) \<and> f_fingerprint (pt_get f (pt_slot ?fp i)) \<noteq> ?fp"
    using insert_to_ptable_at [OF ins] by blast
  let ?s = "pt_slot ?fp j"
  have g: "pt_get f' i = (if i = ?s then f_entry e j else pt_get f i)" for i by (simp add: j(2))
  show "\<exists>j < BI_MAX_HOP. k = pt_slot ?fk j \<and> f_offset (pt_get f' k) = of_nat j \<and>
     (\<forall>i < j. pt_used f' (pt_slot ?fk i) \<and> f_fingerprint (pt_get f' (pt_slot ?fk i)) \<noteq> ?fk)"
  proof (cases "k = ?s")
    case True
    have "pt_slot ?fp i \<noteq> ?s" if "i < j" for i using pt_slot_inj [of i j ?fp] that j(1) by auto
    with True j(1,4) show ?thesis by (intro exI [of _ j]) (auto simp: g pt_used_def f_entry_def)
  next
    case False
    with k ok have "\<exists>j0 < BI_MAX_HOP. k = pt_slot ?fk j0 \<and> f_offset (pt_get f k) = of_nat j0 \<and>
       (\<forall>i < j0. pt_used f (pt_slot ?fk i) \<and> f_fingerprint (pt_get f (pt_slot ?fk i)) \<noteq> ?fk)"
      by (auto simp: pt_ok_def Let_def pt_used_def g)
    then obtain j0 where j0: "j0 < BI_MAX_HOP" "k = pt_slot ?fk j0" "f_offset (pt_get f k) = of_nat j0"
      "\<And>i. i < j0 \<Longrightarrow> pt_used f (pt_slot ?fk i) \<and> f_fingerprint (pt_get f (pt_slot ?fk i)) \<noteq> ?fk" by blast
    have "pt_used f' (pt_slot ?fk i) \<and> f_fingerprint (pt_get f' (pt_slot ?fk i)) \<noteq> ?fk" if "i < j0" for i
    proof (cases "pt_slot ?fk i = ?s")
      case True
      then have "f_fingerprint (pt_get f ?s) = ?fp" "f_fingerprint (pt_get f ?s) \<noteq> ?fk" using j0(4) [OF that] j(3) by auto
      with True valid show ?thesis unfolding pt_used_def g [of "pt_slot ?fk i"] by (simp add: f_entry_def)
    next
      case False
      then have "pt_get f' (pt_slot ?fk i) = pt_get f (pt_slot ?fk i)" by (simp only: g if_False)
      with j0(4) [OF that] show ?thesis by (simp only: pt_used_def) blast
    qed
    moreover have "f_offset (pt_get f' k) = of_nat j0" using False j0(3) by (simp only: g if_False)
    ultimately show ?thesis using j0(1,2) by blast
  qed
qed

lemma insert_to_ptable_map:
  assumes ins: "insert_to_ptable e f = Some f'" and valid: "bpba e \<noteq> BI_PBA_INVALID" and ok: "pt_ok f"
  shows "pt_map f' = (pt_map f)(fingerprint e \<mapsto> (bkv_size e, bpba e))"
proof
  fix fp
  let ?fp = "fingerprint e"
  obtain j where j: "j < BI_MAX_HOP" "f' = pt_put f (pt_slot ?fp j) (f_entry e j)"
    "pt_used f (pt_slot ?fp j) \<Longrightarrow> f_fingerprint (pt_get f (pt_slot ?fp j)) = ?fp"
    using insert_to_ptable_at [OF ins] by blast
  have g: "pt_get f' i = (if i = pt_slot ?fp j then f_entry e j else pt_get f i)" for i by (simp add: j(2))
  note iff = pt_map_iff [OF insert_to_ptable_ok [OF assms]]
  show "pt_map f' fp = ((pt_map f)(?fp \<mapsto> (bkv_size e, bpba e))) fp"
  proof (cases "fp = ?fp")
    case True
    have "pt_map f' ?fp = Some (bkv_size e, bpba e)"
      unfolding iff using j(1) valid by (intro exI [of _ j]) (simp add: g pt_used_def f_entry_def)
    with True show ?thesis by simp
  next
    case False
    then have "pt_used f' k \<and> f_fingerprint (pt_get f' k) = fp \<longleftrightarrow> k \<noteq> pt_slot ?fp j \<and> pt_used f k \<and> f_fingerprint (pt_get f k) = fp" for k
      by (simp add: g pt_used_def f_entry_def)
    moreover have "k \<noteq> pt_slot ?fp j" if "pt_used f k" "f_fingerprint (pt_get f k) = fp" for k using that False j(3) by blast
    ultimately have "pt_used f' k \<and> f_fingerprint (pt_get f' k) = fp \<and> x = (f_kv_size (pt_get f' k), f_pba (pt_get f' k)) \<longleftrightarrow>
        pt_used f k \<and> f_fingerprint (pt_get f k) = fp \<and> x = (f_kv_size (pt_get f k), f_pba (pt_get f k))" for k x
      using g [of k] by metis
    then have "pt_map f' fp = Some x \<longleftrightarrow> pt_map f fp = Some x" for x
      unfolding iff pt_map_iff [OF ok] by simp
    then show ?thesis using False by (metis fun_upd_apply not_Some_eq)
  qed
qed

lemma insert_to_ptable_None:
  "insert_to_ptable e f = None \<longleftrightarrow>
     (\<forall>j < BI_MAX_HOP. pt_used f (pt_slot (fingerprint e) j) \<and> f_fingerprint (pt_get f (pt_slot (fingerprint e) j)) \<noteq> fingerprint e)"
  by (auto simp: insert_to_ptable_find find_upt_None pt_used_def)

subsection \<open>Writing entries to a store\<close>

text \<open>
  The contract \<open>update_part_table\<close> has with \<open>insert_to_ptable\<close>: inserting a valid entry updates the map at its key.
\<close>

fun ins_all :: "('e \<Rightarrow> 't \<Rightarrow> 't option) \<Rightarrow> 'e list \<Rightarrow> 't \<Rightarrow> 't option" where
  "ins_all ins [] t = Some t"
| "ins_all ins (e # es) t = (case ins e t of None \<Rightarrow> None | Some t' \<Rightarrow> ins_all ins es t')"

locale entry_store =
  fixes ins :: "'e \<Rightarrow> 't \<Rightarrow> 't option" and entry_key :: "'e \<Rightarrow> 'k" and entry_val :: "'e \<Rightarrow> 'v"
    and entry_valid :: "'e \<Rightarrow> bool" and store_ok :: "'t \<Rightarrow> bool" and lookup :: "'t \<Rightarrow> 'k \<rightharpoonup> 'v"
  assumes ins_ok: "ins e t = Some t' \<Longrightarrow> entry_valid e \<Longrightarrow> store_ok t \<Longrightarrow> store_ok t'"
    and ins_lookup: "ins e t = Some t' \<Longrightarrow> entry_valid e \<Longrightarrow> store_ok t \<Longrightarrow> lookup t' = (lookup t)(entry_key e \<mapsto> entry_val e)"
begin

lemma ins_all_ok:
  assumes "ins_all ins es t = Some t'" and "\<forall>e \<in> set es. entry_valid e" and "store_ok t"
  shows "store_ok t' \<and> lookup t' = lookup t ++ map_of (rev (map (\<lambda>e. (entry_key e, entry_val e)) es))"
  using assms
proof (induction es arbitrary: t)
  case (Cons e es)
  then obtain t1 where t1: "ins e t = Some t1" "ins_all ins es t1 = Some t'" by (auto split: option.splits)
  have v: "entry_valid e" using Cons.prems(2) by simp
  from Cons.IH [OF t1(2)] Cons.prems ins_ok [OF t1(1) v] ins_lookup [OF t1(1) v] show ?case
    by (auto simp: map_add_def fun_eq_iff map_of_append split: option.splits)
qed simp

lemma ins_all_found:
  assumes "ins_all ins es t = Some t'" and "\<forall>e \<in> set es. entry_valid e" and "store_ok t"
    and "e \<in> set es" and "\<forall>e' \<in> set es. entry_key e' = entry_key e \<longrightarrow> entry_val e' = entry_val e"
  shows "lookup t' (entry_key e) = Some (entry_val e)"
proof -
  let ?l = "rev (map (\<lambda>e. (entry_key e, entry_val e)) es)"
  have "entry_key e \<in> fst ` set ?l" using assms(4) by force
  then obtain v where v: "map_of ?l (entry_key e) = Some v" by (metis map_of_eq_None_iff not_None_eq)
  from map_of_SomeD [OF this] assms(5) have "v = entry_val e" by auto
  with v ins_all_ok [OF assms(1-3)] show ?thesis by simp
qed

lemma ins_all_other:
  assumes "ins_all ins es t = Some t'" and "\<forall>e \<in> set es. entry_valid e" and "store_ok t"
    and "\<forall>e \<in> set es. entry_key e \<noteq> k"
  shows "lookup t' k = lookup t k"
proof -
  have "map_of (rev (map (\<lambda>e. (entry_key e, entry_val e)) es)) k = None" using assms(4) by (auto simp: map_of_eq_None_iff)
  with ins_all_ok [OF assms(1-3)] show ?thesis by (simp add: map_add_def)
qed

end

definition bi_valid :: "bi_entry \<Rightarrow> bool" where
  "bi_valid e \<longleftrightarrow> bpba e \<noteq> BI_PBA_INVALID"

definition bi_val :: "bi_entry \<Rightarrow> 14 word \<times> 42 word" where
  "bi_val e = (bkv_size e, bpba e)"

interpretation pt: entry_store insert_to_ptable fingerprint bi_val bi_valid pt_ok pt_map
  by unfold_locales (auto simp: bi_valid_def bi_val_def intro: insert_to_ptable_ok insert_to_ptable_map)

text \<open>An empty table is well-formed and maps nothing.\<close>

lemma pt_empty_get: "k < PART_TABLE_ENTRYS \<Longrightarrow> f_pba (pt_get pt_empty k) = BI_PBA_INVALID"
proof -
  have "pt_get (fold (\<lambda>i f. pt_put f i ((pt_get f i)\<lparr>f_pba := BI_PBA_INVALID\<rparr>)) [0..<n] g) k =
      (if k < n then (pt_get g k)\<lparr>f_pba := BI_PBA_INVALID\<rparr> else pt_get g k)" for n g
    by (induction n) (auto simp: pt_get_put less_Suc_eq)
  then show "k < PART_TABLE_ENTRYS \<Longrightarrow> ?thesis" by (simp add: pt_empty_def)
qed

lemma pt_empty_ok: "pt_ok pt_empty"
  by (simp add: pt_ok_def pt_used_def pt_empty_get)

lemma pt_empty_map: "pt_map pt_empty = Map.empty"
proof
  fix fp show "pt_map pt_empty fp = None"
    using pt_map_iff [OF pt_empty_ok, of fp "the (pt_map pt_empty fp)"]
    by (cases "pt_map pt_empty fp") (simp_all add: pt_used_def pt_empty_get)
qed

subsection \<open>Room in a partition table\<close>

definition pt_count :: "(nat \<Rightarrow> byte) \<Rightarrow> nat" where
  "pt_count f = card {k. k < PART_TABLE_ENTRYS \<and> pt_used f k}"

lemma pt_count_empty: "pt_count pt_empty = 0"
proof -
  have "{k. k < PART_TABLE_ENTRYS \<and> pt_used pt_empty k} = {}" by (auto simp: pt_used_def pt_empty_get)
  then show ?thesis by (simp only: pt_count_def card.empty)
qed

lemma insert_to_ptable_count:
  assumes "insert_to_ptable e f = Some f'"
  shows "pt_count f' \<le> Suc (pt_count f)"
proof -
  obtain j where "f' = pt_put f (pt_slot (fingerprint e) j) (f_entry e j)" using insert_to_ptable_at [OF assms] by blast
  then have "{k. k < PART_TABLE_ENTRYS \<and> pt_used f' k} \<subseteq>
      insert (pt_slot (fingerprint e) j) {k. k < PART_TABLE_ENTRYS \<and> pt_used f k}"
    by (auto simp: pt_used_def pt_get_put)
  from card_mono [OF _ this] card_insert_le_m1 show ?thesis
    by (auto simp: pt_count_def intro: order_trans [OF _ card_insert_le_m1])
qed

lemma insert_to_ptable_room:
  assumes "pt_count f < BI_MAX_HOP"
  shows "insert_to_ptable e f \<noteq> None"
proof
  assume "insert_to_ptable e f = None"
  then have "pt_slot (fingerprint e) ` {..<BI_MAX_HOP} \<subseteq> {k. k < PART_TABLE_ENTRYS \<and> pt_used f k}"
    by (auto simp: insert_to_ptable_None)
  from card_mono [OF _ this] have "card (pt_slot (fingerprint e) ` {..<BI_MAX_HOP}) \<le> pt_count f" by (simp add: pt_count_def)
  moreover have "inj_on (pt_slot (fingerprint e)) {..<BI_MAX_HOP}" by (auto intro!: inj_onI dest: pt_slot_inj)
  ultimately show False using assms by (simp add: card_image)
qed

lemma ins_all_room:
  "pt_count f + length es \<le> BI_MAX_HOP \<Longrightarrow> \<exists>f'. ins_all insert_to_ptable es f = Some f' \<and> pt_count f' \<le> pt_count f + length es"
proof (induction es arbitrary: f)
  case (Cons e es)
  then have "pt_count f < BI_MAX_HOP" by simp
  from insert_to_ptable_room [OF this] obtain f1 where f1: "insert_to_ptable e f = Some f1" by blast
  from insert_to_ptable_count [OF f1] Cons.prems have "pt_count f1 + length es \<le> BI_MAX_HOP" by simp
  from Cons.IH [OF this] f1 insert_to_ptable_count [OF f1] show ?case by auto
qed simp

text \<open>
  C13: a partition table is a finite map. As long as fewer than 256 of its entries are in use, inserting an entry succeeds; it keeps the
  table well-formed, and a search then finds for the fingerprint of the entry its size and address, and for every other fingerprint what
  it found before. An insertion fails only when the 256 entries it may use are all taken by other fingerprints.
\<close>

theorem pt_insert_lookup:
  assumes "pt_ok f" and "bpba e \<noteq> BI_PBA_INVALID"
  shows "(pt_count f < BI_MAX_HOP \<longrightarrow> insert_to_ptable e f \<noteq> None) \<and>
     (case insert_to_ptable e f of
        Some f' \<Rightarrow> pt_ok f' \<and> pt_map f' = (pt_map f)(fingerprint e \<mapsto> (bkv_size e, bpba e)) \<and> pt_count f' \<le> Suc (pt_count f)
      | None \<Rightarrow> \<forall>j < BI_MAX_HOP. pt_used f (pt_slot (fingerprint e) j) \<and>
          f_fingerprint (pt_get f (pt_slot (fingerprint e) j)) \<noteq> fingerprint e)"
  using insert_to_ptable_room [of f e] insert_to_ptable_ok [OF _ assms(2,1)] insert_to_ptable_map [OF _ assms(2,1)]
    insert_to_ptable_count [of e f] insert_to_ptable_None [of e f]
  by (auto split: option.splits)

theorem pt_insert_lookup_witness:
  "\<exists>f'. insert_to_ptable \<lparr>fingerprint = 9, reserve = 0, dirty_bit = True, lru_bit = 0, bkv_size = 8, bpba = 77\<rparr> pt_empty = Some f' \<and>
     pt_ok f' \<and> pt_map f' = [9 \<mapsto> (8, 77)]"
proof -
  let ?e = "\<lparr>fingerprint = 9, reserve = 0, dirty_bit = True, lru_bit = 0, bkv_size = 8, bpba = 77\<rparr>"
  have "bpba ?e \<noteq> BI_PBA_INVALID" by (simp add: BI_PBA_INVALID_def)
  from pt_insert_lookup [OF pt_empty_ok this] show ?thesis
    by (auto simp: pt_count_empty pt_empty_map BI_MAX_HOP_def split: option.splits)
qed

end
