(* ===== verification/Bi_Bucket.thy ===== *)
theory Bi_Bucket
  imports Part_Table
begin

section \<open>Buckets of the BigKV index (\<open>src/bigkv_index.c\<close>)\<close>

text \<open>
  A bucket has four entries with two LRU bits and a dirty bit each; it is a write-back cache of the partition table of its four
  buckets. This theory has the searches in a bucket, the two ways to use an entry, and \<open>update_part_table\<close>, which
  writes the dirty entries of a partition to its table. The lemmas show that the LRU bits keep an order, that replacing an entry
  and writing a partition out never lose what is known.
\<close>

subsection \<open>Searching and using entries\<close>

type_synonym bi_bucket = "nat \<Rightarrow> bi_entry"

definition init_bi_entry :: bi_entry where
  "init_bi_entry = \<lparr>fingerprint = 0, reserve = 0, dirty_bit = False, lru_bit = 3, bkv_size = 0, bpba = BI_PBA_INVALID\<rparr>"

definition get_match_entry :: "bi_bucket \<Rightarrow> u64 \<Rightarrow> nat option" where
  "get_match_entry b fp = find (\<lambda>i. bpba (b i) \<noteq> BI_PBA_INVALID \<and> fingerprint (b i) = fp) [0..<NR_SET]"

definition get_target_entry :: "bi_bucket \<Rightarrow> u64 \<Rightarrow> nat option" where
  "get_target_entry b fp =
     (case find (\<lambda>i. fingerprint (b i) = fp) [0..<NR_SET] of
        Some i \<Rightarrow> Some i
      | None \<Rightarrow> (case find (\<lambda>i. bpba (b i) = BI_PBA_INVALID) [0..<NR_SET] of
          Some i \<Rightarrow> Some i
        | None \<Rightarrow> (case find (\<lambda>i. lru_bit (b i) = 3) [0..<NR_SET] of
            Some i \<Rightarrow> if \<not> dirty_bit (b i) then Some i else None
          | None \<Rightarrow> None)))"

text \<open>The loop that ages the entries more recently used than the one at \<open>e\<close> was.\<close>

definition lru_age :: "nat \<Rightarrow> 2 word \<Rightarrow> bi_bucket \<Rightarrow> bi_bucket" where
  "lru_age e origin b =
     (\<lambda>i. if i < NR_SET \<and> i \<noteq> e \<and> lru_bit (b i) < origin then (b i)\<lparr>lru_bit := lru_bit (b i) + 1\<rparr> else b i)"

text \<open>A hit in \<open>bigkv_index_get\<close>.\<close>

definition touch_entry :: "nat \<Rightarrow> bi_bucket \<Rightarrow> bi_bucket" where
  "touch_entry e b = (let b1 = lru_age e (lru_bit (b e)) b in b1(e := (b1 e)\<lparr>lru_bit := 0\<rparr>))"

text \<open>The assignment of an entry followed by the ageing loop, as in both \<open>get\<close> and \<open>set\<close>.\<close>

definition put_entry :: "nat \<Rightarrow> bi_entry \<Rightarrow> bi_bucket \<Rightarrow> bi_bucket" where
  "put_entry e v b = lru_age e (lru_bit (b e)) (b(e := v\<lparr>lru_bit := 0\<rparr>))"

text \<open>
  The two nested loops of \<open>update_part_table\<close> over the entries of the partition from bucket \<open>base\<close> on; the
  table is dereferenced only for a dirty entry.
\<close>

fun persist_entries ::
  "ptr \<Rightarrow> (nat \<times> nat) list \<Rightarrow> (nat \<Rightarrow> bi_bucket) \<Rightarrow> memory \<Rightarrow> ((nat \<Rightarrow> bi_bucket) \<times> memory) res" where
  "persist_entries ptable [] bks m = Inr (bks, m)"
| "persist_entries ptable ((i, j) # ijs) bks m =
     (if dirty_bit (bks i j)
      then ebind (mem_buf m ptable) (\<lambda>buf.
           if blen buf < PART_TABLE_SIZE then Inl OutOfBounds
           else (case insert_to_ptable (bks i j) (bdat buf) of
                   None \<Rightarrow> Inl Abort
                 | Some f \<Rightarrow> persist_entries ptable ijs
                     (bks(i := (bks i)(j := (bks i j)\<lparr>dirty_bit := False\<rparr>)))
                     (m\<lparr>cells := (cells m)(ptable \<mapsto> buf\<lparr>bdat := f\<rparr>)\<rparr>)))
      else persist_entries ptable ijs bks m)"

definition part_slots :: "nat \<Rightarrow> (nat \<times> nat) list" where
  "part_slots base = List.product [base..<base + BUCKETS_IN_PART] [0..<NR_SET]"

definition update_part_table ::
  "ptr \<Rightarrow> nat \<Rightarrow> (nat \<Rightarrow> bi_bucket) \<Rightarrow> memory \<Rightarrow> ((nat \<Rightarrow> bi_bucket) \<times> memory) res" where
  "update_part_table ptable base bks m = persist_entries ptable (part_slots base) bks m"

subsection \<open>Writing a partition out, in one step\<close>

definition dirty_entries :: "(nat \<Rightarrow> bi_bucket) \<Rightarrow> (nat \<times> nat) list \<Rightarrow> bi_entry list" where
  "dirty_entries bks ijs = filter dirty_bit (map (\<lambda>(i, j). bks i j) ijs)"

definition clean_entries :: "(nat \<times> nat) list \<Rightarrow> (nat \<Rightarrow> bi_bucket) \<Rightarrow> nat \<Rightarrow> bi_bucket" where
  "clean_entries ijs bks = (\<lambda>i j. if (i, j) \<in> set ijs then (bks i j)\<lparr>dirty_bit := False\<rparr> else bks i j)"

text \<open>The loop of \<open>update_part_table\<close>, in one step.\<close>

lemma clean_not_dirty: "\<not> dirty_bit e \<Longrightarrow> e\<lparr>dirty_bit := False\<rparr> = e"
  by simp

lemma persist_entries_eq:
  "distinct ijs \<Longrightarrow> persist_entries t ijs bks m =
     (if dirty_entries bks ijs = [] then Inr (bks, m)
      else ebind (mem_buf m t) (\<lambda>buf.
        if blen buf < PART_TABLE_SIZE then Inl OutOfBounds
        else (case ins_all insert_to_ptable (dirty_entries bks ijs) (bdat buf) of
                None \<Rightarrow> Inl Abort
              | Some f \<Rightarrow> Inr (clean_entries ijs bks, m\<lparr>cells := (cells m)(t \<mapsto> buf\<lparr>bdat := f\<rparr>)\<rparr>))))"
proof (induction ijs arbitrary: bks m)
  case (Cons ij ijs)
  obtain i j where ij: "ij = (i, j)" by fastforce
  show ?case
  proof (cases "dirty_bit (bks i j)")
    case False
    then have "dirty_entries bks (ij # ijs) = dirty_entries bks ijs" "clean_entries (ij # ijs) bks = clean_entries ijs bks"
      using ij by (auto simp: dirty_entries_def clean_entries_def fun_eq_iff clean_not_dirty)
    with False Cons.IH [of bks m] Cons.prems show ?thesis by (simp only: ij persist_entries.simps if_False distinct.simps)
  next
    case True
    let ?b = "bks(i := (bks i)(j := (bks i j)\<lparr>dirty_bit := False\<rparr>))"
    have d: "dirty_entries bks (ij # ijs) = bks i j # dirty_entries bks ijs" using ij True by (simp add: dirty_entries_def)
    have d': "dirty_entries ?b ijs = dirty_entries bks ijs"
      using Cons.prems ij by (auto simp: dirty_entries_def intro!: arg_cong [where f = "filter dirty_bit"])
    have c: "clean_entries ijs ?b = clean_entries (ij # ijs) bks"
      using Cons.prems ij by (auto simp: clean_entries_def fun_eq_iff)
    have c': "?b = clean_entries (ij # ijs) bks" if "dirty_entries bks ijs = []"
    proof -
      have "\<not> dirty_bit (bks i' j')" if "(i', j') \<in> set ijs" for i' j'
        using \<open>dirty_entries bks ijs = []\<close> that by (auto simp: dirty_entries_def filter_empty_conv)
      then show ?thesis using ij by (auto simp: clean_entries_def fun_eq_iff clean_not_dirty)
    qed
    show ?thesis
    proof (cases "mem_buf m t")
      case (Inr buf)
      then have mb: "mem_buf (m\<lparr>cells := (cells m)(t \<mapsto> b)\<rparr>) t = Inr b" for b
        by (auto simp: mem_buf_def split: if_splits option.splits)
      show ?thesis using Inr True ij Cons d d' c c' mb
        by (cases "insert_to_ptable (bks i j) (bdat buf)") (auto split: option.splits)
    qed (use True ij d in simp)
  qed
qed (simp add: dirty_entries_def)

lemma part_slots_distinct: "distinct (part_slots base)"
  by (simp add: part_slots_def distinct_product)

lemma in_part_slots: "(i, j) \<in> set (part_slots base) \<longleftrightarrow> base \<le> i \<and> i < base + BUCKETS_IN_PART \<and> j < NR_SET"
  by (auto simp: part_slots_def)

lemma clean_entries_none: "dirty_entries bks ijs = [] \<Longrightarrow> clean_entries ijs bks = bks"
  by (auto simp: dirty_entries_def clean_entries_def fun_eq_iff clean_not_dirty filter_empty_conv)

lemma update_part_table_buckets:
  "update_part_table t base bks m = Inr (bks', m') \<Longrightarrow> bks' = clean_entries (part_slots base) bks"
  by (auto simp: update_part_table_def persist_entries_eq [OF part_slots_distinct] res_simps clean_entries_none
      split: if_splits option.splits)

subsection \<open>The LRU order of a bucket\<close>

text \<open>
  \<open>lru_ranks\<close>: the LRU bits. They are well-formed when the values below 3 are distinct and start from 0, and some
  entry has the rank 3, the next to be replaced.
\<close>

definition lru_ranks :: "bi_bucket \<Rightarrow> nat list" where
  "lru_ranks b = map (\<lambda>i. unat (lru_bit (b i))) [0..<NR_SET]"

definition ranks_ok :: "nat list \<Rightarrow> bool" where
  "ranks_ok rs \<longleftrightarrow> 3 \<in> set rs \<and> list_all (\<lambda>v. count_list rs v \<le> 1 \<and> (v \<in> set rs \<longrightarrow> list_all (\<lambda>u. u \<in> set rs) [0..<v])) [0, 1, 2]"

definition lru_ok :: "bi_bucket \<Rightarrow> bool" where
  "lru_ok b \<longleftrightarrow> ranks_ok (lru_ranks b)"

definition age_ranks :: "nat \<Rightarrow> nat list \<Rightarrow> nat list" where
  "age_ranks e rs = map (\<lambda>i. if i = e then 0 else if rs ! i < rs ! e then Suc (rs ! i) else rs ! i) [0..<4]"

definition rank_lists :: "nat list list" where
  "rank_lists = product_lists [[0, 1, 2, 3], [0, 1, 2, 3], [0, 1, 2, 3], [0, 1, 2, 3]]"

lemma age_ranks_all:
  "list_all (\<lambda>rs. ranks_ok rs \<longrightarrow> list_all (\<lambda>e. ranks_ok (age_ranks e rs) \<and>
     list_all (\<lambda>i. list_all (\<lambda>j. i \<noteq> e \<and> j \<noteq> e \<longrightarrow> (rs ! i < rs ! j \<longleftrightarrow> age_ranks e rs ! i < age_ranks e rs ! j)) [0, 1, 2, 3])
       [0, 1, 2, 3]) [0, 1, 2, 3]) rank_lists"
  by code_simp

lemma lru_ranks_nth [simp]: "i < NR_SET \<Longrightarrow> lru_ranks b ! i = unat (lru_bit (b i))" "length (lru_ranks b) = NR_SET"
  by (simp_all add: lru_ranks_def)

lemma unat_2word: "unat (w :: 2 word) < 4"
  using unsigned_less [where w = w] by simp

lemma lru_ranks_listed: "lru_ranks b \<in> set rank_lists"
proof -
  have "unat (lru_bit (b i)) \<in> {0, 1, 2, 3}" for i using unat_2word [of "lru_bit (b i)"] by auto
  then show ?thesis
    unfolding rank_lists_def product_lists_set by (simp add: lru_ranks_def bi_config upt_rec)
qed

lemma lru_step_ranks:
  assumes "e < NR_SET" and "\<And>i. i < NR_SET \<Longrightarrow> i \<noteq> e \<Longrightarrow>
      lru_bit (b' i) = (if lru_bit (b i) < lru_bit (b e) then lru_bit (b i) + 1 else lru_bit (b i))" and "lru_bit (b' e) = 0"
  shows "lru_ranks b' = age_ranks e (lru_ranks b)"
proof (rule nth_equalityI)
  fix i assume i: "i < length (lru_ranks b')"
  have "unat (lru_bit (b i) + 1) = Suc (unat (lru_bit (b i)))" if "lru_bit (b i) < lru_bit (b e)"
  proof -
    have "unat (lru_bit (b i)) < unat (lru_bit (b e))" using that by (simp add: word_less_nat_alt)
    then show ?thesis using unat_2word [of "lru_bit (b e)"] by (simp add: unat_word_ariths)
  qed
  with i assms show "lru_ranks b' ! i = age_ranks e (lru_ranks b) ! i"
    by (simp add: age_ranks_def word_less_nat_alt bi_config)
qed (simp add: age_ranks_def bi_config)

lemma put_entry_ranks: "e < NR_SET \<Longrightarrow> lru_ranks (put_entry e v b) = age_ranks e (lru_ranks b)"
  by (rule lru_step_ranks) (auto simp: put_entry_def lru_age_def)

lemma touch_entry_ranks: "e < NR_SET \<Longrightarrow> lru_ranks (touch_entry e b) = age_ranks e (lru_ranks b)"
  by (rule lru_step_ranks) (auto simp: touch_entry_def lru_age_def Let_def)

lemma age_ranks_ok:
  assumes "lru_ok b" and "e < NR_SET" and "lru_ranks b' = age_ranks e (lru_ranks b)"
  shows "lru_ok b' \<and> (\<forall>i j. i < NR_SET \<and> j < NR_SET \<and> i \<noteq> e \<and> j \<noteq> e \<longrightarrow>
     (lru_bit (b i) < lru_bit (b j) \<longleftrightarrow> lru_bit (b' i) < lru_bit (b' j)))"
proof -
  have in4: "i \<in> set [0, 1, 2, 3]" if "i < NR_SET" for i using that by (auto simp: bi_config)
  note a = age_ranks_all [unfolded list_all_iff, rule_format, OF lru_ranks_listed assms(1) [unfolded lru_ok_def] in4 [OF assms(2)]]
  have "lru_bit (b i) < lru_bit (b j) \<longleftrightarrow> lru_bit (b' i) < lru_bit (b' j)" if "i < NR_SET" "j < NR_SET" "i \<noteq> e" "j \<noteq> e" for i j
    using conjunct2 [OF a, rule_format, OF in4 [OF that(1)] in4 [OF that(2)]] that
    by (simp add: word_less_nat_alt assms(3) [symmetric])
  with conjunct1 [OF a] show ?thesis by (auto simp: lru_ok_def assms(3))
qed

lemma put_entry_apply:
  "put_entry e v b i = (if i = e then v\<lparr>lru_bit := 0\<rparr>
     else if i < NR_SET \<and> lru_bit (b i) < lru_bit (b e) then (b i)\<lparr>lru_bit := lru_bit (b i) + 1\<rparr> else b i)"
  by (simp add: put_entry_def lru_age_def)

lemma touch_entry_apply:
  "touch_entry e b i = (if i = e then (b e)\<lparr>lru_bit := 0\<rparr>
     else if i < NR_SET \<and> lru_bit (b i) < lru_bit (b e) then (b i)\<lparr>lru_bit := lru_bit (b i) + 1\<rparr> else b i)"
  by (simp add: touch_entry_def lru_age_def Let_def)

lemma get_target_entry_lt: "get_target_entry b fp = Some e \<Longrightarrow> e < NR_SET"
  by (auto simp: get_target_entry_def find_upt_Some split: option.splits if_splits)

lemma get_match_entry_Some:
  "get_match_entry b fp = Some e \<Longrightarrow> e < NR_SET \<and> bi_valid (b e) \<and> fingerprint (b e) = fp"
  by (auto simp: get_match_entry_def find_upt_Some bi_valid_def)

lemma get_match_entry_None:
  "get_match_entry b fp = None \<longleftrightarrow> (\<forall>i < NR_SET. bi_valid (b i) \<longrightarrow> fingerprint (b i) \<noteq> fp)"
  by (auto simp: get_match_entry_def find_upt_None bi_valid_def)

lemma put_entry_lru_ok: "lru_ok b \<Longrightarrow> e < NR_SET \<Longrightarrow> lru_ok (put_entry e v b)"
  using age_ranks_ok put_entry_ranks by blast

lemma touch_entry_lru_ok: "lru_ok b \<Longrightarrow> e < NR_SET \<Longrightarrow> lru_ok (touch_entry e b)"
  using age_ranks_ok touch_entry_ranks by blast

lemma lru_ok_victim: "lru_ok b \<Longrightarrow> \<exists>i < NR_SET. lru_bit (b i) = 3"
proof -
  assume "lru_ok b"
  then have "3 \<in> set (lru_ranks b)" by (simp add: lru_ok_def ranks_ok_def)
  then obtain i where "i < NR_SET" "unat (lru_bit (b i)) = unat (3 :: 2 word)" by (auto simp: lru_ranks_def)
  then show ?thesis using word_unat_eq_iff by blast
qed

text \<open>
  The LRU bits of a bucket keep their order. Starting from all 3, the operations that use an entry (\<open>put_entry\<close>: SET and the
  load from the partition table, \<open>touch_entry\<close>: a hit) make it the most recently used one, keep the order of the other
  three, never wrap the two bits around and always leave an entry with the rank 3, so \<open>get_target_entry\<close>
  has a candidate in every full bucket and fails only on a dirty one.
\<close>

theorem bi_lru_order:
  assumes "lru_ok b" and "e < NR_SET" and "b' \<in> {put_entry e v b, touch_entry e b}"
  shows "lru_ok b' \<and> lru_bit (b' e) = 0 \<and>
     (\<forall>i j. i < NR_SET \<and> j < NR_SET \<and> i \<noteq> e \<and> j \<noteq> e \<longrightarrow> (lru_bit (b i) < lru_bit (b j) \<longleftrightarrow> lru_bit (b' i) < lru_bit (b' j))) \<and>
     (get_target_entry b' fp = None \<longrightarrow> (\<exists>i < NR_SET. lru_bit (b' i) = 3 \<and> dirty_bit (b' i)))"
proof -
  have "lru_ranks b' = age_ranks e (lru_ranks b)" using assms(2,3) put_entry_ranks touch_entry_ranks by blast
  from age_ranks_ok [OF assms(1,2) this] have ok: "lru_ok b'"
    "\<forall>i j. i < NR_SET \<and> j < NR_SET \<and> i \<noteq> e \<and> j \<noteq> e \<longrightarrow> (lru_bit (b i) < lru_bit (b j) \<longleftrightarrow> lru_bit (b' i) < lru_bit (b' j))"
    by blast+
  moreover have "lru_bit (b' e) = 0" using assms(3) by (auto simp: put_entry_apply touch_entry_apply)
  moreover have "\<exists>i < NR_SET. lru_bit (b' i) = 3 \<and> dirty_bit (b' i)" if "get_target_entry b' fp = None"
    using that lru_ok_victim [OF ok(1)]
    by (auto simp: get_target_entry_def find_upt_Some find_upt_None split: option.splits if_splits)
  ultimately show ?thesis by blast
qed

theorem bi_lru_order_witness:
  "lru_ok (put_entry 2 init_bi_entry (\<lambda>_. init_bi_entry)) \<and> lru_bit (put_entry 2 init_bi_entry (\<lambda>_. init_bi_entry) 2) = 0"
proof -
  have "lru_ok (\<lambda>_. init_bi_entry)" by (simp add: lru_ok_def ranks_ok_def lru_ranks_def init_bi_entry_def bi_config upt_rec)
  from bi_lru_order [OF this, of 2 "put_entry 2 init_bi_entry (\<lambda>_. init_bi_entry)" init_bi_entry 7] show ?thesis
    by (simp add: bi_config)
qed

subsection \<open>A bucket is a write-back cache of its partition table\<close>

text \<open>
  \<open>bucket_view b M\<close>: what the index knows through the bucket \<open>b\<close> when the partition table is the map \<open>M\<close>.
  \<open>bucket_ok b M\<close>: dirty entries are in use, no two entries in use have one fingerprint, a clean entry in use is in the table,
  and a free entry has the fingerprint 0 of the cleared memory.
\<close>

definition bucket_view :: "bi_bucket \<Rightarrow> (u64 \<rightharpoonup> 14 word \<times> 42 word) \<Rightarrow> u64 \<rightharpoonup> 14 word \<times> 42 word" where
  "bucket_view b M fp = (case get_match_entry b fp of Some i \<Rightarrow> Some (bi_val (b i)) | None \<Rightarrow> M fp)"

definition bucket_ok :: "bi_bucket \<Rightarrow> (u64 \<rightharpoonup> 14 word \<times> 42 word) \<Rightarrow> bool" where
  "bucket_ok b M \<longleftrightarrow> (\<forall>i < NR_SET. dirty_bit (b i) \<longrightarrow> bi_valid (b i)) \<and>
     (\<forall>i < NR_SET. \<forall>j < NR_SET. bi_valid (b i) \<and> bi_valid (b j) \<and> fingerprint (b i) = fingerprint (b j) \<longrightarrow> i = j) \<and>
     (\<forall>i < NR_SET. bi_valid (b i) \<and> \<not> dirty_bit (b i) \<longrightarrow> M (fingerprint (b i)) = Some (bi_val (b i))) \<and>
     (\<forall>i < NR_SET. \<not> bi_valid (b i) \<longrightarrow> fingerprint (b i) = 0)"

lemma bucket_okD:
  assumes "bucket_ok b M" and "i < NR_SET"
  shows "dirty_bit (b i) \<Longrightarrow> bi_valid (b i)"
    and "j < NR_SET \<Longrightarrow> bi_valid (b i) \<Longrightarrow> bi_valid (b j) \<Longrightarrow> fingerprint (b i) = fingerprint (b j) \<Longrightarrow> i = j"
    and "bi_valid (b i) \<Longrightarrow> \<not> dirty_bit (b i) \<Longrightarrow> M (fingerprint (b i)) = Some (bi_val (b i))"
    and "\<not> bi_valid (b i) \<Longrightarrow> fingerprint (b i) = 0"
  using assms by (simp_all add: bucket_ok_def)

lemma bucket_view_hit:
  "bucket_ok b M \<Longrightarrow> i < NR_SET \<Longrightarrow> bi_valid (b i) \<Longrightarrow> bucket_view b M (fingerprint (b i)) = Some (bi_val (b i))"
  by (cases "get_match_entry b (fingerprint (b i))")
    (auto simp: bucket_view_def bucket_ok_def get_match_entry_None dest: get_match_entry_Some)

lemma bucket_view_miss:
  "(\<And>i. i < NR_SET \<Longrightarrow> bi_valid (b i) \<Longrightarrow> fingerprint (b i) \<noteq> fp) \<Longrightarrow> bucket_view b M fp = M fp"
  using get_match_entry_None [of b fp] by (auto simp: bucket_view_def)

text \<open>Two buckets that agree but for the LRU bits.\<close>

lemma bucket_view_cong:
  assumes "\<And>i. i < NR_SET \<Longrightarrow> fingerprint (b' i) = fingerprint (b i) \<and> bpba (b' i) = bpba (b i) \<and> bkv_size (b' i) = bkv_size (b i)"
  shows "bucket_view b' M = bucket_view b M"
proof
  fix fp
  have "get_match_entry b' fp = get_match_entry b fp"
    unfolding get_match_entry_def by (rule find_cong) (use assms in auto)
  then show "bucket_view b' M fp = bucket_view b M fp"
    using assms by (auto simp: bucket_view_def bi_val_def split: option.splits dest: get_match_entry_Some)
qed

lemma get_target_entry_cases:
  assumes "get_target_entry b fp = Some e"
  shows "e < NR_SET \<and> (fingerprint (b e) = fp \<or>
     (\<forall>i < NR_SET. fingerprint (b i) \<noteq> fp) \<and> (\<not> bi_valid (b e) \<or> \<not> dirty_bit (b e) \<and> lru_bit (b e) = 3))"
  using assms by (auto simp: get_target_entry_def find_upt_Some find_upt_None bi_valid_def split: option.splits if_splits)

lemma put_entry_fields:
  "i \<noteq> e \<Longrightarrow> fingerprint (put_entry e v b i) = fingerprint (b i) \<and> bpba (put_entry e v b i) = bpba (b i) \<and>
     bkv_size (put_entry e v b i) = bkv_size (b i) \<and> dirty_bit (put_entry e v b i) = dirty_bit (b i)"
  "fingerprint (put_entry e v b e) = fingerprint v" "bpba (put_entry e v b e) = bpba v"
  "bkv_size (put_entry e v b e) = bkv_size v" "dirty_bit (put_entry e v b e) = dirty_bit v"
  by (simp_all add: put_entry_apply)

lemma put_entry_valid:
  "bi_valid (put_entry e v b i) = (if i = e then bi_valid v else bi_valid (b i))"
  "bi_val (put_entry e v b i) = (if i = e then bi_val v else bi_val (b i))"
  "fingerprint (put_entry e v b i) = (if i = e then fingerprint v else fingerprint (b i))"
  "dirty_bit (put_entry e v b i) = (if i = e then dirty_bit v else dirty_bit (b i))"
  using put_entry_fields [where v = v and b = b] by (auto simp: bi_valid_def bi_val_def)

lemma get_target_other:
  assumes "bucket_ok b M" and "get_target_entry b fp = Some e" and "fp \<noteq> 0" and "i < NR_SET" and "i \<noteq> e" and "bi_valid (b i)"
  shows "fingerprint (b i) \<noteq> fp"
proof
  assume fp: "fingerprint (b i) = fp"
  with get_target_entry_cases [OF assms(2)] assms(4) have e: "e < NR_SET" "fingerprint (b e) = fp" by blast+
  with bucket_okD(4) [OF assms(1) e(1)] assms(3) have "bi_valid (b e)" by blast
  with bucket_okD(2) [OF assms(1,4) e(1) assms(6)] e fp assms(5) show False by simp
qed

lemma put_entry_ok:
  assumes ok: "bucket_ok b M" and e: "get_target_entry b fp = Some e" "fp \<noteq> 0"
    and v: "fingerprint v = fp" "bi_valid v" "dirty_bit v \<or> M fp = Some (bi_val v)"
  shows "bucket_ok (put_entry e v b) M"
proof -
  note ne = get_target_other [OF ok e]
  have "i = j" if "i < NR_SET" "j < NR_SET" "bi_valid (put_entry e v b i)" "bi_valid (put_entry e v b j)"
    "fingerprint (put_entry e v b i) = fingerprint (put_entry e v b j)" for i j
    using that ne [of i] ne [of j] v(1) bucket_okD(2) [OF ok that(1,2)] by (auto simp: put_entry_valid split: if_splits)
  moreover have "M (fingerprint (put_entry e v b i)) = Some (bi_val (put_entry e v b i))"
    if "i < NR_SET" "bi_valid (put_entry e v b i)" "\<not> dirty_bit (put_entry e v b i)" for i
    using that v bucket_okD(3) [OF ok that(1)] by (simp add: put_entry_valid split: if_splits)
  moreover have "bi_valid (put_entry e v b i)" if "i < NR_SET" "dirty_bit (put_entry e v b i)" for i
    using that v bucket_okD(1) [OF ok that(1)] by (simp add: put_entry_valid split: if_splits)
  moreover have "fingerprint (put_entry e v b i) = 0" if "i < NR_SET" "\<not> bi_valid (put_entry e v b i)" for i
    using that v bucket_okD(4) [OF ok that(1)] by (simp add: put_entry_valid split: if_splits)
  ultimately show ?thesis unfolding bucket_ok_def by blast
qed

lemma put_entry_view:
  assumes ok: "bucket_ok b M" and e: "get_target_entry b fp = Some e" "fp \<noteq> 0"
    and v: "fingerprint v = fp" "bi_valid v" "dirty_bit v \<or> M fp = Some (bi_val v)"
  shows "bucket_view (put_entry e v b) M = (bucket_view b M)(fp \<mapsto> bi_val v)"
proof -
  have lt: "e < NR_SET" by (rule get_target_entry_lt [OF e(1)])
  note ne = get_target_other [OF ok e] and ok' = put_entry_ok [OF assms]
  have "bucket_view (put_entry e v b) M fp' = ((bucket_view b M)(fp \<mapsto> bi_val v)) fp'" for fp'
  proof (cases "\<exists>i < NR_SET. bi_valid (put_entry e v b i) \<and> fingerprint (put_entry e v b i) = fp'")
    case True
    then obtain i where i: "i < NR_SET" "bi_valid (put_entry e v b i)" "fingerprint (put_entry e v b i) = fp'" by blast
    have "bucket_view (put_entry e v b) M fp' = Some (bi_val (put_entry e v b i))"
      using bucket_view_hit [OF ok' i(1,2)] i(3) by simp
    then show ?thesis using i ne [of i] v bucket_view_hit [OF ok, of i] by (auto simp: put_entry_valid split: if_splits)
  next
    case False
    then have miss: "bucket_view (put_entry e v b) M fp' = M fp'" by (intro bucket_view_miss) blast
    have n: "fp' \<noteq> fp" using False lt v(1,2) put_entry_valid(1,3) [of e v b e] by auto
    have o: "i = e" if "bi_valid (b i)" "fingerprint (b i) = fp'" "i < NR_SET" for i
      using False that put_entry_valid(1,3) [of e v b i] by (metis (full_types))
    have "bucket_view b M fp' = M fp'"
    proof (cases "bi_valid (b e) \<and> fingerprint (b e) = fp'")
      case True
      with get_target_entry_cases [OF e(1)] n have "\<not> dirty_bit (b e)" by blast
      with True bucket_okD(3) [OF ok lt] bucket_view_hit [OF ok lt] show ?thesis by simp
    next
      case False
      with o show ?thesis by (intro bucket_view_miss) blast
    qed
    with miss n show ?thesis by simp
  qed
  then show ?thesis by blast
qed

text \<open>
  C8: replacing an entry loses nothing. Putting an entry for the fingerprint \<open>fp\<close> where \<open>get_target_entry\<close> says, as SET does (a
  dirty entry) and GET does with what it found in the partition table, changes what is known through the bucket at \<open>fp\<close> only: the
  entry that had to leave is clean, hence in the partition table. The bucket stays well-formed.
\<close>

theorem bi_put_refines:
  assumes ok: "bucket_ok b M" and e: "get_target_entry b fp = Some e" "fp \<noteq> 0"
    and v: "fingerprint v = fp" "bi_valid v" "dirty_bit v \<or> M fp = Some (bi_val v)"
  shows "bucket_ok (put_entry e v b) M \<and> bucket_view (put_entry e v b) M = (bucket_view b M)(fp \<mapsto> bi_val v)"
  using put_entry_ok [OF assms] put_entry_view [OF assms] by blast

theorem bi_put_refines_witness:
  "bucket_view (put_entry 0 (init_bi_entry\<lparr>fingerprint := 9, dirty_bit := True, bkv_size := 8, bpba := 1\<rparr>) (\<lambda>_. init_bi_entry))
     Map.empty = [9 \<mapsto> (8, 1)]"
proof -
  let ?b = "\<lambda>_ :: nat. init_bi_entry" and ?v = "init_bi_entry\<lparr>fingerprint := 9, dirty_bit := True, bkv_size := 8, bpba := 1\<rparr>"
  have inv: "\<not> bi_valid init_bi_entry" "bi_valid ?v" by (simp_all add: bi_valid_def init_bi_entry_def BI_PBA_INVALID_def)
  have ok: "bucket_ok ?b Map.empty" using inv by (simp add: bucket_ok_def init_bi_entry_def)
  have "bucket_view ?b Map.empty fp = None" for fp using inv by (subst bucket_view_miss) simp_all
  then have "bucket_view ?b Map.empty = Map.empty" by blast
  moreover have "get_target_entry ?b 9 = Some 0"
    by (simp add: get_target_entry_def init_bi_entry_def bi_config upt_rec)
  ultimately show ?thesis
    using bi_put_refines [OF ok, of 9 0 ?v] inv by (simp add: init_bi_entry_def bi_val_def)
qed

text \<open>Persisting a partition.\<close>

definition part_distinct :: "nat \<Rightarrow> (nat \<Rightarrow> bi_bucket) \<Rightarrow> bool" where
  "part_distinct base bks \<longleftrightarrow> (\<forall>(i, j) \<in> set (part_slots base). \<forall>(i', j') \<in> set (part_slots base).
     bi_valid (bks i j) \<and> bi_valid (bks i' j') \<and> fingerprint (bks i j) = fingerprint (bks i' j') \<longrightarrow> (i, j) = (i', j'))"

definition part_ok :: "nat \<Rightarrow> (nat \<Rightarrow> bi_bucket) \<Rightarrow> (u64 \<rightharpoonup> 14 word \<times> 42 word) \<Rightarrow> bool" where
  "part_ok base bks M \<longleftrightarrow> (\<forall>i. base \<le> i \<and> i < base + BUCKETS_IN_PART \<longrightarrow> bucket_ok (bks i) M)"

lemma clean_entries_apply:
  "(i, j) \<in> set ijs \<Longrightarrow> clean_entries ijs bks i j = (bks i j)\<lparr>dirty_bit := False\<rparr>"
  by (simp add: clean_entries_def)

lemma clean_entries_fields [simp]:
  "fingerprint (clean_entries ijs bks i j) = fingerprint (bks i j)" "bpba (clean_entries ijs bks i j) = bpba (bks i j)"
  "bkv_size (clean_entries ijs bks i j) = bkv_size (bks i j)" "lru_bit (clean_entries ijs bks i j) = lru_bit (bks i j)"
  by (simp_all add: clean_entries_def)

lemma clean_entries_valid [simp]:
  "bi_valid (clean_entries ijs bks i j) = bi_valid (bks i j)" "bi_val (clean_entries ijs bks i j) = bi_val (bks i j)"
  by (simp_all add: bi_valid_def bi_val_def)

lemma set_dirty_entries: "e \<in> set (dirty_entries bks ijs) \<longleftrightarrow> (\<exists>(i, j) \<in> set ijs. e = bks i j \<and> dirty_bit (bks i j))"
  by (force simp: dirty_entries_def)

lemma part_ok_dirty: "part_ok base bks M \<Longrightarrow> \<forall>e \<in> set (dirty_entries bks (part_slots base)). bi_valid e"
  by (auto simp: set_dirty_entries part_ok_def in_part_slots bucket_ok_def)

lemma persist_found:
  assumes ins: "ins_all insert_to_ptable (dirty_entries bks (part_slots base)) f = Some f'" and ok: "pt_ok f"
    "part_ok base bks (pt_map f)" and dist: "part_distinct base bks"
    and ij: "(i, j) \<in> set (part_slots base)" "bi_valid (bks i j)"
  shows "pt_map f' (fingerprint (bks i j)) = Some (bi_val (bks i j))"
proof -
  let ?es = "dirty_entries bks (part_slots base)"
  note val = part_ok_dirty [OF ok(2)]
  have same: "e = bks i j" if "e \<in> set ?es" "fingerprint e = fingerprint (bks i j)" for e
  proof -
    from that(1) obtain i' j' where e: "(i', j') \<in> set (part_slots base)" "e = bks i' j'" by (auto simp: set_dirty_entries)
    with val that(1) have "bi_valid (bks i' j')" by blast
    with dist e ij that(2) have "(i', j') = (i, j)" unfolding part_distinct_def by blast
    with e(2) show ?thesis by blast
  qed
  show ?thesis
  proof (cases "bks i j \<in> set ?es")
    case True
    show ?thesis by (rule pt.ins_all_found [OF ins val ok(1) True]) (use same in blast)
  next
    case False
    then have "\<not> dirty_bit (bks i j)" using ij(1) by (auto simp: set_dirty_entries)
    moreover have "bucket_ok (bks i) (pt_map f)" "j < NR_SET" using ok(2) ij(1) by (auto simp: part_ok_def in_part_slots)
    ultimately have "pt_map f (fingerprint (bks i j)) = Some (bi_val (bks i j))" using ij(2) bucket_okD(3) by blast
    moreover have "pt_map f' (fingerprint (bks i j)) = pt_map f (fingerprint (bks i j))"
      by (rule pt.ins_all_other [OF ins val ok(1)]) (use same False in blast)
    ultimately show ?thesis by simp
  qed
qed

lemma mem_buf_Inr: "mem_buf m p = Inr b \<longleftrightarrow> p \<noteq> NULL \<and> cells m p = Some b"
  by (auto simp: mem_buf_def split: option.splits)

lemma persist_refines:
  assumes buf: "t \<noteq> NULL" "cells m t = Some buf" "PART_TABLE_SIZE \<le> blen buf" and ok: "pt_ok (bdat buf)"
    "part_ok base bks (pt_map (bdat buf))" "part_distinct base bks"
    and ins: "ins_all insert_to_ptable (dirty_entries bks (part_slots base)) (bdat buf) = Some f"
  shows "update_part_table t base bks m =
       Inr (clean_entries (part_slots base) bks, m\<lparr>cells := (cells m)(t \<mapsto> buf\<lparr>bdat := f\<rparr>)\<rparr>) \<and> pt_ok f \<and>
     part_ok base (clean_entries (part_slots base) bks) (pt_map f) \<and> part_distinct base (clean_entries (part_slots base) bks) \<and>
     (\<forall>i j. (i, j) \<in> set (part_slots base) \<longrightarrow> \<not> dirty_bit (clean_entries (part_slots base) bks i j)) \<and>
     (\<forall>i fp. base \<le> i \<and> i < base + BUCKETS_IN_PART \<and>
        (\<forall>i' j'. (i', j') \<in> set (part_slots base) \<and> i' \<noteq> i \<and> dirty_bit (bks i' j') \<longrightarrow> fingerprint (bks i' j') \<noteq> fp) \<longrightarrow>
        bucket_view (clean_entries (part_slots base) bks i) (pt_map f) fp = bucket_view (bks i) (pt_map (bdat buf)) fp)"
proof -
  let ?s = "part_slots base" and ?es = "dirty_entries bks (part_slots base)" and ?b = "clean_entries (part_slots base) bks"
  note val = part_ok_dirty [OF ok(2)]
  have mb: "mem_buf m t = Inr buf" using buf by (simp add: mem_buf_Inr)
  have u: "update_part_table t base bks m = Inr (?b, m\<lparr>cells := (cells m)(t \<mapsto> buf\<lparr>bdat := f\<rparr>)\<rparr>)"
  proof (cases "?es = []")
    case True
    with ins have "bdat buf = f" by simp
    then have "m\<lparr>cells := (cells m)(t \<mapsto> buf\<lparr>bdat := f\<rparr>)\<rparr> = m" using buf(2) by (simp add: fun_upd_idem)
    with True show ?thesis
      by (simp add: update_part_table_def persist_entries_eq [OF part_slots_distinct] clean_entries_none)
  next
    case False
    with ins buf mb show ?thesis by (simp add: update_part_table_def persist_entries_eq [OF part_slots_distinct])
  qed
  have okf: "pt_ok f" using pt.ins_all_ok [OF ins val ok(1)] by blast
  have cl: "\<not> dirty_bit (?b i j)" if "(i, j) \<in> set ?s" for i j using that by (simp add: clean_entries_apply)
  have "bucket_ok (?b i) (pt_map f)" if i: "base \<le> i" "i < base + BUCKETS_IN_PART" for i
  proof -
    have bo: "bucket_ok (bks i) (pt_map (bdat buf))" using ok(2) i by (simp add: part_ok_def)
    have sl: "(i, j) \<in> set ?s" if "j < NR_SET" for j using i that by (simp add: in_part_slots)
    have "pt_map f (fingerprint (bks i j)) = Some (bi_val (bks i j))" if "j < NR_SET" "bi_valid (bks i j)" for j
      by (rule persist_found [OF ins ok sl [OF that(1)] that(2)])
    then show ?thesis using bucket_okD(2,4) [OF bo] cl sl unfolding bucket_ok_def by simp
  qed
  then have "part_ok base ?b (pt_map f)" by (simp add: part_ok_def)
  moreover have "part_distinct base ?b" using ok(3) by (simp add: part_distinct_def)
  moreover have "bucket_view (?b i) (pt_map f) fp = bucket_view (bks i) (pt_map (bdat buf)) fp"
    if i: "base \<le> i" "i < base + BUCKETS_IN_PART"
      and o: "\<forall>i' j'. (i', j') \<in> set ?s \<and> i' \<noteq> i \<and> dirty_bit (bks i' j') \<longrightarrow> fingerprint (bks i' j') \<noteq> fp" for i fp
  proof -
    have "bucket_view (?b i) (pt_map f) = bucket_view (bks i) (pt_map f)" by (rule bucket_view_cong) simp
    moreover have "pt_map f fp = pt_map (bdat buf) fp" if none: "get_match_entry (bks i) fp = None"
    proof (rule pt.ins_all_other [OF ins val ok(1)], rule ballI)
      fix e assume e: "e \<in> set ?es"
      then obtain i' j' where "(i', j') \<in> set ?s" "e = bks i' j'" "dirty_bit (bks i' j')" by (auto simp: set_dirty_entries)
      with val e o none show "fingerprint e \<noteq> fp" by (cases "i' = i") (auto simp: get_match_entry_None in_part_slots)
    qed
    ultimately show ?thesis by (simp add: bucket_view_def split: option.splits)
  qed
  ultimately show ?thesis using u okf cl by blast
qed

text \<open>
  C9: writing a partition out keeps what is known. When the table has room for every dirty entry of the four buckets, \<open>update_part_table\<close> puts them into a
  well-formed table: the table is again well-formed, every entry in use is in it and clean, and a lookup through a bucket of the
  partition gives what it gave, for every fingerprint that is not dirty in another bucket. The hypothesis is that the fingerprints
  in use are distinct in the partition: the table has no other key, and the code does not see to it.
\<close>

theorem bi_persist_refines:
  assumes buf: "t \<noteq> NULL" "cells m t = Some buf" "PART_TABLE_SIZE \<le> blen buf" and ok: "pt_ok (bdat buf)"
    "part_ok base bks (pt_map (bdat buf))" "part_distinct base bks"
    and ins: "ins_all insert_to_ptable (dirty_entries bks (part_slots base)) (bdat buf) = Some f"
  shows "\<exists>bks' m'. update_part_table t base bks m = Inr (bks', m') \<and> cells m' t = Some (buf\<lparr>bdat := f\<rparr>) \<and> pt_ok f \<and>
     part_ok base bks' (pt_map f) \<and> part_distinct base bks' \<and>
     (\<forall>i j. (i, j) \<in> set (part_slots base) \<longrightarrow> \<not> dirty_bit (bks' i j)) \<and>
     (\<forall>i fp. base \<le> i \<and> i < base + BUCKETS_IN_PART \<and>
        (\<forall>i' j'. (i', j') \<in> set (part_slots base) \<and> i' \<noteq> i \<and> dirty_bit (bks i' j') \<longrightarrow> fingerprint (bks i' j') \<noteq> fp) \<longrightarrow>
        bucket_view (bks' i) (pt_map f) fp = bucket_view (bks i) (pt_map (bdat buf)) fp)"
  using persist_refines [OF assms] by (intro exI [of _ "clean_entries (part_slots base) bks"]
      exI [of _ "m\<lparr>cells := (cells m)(t \<mapsto> buf\<lparr>bdat := f\<rparr>)\<rparr>"]) simp

definition sample_bks :: "nat \<Rightarrow> bi_bucket" where
  "sample_bks = (\<lambda>_ _. init_bi_entry)(0 := (\<lambda>_. init_bi_entry)(0 := init_bi_entry\<lparr>fingerprint := 9, dirty_bit := True, bkv_size := 8, bpba := 1\<rparr>))"

theorem bi_persist_refines_witness:
  "\<exists>m bks' m' f. update_part_table 1 0 sample_bks m = Inr (bks', m') \<and> pt_ok f \<and> cells m' 1 = Some \<lparr>blen = PART_TABLE_SIZE, bdat = f\<rparr> \<and>
     part_ok 0 bks' (pt_map f) \<and> dirty_bit (sample_bks 0 0) \<and> \<not> dirty_bit (bks' 0 0)"
proof -
  let ?v = "init_bi_entry\<lparr>fingerprint := 9, dirty_bit := True, bkv_size := 8, bpba := 1\<rparr>"
  let ?m = "\<lparr>cells = [1 \<mapsto> \<lparr>blen = PART_TABLE_SIZE, bdat = pt_empty\<rparr>], brk = 2\<rparr>"
  have sb: "sample_bks i j = (if i = 0 \<and> j = 0 then ?v else init_bi_entry)" for i j by (simp add: sample_bks_def)
  have inv: "\<not> bi_valid init_bi_entry" "bi_valid ?v" "\<not> dirty_bit init_bi_entry" "fingerprint init_bi_entry = 0"
    by (simp_all add: bi_valid_def init_bi_entry_def BI_PBA_INVALID_def)
  have ok: "part_ok 0 sample_bks (pt_map pt_empty)" "part_distinct 0 sample_bks"
    using inv by (auto simp: part_ok_def bucket_ok_def part_distinct_def sb)
  have de: "dirty_entries sample_bks (part_slots 0) = [?v]"
    using inv by (simp add: dirty_entries_def part_slots_def bi_config upt_rec sb)
  have "pt_slot 9 0 < PART_TABLE_ENTRYS" by simp
  then have "insert_to_ptable ?v pt_empty \<noteq> None"
    unfolding insert_to_ptable_None by (auto simp: pt_used_def pt_empty_get BI_MAX_HOP_def intro!: exI [of _ 0])
  then obtain f where "ins_all insert_to_ptable (dirty_entries sample_bks (part_slots 0)) pt_empty = Some f"
    by (auto simp: de)
  with bi_persist_refines [of 1 ?m "\<lparr>blen = PART_TABLE_SIZE, bdat = pt_empty\<rparr>" 0 sample_bks f] ok pt_empty_ok
  obtain bks' m' where "update_part_table 1 0 sample_bks ?m = Inr (bks', m')" "cells m' 1 = Some \<lparr>blen = PART_TABLE_SIZE, bdat = f\<rparr>"
    "pt_ok f" "part_ok 0 bks' (pt_map f)" "\<forall>i j. (i, j) \<in> set (part_slots 0) \<longrightarrow> \<not> dirty_bit (bks' i j)" by auto
  moreover have "(0, 0) \<in> set (part_slots 0)" by (simp add: in_part_slots bi_config)
  moreover have "dirty_bit (sample_bks 0 0)" by (simp add: sb)
  ultimately show ?thesis by blast
qed

end
