(* ===== verification/Bigkv_Index.thy ===== *)
theory Bigkv_Index
  imports Bi_Bucket
begin

section \<open>The BigKV index (\<open>src/bigkv_index.c\<close>, \<open>include/bigkv_index.h\<close>)\<close>

text \<open>
  A two-level index. In memory, \<open>2\<^sup>2\<^sup>2\<close> buckets of four entries, each with the 64-bit fingerprint of its
  key, the size and address of its pair, a dirty bit and two LRU bits. Four buckets form a
  partition, which has one partition table of 1024 entries in the log, searched by open addressing; an entry
  leaves its bucket only clean, that is after the dirty entries of its partition have been written
  to a new version of that table.

  The in-memory part is a record of functions, the partition table is the 16 KiB of bytes the code casts to
  \<open>struct hash_part_table\<close>: \<open>pt_get\<close> and \<open>pt_put\<close> read and write its bit-fields. The one loop by \<open>goto\<close>
  (\<open>get_target_retry\<close>) is a recursive function with a termination proof. The statistics of the time spent in SET
  are left out.
\<close>

subsection \<open>Data\<close>

record hash_partition =
  pflying :: bool
  ppba :: "42 word"

record bigkv_index =
  bi_buckets :: "nat \<Rightarrow> bi_bucket"
  bi_parts :: "nat \<Rightarrow> hash_partition"

datatype bi_step = BI_STEP_INIT | BI_STEP_KEY_MISMATCH | BI_STEP_UPDATE_TABLE | BI_STEP_WRITE_PTABLE | BI_STEP_WRITE_KV

record bi_params =
  read_step :: bi_step
  write_step :: bi_step

definition make_bi_params :: bi_params where
  "make_bi_params = \<lparr>read_step = BI_STEP_INIT, write_step = BI_STEP_INIT\<rparr>"

definition bigkv_index_init :: bigkv_index where
  "bigkv_index_init = \<lparr>bi_buckets = (\<lambda>_ _. init_bi_entry), bi_parts = (\<lambda>_. \<lparr>pflying = False, ppba = BI_PBA_INVALID\<rparr>)\<rparr>"

subsection \<open>Callbacks\<close>

definition set_temp_buf :: "ptr \<Rightarrow> ptr \<Rightarrow> 'p handler \<Rightarrow> 'p handler" where
  "set_temp_buf req p h = h\<lparr>req_arr := (req_arr h)(req := (req_arr h req)\<lparr>temp_buf := p\<rparr>)\<rparr>"

definition cb_part_table_read :: "ptr \<Rightarrow> bi_params handler \<Rightarrow> bi_params handler res" where
  "cb_part_table_read req h =
     (case params (req_arr h req) of None \<Rightarrow> Inl NullDeref | Some p \<Rightarrow>
      retry_req req (set_params req (p\<lparr>write_step := BI_STEP_WRITE_PTABLE, read_step := BI_STEP_UPDATE_TABLE\<rparr>) h))"

definition bi_cb_keycmp :: "ptr \<Rightarrow> bi_params handler \<Rightarrow> bi_params handler res" where
  "bi_cb_keycmp req h =
     (let r = req_arr h req
      in ebind (keycmp_k_v (rkey r) (rvalue r) (mem h)) (\<lambda>c.
         if c = 0 then net_end_req req h
         else (case params r of None \<Rightarrow> Inl NullDeref | Some p \<Rightarrow>
               retry_req req (set_params req (p\<lparr>read_step := BI_STEP_KEY_MISMATCH\<rparr>) h))))"

definition cb_part_table_write_for_get :: "ptr \<Rightarrow> 'p handler \<Rightarrow> 'p handler res" where
  "cb_part_table_write_for_get arg h = ebind (mem_free arg (mem h)) (\<lambda>m. Inr (h\<lparr>mem := m\<rparr>))"

definition cb_part_table_write :: "ptr \<Rightarrow> bi_params handler \<Rightarrow> bi_params handler res" where
  "cb_part_table_write req h =
     (case params (req_arr h req) of None \<Rightarrow> Inl NullDeref | Some p \<Rightarrow>
      (let h1 = set_params req (p\<lparr>write_step := BI_STEP_WRITE_KV\<rparr>) h
       in ebind (mem_free (temp_buf (req_arr h1 req)) (mem h1)) (\<lambda>m. retry_req req (h1\<lparr>mem := m\<rparr>))))"

fun bi_run :: "bi_params runner" where
  "bi_run CB_net_end_req arg h = net_end_req arg h"
| "bi_run CB_reap_seg_buf arg h = Inr (reap_seg_buf arg h)"
| "bi_run CB_keycmp arg h = bi_cb_keycmp arg h"
| "bi_run CB_part_table_read arg h = cb_part_table_read arg h"
| "bi_run CB_part_table_write arg h = cb_part_table_write arg h"
| "bi_run CB_part_table_write_for_get arg h = cb_part_table_write_for_get arg h"

subsection \<open>GET\<close>

definition bucket_idx :: "u64 \<Rightarrow> nat" where
  "bucket_idx hh = unat hh mod NR_BUCKET"

definition part_idx :: "u64 \<Rightarrow> nat" where
  "part_idx hh = bucket_idx hh div BUCKETS_IN_PART"

definition part_base :: "u64 \<Rightarrow> nat" where
  "part_base hh = part_idx hh * BUCKETS_IN_PART"

definition bi_ensure_params :: "ptr \<Rightarrow> bi_params handler \<Rightarrow> bi_params \<times> bi_params handler" where
  "bi_ensure_params req h =
     (case params (req_arr h req) of Some p \<Rightarrow> (p, h) | None \<Rightarrow> (make_bi_params, set_params req make_bi_params h))"

definition set_bucket :: "nat \<Rightarrow> bi_bucket \<Rightarrow> bigkv_index \<Rightarrow> bigkv_index" where
  "set_bucket i b bi = bi\<lparr>bi_buckets := (bi_buckets bi)(i := b)\<rparr>"

definition set_part :: "nat \<Rightarrow> hash_partition \<Rightarrow> bigkv_index \<Rightarrow> bigkv_index" where
  "set_part i p bi = bi\<lparr>bi_parts := (bi_parts bi)(i := p)\<rparr>"

lemma ebind_cong [fundef_cong]:
  "r = r' \<Longrightarrow> (\<And>x. r' = Inr x \<Longrightarrow> f x = g x) \<Longrightarrow> ebind r f = ebind r' g"
  by (cases r') simp_all

lemma dev_abs_write_null: "dev_abs_write run pba n NULL cb h \<noteq> Inr x"
  by (cases "cells (mem h) (staged_seg_buf (dev h))")
    (auto simp: dev_abs_write_def Let_def memcpy_def mem_buf_def ebind_def split: sum.splits if_splits)

text \<open>
  From the label \<open>get_target_retry\<close>: find an entry of the bucket for the entry \<open>ef\<close> read from the partition table; when
  the least recently used one is dirty, write the partition table out and try again, without a table. \<open>hh\<close> is the
  upper hash of the key.
\<close>

function get_target_retry ::
  "u64 \<Rightarrow> u64 \<Rightarrow> bi_entry_f \<Rightarrow> ptr \<Rightarrow> bigkv_index \<Rightarrow> bi_params handler \<Rightarrow> (int \<times> bigkv_index \<times> bi_params handler) res" where
  "get_target_retry hh fp ef ptable bi h =
     (case get_target_entry (bi_buckets bi (bucket_idx hh)) fp of
        Some e \<Rightarrow>
          (let b = put_entry e \<lparr>fingerprint = f_fingerprint ef, reserve = 0, dirty_bit = False, lru_bit = 0,
                                bkv_size = f_kv_size ef, bpba = f_pba ef\<rparr> (bi_buckets bi (bucket_idx hh))
           in ebind (if ptable \<noteq> NULL then mem_free ptable (mem h) else Inr (mem h)) (\<lambda>m.
              Inr (0, set_bucket (bucket_idx hh) b bi, h\<lparr>mem := m\<rparr>)))
      | None \<Rightarrow>
          ebind (update_part_table ptable (part_base hh) (bi_buckets bi) (mem h)) (\<lambda>(bks, m).
          ebind (make_callback CB_part_table_write_for_get ptable (h\<lparr>mem := m\<rparr>)) (\<lambda>(cb, h1).
          ebind (get_next_pba (of_nat PART_TABLE_SIZE) h1) (\<lambda>(pba, h2).
          ebind (dev_abs_write bi_run (ucast (ucast pba :: 42 word)) (of_nat PART_TABLE_GRAINS) ptable cb h2) (\<lambda>(_, h3).
          get_target_retry hh fp ef NULL
            (set_part (part_idx hh) ((bi_parts bi (part_idx hh))\<lparr>ppba := ucast pba\<rparr>) (bi\<lparr>bi_buckets := bks\<rparr>)) h3)))))"
  by pat_completeness auto

termination
  by (relation "measure (\<lambda>(_, _, _, ptable, _, _). ptable)") (auto simp: dev_abs_write_null intro!: gr0I)

declare get_target_retry.simps [simp del]

text \<open>From the label \<open>bi_update_table\<close>.\<close>

definition bi_update_table :: "ptr \<Rightarrow> bigkv_index \<Rightarrow> bi_params handler \<Rightarrow> (int \<times> bigkv_index \<times> bi_params handler) res" where
  "bi_update_table req bi h =
     (let r = req_arr h req; ptable = temp_buf r; fp = hash_low (rkey r)
      in ebind (mem_buf (mem h) ptable) (\<lambda>buf.
         if blen buf < PART_TABLE_SIZE then Inl OutOfBounds
         else (case get_match_entry_f (bdat buf) fp of
                 None \<Rightarrow> Inr (-1, bi, h)
               | Some k \<Rightarrow>
                   (let ef = pt_get (bdat buf) k
                    in ebind (make_callback CB_keycmp req (set_temp_buf req NULL h)) (\<lambda>(cb, h1).
                       ebind (dev_abs_read bi_run (ucast (f_pba ef)) (ucast (f_kv_size ef)) (vvalue (rvalue r)) cb h1) (\<lambda>(_, h2).
                       get_target_retry (hash_high (rkey r)) fp ef ptable bi h2))))))"

definition bigkv_index_get :: "ptr \<Rightarrow> bigkv_index \<Rightarrow> bi_params handler \<Rightarrow> (int \<times> bigkv_index \<times> bi_params handler) res" where
  "bigkv_index_get req bi h =
     (case bi_ensure_params req h of (p, h0) \<Rightarrow>
      if read_step p = BI_STEP_UPDATE_TABLE then bi_update_table req bi h0
      else
       (let r = req_arr h0 req; hh = hash_high (rkey r); b = bi_buckets bi (bucket_idx hh)
        in case get_match_entry b (hash_low (rkey r)) of
             Some e \<Rightarrow>
               ebind (make_callback CB_keycmp req h0) (\<lambda>(cb, h1).
               ebind (dev_abs_read bi_run (ucast (bpba (b e))) (ucast (bkv_size (b e))) (vvalue (rvalue r)) cb h1) (\<lambda>(_, h2).
               Inr (0, set_bucket (bucket_idx hh) (touch_entry e b) bi, h2)))
           | None \<Rightarrow>
               (case mem_alloc PART_TABLE_SIZE (uninit (brk (mem h0))) (mem h0) of (t, m) \<Rightarrow>
                ebind (make_callback CB_part_table_read req (set_temp_buf req t (h0\<lparr>mem := m\<rparr>))) (\<lambda>(cb, h1).
                ebind (dev_abs_read bi_run (ucast (ppba (bi_parts bi (part_idx hh)))) (of_nat PART_TABLE_GRAINS) t cb h1) (\<lambda>(_, h2).
                Inr (0, bi, h2))))))"

subsection \<open>SET\<close>

text \<open>From the label \<open>bi_write_ptable\<close>.\<close>

definition bi_write_ptable :: "ptr \<Rightarrow> bigkv_index \<Rightarrow> bi_params handler \<Rightarrow> (int \<times> bigkv_index \<times> bi_params handler) res" where
  "bi_write_ptable req bi h =
     (let r = req_arr h req; hh = hash_high (rkey r); pidx = part_idx hh; t = temp_buf r
      in ebind (update_part_table t (part_base hh) (bi_buckets bi) (mem h)) (\<lambda>(bks, m).
         ebind (make_callback CB_part_table_write req (h\<lparr>mem := m\<rparr>)) (\<lambda>(cb, h1).
         ebind (get_next_pba (of_nat PART_TABLE_SIZE) h1) (\<lambda>(pba, h2).
         ebind (dev_abs_write bi_run (ucast (ucast pba :: 42 word)) (of_nat PART_TABLE_GRAINS) t cb h2) (\<lambda>(_, h3).
         Inr (0, set_part pidx \<lparr>pflying = False, ppba = ucast pba\<rparr> (bi\<lparr>bi_buckets := bks\<rparr>), h3))))))"

text \<open>The branch that stores the pair, to the end of \<open>bigkv_index_set\<close>.\<close>

definition bi_store :: "ptr \<Rightarrow> nat \<Rightarrow> bigkv_index \<Rightarrow> bi_params handler \<Rightarrow> (int \<times> bigkv_index \<times> bi_params handler) res" where
  "bi_store req e bi h =
     (let r = req_arr h req; hh = hash_high (rkey r); b = bi_buckets bi (bucket_idx hh)
      in ebind (get_next_pba (vlen (rvalue r)) h) (\<lambda>(pba, h1).
         (let v = (b e)\<lparr>fingerprint := hash_low (rkey r), dirty_bit := True,
                        bkv_size := ucast (vlen (rvalue r) div of_nat GRAIN_UNIT), bpba := ucast pba\<rparr>
          in ebind (make_callback CB_net_end_req req h1) (\<lambda>(cb, h2).
             ebind (copy_key_to_value (rkey r) (rvalue r) (mem h2)) (\<lambda>m.
             ebind (dev_abs_write bi_run (ucast (bpba v)) (ucast (bkv_size v)) (vvalue (rvalue r)) cb (h2\<lparr>mem := m\<rparr>)) (\<lambda>(_, h3).
             Inr (0, set_bucket (bucket_idx hh) (put_entry e v b) bi, h3)))))))"

text \<open>From the label \<open>bi_get_entry\<close>.\<close>

definition bi_get_entry :: "ptr \<Rightarrow> bigkv_index \<Rightarrow> bi_params handler \<Rightarrow> (int \<times> bigkv_index \<times> bi_params handler) res" where
  "bi_get_entry req bi h =
     (let r = req_arr h req; hh = hash_high (rkey r); pidx = part_idx hh; part = bi_parts bi pidx
      in case get_target_entry (bi_buckets bi (bucket_idx hh)) (hash_low (rkey r)) of
           Some e \<Rightarrow> bi_store req e bi h
         | None \<Rightarrow>
             if ppba part \<noteq> BI_PBA_INVALID
             then (case mem_alloc PART_TABLE_SIZE (uninit (brk (mem h))) (mem h) of (t, m) \<Rightarrow>
                   ebind (make_callback CB_part_table_read req (set_temp_buf req t (h\<lparr>mem := m\<rparr>))) (\<lambda>(cb, h1).
                   ebind (dev_abs_read bi_run (ucast (ppba part)) (of_nat PART_TABLE_GRAINS) t cb h1) (\<lambda>(_, h2).
                   Inr (0, set_part pidx (part\<lparr>pflying := True\<rparr>) bi, h2))))
             else (case mem_alloc PART_TABLE_SIZE pt_empty (mem h) of (t, m) \<Rightarrow>
                   bi_write_ptable req bi (set_temp_buf req t (h\<lparr>mem := m\<rparr>))))"

definition bigkv_index_set :: "ptr \<Rightarrow> bigkv_index \<Rightarrow> bi_params handler \<Rightarrow> (int \<times> bigkv_index \<times> bi_params handler) res" where
  "bigkv_index_set req bi h =
     (case bi_ensure_params req h of (p, h0) \<Rightarrow>
      (case write_step p of
         BI_STEP_WRITE_PTABLE \<Rightarrow> bi_write_ptable req bi h0
       | BI_STEP_WRITE_KV \<Rightarrow> bi_get_entry req bi h0
       | _ \<Rightarrow>
           if pflying (bi_parts bi (part_idx (hash_high (rkey (req_arr h0 req)))))
           then ebind (retry_req req h0) (\<lambda>h1. Inr (0, bi, h1))
           else bi_get_entry req bi h0))"

definition bigkv_index_delete :: "ptr \<Rightarrow> bigkv_index \<Rightarrow> bi_params handler \<Rightarrow> (int \<times> bigkv_index \<times> bi_params handler) res" where
  "bigkv_index_delete req bi h = Inr (0, bi, h)"

subsection \<open>The contract of an index\<close>

text \<open>\<open>bi_ok\<close>: the LRU bits of every bucket are well-formed, and nothing is written behind the arrays.\<close>

definition bi_ok :: "bigkv_index \<Rightarrow> bool" where
  "bi_ok bi \<longleftrightarrow> (\<forall>i. lru_ok (bi_buckets bi i)) \<and> (\<forall>i \<ge> NR_BUCKET. bi_buckets bi i = bi_buckets bigkv_index_init i) \<and>
     (\<forall>p. NR_BUCKET \<le> p * BUCKETS_IN_PART \<longrightarrow> bi_parts bi p = bi_parts bigkv_index_init p)"

lemma lru_ok_init: "lru_ok (\<lambda>_. init_bi_entry)"
  by (simp add: lru_ok_def ranks_ok_def lru_ranks_def init_bi_entry_def bi_config upt_rec)

lemma bi_ok_init: "bi_ok bigkv_index_init"
  by (simp add: bi_ok_def bigkv_index_init_def lru_ok_init)

lemma bucket_idx_lt: "bucket_idx hh < NR_BUCKET"
  by (simp add: bucket_idx_def bi_config)

lemma part_base_le: "part_base hh + BUCKETS_IN_PART \<le> NR_BUCKET"
proof -
  have "part_idx hh < NR_BUCKET div BUCKETS_IN_PART"
    using bucket_idx_lt [of hh] by (simp add: part_idx_def bi_config less_mult_imp_div_less)
  then show ?thesis by (simp add: part_base_def bi_config)
qed

lemma bucket_in_part: "part_base hh \<le> bucket_idx hh" "bucket_idx hh < part_base hh + BUCKETS_IN_PART"
  by (simp_all add: part_base_def part_idx_def bi_config)

lemma bi_ok_set_bucket: "bi_ok bi \<Longrightarrow> lru_ok b \<Longrightarrow> bi_ok (set_bucket (bucket_idx hh) b bi)"
  using bucket_idx_lt [of hh] by (auto simp: bi_ok_def set_bucket_def)

lemma bi_ok_set_part: "bi_ok bi \<Longrightarrow> bi_ok (set_part (part_idx hh) p bi)"
  using part_base_le [of hh] by (auto simp: bi_ok_def set_part_def part_base_def bi_config)

lemma bi_ok_clean: "bi_ok bi \<Longrightarrow> bi_ok (bi\<lparr>bi_buckets := clean_entries (part_slots (part_base hh)) (bi_buckets bi)\<rparr>)"
proof -
  assume ok: "bi_ok bi"
  let ?c = "clean_entries (part_slots (part_base hh)) (bi_buckets bi)"
  have "lru_ranks (?c i) = lru_ranks (bi_buckets bi i)" for i by (simp add: lru_ranks_def)
  moreover have "?c i = bi_buckets bi i" if "NR_BUCKET \<le> i" for i
    using that part_base_le [of hh] by (auto simp: clean_entries_def in_part_slots fun_eq_iff)
  ultimately show ?thesis using ok by (simp add: bi_ok_def lru_ok_def)
qed

lemma set_temp_buf_ext [simp]: "hlr_ext h (set_temp_buf req p h') = hlr_ext h h'" "hlr_ext (set_temp_buf req p h) h' = hlr_ext h h'"
  by (simp_all add: set_temp_buf_def)

lemma bi_run_ext: "runner_ext bi_run"
  unfolding runner_ext_def
proof (intro allI impI)
  fix f a and h h' :: "bi_params handler" assume "bi_run f a h = Inr h'"
  then show "hlr_ext h h'"
    by (cases f) (auto simp: reap_seg_buf_def munmap_def bi_cb_keycmp_def cb_part_table_read_def cb_part_table_write_def
        cb_part_table_write_for_get_def Let_def res_simps split: option.splits if_splits dest!: net_end_req_ext retry_req_ext)
qed

lemmas bi_ext = make_callback_ext get_next_pba_ext dev_abs_write_ext [OF _ bi_run_ext] dev_abs_read_ext [OF _ bi_run_ext]

lemma get_target_retry_cases:
  assumes "get_target_retry hh fp ef ptable bi h = Inr (rc, bi', h')"
  shows "(\<exists>e v m. get_target_entry (bi_buckets bi (bucket_idx hh)) fp = Some e \<and> rc = 0 \<and> h' = h\<lparr>mem := m\<rparr> \<and>
       bi' = set_bucket (bucket_idx hh) (put_entry e v (bi_buckets bi (bucket_idx hh))) bi) \<or>
     (\<exists>p h1. hlr_ext h h1 \<and> get_target_retry hh fp ef NULL
       (set_part (part_idx hh) p (bi\<lparr>bi_buckets := clean_entries (part_slots (part_base hh)) (bi_buckets bi)\<rparr>)) h1 = Inr (rc, bi', h'))"
proof (cases "get_target_entry (bi_buckets bi (bucket_idx hh)) fp")
  case None
  with assms obtain bks m cb h1 pba h2 rc' h3 where u: "update_part_table ptable (part_base hh) (bi_buckets bi) (mem h) = Inr (bks, m)"
    and s: "make_callback CB_part_table_write_for_get ptable (h\<lparr>mem := m\<rparr>) = Inr (cb, h1)"
      "get_next_pba (of_nat PART_TABLE_SIZE) h1 = Inr (pba, h2)"
      "dev_abs_write bi_run (ucast (ucast pba :: 42 word)) (of_nat PART_TABLE_GRAINS) ptable cb h2 = Inr (rc', h3)"
    and r: "get_target_retry hh fp ef NULL
       (set_part (part_idx hh) ((bi_parts bi (part_idx hh))\<lparr>ppba := ucast pba\<rparr>) (bi\<lparr>bi_buckets := bks\<rparr>)) h3 = Inr (rc, bi', h')"
    by (subst (asm) get_target_retry.simps) (auto simp: res_simps)
  have "hlr_ext h h3" using bi_ext(1) [OF s(1)] bi_ext(2) [OF s(2)] bi_ext(3) [OF s(3)] by (auto intro: hlr_ext_trans)
  with r update_part_table_buckets [OF u] show ?thesis by blast
next
  case (Some e)
  with assms obtain m where "(if ptable \<noteq> NULL then mem_free ptable (mem h) else Inr (mem h)) = Inr m" "h' = h\<lparr>mem := m\<rparr>" "rc = 0"
    "\<exists>v. bi' = set_bucket (bucket_idx hh) (put_entry e v (bi_buckets bi (bucket_idx hh))) bi"
    by (subst (asm) get_target_retry.simps) (auto simp: Let_def res_simps simp del: if_split)
  with Some show ?thesis by blast
qed

lemma get_target_retry_null:
  assumes "get_target_retry hh fp ef NULL bi h = Inr (rc, bi', h')"
  shows "hlr_ext h h' \<and> (bi_ok bi \<longrightarrow> bi_ok bi')"
proof (cases "get_target_entry (bi_buckets bi (bucket_idx hh)) fp")
  case None
  with assms show ?thesis by (subst (asm) get_target_retry.simps) (auto simp: res_simps dev_abs_write_null)
next
  case (Some e)
  have "lru_ok (put_entry e v (bi_buckets bi (bucket_idx hh)))" if "bi_ok bi" for v
    using that get_target_entry_lt [OF Some] by (auto simp: bi_ok_def intro: put_entry_lru_ok)
  with Some assms show ?thesis
    by (subst (asm) get_target_retry.simps) (auto simp: Let_def intro: bi_ok_set_bucket)
qed

lemma get_target_retry_ext_ok:
  assumes "get_target_retry hh fp ef ptable bi h = Inr (rc, bi', h')"
  shows "hlr_ext h h' \<and> (bi_ok bi \<longrightarrow> bi_ok bi')"
  using get_target_retry_cases [OF assms]
proof (elim disjE exE conjE)
  fix e v m assume e: "get_target_entry (bi_buckets bi (bucket_idx hh)) fp = Some e" "h' = h\<lparr>mem := m\<rparr>"
    "bi' = set_bucket (bucket_idx hh) (put_entry e v (bi_buckets bi (bucket_idx hh))) bi"
  have "bi_ok bi \<Longrightarrow> lru_ok (put_entry e v (bi_buckets bi (bucket_idx hh)))"
    using get_target_entry_lt [OF e(1)] by (auto simp: bi_ok_def intro: put_entry_lru_ok)
  with e show ?thesis by (auto intro: bi_ok_set_bucket)
next
  fix p h1 assume h1: "hlr_ext h h1" and r: "get_target_retry hh fp ef NULL
       (set_part (part_idx hh) p (bi\<lparr>bi_buckets := clean_entries (part_slots (part_base hh)) (bi_buckets bi)\<rparr>)) h1 = Inr (rc, bi', h')"
  from get_target_retry_null [OF r] h1 show ?thesis by (auto intro: hlr_ext_trans bi_ok_set_part bi_ok_clean)
qed

lemma bi_update_table_ext_ok:
  assumes "bi_update_table req bi h = Inr (rc, bi', h')"
  shows "hlr_ext h h' \<and> (bi_ok bi \<longrightarrow> bi_ok bi')"
proof -
  from assms consider "bi' = bi" "h' = h" | ef cb h1 rc' h2 v where
    "make_callback CB_keycmp req (set_temp_buf req NULL h) = Inr (cb, h1)"
    "dev_abs_read bi_run (ucast (f_pba ef)) (ucast (f_kv_size ef)) v cb h1 = Inr (rc', h2)"
    "get_target_retry (hash_high (rkey (req_arr h req))) (hash_low (rkey (req_arr h req))) ef (temp_buf (req_arr h req)) bi h2 = Inr (rc, bi', h')"
    by (auto simp: bi_update_table_def Let_def res_simps split: if_splits option.splits)
  then show ?thesis
  proof cases
    case (2 ef cb h1 rc' h2 v)
    from get_target_retry_ext_ok [OF 2(3)] bi_ext(1) [OF 2(1)] bi_ext(4) [OF 2(2)] show ?thesis by (auto intro: hlr_ext_trans)
  qed simp
qed

lemma bi_ensure_params_ext: "bi_ensure_params req h = (p, h0) \<Longrightarrow> hlr_ext h h0 \<and> hlr_ext h0 h' = hlr_ext h h'"
  by (auto simp: bi_ensure_params_def split: option.splits)

lemma bigkv_index_get_ext_ok:
  assumes "bigkv_index_get req bi h = Inr (rc, bi', h')"
  shows "hlr_ext h h' \<and> (bi_ok bi \<longrightarrow> bi_ok bi')"
proof -
  obtain p h0 where p: "bi_ensure_params req h = (p, h0)" by fastforce
  let ?r = "req_arr h0 req"
  let ?hh = "hash_high (rkey ?r)"
  let ?b = "bi_buckets bi (bucket_idx ?hh)"
  show ?thesis
  proof (cases "read_step p = BI_STEP_UPDATE_TABLE")
    case True
    with assms p have "bi_update_table req bi h0 = Inr (rc, bi', h')" by (simp add: bigkv_index_get_def)
    from bi_update_table_ext_ok [OF this] bi_ensure_params_ext [OF p] show ?thesis by blast
  next
    case False
    show ?thesis
    proof (cases "get_match_entry ?b (hash_low (rkey ?r))")
      case None
      with False assms p show ?thesis
        by (auto simp: bigkv_index_get_def Let_def mem_alloc_def res_simps bi_ensure_params_ext [OF p, THEN conjunct2, symmetric]
            dest!: bi_ext intro: hlr_ext_trans)
    next
      case (Some e)
      have "bi_ok bi \<Longrightarrow> lru_ok (touch_entry e ?b)"
        using get_match_entry_Some [OF Some] by (auto simp: bi_ok_def intro: touch_entry_lru_ok)
      with False Some assms p show ?thesis
        by (auto simp: bigkv_index_get_def Let_def res_simps bi_ensure_params_ext [OF p, THEN conjunct2, symmetric]
            dest!: bi_ext intro: hlr_ext_trans bi_ok_set_bucket)
    qed
  qed
qed

lemma bi_write_ptable_ext_ok:
  assumes "bi_write_ptable req bi h = Inr (rc, bi', h')"
  shows "hlr_ext h h' \<and> (bi_ok bi \<longrightarrow> bi_ok bi')"
proof -
  let ?hh = "hash_high (rkey (req_arr h req))"
  from assms obtain bks m cb h1 pba h2 t where
    u: "update_part_table (temp_buf (req_arr h req)) (part_base ?hh) (bi_buckets bi) (mem h) = Inr (bks, m)"
    and s: "make_callback CB_part_table_write req (h\<lparr>mem := m\<rparr>) = Inr (cb, h1)" "get_next_pba (of_nat PART_TABLE_SIZE) h1 = Inr (pba, h2)"
      "dev_abs_write bi_run (ucast (ucast pba :: 42 word)) (of_nat PART_TABLE_GRAINS) (temp_buf (req_arr h req)) cb h2 = Inr (t, h')"
    and b: "bi' = set_part (part_idx ?hh) \<lparr>pflying = False, ppba = ucast pba\<rparr> (bi\<lparr>bi_buckets := bks\<rparr>)"
    by (auto simp: bi_write_ptable_def Let_def res_simps)
  from bi_ext(1) [OF s(1)] bi_ext(2) [OF s(2)] bi_ext(3) [OF s(3)] update_part_table_buckets [OF u] b
  show ?thesis by (auto intro: hlr_ext_trans bi_ok_set_part bi_ok_clean)
qed

lemma bi_store_ext_ok:
  assumes "bi_store req e bi h = Inr (rc, bi', h')" and "e < NR_SET"
  shows "hlr_ext h h' \<and> (bi_ok bi \<longrightarrow> bi_ok bi')"
proof -
  let ?i = "bucket_idx (hash_high (rkey (req_arr h req)))"
  from assms(1) obtain pba h1 cb h2 m w n v t where s: "get_next_pba (vlen (rvalue (req_arr h req))) h = Inr (pba, h1)"
    "make_callback CB_net_end_req req h1 = Inr (cb, h2)"
    "dev_abs_write bi_run w n (vvalue (rvalue (req_arr h req))) cb (h2\<lparr>mem := m\<rparr>) = Inr (t, h')"
    "bi' = set_bucket ?i (put_entry e v (bi_buckets bi ?i)) bi"
    by (auto simp: bi_store_def Let_def res_simps)
  have "bi_ok bi \<Longrightarrow> lru_ok (put_entry e v (bi_buckets bi ?i))" using assms(2) by (auto simp: bi_ok_def intro: put_entry_lru_ok)
  with bi_ext(2) [OF s(1)] bi_ext(1) [OF s(2)] bi_ext(3) [OF s(3)] s(4) show ?thesis
    by (auto intro: hlr_ext_trans bi_ok_set_bucket)
qed

lemma bi_get_entry_ext_ok:
  assumes "bi_get_entry req bi h = Inr (rc, bi', h')"
  shows "hlr_ext h h' \<and> (bi_ok bi \<longrightarrow> bi_ok bi')"
proof -
  let ?hh = "hash_high (rkey (req_arr h req))"
  show ?thesis
  proof (cases "get_target_entry (bi_buckets bi (bucket_idx ?hh)) (hash_low (rkey (req_arr h req)))")
    case (Some e)
    with assms have "bi_store req e bi h = Inr (rc, bi', h')" by (simp add: bi_get_entry_def Let_def)
    from bi_store_ext_ok [OF this get_target_entry_lt [OF Some]] show ?thesis .
  next
    case None
    show ?thesis
    proof (cases "ppba (bi_parts bi (part_idx ?hh)) = BI_PBA_INVALID")
      case True
      with None assms obtain m t where "bi_write_ptable req bi (set_temp_buf req t (h\<lparr>mem := m\<rparr>)) = Inr (rc, bi', h')"
        by (auto simp: bi_get_entry_def Let_def mem_alloc_def)
      from bi_write_ptable_ext_ok [OF this] show ?thesis by simp
    next
      case False
      with None assms show ?thesis
        by (auto simp: bi_get_entry_def Let_def mem_alloc_def res_simps dest!: bi_ext intro: hlr_ext_trans bi_ok_set_part)
    qed
  qed
qed

lemma bigkv_index_set_ext_ok:
  assumes "bigkv_index_set req bi h = Inr (rc, bi', h')"
  shows "hlr_ext h h' \<and> (bi_ok bi \<longrightarrow> bi_ok bi')"
proof -
  obtain p h0 where p: "bi_ensure_params req h = (p, h0)" by fastforce
  note e = bi_ensure_params_ext [OF p, THEN conjunct2]
  from assms p consider "bi_write_ptable req bi h0 = Inr (rc, bi', h')" | "bi_get_entry req bi h0 = Inr (rc, bi', h')"
    | "retry_req req h0 = Inr h'" "bi' = bi"
    by (auto simp: bigkv_index_set_def res_simps split: bi_step.splits if_splits)
  then show ?thesis
  proof cases
    case 1 then show ?thesis using bi_write_ptable_ext_ok e by blast
  next
    case 2 then show ?thesis using bi_get_entry_ext_ok e by blast
  next
    case 3 then show ?thesis using retry_req_ext e by blast
  qed
qed

interpretation bi: kv_index bigkv_index_set bigkv_index_get bi_ok
  using bigkv_index_set_ext_ok bigkv_index_get_ext_ok by unfold_locales blast+

end
