(* ===== verification/Bigkv_Ops.thy ===== *)
theory Bigkv_Ops
  imports Bigkv_Index
begin

section \<open>What the BigKV index stores and finds\<close>

text \<open>
  The behaviour of \<open>bigkv_index_set\<close> and \<open>bigkv_index_get\<close> on a handler: a SET logs its pair and updates what is known
  through its bucket, a GET of the same key finds it again, and the runs in which the code does not do so.
\<close>

subsection \<open>Storing a pair\<close>

definition bi_new_entry :: "bi_params request \<Rightarrow> bi_entry \<Rightarrow> u64 \<Rightarrow> bi_entry" where
  "bi_new_entry r old pba = old\<lparr>fingerprint := hash_low (rkey r), dirty_bit := True,
     bkv_size := of_nat (unat (vlen (rvalue r)) div GRAIN_UNIT), bpba := ucast pba\<rparr>"

lemma bi_size_field:
  assumes "unat (n :: u32) < SEGMENT_SIZE"
  shows "(ucast (n div of_nat GRAIN_UNIT) :: 14 word) = of_nat (unat n div GRAIN_UNIT)"
    and "unat (ucast (of_nat (unat n div GRAIN_UNIT) :: 14 word) :: u32) = unat n div GRAIN_UNIT"
    and "unat (of_nat (unat n div GRAIN_UNIT) :: 14 word) = unat n div GRAIN_UNIT"
proof -
  have lt: "unat n div GRAIN_UNIT < 16384" using assms by (simp add: config_defs less_mult_imp_div_less)
  have d: "unat (n div of_nat GRAIN_UNIT) = unat n div GRAIN_UNIT" by (simp add: unat_div)
  show u: "unat (of_nat (unat n div GRAIN_UNIT) :: 14 word) = unat n div GRAIN_UNIT" using lt by (simp add: unat_of_nat)
  have "unat (ucast (n div of_nat GRAIN_UNIT) :: 14 word) = unat n div GRAIN_UNIT"
    using lt by (subst unat_ucast_small) (simp_all add: d)
  then show "(ucast (n div of_nat GRAIN_UNIT) :: 14 word) = of_nat (unat n div GRAIN_UNIT)" using u by (simp add: word_unat_eq_iff)
  show "unat (ucast (of_nat (unat n div GRAIN_UNIT) :: 14 word) :: u32) = unat n div GRAIN_UNIT"
    using lt u by (subst unat_ucast_small) simp_all
qed

lemma bi_pba_field:
  assumes "staged_ok h" and "in_staged (dev h) pba n" and "unat (nr_segment (dev h)) < 2 ^ 24"
  shows "(ucast (ucast pba :: 42 word) :: u64) = pba" and "(ucast pba :: 42 word) \<noteq> BI_PBA_INVALID"
proof -
  have inv: "dev_inv (dev h)" using assms(1) by (simp add: staged_ok_def)
  have "unat (seg_offset (staged (dev h))) \<le> Suc (staged_seg (dev h)) * SEGMENT_SIZE"
    using dev_inv_staged [OF inv] by (simp add: seg_ok_def)
  also have "\<dots> \<le> 16777215 * SEGMENT_SIZE"
    using assms(3) inv by (intro mult_le_mono1) (simp add: dev_inv_def dev_layout_def)
  finally have "unat pba * 128 \<le> 16777215 * 2097152" using assms(2) by (simp add: in_staged_def config_defs)
  then have lt: "unat pba < 274877906943" by simp
  then have u: "unat (ucast pba :: 42 word) = unat pba" by (intro unat_ucast_small) simp
  then have "unat (ucast (ucast pba :: 42 word) :: u64) = unat pba" using lt by (subst unat_ucast_small) simp_all
  then show "(ucast (ucast pba :: 42 word) :: u64) = pba" by (simp add: word_unat_eq_iff)
  show "(ucast pba :: 42 word) \<noteq> BI_PBA_INVALID"
  proof
    assume "(ucast pba :: 42 word) = BI_PBA_INVALID"
    then have "unat pba = unat BI_PBA_INVALID" using u by simp
    with lt show False by (simp add: BI_PBA_INVALID_def)
  qed
qed

lemma bi_store_ok:
  fixes req :: ptr and h :: "bi_params handler"
  defines "r \<equiv> req_arr h req"
  assumes env: "index_env (Suc (Suc k)) h" "unat (nr_segment (dev h)) < 2 ^ 24" and buf: "req_buf req h b"
    and key: "Suc (unat (klen (rkey r))) \<le> unat (vlen (rvalue r))" and sz: "unat (vlen (rvalue r)) < SEGMENT_SIZE"
    and bk: "bi_buckets bi (bucket_idx (hash_high (rkey r))) = bk"
  shows "\<exists>pba h3. bi_store req e bi h =
       Inr (0, set_bucket (bucket_idx (hash_high (rkey r))) (put_entry e (bi_new_entry r (bk e) pba) bk) bi, h3) \<and>
     pair_logged k req b (unat (vlen (rvalue r)) div GRAIN_UNIT * GRAIN_UNIT) pba h h3 \<and>
     (ucast (ucast pba :: 42 word) :: u64) = pba \<and> (ucast pba :: 42 word) \<noteq> BI_PBA_INVALID"
proof -
  let ?n = "ucast (of_nat (unat (vlen (rvalue r)) div GRAIN_UNIT) :: 14 word) :: u32"
  have n: "unat ?n = unat (vlen (rvalue r)) div GRAIN_UNIT" by (rule bi_size_field(2) [OF sz])
  have le: "unat (vlen (rvalue r)) \<le> SEGMENT_SIZE" using sz by simp
  from log_store [OF env(1) buf key [unfolded r_def] le [unfolded r_def], of ?n bi_run] obtain pba h1 cb h2 m h3 where
    s: "get_next_pba (vlen (rvalue r)) h = Inr (pba, h1)" "make_callback CB_net_end_req req h1 = Inr (cb, h2)"
    "copy_key_to_value (rkey r) (rvalue r) (mem h2) = Inr m"
    "dev_abs_write bi_run pba ?n (vvalue (rvalue r)) cb (h2\<lparr>mem := m\<rparr>) = Inr (0, h3)"
    and lg: "pair_logged k req b (unat (vlen (rvalue r)) div GRAIN_UNIT * GRAIN_UNIT) pba h h3"
    unfolding r_def [symmetric] n by (auto simp: GRAIN_UNIT_def)
  have "staged_ok h3" "in_staged (dev h3) pba (unat (vlen (rvalue r)) div GRAIN_UNIT * GRAIN_UNIT)" "unat (nr_segment (dev h3)) < 2 ^ 24"
    using lg env(2) by (simp_all add: pair_logged_def stored_at_def)
  note pf = bi_pba_field [OF this]
  have "bi_store req e bi h =
       Inr (0, set_bucket (bucket_idx (hash_high (rkey r))) (put_entry e (bi_new_entry r (bk e) pba) bk) bi, h3)"
    unfolding bi_store_def Let_def r_def [symmetric] bk bi_size_field(1) [OF sz] using s pf(1) by (simp add: bi_new_entry_def)
  with lg pf show ?thesis by blast
qed

text \<open>Reading the pair of the request's key back: the callback finds the keys equal and ends the request.\<close>

lemma bi_read_hit:
  fixes req :: ptr and h :: "bi_params handler"
  defines "r \<equiv> req_arr h req"
  assumes st: "staged_ok h" "pools_hold (Suc k) h"
    and pool: "q_inv (req_pool h)" "int (length (q_list (req_pool h))) < m_size (req_pool h)" and buf: "req_buf req h b"
    and stored: "stored_at h pba (unat n * GRAIN_UNIT) (with_key (rkey r) f)"
    and key: "Suc (unat (klen (rkey r))) \<le> unat n * GRAIN_UNIT" and fit: "unat n * GRAIN_UNIT \<le> blen b"
  shows "\<exists>cb h1 h3. make_callback CB_keycmp req h = Inr (cb, h1) \<and>
     dev_abs_read bi_run pba n (vvalue (rvalue r)) cb h1 = Inr (0, h3) \<and> acks h3 = acks h @ [ack_of (clock h) r] \<and>
     q_list (req_pool h3) = q_list (req_pool h) @ [req] \<and> cells (mem h3) (vvalue (rvalue r)) = None"
proof -
  let ?v = "vvalue (rvalue r)"
  have b: "cells (mem h) ?v = Some b" "?v \<noteq> NULL" "?v \<noteq> staged_seg_buf (dev h)"
    using buf by (simp_all add: req_buf_def r_def)
  have inv: "dev_inv (dev h)" "staged_seg_buf (dev h) \<noteq> NULL" using st(1) by (auto simp: staged_ok_def mem_wf_def intro!: gr0I)
  obtain cb rest where cb: "q_list (cb_pool h) = cb # rest" "cb \<noteq> NULL"
    using st(2) by (cases "q_list (cb_pool h)") (auto simp: pools_hold_def)
  obtain q where mk: "make_callback CB_keycmp req h = Inr (cb, h\<lparr>cb_pool := q,
      cb_arr := (cb_arr h)(cb := \<lparr>cbfunc = CB_keycmp, cbarg = req, cbiocb = NULL\<rparr>)\<rparr>)" "q_inv q"
    using make_callback_ok [OF _ cb, of CB_keycmp req] st(2) by (auto simp: pools_hold_def)
  let ?h1 = "h\<lparr>cb_pool := q, cb_arr := (cb_arr h)(cb := \<lparr>cbfunc = CB_keycmp, cbarg = req, cbiocb = NULL\<rparr>)\<rparr>"
  have pos: "0 < unat n" using key by (cases "unat n") simp_all
  have pre: "stored_at ?h1 pba (unat n * GRAIN_UNIT) (with_key (rkey r) f)" "dev_inv (dev ?h1)"
    "cells (mem ?h1) ?v = Some b" "?v \<noteq> staged_seg_buf (dev ?h1)" "staged_seg_buf (dev ?h1) \<noteq> NULL"
    using stored inv b by (simp_all add: stored_at_def)
  obtain g where g: "dev_abs_read bi_run pba n ?v cb ?h1 =
      ebind (run_and_recycle bi_run cb (?h1\<lparr>mem := (mem ?h1)\<lparr>cells := (cells (mem ?h1))(?v \<mapsto> b\<lparr>bdat := g\<rparr>)\<rparr>\<rparr>)) (\<lambda>h1. Inr (0, h1))"
    "\<forall>j. g j = (if j < unat n * GRAIN_UNIT then with_key (rkey r) f j else bdat b j)"
    using log_read [OF pre(2,1) pos pre(3) b(2) pre(4) fit pre(5)] by blast
  let ?h2 = "?h1\<lparr>mem := (mem ?h1)\<lparr>cells := (cells (mem ?h1))(?v \<mapsto> b\<lparr>bdat := g\<rparr>)\<rparr>\<rparr>"
  have cmp: "keycmp_k_v (rkey r) (rvalue r) (mem ?h2) = Inr 0"
    by (rule keycmp_with_key [where b = "b\<lparr>bdat := g\<rparr>" and f = f]) (use b(2) key fit g(2) in auto)
  obtain m3 where m3: "mem_free ?v (mem ?h2) = Inr m3" "cells m3 ?v = None" using b(2) by (auto simp: mem_free_def)
  obtain q3 where ne: "net_end_req req ?h2 = Inr (?h2\<lparr>mem := m3, req_pool := q3,
       req_arr := (req_arr ?h2)(req := (req_arr ?h2 req)\<lparr>rsw := sw_end (clock h) (rsw r)\<rparr>),
       flying := fst (cl_release (flying h)), acks := acks h @ [ack_of (clock h) r]\<rparr>)"
    and q3: "q_list q3 = q_list (req_pool h) @ [req]"
    using net_end_req_ok [of ?h2 req m3] pool m3(1) by (auto simp: r_def)
  obtain q4 x where q4: "q_enqueue cb q = Inr (x, q4)" using lq.enq_total [OF mk(2), of cb] by auto
  define h3 where "h3 = ?h2\<lparr>mem := m3, req_pool := q3,
       req_arr := (req_arr ?h2)(req := (req_arr ?h2 req)\<lparr>rsw := sw_end (clock h) (rsw r)\<rparr>),
       flying := fst (cl_release (flying h)), acks := acks h @ [ack_of (clock h) r], cb_pool := q4\<rparr>"
  have "bi_run (cbfunc (cb_arr ?h2 cb)) (cbarg (cb_arr ?h2 cb)) ?h2 = net_end_req req ?h2"
    using cmp by (simp add: bi_cb_keycmp_def Let_def r_def)
  then have "run_and_recycle bi_run cb ?h2 = Inr h3" using ne q4 by (simp add: run_and_recycle_def h3_def)
  then have "dev_abs_read bi_run pba n ?v cb ?h1 = Inr (0, h3)" using g(1) by simp
  moreover have "acks h3 = acks h @ [ack_of (clock h) r]" "q_list (req_pool h3) = q_list (req_pool h) @ [req]" "cells (mem h3) ?v = None"
    using q3 m3(2) by (simp_all add: h3_def)
  ultimately show ?thesis using mk(1) by blast
qed

lemma make_bi_params_steps: "read_step make_bi_params = BI_STEP_INIT" "write_step make_bi_params = BI_STEP_INIT"
  by (simp_all add: make_bi_params_def)

lemma bi_get_hit:
  fixes req :: ptr and h :: "bi_params handler"
  assumes st: "staged_ok h" "pools_hold (Suc k) h"
    and pool: "q_inv (req_pool h)" "int (length (q_list (req_pool h))) < m_size (req_pool h)" and buf: "req_buf req h b"
    and r: "req_arr h req = r" "params r = None" and bk: "bi_buckets bi (bucket_idx (hash_high (rkey r))) = bk"
    and e: "get_match_entry bk (hash_low (rkey r)) = Some e"
    and stored: "stored_at h (ucast (bpba (bk e))) (unat (bkv_size (bk e)) * GRAIN_UNIT) (with_key (rkey r) f)"
    and key: "Suc (unat (klen (rkey r))) \<le> unat (bkv_size (bk e)) * GRAIN_UNIT" and fit: "unat (bkv_size (bk e)) * GRAIN_UNIT \<le> blen b"
  shows "\<exists>h3. bigkv_index_get req bi h = Inr (0, set_bucket (bucket_idx (hash_high (rkey r))) (touch_entry e bk) bi, h3) \<and>
     acks h3 = acks h @ [ack_of (clock h) r] \<and> q_list (req_pool h3) = q_list (req_pool h) @ [req] \<and>
     cells (mem h3) (vvalue (rvalue r)) = None"
proof -
  let ?h1 = "set_params req make_bi_params h"
  let ?r1 = "req_arr ?h1 req" and ?n = "ucast (bkv_size (bk e)) :: u32"
  have n: "unat ?n = unat (bkv_size (bk e))"
    using unsigned_less [of "bkv_size (bk e)", where ?'a = nat] by (intro unat_ucast_small) simp
  have r1: "rkey ?r1 = rkey r" "rvalue ?r1 = rvalue r" "ack_of (clock ?h1) ?r1 = ack_of (clock h) r" "acks ?h1 = acks h" "req_pool ?h1 = req_pool h"
    by (simp_all add: set_params_def r ack_of_def)
  have pre: "staged_ok ?h1" "pools_hold (Suc k) ?h1" "q_inv (req_pool ?h1)" "int (length (q_list (req_pool ?h1))) < m_size (req_pool ?h1)"
    "req_buf req ?h1 b" "stored_at ?h1 (ucast (bpba (bk e))) (unat ?n * GRAIN_UNIT) (with_key (rkey r) f)"
    using st pool buf stored n by (simp_all add: set_params_def staged_ok_def pools_hold_def req_buf_def stored_at_def)
  obtain cb h2 h3 where s: "make_callback CB_keycmp req ?h1 = Inr (cb, h2)"
    "dev_abs_read bi_run (ucast (bpba (bk e))) ?n (vvalue (rvalue r)) cb h2 = Inr (0, h3)"
    "acks h3 = acks h @ [ack_of (clock h) r]" "q_list (req_pool h3) = q_list (req_pool h) @ [req]" "cells (mem h3) (vvalue (rvalue r)) = None"
    using bi_read_hit [OF pre(1-5), unfolded r1, OF pre(6)] key fit n by auto
  have "bi_ensure_params req h = (make_bi_params, ?h1)" by (simp add: bi_ensure_params_def r)
  then have "bigkv_index_get req bi h = Inr (0, set_bucket (bucket_idx (hash_high (rkey r))) (touch_entry e bk) bi, h3)"
    unfolding bigkv_index_get_def using e s(1,2) by (simp add: Let_def make_bi_params_steps r1(1,2) bk)
  with s(3-5) show ?thesis by blast
qed

lemma bi_set_first_pass:
  assumes "req_arr h req = r" and "params r = None" and "\<not> pflying (bi_parts bi (part_idx (hash_high (rkey r))))"
    and "get_target_entry (bi_buckets bi (bucket_idx (hash_high (rkey r)))) (hash_low (rkey r)) = Some e"
  shows "bigkv_index_set req bi h = bi_store req e bi (set_params req make_bi_params h)"
  using assms by (simp add: bigkv_index_set_def bi_ensure_params_def make_bi_params_steps bi_get_entry_def Let_def set_params_def)

lemma bi_set_logged:
  fixes h :: "bi_params handler"
  assumes env: "index_env (Suc (Suc k)) h" "unat (nr_segment (dev h)) < 2 ^ 24" and buf: "req_buf req h b"
    and r: "req_arr h req = r" "params r = None" and fl: "\<not> pflying (bi_parts bi (part_idx (hash_high (rkey r))))"
    and key: "Suc (unat (klen (rkey r))) \<le> unat (vlen (rvalue r))" and sz: "unat (vlen (rvalue r)) < SEGMENT_SIZE"
    and bk: "bi_buckets bi (bucket_idx (hash_high (rkey r))) = bk" and e: "get_target_entry bk (hash_low (rkey r)) = Some e"
  shows "\<exists>pba h3. bigkv_index_set req bi h =
       Inr (0, set_bucket (bucket_idx (hash_high (rkey r))) (put_entry e (bi_new_entry r (bk e) pba) bk) bi, h3) \<and>
     stored_at h3 pba (unat (vlen (rvalue r)) div GRAIN_UNIT * GRAIN_UNIT) (with_key (rkey r) (bdat b)) \<and>
     acks h3 = acks h @ [ack_of (clock h) r] \<and> pair_logged k req b (unat (vlen (rvalue r)) div GRAIN_UNIT * GRAIN_UNIT) pba
       (set_params req make_bi_params h) h3 \<and>
     (ucast (ucast pba :: 42 word) :: u64) = pba \<and> (ucast pba :: 42 word) \<noteq> BI_PBA_INVALID"
proof -
  let ?h1 = "set_params req make_bi_params h"
  let ?r1 = "req_arr ?h1 req"
  have r1: "rkey ?r1 = rkey r" "rvalue ?r1 = rvalue r" "ack_of (clock h) ?r1 = ack_of (clock h) r" "bi_new_entry ?r1 = bi_new_entry r"
    "clock ?h1 = clock h" "acks ?h1 = acks h" "dev ?h1 = dev h"
    by (simp_all add: set_params_def r ack_of_def bi_new_entry_def fun_eq_iff)
  have pre: "index_env (Suc (Suc k)) ?h1" "unat (nr_segment (dev ?h1)) < 2 ^ 24" "req_buf req ?h1 b"
    using env buf by (simp_all add: index_env_def req_buf_def set_params_def staged_ok_def pools_hold_def)
  obtain pba h3 where s: "bi_store req e bi ?h1 =
       Inr (0, set_bucket (bucket_idx (hash_high (rkey r))) (put_entry e (bi_new_entry r (bk e) pba) bk) bi, h3)"
    "pair_logged k req b (unat (vlen (rvalue r)) div GRAIN_UNIT * GRAIN_UNIT) pba ?h1 h3"
    "(ucast (ucast pba :: 42 word) :: u64) = pba" "(ucast pba :: 42 word) \<noteq> BI_PBA_INVALID"
    using bi_store_ok [OF pre, unfolded r1, OF key sz bk, of e] by blast
  moreover have "stored_at h3 pba (unat (vlen (rvalue r)) div GRAIN_UNIT * GRAIN_UNIT) (with_key (rkey r) (bdat b))"
    "acks h3 = acks h @ [ack_of (clock h) r]"
    using s(2) r1 by (simp_all add: pair_logged_def)
  ultimately show ?thesis using bi_set_first_pass [OF r fl, of e] bk e by auto
qed

subsection \<open>Properties of SET and GET\<close>

text \<open>
  C6: a SET updates the index at its key. When no other request is reading the partition table and the bucket has a place, \<open>bigkv_index_set\<close>
  returns 0; what is known through the bucket changes at the fingerprint of the key only, to the size and the address of the pair just written;
  the other buckets and the partitions do not change; and the staged segment holds at that address the key length, the key and then the
  value of this request, for every whole grain. The request is acknowledged once and its buffer freed.
\<close>

theorem bi_set_stores:
  fixes h :: "bi_params handler"
  assumes env: "index_env (Suc (Suc k)) h" "unat (nr_segment (dev h)) < 2 ^ 24" and buf: "req_buf req h b"
    and r: "req_arr h req = r" "params r = None" and fl: "\<not> pflying (bi_parts bi (part_idx (hash_high (rkey r))))"
    and key: "Suc (unat (klen (rkey r))) \<le> unat (vlen (rvalue r))" and sz: "unat (vlen (rvalue r)) < SEGMENT_SIZE"
    and idx: "bucket_idx (hash_high (rkey r)) = idx" and e: "get_target_entry (bi_buckets bi idx) (hash_low (rkey r)) = Some e"
    and ok: "bucket_ok (bi_buckets bi idx) M" "hash_low (rkey r) \<noteq> 0"
  shows "\<exists>bi' h' pba. bigkv_index_set req bi h = Inr (0, bi', h') \<and> bucket_ok (bi_buckets bi' idx) M \<and>
     bucket_view (bi_buckets bi' idx) M =
       (bucket_view (bi_buckets bi idx) M)(hash_low (rkey r) \<mapsto> (of_nat (unat (vlen (rvalue r)) div GRAIN_UNIT), ucast pba)) \<and>
     (\<forall>i. i \<noteq> idx \<longrightarrow> bi_buckets bi' i = bi_buckets bi i) \<and> bi_parts bi' = bi_parts bi \<and>
     stored_at h' pba (unat (vlen (rvalue r)) div GRAIN_UNIT * GRAIN_UNIT) (with_key (rkey r) (bdat b)) \<and>
     acks h' = acks h @ [ack_of (clock h) r] \<and> cells (mem h') (vvalue (rvalue r)) = None"
proof -
  let ?b = "bi_buckets bi idx"
  obtain pba h3 where s: "bigkv_index_set req bi h = Inr (0, set_bucket idx (put_entry e (bi_new_entry r (?b e) pba) ?b) bi, h3)"
     "stored_at h3 pba (unat (vlen (rvalue r)) div GRAIN_UNIT * GRAIN_UNIT) (with_key (rkey r) (bdat b))"
     "acks h3 = acks h @ [ack_of (clock h) r]" "pair_logged k req b (unat (vlen (rvalue r)) div GRAIN_UNIT * GRAIN_UNIT) pba
       (set_params req make_bi_params h) h3" "(ucast pba :: 42 word) \<noteq> BI_PBA_INVALID"
    using bi_set_logged [OF env buf r fl key sz, of ?b e] idx e by blast
  let ?v = "bi_new_entry r (?b e) pba"
  have v: "fingerprint ?v = hash_low (rkey r)" "bi_valid ?v" "dirty_bit ?v \<or> M (hash_low (rkey r)) = Some (bi_val ?v)"
    "bi_val ?v = (of_nat (unat (vlen (rvalue r)) div GRAIN_UNIT), ucast pba)"
    using s(5) by (simp_all add: bi_new_entry_def bi_valid_def bi_val_def)
  note p = put_entry_ok [OF ok(1) e ok(2) v(1-3)] put_entry_view [OF ok(1) e ok(2) v(1-3)]
  moreover have "cells (mem h3) (vvalue (rvalue r)) = None" using s(4) r by (simp add: pair_logged_def set_params_def)
  ultimately show ?thesis using s(1-3) v(4) by (auto simp: set_bucket_def)
qed

text \<open>A fresh index.\<close>

lemma bi_init_bucket: "bi_buckets bigkv_index_init i = (\<lambda>_. init_bi_entry)" "\<not> pflying (bi_parts bigkv_index_init p)"
  "ppba (bi_parts bigkv_index_init p) = BI_PBA_INVALID"
  by (simp_all add: bigkv_index_init_def)

lemma init_entry_invalid: "\<not> bi_valid init_bi_entry" "\<not> dirty_bit init_bi_entry" "fingerprint init_bi_entry = 0"
  by (simp_all add: bi_valid_def init_bi_entry_def)

lemma init_bucket_ok: "bucket_ok (\<lambda>_. init_bi_entry) M" "bucket_view (\<lambda>_. init_bi_entry) M = M"
proof -
  show "bucket_ok (\<lambda>_. init_bi_entry) M" using init_entry_invalid by (simp add: bucket_ok_def)
  show "bucket_view (\<lambda>_. init_bi_entry) M = M" by (intro ext bucket_view_miss) (simp add: init_entry_invalid)
qed

lemma init_bucket_target: "get_target_entry (\<lambda>_. init_bi_entry) fp = Some 0"
  by (auto simp: get_target_entry_def init_bi_entry_def bi_config upt_rec)

theorem bi_set_stores_witness:
  "\<exists>(h :: bi_params handler) bi' h' pba. bigkv_index_set 1 bigkv_index_init h = Inr (0, bi', h') \<and>
     bucket_view (bi_buckets bi' 5) Map.empty = [9 \<mapsto> (8, ucast pba)] \<and>
     stored_at h' pba 1024 (with_key (rkey (req_arr h 1)) (\<lambda>_. 0)) \<and> length (acks h') = 1"
proof -
  obtain h :: "bi_params handler" and ba where h: "index_env QSIZE h" "req_buf 1 h ba" "bdat ba = (\<lambda>_. 0)"
    "unat (vlen (rvalue (req_arr h 1))) = 1024" "params (req_arr h 1) = None" "klen (rkey (req_arr h 1)) = 2"
    "hash_low (rkey (req_arr h 1)) = 9" "hash_high (rkey (req_arr h 1)) = 5" "acks h = []" "unat (nr_segment (dev h)) < 2 ^ 24"
    using ex_set_and_get [where 'p = bi_params and ty = REQ_TYPE_GET and C = "\<lambda>_. (9, 5)"] by auto
  have e: "index_env (Suc (Suc 0)) h" using h(1) by (auto simp: index_env_def config_defs intro: pools_hold_mono)
  have i: "bucket_idx (hash_high (rkey (req_arr h 1))) = 5" unfolding h(8) by (simp add: bucket_idx_def bi_config)
  obtain bi' h' pba where s: "bigkv_index_set 1 bigkv_index_init h = Inr (0, bi', h')"
    "bucket_view (bi_buckets bi' 5) Map.empty = (bucket_view (bi_buckets bigkv_index_init 5) Map.empty)(9 \<mapsto> (8, ucast pba))"
    "stored_at h' pba 1024 (with_key (rkey (req_arr h 1)) (\<lambda>_. 0))" "acks h' = acks h @ [ack_of (clock h) (req_arr h 1)]"
    using bi_set_stores [OF e h(10,2) refl h(5), of bigkv_index_init 5 0 Map.empty] h(3,4,6,7) i
    by (auto simp: bi_init_bucket init_bucket_ok init_bucket_target config_defs)
  have "bucket_view (bi_buckets bi' 5) Map.empty = [9 \<mapsto> (8, ucast pba)]" using s(2) by (simp add: bi_init_bucket init_bucket_ok)
  with s(1,3,4) h(9) show ?thesis by (intro exI [of _ h] exI [of _ bi'] exI [of _ h'] exI [of _ pba]) simp
qed



end
