(* ===== verification/Bigkv_Evict.thy ===== *)
theory Bigkv_Evict
  imports Bigkv_Ops
begin

section \<open>Partition tables in the log: eviction, and the runs that lose data\<close>

text \<open>
  A SET that finds only dirty candidates in its bucket writes the partition table out first and stores its pair when it is
  dispatched again. This theory follows that first pass through the device, and has the runs in which GET misbehaves:
  on a partition that was never written, and when a SET of the same key comes between the read of the partition table and its use.
\<close>

subsection \<open>Writing a table to the log\<close>

lemma make_callback_other:
  assumes "make_callback f a h = Inr (c, h')" and "q_inv (cb_pool h)" and "cb \<notin> set (q_list (cb_pool h))"
  shows "cb_arr h' cb = cb_arr h cb \<and> c \<noteq> cb \<and> iocb_pool h' = iocb_pool h"
proof -
  from assms(1) obtain q where q: "q_dequeue (cb_pool h) = Inr (c, q)" "c \<noteq> NULL"
    "h' = h\<lparr>cb_pool := q, cb_arr := (cb_arr h)(c := \<lparr>cbfunc = f, cbarg = a, cbiocb = NULL\<rparr>)\<rparr>"
    by (auto simp: make_callback_def res_simps split: if_splits)
  then have "c \<in> set (q_list (cb_pool h))" using lq.deq_Inr [OF assms(2) q(1)] by (auto split: list.splits)
  with assms(3) q(3) show ?thesis by auto
qed

lemma aio_submit_other: "aio_submit c a sz buf cb h = Inr (rc, h') \<Longrightarrow> cb' \<noteq> cb \<Longrightarrow> cb_arr h' cb' = cb_arr h cb'"
  by (auto simp: aio_submit_def Let_def res_simps split: if_splits)

lemma stage_next_segment_cb_arr: "stage_next_segment h = Inr h' \<Longrightarrow> cb_arr h' = cb_arr h"
  by (auto simp: stage_next_segment_def alloc_seg_buffer_def Let_def mem_alloc_def res_simps split: if_splits)

lemma get_next_pba_cb_arr:
  assumes r: "get_next_pba sz h = Inr (pba, h')" and q: "q_inv (cb_pool h)" "cb \<notin> set (q_list (cb_pool h))"
  shows "cb_arr h' cb = cb_arr h cb"
proof -
  from r obtain h1 where h1: "(if end_addr (staged (dev h)) < seg_offset (staged (dev h)) + ucast sz
        then retire_segment h else Inr h) = Inr h1" and h': "cb_arr h' = cb_arr h1"
    by (auto simp: get_next_pba_def Let_def res_simps split: if_splits)
  have "cb_arr h1 cb = cb_arr h cb"
  proof (cases "end_addr (staged (dev h)) < seg_offset (staged (dev h)) + ucast sz")
    case True
    with h1 obtain d c h2 rc h3 where
      s: "make_callback CB_reap_seg_buf (staged_seg_buf (dev h)) (h\<lparr>dev := d\<rparr>) = Inr (c, h2)"
      "aio_submit IO_PWRITE (start_addr (staged (dev h))) (ucast (segment_size (dev h))) (staged_seg_buf (dev h)) c h2 = Inr (rc, h3)"
      "stage_next_segment h3 = Inr h1"
      by (auto simp: retire_segment_def Let_def res_simps aio_write_def)
    from make_callback_other [OF s(1)] q have c: "cb_arr h2 cb = cb_arr h cb" "c \<noteq> cb" by simp_all
    from aio_submit_other [OF s(2)] c have "cb_arr h3 cb = cb_arr h cb" by auto
    with stage_next_segment_cb_arr [OF s(3)] show ?thesis by simp
  qed (use h1 in simp)
  with h' show ?thesis by simp
qed

text \<open>
  \<open>table_logged\<close>: the state in which the callback of the write of a table at \<open>t\<close> runs: the table is in the staged segment.
\<close>

definition table_logged :: "nat \<Rightarrow> ptr \<Rightarrow> mbuf \<Rightarrow> ptr \<Rightarrow> u64 \<Rightarrow> 'p handler \<Rightarrow> 'p handler \<Rightarrow> bool" where
  "table_logged k t buf cb pba h h' \<longleftrightarrow>
     stored_at h' pba PART_TABLE_SIZE (bdat buf) \<and> cells (mem h') t = Some buf \<and> same_requests h h' \<and> index_env k h' \<and>
     unat (nr_segment (dev h')) = unat (nr_segment (dev h)) \<and> cb \<noteq> NULL \<and> t \<noteq> staged_seg_buf (dev h') \<and>
     (\<forall>p c. cells (mem h) p = Some c \<and> p \<noteq> staged_seg_buf (dev h) \<longrightarrow> cells (mem h') p = Some c \<and> p \<noteq> staged_seg_buf (dev h'))"

lemma log_table:
  fixes h :: "'p handler"
  assumes env: "index_env (Suc (Suc k)) h" and cbs: "distinct (q_list (cb_pool h))"
    and t: "cells (mem h) t = Some buf" "t \<noteq> NULL" "t \<noteq> staged_seg_buf (dev h)" "PART_TABLE_SIZE \<le> blen buf"
  shows "\<exists>cb h1 pba h2 h3. make_callback F a h = Inr (cb, h1) \<and> get_next_pba (of_nat PART_TABLE_SIZE) h1 = Inr (pba, h2) \<and>
     dev_abs_write run pba (of_nat PART_TABLE_GRAINS) t cb h2 = ebind (run_and_recycle run cb h3) (\<lambda>h4. Inr (0, h4)) \<and>
     cbfunc (cb_arr h3 cb) = F \<and> cbarg (cb_arr h3 cb) = a \<and> table_logged k t buf cb pba h h3"
proof -
  let ?sz = "of_nat PART_TABLE_SIZE :: u32" and ?n = "of_nat PART_TABLE_GRAINS :: u32"
  have sz: "unat ?sz = PART_TABLE_SIZE" "unat ?n * GRAIN_UNIT = PART_TABLE_SIZE" "grains PART_TABLE_SIZE = PART_TABLE_SIZE"
    by (simp_all add: bi_config config_defs grains_def)
  have e: "pools_hold (Suc (Suc k)) h" using env by (simp add: index_env_def)
  obtain cb rest where cb: "q_list (cb_pool h) = cb # rest" "cb \<noteq> NULL"
    using e by (cases "q_list (cb_pool h)") (auto simp: pools_hold_def)
  obtain q where mk: "make_callback F a h = Inr (cb, h\<lparr>cb_pool := q,
      cb_arr := (cb_arr h)(cb := \<lparr>cbfunc = F, cbarg = a, cbiocb = NULL\<rparr>)\<rparr>)" and q: "q_inv q" "q_list q = rest"
    using make_callback_ok [OF _ cb, of F a] e by (auto simp: pools_hold_def)
  define h1 where "h1 = h\<lparr>cb_pool := q, cb_arr := (cb_arr h)(cb := \<lparr>cbfunc = F, cbarg = a, cbiocb = NULL\<rparr>)\<rparr>"
  have e1: "index_env (Suc k) h1" "same_requests h h1" "mem h1 = mem h" "dev h1 = dev h" "cb_pool h1 = q"
    using env q cb by (auto simp: h1_def index_env_def staged_ok_def pools_hold_def same_requests_def)
  have le: "unat ?sz \<le> SEGMENT_SIZE" "0 < unat ?sz" unfolding sz(1) by (simp_all add: bi_config config_defs)
  obtain pba h2 where h2: "get_next_pba ?sz h1 = Inr (pba, h2)" "index_env k h2" "same_requests h1 h2" "mem_le (mem h1) (mem h2)"
    "in_staged (dev h2) pba (grains PART_TABLE_SIZE)" "nr_segment (dev h2) = nr_segment (dev h1)"
    "staged_seg_buf (dev h2) = staged_seg_buf (dev h1) \<or> cells (mem h1) (staged_seg_buf (dev h2)) = None"
    using index_alloc [OF e1(1) le] unfolding sz(1) by blast
  let ?sb = "staged_seg_buf (dev h2)"
  have st: "staged_ok h2" using h2(2) by (simp add: index_env_def)
  then obtain s where s: "cells (mem h2) ?sb = Some s" "blen s = SEGMENT_SIZE" "dev_inv (dev h2)" "mem_wf (mem h2)" "?sb \<noteq> NULL"
    by (fastforce simp: staged_ok_def mem_wf_def)
  have t2: "cells (mem h2) t = Some buf" "t \<noteq> ?sb" using h2(4,7) t(1,3) e1(3,4) by (auto simp: mem_le_def)
  have ins: "in_staged (dev h2) pba (unat ?n * GRAIN_UNIT)" using h2(5) sz(2,3) by simp
  let ?off = "unat pba * GRAIN_UNIT - unat (start_addr (staged (dev h2)))"
  have fit: "?off + PART_TABLE_SIZE \<le> blen s" using in_staged_offset(3) [OF s(3) ins] s(2) sz(2) by simp
  let ?s = "s\<lparr>bdat := copy_bytes (bdat s) ?off (bdat buf) 0 PART_TABLE_SIZE\<rparr>"
  define h3 where "h3 = h2\<lparr>mem := (mem h2)\<lparr>cells := (cells (mem h2))(?sb \<mapsto> ?s)\<rparr>\<rparr>"
  have "memcpy ?sb ?off t 0 PART_TABLE_SIZE (mem h2) = Inr (mem h3)"
    using memcpy_ok [of "mem h2" ?sb s t buf ?off PART_TABLE_SIZE 0] t2 s(1,5) t(2,4) fit by (simp add: h3_def)
  then have w: "dev_abs_write run pba ?n t cb h2 = ebind (run_and_recycle run cb h3) (\<lambda>h4. Inr (0, h4))"
    unfolding dev_abs_write_staged [OF s(3) ins] sz(2) by (simp add: h3_def)
  have "cb \<notin> set (q_list (cb_pool h1))" using cbs cb(1) q(2) e1(5) by simp
  with get_next_pba_cb_arr [OF h2(1)] e1(5) q(1) have cba: "cb_arr h3 cb = \<lparr>cbfunc = F, cbarg = a, cbiocb = NULL\<rparr>"
    by (simp add: h3_def h1_def)
  have "stored_at h3 pba PART_TABLE_SIZE (bdat buf)"
    using ins sz(2) s(2) by (simp add: stored_at_def h3_def copy_bytes_def)
  moreover have "index_env k h3" using h2(2) s t2(2) by (auto simp: index_env_def h3_def staged_ok_def pools_hold_def mem_wf_def)
  moreover have "same_requests h h3" using h2(3) e1(2) by (simp add: same_requests_def h3_def)
  moreover have "\<forall>p c. cells (mem h) p = Some c \<and> p \<noteq> staged_seg_buf (dev h) \<longrightarrow> cells (mem h3) p = Some c \<and> p \<noteq> staged_seg_buf (dev h3)"
    using h2(4,7) e1(3,4) by (auto simp: h3_def mem_le_def)
  moreover have "cells (mem h3) t = Some buf" "t \<noteq> staged_seg_buf (dev h3)" "unat (nr_segment (dev h3)) = unat (nr_segment (dev h))"
    using h2(6) e1(4) t2 by (simp_all add: h3_def)
  ultimately have "table_logged k t buf cb pba h h3"
    using cb(2) unfolding table_logged_def by blast
  with mk h2(1) w cba show ?thesis unfolding h1_def by auto
qed

text \<open>The callback of the write of a SET: the table is released and the request queued for its second pass.\<close>

lemma table_write_callback:
  assumes p: "params (req_arr h req) = Some p" and t: "temp_buf (req_arr h req) = t" "cells (mem h) t = Some buf" "t \<noteq> NULL"
    and rq: "q_inv (retry_q h)" "int (length (q_list (retry_q h))) < m_size (retry_q h)" and cp: "q_inv (cb_pool h)"
    and cb: "cbfunc (cb_arr h cb) = CB_part_table_write" "cbarg (cb_arr h cb) = req"
  shows "\<exists>q q'. run_and_recycle bi_run cb h = Inr (h\<lparr>req_arr := (req_arr h)(req := (req_arr h req)\<lparr>params := Some (p\<lparr>write_step := BI_STEP_WRITE_KV\<rparr>)\<rparr>),
       mem := (mem h)\<lparr>cells := (cells (mem h))(t := None)\<rparr>, retry_q := q, cb_pool := q'\<rparr>) \<and>
     q_inv q \<and> q_list q = q_list (retry_q h) @ [req] \<and> m_size q = m_size (retry_q h)"
proof -
  obtain q where q: "q_enqueue req (retry_q h) = Inr (True, q)" "q_inv q" "q_list q = q_list (retry_q h) @ [req]" "m_size q = m_size (retry_q h)"
    using lq.enq_room [OF rq, of req] by blast
  obtain b q' where q': "q_enqueue cb (cb_pool h) = Inr (b, q')" using lq.enq_total [OF cp, of cb] by blast
  have "bi_run CB_part_table_write req h = Inr (h\<lparr>req_arr := (req_arr h)(req := (req_arr h req)\<lparr>params := Some (p\<lparr>write_step := BI_STEP_WRITE_KV\<rparr>)\<rparr>),
       mem := (mem h)\<lparr>cells := (cells (mem h))(t := None)\<rparr>, retry_q := q\<rparr>)"
    using p t q(1) by (simp add: cb_part_table_write_def set_params_def mem_free_def retry_req_def retry_req_to_hlr_def)
  then have "run_and_recycle bi_run cb h = Inr (h\<lparr>req_arr := (req_arr h)(req := (req_arr h req)\<lparr>params := Some (p\<lparr>write_step := BI_STEP_WRITE_KV\<rparr>)\<rparr>),
       mem := (mem h)\<lparr>cells := (cells (mem h))(t := None)\<rparr>, retry_q := q, cb_pool := q'\<rparr>)"
    using q' cb by (simp add: run_and_recycle_def)
  with q(2-4) show ?thesis by blast
qed

text \<open>After its dirty bits are cleared, a bucket always has a place.\<close>

lemma clean_bucket_target:
  assumes "lru_ok b" and "\<forall>i < NR_SET. \<not> dirty_bit (b i)"
  shows "\<exists>e. get_target_entry b fp = Some e"
  using lru_ok_victim [OF assms(1)] assms(2)
  by (cases "get_target_entry b fp") (auto simp: get_target_entry_def find_upt_Some find_upt_None split: option.splits if_splits)

lemma lru_ok_clean: "lru_ok (clean_entries ijs bks i) = lru_ok (bks i)"
  by (simp add: lru_ok_def lru_ranks_def)

lemma length_dirty_entries: "length (dirty_entries bks (part_slots base)) \<le> 16"
proof -
  have "length (part_slots base) = 16" by (simp add: part_slots_def bi_config)
  then show ?thesis by (metis dirty_entries_def length_filter_le length_map)
qed

text \<open>
  C11: a SET into a full bucket writes its partition out and then stores its pair. When no entry of the bucket can be replaced and the partition has no table yet,
  the first pass of \<open>bigkv_index_set\<close> builds a table with every dirty entry of the partition, writes it to the log at the address it records for
  the partition, clears the dirty bits, and queues the request again with the step \<open>BI_STEP_WRITE_KV\<close>, without acknowledging it; what is known through the bucket
  stays known, for every fingerprint that is not dirty in another bucket of the partition, the fingerprints in use there being distinct. The second pass finds a place in the bucket and goes on to store the pair.
\<close>

theorem bi_set_evicts:
  fixes h :: "bi_params handler"
  assumes env: "index_env (Suc (Suc k)) h" "unat (nr_segment (dev h)) < 2 ^ 24" "distinct (q_list (cb_pool h))"
    and rq: "q_inv (retry_q h)" "int (length (q_list (retry_q h))) < m_size (retry_q h)"
    and r: "req_arr h req = r" "params r = None" and hh: "hash_high (rkey r) = hh"
    and part: "\<not> pflying (bi_parts bi (part_idx hh))" "ppba (bi_parts bi (part_idx hh)) = BI_PBA_INVALID"
    and full: "get_target_entry (bi_buckets bi (bucket_idx hh)) (hash_low (rkey r)) = None" and lru: "lru_ok (bi_buckets bi (bucket_idx hh))"
    and ok: "part_ok (part_base hh) (bi_buckets bi) Map.empty" "part_distinct (part_base hh) (bi_buckets bi)"
  shows "\<exists>bi' h' pba f e. bigkv_index_set req bi h = Inr (0, bi', h') \<and> ppba (bi_parts bi' (part_idx hh)) = ucast pba \<and>
     stored_at h' pba PART_TABLE_SIZE f \<and> pt_ok f \<and> part_ok (part_base hh) (bi_buckets bi') (pt_map f) \<and>
     (\<forall>i j. (i, j) \<in> set (part_slots (part_base hh)) \<longrightarrow> \<not> dirty_bit (bi_buckets bi' i j)) \<and>
     (\<forall>fp. (\<forall>i' j'. (i', j') \<in> set (part_slots (part_base hh)) \<and> i' \<noteq> bucket_idx hh \<and> dirty_bit (bi_buckets bi i' j') \<longrightarrow>
          fingerprint (bi_buckets bi i' j') \<noteq> fp) \<longrightarrow>
        bucket_view (bi_buckets bi' (bucket_idx hh)) (pt_map f) fp = bucket_view (bi_buckets bi (bucket_idx hh)) Map.empty fp) \<and>
     q_list (retry_q h') = q_list (retry_q h) @ [req] \<and> acks h' = acks h \<and>
     bigkv_index_set req bi' h' = bi_store req e bi' h' \<and>
     get_target_entry (bi_buckets bi' (bucket_idx hh)) (hash_low (rkey r)) = Some e"
proof -
  let ?base = "part_base hh" and ?t = "brk (mem h)"
  let ?m0 = "(mem h)\<lparr>cells := (cells (mem h))(?t \<mapsto> \<lparr>blen = PART_TABLE_SIZE, bdat = pt_empty\<rparr>), brk := Suc ?t\<rparr>"
  define h0 where "h0 = set_temp_buf req ?t ((set_params req make_bi_params h)\<lparr>mem := ?m0\<rparr>)"
  have wf: "mem_wf (mem h)" "staged_ok h" using env(1) by (simp_all add: index_env_def staged_ok_def)
  then have t0: "?t \<noteq> NULL" "cells (mem h) ?t = None" by (auto simp: mem_wf_def)
  then have ts: "?t \<noteq> staged_seg_buf (dev h)" using wf(2) by (auto simp: staged_ok_def)
  have set1: "bigkv_index_set req bi h = bi_write_ptable req bi h0"
    using r hh part full
    by (simp add: bigkv_index_set_def bi_ensure_params_def make_bi_params_steps bi_get_entry_def Let_def set_params_def mem_alloc_def
        h0_def set_temp_buf_def)
  have r0: "req_arr h0 req = r\<lparr>params := Some make_bi_params, temp_buf := ?t\<rparr>" "mem h0 = ?m0" "retry_q h0 = retry_q h" "acks h0 = acks h"
    "dev h0 = dev h" "cb_pool h0 = cb_pool h"
    by (simp_all add: h0_def set_temp_buf_def set_params_def r)
  obtain f where f: "ins_all insert_to_ptable (dirty_entries (bi_buckets bi) (part_slots ?base)) pt_empty = Some f"
    using ins_all_room [of pt_empty "dirty_entries (bi_buckets bi) (part_slots ?base)"] length_dirty_entries [of "bi_buckets bi" ?base]
    by (auto simp: pt_count_empty BI_MAX_HOP_def)
  let ?bks = "clean_entries (part_slots ?base) (bi_buckets bi)" and ?buf = "\<lparr>blen = PART_TABLE_SIZE, bdat = f\<rparr>"
  have pm: "pt_map (bdat \<lparr>blen = PART_TABLE_SIZE, bdat = pt_empty\<rparr>) = Map.empty" by (simp add: pt_empty_map)
  note pr = persist_refines [of ?t ?m0 "\<lparr>blen = PART_TABLE_SIZE, bdat = pt_empty\<rparr>" ?base "bi_buckets bi" f, unfolded pm]
  define m1 where "m1 = ?m0\<lparr>cells := (cells ?m0)(?t \<mapsto> ?buf)\<rparr>"
  have up: "update_part_table ?t ?base (bi_buckets bi) ?m0 = Inr (?bks, m1)"
    and okf: "pt_ok f" "part_ok ?base ?bks (pt_map f)" "\<forall>i j. (i, j) \<in> set (part_slots ?base) \<longrightarrow> \<not> dirty_bit (?bks i j)"
    "\<forall>i fp. ?base \<le> i \<and> i < ?base + BUCKETS_IN_PART \<and>
        (\<forall>i' j'. (i', j') \<in> set (part_slots ?base) \<and> i' \<noteq> i \<and> dirty_bit (bi_buckets bi i' j') \<longrightarrow> fingerprint (bi_buckets bi i' j') \<noteq> fp) \<longrightarrow>
        bucket_view (?bks i) (pt_map f) fp = bucket_view (bi_buckets bi i) Map.empty fp"
    using pr t0(1) f ok pt_empty_ok by (simp_all add: m1_def)
  define h1 where "h1 = h0\<lparr>mem := m1\<rparr>"
  have env1: "index_env (Suc (Suc k)) h1" "distinct (q_list (cb_pool h1))" "cells (mem h1) ?t = Some ?buf" "?t \<noteq> staged_seg_buf (dev h1)"
    "PART_TABLE_SIZE \<le> blen ?buf"
    using env ts t0 wf by (auto simp: h1_def m1_def h0_def set_temp_buf_def set_params_def index_env_def staged_ok_def pools_hold_def mem_wf_def)
  obtain cb h2 pba h3 h4 where lt: "make_callback CB_part_table_write req h1 = Inr (cb, h2)" "get_next_pba (of_nat PART_TABLE_SIZE) h2 = Inr (pba, h3)"
    "dev_abs_write bi_run pba (of_nat PART_TABLE_GRAINS) ?t cb h3 = ebind (run_and_recycle bi_run cb h4) (\<lambda>h5. Inr (0, h5))"
    "cbfunc (cb_arr h4 cb) = CB_part_table_write" "cbarg (cb_arr h4 cb) = req" "table_logged k ?t ?buf cb pba h1 h4"
    using log_table [OF env1(1-3) t0(1) env1(4,5), of CB_part_table_write req bi_run] by blast
  have tl: "stored_at h4 pba PART_TABLE_SIZE f" "cells (mem h4) ?t = Some ?buf" "same_requests h1 h4" "index_env k h4"
    "unat (nr_segment (dev h4)) < 2 ^ 24" "?t \<noteq> staged_seg_buf (dev h4)"
    using lt(6) env(2) by (simp_all add: table_logged_def h1_def r0)
  have r4: "req_arr h4 req = r\<lparr>params := Some make_bi_params, temp_buf := ?t\<rparr>" "retry_q h4 = retry_q h" "acks h4 = acks h"
    using tl(3) r0 by (simp_all add: same_requests_def h1_def)
  have "staged_ok h4" "in_staged (dev h4) pba PART_TABLE_SIZE" "q_inv (cb_pool h4)"
    using tl(1,4) by (simp_all add: stored_at_def index_env_def pools_hold_def)
  note pf = bi_pba_field(1) [OF this(1,2) tl(5)]
  let ?p = "make_bi_params\<lparr>write_step := BI_STEP_WRITE_KV\<rparr>"
  obtain q q' where q: "run_and_recycle bi_run cb h4 = Inr (h4\<lparr>req_arr := (req_arr h4)(req := (req_arr h4 req)\<lparr>params := Some ?p\<rparr>),
       mem := (mem h4)\<lparr>cells := (cells (mem h4))(?t := None)\<rparr>, retry_q := q, cb_pool := q'\<rparr>)" "q_list q = q_list (retry_q h) @ [req]"
    using table_write_callback [of h4 req make_bi_params ?t ?buf cb] r4 tl(2) t0(1) rq \<open>q_inv (cb_pool h4)\<close> lt(4,5) by auto
  define h5 where "h5 = h4\<lparr>req_arr := (req_arr h4)(req := (req_arr h4 req)\<lparr>params := Some ?p\<rparr>),
       mem := (mem h4)\<lparr>cells := (cells (mem h4))(?t := None)\<rparr>, retry_q := q, cb_pool := q'\<rparr>"
  define bi1 where "bi1 = set_part (part_idx hh) \<lparr>pflying = False, ppba = ucast pba\<rparr> (bi\<lparr>bi_buckets := ?bks\<rparr>)"
  have wp: "bi_write_ptable req bi h0 = Inr (0, bi1, h5)"
    unfolding bi_write_ptable_def Let_def r0(1,2) using up lt(1-3) q(1) hh pf by (simp add: h1_def [symmetric] h5_def bi1_def)
  have bb: "bi_buckets bi1 = ?bks" "ppba (bi_parts bi1 (part_idx hh)) = ucast pba" by (simp_all add: bi1_def set_part_def)
  have "lru_ok (?bks (bucket_idx hh))" using lru by (simp add: lru_ok_clean)
  moreover have "\<forall>i < NR_SET. \<not> dirty_bit (?bks (bucket_idx hh) i)" using okf(3) bucket_in_part [of hh] by (simp add: in_part_slots)
  ultimately obtain e where e: "get_target_entry (?bks (bucket_idx hh)) (hash_low (rkey r)) = Some e" using clean_bucket_target by blast
  have "req_arr h5 req = r\<lparr>params := Some ?p, temp_buf := ?t\<rparr>" using r4(1) by (simp add: h5_def)
  then have snd: "bigkv_index_set req bi1 h5 = bi_store req e bi1 h5"
    using e hh by (simp add: bigkv_index_set_def bi_ensure_params_def bi_get_entry_def Let_def bb)
  have "stored_at h5 pba PART_TABLE_SIZE f" using tl(1,6) by (simp add: stored_at_def h5_def)
  moreover have "q_list (retry_q h5) = q_list (retry_q h) @ [req]" "acks h5 = acks h" using q(2) r4(3) by (simp_all add: h5_def)
  ultimately show ?thesis using set1 wp bb okf e snd bucket_in_part [of hh]
    by (intro exI [of _ bi1] exI [of _ h5] exI [of _ pba] exI [of _ f] exI [of _ e]) simp
qed

text \<open>A bucket with four dirty entries, the third the least recently used.\<close>

definition full_bucket :: bi_bucket where
  "full_bucket i = \<lparr>fingerprint = of_nat (i + 1), reserve = 0, dirty_bit = True, lru_bit = of_nat ((i + 1) mod 4), bkv_size = 8, bpba = of_nat (i * 8)\<rparr>"

definition full_index :: bigkv_index where
  "full_index = set_bucket 0 full_bucket bigkv_index_init"

lemma less_NR_SET: "i < NR_SET \<longleftrightarrow> i = 0 \<or> i = 1 \<or> i = 2 \<or> i = 3"
  by (auto simp: bi_config)

lemma full_index_bucket: "bi_buckets full_index i j = (if i = 0 then full_bucket j else init_bi_entry)" "bi_parts full_index = bi_parts bigkv_index_init"
  by (simp_all add: full_index_def set_bucket_def bigkv_index_init_def)

lemma full_bucket_entry:
  assumes "i < NR_SET"
  shows "bi_valid (full_bucket i)" "dirty_bit (full_bucket i)" "fingerprint (full_bucket i) = of_nat (i + 1)"
  using assms by (auto simp: full_bucket_def less_NR_SET bi_valid_def BI_PBA_INVALID_def)

lemma full_bucket_distinct: "i < NR_SET \<Longrightarrow> j < NR_SET \<Longrightarrow> fingerprint (full_bucket i) = fingerprint (full_bucket j) \<Longrightarrow> i = j"
  by (auto simp: full_bucket_def less_NR_SET)

lemma full_index_ok: "part_ok 0 (bi_buckets full_index) Map.empty" "part_distinct 0 (bi_buckets full_index)" "lru_ok full_bucket"
  "get_target_entry full_bucket 9 = None"
proof -
  have "bucket_ok full_bucket Map.empty" using full_bucket_entry full_bucket_distinct by (auto simp: bucket_ok_def)
  then show "part_ok 0 (bi_buckets full_index) Map.empty"
    using init_bucket_ok(1) by (simp add: part_ok_def full_index_def set_bucket_def bigkv_index_init_def)
  show "part_distinct 0 (bi_buckets full_index)"
    using full_bucket_distinct init_entry_invalid(1) by (auto simp: part_distinct_def in_part_slots full_index_bucket)
  show "lru_ok full_bucket" by (simp add: lru_ok_def ranks_ok_def lru_ranks_def full_bucket_def bi_config upt_rec)
  show "get_target_entry full_bucket 9 = None"
    by (simp add: get_target_entry_def full_bucket_def bi_config upt_rec BI_PBA_INVALID_def)
qed

theorem bi_set_evicts_witness:
  "\<exists>(h :: bi_params handler) bi' h' pba f. bigkv_index_set 1 full_index h = Inr (0, bi', h') \<and>
     ppba (bi_parts bi' 0) = ucast pba \<and> stored_at h' pba PART_TABLE_SIZE f \<and> part_ok 0 (bi_buckets bi') (pt_map f) \<and> acks h' = acks h"
proof -
  obtain h :: "bi_params handler" where h: "index_env QSIZE h" "params (req_arr h 1) = None"
    "hash_low (rkey (req_arr h 1)) = 9" "hash_high (rkey (req_arr h 1)) = 0" "unat (nr_segment (dev h)) < 2 ^ 24"
    using ex_set_and_get [where 'p = bi_params and ty = REQ_TYPE_GET and C = "\<lambda>_. (9, 0)"] by auto
  obtain q where q: "q_inv q" "q_list q = pool_ptrs" using fill_pool by blast
  let ?h = "h\<lparr>cb_pool := q, retry_q := q_init 4\<rparr>"
  have e: "index_env (Suc (Suc 0)) ?h" "distinct (q_list (cb_pool ?h))" "q_inv (retry_q ?h)" "int (length (q_list (retry_q ?h))) < m_size (retry_q ?h)"
    using h(1) q by (auto simp: index_env_def staged_ok_def pools_hold_def config_defs pool_ptrs_def)
  have z: "bucket_idx 0 = 0" "part_idx 0 = 0" "part_base 0 = 0" by (simp_all add: bucket_idx_def part_idx_def part_base_def)
  have "\<exists>bi' h' pba f. bigkv_index_set 1 full_index ?h = Inr (0, bi', h') \<and> ppba (bi_parts bi' 0) = ucast pba \<and>
     stored_at h' pba PART_TABLE_SIZE f \<and> part_ok 0 (bi_buckets bi') (pt_map f) \<and> acks h' = acks ?h"
    using bi_set_evicts [OF e(1) _ e(2-4) refl, of 1 0 full_index] h z full_index_ok
    by (auto simp: full_index_bucket bi_init_bucket full_index_def set_bucket_def)
  then show ?thesis by blast
qed

subsection \<open>Runs that go wrong\<close>

lemma read_submits:
  fixes h :: "'p handler"
  assumes env: "index_env (Suc k) h" and sub: "submit_ok h (n_submit h)" and out: "is_staged (dev h) pba \<noteq> 0"
  shows "\<exists>cb q w h1. make_callback F a h = Inr (cb, h\<lparr>cb_pool := q, cb_arr := (cb_arr h)(cb := \<lparr>cbfunc = F, cbarg = a, cbiocb = NULL\<rparr>)\<rparr>) \<and>
     dev_abs_read run pba n buf cb (h\<lparr>cb_pool := q, cb_arr := (cb_arr h)(cb := \<lparr>cbfunc = F, cbarg = a, cbiocb = NULL\<rparr>)\<rparr>) = Inr (0, h1) \<and>
     submitted h1 = submitted h @ [w] \<and> mem h1 = mem h \<and> req_arr h1 = req_arr h \<and> acks h1 = acks h \<and> req_pool h1 = req_pool h \<and>
     retry_q h1 = retry_q h \<and> clock h1 = clock h \<and> q_inv (iocb_pool h1) \<and> q_inv (cb_pool h1) \<and>
     cbfunc (cb_arr h1 cb) = F \<and> cbarg (cb_arr h1 cb) = a \<and>
     iocb_arr h1 w = \<lparr>io_cmd = IO_PREAD, io_buf = buf, io_nbytes = unat (n * grain_unit (dev h)),
       io_offset = pba * ucast (grain_unit (dev h)), io_data = cb\<rparr> \<and>
     index_env k h1 \<and> dev h1 = dev h \<and> q_list (cb_pool h1) = tl (q_list (cb_pool h))"
proof -
  have e: "pools_hold (Suc k) h" using env by (simp add: index_env_def)
  obtain cb rest where cb: "q_list (cb_pool h) = cb # rest" "cb \<noteq> NULL"
    using e by (cases "q_list (cb_pool h)") (auto simp: pools_hold_def)
  obtain q where mk: "make_callback F a h = Inr (cb, h\<lparr>cb_pool := q,
      cb_arr := (cb_arr h)(cb := \<lparr>cbfunc = F, cbarg = a, cbiocb = NULL\<rparr>)\<rparr>)" and q: "q_inv q" "q_list q = rest"
    using make_callback_ok [OF _ cb, of F a] e by (auto simp: pools_hold_def)
  let ?h1 = "h\<lparr>cb_pool := q, cb_arr := (cb_arr h)(cb := \<lparr>cbfunc = F, cbarg = a, cbiocb = NULL\<rparr>)\<rparr>"
  obtain w rest' where w: "q_list (iocb_pool h) = w # rest'" "w \<noteq> NULL" "q_inv (iocb_pool h)"
    using e by (cases "q_list (iocb_pool h)") (auto simp: pools_hold_def)
  then obtain q' where q': "q_dequeue (iocb_pool h) = Inr (w, q')" "q_inv q'" "q_list q' = rest'" using lq.deq_nonempty [OF w(3)] by auto
  have "\<exists>h1. dev_abs_read run pba n buf cb ?h1 = Inr (0, h1) \<and> submitted h1 = submitted h @ [w] \<and> mem h1 = mem h \<and>
     req_arr h1 = req_arr h \<and> acks h1 = acks h \<and> req_pool h1 = req_pool h \<and> retry_q h1 = retry_q h \<and> clock h1 = clock h \<and>
     q_inv (iocb_pool h1) \<and> q_inv (cb_pool h1) \<and> cbfunc (cb_arr h1 cb) = F \<and> cbarg (cb_arr h1 cb) = a \<and>
     iocb_arr h1 w = \<lparr>io_cmd = IO_PREAD, io_buf = buf, io_nbytes = unat (n * grain_unit (dev h)),
       io_offset = pba * ucast (grain_unit (dev h)), io_data = cb\<rparr> \<and>
     index_env k h1 \<and> dev h1 = dev h \<and> q_list (cb_pool h1) = tl (q_list (cb_pool h))"
    using out sub q q' w env cb by (auto simp: dev_abs_read_def aio_read_def aio_submit_def Let_def index_env_def staged_ok_def pools_hold_def)
  with mk show ?thesis by blast
qed

text \<open>The addresses behind the largest device the 24-bit bound allows are not in the staged segment.\<close>

lemma far_not_staged:
  assumes "index_env k h" and "unat (nr_segment (dev h)) < 2 ^ 24" and "16777215 * SEGMENT_SIZE < unat pba * GRAIN_UNIT" and "unat pba < 2 ^ 42"
  shows "is_staged (dev h) pba \<noteq> 0"
proof -
  have st: "dev_inv (dev h)" "unat (nr_segment (dev h)) < 2 ^ 26" using assms(1) by (simp_all add: index_env_def staged_ok_def)
  have "unat (seg_offset (staged (dev h))) \<le> Suc (staged_seg (dev h)) * SEGMENT_SIZE"
    using dev_inv_staged [OF st(1)] by (simp add: seg_ok_def)
  also have "\<dots> \<le> 16777215 * SEGMENT_SIZE"
    using assms(2) st(1) by (intro mult_le_mono1) (simp add: dev_inv_def dev_layout_def)
  finally show ?thesis using is_staged_iff [OF st(1), of pba] assms(3,4) by (simp add: config_defs)
qed

text \<open>
  A GET of a key that is not in its bucket, in a partition that was never written: the table is read from the address that marks a
  missing table, behind the end of every device below 32 TiB.
\<close>

lemma bi_get_unwritten:
  fixes h :: "bi_params handler"
  assumes env: "index_env (Suc k) h" "unat (nr_segment (dev h)) < 2 ^ 24" and sub: "submit_ok h (n_submit h)"
    and r: "req_arr h req = r" "params r = None" and hh: "hash_high (rkey r) = hh"
    and miss: "get_match_entry (bi_buckets bi (bucket_idx hh)) (hash_low (rkey r)) = None" "ppba (bi_parts bi (part_idx hh)) = BI_PBA_INVALID"
  shows "\<exists>h' w. bigkv_index_get req bi h = Inr (0, bi, h') \<and> submitted h' = submitted h @ [w] \<and>
     io_cmd (iocb_arr h' w) = IO_PREAD \<and> io_nbytes (iocb_arr h' w) = PART_TABLE_SIZE \<and>
     unat (io_offset (iocb_arr h' w)) = 0x3fffffffff * GRAIN_UNIT"
proof -
  let ?t = "brk (mem h)"
  let ?m0 = "(mem h)\<lparr>cells := (cells (mem h))(?t \<mapsto> \<lparr>blen = PART_TABLE_SIZE, bdat = uninit ?t\<rparr>), brk := Suc ?t\<rparr>"
  define h0 where "h0 = set_temp_buf req ?t ((set_params req make_bi_params h)\<lparr>mem := ?m0\<rparr>)"
  have f0: "dev h0 = dev h" "submitted h0 = submitted h" "submit_ok h0 = submit_ok h" "n_submit h0 = n_submit h"
    by (simp_all add: h0_def set_temp_buf_def set_params_def)
  have st: "staged_ok h" "dev_inv (dev h)" "unat (nr_segment (dev h)) < 2 ^ 26" "mem_wf (mem h)"
    using env by (simp_all add: index_env_def staged_ok_def)
  have e0: "index_env (Suc k) h0" "submit_ok h0 (n_submit h0)"
    using env(1) sub st by (auto simp: h0_def set_temp_buf_def set_params_def index_env_def staged_ok_def pools_hold_def mem_wf_def)
  have pba: "unat (ucast BI_PBA_INVALID :: u64) = 0x3fffffffff" by (simp add: BI_PBA_INVALID_def)
  have bytes: "unat (ucast BI_PBA_INVALID * ucast (grain_unit (dev h)) :: u64) = 0x3fffffffff * GRAIN_UNIT"
    using pba_bytes [OF st(2), of "ucast BI_PBA_INVALID"] by (simp add: pba GRAIN_UNIT_def)
  have "is_staged (dev h0) (ucast BI_PBA_INVALID) \<noteq> 0"
    using far_not_staged [OF env, of "ucast BI_PBA_INVALID"] by (simp add: pba f0 config_defs)
  note rs = read_submits [OF e0 this, of CB_part_table_read req bi_run "of_nat PART_TABLE_GRAINS" ?t]
  have "unat (grain_unit (dev h)) = GRAIN_UNIT" using st(2) by (simp add: dev_inv_def dev_layout_def)
  then have g: "grain_unit (dev h) = of_nat GRAIN_UNIT" by (metis of_nat_unat ucast_id)
  have n: "unat (of_nat PART_TABLE_GRAINS * grain_unit (dev h) :: u32) = PART_TABLE_SIZE" unfolding g by (simp add: bi_config config_defs)
  from rs obtain cb h1 w h2 where s: "make_callback CB_part_table_read req h0 = Inr (cb, h1)"
    "dev_abs_read bi_run (ucast BI_PBA_INVALID) (of_nat PART_TABLE_GRAINS) ?t cb h1 = Inr (0, h2)" "submitted h2 = submitted h @ [w]"
    "iocb_arr h2 w = \<lparr>io_cmd = IO_PREAD, io_buf = ?t, io_nbytes = PART_TABLE_SIZE,
       io_offset = ucast BI_PBA_INVALID * ucast (grain_unit (dev h)), io_data = cb\<rparr>"
    unfolding f0 n by blast
  have "bigkv_index_get req bi h = Inr (0, bi, h2)"
    using s(1,2) r hh miss
    by (simp add: bigkv_index_get_def bi_ensure_params_def make_bi_params_steps Let_def set_params_def mem_alloc_def h0_def set_temp_buf_def)
  with s(3,4) bytes show ?thesis by (intro exI [of _ h2] exI [of _ w]) simp
qed

text \<open>
  The second pass of a GET takes the partition table at its word. With the table read for the key in hand, \<open>bigkv_index_get\<close>
  submits the read of the pair at the address the table has, frees the table, and caches that address as a clean entry of
  the bucket: what is known changes at the fingerprint of the key only, to what the table says. When a SET of the same key was stored in
  the bucket after the table had been read, its newer address is replaced by the old one, and no dirty entry for it remains.
\<close>

theorem bi_get_second_pass:
  fixes h :: "bi_params handler"
  assumes env: "index_env (Suc k) h" and sub: "submit_ok h (n_submit h)"
    and r: "req_arr h req = r" "params r = Some p" "read_step p = BI_STEP_UPDATE_TABLE"
    and t: "temp_buf r \<noteq> NULL" "cells (mem h) (temp_buf r) = Some buf" "PART_TABLE_SIZE \<le> blen buf"
    and idx: "bucket_idx (hash_high (rkey r)) = idx" and fp: "hash_low (rkey r) = fp" "fp \<noteq> 0"
    and M: "pt_map (bdat buf) fp = Some (sz, pba)" and out: "is_staged (dev h) (ucast pba) \<noteq> 0"
    and ok: "bucket_ok (bi_buckets bi idx) (pt_map (bdat buf))" and e: "get_target_entry (bi_buckets bi idx) fp = Some e"
  shows "\<exists>bi' h' w. bigkv_index_get req bi h = Inr (0, bi', h') \<and> bucket_ok (bi_buckets bi' idx) (pt_map (bdat buf)) \<and>
     bucket_view (bi_buckets bi' idx) (pt_map (bdat buf)) = (bucket_view (bi_buckets bi idx) (pt_map (bdat buf)))(fp \<mapsto> (sz, pba)) \<and>
     (\<forall>i < NR_SET. fingerprint (bi_buckets bi' idx i) = fp \<longrightarrow> \<not> dirty_bit (bi_buckets bi' idx i)) \<and>
     submitted h' = submitted h @ [w] \<and> io_cmd (iocb_arr h' w) = IO_PREAD \<and> io_buf (iocb_arr h' w) = vvalue (rvalue r) \<and>
     io_offset (iocb_arr h' w) = ucast pba * ucast (grain_unit (dev h)) \<and> cells (mem h') (temp_buf r) = None"
proof -
  let ?b = "bi_buckets bi idx" and ?M = "pt_map (bdat buf)"
  from M obtain i where i: "get_match_entry_f (bdat buf) fp = Some i" "f_kv_size (pt_get (bdat buf) i) = sz" "f_pba (pt_get (bdat buf) i) = pba"
    "pba \<noteq> BI_PBA_INVALID"
    by (auto simp: pt_map_def pt_used_def split: option.splits if_splits)
  have f: "f_fingerprint (pt_get (bdat buf) i) = fp"
    using i(1) by (auto simp: get_match_entry_f_find find_Some_iff)
  define h0 where "h0 = set_temp_buf req NULL h"
  have h0: "index_env (Suc k) h0" "submit_ok h0 (n_submit h0)" "dev h0 = dev h" "mem h0 = mem h" "submitted h0 = submitted h"
    using env sub by (simp_all add: h0_def set_temp_buf_def index_env_def staged_ok_def pools_hold_def)
  from read_submits [OF h0(1,2), unfolded h0(3-5), OF out, of CB_keycmp req bi_run "ucast sz" "vvalue (rvalue r)"]
  obtain cb h1 w h2 where s: "make_callback CB_keycmp req h0 = Inr (cb, h1)"
    "dev_abs_read bi_run (ucast pba) (ucast sz) (vvalue (rvalue r)) cb h1 = Inr (0, h2)" "mem h2 = mem h" "submitted h2 = submitted h @ [w]"
    "iocb_arr h2 w = \<lparr>io_cmd = IO_PREAD, io_buf = vvalue (rvalue r), io_nbytes = unat (ucast sz * grain_unit (dev h) :: u32),
       io_offset = ucast pba * ucast (grain_unit (dev h)), io_data = cb\<rparr>"
    by blast
  let ?v = "\<lparr>fingerprint = fp, reserve = 0, dirty_bit = False, lru_bit = 0, bkv_size = sz, bpba = pba\<rparr>"
  let ?h' = "h2\<lparr>mem := (mem h)\<lparr>cells := (cells (mem h))(temp_buf r := None)\<rparr>\<rparr>"
  have run: "bigkv_index_get req bi h = Inr (0, set_bucket idx (put_entry e ?v ?b) bi, ?h')"
    using r t fp(1) idx i f e s(1,2)
    by (simp add: bigkv_index_get_def bi_ensure_params_def bi_update_table_def Let_def mem_buf_def h0_def
        get_target_retry.simps [of _ _ _ "temp_buf r"] s(3) mem_free_def)
  have v: "fingerprint ?v = fp" "bi_valid ?v" "dirty_bit ?v \<or> ?M fp = Some (bi_val ?v)" "bi_val ?v = (sz, pba)"
    using i(4) M by (simp_all add: bi_valid_def bi_val_def)
  note p = put_entry_ok [OF ok e fp(2) v(1-3)] put_entry_view [OF ok e fp(2) v(1-3)]
  have "\<not> dirty_bit (put_entry e ?v ?b j)" if j: "j < NR_SET" "fingerprint (put_entry e ?v ?b j) = fp" for j
  proof (cases "j = e")
    case False
    with j have "fingerprint (?b j) = fp" by (simp add: put_entry_valid)
    with get_target_other [OF ok e fp(2) j(1) False] have "\<not> bi_valid (?b j)" by blast
    with bucket_okD(1) [OF ok j(1)] False show ?thesis by (auto simp: put_entry_valid)
  qed (simp add: put_entry_valid)
  with run p v(4) s(4,5) show ?thesis
    by (intro exI [of _ "set_bucket idx (put_entry e ?v ?b) bi"] exI [of _ ?h'] exI [of _ w]) (simp add: set_bucket_def)
qed

theorem bi_get_second_pass_witness:
  "\<exists>(h :: bi_params handler) bi' h'. bigkv_index_get 1 full_index h = Inr (0, bi', h') \<and>
     bucket_view (bi_buckets full_index 0) [1 \<mapsto> (8, 0x3ffffffff0)] 1 = Some (8, 0) \<and>
     bucket_view (bi_buckets bi' 0) [1 \<mapsto> (8, 0x3ffffffff0)] 1 = Some (8, 0x3ffffffff0)"
proof -
  obtain h :: "bi_params handler" where h: "index_env QSIZE h" "hash_low (rkey (req_arr h 1)) = 1" "hash_high (rkey (req_arr h 1)) = 0"
    "unat (nr_segment (dev h)) < 2 ^ 24"
    using ex_set_and_get [where 'p = bi_params and ty = REQ_TYPE_GET and C = "\<lambda>_. (1, 0)"] by auto
  let ?o = "\<lparr>fingerprint = 1, reserve = 0, dirty_bit = False, lru_bit = 0, bkv_size = 8, bpba = 0x3ffffffff0\<rparr>"
  obtain f where f: "insert_to_ptable ?o pt_empty = Some f"
    using insert_to_ptable_room [of pt_empty ?o] by (auto simp: pt_count_empty BI_MAX_HOP_def)
  have M: "pt_map f = [1 \<mapsto> (8, 0x3ffffffff0)]"
    using insert_to_ptable_map [OF f _ pt_empty_ok] by (simp add: pt_empty_map BI_PBA_INVALID_def)
  let ?t = "brk (mem h)" and ?buf = "\<lparr>blen = PART_TABLE_SIZE, bdat = f\<rparr>"
  let ?r = "(req_arr h 1)\<lparr>params := Some \<lparr>read_step = BI_STEP_UPDATE_TABLE, write_step = BI_STEP_WRITE_PTABLE\<rparr>, temp_buf := ?t\<rparr>"
  let ?h = "h\<lparr>submit_ok := \<lambda>_. True, req_arr := (req_arr h)(1 := ?r),
     mem := (mem h)\<lparr>cells := (cells (mem h))(?t \<mapsto> ?buf), brk := Suc ?t\<rparr>\<rparr>"
  have e: "index_env (Suc 0) ?h" "?t \<noteq> NULL"
    using h(1) by (auto simp: index_env_def staged_ok_def pools_hold_def mem_wf_def QSIZE_def)
  have out: "is_staged (dev ?h) (ucast (0x3ffffffff0 :: 42 word)) \<noteq> 0"
    using far_not_staged [OF h(1,4), of "ucast (0x3ffffffff0 :: 42 word)"] by (simp add: config_defs)
  have ok: "bucket_ok (bi_buckets full_index 0) (pt_map f)"
    using full_bucket_entry full_bucket_distinct by (auto simp: bucket_ok_def full_index_bucket)
  have tgt: "get_target_entry (bi_buckets full_index 0) 1 = Some 0"
    by (simp add: get_target_entry_def full_index_bucket full_bucket_def bi_config upt_rec)
  have old: "bucket_view (bi_buckets full_index 0) (pt_map f) 1 = Some (8, 0)"
    by (simp add: bucket_view_def get_match_entry_def full_index_bucket full_bucket_def bi_config upt_rec BI_PBA_INVALID_def bi_val_def)
  have "\<exists>bi' h'. bigkv_index_get 1 full_index ?h = Inr (0, bi', h') \<and>
     bucket_view (bi_buckets bi' 0) (pt_map f) 1 = Some (8, 0x3ffffffff0)"
    using bi_get_second_pass [OF e(1) _ refl, of 1 _ ?buf 0 1 8 "0x3ffffffff0" full_index 0] e(2) h(2,3) M out ok tgt
    by (auto simp: bucket_idx_def)
  with old M show ?thesis by auto
qed

end
