(* ===== verification/Poller.thy ===== *)
theory Poller
  imports Kv_Ops "HOL-Library.Multiset"
begin

section \<open>The completion thread (\<open>src/poller.c\<close>)\<close>

text \<open>
  Each handler has a thread that polls the kernel for completed I/Os (\<open>aio_poller\<close>). For each event it compares the result with the size the control block
  asked for, runs the callback the event carries, and returns the control block and the callback to their pools. The events are what the kernel reports: the
  control block, the data pointer that was stored in it, and the result as the \<open>unsigned long\<close> of \<open>struct io_event\<close>, in which an error is
  a negated error number. \<open>io_getevents\<close> takes the control block off the I/Os in progress.
\<close>

subsection \<open>Operations\<close>

record io_event =
  ev_obj :: ptr
  ev_data :: ptr
  ev_res :: u64

definition EINVAL :: u64 where "EINVAL = 22"

text \<open>\<open>io_getevents\<close> reports an event: its I/O is no longer in progress.\<close>

definition io_getevent :: "io_event \<Rightarrow> 'p handler \<Rightarrow> 'p handler" where
  "io_getevent ev h = h\<lparr>submitted := remove1 (ev_obj ev) (submitted h)\<rparr>"

text \<open>The body of the loop over the events; \<open>run\<close> runs a callback.\<close>

definition aio_poll_event :: "'p runner \<Rightarrow> io_event \<Rightarrow> 'p handler \<Rightarrow> 'p handler res" where
  "aio_poll_event run ev h =
     (let iocb = ev_obj ev; cb = ev_data ev
      in if ev_res ev \<noteq> EINVAL \<and> ev_res ev \<noteq> of_nat (io_nbytes (iocb_arr h iocb)) then Inl Abort
         else ebind (run (cbfunc (cb_arr h cb)) (cbarg (cb_arr h cb)) h) (\<lambda>h1.
              ebind (q_enqueue iocb (iocb_pool h1)) (\<lambda>(_, q).
              ebind (q_enqueue cb (cb_pool h1)) (\<lambda>(_, q').
              Inr (h1\<lparr>iocb_pool := q, cb_pool := q'\<rparr>)))))"

fun aio_poll_events :: "'p runner \<Rightarrow> io_event list \<Rightarrow> 'p handler \<Rightarrow> 'p handler res" where
  "aio_poll_events run [] h = Inr h"
| "aio_poll_events run (ev # evs) h = ebind (aio_poll_event run ev h) (aio_poll_events run evs)"

text \<open>
  Iterations of the loop of \<open>aio_poller\<close>: at each, the value of \<open>stopflag_hlr\<close> and the events \<open>io_getevents\<close> returns (none when its
  result is 0 or an error). \<open>True\<close>: the thread has returned.
\<close>

fun aio_poller :: "'p runner \<Rightarrow> (bool \<times> io_event list) list \<Rightarrow> 'p handler \<Rightarrow> (bool \<times> 'p handler) res" where
  "aio_poller run [] h = Inr (False, h)"
| "aio_poller run ((stop, evs) # its) h =
     (if stop then Inr (True, h)
      else ebind (aio_poll_events run evs (fold io_getevent evs h)) (aio_poller run its))"

subsection \<open>One event\<close>

text \<open>What a callback may do to the pools of I/O: nothing. Both indexes' callbacks keep them.\<close>

definition runner_keeps_io :: "'p runner \<Rightarrow> bool" where
  "runner_keeps_io run \<longleftrightarrow> (\<forall>f a h h'. run f a h = Inr h' \<longrightarrow>
     iocb_pool h' = iocb_pool h \<and> cb_pool h' = cb_pool h \<and> submitted h' = submitted h \<and> iocb_arr h' = iocb_arr h \<and> cb_arr h' = cb_arr h)"

lemma poll_event_runs:
  assumes res: "ev_res ev = of_nat (io_nbytes (iocb_arr h (ev_obj ev)))"
    and run: "run (cbfunc (cb_arr h (ev_data ev))) (cbarg (cb_arr h (ev_data ev))) h = Inr h1" and keeps: "runner_keeps_io run"
    and pools: "q_inv (iocb_pool h)" "int (length (q_list (iocb_pool h))) < m_size (iocb_pool h)"
      "q_inv (cb_pool h)" "int (length (q_list (cb_pool h))) < m_size (cb_pool h)"
  shows "\<exists>q q'. aio_poll_event run ev h = Inr (h1\<lparr>iocb_pool := q, cb_pool := q'\<rparr>) \<and>
     q_inv q \<and> q_list q = q_list (iocb_pool h) @ [ev_obj ev] \<and> m_size q = m_size (iocb_pool h) \<and>
     q_inv q' \<and> q_list q' = q_list (cb_pool h) @ [ev_data ev] \<and> m_size q' = m_size (cb_pool h)"
proof -
  have k: "iocb_pool h1 = iocb_pool h" "cb_pool h1 = cb_pool h" using keeps run by (auto simp: runner_keeps_io_def)
  obtain q where q: "q_enqueue (ev_obj ev) (iocb_pool h) = Inr (True, q)" "q_inv q" "q_list q = q_list (iocb_pool h) @ [ev_obj ev]"
    "m_size q = m_size (iocb_pool h)" using lq.enq_room [OF pools(1,2), of "ev_obj ev"] by blast
  obtain q' where q': "q_enqueue (ev_data ev) (cb_pool h) = Inr (True, q')" "q_inv q'" "q_list q' = q_list (cb_pool h) @ [ev_data ev]"
    "m_size q' = m_size (cb_pool h)" using lq.enq_room [OF pools(3,4), of "ev_data ev"] by blast
  show ?thesis
    by (intro exI [of _ q] exI [of _ q']) (use res run k q q' in \<open>simp add: aio_poll_event_def Let_def\<close>)
qed

lemma neg_errno_neq:
  assumes "1 \<le> e" and "e < 4096" and "n < 2 ^ 32"
  shows "(- of_nat e :: u64) \<noteq> of_nat n"
proof
  assume "(- of_nat e :: u64) = of_nat n"
  then have "(of_nat (n + e) :: u64) = 0" by (metis add.commute add.right_inverse of_nat_add)
  moreover have "unat (of_nat (n + e) :: u64) = n + e" using assms by (intro unat_of_nat_u64) simp
  ultimately show False using assms(1) by simp
qed

text \<open>
  How the poller judges a completion. An I/O that transferred the bytes asked for runs its callback. One that failed (the result is a
  negated error number, \<open>EINVAL\<close> included) or fell short aborts the server. The one result the code takes for an error, the positive number
  \<open>EINVAL\<close>, is a transfer of 22 bytes: the callback runs as after a success, whatever was asked for.
\<close>

theorem aio_event_judged:
  assumes n: "io_nbytes (iocb_arr h (ev_obj ev)) < 2 ^ 32"
  shows "(\<forall>e. 1 \<le> e \<and> e < 4096 \<and> ev_res ev = - of_nat e \<longrightarrow> aio_poll_event run ev h = Inl Abort) \<and>
     (unat (ev_res ev) < io_nbytes (iocb_arr h (ev_obj ev)) \<and> ev_res ev \<noteq> 22 \<longrightarrow> aio_poll_event run ev h = Inl Abort) \<and>
     (ev_res ev = 22 \<longrightarrow> aio_poll_event run ev h = aio_poll_event run (ev\<lparr>ev_res := of_nat (io_nbytes (iocb_arr h (ev_obj ev)))\<rparr>) h)"
proof (intro conjI allI impI)
  fix e :: nat
  assume e: "1 \<le> e \<and> e < 4096 \<and> ev_res ev = - of_nat e"
  then show "aio_poll_event run ev h = Inl Abort"
    using neg_errno_neq [of e "io_nbytes (iocb_arr h (ev_obj ev))"] neg_errno_neq [of e 22] n
    by (simp add: aio_poll_event_def Let_def EINVAL_def)
next
  assume s: "unat (ev_res ev) < io_nbytes (iocb_arr h (ev_obj ev)) \<and> ev_res ev \<noteq> 22"
  have "unat (of_nat (io_nbytes (iocb_arr h (ev_obj ev))) :: u64) = io_nbytes (iocb_arr h (ev_obj ev))"
    using n by (intro unat_of_nat_u64) simp
  with s show "aio_poll_event run ev h = Inl Abort" by (auto simp: aio_poll_event_def Let_def EINVAL_def)
qed (simp add: aio_poll_event_def Let_def EINVAL_def)

theorem aio_event_judged_witness:
  "\<exists>h :: unit handler. io_nbytes (iocb_arr h 1) = 16384 \<and>
     aio_poll_event (\<lambda>_ _ h. Inr h) \<lparr>ev_obj = 1, ev_data = 1, ev_res = - 22\<rparr> h = Inl Abort \<and>
     aio_poll_event (\<lambda>_ _ h. Inr h) \<lparr>ev_obj = 1, ev_data = 1, ev_res = 0\<rparr> h = Inl Abort"
proof -
  let ?c = "\<lparr>io_cmd = IO_PREAD, io_buf = NULL, io_nbytes = 16384, io_offset = 0, io_data = 1\<rparr>"
  let ?h = "(hlr_alloc 0 (\<lambda>_. 0) (\<lambda>_. True) (\<lambda>_. True) :: unit handler)\<lparr>iocb_arr := \<lambda>_. ?c\<rparr>"
  have "aio_poll_event (\<lambda>_ _ h. Inr h) \<lparr>ev_obj = 1, ev_data = 1, ev_res = - 22\<rparr> ?h = Inl Abort"
    using aio_event_judged [of ?h "\<lparr>ev_obj = 1, ev_data = 1, ev_res = - 22\<rparr>" "\<lambda>_ _ h. Inr h", THEN conjunct1, THEN spec, of 22] by simp
  moreover have "aio_poll_event (\<lambda>_ _ h. Inr h) \<lparr>ev_obj = 1, ev_data = 1, ev_res = 0\<rparr> ?h = Inl Abort"
    using aio_event_judged [of ?h "\<lparr>ev_obj = 1, ev_data = 1, ev_res = 0\<rparr>" "\<lambda>_ _ h. Inr h"] by simp
  ultimately show ?thesis by (intro exI [of _ ?h]) simp
qed

subsection \<open>Control blocks and callbacks are recycled\<close>

text \<open>
  \<open>io_owned h\<close>: every control block is in its pool or with the kernel, and each I/O in progress carries a callback of its own that is not in the
  pool of callbacks. \<open>others\<close> are the callbacks that are in use without an I/O.
\<close>

definition io_owned :: "ptr multiset \<Rightarrow> 'p handler \<Rightarrow> bool" where
  "io_owned others h \<longleftrightarrow> q_inv (iocb_pool h) \<and> int QSIZE \<le> m_size (iocb_pool h) \<and> q_inv (cb_pool h) \<and> int QSIZE \<le> m_size (cb_pool h) \<and>
     mset (q_list (iocb_pool h)) + mset (submitted h) = mset pool_ptrs \<and>
     mset (q_list (cb_pool h)) + mset (map (\<lambda>w. io_data (iocb_arr h w)) (submitted h)) + others = mset pool_ptrs"

lemma distinct_pool_ptrs: "distinct pool_ptrs"
  by (simp add: pool_ptrs_def)

lemma io_owned_length:
  assumes "io_owned oth h"
  shows "length (q_list (iocb_pool h)) + length (submitted h) = QSIZE" "length (q_list (cb_pool h)) + length (submitted h) + size oth = QSIZE"
    "distinct (q_list (iocb_pool h) @ submitted h)"
proof -
  from assms have m: "mset (q_list (iocb_pool h) @ submitted h) = mset pool_ptrs"
    "mset (q_list (cb_pool h)) + mset (map (\<lambda>w. io_data (iocb_arr h w)) (submitted h)) + oth = mset pool_ptrs"
    by (simp_all add: io_owned_def)
  from mset_eq_length [OF m(1)] show "length (q_list (iocb_pool h)) + length (submitted h) = QSIZE" by simp
  from arg_cong [OF m(2), of size] show "length (q_list (cb_pool h)) + length (submitted h) + size oth = QSIZE" by simp
  show "distinct (q_list (iocb_pool h) @ submitted h)"
    unfolding mset_eq_imp_distinct_iff [OF m(1)] by (rule distinct_pool_ptrs)
qed

lemma submit_owns:
  assumes own: "io_owned (add_mset cb oth) h"
  shows "\<exists>w h'. aio_submit cmd a sz buf cb h = Inr (if submit_ok h (n_submit h) then 0 else -1, h') \<and> w \<in> set (q_list (iocb_pool h)) \<and>
     io_data (iocb_arr h' w) = cb \<and> io_nbytes (iocb_arr h' w) = unat sz \<and> n_submit h' = Suc (n_submit h) \<and>
     (submit_ok h (n_submit h) \<longrightarrow> submitted h' = submitted h @ [w] \<and> io_owned oth h') \<and>
     (\<not> submit_ok h (n_submit h) \<longrightarrow> submitted h' = submitted h \<and>
        add_mset w (mset (q_list (iocb_pool h')) + mset (submitted h')) = mset pool_ptrs)"
proof -
  note o = own [unfolded io_owned_def]
  have "size (add_mset cb oth) \<noteq> 0" by simp
  then have ne: "q_list (iocb_pool h) \<noteq> []" using io_owned_length(1,2) [OF own] by auto
  then obtain w ws where w: "q_list (iocb_pool h) = w # ws" by (cases "q_list (iocb_pool h)") auto
  have "set (q_list (iocb_pool h)) \<union> set (submitted h) = set pool_ptrs"
    using o mset_eq_setD [of "q_list (iocb_pool h) @ submitted h" pool_ptrs] by simp
  then have "w \<in> set pool_ptrs" using w by auto
  then have nn: "w \<noteq> NULL" using null_notin_pool_ptrs by metis
  obtain q where q: "q_dequeue (iocb_pool h) = Inr (w, q)" "q_inv q" "q_list q = ws" "m_size q = m_size (iocb_pool h)"
    using lq.deq_nonempty [of "iocb_pool h"] o w by auto
  have nw: "w \<notin> set (submitted h)" using io_owned_length(3) [OF own] w by auto
  let ?c = "\<lparr>io_cmd = cmd, io_buf = buf, io_nbytes = unat sz, io_offset = a, io_data = cb\<rparr>"
  have dat: "map (\<lambda>v. io_data (((iocb_arr h)(w := ?c)) v)) (submitted h) = map (\<lambda>v. io_data (iocb_arr h v)) (submitted h)"
    using nw by auto
  let ?h = "h\<lparr>iocb_pool := q, iocb_arr := (iocb_arr h)(w := ?c), cb_arr := (cb_arr h)(cb := (cb_arr h cb)\<lparr>cbiocb := w\<rparr>), n_submit := Suc (n_submit h)\<rparr>"
  let ?h' = "if submit_ok h (n_submit h) then ?h\<lparr>submitted := submitted h @ [w]\<rparr> else ?h"
  have "aio_submit cmd a sz buf cb h = Inr (if submit_ok h (n_submit h) then 0 else -1, ?h')"
    using q(1) nn by (simp add: aio_submit_def Let_def)
  moreover have "io_owned oth (?h\<lparr>submitted := submitted h @ [w]\<rparr>)"
    using o q(2-4) w by (simp add: io_owned_def dat fun_upd_same del: fun_upd_apply mset_map)
  moreover have "add_mset w (mset (q_list q) + mset (submitted h)) = mset pool_ptrs" using o q(3) w by simp
  ultimately show ?thesis using w by (intro exI [of _ w] exI [of _ ?h']) auto
qed

lemma poll_owns:
  assumes own: "io_owned oth h" and w: "ev_obj ev \<in> set (submitted h)" "ev_data ev = io_data (iocb_arr h (ev_obj ev))"
    and res: "ev_res ev = of_nat (io_nbytes (iocb_arr h (ev_obj ev)))" and keeps: "runner_keeps_io run"
    and run: "run (cbfunc (cb_arr h (ev_data ev))) (cbarg (cb_arr h (ev_data ev))) (io_getevent ev h) = Inr h1"
  shows "\<exists>h'. aio_poll_event run ev (io_getevent ev h) = Inr h' \<and> io_owned oth h' \<and> submitted h' = remove1 (ev_obj ev) (submitted h) \<and>
     acks h' = acks h1 \<and> mem h' = mem h1 \<and> req_pool h' = req_pool h1 \<and> retry_q h' = retry_q h1"
proof -
  let ?g = "io_getevent ev h"
  note o = own [unfolded io_owned_def]
  have g: "iocb_pool ?g = iocb_pool h" "cb_pool ?g = cb_pool h" "iocb_arr ?g = iocb_arr h" "cb_arr ?g = cb_arr h"
    "submitted ?g = remove1 (ev_obj ev) (submitted h)" by (simp_all add: io_getevent_def)
  have ne: "0 < length (submitted h)" using w(1) by (cases "submitted h") auto
  have room: "int (length (q_list (iocb_pool ?g))) < m_size (iocb_pool ?g)" "int (length (q_list (cb_pool ?g))) < m_size (cb_pool ?g)"
    unfolding g using io_owned_length(1,2) [OF own] o ne by linarith+
  have k: "submitted h1 = submitted ?g" "iocb_arr h1 = iocb_arr ?g" using keeps run by (auto simp: runner_keeps_io_def)
  obtain q q' where q: "aio_poll_event run ev ?g = Inr (h1\<lparr>iocb_pool := q, cb_pool := q'\<rparr>)"
     "q_inv q" "q_list q = q_list (iocb_pool h) @ [ev_obj ev]" "m_size q = m_size (iocb_pool h)"
     "q_inv q'" "q_list q' = q_list (cb_pool h) @ [ev_data ev]" "m_size q' = m_size (cb_pool h)"
    using poll_event_runs [of ev ?g run h1] res run keeps o room g by auto
  have ms: "add_mset (ev_obj ev) (mset (remove1 (ev_obj ev) (submitted h))) = mset (submitted h)" using w(1) by simp
  have md: "add_mset (ev_data ev) (mset (map (\<lambda>v. io_data (iocb_arr h v)) (remove1 (ev_obj ev) (submitted h)))) =
      mset (map (\<lambda>v. io_data (iocb_arr h v)) (submitted h))"
    using arg_cong [OF ms, of "image_mset (\<lambda>v. io_data (iocb_arr h v))"] w(2) by simp
  have "mset (q_list (iocb_pool h)) + add_mset (ev_obj ev) (mset (remove1 (ev_obj ev) (submitted h))) = mset pool_ptrs"
    unfolding ms using o by blast
  then have "mset (q_list q) + mset (submitted h1) = mset pool_ptrs" by (simp add: q(3) k(1) g(5) del: mset_remove1)
  moreover have "mset (q_list (cb_pool h)) + add_mset (ev_data ev) (mset (map (\<lambda>v. io_data (iocb_arr h v)) (remove1 (ev_obj ev) (submitted h)))) + oth =
      mset pool_ptrs" unfolding md using o by blast
  then have "mset (q_list q') + mset (map (\<lambda>v. io_data (iocb_arr h1 v)) (submitted h1)) + oth = mset pool_ptrs"
    by (simp add: q(6) k g del: mset_remove1 mset_map)
  ultimately have "io_owned oth (h1\<lparr>iocb_pool := q, cb_pool := q'\<rparr>)" using o q by (simp add: io_owned_def)
  with q(1) k(1) g(5) show ?thesis by (intro exI [of _ "h1\<lparr>iocb_pool := q, cb_pool := q'\<rparr>"]) simp
qed

text \<open>
  C27: control blocks and callbacks are recycled. While every control block is in its pool or with the kernel, and every callback in its pool, carried by an I/O
  in progress, or in use, submitting an I/O never finds the pool empty, and hands the callback to the I/O; when the I/O completes with the bytes asked for, the poller
  runs that callback and returns the control block and the callback to their pools, and the accounts are balanced again. An I/O the kernel
  refuses is lost: its control block is then neither in the pool nor with the kernel.
\<close>

theorem io_recycled:
  assumes own: "io_owned (add_mset cb oth) h" and keeps: "runner_keeps_io run"
  shows "\<exists>w h1. aio_submit cmd a sz buf cb h = Inr (if submit_ok h (n_submit h) then 0 else -1, h1) \<and>
     (submit_ok h (n_submit h) \<longrightarrow> submitted h1 = submitted h @ [w] \<and> io_owned oth h1 \<and>
        (let ev = \<lparr>ev_obj = w, ev_data = cb, ev_res = ucast sz\<rparr>
         in \<forall>h2. run (cbfunc (cb_arr h1 cb)) (cbarg (cb_arr h1 cb)) (io_getevent ev h1) = Inr h2 \<longrightarrow>
              (\<exists>h3. aio_poll_event run ev (io_getevent ev h1) = Inr h3 \<and> io_owned oth h3 \<and> submitted h3 = submitted h \<and> acks h3 = acks h2))) \<and>
     (\<not> submit_ok h (n_submit h) \<longrightarrow> w \<notin> set (q_list (iocb_pool h1)) \<union> set (submitted h1))"
proof -
  obtain w h1 where s: "aio_submit cmd a sz buf cb h = Inr (if submit_ok h (n_submit h) then 0 else -1, h1)" "w \<in> set (q_list (iocb_pool h))"
    "io_data (iocb_arr h1 w) = cb" "io_nbytes (iocb_arr h1 w) = unat sz"
    "submit_ok h (n_submit h) \<Longrightarrow> submitted h1 = submitted h @ [w] \<and> io_owned oth h1"
    "\<not> submit_ok h (n_submit h) \<Longrightarrow> add_mset w (mset (q_list (iocb_pool h1)) + mset (submitted h1)) = mset pool_ptrs"
    using submit_owns [OF own, of cmd a sz buf] by blast
  let ?ev = "\<lparr>ev_obj = w, ev_data = cb, ev_res = ucast sz\<rparr>"
  have nw: "w \<notin> set (submitted h)" using io_owned_length(3) [OF own] s(2) by auto
  have "\<exists>h3. aio_poll_event run ?ev (io_getevent ?ev h1) = Inr h3 \<and> io_owned oth h3 \<and> submitted h3 = submitted h \<and> acks h3 = acks h2"
    if ok: "submit_ok h (n_submit h)" and r: "run (cbfunc (cb_arr h1 cb)) (cbarg (cb_arr h1 cb)) (io_getevent ?ev h1) = Inr h2" for h2
  proof -
    have sub: "submitted h1 = submitted h @ [w]" "io_owned oth h1" using s(5) [OF ok] by blast+
    have ev: "ev_obj ?ev \<in> set (submitted h1)" "ev_data ?ev = io_data (iocb_arr h1 (ev_obj ?ev))"
      "ev_res ?ev = of_nat (io_nbytes (iocb_arr h1 (ev_obj ?ev)))" "remove1 (ev_obj ?ev) (submitted h1) = submitted h"
      using s(3,4) sub(1) nw by (simp_all add: remove1_append)
    have "run (cbfunc (cb_arr h1 (ev_data ?ev))) (cbarg (cb_arr h1 (ev_data ?ev))) (io_getevent ?ev h1) = Inr h2" using r by simp
    from poll_owns [OF sub(2) ev(1-3) keeps this] ev(4) show ?thesis by auto
  qed
  moreover have "w \<notin> set (q_list (iocb_pool h1)) \<union> set (submitted h1)" if "\<not> submit_ok h (n_submit h)"
  proof -
    from s(6) [OF that] have "mset (w # q_list (iocb_pool h1) @ submitted h1) = mset pool_ptrs" by simp
    from mset_eq_imp_distinct_iff [OF this] distinct_pool_ptrs show ?thesis by simp
  qed
  ultimately show ?thesis using s(1,5) unfolding Let_def by blast
qed

lemma ex_io_owned: "\<exists>(h :: 'p handler) cb. io_owned {#cb#} h \<and> submit_ok h = (\<lambda>_. True) \<and> n_submit h = 0 \<and> submitted h = [] \<and> acks h = []"
proof -
  obtain q where q: "q_inv q" "m_size q = int QSIZE" "q_list q = pool_ptrs" using fill_pool by blast
  have p: "pool_ptrs = 1 # tl pool_ptrs" by (simp only: pool_ptrs_Cons list.sel)
  then have "q_list q \<noteq> []" using q(3) by auto
  from lq.deq_nonempty [OF q(1) this] q(2,3) obtain q' where q': "q_inv q'" "q_list q' = tl pool_ptrs" "m_size q' = int QSIZE" by auto
  let ?h = "(hlr_alloc 0 (\<lambda>_. 0) (\<lambda>_. True) (\<lambda>_. True) :: 'p handler)\<lparr>iocb_pool := q, cb_pool := q'\<rparr>"
  have "io_owned {#1#} ?h"
    using q q' arg_cong [OF p, of mset] by (simp add: io_owned_def hlr_alloc_def)
  then show ?thesis by (intro exI [of _ ?h] exI [of _ 1]) (simp add: hlr_alloc_def)
qed

theorem io_recycled_witness:
  "\<exists>(h :: unit handler) cb w h1 h3. aio_submit IO_PREAD 0 1024 5 cb h = Inr (0, h1) \<and> submitted h1 = [w] \<and>
     aio_poll_event (\<lambda>_ _ h. Inr h) \<lparr>ev_obj = w, ev_data = cb, ev_res = 1024\<rparr>
       (io_getevent \<lparr>ev_obj = w, ev_data = cb, ev_res = 1024\<rparr> h1) = Inr h3 \<and> submitted h3 = []"
proof -
  obtain h :: "unit handler" and cb where h: "io_owned {#cb#} h" "submit_ok h = (\<lambda>_. True)" "submitted h = []" using ex_io_owned by blast
  have "runner_keeps_io (\<lambda>_ _ h. Inr h)" by (simp add: runner_keeps_io_def)
  from io_recycled [OF h(1) this, of IO_PREAD 0 1024 5] h(2,3) obtain w h1 h3 where
    "aio_submit IO_PREAD 0 1024 5 cb h = Inr (0, h1)" "submitted h1 = [w]" "submitted h3 = []"
    "aio_poll_event (\<lambda>_ _ h. Inr h) \<lparr>ev_obj = w, ev_data = cb, ev_res = 1024\<rparr>
       (io_getevent \<lparr>ev_obj = w, ev_data = cb, ev_res = 1024\<rparr> h1) = Inr h3"
    by (auto simp: Let_def)
  then show ?thesis by (intro exI [of _ h] exI [of _ cb] exI [of _ w] exI [of _ h1] exI [of _ h3]) simp
qed

end
