(* ===== verification/Bigkv_Disk.thy ===== *)
theory Bigkv_Disk
  imports Bigkv_Evict Poller
begin

section \<open>Reads that go to the disk: the BigKV index with the completion thread\<close>

text \<open>
  A GET whose pair is not in the staged segment is finished by the completion thread: the index submits a read of the pair, the kernel fills the buffer of
  the request, and the callback of the event compares the key. This theory composes \<open>bigkv_index_get\<close> with \<open>aio_poll_event\<close>. What the kernel puts into
  the buffer is a variable of the statements.
\<close>

lemma retry_req_io:
  "retry_req req h = Inr h' \<Longrightarrow> iocb_pool h' = iocb_pool h \<and> cb_pool h' = cb_pool h \<and> submitted h' = submitted h \<and>
     iocb_arr h' = iocb_arr h \<and> cb_arr h' = cb_arr h"
  by (auto simp: retry_req_def retry_req_to_hlr_def res_simps)

lemma net_end_req_io:
  "net_end_req req h = Inr h' \<Longrightarrow> iocb_pool h' = iocb_pool h \<and> cb_pool h' = cb_pool h \<and> submitted h' = submitted h \<and>
     iocb_arr h' = iocb_arr h \<and> cb_arr h' = cb_arr h"
  by (auto simp: net_end_req_def Let_def send_ack_def res_simps)

lemma bi_run_keeps_io: "runner_keeps_io bi_run"
  unfolding runner_keeps_io_def
proof (intro allI impI)
  fix f a and h h' :: "bi_params handler" assume "bi_run f a h = Inr h'"
  then show "iocb_pool h' = iocb_pool h \<and> cb_pool h' = cb_pool h \<and> submitted h' = submitted h \<and> iocb_arr h' = iocb_arr h \<and> cb_arr h' = cb_arr h"
    by (cases f) (auto simp: reap_seg_buf_def munmap_def bi_cb_keycmp_def cb_part_table_read_def cb_part_table_write_def
        cb_part_table_write_for_get_def set_params_def Let_def res_simps split: option.splits if_splits dest!: net_end_req_io retry_req_io)
qed

text \<open>The kernel has filled the buffer of an I/O with the bytes \<open>g\<close>.\<close>

definition buffer_filled :: "ptr \<Rightarrow> mbuf \<Rightarrow> (nat \<Rightarrow> byte) \<Rightarrow> 'p handler \<Rightarrow> 'p handler" where
  "buffer_filled v b g h = h\<lparr>mem := (mem h)\<lparr>cells := (cells (mem h))(v \<mapsto> b\<lparr>bdat := g\<rparr>)\<rparr>\<rparr>"

text \<open>The callback of the read of a pair: the request ends when the keys agree, and is queued again when they do not.\<close>

lemma keycmp_event:
  fixes h :: "bi_params handler"
  assumes cb: "cbfunc (cb_arr h (ev_data ev)) = CB_keycmp" "cbarg (cb_arr h (ev_data ev)) = req"
    and res: "ev_res ev = of_nat (io_nbytes (iocb_arr h (ev_obj ev)))"
    and r: "req_arr h req = r" "params r = Some p" and b: "cells (mem h) (vvalue (rvalue r)) = Some b" "vvalue (rvalue r) \<noteq> NULL"
    and key: "Suc (unat (klen (rkey r))) \<le> blen b"
    and pools: "q_inv (iocb_pool h)" "q_inv (cb_pool h)" "q_inv (req_pool h)" "int (length (q_list (req_pool h))) < m_size (req_pool h)"
      "q_inv (retry_q h)" "int (length (q_list (retry_q h))) < m_size (retry_q h)"
  shows "\<exists>h'. aio_poll_event bi_run ev h = Inr h' \<and>
     (if bdat b 0 = klen (rkey r) \<and> same_c_string (unat (klen (rkey r))) (kkey (rkey r)) (\<lambda>j. bdat b (Suc j))
      then acks h' = acks h @ [ack_of (clock h) r] \<and> q_list (req_pool h') = q_list (req_pool h) @ [req] \<and> cells (mem h') (vvalue (rvalue r)) = None
      else acks h' = acks h \<and> q_list (retry_q h') = q_list (retry_q h) @ [req] \<and>
        req_arr h' req = r\<lparr>params := Some (p\<lparr>read_step := BI_STEP_KEY_MISMATCH\<rparr>)\<rparr>)"
proof -
  obtain c where c: "keycmp_k_v (rkey r) (rvalue r) (mem h) = Inr c"
    "(c = 0) = (bdat b 0 = klen (rkey r) \<and> same_c_string (unat (klen (rkey r))) (kkey (rkey r)) (\<lambda>j. bdat b (Suc j)))"
    using keycmp_zero_iff [OF b key] by auto
  have fin: "\<exists>q q'. aio_poll_event bi_run ev h = Inr (h1\<lparr>iocb_pool := q, cb_pool := q'\<rparr>)" if "bi_run CB_keycmp req h = Inr h1" for h1
  proof -
    have "iocb_pool h1 = iocb_pool h" "cb_pool h1 = cb_pool h" using bi_run_keeps_io that unfolding runner_keeps_io_def by blast+
    moreover obtain x q y q' where "q_enqueue (ev_obj ev) (iocb_pool h) = Inr (x, q)" "q_enqueue (ev_data ev) (cb_pool h) = Inr (y, q')"
      using lq.enq_total [OF pools(1), of "ev_obj ev"] lq.enq_total [OF pools(2), of "ev_data ev"] by blast
    ultimately have "aio_poll_event bi_run ev h = Inr (h1\<lparr>iocb_pool := q, cb_pool := q'\<rparr>)"
      using that cb res by (simp add: aio_poll_event_def Let_def)
    then show ?thesis by blast
  qed
  show ?thesis
  proof (cases "c = 0")
    case True
    obtain m where m: "mem_free (vvalue (rvalue r)) (mem h) = Inr m" "cells m (vvalue (rvalue r)) = None" using b by (auto simp: mem_free_def)
    obtain q where "net_end_req req h = Inr (h\<lparr>mem := m, req_pool := q,
       req_arr := (req_arr h)(req := r\<lparr>rsw := sw_end (clock h) (rsw r)\<rparr>),
       flying := fst (cl_release (flying h)), acks := acks h @ [ack_of (clock h) r]\<rparr>)" "q_list q = q_list (req_pool h) @ [req]"
      using net_end_req_ok [OF pools(3,4), of req m] m(1) r(1) by auto
    moreover have "bi_run CB_keycmp req h = net_end_req req h" using c(1) True r by (simp add: bi_cb_keycmp_def Let_def)
    ultimately show ?thesis using fin m(2) True c(2) by fastforce
  next
    case False
    obtain q where "q_enqueue req (retry_q h) = Inr (True, q)" "q_list q = q_list (retry_q h) @ [req]"
      using lq.enq_room [OF pools(5,6), of req] by blast
    then have "bi_run CB_keycmp req h = Inr ((set_params req (p\<lparr>read_step := BI_STEP_KEY_MISMATCH\<rparr>) h)\<lparr>retry_q := q\<rparr>)"
      using c(1) False r by (simp add: bi_cb_keycmp_def Let_def retry_req_def retry_req_to_hlr_def set_params_def)
    from fin [OF this] False c(2) \<open>q_list q = _\<close> r show ?thesis by (auto simp: set_params_def)
  qed
qed

text \<open>
  C12: a GET through the disk. A GET of a cached key whose pair is not in the staged segment submits one read of exactly that pair into the buffer of the request, and marks the entry
  as the most recently used. When the read completes, whatever bytes \<open>g\<close> it delivered, the completion thread ends the request (one acknowledgement, the
  request back in its pool, the buffer freed) if they begin with the length and the key of the request, up to a NUL byte in both; otherwise it queues the request
  again, unacknowledged, and the next search finds the same entry.
\<close>

theorem bi_get_from_disk:
  fixes h :: "bi_params handler"
  assumes env: "index_env (Suc k) h" and sub: "submit_ok h (n_submit h)" and buf: "req_buf req h b"
    and rq: "q_inv (retry_q h)" "int (length (q_list (retry_q h))) < m_size (retry_q h)"
    and r: "req_arr h req = r" "params r = None" and idx: "bucket_idx (hash_high (rkey r)) = idx"
    and e: "get_match_entry (bi_buckets bi idx) (hash_low (rkey r)) = Some e" and out: "is_staged (dev h) (ucast (bpba (bi_buckets bi idx e))) \<noteq> 0"
    and n: "unat (bkv_size (bi_buckets bi idx e)) * GRAIN_UNIT = n" "Suc (unat (klen (rkey r))) \<le> n" "n \<le> blen b"
  shows "\<exists>bi' h1 w. bigkv_index_get req bi h = Inr (0, bi', h1) \<and> bi' = set_bucket idx (touch_entry e (bi_buckets bi idx)) bi \<and>
     submitted h1 = submitted h @ [w] \<and> io_cmd (iocb_arr h1 w) = IO_PREAD \<and> io_buf (iocb_arr h1 w) = vvalue (rvalue r) \<and> io_nbytes (iocb_arr h1 w) = n \<and>
     unat (io_offset (iocb_arr h1 w)) = unat (bpba (bi_buckets bi idx e)) * GRAIN_UNIT \<and>
     (\<forall>g. let ev = \<lparr>ev_obj = w, ev_data = io_data (iocb_arr h1 w), ev_res = of_nat n\<rparr>;
              h2 = io_getevent ev (buffer_filled (vvalue (rvalue r)) b g h1)
          in \<exists>h3. aio_poll_event bi_run ev h2 = Inr h3 \<and>
            (if g 0 = klen (rkey r) \<and> same_c_string (unat (klen (rkey r))) (kkey (rkey r)) (\<lambda>j. g (Suc j))
             then acks h3 = acks h @ [ack_of (clock h) r] \<and> q_list (req_pool h3) = q_list (req_pool h) @ [req] \<and>
               cells (mem h3) (vvalue (rvalue r)) = None
             else acks h3 = acks h \<and> q_list (retry_q h3) = q_list (retry_q h) @ [req] \<and>
               get_match_entry (bi_buckets bi' idx) (hash_low (rkey (req_arr h3 req))) = Some e))"
proof -
  let ?b = "bi_buckets bi idx" and ?v = "vvalue (rvalue r)"
  let ?e = "?b e"
  define h0 where "h0 = set_params req make_bi_params h"
  have h0: "index_env (Suc k) h0" "submit_ok h0 (n_submit h0)" "dev h0 = dev h" "mem h0 = mem h" "submitted h0 = submitted h"
    "acks h0 = acks h" "req_pool h0 = req_pool h" "retry_q h0 = retry_q h" "clock h0 = clock h"
    "req_arr h0 req = r\<lparr>params := Some make_bi_params\<rparr>"
    using env sub r by (simp_all add: h0_def set_params_def index_env_def staged_ok_def pools_hold_def)
  have st: "dev_inv (dev h)" using env by (simp add: index_env_def staged_ok_def)
  then have g: "unat (grain_unit (dev h)) = GRAIN_UNIT" by (simp add: dev_inv_def dev_layout_def)
  have lt: "unat (bkv_size ?e) < 2 ^ 14" "unat (bpba ?e) < 2 ^ 42"
    using unsigned_less [of "bkv_size ?e", where ?'a = nat] unsigned_less [of "bpba ?e", where ?'a = nat] by simp_all
  then have u: "unat (ucast (bkv_size ?e) :: u32) = unat (bkv_size ?e)" "unat (ucast (bpba ?e) :: u64) = unat (bpba ?e)"
    by (simp_all add: unat_ucast_small)
  have nb: "unat (ucast (bkv_size ?e) * grain_unit (dev h) :: u32) = n"
    using unat_mult_u32 [of "ucast (bkv_size ?e)" "grain_unit (dev h)"] lt(1) n(1) by (simp add: u g config_defs)
  have off: "unat (ucast (bpba ?e) * ucast (grain_unit (dev h)) :: u64) = unat (bpba ?e) * GRAIN_UNIT"
    using pba_bytes [OF st, of "ucast (bpba ?e)"] lt(2) by (simp add: u config_defs)
  from read_submits [OF h0(1,2), unfolded h0(3-9), OF out, of CB_keycmp req bi_run "ucast (bkv_size ?e)" ?v]
  obtain cb h1 w h2 where s: "make_callback CB_keycmp req h0 = Inr (cb, h1)"
    "dev_abs_read bi_run (ucast (bpba ?e)) (ucast (bkv_size ?e)) ?v cb h1 = Inr (0, h2)" "mem h2 = mem h" "submitted h2 = submitted h @ [w]"
    "acks h2 = acks h" "req_arr h2 = req_arr h0" "req_pool h2 = req_pool h" "retry_q h2 = retry_q h" "clock h2 = clock h" "q_inv (iocb_pool h2)" "q_inv (cb_pool h2)"
    "cbfunc (cb_arr h2 cb) = CB_keycmp" "cbarg (cb_arr h2 cb) = req"
    "iocb_arr h2 w = \<lparr>io_cmd = IO_PREAD, io_buf = ?v, io_nbytes = unat (ucast (bkv_size ?e) * grain_unit (dev h) :: u32),
       io_offset = ucast (bpba ?e) * ucast (grain_unit (dev h)), io_data = cb\<rparr>"
    by blast
  have run: "bigkv_index_get req bi h = Inr (0, set_bucket idx (touch_entry e ?b) bi, h2)"
    using s(1,2) e h0(10) idx r
    by (simp add: bigkv_index_get_def bi_ensure_params_def make_bi_params_steps Let_def h0_def [symmetric])
  have b: "cells (mem h) ?v = Some b" "?v \<noteq> NULL" using buf r(1) by (simp_all add: req_buf_def)
  have again: "get_match_entry (touch_entry e ?b) (hash_low (rkey r)) = Some e"
    using e unfolding get_match_entry_def by (subst find_cong [OF refl, of _ _ "\<lambda>i. bpba (?b i) \<noteq> BI_PBA_INVALID \<and> fingerprint (?b i) = hash_low (rkey r)"])
      (simp_all add: touch_entry_apply)
  have "\<exists>h3. aio_poll_event bi_run ev (io_getevent ev (buffer_filled ?v b g h2)) = Inr h3 \<and>
            (if g 0 = klen (rkey r) \<and> same_c_string (unat (klen (rkey r))) (kkey (rkey r)) (\<lambda>j. g (Suc j))
             then acks h3 = acks h @ [ack_of (clock h) r] \<and> q_list (req_pool h3) = q_list (req_pool h) @ [req] \<and> cells (mem h3) ?v = None
             else acks h3 = acks h \<and> q_list (retry_q h3) = q_list (retry_q h) @ [req] \<and> hash_low (rkey (req_arr h3 req)) = hash_low (rkey r))"
    if ev: "ev = \<lparr>ev_obj = w, ev_data = cb, ev_res = of_nat n\<rparr>" for ev g
  proof -
    let ?h = "io_getevent ev (buffer_filled ?v b g h2)"
    have f: "cbfunc (cb_arr ?h (ev_data ev)) = CB_keycmp" "cbarg (cb_arr ?h (ev_data ev)) = req"
      "ev_res ev = of_nat (io_nbytes (iocb_arr ?h (ev_obj ev)))" "req_arr ?h req = r\<lparr>params := Some make_bi_params\<rparr>"
      "cells (mem ?h) ?v = Some (b\<lparr>bdat := g\<rparr>)" "q_inv (iocb_pool ?h)" "q_inv (cb_pool ?h)" "req_pool ?h = req_pool h" "retry_q ?h = retry_q h"
      "acks ?h = acks h" "clock ?h = clock h"
      using s nb h0(10) ev by (simp_all add: io_getevent_def buffer_filled_def)
    have a: "ack_of t (r\<lparr>params := x\<rparr>) = ack_of t r" for t x by (simp add: ack_of_def)
    from keycmp_event [OF f(1-4) _ _ _ _ f(6,7), of make_bi_params "b\<lparr>bdat := g\<rparr>"] f(5,8-11) b(2) n(2,3) env rq
    show ?thesis by (fastforce simp: a index_env_def)
  qed
  with run s(4,14) nb off again show ?thesis
    by (intro exI [of _ "set_bucket idx (touch_entry e ?b) bi"] exI [of _ h2] exI [of _ w]) (fastforce simp: Let_def set_bucket_def)
qed

theorem bi_get_from_disk_witness:
  "\<exists>(h :: bi_params handler) bi bi' h1 w b g h3. bigkv_index_get 2 bi h = Inr (0, bi', h1) \<and> submitted h1 = submitted h @ [w] \<and>
     (let ev = \<lparr>ev_obj = w, ev_data = io_data (iocb_arr h1 w), ev_res = 1024\<rparr>
      in aio_poll_event bi_run ev (io_getevent ev (buffer_filled (vvalue (rvalue (req_arr h 2))) b g h1)) = Inr h3) \<and>
     length (acks h3) = 1"
proof -
  obtain h :: "bi_params handler" and b where h: "index_env QSIZE h" "unat (nr_segment (dev h)) < 2 ^ 24" "req_buf 2 h b" "blen b = 4096"
    "params (req_arr h 2) = None" "klen (rkey (req_arr h 2)) = 2" "hash_low (rkey (req_arr h 2)) = 1" "hash_high (rkey (req_arr h 2)) = 0" "acks h = []"
    using ex_set_and_get [where 'p = bi_params and ty = REQ_TYPE_GET and C = "\<lambda>_. (1, 0)"] by auto
  let ?h = "h\<lparr>submit_ok := \<lambda>_. True, retry_q := q_init 4\<rparr>" and ?r = "req_arr h 2"
  let ?e = "\<lparr>fingerprint = 1, reserve = 0, dirty_bit = False, lru_bit = 0, bkv_size = 8, bpba = 0x3ffffffff0\<rparr>"
  let ?bi = "set_bucket 0 ((\<lambda>_. init_bi_entry)(0 := ?e)) bigkv_index_init"
  have e: "index_env (Suc 0) ?h" "submit_ok ?h (n_submit ?h)" "q_inv (retry_q ?h)" "int (length (q_list (retry_q ?h))) < m_size (retry_q ?h)"
    "req_arr ?h 2 = ?r" "bucket_idx (hash_high (rkey ?r)) = 0" "req_buf 2 ?h b"
    using h(1,3,8) by (auto simp: index_env_def staged_ok_def pools_hold_def QSIZE_def bucket_idx_def req_buf_def)
  have m: "get_match_entry (bi_buckets ?bi 0) (hash_low (rkey ?r)) = Some 0"
    using h(7) by (simp add: get_match_entry_def set_bucket_def bi_config upt_rec BI_PBA_INVALID_def)
  have o: "is_staged (dev ?h) (ucast (bpba (bi_buckets ?bi 0 0))) \<noteq> 0"
    using far_not_staged [OF h(1,2), of "ucast (0x3ffffffff0 :: 42 word)"] by (simp add: config_defs set_bucket_def)
  have n: "unat (bkv_size (bi_buckets ?bi 0 0)) * GRAIN_UNIT = 1024" "Suc (unat (klen (rkey ?r))) \<le> 1024" "(1024 :: nat) \<le> blen b"
    using h(4,6) by (simp_all add: set_bucket_def config_defs)
  let ?g = "with_key (rkey ?r) (\<lambda>_. 0)"
  have g: "?g 0 = klen (rkey ?r) \<and> same_c_string (unat (klen (rkey ?r))) (kkey (rkey ?r)) (\<lambda>j. ?g (Suc j))"
    by (simp add: with_key_def same_c_string_def)
  from bi_get_from_disk [OF e(1,2,7,3-5) h(5) e(6) m o n] obtain bi' h1 w where
    s: "bigkv_index_get 2 ?bi ?h = Inr (0, bi', h1)" "submitted h1 = submitted ?h @ [w]" and
    p: "\<forall>g. let ev = \<lparr>ev_obj = w, ev_data = io_data (iocb_arr h1 w), ev_res = of_nat 1024\<rparr>;
              h2 = io_getevent ev (buffer_filled (vvalue (rvalue ?r)) b g h1)
          in \<exists>h3. aio_poll_event bi_run ev h2 = Inr h3 \<and>
            (if g 0 = klen (rkey ?r) \<and> same_c_string (unat (klen (rkey ?r))) (kkey (rkey ?r)) (\<lambda>j. g (Suc j))
             then acks h3 = acks ?h @ [ack_of (clock ?h) ?r] \<and> q_list (req_pool h3) = q_list (req_pool ?h) @ [2] \<and>
               cells (mem h3) (vvalue (rvalue ?r)) = None
             else acks h3 = acks ?h \<and> q_list (retry_q h3) = q_list (retry_q ?h) @ [2] \<and>
               get_match_entry (bi_buckets bi' 0) (hash_low (rkey (req_arr h3 2))) = Some 0)"
    by blast
  from p [rule_format, of ?g] g h(9) obtain h3 where
    "aio_poll_event bi_run \<lparr>ev_obj = w, ev_data = io_data (iocb_arr h1 w), ev_res = 1024\<rparr>
       (io_getevent \<lparr>ev_obj = w, ev_data = io_data (iocb_arr h1 w), ev_res = 1024\<rparr> (buffer_filled (vvalue (rvalue ?r)) b ?g h1)) = Inr h3"
    "length (acks h3) = 1"
    by (auto simp: Let_def)
  with s show ?thesis
    by (intro exI [of _ ?h] exI [of _ ?bi] exI [of _ bi'] exI [of _ h1] exI [of _ w] exI [of _ b] exI [of _ ?g] exI [of _ h3]) (simp add: Let_def)
qed



end
