(* ===== verification/Disk_Io.thy ===== *)
theory Disk_Io
  imports Poller
begin

section \<open>The log on the disk: device, kernel and completion thread\<close>

text \<open>
  A byte of the log is in one of three places: in the staging buffer, in the buffer of a retired segment that is still on its way to
  the disk, or on the disk. This theory joins the device (\<open>src/device.c\<close>, \<open>src/aio.c\<close>) with the kernel, which
  completes the I/Os in progress in any order, and shows that the three places together are an array of bytes in which what was
  written stays until its segment is staged again. The rest of the program appears as steps that leave the device alone.
\<close>

subsection \<open>The kernel\<close>

text \<open>
  The transfer of a control block, as \<open>io_submit\<close> documents it for \<open>IO_CMD_PREAD\<close> and \<open>IO_CMD_PWRITE\<close>: the
  whole range is copied and its size reported, or the buffer is not there and the error \<open>EFAULT\<close> is. Short transfers and errors of the medium are not among its
  results; the completion thread aborts the server on an error (\<open>aio_event_judged\<close>).
\<close>

definition EFAULT :: u64 where "EFAULT = 14"

definition kernel_io :: "ptr \<Rightarrow> 'p handler \<Rightarrow> io_event \<times> 'p handler" where
  "kernel_io w h =
     (let c = iocb_arr h w; n = io_nbytes c; ev = \<lparr>ev_obj = w, ev_data = io_data c, ev_res = of_nat n\<rparr>
      in case cells (mem h) (io_buf c) of
           None \<Rightarrow> (ev\<lparr>ev_res := - EFAULT\<rparr>, h)
         | Some b \<Rightarrow>
             if blen b < n then (ev\<lparr>ev_res := - EFAULT\<rparr>, h)
             else (ev, case io_cmd c of
                 IO_PWRITE \<Rightarrow> h\<lparr>disk := copy_bytes (disk h) (unat (io_offset c)) (bdat b) 0 n\<rparr>
               | IO_PREAD \<Rightarrow> h\<lparr>mem := (mem h)\<lparr>cells := (cells (mem h))(io_buf c \<mapsto>
                   b\<lparr>bdat := copy_bytes (bdat b) 0 (disk h) (unat (io_offset c)) n\<rparr>)\<rparr>\<rparr>))"

subsection \<open>Where a byte of the log is\<close>

definition writes :: "'p handler \<Rightarrow> iocb list" where
  "writes h = map (iocb_arr h) (filter (\<lambda>w. io_cmd (iocb_arr h w) = IO_PWRITE) (submitted h))"

definition reads :: "'p handler \<Rightarrow> iocb list" where
  "reads h = map (iocb_arr h) (filter (\<lambda>w. io_cmd (iocb_arr h w) = IO_PREAD) (submitted h))"

definition covers :: "iocb \<Rightarrow> nat \<Rightarrow> bool" where
  "covers c a \<longleftrightarrow> unat (io_offset c) \<le> a \<and> a < unat (io_offset c) + io_nbytes c"

definition in_seg :: "segment \<Rightarrow> nat \<Rightarrow> bool" where
  "in_seg s a \<longleftrightarrow> unat (start_addr s) \<le> a \<and> a < unat (end_addr s)"

definition in_flight :: "'p handler \<Rightarrow> nat \<Rightarrow> bool" where
  "in_flight h a \<longleftrightarrow> list_ex (\<lambda>c. covers c a) (writes h)"

definition log_view :: "'p handler \<Rightarrow> nat \<Rightarrow> byte" where
  "log_view h a =
     (if in_seg (staged (dev h)) a
      then bdat (the (cells (mem h) (staged_seg_buf (dev h)))) (a - unat (start_addr (staged (dev h))))
      else case find (\<lambda>c. covers c a) (writes h) of
             Some c \<Rightarrow> bdat (the (cells (mem h) (io_buf c))) (a - unat (io_offset c))
           | None \<Rightarrow> disk h a)"

text \<open>The buffers the device and the kernel read from: nobody else may touch them.\<close>

definition dev_bufs :: "'p handler \<Rightarrow> ptr set" where
  "dev_bufs h = insert (staged_seg_buf (dev h)) (io_buf ` set (writes h))"

subsection \<open>Well-formed I/O in progress\<close>

text \<open>
  Every write in progress is that of a whole segment other than the staged one, from a buffer of its own; no read in
  progress goes into such a buffer.
\<close>

definition write_ok :: "'p handler \<Rightarrow> iocb \<Rightarrow> bool" where
  "write_ok h c \<longleftrightarrow> (\<exists>i < unat (nr_segment (dev h)). i \<noteq> staged_seg (dev h) \<and> unat (io_offset c) = i * SEGMENT_SIZE) \<and>
     io_nbytes c = SEGMENT_SIZE \<and> io_buf c \<noteq> staged_seg_buf (dev h) \<and>
     (\<exists>b. cells (mem h) (io_buf c) = Some b \<and> blen b = SEGMENT_SIZE)"

definition read_ok :: "'p handler \<Rightarrow> iocb \<Rightarrow> bool" where
  "read_ok h c \<longleftrightarrow> io_buf c \<notin> dev_bufs h \<and> io_buf c < brk (mem h)"

definition pool_ok :: "'p handler \<Rightarrow> bool" where
  "pool_ok h \<longleftrightarrow> q_inv (iocb_pool h) \<and> distinct (q_list (iocb_pool h) @ submitted h)"

definition flight_ok :: "'p handler \<Rightarrow> bool" where
  "flight_ok h \<longleftrightarrow> staged_ok h \<and> pool_ok h \<and> distinct (map io_offset (writes h)) \<and> distinct (map io_buf (writes h)) \<and>
     (\<forall>c \<in> set (writes h). write_ok h c) \<and> (\<forall>c \<in> set (reads h). read_ok h c)"

subsection \<open>The runs of the device\<close>

text \<open>
  \<open>calls_back op cb h\<close>: the operation gets to its callback in the state \<open>h\<close> and returns 0 after it. What
  the callback does is a step of the rest of the program.
\<close>

definition calls_back :: "('p runner \<Rightarrow> (int \<times> 'p handler) res) \<Rightarrow> ptr \<Rightarrow> 'p handler \<Rightarrow> bool" where
  "calls_back op cb h \<longleftrightarrow> (\<forall>run. op run = ebind (run_and_recycle run cb h) (\<lambda>h1. Inr (0, h1)))"

definition env_step :: "'p handler \<Rightarrow> 'p handler \<Rightarrow> bool" where
  "env_step h h' \<longleftrightarrow> dev h' = dev h \<and> submitted h' = submitted h \<and> (\<forall>w \<in> set (submitted h). iocb_arr h' w = iocb_arr h w) \<and>
     disk h' = disk h \<and> (\<forall>p \<in> dev_bufs h. cells (mem h') p = cells (mem h) p) \<and> brk (mem h) \<le> brk (mem h') \<and>
     mem_wf (mem h') \<and> pool_ok h'"

text \<open>The abstract log: the bytes written so far.\<close>

type_synonym log = "nat \<rightharpoonup> byte"

definition log_put :: "nat \<Rightarrow> nat \<Rightarrow> (nat \<Rightarrow> byte) \<Rightarrow> log \<Rightarrow> log" where
  "log_put a n f L = (\<lambda>x. if a \<le> x \<and> x < a + n then Some (f (x - a)) else L x)"

definition log_forget :: "segment \<Rightarrow> log \<Rightarrow> log" where
  "log_forget s L = (\<lambda>x. if in_seg s x then None else L x)"

text \<open>
  The steps: an allocation, which stages the next segment when the staged one has no room (the hypotheses are that the system calls
  succeed and that the next segment is not still on its way to the disk); a write; a read of the staged segment
  and one that goes to the disk; a completion; and a step of the rest of the program.
\<close>

definition full :: "u32 \<Rightarrow> 'p handler \<Rightarrow> bool" where
  "full sz h \<longleftrightarrow> end_addr (staged (dev h)) < seg_offset (staged (dev h)) + ucast sz"

definition next_free :: "'p handler \<Rightarrow> bool" where
  "next_free h \<longleftrightarrow> (let j = Suc (staged_seg (dev h)) mod unat (nr_segment (dev h))
     in j \<noteq> staged_seg (dev h) \<and> list_all (\<lambda>c. unat (io_offset c) \<noteq> j * SEGMENT_SIZE) (writes h))"

inductive log_step :: "'p handler \<times> log \<Rightarrow> 'p handler \<times> log \<Rightarrow> bool" where
  log_alloc: "get_next_pba sz h = Inr (pba, h') \<Longrightarrow> unat sz \<le> SEGMENT_SIZE \<Longrightarrow> pools_hold 1 h \<Longrightarrow>
     mmap_ok h (n_mmap h) \<Longrightarrow> submit_ok h (n_submit h) \<Longrightarrow> (full sz h \<Longrightarrow> next_free h) \<Longrightarrow>
     log_step (h, L) (h', if full sz h then log_forget (staged (dev h')) L else L)"
| log_write: "calls_back (\<lambda>run. dev_abs_write run pba n buf cb h) cb h' \<Longrightarrow> in_staged (dev h) pba (unat n * GRAIN_UNIT) \<Longrightarrow>
     cells (mem h) buf = Some b \<Longrightarrow>
     log_step (h, L) (h', log_put (unat pba * GRAIN_UNIT) (unat n * GRAIN_UNIT) (bdat b) L)"
| log_read_staged: "calls_back (\<lambda>run. dev_abs_read run pba n buf cb h) cb h' \<Longrightarrow> is_staged (dev h) pba = 0 \<Longrightarrow>
     buf \<notin> dev_bufs h \<Longrightarrow> log_step (h, L) (h', L)"
| log_read_disk: "dev_abs_read run pba n buf cb h = Inr (rc, h') \<Longrightarrow> is_staged (dev h) pba \<noteq> 0 \<Longrightarrow> submit_ok h (n_submit h) \<Longrightarrow>
     buf \<notin> dev_bufs h \<Longrightarrow> cells (mem h) buf \<noteq> None \<Longrightarrow> log_step (h, L) (h', L)"
| log_complete: "w \<in> set (submitted h) \<Longrightarrow> kernel_io w h = (ev, h') \<Longrightarrow> log_step (h, L) (io_getevent ev h', L)"
| log_env: "env_step h h' \<Longrightarrow> log_step (h, L) (h', L)"

inductive_cases log_stepE: "log_step s t"

subsection \<open>The view depends on the device only\<close>

lemma writes_in: "c \<in> set (writes h) \<longleftrightarrow> (\<exists>w \<in> set (submitted h). c = iocb_arr h w \<and> io_cmd c = IO_PWRITE)"
  by (auto simp: writes_def)

lemma reads_in: "c \<in> set (reads h) \<longleftrightarrow> (\<exists>w \<in> set (submitted h). c = iocb_arr h w \<and> io_cmd c = IO_PREAD)"
  by (auto simp: reads_def)

lemma writes_mem [simp]: "writes (h\<lparr>mem := m\<rparr>) = writes h" "reads (h\<lparr>mem := m\<rparr>) = reads h"
  by (simp_all add: writes_def reads_def)

lemma writes_cong: "submitted h' = submitted h \<Longrightarrow> (\<And>w. w \<in> set (submitted h) \<Longrightarrow> iocb_arr h' w = iocb_arr h w) \<Longrightarrow> writes h' = writes h"
  by (auto simp: writes_def intro!: map_cong filter_cong)

lemma reads_cong: "submitted h' = submitted h \<Longrightarrow> (\<And>w. w \<in> set (submitted h) \<Longrightarrow> iocb_arr h' w = iocb_arr h w) \<Longrightarrow> reads h' = reads h"
  by (auto simp: reads_def intro!: map_cong filter_cong)

lemma dev_bufs_in: "staged_seg_buf (dev h) \<in> dev_bufs h" "c \<in> set (writes h) \<Longrightarrow> io_buf c \<in> dev_bufs h"
  by (auto simp: dev_bufs_def)

lemma find_in: "find P xs = Some x \<Longrightarrow> x \<in> set xs \<and> P x"
  by (auto simp: find_Some_iff)

lemma log_view_cong:
  assumes "staged_seg_buf (dev h') = staged_seg_buf (dev h)" "start_addr (staged (dev h')) = start_addr (staged (dev h))"
    "end_addr (staged (dev h')) = end_addr (staged (dev h))" "writes h' = writes h" "disk h' = disk h"
    and "\<And>p. p \<in> dev_bufs h \<Longrightarrow> cells (mem h') p = cells (mem h) p"
  shows "log_view h' a = log_view h a"
proof (cases "find (\<lambda>c. covers c a) (writes h)")
  case (Some c)
  then have "cells (mem h') (io_buf c) = cells (mem h) (io_buf c)"
    using find_in [OF Some] by (intro assms(6) dev_bufs_in(2)) simp
  with Some assms(1-5) assms(6) [OF dev_bufs_in(1)] show ?thesis by (simp add: log_view_def in_seg_def)
qed (use assms(1-5) assms(6) [OF dev_bufs_in(1)] in \<open>simp add: log_view_def in_seg_def\<close>)

lemma div_block_iff: "0 < (m :: nat) \<Longrightarrow> a div m = i \<longleftrightarrow> i * m \<le> a \<and> a < i * m + m"
  by (auto simp: div_nat_eqI dividend_less_times_div mult.commute add.commute)

lemma SEGMENT_SIZE_pos [simp]: "0 < SEGMENT_SIZE" "SEGMENT_SIZE \<noteq> 0"
  by (simp_all add: config_defs)

lemmas seg_div_iff = div_block_iff [OF SEGMENT_SIZE_pos(1)]

lemma covers_write: "write_ok h c \<Longrightarrow> covers c a \<longleftrightarrow> unat (io_offset c) = a div SEGMENT_SIZE * SEGMENT_SIZE"
proof -
  assume "write_ok h c"
  then obtain i where i: "unat (io_offset c) = i * SEGMENT_SIZE" "io_nbytes c = SEGMENT_SIZE" by (auto simp: write_ok_def)
  then have "covers c a \<longleftrightarrow> a div SEGMENT_SIZE = i" by (simp add: covers_def seg_div_iff)
  also have "\<dots> \<longleftrightarrow> i * SEGMENT_SIZE = a div SEGMENT_SIZE * SEGMENT_SIZE"
    using mult_right_cancel [OF SEGMENT_SIZE_pos(2), of i "a div SEGMENT_SIZE"] by auto
  finally show ?thesis by (simp add: i)
qed

lemma in_seg_iff: "seg_ok s i \<Longrightarrow> in_seg s a \<longleftrightarrow> a div SEGMENT_SIZE = i"
  by (auto simp: seg_ok_def in_seg_def seg_div_iff)

lemma covers_unique:
  assumes "flight_ok h" and "c \<in> set (writes h)" "covers c a" "c' \<in> set (writes h)" "covers c' a"
  shows "c' = c"
proof -
  have ok: "write_ok h c" "write_ok h c'" using assms by (auto simp: flight_ok_def)
  then have "unat (io_offset c) = unat (io_offset c')"
    using covers_write [OF ok(1), of a] covers_write [OF ok(2), of a] assms(3,5) by (auto simp: write_ok_def config_defs)
  moreover have "inj_on io_offset (set (writes h))" using assms(1) by (simp add: flight_ok_def distinct_map)
  ultimately show ?thesis using assms(2,4) by (auto simp: inj_on_def word_unat_eq_iff)
qed

lemma find_covers:
  assumes "flight_ok h" and "c \<in> set (writes h)" "covers c a"
  shows "find (\<lambda>c. covers c a) (writes h) = Some c"
proof (cases "find (\<lambda>c. covers c a) (writes h)")
  case None
  with assms show ?thesis by (auto simp: find_None_iff)
next
  case (Some c')
  then have "c' \<in> set (writes h)" "covers c' a" by (auto simp: find_Some_iff)
  with covers_unique [OF assms] Some show ?thesis by blast
qed

text \<open>The staged segment and the segments in flight are different ones.\<close>

lemma covers_not_staged:
  assumes "flight_ok h" and "c \<in> set (writes h)" "covers c a"
  shows "\<not> in_seg (staged (dev h)) a"
proof -
  have ok: "write_ok h c" using assms by (auto simp: flight_ok_def)
  have "seg_ok (staged (dev h)) (staged_seg (dev h))" using assms(1) dev_inv_staged by (auto simp: flight_ok_def staged_ok_def)
  with covers_write [OF ok, of a] assms(3) ok show ?thesis by (auto simp: in_seg_iff write_ok_def config_defs)
qed

lemma log_view_flight:
  assumes "flight_ok h" and "c \<in> set (writes h)" "covers c a"
  shows "log_view h a = bdat (the (cells (mem h) (io_buf c))) (a - unat (io_offset c))"
  using covers_not_staged [OF assms] find_covers [OF assms] by (simp add: log_view_def)

lemma log_view_staged: "in_seg (staged (dev h)) a \<Longrightarrow>
     log_view h a = bdat (the (cells (mem h) (staged_seg_buf (dev h)))) (a - unat (start_addr (staged (dev h))))"
  by (simp add: log_view_def)

lemma log_view_disk: "\<not> in_seg (staged (dev h)) a \<Longrightarrow> \<not> in_flight h a \<Longrightarrow> log_view h a = disk h a"
  by (auto simp: log_view_def in_flight_def list_ex_iff find_None_iff [symmetric] split: option.splits dest: find_Some_iff [THEN iffD1])

subsection \<open>Getting to the callback\<close>

text \<open>A callback that reveals its state shows that the state at the call is determined.\<close>

lemma calls_backD:
  assumes "calls_back op cb h'" and op: "\<And>run. op run = ebind r (\<lambda>m. ebind (run_and_recycle run cb (h\<lparr>mem := m\<rparr>)) (\<lambda>h1. Inr (0, h1)))"
  shows "\<exists>m. r = Inr m \<and> h' = h\<lparr>mem := m\<rparr>"
proof (cases r)
  case (Inl e)
  have "op (\<lambda>_ _ _. Inl e') = Inl e'" for e' using assms(1) by (simp add: calls_back_def run_and_recycle_def)
  with op Inl have "e = e'" for e' by simp
  from this [of NullDeref] this [of Abort] have "NullDeref = Abort" by simp
  then show ?thesis by simp
next
  case (Inr m)
  let ?run = "\<lambda>_ _ x. Inl (if x = h' then Abort else NullDeref)"
  have "op ?run = Inl Abort" using assms(1) by (simp add: calls_back_def run_and_recycle_def)
  with op [of ?run] Inr have "h\<lparr>mem := m\<rparr> = h'" by (simp add: run_and_recycle_def split: if_splits)
  with Inr show ?thesis by blast
qed

lemma memcpy_Inr:
  "memcpy dst doff src soff n m = Inr m' \<Longrightarrow> \<exists>db sb. cells m dst = Some db \<and> cells m src = Some sb \<and> doff + n \<le> blen db \<and> soff + n \<le> blen sb \<and>
     m' = m\<lparr>cells := (cells m)(dst \<mapsto> db\<lparr>bdat := copy_bytes (bdat db) doff (bdat sb) soff n\<rparr>)\<rparr>"
  by (auto simp: memcpy_def mem_buf_def res_simps split: if_splits option.splits)

subsection \<open>Steps that leave the device alone\<close>

text \<open>A change of the memory outside the buffers of the device, with the I/Os in progress as they were.\<close>

lemma flight_frame:
  assumes ok: "flight_ok h" and d: "dev h' = dev h" "submitted h' = submitted h" "disk h' = disk h"
      "\<And>w. w \<in> set (submitted h) \<Longrightarrow> iocb_arr h' w = iocb_arr h w"
    and m: "\<And>p. p \<in> dev_bufs h \<Longrightarrow> cells (mem h') p = cells (mem h) p" "brk (mem h) \<le> brk (mem h')" "mem_wf (mem h')" "pool_ok h'"
  shows "flight_ok h' \<and> log_view h' = log_view h"
proof -
  have w: "writes h' = writes h" "reads h' = reads h" using d writes_cong reads_cong by blast+
  have db: "dev_bufs h' = dev_bufs h" using d(1) w(1) by (simp add: dev_bufs_def)
  have "write_ok h' c" if "c \<in> set (writes h)" for c
    using ok that d(1) m(1) [OF dev_bufs_in(2) [OF that]] by (auto simp: flight_ok_def write_ok_def)
  moreover have "read_ok h' c" if "c \<in> set (reads h)" for c
    using ok that db m(2) by (auto simp: flight_ok_def read_ok_def)
  moreover have "staged_ok h'" using ok d(1) m(1) [OF dev_bufs_in(1)] m(3) by (auto simp: flight_ok_def staged_ok_def)
  ultimately have "flight_ok h'" using ok w m(4) by (auto simp: flight_ok_def)
  moreover have "log_view h' a = log_view h a" for a by (rule log_view_cong) (use d w m in simp_all)
  ultimately show ?thesis by blast
qed

lemma flight_mem:
  assumes "flight_ok h" and "memcpy dst doff src soff n (mem h) = Inr m" and "dst \<notin> dev_bufs h"
  shows "flight_ok (h\<lparr>mem := m\<rparr>) \<and> log_view (h\<lparr>mem := m\<rparr>) = log_view h"
proof (rule flight_frame [OF assms(1)])
  show "cells (mem (h\<lparr>mem := m\<rparr>)) p = cells (mem h) p" if "p \<in> dev_bufs h" for p
    using memcpy_Inr [OF assms(2)] assms(3) that by auto
  show "brk (mem h) \<le> brk (mem (h\<lparr>mem := m\<rparr>))" using memcpy_Inr [OF assms(2)] by auto
  show "mem_wf (mem (h\<lparr>mem := m\<rparr>))" using assms(1) mem_wf_memcpy [OF _ assms(2)] by (simp add: flight_ok_def staged_ok_def)
  show "pool_ok (h\<lparr>mem := m\<rparr>)" using assms(1) by (simp add: flight_ok_def pool_ok_def)
qed simp_all

lemma env_step_ok: "flight_ok h \<Longrightarrow> env_step h h' \<Longrightarrow> flight_ok h' \<and> log_view h' = log_view h"
  by (rule flight_frame) (auto simp: env_step_def)

subsection \<open>Writing into the staged segment\<close>

lemma staged_write_view:
  assumes ok: "flight_ok h" and i: "in_staged (dev h) pba k"
    and cp: "memcpy (staged_seg_buf (dev h)) (unat pba * GRAIN_UNIT - unat (start_addr (staged (dev h)))) buf 0 k (mem h) = Inr m"
    and b: "cells (mem h) buf = Some b"
  shows "flight_ok (h\<lparr>mem := m\<rparr>) \<and> log_view (h\<lparr>mem := m\<rparr>) =
     (\<lambda>a. if unat pba * GRAIN_UNIT \<le> a \<and> a < unat pba * GRAIN_UNIT + k then bdat b (a - unat pba * GRAIN_UNIT) else log_view h a)"
proof -
  let ?s = "staged (dev h)" and ?h = "h\<lparr>mem := m\<rparr>" and ?o = "unat pba * GRAIN_UNIT - unat (start_addr (staged (dev h)))"
  from ok have inv: "dev_inv (dev h)" and st: "staged_ok h" by (simp_all add: flight_ok_def staged_ok_def)
  have so: "seg_ok ?s (staged_seg (dev h))" by (rule dev_inv_staged [OF inv])
  obtain db where m: "cells (mem h) (staged_seg_buf (dev h)) = Some db"
    "m = (mem h)\<lparr>cells := (cells (mem h))(staged_seg_buf (dev h) \<mapsto> db\<lparr>bdat := copy_bytes (bdat db) ?o (bdat b) 0 k\<rparr>)\<rparr>"
    using memcpy_Inr [OF cp] b by auto
  have "write_ok ?h c" if "c \<in> set (writes h)" for c
    using ok that m(2) by (auto simp: flight_ok_def write_ok_def)
  moreover have "staged_ok ?h" using st m mem_wf_memcpy [OF _ cp] by (auto simp: staged_ok_def)
  ultimately have "flight_ok ?h" using ok m(2) by (simp add: flight_ok_def pool_ok_def read_ok_def dev_bufs_def)
  moreover have "log_view ?h a = (if unat pba * GRAIN_UNIT \<le> a \<and> a < unat pba * GRAIN_UNIT + k
      then bdat b (a - unat pba * GRAIN_UNIT) else log_view h a)" for a
  proof (cases "in_seg ?s a")
    case True
    then have "log_view ?h a = copy_bytes (bdat db) ?o (bdat b) 0 k (a - unat (start_addr ?s))" "log_view h a = bdat db (a - unat (start_addr ?s))"
      by (simp_all add: log_view_def m)
    with True i show ?thesis by (auto simp: copy_bytes_def in_staged_def in_seg_def)
  next
    case False
    have "\<not> (unat pba * GRAIN_UNIT \<le> a \<and> a < unat pba * GRAIN_UNIT + k)"
      using False i so by (auto simp: in_staged_def in_seg_def seg_ok_def)
    moreover have "log_view ?h a = log_view h a"
    proof (cases "find (\<lambda>c. covers c a) (writes h)")
      case (Some c)
      then have "io_buf c \<noteq> staged_seg_buf (dev h)" using find_in [OF Some] ok by (auto simp: flight_ok_def write_ok_def)
      with False Some show ?thesis by (simp add: log_view_def m(2))
    qed (use False in \<open>simp add: log_view_def\<close>)
    ultimately show ?thesis by auto
  qed
  ultimately show ?thesis by blast
qed

subsection \<open>Submitting and completing I/Os\<close>

text \<open>A submitted I/O takes the first control block of the pool, which no I/O in progress uses.\<close>

lemma submit_effect:
  assumes ok: "pool_ok h" and s: "aio_submit cmd a sz buf cb h = Inr (rc, h')" and a: "submit_ok h (n_submit h)"
  shows "\<exists>w. w \<notin> set (submitted h) \<and> submitted h' = submitted h @ [w] \<and> pool_ok h' \<and> dev h' = dev h \<and> mem h' = mem h \<and> disk h' = disk h \<and>
     iocb_arr h' = (iocb_arr h)(w := \<lparr>io_cmd = cmd, io_buf = buf, io_nbytes = unat sz, io_offset = a, io_data = cb\<rparr>) \<and>
     mmap_ok h' = mmap_ok h \<and> n_mmap h' = n_mmap h"
proof -
  from s obtain w q where q: "q_dequeue (iocb_pool h) = Inr (w, q)" "w \<noteq> NULL" by (auto simp: aio_submit_def Let_def res_simps split: if_splits)
  have inv: "q_inv (iocb_pool h)" using ok by (simp add: pool_ok_def)
  have ne: "q_list (iocb_pool h) \<noteq> []" using lq.deq_empty [OF inv] q by auto
  obtain ws where w: "q_list (iocb_pool h) = w # ws" "q_inv q" "q_list q = ws"
    using lq.deq_nonempty [OF inv ne] q(1) ne by (cases "q_list (iocb_pool h)") auto
  with s a q ok show ?thesis by (auto simp: aio_submit_def Let_def pool_ok_def)
qed

lemma writes_submit:
  assumes "w \<notin> set (submitted h)" "submitted h' = submitted h @ [w]" "iocb_arr h' = (iocb_arr h)(w := c)"
  shows "writes h' = writes h @ (if io_cmd c = IO_PWRITE then [c] else [])" "reads h' = reads h @ (if io_cmd c = IO_PREAD then [c] else [])"
proof -
  have e: "iocb_arr h' v = iocb_arr h v" if "v \<in> set (submitted h)" for v using assms(1,3) that by auto
  then have f: "filter (\<lambda>v. io_cmd (iocb_arr h' v) = x) (submitted h) = filter (\<lambda>v. io_cmd (iocb_arr h v) = x) (submitted h)" for x
    by (intro filter_cong) simp_all
  show "writes h' = writes h @ (if io_cmd c = IO_PWRITE then [c] else [])" "reads h' = reads h @ (if io_cmd c = IO_PREAD then [c] else [])"
    unfolding writes_def reads_def assms(2) filter_append f map_append using assms(1) by (auto simp: e assms(3))
qed

lemma mem_live_lt: "mem_wf m \<Longrightarrow> cells m p \<noteq> None \<Longrightarrow> p < brk m"
  by (meson mem_wf_def not_le)

lemma read_submit_ok:
  assumes ok: "flight_ok h" and r: "aio_read a sz buf cb h = Inr (rc, h')" "submit_ok h (n_submit h)"
    and b: "buf \<notin> dev_bufs h" "cells (mem h) buf \<noteq> None"
  shows "flight_ok h' \<and> log_view h' = log_view h"
proof -
  have "pool_ok h" using ok by (simp add: flight_ok_def)
  from submit_effect [OF this r(1) [unfolded aio_read_def] r(2)] obtain w where
    w: "w \<notin> set (submitted h)" "submitted h' = submitted h @ [w]" "pool_ok h'" "dev h' = dev h" "mem h' = mem h" "disk h' = disk h"
    "iocb_arr h' = (iocb_arr h)(w := \<lparr>io_cmd = IO_PREAD, io_buf = buf, io_nbytes = unat sz, io_offset = a, io_data = cb\<rparr>)" by blast
  note io = writes_submit [OF w(1,2,7)]
  have "mem_wf (mem h)" using ok by (simp add: flight_ok_def staged_ok_def)
  then have "buf < brk (mem h)" using b(2) by (rule mem_live_lt)
  moreover have "dev_bufs h' = dev_bufs h" using w(4) io(1) by (simp add: dev_bufs_def)
  ultimately have rd: "read_ok h' c" if "c \<in> set (reads h')" for c
    using ok b(1) that w(5) io(2) by (auto simp: flight_ok_def read_ok_def)
  have "write_ok h' c = write_ok h c" "staged_ok h' = staged_ok h" for c by (simp_all add: write_ok_def staged_ok_def w(4,5))
  with ok rd w(3) io(1) have "flight_ok h'" by (simp add: flight_ok_def)
  moreover have "log_view h' x = log_view h x" for x by (rule log_view_cong) (use w io in simp_all)
  ultimately show ?thesis by blast
qed

lemma find_filter_neq: "\<not> P c \<Longrightarrow> find P (filter (\<lambda>d. d \<noteq> c) xs) = find P xs"
  by (induction xs) auto

text \<open>The I/Os in progress after one of them has been reported.\<close>

lemma writes_complete:
  assumes ok: "flight_ok h" and w: "w \<in> set (submitted h)"
    and h': "submitted h' = remove1 w (submitted h)" "iocb_arr h' = iocb_arr h"
  shows "writes h' = (if io_cmd (iocb_arr h w) = IO_PWRITE then filter (\<lambda>d. d \<noteq> iocb_arr h w) (writes h) else writes h)"
    and "set (reads h') \<subseteq> set (reads h)"
proof -
  have d: "distinct (submitted h)" using ok by (simp add: flight_ok_def pool_ok_def)
  let ?P = "\<lambda>v. io_cmd (iocb_arr h v) = IO_PWRITE"
  have rm: "submitted h' = filter (\<lambda>v. v \<noteq> w) (submitted h)" 
    unfolding h'(1) distinct_remove1_removeAll [OF d] removeAll_filter_not_eq by (rule filter_cong) auto
  have "distinct (map io_offset (writes h))" using ok by (simp add: flight_ok_def)
  then have inj: "inj_on (\<lambda>v. io_offset (iocb_arr h v)) (set (filter ?P (submitted h)))"
    by (simp add: writes_def distinct_map comp_def)
  show "writes h' = (if ?P w then filter (\<lambda>d. d \<noteq> iocb_arr h w) (writes h) else writes h)"
  proof (cases "?P w")
    case True
    then have "v \<noteq> w \<longleftrightarrow> iocb_arr h v \<noteq> iocb_arr h w" if "v \<in> set (submitted h)" "?P v" for v
      using inj_onD [OF inj, of v w] that w by auto
    then have "filter (\<lambda>v. ?P v \<and> v \<noteq> w) (submitted h) = filter (\<lambda>v. ?P v \<and> iocb_arr h v \<noteq> iocb_arr h w) (submitted h)"
      by (intro filter_cong) auto
    with True show ?thesis by (simp add: writes_def h'(2) rm filter_map comp_def conj_commute)
  next
    case False
    then have "filter (\<lambda>v. ?P v \<and> v \<noteq> w) (submitted h) = filter ?P (submitted h)" by (intro filter_cong) auto
    with False show ?thesis by (simp add: writes_def h'(2) rm conj_commute)
  qed
  show "set (reads h') \<subseteq> set (reads h)" 
    using set_remove1_subset [of w "submitted h"] by (auto simp: reads_def h')
qed

lemma kernel_io_write:
  assumes ok: "flight_ok h" and c: "iocb_arr h w \<in> set (writes h)"
  shows "\<exists>b. cells (mem h) (io_buf (iocb_arr h w)) = Some b \<and>
     kernel_io w h = (\<lparr>ev_obj = w, ev_data = io_data (iocb_arr h w), ev_res = of_nat SEGMENT_SIZE\<rparr>,
       h\<lparr>disk := copy_bytes (disk h) (unat (io_offset (iocb_arr h w))) (bdat b) 0 SEGMENT_SIZE\<rparr>)"
proof -
  have "write_ok h (iocb_arr h w)" "io_cmd (iocb_arr h w) = IO_PWRITE" using ok c by (auto simp: flight_ok_def writes_in)
  then show ?thesis by (auto simp: write_ok_def kernel_io_def)
qed

lemma complete_write_ok:
  assumes ok: "flight_ok h" and w: "w \<in> set (submitted h)" "io_cmd (iocb_arr h w) = IO_PWRITE" and k: "kernel_io w h = (ev, h')"
  shows "flight_ok (io_getevent ev h') \<and> log_view (io_getevent ev h') = log_view h"
proof -
  let ?c = "iocb_arr h w" and ?h = "io_getevent ev h'"
  have c: "?c \<in> set (writes h)" using w by (auto simp: writes_in)
  obtain b where b: "cells (mem h) (io_buf ?c) = Some b"
    and h': "h' = h\<lparr>disk := copy_bytes (disk h) (unat (io_offset ?c)) (bdat b) 0 SEGMENT_SIZE\<rparr>" "ev_obj ev = w"
    using kernel_io_write [OF ok c] k by auto
  have g: "dev ?h = dev h" "mem ?h = mem h" "iocb_pool ?h = iocb_pool h" "submitted ?h = remove1 w (submitted h)" "iocb_arr ?h = iocb_arr h"
    "disk ?h = copy_bytes (disk h) (unat (io_offset ?c)) (bdat b) 0 SEGMENT_SIZE" by (simp_all add: io_getevent_def h')
  note wr = writes_complete [OF ok w(1) g(4,5)]
  have ws: "writes ?h = filter (\<lambda>d. d \<noteq> ?c) (writes h)" using wr(1) w(2) by simp
  have "dev_bufs ?h \<subseteq> dev_bufs h" using ws g(1) by (auto simp: dev_bufs_def)
  then have rd: "read_ok ?h d" if "d \<in> set (reads ?h)" for d using ok that wr(2) g(2) by (auto simp: flight_ok_def read_ok_def)
  have "write_ok ?h d = write_ok h d" "staged_ok ?h = staged_ok h" for d by (simp_all add: write_ok_def staged_ok_def g)
  moreover have "pool_ok ?h" using ok g(3,4) set_remove1_subset [of w "submitted h"] by (auto simp: flight_ok_def pool_ok_def)
  ultimately have fo: "flight_ok ?h" using ok rd by (auto simp: flight_ok_def ws distinct_map inj_on_def)
  have n: "io_nbytes ?c = SEGMENT_SIZE" using ok c by (auto simp: flight_ok_def write_ok_def)
  have "log_view ?h a = log_view h a" for a
  proof (cases "covers ?c a")
    case True
    have "\<not> in_flight ?h a" using covers_unique [OF ok c True] by (auto simp: in_flight_def list_ex_iff ws)
    then have "log_view ?h a = disk ?h a" using log_view_disk covers_not_staged [OF ok c True] g(1) by metis
    also have "\<dots> = bdat b (a - unat (io_offset ?c))" using True n by (simp add: g(6) covers_def copy_bytes_def)
    also have "\<dots> = log_view h a" using log_view_flight [OF ok c True] b by simp
    finally show ?thesis .
  next
    case False
    then have "find (\<lambda>d. covers d a) (writes ?h) = find (\<lambda>d. covers d a) (writes h)" by (simp add: ws find_filter_neq)
    moreover have "disk ?h a = disk h a" using False n by (auto simp: g(6) covers_def copy_bytes_def)
    ultimately show ?thesis by (simp add: log_view_def g(1,2) split: option.split)
  qed
  with fo show ?thesis by blast
qed

lemma complete_read_ok:
  assumes ok: "flight_ok h" and w: "w \<in> set (submitted h)" "io_cmd (iocb_arr h w) = IO_PREAD" and k: "kernel_io w h = (ev, h')"
  shows "flight_ok (io_getevent ev h') \<and> log_view (io_getevent ev h') = log_view h"
proof -
  let ?c = "iocb_arr h w" and ?h = "io_getevent ev h'"
  have "?c \<in> set (reads h)" using w by (auto simp: reads_in)
  then have nb: "io_buf ?c \<notin> dev_bufs h" using ok by (auto simp: flight_ok_def read_ok_def)
  have h': "dev h' = dev h" "disk h' = disk h" "submitted h' = submitted h" "iocb_arr h' = iocb_arr h" "iocb_pool h' = iocb_pool h"
    "brk (mem h') = brk (mem h)" "\<And>p. p \<noteq> io_buf ?c \<Longrightarrow> cells (mem h') p = cells (mem h) p" "ev_obj ev = w"
    "\<And>p. cells (mem h) p = None \<Longrightarrow> cells (mem h') p = None"
    using k w(2) by (auto simp: kernel_io_def Let_def split: option.splits if_splits)
  have g: "dev ?h = dev h" "mem ?h = mem h'" "iocb_pool ?h = iocb_pool h" "submitted ?h = remove1 w (submitted h)" "iocb_arr ?h = iocb_arr h"
    "disk ?h = disk h" by (simp_all add: io_getevent_def h')
  note wr = writes_complete [OF ok w(1) g(4,5)]
  have ws: "writes ?h = writes h" using wr(1) w(2) by simp
  have db: "dev_bufs ?h = dev_bufs h" by (simp add: dev_bufs_def ws g)
  have ce: "cells (mem ?h) p = cells (mem h) p" if "p \<in> dev_bufs h" for p using h'(7) [of p] that nb g(2) by auto
  have wf: "mem_wf (mem ?h)" using ok h'(6,9) g(2) by (auto simp: flight_ok_def staged_ok_def mem_wf_def)
  have "staged_ok ?h" using ok wf ce [OF dev_bufs_in(1)] by (simp add: flight_ok_def staged_ok_def g(1))
  moreover have "write_ok ?h d" if "d \<in> set (writes h)" for d
    using ok that ce [OF dev_bufs_in(2) [OF that]] by (simp add: flight_ok_def write_ok_def g(1))
  moreover have "read_ok ?h d" if "d \<in> set (reads ?h)" for d using ok that wr(2) db h'(6) g(2) by (auto simp: flight_ok_def read_ok_def)
  moreover have "pool_ok ?h" using ok g(3,4) set_remove1_subset [of w "submitted h"] by (auto simp: flight_ok_def pool_ok_def)
  ultimately have "flight_ok ?h" using ok by (simp add: flight_ok_def ws)
  moreover have "log_view ?h a = log_view h a" for a by (rule log_view_cong) (use g ws ce in simp_all)
  ultimately show ?thesis by blast
qed

subsection \<open>Retiring a segment\<close>

lemma retire_effect:
  assumes p: "pool_ok h" and d: "unat (segment_size (dev h)) = SEGMENT_SIZE" and a: "mmap_ok h (n_mmap h)" "submit_ok h (n_submit h)"
    and r: "retire_segment h = Inr h'"
  shows "\<exists>w cb. w \<notin> set (submitted h) \<and> submitted h' = submitted h @ [w] \<and> pool_ok h' \<and> disk h' = disk h \<and>
     iocb_arr h' = (iocb_arr h)(w := \<lparr>io_cmd = IO_PWRITE, io_buf = staged_seg_buf (dev h), io_nbytes = SEGMENT_SIZE,
       io_offset = start_addr (staged (dev h)), io_data = cb\<rparr>) \<and>
     mem h' = snd (mem_alloc SEGMENT_SIZE (\<lambda>_. 0) (mem h)) \<and> staged_seg_buf (dev h') = brk (mem h)"
proof -
  let ?d1 = "(dev h)\<lparr>seg_array := (seg_array (dev h))(staged_seg (dev h) := (staged (dev h))\<lparr>seg_state := SEG_STATE_USED\<rparr>)\<rparr>"
  let ?h1 = "h\<lparr>dev := ?d1\<rparr>"
  from r obtain cb h2 rc h3 where
    mk: "make_callback CB_reap_seg_buf (staged_seg_buf (dev h)) ?h1 = Inr (cb, h2)"
    and wr: "aio_submit IO_PWRITE (start_addr (staged (dev h))) (ucast (segment_size (dev h))) (staged_seg_buf (dev h)) cb h2 = Inr (rc, h3)"
    and st: "stage_next_segment h3 = Inr h'"
    by (auto simp: retire_segment_def Let_def res_simps aio_write_def)
  have h2: "submitted h2 = submitted h" "iocb_pool h2 = iocb_pool h" "submit_ok h2 = submit_ok h" "n_submit h2 = n_submit h" "dev h2 = ?d1"
    "mem h2 = mem h" "disk h2 = disk h" "iocb_arr h2 = iocb_arr h" "mmap_ok h2 = mmap_ok h" "n_mmap h2 = n_mmap h"
    using mk by (auto simp: make_callback_def res_simps split: if_splits)
  have "pool_ok h2" "submit_ok h2 (n_submit h2)" using p a(2) by (simp_all add: pool_ok_def h2)
  from submit_effect [OF this(1) wr this(2)] obtain w where
    w: "w \<notin> set (submitted h)" "submitted h3 = submitted h @ [w]" "pool_ok h3" "dev h3 = ?d1" "mem h3 = mem h" "disk h3 = disk h"
    "iocb_arr h3 = (iocb_arr h)(w := \<lparr>io_cmd = IO_PWRITE, io_buf = staged_seg_buf (dev h), io_nbytes = unat (ucast (segment_size (dev h)) :: u32),
       io_offset = start_addr (staged (dev h)), io_data = cb\<rparr>)" "mmap_ok h3 (n_mmap h3)"
    using a(1) by (auto simp: h2)
  have "unat (ucast (segment_size (dev h)) :: u32) = SEGMENT_SIZE" using d by (simp add: unat_ucast_64_32 config_defs)
  moreover have "mem h' = snd (mem_alloc SEGMENT_SIZE (\<lambda>_. 0) (mem h)) \<and> staged_seg_buf (dev h') = brk (mem h)"
    using st w(4,5,8) d by (auto simp: stage_next_segment_def alloc_seg_buffer_def Let_def mem_alloc_def split: if_splits)
  moreover note fr = stage_next_segment_frame [OF st]
  ultimately show ?thesis using w by (intro exI [of _ w] exI [of _ cb]) (auto simp: pool_ok_def)
qed

lemma find_snoc: "\<not> P c \<Longrightarrow> find P (xs @ [c]) = find P xs"
  by (induction xs) auto

text \<open>Moving the staged segment into flight and staging an empty one keeps the view outside the new segment.\<close>

lemma stage_view:
  assumes ok: "flight_ok h" and st: "staged_ok h'" and j: "staged_seg (dev h') \<noteq> staged_seg (dev h)"
      "\<And>c. c \<in> set (writes h) \<Longrightarrow> unat (io_offset c) \<noteq> staged_seg (dev h') * SEGMENT_SIZE" "nr_segment (dev h') = nr_segment (dev h)"
    and h': "writes h' = writes h @ [c]" "reads h' = reads h" "disk h' = disk h" "pool_ok h'" "mem h' = snd (mem_alloc SEGMENT_SIZE z (mem h))"
      "staged_seg_buf (dev h') = brk (mem h)"
    and c: "io_buf c = staged_seg_buf (dev h)" "io_nbytes c = SEGMENT_SIZE" "io_offset c = start_addr (staged (dev h))"
  shows "flight_ok h' \<and> (\<forall>a. \<not> in_seg (staged (dev h')) a \<longrightarrow> log_view h' a = log_view h a)"
proof -
  from ok have inv: "dev_inv (dev h)" and wf: "mem_wf (mem h)" and so: "staged_ok h" by (simp_all add: flight_ok_def staged_ok_def)
  have s: "seg_ok (staged (dev h)) (staged_seg (dev h))" by (rule dev_inv_staged [OF inv])
  obtain b where b: "cells (mem h) (staged_seg_buf (dev h)) = Some b" "blen b = SEGMENT_SIZE" using so by (auto simp: staged_ok_def)
  have lt: "p < brk (mem h)" if "p \<in> dev_bufs h" for p
    using ok b(1) that mem_live_lt [OF wf] by (auto simp: dev_bufs_def flight_ok_def write_ok_def)
  then have ce: "cells (mem h') p = cells (mem h) p" if "p \<in> dev_bufs h" for p
    using that h'(5) by (auto simp: mem_alloc_def)
  have i: "unat (io_offset c) = staged_seg (dev h) * SEGMENT_SIZE" using s c(3) by (simp add: seg_ok_def)
  have wo: "write_ok h d" "io_offset d \<noteq> io_offset c" "io_buf d \<noteq> io_buf c" if "d \<in> set (writes h)" for d
    using ok that i c(1) by (auto simp: flight_ok_def write_ok_def)
  have "write_ok h' d" if "d \<in> set (writes h)" for d
    using wo(1) [OF that] j(2) [OF that] j(3) h'(6) lt [OF dev_bufs_in(2) [OF that]] ce [OF dev_bufs_in(2) [OF that]]
    by (auto simp: write_ok_def)
  moreover have "write_ok h' c"
    using i c j(1,3) b lt [OF dev_bufs_in(1)] ce [OF dev_bufs_in(1)] inv h'(6) by (auto simp: write_ok_def dev_inv_def dev_layout_def)
  moreover have "dev_bufs h' = insert (brk (mem h)) (dev_bufs h)" using h'(1,6) c(1) by (auto simp: dev_bufs_def)
  then have "read_ok h' d" if "d \<in> set (reads h)" for d
    using ok that h'(5) by (auto simp: flight_ok_def read_ok_def mem_alloc_def)
  moreover have "io_offset c \<notin> io_offset ` set (writes h)" "io_buf c \<notin> io_buf ` set (writes h)" using wo(2,3) by fastforce+
  then have "distinct (map io_offset (writes h'))" "distinct (map io_buf (writes h'))" using ok h'(1) by (simp_all add: flight_ok_def)
  ultimately have fo: "flight_ok h'" using st h' by (auto simp: flight_ok_def)
  have "log_view h' a = log_view h a" if a: "\<not> in_seg (staged (dev h')) a" for a
  proof (cases "covers c a")
    case True
    then have "in_seg (staged (dev h)) a" using s c(2) i by (auto simp: covers_def in_seg_def seg_ok_def)
    with True log_view_flight [OF fo _ True] h'(1) ce [OF dev_bufs_in(1)] c show ?thesis by (simp add: log_view_def)
  next
    case False
    then have na: "\<not> in_seg (staged (dev h)) a" using s c(2) i by (auto simp: covers_def in_seg_def seg_ok_def)
    have "find (\<lambda>d. covers d a) (writes h') = find (\<lambda>d. covers d a) (writes h)"
      unfolding h'(1) using False by (rule find_snoc)
    with a na h'(3) ce [OF dev_bufs_in(2)] show ?thesis by (auto simp: log_view_def split: option.split dest: find_in)
  qed
  with fo show ?thesis by blast
qed

subsection \<open>The invariant of the log\<close>

definition log_inv :: "'p handler \<Rightarrow> log \<Rightarrow> bool" where
  "log_inv h L \<longleftrightarrow> flight_ok h \<and>
     (\<forall>a v. L a = Some v \<longrightarrow> log_view h a = v \<and> (in_seg (staged (dev h)) a \<longrightarrow> a < unat (seg_offset (staged (dev h)))))"

lemma log_inv_keep:
  assumes "log_inv h L" and "flight_ok h' \<and> log_view h' = log_view h" and "dev h' = dev h"
  shows "log_inv h' L"
  using assms by (simp add: log_inv_def)

lemma full_iff:
  assumes st: "staged_ok h" and sz: "unat sz \<le> SEGMENT_SIZE"
  shows "full sz h \<longleftrightarrow> unat (end_addr (staged (dev h))) < unat (seg_offset (staged (dev h))) + unat sz"
proof -
  let ?ss = "staged (dev h)"
  have inv: "dev_inv (dev h)" using st by (simp add: staged_ok_def)
  have so: "seg_ok ?ss (staged_seg (dev h))" by (rule dev_inv_staged [OF inv])
  have "Suc (staged_seg (dev h)) * SEGMENT_SIZE \<le> unat (nr_segment (dev h)) * SEGMENT_SIZE"
    using inv by (intro mult_le_mono1) (simp add: dev_inv_def dev_layout_def Suc_le_eq)
  moreover have "unat (nr_segment (dev h)) * SEGMENT_SIZE < 2 ^ 64 - 2 ^ 32" using inv by (simp add: dev_inv_def dev_layout_def)
  ultimately have "unat (end_addr ?ss) < 2 ^ 64 - 2 ^ 32" using so by (simp add: seg_ok_def)
  then have "unat (seg_offset ?ss + ucast sz) = unat (seg_offset ?ss) + unat sz"
    using so sz by (subst unat_add_u64) (simp_all add: seg_ok_def config_defs)
  then show ?thesis by (simp add: full_def word_less_nat_alt)
qed

lemma get_next_pba_cases:
  assumes "get_next_pba sz h = Inr (pba, h')"
  shows "\<exists>h1. (if full sz h then retire_segment h else Inr h) = Inr h1 \<and>
     h' = h1\<lparr>dev := bump_offset (round_to_grain (grain_unit (dev h1)) sz) (dev h1)\<rparr>"
  using assms by (auto simp: get_next_pba_def full_def Let_def res_simps split: if_splits)

lemma bump_offset_frame:
  "staged_seg (bump_offset s d) = staged_seg d" "nr_segment (bump_offset s d) = nr_segment d"
  "staged_seg_buf (bump_offset s d) = staged_seg_buf d" "start_addr (staged (bump_offset s d)) = start_addr (staged d)"
  "end_addr (staged (bump_offset s d)) = end_addr (staged d)"
  by (simp_all add: bump_offset_def staged_def)

lemma log_alloc_room:
  assumes inv: "log_inv h L" and g: "get_next_pba sz h = Inr (pba, h')" and sz: "unat sz \<le> SEGMENT_SIZE"
    and p: "pools_hold 1 h" "mmap_ok h (n_mmap h)" and nf: "\<not> full sz h"
  shows "log_inv h' L"
proof -
  have ok: "flight_ok h" and st: "staged_ok h" using inv by (simp_all add: log_inv_def flight_ok_def)
  obtain d where h': "h' = h\<lparr>dev := d\<rparr>" and d: "d = bump_offset (round_to_grain (grain_unit (dev h)) sz) (dev h)"
    using get_next_pba_cases [OF g] nf by auto
  have fr: "staged_seg d = staged_seg (dev h)" "nr_segment d = nr_segment (dev h)" "staged_seg_buf d = staged_seg_buf (dev h)"
    "start_addr (staged d) = start_addr (staged (dev h))" "end_addr (staged d) = end_addr (staged (dev h))"
    by (simp_all add: d bump_offset_frame)
  have "pools_hold (Suc 0) h" using p(1) by simp
  from get_next_pba_spec [OF st this p(2) sz] g have st': "staged_ok h'"
    and off: "unat (seg_offset (staged (dev h))) \<le> unat (seg_offset (staged (dev h')))"
    using nf full_iff [OF st sz] by (auto simp: not_less)
  have w: "writes h' = writes h" "reads h' = reads h" by (simp_all add: h' writes_def reads_def)
  have "write_ok h' c = write_ok h c" "read_ok h' c = read_ok h c" "pool_ok h' = pool_ok h" for c
    by (simp_all add: h' fr write_ok_def read_ok_def dev_bufs_def pool_ok_def writes_def)
  then have "flight_ok h'" using ok st' w by (simp add: flight_ok_def)
  moreover have "log_view h' a = log_view h a" for a by (rule log_view_cong) (simp_all add: w, simp_all add: h' fr)
  moreover have "in_seg (staged (dev h')) a = in_seg (staged (dev h)) a" for a by (simp add: h' fr in_seg_def)
  ultimately show ?thesis using inv off unfolding log_inv_def by fastforce
qed

lemma log_alloc_full:
  assumes inv: "log_inv h L" and g: "get_next_pba sz h = Inr (pba, h')" and sz: "unat sz \<le> SEGMENT_SIZE"
    and p: "pools_hold 1 h" "mmap_ok h (n_mmap h)" "submit_ok h (n_submit h)" and f: "full sz h" "next_free h"
  shows "log_inv h' (log_forget (staged (dev h')) L)"
proof -
  have ok: "flight_ok h" and st: "staged_ok h" and po: "pool_ok h" using inv by (simp_all add: log_inv_def flight_ok_def)
  have lay: "dev_layout (dev h)" "mem_wf (mem h)" using st by (simp_all add: staged_ok_def dev_inv_def)
  obtain h1 where r: "retire_segment h = Inr h1" and h': "h' = h1\<lparr>dev := bump_offset (round_to_grain (grain_unit (dev h1)) sz) (dev h1)\<rparr>"
    using get_next_pba_cases [OF g] f(1) by auto
  have ph: "pools_hold (Suc 0) h" using p(1) by simp
  from retire_segment_ok [OF lay p(2) ph] r have
    s1: "nr_segment (dev h1) = nr_segment (dev h)" "staged_seg (dev h1) = Suc (staged_seg (dev h)) mod unat (nr_segment (dev h))" by auto
  have "unat (segment_size (dev h)) = SEGMENT_SIZE" using lay(1) by (simp add: dev_layout_def)
  from retire_effect [OF po this p(2,3) r] obtain w cb where
    e: "w \<notin> set (submitted h)" "submitted h1 = submitted h @ [w]" "pool_ok h1" "disk h1 = disk h"
    "iocb_arr h1 = (iocb_arr h)(w := \<lparr>io_cmd = IO_PWRITE, io_buf = staged_seg_buf (dev h), io_nbytes = SEGMENT_SIZE,
       io_offset = start_addr (staged (dev h)), io_data = cb\<rparr>)"
    "mem h1 = snd (mem_alloc SEGMENT_SIZE (\<lambda>_. 0) (mem h))" "staged_seg_buf (dev h1) = brk (mem h)" by blast
  have st': "staged_ok h'" using get_next_pba_spec [OF st ph p(2) sz] g by auto
  have "flight_ok h' \<and> (\<forall>a. \<not> in_seg (staged (dev h')) a \<longrightarrow> log_view h' a = log_view h a)"
  proof (rule stage_view [OF ok st'])
    let ?c = "\<lparr>io_cmd = IO_PWRITE, io_buf = staged_seg_buf (dev h), io_nbytes = SEGMENT_SIZE,
       io_offset = start_addr (staged (dev h)), io_data = cb\<rparr>"
    show "writes h' = writes h @ [?c]" "reads h' = reads h"
      using writes_submit [OF e(1,2,5)] by (simp_all add: h' writes_def reads_def)
    show "staged_seg (dev h') \<noteq> staged_seg (dev h)" "nr_segment (dev h') = nr_segment (dev h)"
      using f(2) s1 by (simp_all add: h' bump_offset_frame next_free_def Let_def)
    show "unat (io_offset c) \<noteq> staged_seg (dev h') * SEGMENT_SIZE" if "c \<in> set (writes h)" for c
      using f(2) s1 that by (auto simp: h' bump_offset_frame next_free_def Let_def list_all_iff)
  qed (use e in \<open>simp_all add: h' bump_offset_frame pool_ok_def\<close>)
  then show ?thesis using inv by (auto simp: log_inv_def log_forget_def split: if_splits)
qed

lemma log_step_inv: "log_step s t \<Longrightarrow> log_inv (fst s) (snd s) \<Longrightarrow> log_inv (fst t) (snd t)"
proof (induction rule: log_step.induct)
  case (log_alloc sz h pba h' L)
  then show ?case using log_alloc_room log_alloc_full by (cases "full sz h") simp_all
next
  case (log_write pba n buf cb h h' b L)
  then have ok: "flight_ok h" "dev_inv (dev h)" by (simp_all add: log_inv_def flight_ok_def staged_ok_def)
  obtain m where m: "memcpy (staged_seg_buf (dev h)) (unat pba * GRAIN_UNIT - unat (start_addr (staged (dev h)))) buf 0 (unat n * GRAIN_UNIT) (mem h) = Inr m"
    "h' = h\<lparr>mem := m\<rparr>"
    using calls_backD [OF log_write(1) dev_abs_write_staged [OF ok(2) log_write(2)]] by blast
  from staged_write_view [OF ok(1) log_write(2) m(1) log_write(3)] log_write(2,4) m(2) show ?case
    by (auto simp: log_inv_def log_put_def in_staged_def)
next
  case (log_read_staged pba n buf cb h h' L)
  then have "flight_ok h" by (simp add: log_inv_def)
  moreover have "\<exists>off sz m. memcpy buf 0 (staged_seg_buf (dev h)) off sz (mem h) = Inr m \<and> h' = h\<lparr>mem := m\<rparr>"
    using calls_backD [OF log_read_staged(1)] log_read_staged(2) by (fastforce simp: dev_abs_read_def Let_def)
  ultimately show ?case using flight_mem log_read_staged(3,4) log_inv_keep by fastforce
next
  case (log_read_disk run pba n buf cb h rc h' L)
  then have r: "\<exists>a sz. aio_read a sz buf cb h = Inr (rc, h')" by (auto simp: dev_abs_read_def Let_def)
  have ok: "flight_ok h" using log_read_disk by (simp add: log_inv_def)
  have "dev h' = dev h" using r by (auto simp: aio_read_def aio_submit_def Let_def res_simps split: if_splits)
  with r read_submit_ok [OF ok _ log_read_disk(3-5)] log_read_disk(6) show ?case using log_inv_keep by fastforce
next
  case (log_complete w h ev h' L)
  then have ok: "flight_ok h" by (simp add: log_inv_def)
  have "dev (io_getevent ev h') = dev h"
    using log_complete(2) by (auto simp: kernel_io_def io_getevent_def Let_def split: option.splits if_splits io_cmd.splits)
  moreover have "flight_ok (io_getevent ev h') \<and> log_view (io_getevent ev h') = log_view h"
    using complete_write_ok [OF ok log_complete(1) _ log_complete(2)] complete_read_ok [OF ok log_complete(1) _ log_complete(2)]
    by (cases "io_cmd (iocb_arr h w)") simp_all
  ultimately show ?case using log_inv_keep [of h L "io_getevent ev h'"] log_complete(3) by simp
next
  case (log_env h h' L)
  then show ?case using log_inv_keep [of h L h'] env_step_ok [of h h'] by (simp add: log_inv_def env_step_def)
qed

lemma log_steps_inv: "log_step\<^sup>*\<^sup>* s t \<Longrightarrow> log_inv (fst s) (snd s) \<Longrightarrow> log_inv (fst t) (snd t)"
  by (induction rule: rtranclp_induct) (auto intro: log_step_inv)

lemma handler_init_log_inv:
  assumes i: "handler_init num True (Some nb) (Some bs) True dsk mok sok = Inr (h :: 'p handler)"
    and big: "unat nb * unat bs < 2 ^ 32 * SEGMENT_SIZE" and mok: "mok 0"
  shows "log_inv h Map.empty \<and> submitted h = [] \<and> submit_ok h = sok \<and> mmap_ok h = mok \<and> disk h = dsk"
proof -
  let ?h0 = "hlr_alloc num dsk mok sok :: 'p handler"
  from i obtain h1 where d: "dev_abs_init True (Some nb) (Some bs) ?h0 = Inr h1" and f: "hlr_fill_pools h1 = Inr h"
    by (auto simp: handler_init_def res_simps split: if_splits)
  obtain v m k where h1: "h1 = ?h0\<lparr>dev := v, mem := m, n_mmap := k\<rparr>" using dev_abs_init_frame [OF d] by metis
  have "SEGMENT_SIZE \<le> unat nb * unat bs"
  proof (rule ccontr)
    assume "\<not> SEGMENT_SIZE \<le> unat nb * unat bs"
    then have "unat (ucast nb * ucast bs :: u64) < SEGMENT_SIZE" by (subst unat_mult_u64) (simp_all add: config_defs)
    then have "(ucast nb * ucast bs :: u64) div of_nat SEGMENT_SIZE = 0" by (simp add: word_unat_eq_iff unat_div del: of_nat_numeral)
    with d show False by (simp add: dev_abs_init_def Let_def)
  qed
  from handler_init_ok [where 'p = 'p, OF this big, of mok num dsk sok] i mok have st: "staged_ok h" by auto
  obtain q where q: "enq_list q_enqueue pool_ptrs (q_init (int QSIZE)) = Inr q" "q_inv q" "q_list q = pool_ptrs" using fill_pool by blast
  have "iocb_pool h = q" "submitted h = []" "submit_ok h = sok" "mmap_ok h = mok" "disk h = dsk"
    using f q(1) by (auto simp: hlr_fill_pools_def h1 hlr_alloc_def)
  with st q show ?thesis by (simp add: log_inv_def flight_ok_def pool_ok_def writes_def reads_def distinct_pool_ptrs)
qed

subsection \<open>What a read delivers\<close>

lemma staged_read_log:
  assumes inv: "log_inv h L" and cb: "calls_back (\<lambda>run. dev_abs_read run pba n buf cb h) cb h'" and s: "is_staged (dev h) pba = 0"
    and b: "unat pba * GRAIN_UNIT < 2 ^ 64" "unat n * GRAIN_UNIT < 2 ^ 32"
  shows "\<exists>b. cells (mem h') buf = Some b \<and> (\<forall>k < unat n * GRAIN_UNIT. \<forall>v. L (unat pba * GRAIN_UNIT + k) = Some v \<longrightarrow> bdat b k = v)"
proof -
  let ?s = "staged (dev h)" and ?p = "unat pba * GRAIN_UNIT" and ?n = "unat n * GRAIN_UNIT"
  from inv have st: "staged_ok h" and dv: "dev_inv (dev h)" by (simp_all add: log_inv_def flight_ok_def staged_ok_def)
  have so: "seg_ok ?s (staged_seg (dev h))" by (rule dev_inv_staged [OF dv])
  have r: "unat (start_addr ?s) \<le> ?p" "?p < unat (seg_offset ?s)"
    using s by (auto simp: is_staged_iff [OF dv b(1)] split: if_splits)
  have off: "unat (pba * ucast (grain_unit (dev h)) - start_addr ?s) = ?p - unat (start_addr ?s)"
    using r(1) by (subst unat_diff) (simp_all add: pba_bytes [OF dv b(1)])
  obtain m where m: "memcpy buf 0 (staged_seg_buf (dev h)) (?p - unat (start_addr ?s)) ?n (mem h) = Inr m" "h' = h\<lparr>mem := m\<rparr>"
    using calls_backD [OF cb] s by (fastforce simp: dev_abs_read_def Let_def off size_bytes [OF dv b(2)])
  from memcpy_Inr [OF m(1)] obtain db sb where c: "cells (mem h) (staged_seg_buf (dev h)) = Some sb" "?p - unat (start_addr ?s) + ?n \<le> blen sb"
    "m = (mem h)\<lparr>cells := (cells (mem h))(buf \<mapsto> db\<lparr>bdat := copy_bytes (bdat db) 0 (bdat sb) (?p - unat (start_addr ?s)) ?n\<rparr>)\<rparr>" by blast
  have len: "blen sb = SEGMENT_SIZE" using st c(1) by (auto simp: staged_ok_def)
  have "bdat sb (?p - unat (start_addr ?s) + k) = v" if "k < ?n" "L (?p + k) = Some v" for k v
  proof -
    have "in_seg ?s (?p + k)" using r c(2) len so that(1) by (auto simp: in_seg_def seg_ok_def)
    moreover have "log_view h (?p + k) = v" using inv that(2) by (simp add: log_inv_def)
    ultimately show ?thesis using r(1) by (simp add: log_view_def c(1))
  qed
  then show ?thesis using m(2) c(3) by (simp add: copy_bytes_def)
qed

lemma disk_read_submits:
  assumes inv: "log_inv h L" and r: "dev_abs_read run pba n buf cb h = Inr (rc, h')" "is_staged (dev h) pba \<noteq> 0" "submit_ok h (n_submit h)"
    and b: "unat pba * GRAIN_UNIT < 2 ^ 64" "unat n * GRAIN_UNIT < 2 ^ 32"
  shows "\<exists>w. w \<notin> set (submitted h) \<and> submitted h' = submitted h @ [w] \<and> mem h' = mem h \<and> disk h' = disk h \<and> dev h' = dev h \<and>
     iocb_arr h' = (iocb_arr h)(w := \<lparr>io_cmd = IO_PREAD, io_buf = buf, io_nbytes = unat n * GRAIN_UNIT, io_offset = of_nat (unat pba * GRAIN_UNIT), io_data = cb\<rparr>)"
proof -
  from inv have po: "pool_ok h" and dv: "dev_inv (dev h)" by (simp_all add: log_inv_def flight_ok_def staged_ok_def)
  have e: "pba * ucast (grain_unit (dev h)) = of_nat (unat pba * GRAIN_UNIT)"
    using arg_cong [OF pba_bytes [OF dv b(1)], of "of_nat :: nat \<Rightarrow> u64"] by (simp del: of_nat_mult)
  from r(1,2) have "aio_submit IO_PREAD (pba * ucast (grain_unit (dev h))) (n * grain_unit (dev h)) buf cb h = Inr (rc, h')"
    by (simp add: dev_abs_read_def Let_def aio_read_def)
  from submit_effect [OF po this r(3)] show ?thesis unfolding e size_bytes [OF dv b(2)] by blast
qed

lemma disk_read_log:
  assumes inv: "log_inv h L" and w: "io_cmd (iocb_arr h w) = IO_PREAD" "kernel_io w h = (ev, h')" "ev_res ev = of_nat (io_nbytes (iocb_arr h w))"
      "io_nbytes (iocb_arr h w) < 2 ^ 32"
  shows "\<exists>b. cells (mem h') (io_buf (iocb_arr h w)) = Some b \<and> (\<forall>k < io_nbytes (iocb_arr h w). \<forall>v.
     L (unat (io_offset (iocb_arr h w)) + k) = Some v \<and> \<not> in_seg (staged (dev h)) (unat (io_offset (iocb_arr h w)) + k) \<and>
     \<not> in_flight h (unat (io_offset (iocb_arr h w)) + k) \<longrightarrow> bdat b k = v)"
proof -
  let ?c = "iocb_arr h w"
  have "- EFAULT \<noteq> of_nat (io_nbytes ?c)" using neg_errno_neq [of 14 "io_nbytes ?c"] w(4) by (simp add: EFAULT_def)
  then obtain b where b: "h' = h\<lparr>mem := (mem h)\<lparr>cells := (cells (mem h))(io_buf ?c \<mapsto>
      b\<lparr>bdat := copy_bytes (bdat b) 0 (disk h) (unat (io_offset ?c)) (io_nbytes ?c)\<rparr>)\<rparr>\<rparr>"
    using w(1-3) by (auto simp: kernel_io_def Let_def split: option.splits if_splits)
  have "disk h a = v" if "L a = Some v" "\<not> in_seg (staged (dev h)) a" "\<not> in_flight h a" for a v
    using inv that(1) log_view_disk [OF that(2,3)] by (simp add: log_inv_def)
  then show ?thesis by (simp add: b copy_bytes_def)
qed

subsection \<open>The completion thread leaves the device alone\<close>

text \<open>
  When the write of a segment has completed, the poller runs \<open>reap_seg_buf\<close>, which frees the buffer, and returns the control block: a step
  of the rest of the program, because that buffer is no longer one of the device.
\<close>

lemma reaped_buf:
  assumes ok: "flight_ok h" and w: "w \<in> set (submitted h)" "io_cmd (iocb_arr h w) = IO_PWRITE"
    and h': "submitted h' = remove1 w (submitted h)" "iocb_arr h' = iocb_arr h" "dev h' = dev h"
  shows "io_buf (iocb_arr h w) \<notin> dev_bufs h'"
proof -
  let ?c = "iocb_arr h w"
  have c: "?c \<in> set (writes h)" using w by (auto simp: writes_in)
  then have "io_buf ?c \<noteq> staged_seg_buf (dev h)" using ok by (auto simp: flight_ok_def write_ok_def)
  moreover have "inj_on io_buf (set (writes h))" using ok by (simp add: flight_ok_def distinct_map)
  then have "io_buf ?c \<notin> io_buf ` (set (writes h) - {?c})" using c by (auto simp: inj_on_def)
  moreover have "set (writes h') = set (writes h) - {?c}" using writes_complete(1) [OF ok w(1) h'(1,2)] w(2) by auto
  ultimately show ?thesis using h'(3) by (simp add: dev_bufs_def)
qed

lemma poll_reap_env:
  assumes ok: "flight_ok h" and w: "w \<in> set (submitted h)" "io_cmd (iocb_arr h w) = IO_PWRITE" and k: "kernel_io w h = (ev, h')"
    and cb: "cbfunc (cb_arr h (io_data (iocb_arr h w))) = CB_reap_seg_buf" "cbarg (cb_arr h (io_data (iocb_arr h w))) = io_buf (iocb_arr h w)"
    and run: "runner_keeps_io run" "\<And>p x. run CB_reap_seg_buf p x = Inr (reap_seg_buf p x)"
    and room: "int (length (q_list (iocb_pool h))) < m_size (iocb_pool h)" "q_inv (cb_pool h)" "int (length (q_list (cb_pool h))) < m_size (cb_pool h)"
  shows "\<exists>h2. aio_poll_event run ev (io_getevent ev h') = Inr h2 \<and> env_step (io_getevent ev h') h2"
proof -
  let ?c = "iocb_arr h w" and ?h = "io_getevent ev h'"
  have c: "?c \<in> set (writes h)" using w by (auto simp: writes_in)
  then have n: "io_nbytes ?c = SEGMENT_SIZE" using ok by (auto simp: flight_ok_def write_ok_def)
  have e: "ev_obj ev = w" "ev_data ev = io_data ?c" "ev_res ev = of_nat SEGMENT_SIZE" and
    h': "dev h' = dev h" "mem h' = mem h" "submitted h' = submitted h" "iocb_arr h' = iocb_arr h" "cb_arr h' = cb_arr h"
      "iocb_pool h' = iocb_pool h" "cb_pool h' = cb_pool h"
    using kernel_io_write [OF ok c] k by auto
  have g: "dev ?h = dev h" "mem ?h = mem h" "iocb_arr ?h = iocb_arr h" "submitted ?h = remove1 w (submitted h)" "cb_arr ?h = cb_arr h"
    "iocb_pool ?h = iocb_pool h" "cb_pool ?h = cb_pool h" by (simp_all add: io_getevent_def h' e)
  have po: "q_inv (iocb_pool h)" "distinct (q_list (iocb_pool h) @ submitted h)" using ok by (simp_all add: flight_ok_def pool_ok_def)
  have r: "run (cbfunc (cb_arr ?h (ev_data ev))) (cbarg (cb_arr ?h (ev_data ev))) ?h = Inr (reap_seg_buf (io_buf ?c) ?h)"
    using run(2) by (simp add: g e cb)
  obtain q q' where q: "aio_poll_event run ev ?h = Inr ((reap_seg_buf (io_buf ?c) ?h)\<lparr>iocb_pool := q, cb_pool := q'\<rparr>)"
    "q_inv q" "q_list q = q_list (iocb_pool h) @ [w]"
    using poll_event_runs [OF _ r run(1)] po room n by (auto simp: g e)
  have "pool_ok ((reap_seg_buf (io_buf ?c) ?h)\<lparr>iocb_pool := q, cb_pool := q'\<rparr>)"
    using po q(2,3) w(1) set_remove1_subset [of w "submitted h"] by (auto simp: pool_ok_def reap_seg_buf_def munmap_def g)
  moreover have "mem_wf (mem h)" using ok by (simp add: flight_ok_def staged_ok_def)
  ultimately have "env_step ?h ((reap_seg_buf (io_buf ?c) ?h)\<lparr>iocb_pool := q, cb_pool := q'\<rparr>)"
    using reaped_buf [OF ok w g(4,3,1)] by (auto simp: env_step_def reap_seg_buf_def munmap_def mem_wf_def g)
  with q(1) show ?thesis by blast
qed

subsection \<open>A run: a block is written, its segment retired, and the block read\<close>

lemma ex_allocated:
  "\<exists>(h0 :: unit handler) h (pba :: u64).
     handler_init 0 True (Some 16384) (Some 512) True (\<lambda>_. 0) (\<lambda>_. True) (\<lambda>_. True) = Inr h0 \<and> log_step (h0, Map.empty) (h, Map.empty) \<and>
     log_inv h Map.empty \<and> unat pba = 0 \<and> staged_seg (dev h) = 0 \<and> unat (seg_offset (staged (dev h))) = GRAIN_UNIT \<and> unat (nr_segment (dev h)) = 4 \<and>
     pools_hold 2 h \<and> mmap_ok h = (\<lambda>_. True) \<and> submit_ok h = (\<lambda>_. True) \<and> submitted h = [] \<and> disk h = (\<lambda>_. 0)"
proof -
  obtain h0 :: "unit handler" where h0: "handler_init 0 True (Some 16384) (Some 512) True (\<lambda>_. 0) (\<lambda>_. True) (\<lambda>_. True) = Inr h0"
    "staged_ok h0" "pools_hold QSIZE h0" "unat (nr_segment (dev h0)) = 4" "staged_seg (dev h0) = 0" "seg_offset (staged (dev h0)) = 0"
    using ex_handler_unit by blast
  have "unat (16384 :: u32) * unat (512 :: u32) < 2 ^ 32 * SEGMENT_SIZE" by (simp add: config_defs)
  note i = handler_init_log_inv [OF h0(1) this TrueI]
  have m: "mmap_ok h0 (n_mmap h0)" "submit_ok h0 (n_submit h0)" using i by simp_all
  have p: "pools_hold (Suc 0) h0" "pools_hold 2 h0" by (rule pools_hold_mono [OF h0(3)], simp add: config_defs)+
  have sz: "unat (128 :: u32) \<le> SEGMENT_SIZE" by (simp add: config_defs)
  have e: "unat (end_addr (staged (dev h0))) = SEGMENT_SIZE" using h0(2,5) dev_inv_staged [of "dev h0"] by (simp add: staged_ok_def seg_ok_def)
  have nf: "\<not> full 128 h0" using full_iff [OF h0(2) sz] e h0(6) by (simp add: config_defs)
  have fit: "unat (seg_offset (staged (dev h0))) + unat (128 :: u32) \<le> unat (end_addr (staged (dev h0)))" using e h0(6) by (simp add: config_defs)
  from get_next_pba_spec [OF h0(2) p(1) m(1) sz, unfolded if_P [OF fit]] obtain pba h1 where
    g1: "get_next_pba 128 h0 = Inr (pba, h1)" "staged_ok h1" "unat pba * GRAIN_UNIT + grains (unat (128 :: u32)) = unat (seg_offset (staged (dev h1)))"
    "unat pba * GRAIN_UNIT = unat (seg_offset (staged (dev h0)))" "staged_seg (dev h1) = staged_seg (dev h0)" by blast
  then have g: "get_next_pba 128 h0 = Inr (pba, h1)" "staged_ok h1" "unat pba = 0" "unat (seg_offset (staged (dev h1))) = GRAIN_UNIT"
    "staged_seg (dev h1) = 0" using h0(5,6) by (simp_all add: grains_def GRAIN_UNIT_def)
  obtain d where h1: "h1 = h0\<lparr>dev := d\<rparr>" "nr_segment d = nr_segment (dev h0)"
    using get_next_pba_cases [OF g(1)] nf by (metis (no_types) bump_offset_frame(2) sum.inject(2))
  have s1: "log_step (h0, Map.empty) (h1, Map.empty)"
    using log_alloc [OF g(1) sz _ m, of Map.empty] p(1) nf by simp
  have "log_inv h1 Map.empty" using log_step_inv [OF s1] i by simp
  moreover have "unat (nr_segment (dev h1)) = 4" "pools_hold 2 h1" "mmap_ok h1 = (\<lambda>_. True)" "submit_ok h1 = (\<lambda>_. True)" "submitted h1 = []"
    "disk h1 = (\<lambda>_. 0)" using h0(4) p(2) i h1(2) by (simp_all add: h1(1) pools_hold_def)
  ultimately show ?thesis using h0(1) s1 g(3-5) by blast
qed

lemma ex_written:
  "\<exists>(h0 :: unit handler) h L buf b.
     handler_init 0 True (Some 16384) (Some 512) True (\<lambda>_. 0) (\<lambda>_. True) (\<lambda>_. True) = Inr h0 \<and> log_step\<^sup>*\<^sup>* (h0, Map.empty) (h, L) \<and>
     L 0 = Some 1 \<and> staged_seg (dev h) = 0 \<and> unat (seg_offset (staged (dev h))) = GRAIN_UNIT \<and> unat (nr_segment (dev h)) = 4 \<and>
     pools_hold 2 h \<and> mmap_ok h = (\<lambda>_. True) \<and> submit_ok h = (\<lambda>_. True) \<and> submitted h = [] \<and> disk h = (\<lambda>_. 0) \<and>
     cells (mem h) buf = Some b \<and> blen b = GRAIN_UNIT \<and> buf \<notin> dev_bufs h"
proof -
  obtain h0 h1 :: "unit handler" and pba :: u64 where i: "handler_init 0 True (Some 16384) (Some 512) True (\<lambda>_. 0) (\<lambda>_. True) (\<lambda>_. True) = Inr h0"
    and s1: "log_step (h0, Map.empty) (h1, Map.empty)" and inv: "log_inv h1 Map.empty"
    and g: "unat pba = 0" "staged_seg (dev h1) = 0" "unat (seg_offset (staged (dev h1))) = GRAIN_UNIT" "unat (nr_segment (dev h1)) = 4"
    and p: "pools_hold 2 h1" "mmap_ok h1 = (\<lambda>_. True)" "submit_ok h1 = (\<lambda>_. True)" "submitted h1 = []" "disk h1 = (\<lambda>_. 0)" using ex_allocated by blast
  from inv have st: "staged_ok h1" and po: "pool_ok h1" by (simp_all add: log_inv_def flight_ok_def)
  have w1: "writes h1 = []" using p(4) by (simp add: writes_def)
  let ?buf = "brk (mem h1)" and ?b = "\<lparr>blen = GRAIN_UNIT, bdat = \<lambda>_. 1\<rparr>"
  let ?h2 = "h1\<lparr>mem := snd (mem_alloc GRAIN_UNIT (\<lambda>_. 1) (mem h1))\<rparr>"
  obtain s where s: "cells (mem h1) (staged_seg_buf (dev h1)) = Some s" "blen s = SEGMENT_SIZE" and wf: "mem_wf (mem h1)" and dv: "dev_inv (dev h1)"
    using st by (auto simp: staged_ok_def)
  have ne: "staged_seg_buf (dev h1) \<noteq> ?buf" using mem_live_lt [OF wf] s(1) by fastforce
  have s2: "log_step (h1, Map.empty) (?h2, Map.empty)"
  proof (rule log_env)
    have "mem_wf (snd (mem_alloc GRAIN_UNIT (\<lambda>_. 1) (mem h1)))" using mem_wf_alloc [OF wf] by (metis prod.collapse)
    then show "env_step h1 ?h2" using ne po w1 by (simp add: env_step_def dev_bufs_def mem_alloc_def pool_ok_def)
  qed
  have c2: "cells (mem ?h2) ?buf = Some ?b" "cells (mem ?h2) (staged_seg_buf (dev h1)) = Some s" using s ne by (simp_all add: mem_alloc_def)
  have nn: "staged_seg_buf (dev h1) \<noteq> NULL" "?buf \<noteq> NULL" using s(1) wf by (auto simp: mem_wf_def intro: ccontr)
  have ist: "in_staged (dev ?h2) pba (unat (1 :: u32) * GRAIN_UNIT)"
    using g(1-3) dev_inv_staged [OF dv] by (simp add: in_staged_def seg_ok_def)
  have st0: "unat (start_addr (staged (dev h1))) = 0" using dev_inv_staged [OF dv] g(2) by (simp add: seg_ok_def)
  obtain m3 where m3: "memcpy (staged_seg_buf (dev h1)) 0 ?buf 0 GRAIN_UNIT (mem ?h2) = Inr m3"
    "\<And>p. p \<noteq> staged_seg_buf (dev h1) \<Longrightarrow> cells m3 p = cells (mem ?h2) p"
    using memcpy_ok [OF c2(2,1) nn, of 0 GRAIN_UNIT 0] s(2) by (auto simp: config_defs)
  let ?h3 = "?h2\<lparr>mem := m3\<rparr>" and ?L = "log_put (unat pba * GRAIN_UNIT) (unat (1 :: u32) * GRAIN_UNIT) (bdat ?b) Map.empty"
  have "calls_back (\<lambda>run. dev_abs_write run pba 1 ?buf 5 ?h2) 5 ?h3"
    using m3(1) g(1) st0 by (simp add: calls_back_def dev_abs_write_staged [OF _ ist] dv)
  from log_write [OF this ist c2(1)] have s3: "log_step (?h2, Map.empty) (?h3, ?L)" .
  have "log_step\<^sup>*\<^sup>* (h0, Map.empty) (?h3, ?L)" using s1 s2 s3 by (meson converse_rtranclp_into_rtranclp rtranclp.rtrancl_refl)
  moreover have "?L 0 = Some 1" using g(1) by (simp add: log_put_def config_defs)
  moreover have "cells (mem ?h3) ?buf = Some ?b" using m3(2) ne c2(1) by simp
  ultimately show ?thesis using i p g w1 ne
    by (intro exI [of _ h0] exI [of _ ?h3] exI [of _ ?L] exI [of _ ?buf] exI [of _ ?b]) (simp add: pools_hold_def dev_bufs_def)
qed

lemma ex_retired:
  "\<exists>(h0 :: unit handler) h L w buf b.
     handler_init 0 True (Some 16384) (Some 512) True (\<lambda>_. 0) (\<lambda>_. True) (\<lambda>_. True) = Inr h0 \<and> log_step\<^sup>*\<^sup>* (h0, Map.empty) (h, L) \<and> log_inv h L \<and>
     L 0 = Some 1 \<and> submitted h = [w] \<and> io_cmd (iocb_arr h w) = IO_PWRITE \<and> disk h = (\<lambda>_. 0) \<and> staged_seg (dev h) = 1 \<and>
     pools_hold 1 h \<and> submit_ok h = (\<lambda>_. True) \<and> cells (mem h) buf = Some b \<and> blen b = GRAIN_UNIT \<and> buf \<notin> dev_bufs h"
proof -
  obtain h0 :: "unit handler" and h L buf b where
    i: "handler_init 0 True (Some 16384) (Some 512) True (\<lambda>_. 0) (\<lambda>_. True) (\<lambda>_. True) = Inr h0" and
    run: "log_step\<^sup>*\<^sup>* (h0, Map.empty) (h, L)" and L: "L 0 = Some 1" and
    s: "staged_seg (dev h) = 0" "unat (seg_offset (staged (dev h))) = GRAIN_UNIT" "unat (nr_segment (dev h)) = 4" and
    p: "pools_hold 2 h" "mmap_ok h = (\<lambda>_. True)" "submit_ok h = (\<lambda>_. True)" "submitted h = []" "disk h = (\<lambda>_. 0)" and
    b: "cells (mem h) buf = Some b" "blen b = GRAIN_UNIT" "buf \<notin> dev_bufs h" using ex_written by blast
  have big: "unat (16384 :: u32) * unat (512 :: u32) < 2 ^ 32 * SEGMENT_SIZE" by (simp add: config_defs)
  have inv: "log_inv h L" using log_steps_inv [OF run] handler_init_log_inv [OF i big TrueI] by simp
  then have st: "staged_ok h" and po: "pool_ok h" and wf: "mem_wf (mem h)" and dv: "dev_inv (dev h)"
    by (simp_all add: log_inv_def flight_ok_def staged_ok_def)
  have so: "seg_ok (staged (dev h)) 0" using dev_inv_staged [OF dv] s(1) by simp
  have sz: "unat (2097152 :: u32) \<le> SEGMENT_SIZE" by (simp add: config_defs)
  have f: "full 2097152 h" using full_iff [OF st sz] s(2) so by (simp add: seg_ok_def config_defs)
  have nf: "\<not> unat (seg_offset (staged (dev h))) + unat (2097152 :: u32) \<le> unat (end_addr (staged (dev h)))" using s(2) so by (simp add: seg_ok_def config_defs)
  have nx: "next_free h" using s p(4) by (simp add: next_free_def writes_def)
  have ph: "pools_hold (Suc 1) h" "pools_hold 1 h" using p(1) pools_hold_mono [OF p(1), of 1] by (simp_all add: numeral_2_eq_2)
  have mo: "mmap_ok h (n_mmap h)" "submit_ok h (n_submit h)" using p by simp_all
  from get_next_pba_spec [OF st ph(1) mo(1) sz, unfolded if_not_P [OF nf]] obtain pba h4 where
    g: "get_next_pba 2097152 h = Inr (pba, h4)" "staged_ok h4" "pools_hold 1 h4" "staged_seg (dev h4) = Suc (staged_seg (dev h)) mod unat (nr_segment (dev h))"
    by blast
  from get_next_pba_cases [OF g(1)] f obtain h3 where r: "retire_segment h = Inr h3" and
    h4: "h4 = h3\<lparr>dev := bump_offset (round_to_grain (grain_unit (dev h3)) 2097152) (dev h3)\<rparr>" by auto
  have "unat (segment_size (dev h)) = SEGMENT_SIZE" using dv by (simp add: dev_inv_def dev_layout_def)
  from retire_effect [OF po this mo r] obtain w1 cb where
    e: "submitted h3 = [w1]" "disk h3 = (\<lambda>_. 0)" "io_cmd (iocb_arr h3 w1) = IO_PWRITE" "io_buf (iocb_arr h3 w1) = staged_seg_buf (dev h)"
      "mem h3 = snd (mem_alloc SEGMENT_SIZE (\<lambda>_. 0) (mem h))" "staged_seg_buf (dev h3) = brk (mem h)" using p(4,5) by fastforce
  have "q_list (iocb_pool h) \<noteq> []" using ph(2) by (auto simp: pools_hold_def)
  then have so4: "submit_ok h4 = (\<lambda>_. True)"
    using retire_segment_submits [OF ph(1) _ mo(2) r] p(3) h4 by (cases "q_list (iocb_pool h)") auto
  let ?L = "log_forget (staged (dev h4)) L"
  have step: "log_step (h, L) (h4, ?L)" using log_alloc [OF g(1) sz ph(2) mo, of L] nx f by simp
  have inv4: "log_inv h4 ?L" using log_step_inv [OF step] inv by simp
  have s4: "staged_seg (dev h4) = 1" using g(4) s by simp
  have dv4: "dev_inv (dev h4)" using g(2) by (simp add: staged_ok_def)
  have st4: "unat (start_addr (staged (dev h4))) = SEGMENT_SIZE" using dev_inv_staged [OF dv4] s4 by (simp add: seg_ok_def)
  have L4: "?L 0 = Some 1" using L st4 by (simp add: log_forget_def in_seg_def)
  have lt: "buf < brk (mem h)" using mem_live_lt [OF wf] b(1) by simp
  have b4: "cells (mem h4) buf = Some b" "buf \<notin> dev_bufs h4"
    using b lt e by (auto simp: h4 dev_bufs_def bump_offset_frame mem_alloc_def writes_def)
  have "log_step\<^sup>*\<^sup>* (h0, Map.empty) (h4, ?L)" using run step by (meson rtranclp.rtrancl_into_rtrancl)
  with i inv4 L4 g(3) so4 e(1-3) s4 b4 b(2) show ?thesis
    by (intro exI [of _ h0] exI [of _ h4] exI [of _ ?L] exI [of _ w1] exI [of _ buf] exI [of _ b]) (simp add: h4)
qed

lemma ex_in_flight:
  "\<exists>(h0 :: unit handler) h L w1 w2 buf b c.
     handler_init 0 True (Some 16384) (Some 512) True (\<lambda>_. 0) (\<lambda>_. True) (\<lambda>_. True) = Inr h0 \<and> log_step\<^sup>*\<^sup>* (h0, Map.empty) (h, L) \<and>
     L 0 = Some 1 \<and> submitted h = [w1, w2] \<and> w1 \<noteq> w2 \<and> disk h = (\<lambda>_. 0) \<and> staged_seg (dev h) = 1 \<and> iocb_arr h w1 = c \<and> io_cmd c = IO_PWRITE \<and>
     iocb_arr h w2 = \<lparr>io_cmd = IO_PREAD, io_buf = buf, io_nbytes = GRAIN_UNIT, io_offset = 0, io_data = 7\<rparr> \<and>
     cells (mem h) buf = Some b \<and> blen b = GRAIN_UNIT"
proof -
  obtain h0 h4 :: "unit handler" and L w1 buf b where
    i: "handler_init 0 True (Some 16384) (Some 512) True (\<lambda>_. 0) (\<lambda>_. True) (\<lambda>_. True) = Inr h0" and
    run: "log_step\<^sup>*\<^sup>* (h0, Map.empty) (h4, L)" and inv4: "log_inv h4 L" and L4: "L 0 = Some 1" and
    e: "submitted h4 = [w1]" "io_cmd (iocb_arr h4 w1) = IO_PWRITE" "disk h4 = (\<lambda>_. 0)" and s4: "staged_seg (dev h4) = 1" and
    p: "pools_hold 1 h4" "submit_ok h4 = (\<lambda>_. True)" and b4: "cells (mem h4) buf = Some b" "blen b = GRAIN_UNIT" "buf \<notin> dev_bufs h4"
    using ex_retired by blast
  have dv4: "dev_inv (dev h4)" using inv4 by (simp add: log_inv_def flight_ok_def staged_ok_def)
  have st4: "unat (start_addr (staged (dev h4))) = SEGMENT_SIZE" using dev_inv_staged [OF dv4] s4 by (simp add: seg_ok_def)
  have ns: "is_staged (dev h4) 0 \<noteq> 0" using st4 is_staged_iff [OF dv4, of 0] by (simp add: config_defs)
  have "\<exists>rc h5. dev_abs_read (\<lambda>_ _. Inr) 0 1 buf 7 h4 = Inr (rc, h5)"
    using aio_submit_ok [of h4] p(1) ns by (fastforce simp: dev_abs_read_def Let_def aio_read_def pools_hold_def)
  then obtain rc h5 where rd: "dev_abs_read (\<lambda>_ _. Inr) 0 1 buf 7 h4 = Inr (rc, h5)" by blast
  have so4': "submit_ok h4 (n_submit h4)" using p(2) by simp
  have bd: "unat (0 :: u64) * GRAIN_UNIT < 2 ^ 64" "unat (1 :: u32) * GRAIN_UNIT < 2 ^ 32" by (simp_all add: config_defs)
  from disk_read_submits [OF inv4 rd ns so4' bd] obtain w2 where
    w2: "w2 \<notin> set (submitted h4)" "submitted h5 = submitted h4 @ [w2]" "mem h5 = mem h4" "disk h5 = disk h4" "dev h5 = dev h4"
    "iocb_arr h5 = (iocb_arr h4)(w2 := \<lparr>io_cmd = IO_PREAD, io_buf = buf, io_nbytes = GRAIN_UNIT, io_offset = 0, io_data = 7\<rparr>)" by auto
  have "log_step (h4, L) (h5, L)" using log_read_disk [OF rd ns so4' b4(3), of L] b4(1) by simp
  with run have "log_step\<^sup>*\<^sup>* (h0, Map.empty) (h5, L)" by (meson rtranclp.rtrancl_into_rtrancl)
  moreover have "submitted h5 = [w1, w2]" "w1 \<noteq> w2" "disk h5 = (\<lambda>_. 0)" "io_cmd (iocb_arr h5 w1) = IO_PWRITE" "staged_seg (dev h5) = 1"
    "iocb_arr h5 w2 = \<lparr>io_cmd = IO_PREAD, io_buf = buf, io_nbytes = GRAIN_UNIT, io_offset = 0, io_data = 7\<rparr>" "cells (mem h5) buf = Some b"
    using w2 e s4 b4(1) by auto
  ultimately show ?thesis using i L4 b4(2) by blast
qed

subsection \<open>Properties\<close>

text \<open>
  C19: the log keeps what was written. In every run from \<open>handler_init\<close> of allocations, writes, reads and completions, interleaved in any
  way with the rest of the program, in which the system calls succeed, transfers are whole and no segment is staged again while its last write is in progress (the code does not check this: \<open>next_free\<close>), every byte written since its segment was last staged is in the staging buffer, in the buffer of a write that is in progress, or
  on the disk. Hence a read of the staged segment gets to its callback with these bytes; a read of another segment submits one
  transfer of exactly the blocks asked for, and when that completes it has delivered every such byte whose segment is on the disk.
\<close>

theorem device_log_durable:
  assumes i: "handler_init num True (Some nb) (Some bs) True dsk mok sok = Inr h0" "unat nb * unat bs < 2 ^ 32 * SEGMENT_SIZE" "mok 0"
    and run: "log_step\<^sup>*\<^sup>* (h0, Map.empty) (h, L)"
  shows "(\<forall>a v. L a = Some v \<longrightarrow>
       (if in_seg (staged (dev h)) a then bdat (the (cells (mem h) (staged_seg_buf (dev h)))) (a - unat (start_addr (staged (dev h)))) = v
        else if in_flight h a then \<exists>c \<in> set (writes h). covers c a \<and> bdat (the (cells (mem h) (io_buf c))) (a - unat (io_offset c)) = v
        else disk h a = v)) \<and>
     (\<forall>pba n buf cb h'. calls_back (\<lambda>run. dev_abs_read run pba n buf cb h) cb h' \<and> is_staged (dev h) pba = 0 \<and>
          unat pba * GRAIN_UNIT < 2 ^ 64 \<and> unat n * GRAIN_UNIT < 2 ^ 32 \<longrightarrow>
        (\<exists>b. cells (mem h') buf = Some b \<and> (\<forall>k < unat n * GRAIN_UNIT. \<forall>v. L (unat pba * GRAIN_UNIT + k) = Some v \<longrightarrow> bdat b k = v))) \<and>
     (\<forall>run pba n buf cb rc h'. dev_abs_read run pba n buf cb h = Inr (rc, h') \<and> is_staged (dev h) pba \<noteq> 0 \<and> submit_ok h (n_submit h) \<and>
          unat pba * GRAIN_UNIT < 2 ^ 64 \<and> unat n * GRAIN_UNIT < 2 ^ 32 \<longrightarrow>
        (\<exists>w. submitted h' = submitted h @ [w] \<and> iocb_arr h' w =
          \<lparr>io_cmd = IO_PREAD, io_buf = buf, io_nbytes = unat n * GRAIN_UNIT, io_offset = of_nat (unat pba * GRAIN_UNIT), io_data = cb\<rparr>)) \<and>
     (\<forall>w ev h'. io_cmd (iocb_arr h w) = IO_PREAD \<and> kernel_io w h = (ev, h') \<and> ev_res ev = of_nat (io_nbytes (iocb_arr h w)) \<and>
          io_nbytes (iocb_arr h w) < 2 ^ 32 \<longrightarrow>
        (\<exists>b. cells (mem h') (io_buf (iocb_arr h w)) = Some b \<and> (\<forall>k < io_nbytes (iocb_arr h w). \<forall>v.
           L (unat (io_offset (iocb_arr h w)) + k) = Some v \<and> \<not> in_seg (staged (dev h)) (unat (io_offset (iocb_arr h w)) + k) \<and>
           \<not> in_flight h (unat (io_offset (iocb_arr h w)) + k) \<longrightarrow> bdat b k = v)))"
proof -
  have inv: "log_inv h L" using log_steps_inv [OF run] handler_init_log_inv [OF i] by simp
  then have ok: "flight_ok h" and view: "L a = Some v \<Longrightarrow> log_view h a = v" for a v by (simp_all add: log_inv_def)
  have fl: "\<exists>c \<in> set (writes h). covers c a \<and> bdat (the (cells (mem h) (io_buf c))) (a - unat (io_offset c)) = v"
    if "L a = Some v" "in_flight h a" for a v
    using that view log_view_flight [OF ok] by (fastforce simp: in_flight_def list_ex_iff)
  show ?thesis
  proof (intro conjI allI impI, goal_cases)
    case (1 a v)
    with fl view [OF 1] log_view_disk [of h a] log_view_staged [of h a] show ?case by auto
  next
    case (2 pba n buf cb h')
    then show ?case using staged_read_log [OF inv, of pba n buf cb h'] by simp
  next
    case (3 run pba n buf cb rc h')
    then show ?case using disk_read_submits [OF inv, of run pba n buf cb rc h'] by auto
  next
    case (4 w ev h')
    then show ?case using disk_read_log [OF inv, of w ev h'] by simp
  qed
qed

theorem device_log_durable_witness:
  "\<exists>(h0 :: unit handler) h L w ev h' buf b.
     handler_init 0 True (Some 16384) (Some 512) True (\<lambda>_. 0) (\<lambda>_. True) (\<lambda>_. True) = Inr h0 \<and> log_step\<^sup>*\<^sup>* (h0, Map.empty) (h, L) \<and>
     L 0 = Some 1 \<and> w \<in> set (submitted h) \<and> kernel_io w h = (ev, h') \<and> ev_res ev = 128 \<and> cells (mem h') buf = Some b \<and> bdat b 0 = 1"
proof -
  obtain h0 :: "unit handler" and h L w1 w2 buf b c where
    i: "handler_init 0 True (Some 16384) (Some 512) True (\<lambda>_. 0) (\<lambda>_. True) (\<lambda>_. True) = Inr h0" and
    run: "log_step\<^sup>*\<^sup>* (h0, Map.empty) (h, L)" and L: "L 0 = Some 1" and
    s: "submitted h = [w1, w2]" "w1 \<noteq> w2" "staged_seg (dev h) = 1" "io_cmd (iocb_arr h w1) = IO_PWRITE" and
    w2: "iocb_arr h w2 = \<lparr>io_cmd = IO_PREAD, io_buf = buf, io_nbytes = GRAIN_UNIT, io_offset = 0, io_data = 7\<rparr>" and
    b: "cells (mem h) buf = Some b" "blen b = GRAIN_UNIT" using ex_in_flight by metis
  have big: "unat (16384 :: u32) * unat (512 :: u32) < 2 ^ 32 * SEGMENT_SIZE" by (simp add: config_defs)
  obtain ev h1 where k: "kernel_io w1 h = (ev, h1)" by fastforce
  have "w1 \<in> set (submitted h)" using s by simp
  from log_complete [OF this k, of L] run have run2: "log_step\<^sup>*\<^sup>* (h0, Map.empty) (io_getevent ev h1, L)" by simp
  let ?h = "io_getevent ev h1"
  have inv: "log_inv h L" "log_inv ?h L" using log_steps_inv [OF run] log_steps_inv [OF run2] handler_init_log_inv [OF i big TrueI] by simp_all
  have h1: "ev_obj ev = w1" "submitted h1 = submitted h" "iocb_arr h1 = iocb_arr h" "mem h1 = mem h" "dev h1 = dev h"
    using k s(4) by (auto simp: kernel_io_def Let_def split: option.splits if_splits)
  have h: "submitted ?h = [w2]" "iocb_arr ?h w2 = iocb_arr h w2" "mem ?h = mem h" "staged_seg (dev ?h) = 1"
    using s by (simp_all add: io_getevent_def h1)
  have nf: "\<not> in_flight ?h 0" using h w2 by (simp add: in_flight_def writes_def)
  have "seg_ok (staged (dev ?h)) 1" using inv(2) h(4) dev_inv_staged [of "dev ?h"] by (simp add: log_inv_def flight_ok_def staged_ok_def)
  then have ns: "\<not> in_seg (staged (dev ?h)) 0" by (simp add: in_seg_iff)
  obtain ev2 h2 where k2: "kernel_io w2 ?h = (ev2, h2)" by fastforce
  have r: "ev_res ev2 = 128" using k2 b by (auto simp: kernel_io_def Let_def h(2,3) w2 config_defs)
  have "io_cmd (iocb_arr ?h w2) = IO_PREAD" "io_nbytes (iocb_arr ?h w2) = 128" "io_offset (iocb_arr ?h w2) = 0" "io_buf (iocb_arr ?h w2) = buf"
    using h(2) w2 by (simp_all add: config_defs)
  with device_log_durable [OF i big TrueI run2, THEN conjunct2, THEN conjunct2, THEN conjunct2, rule_format, of w2 ev2 h2] k2 r
  obtain b2 where "cells (mem h2) buf = Some b2" "\<forall>k < 128. \<forall>v. L k = Some v \<and> \<not> in_seg (staged (dev ?h)) k \<and> \<not> in_flight ?h k \<longrightarrow> bdat b2 k = v"
    by auto
  moreover from this(2) L ns nf have "bdat b2 0 = 1" by simp
  ultimately show ?thesis using i run2 L h(1) k2 r
    by (intro exI [of _ h0] exI [of _ ?h] exI [of _ L] exI [of _ w2] exI [of _ ev2] exI [of _ h2] exI [of _ buf] exI [of _ b2]) simp
qed

text \<open>
  C20: a read can overtake the write of a retired segment. \<open>dev_abs_read\<close> looks for a block in the staged segment only, and sends the read of a segment
  whose write is still in progress to the disk: in a run from \<open>handler_init\<close> on a device of four segments, a read completes, with the
  size asked for, with the old content of the disk instead of the byte that was written.
\<close>

theorem device_stale_read:
  "\<exists>(h0 :: unit handler) h L w ev h' b.
     handler_init 0 True (Some 16384) (Some 512) True (\<lambda>_. 0) (\<lambda>_. True) (\<lambda>_. True) = Inr h0 \<and> log_step\<^sup>*\<^sup>* (h0, Map.empty) (h, L) \<and>
     w \<in> set (submitted h) \<and> io_cmd (iocb_arr h w) = IO_PREAD \<and> io_offset (iocb_arr h w) = 0 \<and> L 0 = Some 1 \<and>
     kernel_io w h = (ev, h') \<and> ev_res ev = of_nat (io_nbytes (iocb_arr h w)) \<and>
     cells (mem h') (io_buf (iocb_arr h w)) = Some b \<and> bdat b 0 = 0"
proof -
  obtain h0 :: "unit handler" and h L w1 w2 buf b where
    i: "handler_init 0 True (Some 16384) (Some 512) True (\<lambda>_. 0) (\<lambda>_. True) (\<lambda>_. True) = Inr h0" and
    run: "log_step\<^sup>*\<^sup>* (h0, Map.empty) (h, L)" and L: "L 0 = Some 1" and
    s: "submitted h = [w1, w2]" "disk h = (\<lambda>_. 0)" and
    w2: "iocb_arr h w2 = \<lparr>io_cmd = IO_PREAD, io_buf = buf, io_nbytes = GRAIN_UNIT, io_offset = 0, io_data = 7\<rparr>" and
    b: "cells (mem h) buf = Some b" "blen b = GRAIN_UNIT" using ex_in_flight by metis
  obtain ev h' where k: "kernel_io w2 h = (ev, h')" by fastforce
  have "ev_res ev = of_nat GRAIN_UNIT" "cells (mem h') buf = Some (b\<lparr>bdat := copy_bytes (bdat b) 0 (disk h) 0 GRAIN_UNIT\<rparr>)"
    using k b w2 by (auto simp: kernel_io_def Let_def)
  moreover have "copy_bytes (bdat b) 0 (disk h) 0 GRAIN_UNIT 0 = 0" using s(2) by (simp add: copy_bytes_def config_defs)
  ultimately show ?thesis using i run L s(1) k w2
    by (intro exI [of _ h0] exI [of _ h] exI [of _ L] exI [of _ w2] exI [of _ ev] exI [of _ h']
        exI [of _ "b\<lparr>bdat := copy_bytes (bdat b) 0 (disk h) 0 GRAIN_UNIT\<rparr>"]) simp
qed

end
