(* ===== verification/Bigkv_Log.thy ===== *)
theory Bigkv_Log
  imports Bigkv_Disk Disk_Io
begin

section \<open>The BigKV index on the log\<close>

text \<open>
  Every pass of \<open>bigkv_index_set\<close> and \<open>bigkv_index_get\<close> is a run of the device of the theory \<open>Disk_Io\<close>: it allocates, writes and reads through the
  functions of \<open>device.c\<close> only, and the rest of what it does, its callbacks included, leaves the device alone. The lemmas are compositional: \<open>quiet n h h'\<close> is a part of a pass
  that leaves the log as it is, \<open>appends h h' a n f\<close> one that appends \<open>n\<close> bytes at the address \<open>a\<close>.
\<close>

subsection \<open>Parts of a pass\<close>

text \<open>Free callbacks, all different, and control blocks.\<close>

definition cbs_free :: "nat \<Rightarrow> 'p handler \<Rightarrow> bool" where
  "cbs_free n h \<longleftrightarrow> pools_hold n h \<and> distinct (q_list (cb_pool h))"

text \<open>A buffer that exists, or did once, and that neither the device nor the kernel reads from.\<close>

definition own :: "ptr \<Rightarrow> 'p handler \<Rightarrow> bool" where
  "own p h \<longleftrightarrow> p \<notin> dev_bufs h \<and> p < brk (mem h)"

text \<open>What an allocation needs: that the system calls succeed and the next segment has been written to the disk.\<close>

definition roomy :: "'p handler \<Rightarrow> bool" where
  "roomy h \<longleftrightarrow> (\<forall>k. mmap_ok h k) \<and> (\<forall>k. submit_ok h k) \<and> next_free h"

definition quiet :: "nat \<Rightarrow> 'p handler \<Rightarrow> 'p handler \<Rightarrow> bool" where
  "quiet n h h' \<longleftrightarrow> dev h' = dev h \<and> writes h' = writes h \<and> mmap_ok h' = mmap_ok h \<and> submit_ok h' = submit_ok h \<and>
     brk (mem h) \<le> brk (mem h') \<and> (\<forall>k. cbs_free (n + k) h \<longrightarrow> cbs_free k h') \<and>
     (\<forall>L. log_inv h L \<longrightarrow> log_step\<^sup>*\<^sup>* (h, L) (h', L))"

definition recycled :: "'p handler \<Rightarrow> 'p handler \<Rightarrow> nat \<Rightarrow> bool" where
  "recycled h h' x \<longleftrightarrow> staged_seg (dev h') \<noteq> staged_seg (dev h) \<and> in_seg (staged (dev h')) x"

definition appends :: "'p handler \<Rightarrow> 'p handler \<Rightarrow> nat \<Rightarrow> nat \<Rightarrow> (nat \<Rightarrow> byte) \<Rightarrow> bool" where
  "appends h h' a n f \<longleftrightarrow> nr_segment (dev h') = nr_segment (dev h) \<and>
     unat (start_addr (staged (dev h'))) \<le> a \<and> a + n \<le> unat (seg_offset (staged (dev h'))) \<and>
     (staged_seg (dev h') = staged_seg (dev h) \<longrightarrow> unat (seg_offset (staged (dev h))) \<le> a) \<and>
     (\<forall>L. log_inv h L \<longrightarrow> log_step\<^sup>*\<^sup>* (h, L) (h', log_put a n f
        (if staged_seg (dev h') = staged_seg (dev h) then L else log_forget (staged (dev h')) L)))"

lemma quiet_refl [simp, intro]: "quiet 0 h h"
  by (simp add: quiet_def)

lemma quiet_log: "quiet n h h' \<Longrightarrow> log_inv h L \<Longrightarrow> log_inv h' L"
  using log_steps_inv [of "(h, L)" "(h', L)"] by (simp add: quiet_def)

lemma quiet_trans:
  assumes a: "quiet n h h1" and b: "quiet m h1 h2"
  shows "quiet (n + m) h h2"
proof -
  have "log_step\<^sup>*\<^sup>* (h, L) (h2, L)" if "log_inv h L" for L
    using a b that quiet_log [OF a that] rtranclp_trans [of log_step "(h, L)" "(h1, L)" "(h2, L)"] by (simp add: quiet_def)
  then show ?thesis using a b by (auto simp: quiet_def add.assoc)
qed

lemma quiet_dev_bufs: "quiet n h h' \<Longrightarrow> dev_bufs h' = dev_bufs h"
  by (simp add: quiet_def dev_bufs_def)

lemma quiet_own: "quiet n h h' \<Longrightarrow> own p h \<Longrightarrow> own p h'"
  using quiet_dev_bufs [of n h h'] by (auto simp: own_def quiet_def)

lemma quiet_roomy: "quiet n h h' \<Longrightarrow> roomy h' = roomy h"
  by (simp add: quiet_def roomy_def next_free_def)

lemma quiet_cbs: "quiet n h h' \<Longrightarrow> cbs_free (n + k) h \<Longrightarrow> cbs_free k h'"
  by (simp add: quiet_def)

lemma cbs_free_mono: "cbs_free n h \<Longrightarrow> k \<le> n \<Longrightarrow> cbs_free k h"
  by (auto simp: cbs_free_def intro: pools_hold_mono)

lemma quiet_appends:
  assumes a: "quiet k h h1" and b: "appends h1 h2 x n f"
  shows "appends h h2 x n f"
  using a b quiet_log [OF a] unfolding appends_def quiet_def by (metis (no_types, lifting) rtranclp_trans)

lemma appends_log: "appends h h' a n f \<Longrightarrow> log_inv h L \<Longrightarrow>
     log_inv h' (log_put a n f (if staged_seg (dev h') = staged_seg (dev h) then L else log_forget (staged (dev h')) L))"
  using log_steps_inv [of "(h, L)" "(h', log_put a n f (if staged_seg (dev h') = staged_seg (dev h) then L else log_forget (staged (dev h')) L))"]
  by (simp add: appends_def)

lemma appends_quiet:
  assumes a: "appends h h1 x n f" and b: "quiet k h1 h2"
  shows "appends h h2 x n f"
  using a b appends_log [OF a] unfolding appends_def quiet_def by (metis (no_types, lifting) rtranclp_trans)

text \<open>What was in the log stays there, unless its segment was staged again.\<close>

lemma appends_keeps:
  assumes a: "appends h h' a n f" and inv: "log_inv h L" and x: "L x = Some v" "\<not> recycled h h' x"
  shows "log_put a n f (if staged_seg (dev h') = staged_seg (dev h) then L else log_forget (staged (dev h')) L) x = Some v"
proof -
  let ?L = "log_put a n f (if staged_seg (dev h') = staged_seg (dev h) then L else log_forget (staged (dev h')) L)"
  have "log_inv h' ?L" by (rule appends_log [OF a inv])
  then have so': "seg_ok (staged (dev h')) (staged_seg (dev h'))" using dev_inv_staged by (auto simp: log_inv_def flight_ok_def staged_ok_def)
  have so: "seg_ok (staged (dev h)) (staged_seg (dev h))" using inv dev_inv_staged by (auto simp: log_inv_def flight_ok_def staged_ok_def)
  have r: "unat (start_addr (staged (dev h'))) \<le> a" "a + n \<le> unat (seg_offset (staged (dev h')))" using a by (simp_all add: appends_def)
  have "\<not> (a \<le> x \<and> x < a + n)"
  proof
    assume x': "a \<le> x \<and> x < a + n"
    then have i: "in_seg (staged (dev h')) x" using r so' by (auto simp: in_seg_def seg_ok_def)
    then have same: "staged_seg (dev h') = staged_seg (dev h)" using x(2) by (simp add: recycled_def)
    then have "in_seg (staged (dev h)) x" using i so so' by (auto simp: in_seg_def seg_ok_def)
    then have "x < unat (seg_offset (staged (dev h)))" using inv x(1) by (auto simp: log_inv_def)
    with a same x' show False by (simp add: appends_def)
  qed
  with x show ?thesis by (auto simp: log_put_def log_forget_def recycled_def)
qed
subsection \<open>Parts that leave the device alone\<close>

text \<open>A change of requests, queues, callbacks and of the memory outside the buffers of the device.\<close>

definition aside :: "'p handler \<Rightarrow> 'p handler \<Rightarrow> bool" where
  "aside h h' \<longleftrightarrow> dev h' = dev h \<and> submitted h' = submitted h \<and> iocb_arr h' = iocb_arr h \<and> disk h' = disk h \<and> iocb_pool h' = iocb_pool h \<and>
     mmap_ok h' = mmap_ok h \<and> submit_ok h' = submit_ok h \<and> brk (mem h) \<le> brk (mem h') \<and> (mem_wf (mem h) \<longrightarrow> mem_wf (mem h')) \<and>
     (\<forall>p. p \<in> dev_bufs h \<and> p < brk (mem h) \<longrightarrow> cells (mem h') p = cells (mem h) p)"

lemma dev_bufs_live:
  assumes "flight_ok h" and "p \<in> dev_bufs h"
  shows "cells (mem h) p \<noteq> None \<and> p < brk (mem h)"
proof -
  have "mem_wf (mem h)" "cells (mem h) p \<noteq> None" using assms by (auto simp: flight_ok_def staged_ok_def dev_bufs_def write_ok_def)
  then show ?thesis using mem_live_lt by blast
qed

lemma aside_env: "aside h h' \<Longrightarrow> flight_ok h \<Longrightarrow> env_step h h'"
  using dev_bufs_live [of h] by (auto simp: aside_def env_step_def flight_ok_def pool_ok_def staged_ok_def)

lemma aside_step: "aside h h' \<Longrightarrow> log_inv h L \<Longrightarrow> log_step (h, L) (h', L)"
  by (rule log_env, rule aside_env) (simp_all add: log_inv_def)

lemma aside_writes: "aside h h' \<Longrightarrow> writes h' = writes h"
  by (simp add: aside_def writes_def)

lemma aside_trans: "aside h h1 \<Longrightarrow> aside h1 h2 \<Longrightarrow> aside h h2"
  using aside_writes [of h h1] by (auto simp: aside_def dev_bufs_def)

lemma aside_own: "aside h h' \<Longrightarrow> own p h \<Longrightarrow> own p h'"
  using aside_writes [of h h'] by (auto simp: aside_def dev_bufs_def own_def)

lemma aside_quiet:
  assumes "aside h h'" and "\<And>k. cbs_free (n + k) h \<Longrightarrow> cbs_free k h'"
  shows "quiet n h h'"
  using assms aside_step [OF assms(1)] aside_writes [OF assms(1)] by (auto simp: quiet_def aside_def)

text \<open>The same with the pool of callbacks as it was.\<close>

lemma aside_quiet0: "aside h h' \<Longrightarrow> cb_pool h' = cb_pool h \<Longrightarrow> quiet 0 h h'"
  by (rule aside_quiet) (auto simp: cbs_free_def pools_hold_def aside_def)

lemma set_params_aside: "aside h (set_params req p h)"
  by (simp add: aside_def set_params_def)

lemma set_params_quiet: "quiet 0 h (set_params req p h)"
  by (rule aside_quiet0 [OF set_params_aside]) (simp add: set_params_def)

lemma set_temp_buf_quiet: "quiet 0 h (set_temp_buf req t h)"
  by (rule aside_quiet0) (simp_all add: aside_def set_temp_buf_def)

lemma own_mem_aside:
  assumes "own p h" and "\<And>q. q \<noteq> p \<Longrightarrow> cells m q = cells (mem h) q" "brk m = brk (mem h)" "mem_wf (mem h) \<Longrightarrow> mem_wf m"
  shows "aside h (h\<lparr>mem := m\<rparr>)"
proof -
  have "cells m q = cells (mem h) q" if "q \<in> dev_bufs h" for q using assms(1) assms(2) [of q] that by (auto simp: own_def)
  with assms(3,4) show ?thesis by (simp add: aside_def)
qed

lemma own_mem_quiet:
  assumes "own p h" and "\<And>q. q \<noteq> p \<Longrightarrow> cells m q = cells (mem h) q" "brk m = brk (mem h)" "mem_wf (mem h) \<Longrightarrow> mem_wf m"
  shows "quiet 0 h (h\<lparr>mem := m\<rparr>)"
  by (rule aside_quiet0 [OF own_mem_aside [OF assms]]) simp_all

lemma mem_free_own: "mem_free p m = Inr m' \<Longrightarrow> (\<forall>q. q \<noteq> p \<longrightarrow> cells m' q = cells m q) \<and> brk m' = brk m \<and> (mem_wf m \<longrightarrow> mem_wf m')"
  by (auto simp: mem_free_def mem_wf_def split: if_splits option.splits)

lemma memcpy_own: "memcpy p i src j n m = Inr m' \<Longrightarrow> (\<forall>q. q \<noteq> p \<longrightarrow> cells m' q = cells m q) \<and> brk m' = brk m \<and> (mem_wf m \<longrightarrow> mem_wf m')"
  using mem_wf_memcpy by (auto dest: memcpy_Inr)

lemma mem_alloc_quiet:
  assumes "mem_alloc n c (mem h) = (t, m)"
  shows "quiet 0 h (h\<lparr>mem := m\<rparr>)" "log_inv h L \<Longrightarrow> own t (h\<lparr>mem := m\<rparr>)" "cells m t \<noteq> None"
proof -
  have m: "t = brk (mem h)" "m = (mem h)\<lparr>cells := (cells (mem h))(brk (mem h) \<mapsto> \<lparr>blen = n, bdat = c\<rparr>), brk := Suc (brk (mem h))\<rparr>"
    using assms by (auto simp: mem_alloc_def)
  have "aside h (h\<lparr>mem := m\<rparr>)" using mem_wf_alloc [OF _ assms] by (auto simp: aside_def m)
  then show "quiet 0 h (h\<lparr>mem := m\<rparr>)" by (rule aside_quiet0) simp
  show "cells m t \<noteq> None" by (simp add: m)
  show "own t (h\<lparr>mem := m\<rparr>)" if "log_inv h L" 
    using dev_bufs_live [of h t] that by (auto simp: own_def m dev_bufs_def log_inv_def)
qed

lemma make_callback_quiet:
  assumes "make_callback F a h = Inr (cb, h')"
  shows "quiet 1 h h'" "req_arr h' = req_arr h" "mem h' = mem h" "cb_arr h' cb = \<lparr>cbfunc = F, cbarg = a, cbiocb = NULL\<rparr>"
    "cbs_free n h \<Longrightarrow> cb \<notin> set (q_list (cb_pool h'))" "cb \<noteq> NULL"
proof -
  from assms obtain q where q: "q_dequeue (cb_pool h) = Inr (cb, q)" "cb \<noteq> NULL"
    "h' = h\<lparr>cb_pool := q, cb_arr := (cb_arr h)(cb := \<lparr>cbfunc = F, cbarg = a, cbiocb = NULL\<rparr>)\<rparr>"
    by (auto simp: make_callback_def res_simps split: if_splits)
  have pool: "q_inv q \<and> q_list (cb_pool h) = cb # q_list q" if "q_inv (cb_pool h)"
    using lq.deq_Inr [OF that q(1)] q(2) by (auto split: list.splits)
  have "cbs_free k h'" if "cbs_free (1 + k) h" for k
    using that pool by (auto simp: cbs_free_def pools_hold_def q(3))
  then show "quiet 1 h h'" by (intro aside_quiet) (auto simp: aside_def q(3))
  show "req_arr h' = req_arr h" "mem h' = mem h" "cb_arr h' cb = \<lparr>cbfunc = F, cbarg = a, cbiocb = NULL\<rparr>" "cb \<noteq> NULL" by (simp_all add: q)
  show "cb \<notin> set (q_list (cb_pool h'))" if "cbs_free n h" using that pool by (auto simp: cbs_free_def pools_hold_def q(3))
qed

lemma retry_req_aside: "retry_req req h = Inr h' \<Longrightarrow> aside h h'"
  by (auto simp: retry_req_def retry_req_to_hlr_def res_simps aside_def)

lemma retry_req_quiet: "retry_req req h = Inr h' \<Longrightarrow> quiet 0 h h'"
  by (rule aside_quiet0) (auto simp: retry_req_def retry_req_to_hlr_def res_simps aside_def)

subsection \<open>Callbacks\<close>

text \<open>The buffers a callback frees.\<close>

fun frees :: "cb_func \<Rightarrow> ptr \<Rightarrow> 'p handler \<Rightarrow> ptr" where
  "frees CB_net_end_req a h = vvalue (rvalue (req_arr h a))"
| "frees CB_keycmp a h = vvalue (rvalue (req_arr h a))"
| "frees CB_part_table_read a h = NULL"
| "frees CB_part_table_write a h = temp_buf (req_arr h a)"
| "frees CB_part_table_write_for_get a h = a"
| "frees CB_reap_seg_buf a h = a"

lemma mem_free_aside: "mem_free p (mem h) = Inr m \<Longrightarrow> own p h \<Longrightarrow> aside h (h\<lparr>mem := m\<rparr>)"
  by (rule own_mem_aside) (auto dest: mem_free_own)

lemma net_end_req_aside:
  assumes "net_end_req req h = Inr h'" and "own (vvalue (rvalue (req_arr h req))) h"
  shows "aside h h'"
proof -
  from assms(1) obtain m where m: "mem_free (vvalue (rvalue (req_arr h req))) (mem h) = Inr m" "mem h' = m"
    and "dev h' = dev h \<and> submitted h' = submitted h \<and> iocb_arr h' = iocb_arr h \<and> disk h' = disk h \<and> iocb_pool h' = iocb_pool h \<and>
     mmap_ok h' = mmap_ok h \<and> submit_ok h' = submit_ok h"
    by (auto simp: net_end_req_def Let_def send_ack_def res_simps)
  with mem_free_aside [OF m(1) assms(2)] show ?thesis by (simp add: aside_def)
qed

lemma bi_run_aside:
  assumes "bi_run F a h = Inr h'" and "own (frees F a h) h"
  shows "aside h h'"
proof (cases F)
  case CB_net_end_req
  with assms show ?thesis using net_end_req_aside by simp
next
  case CB_reap_seg_buf
  with assms show ?thesis by (auto simp: reap_seg_buf_def munmap_def aside_def own_def mem_wf_def)
next
  case CB_keycmp
  with assms consider "net_end_req a h = Inr h'" | p where "retry_req a (set_params a p h) = Inr h'"
    by (auto simp: bi_cb_keycmp_def Let_def res_simps split: if_splits option.splits)
  then show ?thesis
  proof cases
    case 1 then show ?thesis using assms(2) CB_keycmp net_end_req_aside by simp
  next
    case 2 then show ?thesis by (rule aside_trans [OF set_params_aside retry_req_aside])
  qed
next
  case CB_part_table_read
  with assms obtain p where "retry_req a (set_params a p h) = Inr h'" by (auto simp: cb_part_table_read_def split: option.splits)
  from retry_req_aside [OF this] show ?thesis by (rule aside_trans [OF set_params_aside])
next
  case CB_part_table_write
  with assms(1) obtain p m where m: "mem_free (temp_buf (req_arr h a)) (mem h) = Inr m" "retry_req a ((set_params a p h)\<lparr>mem := m\<rparr>) = Inr h'"
    by (auto simp: cb_part_table_write_def set_params_def Let_def res_simps split: option.splits)
  let ?h = "set_params a p h"
  have "mem_free (temp_buf (req_arr h a)) (mem ?h) = Inr m" "own (temp_buf (req_arr h a)) ?h"
    using m(1) assms(2) CB_part_table_write aside_own [OF set_params_aside] by (simp_all add: set_params_def)
  from aside_trans [OF aside_trans [OF set_params_aside mem_free_aside [OF this]] retry_req_aside [OF m(2)]] show ?thesis .
next
  case CB_part_table_write_for_get
  with assms(1) obtain m where "mem_free a (mem h) = Inr m" "h' = h\<lparr>mem := m\<rparr>" by (auto simp: cb_part_table_write_for_get_def res_simps)
  with mem_free_aside [of a h m] assms(2) CB_part_table_write_for_get show ?thesis by simp
qed

lemma callback_quiet:
  assumes r: "run_and_recycle bi_run cb h = Inr h'" and own: "own (frees (cbfunc (cb_arr h cb)) (cbarg (cb_arr h cb)) h) h"
    and cb: "cb \<notin> set (q_list (cb_pool h))" "cb \<noteq> NULL"
  shows "quiet 0 h h'"
proof -
  from r obtain h1 b q where h1: "bi_run (cbfunc (cb_arr h cb)) (cbarg (cb_arr h cb)) h = Inr h1" "q_enqueue cb (cb_pool h1) = Inr (b, q)"
    "h' = h1\<lparr>cb_pool := q\<rparr>" by (auto simp: run_and_recycle_def res_simps)
  have "cb_pool h1 = cb_pool h" using bi_run_keeps_io h1(1) unfolding runner_keeps_io_def by blast
  then have "cbs_free k h'" if "cbs_free k h" for k
    using that cb lq.enq_Inr [of "cb_pool h" cb b q] h1 bi_run_aside [OF h1(1) own]
    by (auto simp: cbs_free_def pools_hold_def aside_def split: if_splits)
  moreover have "aside h h'" using bi_run_aside [OF h1(1) own] by (simp add: h1(3) aside_def)
  ultimately show ?thesis by (intro aside_quiet) simp_all
qed
subsection \<open>Reading\<close>

lemma own_null: "log_inv h L \<Longrightarrow> own NULL h"
proof -
  assume "log_inv h L"
  then have ok: "flight_ok h" "cells (mem h) NULL = None" "0 < brk (mem h)" by (simp_all add: log_inv_def flight_ok_def staged_ok_def mem_wf_def)
  then have "NULL \<notin> dev_bufs h" using dev_bufs_live [OF ok(1), of NULL] by (cases "NULL \<in> dev_bufs h") simp_all
  with ok(3) show ?thesis by (simp add: own_def)
qed

text \<open>A block of the staged segment: the callback runs with the bytes in the buffer.\<close>

lemma read_staged_quiet:
  assumes r: "dev_abs_read bi_run pba n v cb h = Inr (rc, h')" "is_staged (dev h) pba = 0"
    and own: "own v h" "own (frees (cbfunc (cb_arr h cb)) (cbarg (cb_arr h cb)) h) h" and cb: "cb \<notin> set (q_list (cb_pool h))" "cb \<noteq> NULL"
  shows "quiet 0 h h'"
proof -
  from r obtain i k m where m: "memcpy v 0 (staged_seg_buf (dev h)) i k (mem h) = Inr m"
    and c: "\<And>run. dev_abs_read run pba n v cb h = ebind (run_and_recycle run cb (h\<lparr>mem := m\<rparr>)) (\<lambda>h1. Inr (0, h1))"
    by (auto simp: dev_abs_read_def Let_def res_simps)
  let ?h = "h\<lparr>mem := m\<rparr>"
  have rr: "run_and_recycle bi_run cb ?h = Inr h'" using r(1) c by (auto simp: res_simps)
  have "aside h ?h" using own(1) memcpy_own [OF m] by (intro own_mem_aside) auto
  then have q: "quiet 0 h ?h" by (rule aside_quiet0) simp
  have "frees F a ?h = frees F a h" for F a by (cases F) simp_all
  with callback_quiet [OF rr] quiet_own [OF q] own(2) cb have "quiet 0 ?h h'" by simp
  from quiet_trans [OF q this] show ?thesis by simp
qed

lemma read_disk_quiet:
  assumes r: "dev_abs_read bi_run pba n v cb h = Inr (rc, h')" "is_staged (dev h) pba \<noteq> 0"
    and own: "own v h" "cells (mem h) v \<noteq> None" and ok: "\<forall>k. submit_ok h k" and inv: "log_inv h L0"
  shows "quiet 1 h h'"
proof -
  from r have s: "aio_submit IO_PREAD (pba * ucast (grain_unit (dev h))) (n * grain_unit (dev h)) v cb h = Inr (rc, h')"
    by (simp add: dev_abs_read_def Let_def aio_read_def)
  have po: "pool_ok h" using inv by (simp add: log_inv_def flight_ok_def)
  from submit_effect [OF po s] ok obtain w where
    w: "w \<notin> set (submitted h)" "submitted h' = submitted h @ [w]" "dev h' = dev h" "mem h' = mem h" "mmap_ok h' = mmap_ok h" "\<exists>c. iocb_arr h' = (iocb_arr h)(w := c) \<and> io_cmd c = IO_PREAD"
    by (metis iocb.select_convs(1))
  then have wr: "writes h' = writes h" using writes_submit [OF w(1,2)] by auto
  have so: "submit_ok h' = submit_ok h" using s by (auto simp: aio_submit_def Let_def res_simps split: if_splits)
  have "cbs_free k h'" if "cbs_free (1 + k) h" for k
  proof -
    have "q_list (iocb_pool h) \<noteq> []" using that by (auto simp: cbs_free_def pools_hold_def)
    then obtain u us where l: "q_list (iocb_pool h) = u # us" by (meson neq_Nil_conv)
    have "q_inv (iocb_pool h)" "NULL \<notin> set (q_list (iocb_pool h))" using that by (auto simp: cbs_free_def pools_hold_def)
    from aio_submit_ok [OF this(1) _ this(2), of IO_PREAD "pba * ucast (grain_unit (dev h))" "n * grain_unit (dev h)" v cb] l s
    have "cb_pool h' = cb_pool h" "q_inv (iocb_pool h')" "q_list (iocb_pool h') = us" by auto
    with that l show ?thesis by (auto simp: cbs_free_def pools_hold_def)
  qed
  moreover have "log_step (h, L) (h', L)" if "log_inv h L" for L
    using log_read_disk [OF r] own ok by (simp add: own_def)
  ultimately show ?thesis using w wr so by (auto simp: quiet_def)
qed

text \<open>Taking a callback and reading with it.\<close>

lemma read_quiet:
  assumes mk: "make_callback F a h = Inr (cb, h1)" and rd: "dev_abs_read bi_run pba n v cb h1 = Inr (rc, h')"
    and own: "own v h" "cells (mem h) v \<noteq> None" "own (frees F a h) h" and ok: "cbs_free 1 h" "\<forall>k. submit_ok h k" and inv: "log_inv h L"
  shows "quiet 2 h h'"
proof -
  note m = make_callback_quiet [OF mk]
  have fr: "frees F a h1 = frees F a h" by (cases F) (simp_all add: m(2))
  have o: "own v h1" "own (frees F a h1) h1" using quiet_own [OF m(1)] own fr by simp_all
  have "quiet 1 h1 h'"
  proof (cases "is_staged (dev h1) pba = 0")
    case True
    from read_staged_quiet [OF rd True o(1)] o(2) m(4,6) m(5) [OF ok(1)] have "quiet 0 h1 h'" by simp
    then show ?thesis by (auto simp: quiet_def intro: cbs_free_mono)
  next
    case False
    have "\<forall>k. submit_ok h1 k" using ok(2) m(1) by (simp add: quiet_def)
    from read_disk_quiet [OF rd False o(1) _ this quiet_log [OF m(1) inv]] own(2) m(3) show ?thesis by simp
  qed
  from quiet_trans [OF m(1) this] show ?thesis by (simp add: numeral_2_eq_2)
qed
subsection \<open>Allocating and writing\<close>

lemma get_next_pba_cb_pool:
  assumes r: "get_next_pba sz h = Inr (pba, h')" and q: "q_inv (cb_pool h)"
  shows "q_list (cb_pool h') = q_list (cb_pool h) \<or> q_list (cb_pool h') = tl (q_list (cb_pool h))"
proof -
  obtain h1 where h1: "(if full sz h then retire_segment h else Inr h) = Inr h1" "cb_pool h' = cb_pool h1"
    using get_next_pba_cases [OF r] by auto
  show ?thesis
  proof (cases "full sz h")
    case True
    with h1 obtain d c h2 rc h3 where
      s: "make_callback CB_reap_seg_buf (staged_seg_buf (dev h)) (h\<lparr>dev := d\<rparr>) = Inr (c, h2)"
      "aio_submit IO_PWRITE (start_addr (staged (dev h))) (ucast (segment_size (dev h))) (staged_seg_buf (dev h)) c h2 = Inr (rc, h3)"
      "stage_next_segment h3 = Inr h1"
      by (auto simp: retire_segment_def Let_def res_simps aio_write_def)
    have "cb_pool h3 = cb_pool h2" using s(2) by (auto simp: aio_submit_def Let_def res_simps split: if_splits)
    moreover have "cb_pool h1 = cb_pool h3"
      using s(3) by (auto simp: stage_next_segment_def alloc_seg_buffer_def Let_def mem_alloc_def res_simps split: if_splits)
    moreover have "q_list (cb_pool h2) = tl (q_list (cb_pool h))"
      using s(1) lq.deq_Inr [OF q] by (auto simp: make_callback_def res_simps split: if_splits)
    ultimately show ?thesis using h1(2) by simp
  qed (use h1 in simp)
qed

lemma alloc_memory:
  assumes inv: "log_inv h L" and g: "get_next_pba sz h = Inr (pba, h')" and r: "roomy h"
  shows "(own p h \<longrightarrow> own p h' \<and> cells (mem h') p = cells (mem h) p) \<and> brk (mem h) \<le> brk (mem h') \<and>
     submit_ok h' = submit_ok h \<and> (\<forall>q. cells (mem h) q = None \<and> q < brk (mem h) \<longrightarrow> cells (mem h') q = None)"
proof -
  obtain h1 where h1: "(if full sz h then retire_segment h else Inr h) = Inr h1"
    and h': "h' = h1\<lparr>dev := bump_offset (round_to_grain (grain_unit (dev h1)) sz) (dev h1)\<rparr>"
    using get_next_pba_cases [OF g] by blast
  have po: "pool_ok h" and lay: "dev_inv (dev h)" using inv by (simp_all add: log_inv_def flight_ok_def staged_ok_def)
  show ?thesis
  proof (cases "full sz h")
    case True
    then have rt: "retire_segment h = Inr h1" using h1 by simp
    have sg: "unat (segment_size (dev h)) = SEGMENT_SIZE" using lay by (simp add: dev_inv_def dev_layout_def)
    have ok: "mmap_ok h (n_mmap h)" "submit_ok h (n_submit h)" using r by (simp_all add: roomy_def)
    from retire_effect [OF po sg ok rt] obtain w cb where
      e: "w \<notin> set (submitted h)" "submitted h1 = submitted h @ [w]" 
      "iocb_arr h1 = (iocb_arr h)(w := \<lparr>io_cmd = IO_PWRITE, io_buf = staged_seg_buf (dev h), io_nbytes = SEGMENT_SIZE,
         io_offset = start_addr (staged (dev h)), io_data = cb\<rparr>)"
      "mem h1 = snd (mem_alloc SEGMENT_SIZE (\<lambda>_. 0) (mem h))" "staged_seg_buf (dev h1) = brk (mem h)" by blast
    have "writes h' = writes h1" by (simp add: h' writes_def)
    then have "dev_bufs h' = insert (brk (mem h)) (dev_bufs h)"
      using writes_submit [OF e(1-3)] e(5) by (auto simp: dev_bufs_def h' bump_offset_frame)
    moreover have "submit_ok h1 = submit_ok h"
      using rt by (auto simp: retire_segment_def aio_write_def make_callback_def aio_submit_def Let_def res_simps split: if_splits dest!: stage_next_segment_frame)
    ultimately show ?thesis using e(4) by (auto simp: own_def h' mem_alloc_def)
  next
    case False
    then have h1: "h1 = h" using h1 by simp
    have "writes h' = writes h" by (simp add: h' h1 writes_def)
    then have "dev_bufs h' = dev_bufs h" by (simp add: dev_bufs_def h' h1 bump_offset_frame)
    then show ?thesis by (simp add: own_def h' h1)
  qed
qed

lemma alloc_log:
  assumes inv: "log_inv h L" and g: "get_next_pba sz h = Inr (pba, h')" and sz: "unat sz \<le> SEGMENT_SIZE" and c: "cbs_free (Suc k) h" and r: "roomy h"
  shows "log_step (h, L) (h', if staged_seg (dev h') = staged_seg (dev h) then L else log_forget (staged (dev h')) L)"
    and "in_staged (dev h') pba (grains (unat sz))" and "nr_segment (dev h') = nr_segment (dev h)"
    and "staged_seg (dev h') = staged_seg (dev h) \<Longrightarrow> unat (seg_offset (staged (dev h))) \<le> unat pba * GRAIN_UNIT" and "cbs_free k h'"
proof -
  have st: "staged_ok h" using inv by (simp add: log_inv_def flight_ok_def)
  have ok: "mmap_ok h (n_mmap h)" "submit_ok h (n_submit h)" "next_free h" using r by (simp_all add: roomy_def)
  have ph: "pools_hold (Suc k) h" "pools_hold 1 h" using c by (auto simp: cbs_free_def intro: pools_hold_mono)
  have s: "pools_hold k h'" "nr_segment (dev h') = nr_segment (dev h)"
     "unat pba * GRAIN_UNIT + grains (unat sz) = unat (seg_offset (staged (dev h')))" "unat (start_addr (staged (dev h'))) \<le> unat pba * GRAIN_UNIT"
     "if \<not> full sz h then staged_seg (dev h') = staged_seg (dev h) \<and> unat pba * GRAIN_UNIT = unat (seg_offset (staged (dev h)))
      else staged_seg (dev h') = Suc (staged_seg (dev h)) mod unat (nr_segment (dev h))"
    using get_next_pba_spec [OF st ph(1) ok(1) sz] g full_iff [OF st sz] by (auto simp: not_less split: if_splits)
  have f: "full sz h \<longleftrightarrow> staged_seg (dev h') \<noteq> staged_seg (dev h)" using s(5) ok(3) by (auto simp: next_free_def Let_def split: if_splits)
  show "log_step (h, L) (h', if staged_seg (dev h') = staged_seg (dev h) then L else log_forget (staged (dev h')) L)"
    using log_alloc [OF g sz ph(2) ok(1,2), of L] ok(3) f by (simp split: if_splits)
  show "in_staged (dev h') pba (grains (unat sz))" using s(3,4) by (simp add: in_staged_def)
  show "nr_segment (dev h') = nr_segment (dev h)" by (rule s(2))
  show "unat (seg_offset (staged (dev h))) \<le> unat pba * GRAIN_UNIT" if "staged_seg (dev h') = staged_seg (dev h)" using s(5) f that by simp
  show "cbs_free k h'"
    using s(1) get_next_pba_cb_pool [OF g] c by (auto simp: cbs_free_def pools_hold_def distinct_tl)
qed

text \<open>Writing a block just allocated, and running the callback of the write.\<close>

lemma write_appends:
  assumes inv: "log_inv h L0" and g: "get_next_pba sz h = Inr (pba, h1)" and sz: "unat sz \<le> SEGMENT_SIZE" "unat n * GRAIN_UNIT \<le> grains (unat sz)"
    and c: "cbs_free (Suc k) h" and r: "roomy h" and q: "quiet i h1 h2"
    and w: "dev_abs_write bi_run pba n buf cb h2 = Inr (rc, h')" and b: "cells (mem h2) buf = Some b"
    and own: "own (frees (cbfunc (cb_arr h2 cb)) (cbarg (cb_arr h2 cb)) h2) h2" and cb: "cb \<notin> set (q_list (cb_pool h2))" "cb \<noteq> NULL"
  shows "appends h h' (unat pba * GRAIN_UNIT) (unat n * GRAIN_UNIT) (bdat b)"
proof -
  let ?a = "unat pba * GRAIN_UNIT" and ?n = "unat n * GRAIN_UNIT"
  note al = alloc_log [OF _ g sz(1) c r]
  have d: "dev h2 = dev h1" using q by (simp add: quiet_def)
  have ins: "in_staged (dev h2) pba ?n" using al(2) [OF inv] sz(2) by (simp add: in_staged_def d)
  have "log_inv h1 (if staged_seg (dev h1) = staged_seg (dev h) then L0 else log_forget (staged (dev h1)) L0)"
    using log_step_inv [OF al(1) [OF inv]] inv by simp
  from quiet_log [OF q this] have dv: "dev_inv (dev h2)" by (simp add: log_inv_def flight_ok_def staged_ok_def)
  obtain m where m: "memcpy (staged_seg_buf (dev h2)) (?a - unat (start_addr (staged (dev h2)))) buf 0 ?n (mem h2) = Inr m"
    "run_and_recycle bi_run cb (h2\<lparr>mem := m\<rparr>) = Inr h'"
    using w by (auto simp: dev_abs_write_staged [OF dv ins] res_simps)
  let ?h3 = "h2\<lparr>mem := m\<rparr>"
  have calls: "calls_back (\<lambda>run. dev_abs_write run pba n buf cb h2) cb ?h3"
    using m(1) by (simp add: calls_back_def dev_abs_write_staged [OF dv ins])
  have fr: "frees F x ?h3 = frees F x h2" for F x by (cases F) simp_all
  have "own p ?h3 = own p h2" for p using memcpy_Inr [OF m(1)] by (auto simp: own_def dev_bufs_def)
  with own fr callback_quiet [OF m(2)] cb have q3: "quiet 0 ?h3 h'" by simp
  have "appends h ?h3 ?a ?n (bdat b)"
    unfolding appends_def
  proof (intro conjI impI allI)
    show "nr_segment (dev ?h3) = nr_segment (dev h)" using al(3) [OF inv] d by simp
    show "unat (start_addr (staged (dev ?h3))) \<le> ?a" "?a + ?n \<le> unat (seg_offset (staged (dev ?h3)))" using ins by (simp_all add: in_staged_def)
    show "unat (seg_offset (staged (dev h))) \<le> ?a" if "staged_seg (dev ?h3) = staged_seg (dev h)" using al(4) [OF inv] that d by simp
    fix L assume L: "log_inv h L"
    let ?L = "if staged_seg (dev ?h3) = staged_seg (dev h) then L else log_forget (staged (dev ?h3)) L"
    have a: "log_step (h, L) (h1, ?L)" using al(1) [OF L] d by (simp split: if_splits)
    have "log_inv h1 ?L" using log_step_inv [OF a] L by simp
    with q have "log_step\<^sup>*\<^sup>* (h1, ?L) (h2, ?L)" by (simp add: quiet_def)
    moreover have "log_step (h2, ?L) (?h3, log_put ?a ?n (bdat b) ?L)" by (rule log_write [OF calls ins b])
    ultimately show "log_step\<^sup>*\<^sup>* (h, L) (?h3, log_put ?a ?n (bdat b) ?L)" using a by (meson converse_rtranclp_into_rtranclp rtranclp.rtrancl_into_rtrancl)
  qed
  then show ?thesis using q3 by (rule appends_quiet)
qed
subsection \<open>The passes of a SET\<close>

lemma write_live: "dev_abs_write run pba n buf cb h = Inr x \<Longrightarrow> \<exists>b. cells (mem h) buf = Some b"
  by (auto simp: dev_abs_write_def Let_def res_simps dest!: memcpy_Inr)

lemma log_live_not_null: "log_inv h L \<Longrightarrow> cells (mem h) p = Some b \<Longrightarrow> p \<noteq> NULL"
  by (cases "p = NULL") (simp_all add: log_inv_def flight_ok_def staged_ok_def mem_wf_def)

lemma store_appends:
  fixes h :: "bi_params handler"
  assumes s: "bi_store req e bi h = Inr (rc, bi', h')" and inv: "log_inv h L" and c: "cbs_free 2 h" and r: "roomy h"
    and nr: "unat (nr_segment (dev h)) < 2 ^ 24" and rq: "req_arr h req = rq" and sz: "unat (vlen (rvalue rq)) < SEGMENT_SIZE"
    and own: "own (vvalue (rvalue rq)) h" "cells (mem h) (vvalue (rvalue rq)) = Some b"
    and bk: "bi_buckets bi (bucket_idx (hash_high (rkey rq))) = bk"
  shows "\<exists>pba. bi' = set_bucket (bucket_idx (hash_high (rkey rq))) (put_entry e (bi_new_entry rq (bk e) pba) bk) bi \<and>
     appends h h' (unat pba * GRAIN_UNIT) (unat (vlen (rvalue rq)) div GRAIN_UNIT * GRAIN_UNIT) (with_key (rkey rq) (bdat b)) \<and>
     unat (ucast pba :: 42 word) = unat pba \<and> (ucast pba :: 42 word) \<noteq> BI_PBA_INVALID"
proof -
  let ?v = "vvalue (rvalue rq)" and ?len = "unat (vlen (rvalue rq)) div GRAIN_UNIT"
  let ?n = "ucast (of_nat ?len :: 14 word) :: u32"
  have le: "unat (vlen (rvalue rq)) \<le> SEGMENT_SIZE" using sz by simp
  note f = bi_size_field [OF sz]
  from s obtain pba h1 cb h2 m where
    g: "get_next_pba (vlen (rvalue rq)) h = Inr (pba, h1)" and mk: "make_callback CB_net_end_req req h1 = Inr (cb, h2)"
    and cp: "copy_key_to_value (rkey rq) (rvalue rq) (mem h2) = Inr m"
    and w: "dev_abs_write bi_run (ucast (ucast pba :: 42 word)) ?n ?v cb (h2\<lparr>mem := m\<rparr>) = Inr (rc, h')"
    and bi': "bi' = set_bucket (bucket_idx (hash_high (rkey rq))) (put_entry e (bi_new_entry rq (bk e) pba) bk) bi"
    unfolding bi_store_def Let_def rq bk f(1) by (auto simp: res_simps bi_new_entry_def dev_abs_write_def Let_def)
  note mem = alloc_memory [OF inv g r, of ?v]
  have c': "cbs_free (Suc 1) h" using c by (simp add: numeral_2_eq_2)
  note al = alloc_log [OF inv g le c' r]
  note q = make_callback_quiet [OF mk]
  have nn: "?v \<noteq> NULL" using log_live_not_null [OF inv own(2)] .
  have b2: "cells (mem h2) ?v = Some b" using mem own q(3) by simp
  have "Suc (unat (klen (rkey rq))) \<le> blen b"
    using copy_key_to_value_short [OF b2 nn, of "rkey rq"] cp by (cases "blen b < Suc (unat (klen (rkey rq)))") simp_all
  from copy_key_to_value_ok [OF b2 nn this] cp have m: "m = (mem h2)\<lparr>cells := (cells (mem h2))(?v \<mapsto> b\<lparr>bdat := with_key (rkey rq) (bdat b)\<rparr>)\<rparr>" by simp
  have o2: "own ?v h2" using quiet_own [OF q(1)] mem own(1) by simp
  have q2: "quiet 0 h2 (h2\<lparr>mem := m\<rparr>)"
    by (rule own_mem_quiet [OF o2]) (use mem_live_lt [of "mem h2" ?v] b2 nn in \<open>auto simp: m mem_wf_def\<close>)
  have qq: "quiet 1 h1 (h2\<lparr>mem := m\<rparr>)" using quiet_trans [OF q(1) q2] by simp
  have st: "staged_ok h1" using log_step_inv [OF al(1)] inv by (simp add: log_inv_def flight_ok_def split: if_splits)
  have nr1: "unat (nr_segment (dev h1)) < 2 ^ 24" using al(3) nr by simp
  note pf = bi_pba_field [OF st al(2) nr1]
  have n: "unat ?n * GRAIN_UNIT \<le> grains (unat (vlen (rvalue rq)))"
    unfolding f(2) using grains_ge [of "unat (vlen (rvalue rq))"] div_times_less_eq_dividend [of "unat (vlen (rvalue rq))" GRAIN_UNIT] by linarith
  have rq2: "req_arr h2 req = rq" 
    using q(2) get_next_pba_ext g rq by (auto simp: get_next_pba_def retire_segment_def aio_write_def make_callback_def aio_submit_def Let_def res_simps
      split: if_splits dest!: stage_next_segment_frame)
  have b3: "cells (mem (h2\<lparr>mem := m\<rparr>)) ?v = Some (b\<lparr>bdat := with_key (rkey rq) (bdat b)\<rparr>)" by (simp add: m)
  have o3: "own (frees (cbfunc (cb_arr (h2\<lparr>mem := m\<rparr>) cb)) (cbarg (cb_arr (h2\<lparr>mem := m\<rparr>) cb)) (h2\<lparr>mem := m\<rparr>)) (h2\<lparr>mem := m\<rparr>)"
    using quiet_own [OF q2 o2] q(4) rq2 by simp
  have "cb \<notin> set (q_list (cb_pool (h2\<lparr>mem := m\<rparr>)))" using q(5) [OF al(5)] by simp
  from write_appends [OF inv g le n c' r qq w [unfolded pf(1)] b3 o3 this q(6)]
  have "appends h h' (unat pba * GRAIN_UNIT) (?len * GRAIN_UNIT) (with_key (rkey rq) (bdat b))" unfolding f(2) by simp
  moreover have "unat (ucast pba :: 42 word) = unat (ucast (ucast pba :: 42 word) :: u64)"
    using unsigned_less [of "ucast pba :: 42 word", where ?'a = nat] by (subst unat_ucast_small) simp_all
  then have "unat (ucast pba :: 42 word) = unat pba" unfolding pf(1) .
  ultimately show ?thesis using bi' pf(2) by blast
qed
lemma update_part_table_mem:
  assumes "update_part_table t base bks m = Inr (bks', m')"
  shows "(\<forall>q. q \<noteq> t \<longrightarrow> cells m' q = cells m q) \<and> brk m' = brk m \<and> (mem_wf m \<longrightarrow> mem_wf m')"
proof -
  have "m' = m \<or> (\<exists>buf f. mem_buf m t = Inr buf \<and> m' = m\<lparr>cells := (cells m)(t \<mapsto> buf\<lparr>bdat := f\<rparr>)\<rparr>)"
    using assms by (auto simp: update_part_table_def persist_entries_eq [OF part_slots_distinct] res_simps split: if_splits option.splits)
  then consider "m' = m" | buf f where "mem_buf m t = Inr buf" "m' = m\<lparr>cells := (cells m)(t \<mapsto> buf\<lparr>bdat := f\<rparr>)\<rparr>" by blast
  then show ?thesis
  proof cases
    case (2 buf f)
    then have "t \<noteq> NULL" "cells m t = Some buf" by (auto simp: mem_buf_def split: if_splits option.splits)
    moreover have "t < brk m" if "mem_wf m" using mem_live_lt [OF that] \<open>cells m t = Some buf\<close> by simp
    ultimately show ?thesis using 2(2) by (auto simp: mem_wf_def)
  qed simp
qed

text \<open>Writing a partition table that the request, or nobody, holds: the callback frees it.\<close>

lemma table_appends:
  fixes h :: "bi_params handler"
  assumes inv: "log_inv h L" and u: "update_part_table t base bks (mem h) = Inr (bks', m)" and mk: "make_callback F a (h\<lparr>mem := m\<rparr>) = Inr (cb, h1)"
    and g: "get_next_pba (of_nat PART_TABLE_SIZE) h1 = Inr (pba, h2)"
    and w: "dev_abs_write bi_run (ucast (ucast pba :: 42 word)) (of_nat PART_TABLE_GRAINS) t cb h2 = Inr (rc, h')"
    and t: "own t h" "frees F a h = t" and c: "cbs_free 3 h" and r: "roomy h" and nr: "unat (nr_segment (dev h)) < 2 ^ 24"
  shows "\<exists>x n f. appends h h' x n f"
proof -
  let ?h = "h\<lparr>mem := m\<rparr>" and ?sz = "of_nat PART_TABLE_SIZE :: u32" and ?n = "of_nat PART_TABLE_GRAINS :: u32"
  have q0: "quiet 0 h ?h" by (rule own_mem_quiet [OF t(1)]) (use update_part_table_mem [OF u] in auto)
  note q1 = make_callback_quiet [OF mk]
  have q: "quiet 1 h h1" using quiet_trans [OF q0 q1(1)] by simp
  note inv1 = quiet_log [OF q inv]
  have c1: "cbs_free (Suc 1) h1" using quiet_cbs [OF q, of 2] c by (simp add: numeral_2_eq_2 numeral_3_eq_3)
  have c0: "cbs_free 3 ?h" using quiet_cbs [OF q0, of 3] c by simp
  have r1: "roomy h1" using quiet_roomy [OF q] r by simp
  have nr1: "unat (nr_segment (dev h1)) < 2 ^ 24" using q nr by (simp add: quiet_def)
  have sz: "unat ?sz \<le> SEGMENT_SIZE" "unat ?n * GRAIN_UNIT \<le> grains (unat ?sz)" by (simp_all add: bi_config config_defs grains_def)
  note al = alloc_log [OF inv1 g sz(1) c1 r1]
  have st: "staged_ok h2" using log_step_inv [OF al(1)] inv1 by (simp add: log_inv_def flight_ok_def split: if_splits)
  have nr2: "unat (nr_segment (dev h2)) < 2 ^ 24" using al(3) nr1 by simp
  note pf = bi_pba_field [OF st al(2) nr2]
  obtain b where b: "cells (mem h2) t = Some b" using write_live [OF w] by blast
  have cb1: "cb \<notin> set (q_list (cb_pool h1))" "q_inv (cb_pool h1)" using q1(5) [OF c0] c1 by (simp_all add: cbs_free_def pools_hold_def)
  have cba: "cb_arr h2 cb = \<lparr>cbfunc = F, cbarg = a, cbiocb = NULL\<rparr>" using get_next_pba_cb_arr [OF g cb1(2,1)] q1(4) by simp
  have cb2: "cb \<notin> set (q_list (cb_pool h2))" using get_next_pba_cb_pool [OF g cb1(2)] cb1(1) by (cases "q_list (cb_pool h1)") auto
  have "same_requests h1 h2"
    using get_next_pba_frame [OF g] inv1 r1 by (simp add: log_inv_def flight_ok_def staged_ok_def roomy_def)
  then have "frees F a h2 = frees F a h" by (cases F) (simp_all add: same_requests_def q1(2))
  moreover have "own t h2" using quiet_own [OF q t(1)] alloc_memory [OF inv1 g r1, of t] by simp
  ultimately have o2: "own (frees (cbfunc (cb_arr h2 cb)) (cbarg (cb_arr h2 cb)) h2) h2" using cba t(2) by simp
  from write_appends [OF inv1 g sz c1 r1 quiet_refl w [unfolded pf(1)] b o2 cb2 q1(6)] have
    "appends h1 h' (unat pba * GRAIN_UNIT) (unat ?n * GRAIN_UNIT) (bdat b)" .
  from quiet_appends [OF q this] show ?thesis by blast
qed

text \<open>A pass either leaves the log alone or appends to it.\<close>

definition logged :: "'p handler \<Rightarrow> 'p handler \<Rightarrow> bool" where
  "logged h h' \<longleftrightarrow> (\<exists>n. quiet n h h') \<or> (\<exists>a n f. appends h h' a n f)"

lemma quiet_logged: "quiet n h h1 \<Longrightarrow> logged h1 h2 \<Longrightarrow> logged h h2"
  using quiet_trans quiet_appends unfolding logged_def by blast

lemma write_ptable_logged:
  fixes h :: "bi_params handler"
  assumes s: "bi_write_ptable req bi h = Inr (rc, bi', h')" and inv: "log_inv h L" and t: "own (temp_buf (req_arr h req)) h"
    and c: "cbs_free 3 h" and r: "roomy h" and nr: "unat (nr_segment (dev h)) < 2 ^ 24"
  shows "logged h h'"
proof -
  from s obtain bks m cb h1 pba h2 t where
    "update_part_table (temp_buf (req_arr h req)) (part_base (hash_high (rkey (req_arr h req)))) (bi_buckets bi) (mem h) = Inr (bks, m)"
    "make_callback CB_part_table_write req (h\<lparr>mem := m\<rparr>) = Inr (cb, h1)" "get_next_pba (of_nat PART_TABLE_SIZE) h1 = Inr (pba, h2)"
    "dev_abs_write bi_run (ucast (ucast pba :: 42 word)) (of_nat PART_TABLE_GRAINS) (temp_buf (req_arr h req)) cb h2 = Inr (t, h')"
    by (auto simp: bi_write_ptable_def Let_def res_simps)
  from table_appends [OF inv this t _ c r nr] show ?thesis by (simp add: logged_def)
qed
text \<open>
  What a pass of the index asks of its environment: callbacks and control blocks, system calls that succeed, a next segment that is on the disk, a
  device of fewer than \<open>2\<^sup>2\<^sup>4\<close> segments, and a request whose buffers are its own.
\<close>

definition pass_ok :: "ptr \<Rightarrow> bi_params handler \<Rightarrow> bool" where
  "pass_ok req h \<longleftrightarrow> cbs_free 5 h \<and> roomy h \<and> unat (nr_segment (dev h)) < 2 ^ 24 \<and> own (vvalue (rvalue (req_arr h req))) h \<and>
     cells (mem h) (vvalue (rvalue (req_arr h req))) \<noteq> None \<and> own (temp_buf (req_arr h req)) h \<and> unat (vlen (rvalue (req_arr h req))) < SEGMENT_SIZE"

lemma ensure_params_quiet:
  assumes "bi_ensure_params req h = (p, h0)"
  shows "quiet 0 h h0" "rkey (req_arr h0 req) = rkey (req_arr h req)" "rvalue (req_arr h0 req) = rvalue (req_arr h req)"
    "temp_buf (req_arr h0 req) = temp_buf (req_arr h req)" "mem h0 = mem h" "cb_pool h0 = cb_pool h"
  using assms set_params_quiet by (auto simp: bi_ensure_params_def set_params_def split: option.splits)

lemma quiet_pass_ok:
  assumes q: "quiet 0 h h0" and "rvalue (req_arr h0 req) = rvalue (req_arr h req)" "temp_buf (req_arr h0 req) = temp_buf (req_arr h req)" "mem h0 = mem h"
    and "pass_ok req h"
  shows "pass_ok req h0"
  using assms quiet_own [OF q] quiet_roomy [OF q] quiet_cbs [OF q, of 5] by (auto simp: pass_ok_def quiet_def)

lemma pass_ok_mono: "pass_ok req h \<Longrightarrow> n \<le> 5 \<Longrightarrow> cbs_free n h"
  by (auto simp: pass_ok_def intro: cbs_free_mono)

text \<open>Allocating the buffer of a partition table for a request.\<close>

lemma table_buf_quiet:
  assumes a: "mem_alloc n c (mem h) = (t, m)" and inv: "log_inv h L"
  shows "quiet 0 h (set_temp_buf req t (h\<lparr>mem := m\<rparr>))" "own t (set_temp_buf req t (h\<lparr>mem := m\<rparr>))"
    "cells (mem (set_temp_buf req t (h\<lparr>mem := m\<rparr>))) t \<noteq> None"
proof -
  note q = mem_alloc_quiet [OF a] and q2 = set_temp_buf_quiet [of "h\<lparr>mem := m\<rparr>" req t]
  show "quiet 0 h (set_temp_buf req t (h\<lparr>mem := m\<rparr>))" using quiet_trans [OF q(1) q2] by simp
  show "own t (set_temp_buf req t (h\<lparr>mem := m\<rparr>))" by (rule quiet_own [OF q2 q(2) [OF inv]])
  show "cells (mem (set_temp_buf req t (h\<lparr>mem := m\<rparr>))) t \<noteq> None" using q(3) by (simp add: set_temp_buf_def)
qed

text \<open>Reading a partition table.\<close>

lemma table_read_quiet:
  fixes h :: "bi_params handler"
  assumes a: "mem_alloc n c (mem h) = (t, m)" and mk: "make_callback CB_part_table_read req (set_temp_buf req t (h\<lparr>mem := m\<rparr>)) = Inr (cb, h1)"
    and rd: "dev_abs_read bi_run pba k t cb h1 = Inr (rc, h')" and inv: "log_inv h L" and ok: "pass_ok req h"
  shows "quiet 2 h h'"
proof -
  note q = table_buf_quiet [OF a inv, of req]
  note inv2 = quiet_log [OF q(1) inv]
  have "\<forall>k. submit_ok (set_temp_buf req t (h\<lparr>mem := m\<rparr>)) k" using q(1) ok by (simp add: quiet_def pass_ok_def roomy_def)
  moreover have "cbs_free 1 (set_temp_buf req t (h\<lparr>mem := m\<rparr>))" using quiet_cbs [OF q(1), of 1] pass_ok_mono [OF ok, of 1] by simp
  ultimately have "quiet 2 (set_temp_buf req t (h\<lparr>mem := m\<rparr>)) h'"
    using read_quiet [OF mk rd q(2,3) _ _ _ inv2] own_null [OF inv2] by simp
  from quiet_trans [OF q(1) this] show ?thesis by (simp add: numeral_2_eq_2)
qed

lemma get_entry_logged:
  fixes h :: "bi_params handler"
  assumes s: "bi_get_entry req bi h = Inr (rc, bi', h')" and inv: "log_inv h L" and ok: "pass_ok req h"
  shows "logged h h'"
proof -
  let ?hh = "hash_high (rkey (req_arr h req))"
  show ?thesis
  proof (cases "get_target_entry (bi_buckets bi (bucket_idx ?hh)) (hash_low (rkey (req_arr h req)))")
    case (Some e)
    with s have st: "bi_store req e bi h = Inr (rc, bi', h')" by (simp add: bi_get_entry_def Let_def)
    have p: "roomy h" "unat (nr_segment (dev h)) < 2 ^ 24" "unat (vlen (rvalue (req_arr h req))) < SEGMENT_SIZE"
      "own (vvalue (rvalue (req_arr h req))) h" "cells (mem h) (vvalue (rvalue (req_arr h req))) \<noteq> None" using ok by (simp_all add: pass_ok_def)
    from p(5) obtain b where b: "cells (mem h) (vvalue (rvalue (req_arr h req))) = Some b" by blast
    from store_appends [OF st inv pass_ok_mono [OF ok, of 2] p(1,2) refl p(3,4) b refl] show ?thesis by (auto simp: logged_def)
  next
    case None
    show ?thesis
    proof (cases "ppba (bi_parts bi (part_idx ?hh)) = BI_PBA_INVALID")
      case True
      obtain t m where a: "mem_alloc PART_TABLE_SIZE pt_empty (mem h) = (t, m)" by fastforce
      let ?h = "set_temp_buf req t (h\<lparr>mem := m\<rparr>)"
      from None True s a have w: "bi_write_ptable req bi ?h = Inr (rc, bi', h')" by (simp add: bi_get_entry_def Let_def)
      note q = table_buf_quiet [OF a inv, of req]
      have "temp_buf (req_arr ?h req) = t" by (simp add: set_temp_buf_def)
      then have "logged ?h h'"
        using write_ptable_logged [OF w quiet_log [OF q(1) inv]] q(2) quiet_cbs [OF q(1), of 3] pass_ok_mono [OF ok, of 3] quiet_roomy [OF q(1)] ok q(1)
        by (simp add: pass_ok_def quiet_def)
      with q(1) show ?thesis by (rule quiet_logged)
    next
      case False
      obtain t m where a: "mem_alloc PART_TABLE_SIZE (uninit (brk (mem h))) (mem h) = (t, m)" by fastforce
      from None False s a obtain cb h1 x where "make_callback CB_part_table_read req (set_temp_buf req t (h\<lparr>mem := m\<rparr>)) = Inr (cb, h1)"
        "dev_abs_read bi_run (ucast (ppba (bi_parts bi (part_idx ?hh)))) (of_nat PART_TABLE_GRAINS) t cb h1 = Inr (x, h')"
        by (auto simp: bi_get_entry_def Let_def res_simps)
      from table_read_quiet [OF a this inv ok] show ?thesis by (auto simp: logged_def)
    qed
  qed
qed

lemma set_logged:
  fixes h :: "bi_params handler"
  assumes s: "bigkv_index_set req bi h = Inr (rc, bi', h')" and inv: "log_inv h L" and ok: "pass_ok req h"
  shows "logged h h'"
proof -
  obtain p h0 where p: "bi_ensure_params req h = (p, h0)" by fastforce
  note q = ensure_params_quiet [OF p]
  note inv0 = quiet_log [OF q(1) inv] and ok0 = quiet_pass_ok [OF q(1,3-5) ok]
  from s p consider "bi_write_ptable req bi h0 = Inr (rc, bi', h')" | "bi_get_entry req bi h0 = Inr (rc, bi', h')" | "retry_req req h0 = Inr h'"
    by (auto simp: bigkv_index_set_def res_simps split: bi_step.splits if_splits)
  then have "logged h0 h'"
  proof cases
    case 1
    then show ?thesis using write_ptable_logged [OF 1 inv0] ok0 pass_ok_mono [OF ok0, of 3] by (simp add: pass_ok_def)
  next
    case 2
    then show ?thesis using get_entry_logged [OF 2 inv0 ok0] by simp
  next
    case 3
    then show ?thesis using retry_req_quiet by (auto simp: logged_def)
  qed
  with q(1) show ?thesis by (rule quiet_logged)
qed

subsection \<open>The passes of a GET\<close>

lemma target_retry_logged:
  fixes h :: "bi_params handler"
  assumes s: "get_target_retry hh fp ef t bi h = Inr (rc, bi', h')" and inv: "log_inv h L" and t: "own t h"
    and c: "cbs_free 3 h" and r: "roomy h" and nr: "unat (nr_segment (dev h)) < 2 ^ 24"
  shows "logged h h'"
proof (cases "get_target_entry (bi_buckets bi (bucket_idx hh)) fp")
  case (Some e)
  with s obtain m where m: "(if t \<noteq> NULL then mem_free t (mem h) else Inr (mem h)) = Inr m" "h' = h\<lparr>mem := m\<rparr>"
    by (subst (asm) get_target_retry.simps) (auto simp: Let_def res_simps simp del: if_split)
  then have "aside h h'" using mem_free_aside [OF _ t] by (auto simp: aside_def split: if_splits)
  then have "quiet 0 h h'" using m(2) by (intro aside_quiet0) simp_all
  then show ?thesis by (auto simp: logged_def)
next
  case None
  with s obtain bks m cb h1 pba h2 x h3 bi2 where
    u: "update_part_table t (part_base hh) (bi_buckets bi) (mem h) = Inr (bks, m)"
      "make_callback CB_part_table_write_for_get t (h\<lparr>mem := m\<rparr>) = Inr (cb, h1)" "get_next_pba (of_nat PART_TABLE_SIZE) h1 = Inr (pba, h2)"
      "dev_abs_write bi_run (ucast (ucast pba :: 42 word)) (of_nat PART_TABLE_GRAINS) t cb h2 = Inr (x, h3)"
    and n: "get_target_retry hh fp ef NULL bi2 h3 = Inr (rc, bi', h')"
    by (subst (asm) get_target_retry.simps) (auto simp: res_simps)
  have "h' = h3"
  proof (cases "get_target_entry (bi_buckets bi2 (bucket_idx hh)) fp")
    case None
    with n show ?thesis by (subst (asm) get_target_retry.simps) (auto simp: res_simps dev_abs_write_null)
  next
    case (Some e)
    with n show ?thesis by (subst (asm) get_target_retry.simps) (auto simp: Let_def)
  qed
  with table_appends [OF inv u t _ c r nr] show ?thesis by (simp add: logged_def)
qed

lemma get_logged:
  fixes h :: "bi_params handler"
  assumes s: "bigkv_index_get req bi h = Inr (rc, bi', h')" and inv: "log_inv h L" and ok: "pass_ok req h"
  shows "logged h h'"
proof -
  obtain p h0 where p: "bi_ensure_params req h = (p, h0)" by fastforce
  note q = ensure_params_quiet [OF p]
  note inv0 = quiet_log [OF q(1) inv] and ok0 = quiet_pass_ok [OF q(1,3-5) ok]
  let ?r = "req_arr h0 req"
  let ?b = "bi_buckets bi (bucket_idx (hash_high (rkey ?r)))"
  have o: "own (vvalue (rvalue ?r)) h0" "cells (mem h0) (vvalue (rvalue ?r)) \<noteq> None" "\<forall>k. submit_ok h0 k" "cbs_free 1 h0"
    using ok0 pass_ok_mono [OF ok0, of 1] by (simp_all add: pass_ok_def roomy_def)
  have "logged h0 h'"
  proof (cases "read_step p = BI_STEP_UPDATE_TABLE")
    case True
    with s p have u: "bi_update_table req bi h0 = Inr (rc, bi', h')" by (simp add: bigkv_index_get_def)
    show ?thesis
    proof (cases "h' = h0")
      case False
      with u obtain ef cb h1 x h2 where mk: "make_callback CB_keycmp req (set_temp_buf req NULL h0) = Inr (cb, h1)"
        "dev_abs_read bi_run (ucast (f_pba ef)) (ucast (f_kv_size ef)) (vvalue (rvalue ?r)) cb h1 = Inr (x, h2)"
        and gt: "get_target_retry (hash_high (rkey ?r)) (hash_low (rkey ?r)) ef (temp_buf ?r) bi h2 = Inr (rc, bi', h')"
        by (auto simp: bi_update_table_def Let_def res_simps split: if_splits option.splits)
      let ?h = "set_temp_buf req NULL h0"
      have q1: "quiet 0 h0 ?h" by (rule set_temp_buf_quiet)
      have "own (vvalue (rvalue ?r)) ?h" "own (frees CB_keycmp req ?h) ?h" using quiet_own [OF q1 o(1)] by (simp_all add: set_temp_buf_def)
      moreover have "cells (mem ?h) (vvalue (rvalue ?r)) \<noteq> None" "\<forall>k. submit_ok ?h k" using o by (simp_all add: set_temp_buf_def)
      ultimately have "quiet 2 ?h h2" using read_quiet [OF mk _ _ _ _ _ quiet_log [OF q1 inv0]] quiet_cbs [OF q1, of 1] o(4) by simp
      from quiet_trans [OF q1 this] have q2: "quiet 2 h0 h2" by (simp add: numeral_2_eq_2)
      have "own (temp_buf ?r) h2" "roomy h2" "unat (nr_segment (dev h2)) < 2 ^ 24" "cbs_free 3 h2"
        using quiet_own [OF q2] quiet_roomy [OF q2] q2 ok0 quiet_cbs [OF q2, of 3] by (simp_all add: pass_ok_def quiet_def)
      from target_retry_logged [OF gt quiet_log [OF q2 inv0] this(1,4,2,3)] q2 show ?thesis by (rule quiet_logged [rotated])
    qed (auto simp: logged_def)
  next
    case False
    show ?thesis
    proof (cases "get_match_entry ?b (hash_low (rkey ?r))")
      case (Some e)
      with False s p obtain cb h1 x where "make_callback CB_keycmp req h0 = Inr (cb, h1)"
        "dev_abs_read bi_run (ucast (bpba (?b e))) (ucast (bkv_size (?b e))) (vvalue (rvalue ?r)) cb h1 = Inr (x, h')"
        by (auto simp: bigkv_index_get_def Let_def res_simps)
      from read_quiet [OF this o(1,2) _ o(4,3) inv0] o(1) show ?thesis by (auto simp: logged_def)
    next
      case None
      obtain t m where a: "mem_alloc PART_TABLE_SIZE (uninit (brk (mem h0))) (mem h0) = (t, m)" by fastforce
      from None False s a p obtain cb h1 x where "make_callback CB_part_table_read req (set_temp_buf req t (h0\<lparr>mem := m\<rparr>)) = Inr (cb, h1)"
        "dev_abs_read bi_run (ucast (ppba (bi_parts bi (part_idx (hash_high (rkey ?r)))))) (of_nat PART_TABLE_GRAINS) t cb h1 = Inr (x, h')"
        by (auto simp: bigkv_index_get_def Let_def res_simps)
      from table_read_quiet [OF a this inv0 ok0] show ?thesis by (auto simp: logged_def)
    qed
  qed
  with q(1) show ?thesis by (rule quiet_logged)
qed

end
