(* ===== verification/Kv_Store.thy ===== *)
theory Kv_Store
  imports Bigkv_Log
begin

section \<open>The store: index, log and disk together\<close>

text \<open>
  The BigKV index with the log below it is a map from keys to pairs. A key is known to the index by its bucket and its fingerprint; the abstract map has, for each of them, the
  address of the pair that was stored last and its bytes. Pairs leave the map when their key is set again, when their entry is replaced in the bucket, and
  when the log comes back to their segment. The theory follows the map through every pass of \<open>bigkv_index_set\<close> and \<open>bigkv_index_get\<close>, the completions of the kernel and the
  steps of the rest of the program, and shows that the index leads to the bytes in the map: in the staging buffer or on the disk.
\<close>

subsection \<open>The abstract map\<close>

type_synonym kv_map = "nat \<times> u64 \<rightharpoonup> 42 word \<times> byte list"

definition kv_key :: "'p request \<Rightarrow> nat \<times> u64" where
  "kv_key r = (bucket_idx (hash_high (rkey r)), hash_low (rkey r))"

text \<open>The bytes a SET stores: the length of the key, the key, then the value, in whole grains.\<close>

definition pair_bytes :: "ptr \<Rightarrow> 'p handler \<Rightarrow> byte list" where
  "pair_bytes req h =
     (let r = req_arr h req
      in map (with_key (rkey r) (bdat (the (cells (mem h) (vvalue (rvalue r)))))) [0..<unat (vlen (rvalue r)) div GRAIN_UNIT * GRAIN_UNIT])"

text \<open>What is left of the map after a pass: the pairs whose entry is in its bucket and whose segment was not staged again.\<close>

definition kept :: "bigkv_index \<Rightarrow> 'p handler \<Rightarrow> 'p handler \<Rightarrow> kv_map \<Rightarrow> kv_map" where
  "kept bi' h h' G = (\<lambda>(i, fp). case G (i, fp) of None \<Rightarrow> None
     | Some (pba, bs) \<Rightarrow> if get_match_entry (bi_buckets bi' i) fp = None \<or> recycled h h' (unat pba * GRAIN_UNIT) then None else Some (pba, bs))"

text \<open>The entry a pass of a SET stores its pair in, if this is the pass that does.\<close>

definition set_target :: "ptr \<Rightarrow> bigkv_index \<Rightarrow> bi_params handler \<Rightarrow> nat option" where
  "set_target req bi h =
     (let r = req_arr h req; hh = hash_high (rkey r);
          p = (case params r of Some p \<Rightarrow> p | None \<Rightarrow> make_bi_params)
      in if write_step p = BI_STEP_WRITE_PTABLE \<or> write_step p \<noteq> BI_STEP_WRITE_KV \<and> pflying (bi_parts bi (part_idx hh)) then None
         else get_target_entry (bi_buckets bi (bucket_idx hh)) (hash_low (rkey r)))"

definition set_map :: "ptr \<Rightarrow> bigkv_index \<Rightarrow> bi_params handler \<Rightarrow> bigkv_index \<Rightarrow> bi_params handler \<Rightarrow> kv_map \<Rightarrow> kv_map" where
  "set_map req bi h bi' h' G =
     (case set_target req bi h of
        Some e \<Rightarrow> if hash_low (rkey (req_arr h req)) = 0 then kept bi' h h' G
          else (kept bi' h h' G)(kv_key (req_arr h req) \<mapsto> (bpba (bi_buckets bi' (bucket_idx (hash_high (rkey (req_arr h req)))) e), pair_bytes req h))
      | None \<Rightarrow> kept bi' h h' G)"

text \<open>The second pass of a GET that finds its key in the partition table puts what it finds there into the bucket.\<close>

definition loads :: "ptr \<Rightarrow> bi_params handler \<Rightarrow> bool" where
  "loads req h =
     (let r = req_arr h req
      in case params r of None \<Rightarrow> False
         | Some p \<Rightarrow> read_step p = BI_STEP_UPDATE_TABLE \<and>
             (case cells (mem h) (temp_buf r) of None \<Rightarrow> False | Some buf \<Rightarrow> get_match_entry_f (bdat buf) (hash_low (rkey r)) \<noteq> None))"

definition get_map :: "ptr \<Rightarrow> bi_params handler \<Rightarrow> bigkv_index \<Rightarrow> bi_params handler \<Rightarrow> kv_map \<Rightarrow> kv_map" where
  "get_map req h bi' h' G = (if loads req h then (kept bi' h h' G)(kv_key (req_arr h req) := None) else kept bi' h h' G)"

inductive kv_step :: "bigkv_index \<times> bi_params handler \<times> kv_map \<Rightarrow> bigkv_index \<times> bi_params handler \<times> kv_map \<Rightarrow> bool" where
  kv_set: "bigkv_index_set req bi h = Inr (rc, bi', h') \<Longrightarrow> pass_ok req h \<Longrightarrow> kv_step (bi, h, G) (bi', h', set_map req bi h bi' h' G)"
| kv_get: "bigkv_index_get req bi h = Inr (rc, bi', h') \<Longrightarrow> pass_ok req h \<Longrightarrow> kv_step (bi, h, G) (bi', h', get_map req h bi' h' G)"
| kv_complete: "w \<in> set (submitted h) \<Longrightarrow> kernel_io w h = (ev, h') \<Longrightarrow> kv_step (bi, h, G) (bi, io_getevent ev h', G)"
| kv_env: "env_step h h' \<Longrightarrow> kv_step (bi, h, G) (bi, h', G)"

subsection \<open>Buckets without a fingerprint twice\<close>

definition fps_distinct :: "bi_bucket \<Rightarrow> bool" where
  "fps_distinct b \<longleftrightarrow> (\<forall>i < NR_SET. \<forall>j < NR_SET. fingerprint (b i) = fingerprint (b j) \<and> fingerprint (b i) \<noteq> 0 \<longrightarrow> i = j)"

lemma match_iff:
  assumes "fps_distinct b" and "fp \<noteq> 0"
  shows "get_match_entry b fp = Some e \<longleftrightarrow> e < NR_SET \<and> bi_valid (b e) \<and> fingerprint (b e) = fp"
proof
  assume e: "e < NR_SET \<and> bi_valid (b e) \<and> fingerprint (b e) = fp"
  then have "get_match_entry b fp \<noteq> None" by (auto simp: get_match_entry_None)
  then obtain e' where e': "get_match_entry b fp = Some e'" by blast
  with get_match_entry_Some [OF e'] e assms show "get_match_entry b fp = Some e" by (auto simp: fps_distinct_def)
qed (rule get_match_entry_Some)

lemma target_other:
  assumes "fps_distinct b" "get_target_entry b fp = Some e" "fp \<noteq> 0" "i < NR_SET" "i \<noteq> e"
  shows "fingerprint (b i) \<noteq> fp"
  using get_target_entry_cases [OF assms(2)] assms by (auto simp: fps_distinct_def)

lemma put_distinct:
  assumes d: "fps_distinct b" and e: "get_target_entry b fp = Some e" and v: "fingerprint v = fp"
  shows "fps_distinct (put_entry e v b)"
  unfolding fps_distinct_def put_entry_valid(3)
proof (intro allI impI)
  fix i j assume "i < NR_SET" "j < NR_SET" "(if i = e then fingerprint v else fingerprint (b i)) = (if j = e then fingerprint v else fingerprint (b j)) \<and>
    (if i = e then fingerprint v else fingerprint (b i)) \<noteq> 0"
  then show "i = j" using d target_other [OF d e, of i] target_other [OF d e, of j] v by (auto simp: fps_distinct_def split: if_splits)
qed

lemma put_match:
  assumes d: "fps_distinct b" and e: "get_target_entry b fp = Some e" and v: "fingerprint v = fp" and fp: "fp' \<noteq> fp" "fp' \<noteq> 0"
    and m: "get_match_entry b fp' = Some e0"
  shows "get_match_entry (put_entry e v b) fp' = (if e0 = e then None else Some e0)"
proof -
  note d' = put_distinct [OF d e v]
  have e0: "e0 < NR_SET" "bi_valid (b e0)" "fingerprint (b e0) = fp'" using m match_iff [OF d fp(2)] by simp_all
  show ?thesis
  proof (cases "e0 = e")
    case True
    have "fingerprint (put_entry e v b i) \<noteq> fp'" if "i < NR_SET" for i
      using that True e0 fp d v unfolding put_entry_valid(3) by (auto simp: fps_distinct_def)
    then show ?thesis using True by (simp add: get_match_entry_None)
  next
    case False
    with e0 show ?thesis by (simp add: match_iff [OF d' fp(2)] put_entry_valid)
  qed
qed

text \<open>A dirty entry of another key is never the one replaced.\<close>

lemma put_match_dirty:
  assumes d: "fps_distinct b" and e: "get_target_entry b fp = Some e" and v: "fingerprint v = fp" and fp: "fp' \<noteq> fp" "fp' \<noteq> 0"
    and m: "get_match_entry b fp' = Some e0" "dirty_bit (b e0)"
  shows "get_match_entry (put_entry e v b) fp' = Some e0"
proof -
  have "e0 \<noteq> e" using get_target_entry_cases [OF e] match_iff [OF d fp(2), of e0] m fp(1) by auto
  with put_match [OF d e v fp m(1)] show ?thesis by simp
qed
subsection \<open>What the passes do to the entries\<close>

definition distinct_fps :: "bigkv_index \<Rightarrow> bool" where
  "distinct_fps bi \<longleftrightarrow> (\<forall>i. fps_distinct (bi_buckets bi i))"

text \<open>Two indexes whose entries differ in their dirty and LRU bits only.\<close>

definition same_entries :: "bigkv_index \<Rightarrow> bigkv_index \<Rightarrow> bool" where
  "same_entries bi bi' \<longleftrightarrow> (\<forall>i e. fingerprint (bi_buckets bi' i e) = fingerprint (bi_buckets bi i e) \<and> bpba (bi_buckets bi' i e) = bpba (bi_buckets bi i e) \<and>
     bkv_size (bi_buckets bi' i e) = bkv_size (bi_buckets bi i e))"

text \<open>
  \<open>keeps_entries k bi bi'\<close>: every entry of another key than \<open>k\<close> is in its bucket with its address and size, or has left it; a dirty one is still there
  if \<open>dirty\<close> holds.
\<close>

definition keeps_entries :: "bool \<Rightarrow> (nat \<times> u64) option \<Rightarrow> bigkv_index \<Rightarrow> bigkv_index \<Rightarrow> bool" where
  "keeps_entries dirty k bi bi' \<longleftrightarrow> distinct_fps bi' \<and>
     (\<forall>i fp e. Some (i, fp) \<noteq> k \<and> fp \<noteq> 0 \<and> get_match_entry (bi_buckets bi i) fp = Some e \<longrightarrow>
        (\<exists>e'. get_match_entry (bi_buckets bi' i) fp = Some e' \<and> bpba (bi_buckets bi' i e') = bpba (bi_buckets bi i e) \<and>
          bkv_size (bi_buckets bi' i e') = bkv_size (bi_buckets bi i e)) \<or>
        get_match_entry (bi_buckets bi' i) fp = None \<and> \<not> (dirty \<and> dirty_bit (bi_buckets bi i e)))"

lemma keepsD:
  assumes "keeps_entries d k bi bi'" "Some (i, fp) \<noteq> k" "fp \<noteq> 0" "get_match_entry (bi_buckets bi i) fp = Some e" "get_match_entry (bi_buckets bi' i) fp \<noteq> None"
  shows "\<exists>e'. get_match_entry (bi_buckets bi' i) fp = Some e' \<and> bpba (bi_buckets bi' i e') = bpba (bi_buckets bi i e) \<and>
          bkv_size (bi_buckets bi' i e') = bkv_size (bi_buckets bi i e)"
  using assms unfolding keeps_entries_def by metis

lemma same_entries_match: "same_entries bi bi' \<Longrightarrow> get_match_entry (bi_buckets bi' i) fp = get_match_entry (bi_buckets bi i) fp"
  unfolding get_match_entry_def by (rule find_cong) (simp_all add: same_entries_def)

lemma same_entries_keeps: "same_entries bi bi' \<Longrightarrow> distinct_fps bi \<Longrightarrow> keeps_entries d k bi bi'"
  using same_entries_match [of bi bi'] by (auto simp: keeps_entries_def distinct_fps_def fps_distinct_def same_entries_def)

lemma same_then_keeps: "same_entries bi bi1 \<Longrightarrow> keeps_entries False k bi1 bi2 \<Longrightarrow> keeps_entries False k bi bi2"
  using same_entries_match [of bi bi1] by (auto simp: keeps_entries_def same_entries_def)

lemma keeps_weaken: "keeps_entries True k bi bi' \<Longrightarrow> keeps_entries False k bi bi'"
  unfolding keeps_entries_def by blast

lemma same_entries_refl [simp]: "same_entries bi bi" "same_entries bi (set_part p x bi)"
  by (simp_all add: same_entries_def set_part_def)

lemma same_entries_touch: "same_entries bi (set_bucket i (touch_entry e (bi_buckets bi i)) bi)"
  by (simp add: same_entries_def set_bucket_def touch_entry_apply)

lemma same_entries_clean: "same_entries bi (set_part p x (bi\<lparr>bi_buckets := clean_entries ijs (bi_buckets bi)\<rparr>))"
  by (simp add: same_entries_def set_part_def clean_entries_def)

lemma put_keeps:
  assumes d: "distinct_fps bi" and e: "get_target_entry (bi_buckets bi i) fp = Some e" and v: "fingerprint v = fp"
  shows "keeps_entries True (Some (i, fp)) bi (set_bucket i (put_entry e v (bi_buckets bi i)) bi)"
proof -
  let ?b = "bi_buckets bi i"
  have db: "fps_distinct (bi_buckets bi j)" for j using d by (simp add: distinct_fps_def)
  note dp = put_distinct [OF db e v]
  have "(\<exists>e'. get_match_entry (put_entry e v ?b) fp' = Some e' \<and> bpba (put_entry e v ?b e') = bpba (?b e0) \<and> bkv_size (put_entry e v ?b e') = bkv_size (?b e0)) \<or>
      get_match_entry (put_entry e v ?b) fp' = None \<and> \<not> dirty_bit (?b e0)" if "fp' \<noteq> fp" "fp' \<noteq> 0" "get_match_entry ?b fp' = Some e0" for fp' e0
    using put_match [OF db e v that] put_match_dirty [OF db e v that] put_entry_fields(1) [of e0 e v ?b] by (auto split: if_splits)
  with db dp show ?thesis by (auto simp: keeps_entries_def set_bucket_def distinct_fps_def)
qed

lemma write_ptable_entries: "bi_write_ptable req bi h = Inr (rc, bi', h') \<Longrightarrow> same_entries bi bi'"
  by (auto simp: bi_write_ptable_def Let_def res_simps dest!: update_part_table_buckets intro: same_entries_clean)

lemma get_match_entry_f_fp: "get_match_entry_f f fp = Some k \<Longrightarrow> f_fingerprint (pt_get f k) = fp"
  by (auto simp: get_match_entry_f_find find_Some_iff)

lemma target_retry_keeps:
  assumes s: "get_target_retry hh fp ef t bi h = Inr (rc, bi', h')" and d: "distinct_fps bi" and ef: "f_fingerprint ef = fp"
  shows "keeps_entries False (Some (bucket_idx hh, fp)) bi bi'"
proof -
  have put: "keeps_entries False (Some (bucket_idx hh, fp)) bi1 bi2"
    if "get_target_entry (bi_buckets bi1 (bucket_idx hh)) fp = Some e" "get_target_retry hh fp ef t1 bi1 h1 = Inr (rc, bi2, h2)" "distinct_fps bi1" for bi1 bi2 e t1 h1 h2
  proof -
    let ?v = "\<lparr>fingerprint = f_fingerprint ef, reserve = 0, dirty_bit = False, lru_bit = 0, bkv_size = f_kv_size ef, bpba = f_pba ef\<rparr>"
    have "bi2 = set_bucket (bucket_idx hh) (put_entry e ?v (bi_buckets bi1 (bucket_idx hh))) bi1"
      using that(1,2) by (subst (asm) get_target_retry.simps) (auto simp: Let_def res_simps simp del: if_split)
    with keeps_weaken [OF put_keeps [OF that(3,1), of ?v]] ef show ?thesis by simp
  qed
  show ?thesis
  proof (cases "get_target_entry (bi_buckets bi (bucket_idx hh)) fp")
    case (Some e)
    from put [OF Some s d] show ?thesis .
  next
    case None
    with s obtain bks m x h3 p where u: "update_part_table t (part_base hh) (bi_buckets bi) (mem h) = Inr (bks, m)"
      and n: "get_target_retry hh fp ef NULL (set_part (part_idx hh) p (bi\<lparr>bi_buckets := bks\<rparr>)) h3 = Inr (rc, bi', h')"
      by (subst (asm) get_target_retry.simps) (auto simp: res_simps)
    let ?bi = "set_part (part_idx hh) p (bi\<lparr>bi_buckets := bks\<rparr>)"
    have se: "same_entries bi ?bi" using update_part_table_buckets [OF u] same_entries_clean by simp
    then have d2: "distinct_fps ?bi" using same_entries_keeps [OF se d] by (simp add: keeps_entries_def)
    show ?thesis
    proof (cases "get_target_entry (bi_buckets ?bi (bucket_idx hh)) fp")
      case None
      with n show ?thesis by (subst (asm) get_target_retry.simps) (auto simp: res_simps dev_abs_write_null)
    next
      case (Some e)
      from same_then_keeps [OF se put [OF Some n d2]] show ?thesis .
    qed
  qed
qed
lemma ensure_params_steps:
  assumes "bi_ensure_params req h = (p, h0)"
  shows "p = (case params (req_arr h req) of Some p \<Rightarrow> p | None \<Rightarrow> make_bi_params)"
  using assms by (auto simp: bi_ensure_params_def split: option.splits)

lemma set_target_store:
  assumes s: "bigkv_index_set req bi h = Inr (rc, bi', h')" and t: "set_target req bi h = Some e" and p: "bi_ensure_params req h = (p, h0)"
  shows "bi_store req e bi h0 = Inr (rc, bi', h') \<and> get_target_entry (bi_buckets bi (bucket_idx (hash_high (rkey (req_arr h req))))) (hash_low (rkey (req_arr h req))) = Some e"
proof -
  note q = ensure_params_quiet [OF p]
  from s p t have "bi_get_entry req bi h0 = Inr (rc, bi', h')"
    unfolding set_target_def ensure_params_steps [OF p, symmetric]
    by (auto simp: bigkv_index_set_def set_target_def ensure_params_steps [OF p, symmetric] Let_def q(2) split: bi_step.splits if_splits)
  moreover have g: "get_target_entry (bi_buckets bi (bucket_idx (hash_high (rkey (req_arr h req))))) (hash_low (rkey (req_arr h req))) = Some e"
    using t by (auto simp: set_target_def Let_def split: if_splits)
  ultimately show ?thesis by (simp add: bi_get_entry_def Let_def q(2))
qed

lemma set_no_target:
  assumes s: "bigkv_index_set req bi h = Inr (rc, bi', h')" and t: "set_target req bi h = None"
  shows "same_entries bi bi'"
proof -
  obtain p h0 where p: "bi_ensure_params req h = (p, h0)" by fastforce
  note q = ensure_params_quiet [OF p]
  let ?hh = "hash_high (rkey (req_arr h req))"
  have entry: "same_entries bi bi'" if g: "bi_get_entry req bi h0 = Inr (rc, bi', h')"
    and n: "get_target_entry (bi_buckets bi (bucket_idx ?hh)) (hash_low (rkey (req_arr h req))) = None"
  proof (cases "ppba (bi_parts bi (part_idx ?hh)) = BI_PBA_INVALID")
    case True
    with g n show ?thesis by (auto simp: bi_get_entry_def Let_def q(2) mem_alloc_def intro: write_ptable_entries)
  next
    case False
    with g n show ?thesis by (auto simp: bi_get_entry_def Let_def q(2) mem_alloc_def res_simps)
  qed
  show ?thesis
  proof (cases "write_step p")
    case BI_STEP_WRITE_PTABLE
    with s p show ?thesis by (auto simp: bigkv_index_set_def intro: write_ptable_entries)
  next
    case BI_STEP_WRITE_KV
    then show ?thesis using s p t by (intro entry) (auto simp: bigkv_index_set_def set_target_def ensure_params_steps [OF p, symmetric] Let_def)
  qed (use s p t entry in \<open>auto simp: bigkv_index_set_def set_target_def ensure_params_steps [OF p, symmetric] Let_def q(2) res_simps split: if_splits\<close>)
qed

lemma get_keeps:
  assumes s: "bigkv_index_get req bi h = Inr (rc, bi', h')" and d: "distinct_fps bi"
  shows "keeps_entries False (if loads req h then Some (kv_key (req_arr h req)) else None) bi bi'"
proof -
  obtain p h0 where p: "bi_ensure_params req h = (p, h0)" by fastforce
  note q = ensure_params_quiet [OF p]
  let ?r = "req_arr h req"
  let ?b = "bi_buckets bi (bucket_idx (hash_high (rkey ?r)))"
  show ?thesis
  proof (cases "read_step p = BI_STEP_UPDATE_TABLE")
    case True
    with s p have u: "bi_update_table req bi h0 = Inr (rc, bi', h')" by (simp add: bigkv_index_get_def)
    then obtain buf where buf: "mem_buf (mem h) (temp_buf ?r) = Inr buf" by (auto simp: bi_update_table_def Let_def res_simps q)
    then have c: "cells (mem h) (temp_buf ?r) = Some buf" by (auto simp: mem_buf_def split: if_splits option.splits)
    show ?thesis
    proof (cases "get_match_entry_f (bdat buf) (hash_low (rkey ?r))")
      case None
      with u buf have "bi' = bi" by (auto simp: bi_update_table_def Let_def q split: if_splits)
      then show ?thesis using same_entries_keeps [OF _ d] by simp
    next
      case (Some k)
      with u buf obtain h2 where g: "get_target_retry (hash_high (rkey ?r)) (hash_low (rkey ?r)) (pt_get (bdat buf) k) (temp_buf ?r) bi h2 = Inr (rc, bi', h')"
        by (auto simp: bi_update_table_def Let_def q res_simps split: if_splits)
      have "params ?r = Some p" using p True by (auto simp: bi_ensure_params_def make_bi_params_def split: option.splits)
      then have "loads req h" using True Some c by (simp add: loads_def)
      with target_retry_keeps [OF g d get_match_entry_f_fp [OF Some]] show ?thesis by (simp add: kv_key_def)
    qed
  next
    case False
    have "same_entries bi bi'"
    proof (cases "get_match_entry ?b (hash_low (rkey ?r))")
      case (Some e)
      with False s p show ?thesis by (auto simp: bigkv_index_get_def Let_def q(2) res_simps intro: same_entries_touch)
    next
      case None
      with False s p show ?thesis by (auto simp: bigkv_index_get_def Let_def q(2) res_simps mem_alloc_def)
    qed
    then show ?thesis using d by (rule same_entries_keeps)
  qed
qed
subsection \<open>The invariant\<close>

text \<open>The index leads from the key to the bytes of the pair in the log, all in one segment.\<close>

definition tracked :: "bigkv_index \<Rightarrow> log \<Rightarrow> nat \<times> u64 \<Rightarrow> 42 word \<times> byte list \<Rightarrow> bool" where
  "tracked bi L k p \<longleftrightarrow> snd k \<noteq> 0 \<and>
     (\<exists>e. get_match_entry (bi_buckets bi (fst k)) (snd k) = Some e \<and> bpba (bi_buckets bi (fst k) e) = fst p \<and>
        unat (bkv_size (bi_buckets bi (fst k) e)) * GRAIN_UNIT = length (snd p)) \<and>
     (\<forall>j < length (snd p). L (unat (fst p) * GRAIN_UNIT + j) = Some (snd p ! j) \<and>
        (unat (fst p) * GRAIN_UNIT + j) div SEGMENT_SIZE = unat (fst p) * GRAIN_UNIT div SEGMENT_SIZE)"

definition kv_inv :: "bigkv_index \<times> bi_params handler \<times> kv_map \<Rightarrow> bool" where
  "kv_inv s \<longleftrightarrow> (case s of (bi, h, G) \<Rightarrow> distinct_fps bi \<and> (\<exists>L. log_inv h L \<and> (\<forall>k p. G k = Some p \<longrightarrow> tracked bi L k p)))"

lemma log_staged_seg: "log_inv h L \<Longrightarrow> seg_ok (staged (dev h)) (staged_seg (dev h))"
  using dev_inv_staged by (auto simp: log_inv_def flight_ok_def staged_ok_def)

text \<open>What a pass of the index leaves of the log.\<close>

lemma logged_log:
  assumes "logged h h'" and "log_inv h L"
  shows "\<exists>L'. log_inv h' L' \<and> (\<forall>x v. L x = Some v \<and> \<not> recycled h h' x \<longrightarrow> L' x = Some v)"
  using assms(1) unfolding logged_def
proof (elim disjE exE)
  fix n assume "quiet n h h'"
  from quiet_log [OF this assms(2)] show ?thesis by blast
next
  fix a n f assume a: "appends h h' a n f"
  from appends_log [OF a assms(2)] appends_keeps [OF a assms(2)] show ?thesis by blast
qed

lemma tracked_kept:
  assumes t: "tracked bi L k p" and e: "keeps_entries d x bi bi'" "Some k \<noteq> x" and m: "get_match_entry (bi_buckets bi' (fst k)) (snd k) \<noteq> None"
    and inv: "log_inv h' L'" and L: "\<forall>x v. L x = Some v \<and> \<not> recycled h h' x \<longrightarrow> L' x = Some v" and r: "\<not> recycled h h' (unat (fst p) * GRAIN_UNIT)"
  shows "tracked bi' L' k p"
proof -
  note so = log_staged_seg [OF inv]
  have "recycled h h' (unat (fst p) * GRAIN_UNIT + j) = recycled h h' (unat (fst p) * GRAIN_UNIT)" if "j < length (snd p)" for j
    using t that by (simp add: recycled_def in_seg_iff [OF so] tracked_def)
  then have log: "\<forall>j < length (snd p). L' (unat (fst p) * GRAIN_UNIT + j) = Some (snd p ! j)" using t L r by (auto simp: tracked_def)
  from t obtain e where e0: "get_match_entry (bi_buckets bi (fst k)) (snd k) = Some e" "bpba (bi_buckets bi (fst k) e) = fst p"
    "unat (bkv_size (bi_buckets bi (fst k) e)) * GRAIN_UNIT = length (snd p)" by (auto simp: tracked_def)
  have "Some (fst k, snd k) \<noteq> x" "snd k \<noteq> 0" using e(2) t by (simp_all add: tracked_def)
  with e(1) e0(1) m obtain e' where "get_match_entry (bi_buckets bi' (fst k)) (snd k) = Some e'" "bpba (bi_buckets bi' (fst k) e') = fst p"
    "bkv_size (bi_buckets bi' (fst k) e') = bkv_size (bi_buckets bi (fst k) e)"
    using keepsD [OF e(1) _ _ e0(1) m] unfolding e0(2) by auto
  with log t e0(3) show ?thesis by (auto simp: tracked_def)
qed

lemma kept_Some:
  "kept bi' h h' G k = Some p \<longleftrightarrow> G k = Some p \<and> get_match_entry (bi_buckets bi' (fst k)) (snd k) \<noteq> None \<and> \<not> recycled h h' (unat (fst p) * GRAIN_UNIT)"
  by (cases k; cases p) (auto simp: kept_def split: option.splits)

lemma kept_inv:
  assumes inv: "log_inv h L" "\<forall>k p. G k = Some p \<longrightarrow> tracked bi L k p" and lg: "logged h h'" and e: "keeps_entries d x bi bi'"
  shows "\<exists>L'. log_inv h' L' \<and> (\<forall>k p. kept bi' h h' G k = Some p \<and> Some k \<noteq> x \<longrightarrow> tracked bi' L' k p)"
proof -
  obtain L' where L': "log_inv h' L'" "\<forall>x v. L x = Some v \<and> \<not> recycled h h' x \<longrightarrow> L' x = Some v" using logged_log [OF lg inv(1)] by blast
  have "tracked bi' L' k p" if "kept bi' h h' G k = Some p" "Some k \<noteq> x" for k p
    using tracked_kept [OF inv(2) [rule_format] e that(2) _ L'] that(1) unfolding kept_Some by blast
  with L'(1) show ?thesis by blast
qed

lemma kv_get_inv:
  assumes s: "bigkv_index_get req bi h = Inr (rc, bi', h')" and ok: "pass_ok req h" and i: "kv_inv (bi, h, G)"
  shows "kv_inv (bi', h', get_map req h bi' h' G)"
proof -
  from i obtain L where d: "distinct_fps bi" and L: "log_inv h L" "\<forall>k p. G k = Some p \<longrightarrow> tracked bi L k p" by (auto simp: kv_inv_def)
  note e = get_keeps [OF s d]
  from kept_inv [OF L get_logged [OF s L(1) ok] e] obtain L' where
    "log_inv h' L'" "\<And>k p. kept bi' h h' G k = Some p \<Longrightarrow> Some k \<noteq> (if loads req h then Some (kv_key (req_arr h req)) else None) \<Longrightarrow> tracked bi' L' k p" by blast
  moreover have "distinct_fps bi'" using e by (simp add: keeps_entries_def)
  ultimately show ?thesis unfolding kv_inv_def get_map_def by (auto intro!: exI [of _ L'])
qed

text \<open>A pass of a SET that stores its pair.\<close>

lemma set_stores_pair:
  assumes s: "bigkv_index_set req bi h = Inr (rc, bi', h')" and ok: "pass_ok req h" and d: "distinct_fps bi" and L: "log_inv h L"
    and t: "set_target req bi h = Some e" and key: "kv_key (req_arr h req) = (i, fp)"
  shows "\<exists>a f. appends h h' a (length (pair_bytes req h)) f \<and> (\<forall>j < length (pair_bytes req h). f j = pair_bytes req h ! j) \<and>
     keeps_entries True (Some (i, fp)) bi bi' \<and>
     (fp \<noteq> 0 \<longrightarrow> get_match_entry (bi_buckets bi' i) fp = Some e \<and> unat (bpba (bi_buckets bi' i e)) * GRAIN_UNIT = a \<and>
        unat (bkv_size (bi_buckets bi' i e)) * GRAIN_UNIT = length (pair_bytes req h))"
proof -
  obtain p h0 where p: "bi_ensure_params req h = (p, h0)" by fastforce
  note q = ensure_params_quiet [OF p]
  let ?r = "req_arr h0 req" and ?len = "unat (vlen (rvalue (req_arr h req))) div GRAIN_UNIT * GRAIN_UNIT"
  have st: "bi_store req e bi h0 = Inr (rc, bi', h')" and tg: "get_target_entry (bi_buckets bi i) fp = Some e"
    using set_target_store [OF s t p] key by (simp_all add: kv_key_def)
  have ok0: "pass_ok req h0" by (rule quiet_pass_ok [OF q(1,3-5) ok])
  then have p0: "roomy h0" "unat (nr_segment (dev h0)) < 2 ^ 24" "unat (vlen (rvalue ?r)) < SEGMENT_SIZE"
    "own (vvalue (rvalue ?r)) h0" "cells (mem h0) (vvalue (rvalue ?r)) \<noteq> None" by (simp_all add: pass_ok_def)
  then obtain b where b: "cells (mem h0) (vvalue (rvalue ?r)) = Some b" by blast
  have i: "bucket_idx (hash_high (rkey ?r)) = i" "hash_low (rkey ?r) = fp" using key q(2) by (simp_all add: kv_key_def)
  have ih: "bucket_idx (hash_high (rkey (req_arr h req))) = i" using key by (simp add: kv_key_def)
  from store_appends [OF st quiet_log [OF q(1) L] pass_ok_mono [OF ok0, of 2] p0(1,2) refl p0(3,4) b refl] obtain pba where
    bi': "bi' = set_bucket i (put_entry e (bi_new_entry ?r (bi_buckets bi i e) pba) (bi_buckets bi i)) bi" and
    a: "appends h0 h' (unat pba * GRAIN_UNIT) ?len (with_key (rkey (req_arr h req)) (bdat b))" and
    pb: "unat (ucast pba :: 42 word) = unat pba" "(ucast pba :: 42 word) \<noteq> BI_PBA_INVALID" unfolding q(2,3) ih by auto
  let ?v = "bi_new_entry ?r (bi_buckets bi i e) pba"
  have v: "fingerprint ?v = fp" "bi_valid ?v" "bpba ?v = ucast pba" "unat (bkv_size ?v) * GRAIN_UNIT = ?len"
    using i(2) pb(2) bi_size_field(3) [OF p0(3)] q(3) by (simp_all add: bi_new_entry_def bi_valid_def)
  have db: "fps_distinct (bi_buckets bi i)" using d by (simp add: distinct_fps_def)
  have lt: "e < NR_SET" by (rule get_target_entry_lt [OF tg])
  have own: "fp \<noteq> 0 \<Longrightarrow> get_match_entry (bi_buckets bi' i) fp = Some e" "bpba (bi_buckets bi' i e) = ucast pba"
    "bkv_size (bi_buckets bi' i e) = bkv_size ?v"
    using match_iff [OF put_distinct [OF db tg v(1)], of fp e] lt v by (simp_all add: bi' set_bucket_def put_entry_fields put_entry_valid)
  have k: "keeps_entries True (Some (i, fp)) bi bi'" unfolding bi' by (rule put_keeps [OF d tg v(1)])
  have len: "length (pair_bytes req h) = ?len" "\<forall>j < ?len. with_key (rkey (req_arr h req)) (bdat b) j = pair_bytes req h ! j"
    using b q(3,5) by (simp_all add: pair_bytes_def Let_def)
  from quiet_appends [OF q(1) a] have "appends h h' (unat pba * GRAIN_UNIT) (length (pair_bytes req h)) (with_key (rkey (req_arr h req)) (bdat b))" by (simp only: len(1))
  with k own len v(4) pb(1) show ?thesis by (intro exI [of _ "unat pba * GRAIN_UNIT"] exI [of _ "with_key (rkey (req_arr h req)) (bdat b)"]) simp
qed
text \<open>The bytes just appended are in the log, in the staged segment.\<close>

lemma appends_tracked:
  assumes a: "appends h h' a n f" and L: "log_inv h L" and j: "j < n"
  shows "log_put a n f M (a + j) = Some (f j)" "(a + j) div SEGMENT_SIZE = a div SEGMENT_SIZE"
proof -
  note so = log_staged_seg [OF appends_log [OF a L]]
  have "in_seg (staged (dev h')) (a + j)" "in_seg (staged (dev h')) a" using a j so by (auto simp: appends_def in_seg_def seg_ok_def)
  then show "(a + j) div SEGMENT_SIZE = a div SEGMENT_SIZE" by (simp add: in_seg_iff [OF so])
  show "log_put a n f M (a + j) = Some (f j)" using j by (simp add: log_put_def)
qed

lemma kv_set_inv:
  assumes s: "bigkv_index_set req bi h = Inr (rc, bi', h')" and ok: "pass_ok req h" and i: "kv_inv (bi, h, G)"
  shows "kv_inv (bi', h', set_map req bi h bi' h' G)"
proof -
  from i obtain L where d: "distinct_fps bi" and L: "log_inv h L" and tr: "\<forall>k p. G k = Some p \<longrightarrow> tracked bi L k p" by (auto simp: kv_inv_def)
  show ?thesis
  proof (cases "set_target req bi h")
    case None
    have e: "keeps_entries False None bi bi'" by (rule same_entries_keeps [OF set_no_target [OF s None] d])
    from kept_inv [OF L tr set_logged [OF s L ok] e] e show ?thesis
      by (auto simp: kv_inv_def set_map_def None keeps_entries_def)
  next
    case (Some e)
    obtain x fp where key: "kv_key (req_arr h req) = (x, fp)" by fastforce
    then have idx: "bucket_idx (hash_high (rkey (req_arr h req))) = x" "hash_low (rkey (req_arr h req)) = fp" by (simp_all add: kv_key_def)
    let ?bs = "pair_bytes req h"
    from set_stores_pair [OF s ok d L Some key] obtain a f where
      a: "appends h h' a (length ?bs) f" and f: "\<forall>j < length ?bs. f j = ?bs ! j" and ke: "keeps_entries True (Some (x, fp)) bi bi'" and
      own: "fp \<noteq> 0 \<Longrightarrow> get_match_entry (bi_buckets bi' x) fp = Some e" "fp \<noteq> 0 \<Longrightarrow> unat (bpba (bi_buckets bi' x e)) * GRAIN_UNIT = a"
        "fp \<noteq> 0 \<Longrightarrow> unat (bkv_size (bi_buckets bi' x e)) * GRAIN_UNIT = length ?bs" by blast
    let ?L = "log_put a (length ?bs) f (if staged_seg (dev h') = staged_seg (dev h) then L else log_forget (staged (dev h')) L)"
    have L': "log_inv h' ?L" "\<forall>x v. L x = Some v \<and> \<not> recycled h h' x \<longrightarrow> ?L x = Some v" using appends_log [OF a L] appends_keeps [OF a L] by blast+
    have new: "tracked bi' ?L (x, fp) (bpba (bi_buckets bi' x e), ?bs)" if "fp \<noteq> 0"
      using own [OF that] that f appends_tracked [OF a L] by (simp add: tracked_def)
    have old: "tracked bi' ?L k p" if "kept bi' h h' G k = Some p" "k \<noteq> (x, fp)" for k p
      using tracked_kept [OF tr [rule_format] ke _ _ L'] that unfolding kept_Some by blast
    have zero: "k \<noteq> (x, 0)" if "kept bi' h h' G k = Some p" for k p
      using tr [rule_format, of k p] that unfolding kept_Some by (auto simp: tracked_def)
    have "tracked bi' ?L k p" if "set_map req bi h bi' h' G k = Some p" for k p
    proof (cases "fp = 0")
      case True
      then have "kept bi' h h' G k = Some p" using that Some idx by (simp add: set_map_def)
      with old zero True show ?thesis by blast
    next
      case False
      then have "((kept bi' h h' G)((x, fp) \<mapsto> (bpba (bi_buckets bi' x e), ?bs))) k = Some p" using that Some idx key by (simp add: set_map_def)
      then show ?thesis using new [OF False] old by (cases "k = (x, fp)") auto
    qed
    then show ?thesis using L'(1) ke unfolding kv_inv_def keeps_entries_def by blast
  qed
qed

lemma kv_step_inv: "kv_step s t \<Longrightarrow> kv_inv s \<Longrightarrow> kv_inv t"
proof (induction rule: kv_step.induct)
  case (kv_set req bi h rc bi' h' G)
  then show ?case by (rule kv_set_inv)
next
  case (kv_get req bi h rc bi' h' G)
  then show ?case by (rule kv_get_inv)
next
  case (kv_complete w h ev h' bi G)
  from log_step_inv [OF log_complete [OF kv_complete(1,2)]] kv_complete(3) show ?case unfolding kv_inv_def by fastforce
next
  case (kv_env h h' bi G)
  from log_step_inv [OF log_env [OF kv_env(1)]] kv_env(2) show ?case unfolding kv_inv_def by fastforce
qed

lemma kv_steps_inv: "kv_step\<^sup>*\<^sup>* s t \<Longrightarrow> kv_inv s \<Longrightarrow> kv_inv t"
  by (induction rule: rtranclp_induct) (auto intro: kv_step_inv)

lemma kv_inv_init: "log_inv h Map.empty \<Longrightarrow> kv_inv (bigkv_index_init, h, Map.empty)"
  by (auto simp: kv_inv_def distinct_fps_def fps_distinct_def bi_init_bucket init_entry_invalid)

subsection \<open>What a read of a known pair delivers\<close>

lemma map_nth_eq: "length xs = n \<Longrightarrow> (\<And>j. j < n \<Longrightarrow> f j = xs ! j) \<Longrightarrow> map f [0..<n] = xs"
  by (rule nth_equalityI) auto

lemma entry_words:
  "unat (ucast (p :: 42 word) :: u64) = unat p" "unat (ucast (n :: 14 word) :: u32) = unat n" "unat p * GRAIN_UNIT < 2 ^ 64" "unat n * GRAIN_UNIT < 2 ^ 32"
  using unsigned_less [of p, where ?'a = nat] unsigned_less [of n, where ?'a = nat] by (simp_all add: unat_ucast_small config_defs)

lemma tracked_staged_read:
  assumes L: "log_inv h L" and t: "tracked bi L (i, fp) (pba, bs)" and e: "get_match_entry (bi_buckets bi i) fp = Some e"
    and s: "is_staged (dev h) (ucast pba) = 0" and cb: "calls_back (\<lambda>run. dev_abs_read run (ucast pba) (ucast (bkv_size (bi_buckets bi i e))) buf cb h) cb h'"
  shows "\<exists>b. cells (mem h') buf = Some b \<and> map (bdat b) [0..<length bs] = bs"
proof -
  have n: "unat (bkv_size (bi_buckets bi i e)) * GRAIN_UNIT = length bs" "\<forall>j < length bs. L (unat pba * GRAIN_UNIT + j) = Some (bs ! j)"
    using t e by (simp_all add: tracked_def)
  from staged_read_log [OF L cb s] n entry_words(1,3) [of pba] entry_words(2,4) [of "bkv_size (bi_buckets bi i e)"] obtain b where
    b: "cells (mem h') buf = Some b" "\<forall>k < length bs. \<forall>v. L (unat pba * GRAIN_UNIT + k) = Some v \<longrightarrow> bdat b k = v" by auto
  have "map (bdat b) [0..<length bs] = bs" by (rule map_nth_eq) (use b(2) n(2) in auto)
  with b(1) show ?thesis by blast
qed

text \<open>A pair is in the staged segment as a whole, or not at all, and likewise on its way to the disk.\<close>

lemma tracked_disk_read:
  assumes L: "log_inv h L" and t: "tracked bi L (i, fp) (pba, bs)"
    and w: "io_cmd (iocb_arr h w) = IO_PREAD" "kernel_io w h = (ev, h')" "ev_res ev = of_nat (length bs)"
      "io_nbytes (iocb_arr h w) = length bs" "unat (io_offset (iocb_arr h w)) = unat pba * GRAIN_UNIT"
    and d: "\<not> in_seg (staged (dev h)) (unat pba * GRAIN_UNIT)" "\<not> in_flight h (unat pba * GRAIN_UNIT)"
  shows "\<exists>b. cells (mem h') (io_buf (iocb_arr h w)) = Some b \<and> map (bdat b) [0..<length bs] = bs"
proof -
  let ?a = "unat pba * GRAIN_UNIT"
  note so = log_staged_seg [OF L]
  have wo: "write_ok h c" if "c \<in> set (writes h)" for c using L that by (auto simp: log_inv_def flight_ok_def)
  have seg: "(?a + j) div SEGMENT_SIZE = ?a div SEGMENT_SIZE" "L (?a + j) = Some (bs ! j)" if "j < length bs" for j using t that by (simp_all add: tracked_def)
  have "in_seg (staged (dev h)) (?a + j) = in_seg (staged (dev h)) ?a" if "j < length bs" for j using seg [OF that] by (simp add: in_seg_iff [OF so])
  moreover have "covers c (?a + j) = covers c ?a" if "c \<in> set (writes h)" "j < length bs" for c j
    using covers_write [OF wo [OF that(1)]] seg [OF that(2)] by simp
  then have "in_flight h (?a + j) = in_flight h ?a" if "j < length bs" for j using that by (auto simp: in_flight_def list_ex_iff)
  moreover obtain e where "unat (bkv_size (bi_buckets bi i e)) * GRAIN_UNIT = length bs" using t by (auto simp: tracked_def)
  then have lt: "length bs < 2 ^ 32" using entry_words(4) [of "bkv_size (bi_buckets bi i e)"] by simp
  moreover from disk_read_log [OF L w(1,2)] w(3-5) lt obtain b where
    b: "cells (mem h') (io_buf (iocb_arr h w)) = Some b"
    "\<And>j v. j < length bs \<Longrightarrow> L (?a + j) = Some v \<Longrightarrow> \<not> in_seg (staged (dev h)) (?a + j) \<Longrightarrow> \<not> in_flight h (?a + j) \<Longrightarrow> bdat b j = v" by auto
  ultimately have "map (bdat b) [0..<length bs] = bs" by (intro map_nth_eq) (use d seg(2) in auto)
  with b(1) show ?thesis by blast
qed
text \<open>A GET of a pair in the staged segment is acknowledged at once.\<close>

lemma tracked_stored:
  assumes L: "log_inv h L" and t: "tracked bi L (i, fp) (pba, bs)" and s: "is_staged (dev h) (ucast pba) = 0" and n: "bs \<noteq> []" and f: "\<forall>j < length bs. bs ! j = f j"
  shows "stored_at h (ucast pba) (length bs) f"
proof -
  let ?a = "unat pba * GRAIN_UNIT" and ?s = "staged (dev h)"
  have st: "staged_ok h" and dv: "dev_inv (dev h)" using L by (simp_all add: log_inv_def flight_ok_def staged_ok_def)
  note so = log_staged_seg [OF L] and w = entry_words(1,3) [of pba]
  have r: "unat (start_addr ?s) \<le> ?a" "?a < unat (seg_offset ?s)"
    using s is_staged_iff [OF dv, of "ucast pba"] w by (auto split: if_splits)
  then have "in_seg ?s ?a" using so by (auto simp: in_seg_def seg_ok_def)
  then have i: "in_seg ?s (?a + j)" if "j < length bs" for j using t that by (simp add: in_seg_iff [OF so] tracked_def)
  have v: "L (?a + j) = Some (bs ! j)" if "j < length bs" for j using t that by (simp add: tracked_def)
  then have lv: "log_view h (?a + j) = bs ! j" "?a + j < unat (seg_offset ?s)" if "j < length bs" for j
    using L v [OF that] i [OF that] by (auto simp: log_inv_def)
  have "in_staged (dev h) (ucast pba) (length bs)" using r(1) lv(2) [of "length bs - 1"] n w(1) by (auto simp: in_staged_def)
  moreover obtain sb where sb: "cells (mem h) (staged_seg_buf (dev h)) = Some sb" "blen sb = SEGMENT_SIZE" using st by (auto simp: staged_ok_def)
  moreover have "bdat sb (?a - unat (start_addr ?s) + j) = f j" if "j < length bs" for j
    using lv(1) [OF that] log_view_staged [OF i [OF that]] sb(1) r(1) f that by simp
  ultimately show ?thesis using w(1) by (auto simp: stored_at_def)
qed

lemma tracked_get_hit:
  fixes h :: "bi_params handler"
  assumes L: "log_inv h L" and t: "tracked bi L (i, fp) (pba, bs)" and s: "is_staged (dev h) (ucast pba) = 0" 
    and env: "index_env (Suc k) h" and buf: "req_buf req h b" and r: "req_arr h req = r" "params r = None" "kv_key r = (i, fp)"
    and f: "\<forall>j < length bs. bs ! j = with_key (rkey r) f j" and len: "Suc (unat (klen (rkey r))) \<le> length bs" "length bs \<le> blen b"
  shows "\<exists>bi' h'. bigkv_index_get req bi h = Inr (0, bi', h') \<and> acks h' = acks h @ [ack_of (clock h) r]"
proof -
  obtain e where e: "get_match_entry (bi_buckets bi i) fp = Some e" "bpba (bi_buckets bi i e) = pba" "unat (bkv_size (bi_buckets bi i e)) * GRAIN_UNIT = length bs"
    using t by (auto simp: tracked_def)
  have "bs \<noteq> []" using len by auto
  note st = tracked_stored [OF L t s this f]
  have env': "staged_ok h" "pools_hold (Suc k) h" "q_inv (req_pool h)" "int (length (q_list (req_pool h))) < m_size (req_pool h)"
    using env by (simp_all add: index_env_def)
  have i: "bi_buckets bi (bucket_idx (hash_high (rkey r))) = bi_buckets bi i" "hash_low (rkey r) = fp" using r(3) by (simp_all add: kv_key_def)
  from bi_get_hit [OF env' buf r(1,2) i(1), of e f] e st len i show ?thesis by auto
qed

lemma set_keeps_dirty:
  assumes s: "bigkv_index_set req bi h = Inr (rc, bi', h')" and ok: "pass_ok req h" and d: "distinct_fps bi" and L: "log_inv h L"
    and G: "G (i, fp) = Some (pba, bs)" "fp \<noteq> 0" "get_match_entry (bi_buckets bi i) fp = Some e" "dirty_bit (bi_buckets bi i e)"
    and k: "kv_key (req_arr h req) \<noteq> (i, fp)" and r: "\<not> recycled h h' (unat pba * GRAIN_UNIT)"
  shows "set_map req bi h bi' h' G (i, fp) = Some (pba, bs)"
proof -
  have m: "get_match_entry (bi_buckets bi' i) fp \<noteq> None"
  proof (cases "set_target req bi h")
    case None
    then show ?thesis using same_entries_match [OF set_no_target [OF s None]] G(3) by simp
  next
    case (Some e')
    obtain x y where key: "kv_key (req_arr h req) = (x, y)" by fastforce
    with set_stores_pair [OF s ok d L Some key] have "keeps_entries True (Some (x, y)) bi bi'" by blast
    moreover have "Some (i, fp) \<noteq> Some (x, y)" using k key by auto
    ultimately show ?thesis using G(2-4) unfolding keeps_entries_def by fastforce
  qed
  then have "kept bi' h h' G (i, fp) = Some (pba, bs)" using G(1) r by (simp add: kept_Some)
  then show ?thesis using k by (auto simp: set_map_def split: option.splits)
qed

subsection \<open>The property\<close>

text \<open>
  C5: the store serves what was stored. In every run from a fresh handler of SETs and GETs in all their passes, evictions and partition tables included, of completions in any order
  and of steps of the rest of the program, each pass being one whose environment is as \<open>pass_ok\<close> says (system calls succeed, the next segment is not on its way to the disk, there are fewer than \<open>2\<^sup>2\<^sup>4\<close> segments), a key in the abstract map is found in its bucket, with the address and the size of the bytes that its last SET
  stored. A read of them from the staged segment gets to its callback with exactly these bytes, and so does a read from the disk that completes when the segment is there; a GET
  whose pair is staged is acknowledged in its first pass. A SET of another key takes none of the keys of the map away whose entry has not been written
  to its partition table, unless the log comes back to the segment of the pair.
\<close>

theorem kv_store_serves:
  assumes i: "handler_init num True (Some nb) (Some lbs) True dsk mok sok = Inr h0" "unat nb * unat lbs < 2 ^ 32 * SEGMENT_SIZE" "mok 0"
    and run: "kv_step\<^sup>*\<^sup>* (bigkv_index_init, h0, Map.empty) (bi, h, G)" and k: "G (i, fp) = Some (pba, bs)"
  shows "\<exists>e. get_match_entry (bi_buckets bi i) fp = Some e \<and> bpba (bi_buckets bi i e) = pba \<and> unat (bkv_size (bi_buckets bi i e)) * GRAIN_UNIT = length bs \<and>
     (\<forall>buf cb h'. is_staged (dev h) (ucast pba) = 0 \<and> calls_back (\<lambda>run. dev_abs_read run (ucast pba) (ucast (bkv_size (bi_buckets bi i e))) buf cb h) cb h' \<longrightarrow>
        (\<exists>b. cells (mem h') buf = Some b \<and> map (bdat b) [0..<length bs] = bs)) \<and>
     (\<forall>w ev h'. io_cmd (iocb_arr h w) = IO_PREAD \<and> unat (io_offset (iocb_arr h w)) = unat pba * GRAIN_UNIT \<and> io_nbytes (iocb_arr h w) = length bs \<and>
          kernel_io w h = (ev, h') \<and> ev_res ev = of_nat (length bs) \<and> \<not> in_seg (staged (dev h)) (unat pba * GRAIN_UNIT) \<and> \<not> in_flight h (unat pba * GRAIN_UNIT) \<longrightarrow>
        (\<exists>b. cells (mem h') (io_buf (iocb_arr h w)) = Some b \<and> map (bdat b) [0..<length bs] = bs)) \<and>
     (\<forall>req r b f n. index_env (Suc n) h \<and> req_buf req h b \<and> req_arr h req = r \<and> params r = None \<and> kv_key r = (i, fp) \<and> is_staged (dev h) (ucast pba) = 0 \<and>
          (\<forall>j < length bs. bs ! j = with_key (rkey r) f j) \<and> Suc (unat (klen (rkey r))) \<le> length bs \<and> length bs \<le> blen b \<longrightarrow>
        (\<exists>bi' h'. bigkv_index_get req bi h = Inr (0, bi', h') \<and> acks h' = acks h @ [ack_of (clock h) r])) \<and>
     (\<forall>req rc bi' h'. bigkv_index_set req bi h = Inr (rc, bi', h') \<and> pass_ok req h \<and> dirty_bit (bi_buckets bi i e) \<and> kv_key (req_arr h req) \<noteq> (i, fp) \<and>
          \<not> recycled h h' (unat pba * GRAIN_UNIT) \<longrightarrow> set_map req bi h bi' h' G (i, fp) = Some (pba, bs))"
proof -
  have "kv_inv (bi, h, G)" using kv_steps_inv [OF run] kv_inv_init handler_init_log_inv [OF i] by blast
  then obtain L where d: "distinct_fps bi" and L: "log_inv h L" and "\<forall>k p. G k = Some p \<longrightarrow> tracked bi L k p" by (auto simp: kv_inv_def)
  with k have t: "tracked bi L (i, fp) (pba, bs)" by blast
  then obtain e where e: "get_match_entry (bi_buckets bi i) fp = Some e" "bpba (bi_buckets bi i e) = pba"
    "unat (bkv_size (bi_buckets bi i e)) * GRAIN_UNIT = length bs" and fp: "fp \<noteq> 0" by (auto simp: tracked_def)
  show ?thesis
  proof (intro exI [of _ e] conjI allI impI, goal_cases)
    case (4 buf cb h')
    then show ?case using tracked_staged_read [OF L t e(1), of buf cb h'] by blast
  next
    case (5 w ev h')
    then show ?case using tracked_disk_read [OF L t, of w ev h'] by blast
  next
    case (6 req r b f n)
    then show ?case using tracked_get_hit [OF L t, of n req b r f] by blast
  next
    case (7 req rc bi' h')
    then show ?case using set_keeps_dirty [where G = G and i = i and fp = fp, OF _ _ d L k fp e(1), of req rc bi' h'] by blast
  qed (rule e)+
qed
text \<open>Accepting a message is a step that leaves the device alone.\<close>

lemma accept_request_aside:
  assumes "accept_request C ok nr sock h = Inr (req, h')"
  shows "aside h h' \<and> cb_pool h' = cb_pool h \<and> temp_buf (req_arr h' req) = NULL"
proof -
  from assms obtain h1 where m: "make_request_from_netreq nr sock h = Inr (req, h1)" and a: "add_request_info C ok req h1 = Inr h'"
    by (auto simp: accept_request_def res_simps)
  have h1: "aside h h1 \<and> cb_pool h1 = cb_pool h" using m by (auto simp: make_request_from_netreq_def res_simps aside_def split: if_splits)
  from a obtain v m where v: "value_for ok (req_arr h1 req) (mem h1) = Inr (v, m)" "mem h' = m" "temp_buf (req_arr h' req) = NULL" "cb_pool h' = cb_pool h1"
    and same: "dev h' = dev h1 \<and> submitted h' = submitted h1 \<and> iocb_arr h' = iocb_arr h1 \<and> disk h' = disk h1 \<and> iocb_pool h' = iocb_pool h1 \<and>
     mmap_ok h' = mmap_ok h1 \<and> submit_ok h' = submit_ok h1"
    by (auto simp: add_request_info_def Let_def res_simps split: prod.splits)
  have "brk (mem h1) \<le> brk m \<and> (mem_wf (mem h1) \<longrightarrow> mem_wf m) \<and> (\<forall>p. p < brk (mem h1) \<longrightarrow> cells m p = cells (mem h1) p)"
    using v(1) by (cases "rtype (req_arr h1 req)") (auto simp: value_for_def set_value_def mem_alloc_def mem_wf_def split: if_splits)
  with v(2) same have "aside h1 h'" by (auto simp: aside_def)
  with h1 v(3,4) aside_trans [of h h1 h'] show ?thesis by simp
qed

text \<open>A fresh handler accepts a SET of 1024 bytes for a two-byte key and stores it.\<close>

lemma ex_accepted_set:
  "\<exists>(h0 :: bi_params handler) h b.
     handler_init 0 True (Some 16384) (Some 512) True (\<lambda>_. 0) (\<lambda>_. True) (\<lambda>_. True) = Inr h0 \<and> aside h0 h \<and> log_inv h0 Map.empty \<and>
     index_env QSIZE h \<and> pass_ok 1 h \<and> req_buf 1 h b \<and> unat (vlen (rvalue (req_arr h 1))) = 1024 \<and> params (req_arr h 1) = None \<and>
     klen (rkey (req_arr h 1)) = 2 \<and> kv_key (req_arr h 1) = (5, 9) \<and> unat (nr_segment (dev h)) < 2 ^ 24"
proof -
  obtain h0 :: "bi_params handler" where h0: "fresh_env QSIZE h0" "q_list (req_pool h0) = pool_ptrs"
    and i: "handler_init 0 True (Some 16384) (Some 512) True (\<lambda>_. 0) (\<lambda>_. True) (\<lambda>_. True) = Inr h0"
    using ex_fresh_env by blast
  have big: "unat (16384 :: u32) * unat (512 :: u32) < 2 ^ 32 * SEGMENT_SIZE" "SEGMENT_SIZE \<le> unat (16384 :: u32) * unat (512 :: u32)" by (simp_all add: config_defs)
  have inv: "log_inv h0 Map.empty" "submitted h0 = []" "submit_ok h0 = (\<lambda>_. True)" "mmap_ok h0 = (\<lambda>_. True)"
    using handler_init_log_inv [OF i big(1) TrueI] by simp_all
  have nr: "unat (nr_segment (dev h0)) = 4"
    using handler_init_ok [where 'p = bi_params, OF big(2,1), of "\<lambda>_. True" 0 "\<lambda>_. 0" "\<lambda>_. True"] i by (auto simp: config_defs)
  have cbs: "q_list (cb_pool h0) = pool_ptrs"
  proof -
    from i obtain h1 :: "bi_params handler" where d: "dev_abs_init True (Some 16384) (Some 512) (hlr_alloc 0 (\<lambda>_. 0) (\<lambda>_. True) (\<lambda>_. True)) = Inr h1"
      and f: "hlr_fill_pools h1 = Inr h0" by (auto simp: handler_init_def res_simps split: if_splits)
    obtain q where "enq_list q_enqueue pool_ptrs (q_init (int QSIZE)) = Inr q" "q_list q = pool_ptrs" using fill_pool by blast
    moreover have "cb_pool h1 = q_init (int QSIZE)" using arg_cong [OF dev_abs_init_frame [OF d], of cb_pool] by (simp add: hlr_alloc_def)
    ultimately show ?thesis using f by (auto simp: hlr_fill_pools_def res_simps)
  qed
  let ?s = "\<lparr>nr_type = REQ_TYPE_SET, nr_keylen = 2, nr_seq_num = 1, nr_key = [65, 66], nr_kv_size = 1024\<rparr>"
  have "2 < Suc QSIZE" by (simp add: QSIZE_def)
  from upt_conv_Cons [OF this] obtain rest where p: "q_list (req_pool h0) = 1 # rest" using h0(2) pool_ptrs_Cons by simp
  have k: "unat (nr_keylen ?s) \<le> length (nr_key ?s)" "nr_type ?s \<in> {REQ_TYPE_GET, REQ_TYPE_SET}" "(1 :: ptr) \<noteq> NULL" by simp_all
  obtain h where a: "accept_request (\<lambda>_. (9, 5)) True ?s 5 h0 = Inr (1, h)" "accepted QSIZE (\<lambda>_. (9, 5)) ?s 1 rest h0 h"
    using accept_request_ok [OF h0(1) p k(3,1,2)] by blast
  note as = accept_request_aside [OF a(1)]
  have q: "quiet 0 h0 h" using as aside_quiet0 by blast
  have h: "index_env QSIZE h" "req_buf 1 h \<lparr>blen = 1024, bdat = \<lambda>_. 0\<rparr>" "params (req_arr h 1) = None" "klen (rkey (req_arr h 1)) = 2"
    "kv_key (req_arr h 1) = (5, 9)" "dev h = dev h0"
    using a(2) by (simp_all add: accepted_def kv_key_def bucket_idx_def bi_config)
  then have len: "unat (vlen (rvalue (req_arr h 1))) = 1024" by (simp add: req_buf_def)
  note L = quiet_log [OF q inv(1)]
  have db: "dev_bufs h = {staged_seg_buf (dev h)}" using as inv(2) by (simp add: dev_bufs_def writes_def aside_def)
  have wf: "mem_wf (mem h)" using L by (simp add: log_inv_def flight_ok_def staged_ok_def)
  have "own (vvalue (rvalue (req_arr h 1))) h" using h(2) db mem_live_lt [OF wf] by (auto simp: own_def req_buf_def)
  moreover have "own (temp_buf (req_arr h 1)) h" using own_null [OF L] as by simp
  moreover have "staged_seg (dev h) < 4" using L nr h(6) by (auto simp: log_inv_def flight_ok_def staged_ok_def dev_inv_def dev_layout_def)
  then have "Suc (staged_seg (dev h)) mod 4 \<noteq> staged_seg (dev h)" by presburger
  then have "next_free h" using as inv(2) nr h(6) by (simp add: next_free_def writes_def aside_def)
  moreover have "cbs_free 5 h" using h(1) as cbs by (auto simp: cbs_free_def index_env_def pools_hold_def config_defs distinct_pool_ptrs)
  ultimately have "pass_ok 1 h"
    using h(2,6) inv(3,4) as nr len by (auto simp: pass_ok_def roomy_def aside_def req_buf_def config_defs)
  moreover have "unat (nr_segment (dev h)) < 2 ^ 24" using nr h(6) by simp
  ultimately show ?thesis using i as inv(1) h(1-5) len by blast
qed
theorem kv_store_serves_witness:
  "\<exists>(h0 :: bi_params handler) bi h G pba bs e.
     handler_init 0 True (Some 16384) (Some 512) True (\<lambda>_. 0) (\<lambda>_. True) (\<lambda>_. True) = Inr h0 \<and>
     kv_step\<^sup>*\<^sup>* (bigkv_index_init, h0, Map.empty) (bi, h, G) \<and> G (5, 9) = Some (pba, bs) \<and> length bs = 1024 \<and> take 1 bs = [2] \<and>
     get_match_entry (bi_buckets bi 5) 9 = Some e \<and> bpba (bi_buckets bi 5 e) = pba"
proof -
  obtain h0 h1 :: "bi_params handler" and b where i: "handler_init 0 True (Some 16384) (Some 512) True (\<lambda>_. 0) (\<lambda>_. True) (\<lambda>_. True) = Inr h0"
    and as: "aside h0 h1" "log_inv h0 Map.empty" and env: "index_env QSIZE h1" "pass_ok 1 h1" "unat (nr_segment (dev h1)) < 2 ^ 24"
    and r: "req_buf 1 h1 b" "unat (vlen (rvalue (req_arr h1 1))) = 1024" "params (req_arr h1 1) = None" "klen (rkey (req_arr h1 1)) = 2"
      "kv_key (req_arr h1 1) = (5, 9)"
    using ex_accepted_set by blast
  have big: "unat (16384 :: u32) * unat (512 :: u32) < 2 ^ 32 * SEGMENT_SIZE" by (simp add: config_defs)
  have "env_step h0 h1" using aside_env [OF as(1)] as(2) by (simp add: log_inv_def)
  then have s1: "kv_step (bigkv_index_init, h0, Map.empty) (bigkv_index_init, h1, Map.empty)" by (rule kv_env)
  have idx: "bucket_idx (hash_high (rkey (req_arr h1 1))) = 5" "hash_low (rkey (req_arr h1 1)) = 9" using r(5) by (simp_all add: kv_key_def)
  have e2: "index_env (Suc (Suc 0)) h1" using env(1) by (auto simp: index_env_def config_defs intro: pools_hold_mono)
  have tg: "set_target 1 bigkv_index_init h1 = Some 0"
    using r(3) by (simp add: set_target_def make_bi_params_def bi_init_bucket init_bucket_target)
  obtain bi h where s: "bigkv_index_set 1 bigkv_index_init h1 = Inr (0, bi, h)"
    using bi_set_logged [OF e2 env(3) r(1) refl r(3) bi_init_bucket(2) _ _ refl, of 0] r(2,4) by (auto simp: bi_init_bucket init_bucket_target config_defs)
  let ?G = "set_map 1 bigkv_index_init h1 bi h Map.empty"
  have "kv_step (bigkv_index_init, h1, Map.empty) (bi, h, ?G)" by (rule kv_set [OF s env(2)])
  with s1 have run: "kv_step\<^sup>*\<^sup>* (bigkv_index_init, h0, Map.empty) (bi, h, ?G)" by (meson converse_rtranclp_into_rtranclp rtranclp.rtrancl_refl)
  let ?bs = "pair_bytes 1 h1"
  have G: "?G (5, 9) = Some (bpba (bi_buckets bi 5 0), ?bs)" using tg idx r(5) by (simp add: set_map_def)
  have "[0..<1024 :: nat] = 0 # [Suc 0..<1024]" by (rule upt_conv_Cons) simp
  then have len: "length ?bs = 1024" "take 1 ?bs = [2]" using r(2,4) by (simp_all add: pair_bytes_def Let_def config_defs with_key_def)
  from kv_store_serves [OF i big TrueI run G] obtain e where
    "get_match_entry (bi_buckets bi 5) 9 = Some e" "bpba (bi_buckets bi 5 e) = bpba (bi_buckets bi 5 0)" by blast
  with i run G len show ?thesis by blast
qed

end
