(* ===== verification/Bigkv_Race.thy ===== *)
theory Bigkv_Race
  imports Bigkv_Evict
begin

section \<open>Partition tables and requests that overlap\<close>

text \<open>
  A GET that misses its bucket works on a copy of the partition table, from the time its read completed to its second pass. This theory
  has what can happen to the table in between: the second pass of a GET that has to make room writes its copy out as the new
  table of the partition, without the entries that were written to the table since; and the copy of a GET whose key is not in it
  is never freed.
\<close>

subsection \<open>Writing out an old copy\<close>

lemma ins_all_room_map:
  assumes "ins_all insert_to_ptable (dirty_entries bks (part_slots base)) g = Some f" and "pt_ok g"
    and "\<forall>(i, j) \<in> set (part_slots base). dirty_bit (bks i j) \<longrightarrow> bi_valid (bks i j)"
    and "\<forall>(i, j) \<in> set (part_slots base). dirty_bit (bks i j) \<longrightarrow> fingerprint (bks i j) \<noteq> fp"
  shows "pt_map f fp = pt_map g fp"
proof (rule pt.ins_all_other [OF assms(1) _ assms(2)])
  show "\<forall>e \<in> set (dirty_entries bks (part_slots base)). bi_valid e" using assms(3) by (auto simp: set_dirty_entries)
  show "\<forall>e' \<in> set (dirty_entries bks (part_slots base)). fingerprint e' \<noteq> fp" using assms(4) by (auto simp: set_dirty_entries)
qed

text \<open>The callback of the write of a GET frees its table.\<close>

lemma table_free_callback:
  fixes h :: "bi_params handler"
  assumes t: "cells (mem h) t = Some buf" "t \<noteq> NULL" and cp: "q_inv (cb_pool h)"
    and cb: "cbfunc (cb_arr h cb) = CB_part_table_write_for_get" "cbarg (cb_arr h cb) = t"
  shows "\<exists>q. run_and_recycle bi_run cb h = Inr (h\<lparr>mem := (mem h)\<lparr>cells := (cells (mem h))(t := None)\<rparr>, cb_pool := q\<rparr>)"
proof -
  obtain b q where "q_enqueue cb (cb_pool h) = Inr (b, q)" using lq.enq_total [OF cp, of cb] by blast
  then show ?thesis using t cb by (intro exI [of _ q]) (simp add: run_and_recycle_def cb_part_table_write_for_get_def mem_free_def)
qed

text \<open>
  C29: a GET can undo a partition table. When the second pass of a GET finds no place in its bucket, it puts the dirty entries of
  the partition into its copy of the table and makes that the table of the partition, whatever table the partition had by then. So every
  key that was written to the table after the copy had been read, and whose entry is neither dirty nor in the bucket any more,
  is not known to the index afterwards: here \<open>M\<close> is the table that the partition has when the pass begins.
\<close>

theorem bi_get_stale_table:
  fixes h :: "bi_params handler"
  assumes env: "index_env (Suc (Suc (Suc k))) h" "unat (nr_segment (dev h)) < 2 ^ 24" "distinct (q_list (cb_pool h))" and sub: "submit_ok h (n_submit h)"
    and r: "req_arr h req = r" "params r = Some p" "read_step p = BI_STEP_UPDATE_TABLE" and hh: "hash_high (rkey r) = hh" "hash_low (rkey r) = fp"
    and t: "temp_buf r \<noteq> NULL" "cells (mem h) (temp_buf r) = Some buf" "PART_TABLE_SIZE \<le> blen buf" "temp_buf r \<noteq> staged_seg_buf (dev h)" "pt_ok (bdat buf)"
    and key: "pt_map (bdat buf) fp = Some (sz, pba)" "is_staged (dev h) (ucast pba) \<noteq> 0"
    and full: "get_target_entry (bi_buckets bi (bucket_idx hh)) fp = None" "lru_ok (bi_buckets bi (bucket_idx hh))"
    and ins: "ins_all insert_to_ptable (dirty_entries (bi_buckets bi) (part_slots (part_base hh))) (bdat buf) = Some f"
    and val: "\<forall>(i, j) \<in> set (part_slots (part_base hh)). dirty_bit (bi_buckets bi i j) \<longrightarrow> bi_valid (bi_buckets bi i j)"
  shows "\<exists>bi' h' pba'. bigkv_index_get req bi h = Inr (0, bi', h') \<and> ppba (bi_parts bi' (part_idx hh)) = ucast pba' \<and>
     stored_at h' pba' PART_TABLE_SIZE f \<and>
     (\<forall>fp' M. fp' \<noteq> fp \<and> pt_map (bdat buf) fp' = None \<and> get_match_entry (bi_buckets bi (bucket_idx hh)) fp' = None \<and>
        (\<forall>(i, j) \<in> set (part_slots (part_base hh)). dirty_bit (bi_buckets bi i j) \<longrightarrow> fingerprint (bi_buckets bi i j) \<noteq> fp') \<longrightarrow>
        bucket_view (bi_buckets bi (bucket_idx hh)) M fp' = M fp' \<and> bucket_view (bi_buckets bi' (bucket_idx hh)) (pt_map f) fp' = None)"
proof -
  let ?b = "bi_buckets bi (bucket_idx hh)" and ?t = "temp_buf r" and ?base = "part_base hh"
  from key(1) obtain i where i: "get_match_entry_f (bdat buf) fp = Some i" "f_kv_size (pt_get (bdat buf) i) = sz" "f_pba (pt_get (bdat buf) i) = pba"
    by (auto simp: pt_map_def pt_used_def split: option.splits if_splits)
  have fi: "f_fingerprint (pt_get (bdat buf) i) = fp" using i(1) by (auto simp: get_match_entry_f_find find_Some_iff)
  define h0 where "h0 = set_temp_buf req NULL h"
  have h0: "index_env (Suc (Suc (Suc k))) h0" "submit_ok h0 (n_submit h0)" "dev h0 = dev h" "mem h0 = mem h" "cb_pool h0 = cb_pool h"
    using env(1) sub by (simp_all add: h0_def set_temp_buf_def index_env_def staged_ok_def pools_hold_def)
  from read_submits [OF h0(1,2), unfolded h0(3-5), OF key(2), of CB_keycmp req bi_run "ucast sz" "vvalue (rvalue r)"]
  obtain cb h1 h2 where s: "make_callback CB_keycmp req h0 = Inr (cb, h1)"
    "dev_abs_read bi_run (ucast pba) (ucast sz) (vvalue (rvalue r)) cb h1 = Inr (0, h2)" "mem h2 = mem h"
    "index_env (Suc (Suc k)) h2" "dev h2 = dev h" "q_list (cb_pool h2) = tl (q_list (cb_pool h))"
    by blast
  let ?bks = "clean_entries (part_slots ?base) (bi_buckets bi)" and ?buf = "buf\<lparr>bdat := f\<rparr>"
  define m1 where "m1 = (mem h)\<lparr>cells := (cells (mem h))(?t \<mapsto> ?buf)\<rparr>"
  have up: "update_part_table ?t ?base (bi_buckets bi) (mem h2) = Inr (?bks, m1)"
  proof (cases "dirty_entries (bi_buckets bi) (part_slots ?base) = []")
    case True
    with ins have "bdat buf = f" by simp
    then have "m1 = mem h" using t(2) by (simp add: m1_def fun_upd_idem)
    with True show ?thesis by (simp add: update_part_table_def persist_entries_eq [OF part_slots_distinct] clean_entries_none s(3))
  next
    case False
    with ins t(1-3) show ?thesis by (simp add: update_part_table_def persist_entries_eq [OF part_slots_distinct] s(3) mem_buf_Inr m1_def mem_buf_def)
  qed
  define h3 where "h3 = h2\<lparr>mem := m1\<rparr>"
  have wf: "mem_wf (mem h)" using env(1) by (simp add: index_env_def staged_ok_def)
  have "?t < brk (mem h)" using wf t(2) by (metis mem_wf_def not_le option.distinct(1))
  then have wf1: "mem_wf m1" using wf t(1) by (simp add: m1_def mem_wf_def)
  have "staged_ok h3" using s(4,5) t(4) wf1 by (auto simp: h3_def m1_def index_env_def staged_ok_def s(3))
  then have e3: "index_env (Suc (Suc k)) h3" using s(4) by (simp add: index_env_def h3_def pools_hold_def)
  have e3': "distinct (q_list (cb_pool h3))" "cells (mem h3) ?t = Some ?buf" "?t \<noteq> staged_seg_buf (dev h3)" "PART_TABLE_SIZE \<le> blen ?buf"
    using s(5,6) t(3,4) env(3) by (simp_all add: h3_def m1_def distinct_tl)
  from log_table [OF e3 e3'(1,2) t(1) e3'(3,4), of CB_part_table_write_for_get ?t bi_run] obtain cb' h4 pba' h5 h6 where
    l: "make_callback CB_part_table_write_for_get ?t h3 = Inr (cb', h4)" "get_next_pba (of_nat PART_TABLE_SIZE) h4 = Inr (pba', h5)"
    "dev_abs_write bi_run pba' (of_nat PART_TABLE_GRAINS) ?t cb' h5 = ebind (run_and_recycle bi_run cb' h6) (\<lambda>h7. Inr (0, h7))"
    "cbfunc (cb_arr h6 cb') = CB_part_table_write_for_get" "cbarg (cb_arr h6 cb') = ?t" "table_logged k ?t ?buf cb' pba' h3 h6" by blast
  have tl: "stored_at h6 pba' PART_TABLE_SIZE f" "cells (mem h6) ?t = Some ?buf" "index_env k h6" "unat (nr_segment (dev h6)) < 2 ^ 24" "?t \<noteq> staged_seg_buf (dev h6)"
    using l(6) env(2) s(5) by (simp_all add: table_logged_def h3_def)
  then have "staged_ok h6" "in_staged (dev h6) pba' PART_TABLE_SIZE" "q_inv (cb_pool h6)" by (simp_all add: stored_at_def index_env_def pools_hold_def)
  note pf = bi_pba_field(1) [OF this(1,2) tl(4)]
  obtain q where q: "run_and_recycle bi_run cb' h6 = Inr (h6\<lparr>mem := (mem h6)\<lparr>cells := (cells (mem h6))(?t := None)\<rparr>, cb_pool := q\<rparr>)"
    using table_free_callback [OF tl(2) t(1) \<open>q_inv (cb_pool h6)\<close> l(4,5)] by blast
  define h7 where "h7 = h6\<lparr>mem := (mem h6)\<lparr>cells := (cells (mem h6))(?t := None)\<rparr>, cb_pool := q\<rparr>"
  define bi1 where "bi1 = set_part (part_idx hh) ((bi_parts bi (part_idx hh))\<lparr>ppba := ucast pba'\<rparr>) (bi\<lparr>bi_buckets := ?bks\<rparr>)"
  have bb: "bi_buckets bi1 = ?bks" "ppba (bi_parts bi1 (part_idx hh)) = ucast pba'" by (simp_all add: bi1_def set_part_def)
  have "lru_ok (?bks (bucket_idx hh))" using full(2) by (simp add: lru_ok_clean)
  moreover have "\<forall>i < NR_SET. \<not> dirty_bit (?bks (bucket_idx hh) i)" using bucket_in_part [of hh] by (simp add: clean_entries_def in_part_slots)
  ultimately obtain e where e: "get_target_entry (?bks (bucket_idx hh)) fp = Some e" using clean_bucket_target by blast
  let ?v = "\<lparr>fingerprint = fp, reserve = 0, dirty_bit = False, lru_bit = 0, bkv_size = sz, bpba = pba\<rparr>"
  let ?bi = "set_bucket (bucket_idx hh) (put_entry e ?v (?bks (bucket_idx hh))) bi1"
  have again: "get_target_retry hh fp (pt_get (bdat buf) i) NULL bi1 h7 = Inr (0, ?bi, h7)"
    using e fi i(2,3) by (subst get_target_retry.simps) (simp add: bb)
  have ret: "get_target_retry hh fp (pt_get (bdat buf) i) ?t bi h2 = Inr (0, ?bi, h7)"
    using full(1) up l(1-3) q pf again by (subst get_target_retry.simps) (simp add: h3_def [symmetric] bi1_def [symmetric] h7_def [symmetric])
  have run: "bigkv_index_get req bi h = Inr (0, ?bi, h7)"
    using r t(1-3) hh i fi s(1,2) ret by (simp add: bigkv_index_get_def bi_ensure_params_def bi_update_table_def Let_def mem_buf_def h0_def [symmetric])
  have lost: "bucket_view (put_entry e ?v (?bks (bucket_idx hh))) (pt_map f) fp' = None"
    if "fp' \<noteq> fp" "pt_map (bdat buf) fp' = None" "get_match_entry ?b fp' = None"
      and nd: "\<forall>(i, j) \<in> set (part_slots ?base). dirty_bit (bi_buckets bi i j) \<longrightarrow> fingerprint (bi_buckets bi i j) \<noteq> fp'" for fp'
  proof -
    have "pt_map f fp' = None" using ins_all_room_map [OF ins t(5) val nd] that(2) by simp
    moreover have "bucket_view (put_entry e ?v (?bks (bucket_idx hh))) (pt_map f) fp' = pt_map f fp'"
      by (rule bucket_view_miss) (use that(1,3) in \<open>auto simp: put_entry_valid get_match_entry_None split: if_splits\<close>)
    ultimately show ?thesis by simp
  qed
  have "stored_at h7 pba' PART_TABLE_SIZE f" using tl(1,5) by (simp add: stored_at_def h7_def)
  moreover have "bucket_view ?b M fp' = M fp'" if "get_match_entry ?b fp' = None" for fp' M using that by (simp add: bucket_view_def)
  moreover have "ppba (bi_parts ?bi (part_idx hh)) = ucast pba'" "bi_buckets ?bi (bucket_idx hh) = put_entry e ?v (?bks (bucket_idx hh))"
    using bb(2) by (simp_all add: set_bucket_def)
  ultimately show ?thesis using run lost by (intro exI [of _ ?bi] exI [of _ h7] exI [of _ pba']) auto
qed
theorem bi_get_stale_table_witness:
  "\<exists>(h :: bi_params handler) bi' h' f. bigkv_index_get 1 full_index h = Inr (0, bi', h') \<and>
     bucket_view (bi_buckets full_index 0) [7 \<mapsto> (8, 5)] 7 = Some (8, 5) \<and> bucket_view (bi_buckets bi' 0) (pt_map f) 7 = None"
proof -
  obtain h :: "bi_params handler" where h: "index_env QSIZE h" "hash_low (rkey (req_arr h 1)) = 9" "hash_high (rkey (req_arr h 1)) = 0"
    "unat (nr_segment (dev h)) < 2 ^ 24"
    using ex_set_and_get [where 'p = bi_params and ty = REQ_TYPE_GET and C = "\<lambda>_. (9, 0)"] by auto
  obtain q where q: "q_inv q" "q_list q = pool_ptrs" using fill_pool by blast
  let ?o = "\<lparr>fingerprint = 9, reserve = 0, dirty_bit = False, lru_bit = 0, bkv_size = 8, bpba = 0x3ffffffff0\<rparr>"
  obtain g where g: "insert_to_ptable ?o pt_empty = Some g" "pt_count g \<le> 1"
    using ins_all_room [of pt_empty "[?o]"] by (auto simp: pt_count_empty BI_MAX_HOP_def split: option.splits)
  have M: "pt_map g = [9 \<mapsto> (8, 0x3ffffffff0)]" and ok: "pt_ok g"
    using insert_to_ptable_map [OF g(1) _ pt_empty_ok] insert_to_ptable_ok [OF g(1) _ pt_empty_ok] by (simp_all add: pt_empty_map BI_PBA_INVALID_def)
  obtain f where f: "ins_all insert_to_ptable (dirty_entries (bi_buckets full_index) (part_slots 0)) g = Some f"
    using ins_all_room [of g "dirty_entries (bi_buckets full_index) (part_slots 0)"] length_dirty_entries [of "bi_buckets full_index" 0] g(2)
    by (auto simp: BI_MAX_HOP_def)
  let ?t = "brk (mem h)" and ?buf = "\<lparr>blen = PART_TABLE_SIZE, bdat = g\<rparr>"
  let ?r = "(req_arr h 1)\<lparr>params := Some \<lparr>read_step = BI_STEP_UPDATE_TABLE, write_step = BI_STEP_WRITE_PTABLE\<rparr>, temp_buf := ?t\<rparr>"
  let ?h = "h\<lparr>submit_ok := \<lambda>_. True, cb_pool := q, req_arr := (req_arr h)(1 := ?r),
     mem := (mem h)\<lparr>cells := (cells (mem h))(?t \<mapsto> ?buf), brk := Suc ?t\<rparr>\<rparr>"
  have e: "index_env (Suc (Suc (Suc 0))) ?h" "?t \<noteq> NULL" "?t \<noteq> staged_seg_buf (dev ?h)" "distinct (q_list (cb_pool ?h))"
    using h(1) q by (auto simp: index_env_def staged_ok_def pools_hold_def mem_wf_def QSIZE_def pool_ptrs_def)
  have out: "is_staged (dev ?h) (ucast (0x3ffffffff0 :: 42 word)) \<noteq> 0"
    using far_not_staged [OF h(1,4), of "ucast (0x3ffffffff0 :: 42 word)"] by (simp add: config_defs)
  have z: "bucket_idx 0 = 0" "part_base 0 = 0" "part_idx 0 = 0" by (simp_all add: bucket_idx_def part_base_def part_idx_def)
  have val: "\<forall>(i, j) \<in> set (part_slots 0). dirty_bit (bi_buckets full_index i j) \<longrightarrow> bi_valid (bi_buckets full_index i j)"
    using full_bucket_entry(1) init_entry_invalid(2) by (auto simp: in_part_slots full_index_bucket)
  have nd: "\<forall>(i, j) \<in> set (part_slots 0). dirty_bit (bi_buckets full_index i j) \<longrightarrow> fingerprint (bi_buckets full_index i j) \<noteq> 7"
    using init_entry_invalid(2) by (auto simp: in_part_slots full_index_bucket full_bucket_def less_NR_SET)
  have miss: "get_match_entry (bi_buckets full_index 0) 7 = None"
    by (auto simp: get_match_entry_None full_index_bucket full_bucket_def less_NR_SET)
  have lru: "lru_ok (bi_buckets full_index 0)" "get_target_entry (bi_buckets full_index 0) 9 = None"
    using full_index_ok(3,4) by (simp_all add: full_index_def set_bucket_def)
  have "\<exists>bi' h' pba'. bigkv_index_get 1 full_index ?h = Inr (0, bi', h') \<and> ppba (bi_parts bi' (part_idx 0)) = ucast pba' \<and>
     stored_at h' pba' PART_TABLE_SIZE f \<and>
     (\<forall>fp' M. fp' \<noteq> 9 \<and> pt_map (bdat ?buf) fp' = None \<and> get_match_entry (bi_buckets full_index (bucket_idx 0)) fp' = None \<and>
        (\<forall>(i, j) \<in> set (part_slots (part_base 0)). dirty_bit (bi_buckets full_index i j) \<longrightarrow> fingerprint (bi_buckets full_index i j) \<noteq> fp') \<longrightarrow>
        bucket_view (bi_buckets full_index (bucket_idx 0)) M fp' = M fp' \<and> bucket_view (bi_buckets bi' (bucket_idx 0)) (pt_map f) fp' = None)"
  proof (rule bi_get_stale_table [OF e(1) _ e(4), where r = ?r and buf = ?buf and hh = 0 and fp = 9 and sz = 8 and pba = "0x3ffffffff0"
        and p = "\<lparr>read_step = BI_STEP_UPDATE_TABLE, write_step = BI_STEP_WRITE_PTABLE\<rparr>"])
    show "is_staged (dev ?h) (ucast (0x3ffffffff0 :: 42 word)) \<noteq> 0" by (rule out)
    show "unat (nr_segment (dev ?h)) < 2 ^ 24" using h(4) by simp
    show "temp_buf ?r \<noteq> staged_seg_buf (dev ?h)" "temp_buf ?r \<noteq> NULL" using e(2,3) by simp_all
    show "hash_high (rkey ?r) = 0" "hash_low (rkey ?r) = 9" using h(2,3) by simp_all
    show "pt_ok (bdat ?buf)" "pt_map (bdat ?buf) 9 = Some (8, 0x3ffffffff0)" using ok M by simp_all
    show "ins_all insert_to_ptable (dirty_entries (bi_buckets full_index) (part_slots (part_base 0))) (bdat ?buf) = Some f"
      unfolding z(2) using f by simp
  qed (use lru val in \<open>simp_all add: z\<close>)
  then obtain bi' h' where g: "bigkv_index_get 1 full_index ?h = Inr (0, bi', h')"
    and v: "\<And>fp' M. fp' \<noteq> 9 \<Longrightarrow> pt_map g fp' = None \<Longrightarrow> get_match_entry (bi_buckets full_index 0) fp' = None \<Longrightarrow>
        (\<forall>(i, j) \<in> set (part_slots 0). dirty_bit (bi_buckets full_index i j) \<longrightarrow> fingerprint (bi_buckets full_index i j) \<noteq> fp') \<Longrightarrow>
        bucket_view (bi_buckets full_index 0) M fp' = M fp' \<and> bucket_view (bi_buckets bi' 0) (pt_map f) fp' = None"
    unfolding z by (elim exE conjE) simp
  have "pt_map g 7 = None" by (simp add: M)
  from v [OF _ this miss nd, of "[7 \<mapsto> (8, 5)]"] g show ?thesis by (intro exI [of _ ?h] exI [of _ bi'] exI [of _ h'] exI [of _ f]) simp
qed

subsection \<open>A copy that stays\<close>

text \<open>
  A GET whose key is not in the partition table: its second pass returns -1, the handler ends the request, and the copy of the table stays allocated with
  nothing left that points to it, as the request goes back to its pool.
\<close>

lemma bi_get_missing_leaks:
  fixes h :: "bi_params handler"
  assumes r: "req_arr h req = r" "rtype r = REQ_TYPE_GET" "params r = Some p" "read_step p = BI_STEP_UPDATE_TABLE"
    and t: "temp_buf r \<noteq> NULL" "cells (mem h) (temp_buf r) = Some buf" "PART_TABLE_SIZE \<le> blen buf" and miss: "get_match_entry_f (bdat buf) (hash_low (rkey r)) = None"
    and v: "cells (mem h) (vvalue (rvalue r)) = Some b" "vvalue (rvalue r) \<noteq> temp_buf r" "vvalue (rvalue r) \<noteq> NULL"
    and pool: "q_inv (req_pool h)" "int (length (q_list (req_pool h))) < m_size (req_pool h)"
  shows "\<exists>h'. dispatch bigkv_index_set bigkv_index_get req bi h = Some (Inr (bi, h')) \<and> acks h' = acks h @ [ack_of (clock h) r] \<and>
     q_list (req_pool h') = q_list (req_pool h) @ [req] \<and> cells (mem h') (temp_buf r) = Some buf"
proof -
  have g: "bigkv_index_get req bi h = Inr (-1, bi, h)"
    using r t miss by (simp add: bigkv_index_get_def bi_ensure_params_def bi_update_table_def Let_def mem_buf_def)
  have m: "mem_free (vvalue (rvalue (req_arr h req))) (mem h) = Inr ((mem h)\<lparr>cells := (cells (mem h))(vvalue (rvalue r) := None)\<rparr>)"
    using v r(1) by (simp add: mem_free_def)
  from net_end_req_ok [OF pool m] obtain h' where h': "net_end_req req h = Inr h'" "acks h' = acks h @ [ack_of (clock h) r]"
    "q_list (req_pool h') = q_list (req_pool h) @ [req]" "mem h' = (mem h)\<lparr>cells := (cells (mem h))(vvalue (rvalue r) := None)\<rparr>" using r(1) by auto
  then show ?thesis using g r t(2) v(2) by (intro exI [of _ h']) (simp add: dispatch_def)
qed

end
