(* ===== verification/Bi_Lru.thy ===== *)
theory Bi_Lru
  imports Bi_Bucket
begin

section \<open>The two LRU bits are the LRU list (\<open>src/bigkv_index.c\<close>)\<close>

text \<open>
  A bucket keeps the order of use of its four entries in two bits per entry. The reference is the list of the entries that were
  used, the last used one first, where a use moves its entry to the front. This theory shows that after any sequence of uses of a
  fresh bucket the bits are the positions in that list, and that \<open>get_target_entry\<close> replaces the last element of the list.
\<close>

subsection \<open>The reference: a list with move to front\<close>

definition lru_use :: "nat \<Rightarrow> nat list \<Rightarrow> nat list" where
  "lru_use e l = e # removeAll e l"

definition lru_pos :: "nat \<Rightarrow> nat list \<Rightarrow> nat" where
  "lru_pos i l = length (takeWhile (\<lambda>j. j \<noteq> i) l)"

definition lru_rank :: "nat \<Rightarrow> nat list \<Rightarrow> nat" where
  "lru_rank i l = (if i \<in> set l then lru_pos i l else 3)"

lemma lru_pos_simps [simp]: "lru_pos i [] = 0" "lru_pos i (j # l) = (if i = j then 0 else Suc (lru_pos i l))"
  by (auto simp: lru_pos_def)

lemma lru_pos_lt: "i \<in> set l \<Longrightarrow> lru_pos i l < length l"
  by (induction l) auto

lemma lru_pos_inj: "i \<in> set l \<Longrightarrow> j \<in> set l \<Longrightarrow> lru_pos i l = lru_pos j l \<Longrightarrow> i = j"
  by (induction l) (auto split: if_splits)

lemma lru_pos_last: "distinct l \<Longrightarrow> l \<noteq> [] \<Longrightarrow> lru_pos (last l) l = length l - 1"
  by (induction l) (auto simp: Suc_diff_1)

lemma lru_pos_remove:
  "distinct l \<Longrightarrow> i \<noteq> e \<Longrightarrow> i \<in> set l \<Longrightarrow>
     lru_pos i (removeAll e l) = (if e \<in> set l \<and> lru_pos e l < lru_pos i l then lru_pos i l - 1 else lru_pos i l)"
  by (induction l) auto

lemma lru_use_set [simp]: "set (lru_use e l) = insert e (set l)"
  by (auto simp: lru_use_def)

lemma lru_use_distinct: "distinct l \<Longrightarrow> distinct (lru_use e l)"
  by (simp add: lru_use_def distinct_removeAll)

lemma lru_list_short: "distinct l \<Longrightarrow> set l \<subseteq> {0..<n} \<Longrightarrow> length l \<le> n"
  using card_mono [of "{0..<n}" "set l"] by (simp add: distinct_card)

lemma lru_list_miss_short: "distinct l \<Longrightarrow> set l \<subseteq> {0..<n} \<Longrightarrow> e < n \<Longrightarrow> e \<notin> set l \<Longrightarrow> length l < n"
  using lru_list_short [of "e # l" n] by simp

text \<open>The rule of the ageing loop, on the positions of the list.\<close>

lemma lru_rank_use:
  assumes l: "distinct l" "set l \<subseteq> {0..<4}" and e: "e < 4"
  shows "lru_rank i (lru_use e l) =
     (if i = e then 0 else if lru_rank i l < lru_rank e l then Suc (lru_rank i l) else lru_rank i l)"
proof (cases "i = e \<or> i \<notin> set l")
  case True
  moreover have "lru_rank e l \<le> 3"
    using lru_pos_lt [of e l] lru_list_short [OF l] by (auto simp: lru_rank_def)
  ultimately show ?thesis by (auto simp: lru_rank_def lru_use_def)
next
  case False
  then have i: "i \<noteq> e" "i \<in> set l" by blast+
  then have u: "lru_rank i (lru_use e l) = Suc (lru_pos i (removeAll e l))" by (simp add: lru_rank_def lru_use_def)
  show ?thesis
  proof (cases "e \<in> set l")
    case True
    then have "lru_pos i l \<noteq> lru_pos e l" using lru_pos_inj i by blast
    with u True i lru_pos_remove [OF l(1) i] show ?thesis by (auto simp: lru_rank_def)
  next
    case False
    have "lru_pos i l < 3" using lru_pos_lt [OF i(2)] lru_list_miss_short [OF l e False] by simp
    with u False i lru_pos_remove [OF l(1) i] show ?thesis by (simp add: lru_rank_def)
  qed
qed

subsection \<open>Sequences of uses of a bucket\<close>

text \<open>An entry is used by an assignment (SET, or GET that loads from the partition table) or by a hit.\<close>

datatype bi_use = Put nat bi_entry | Touch nat

fun use_entry :: "bi_use \<Rightarrow> nat" where
  "use_entry (Put e v) = e"
| "use_entry (Touch e) = e"

fun use_bucket :: "bi_use \<Rightarrow> bi_bucket \<Rightarrow> bi_bucket" where
  "use_bucket (Put e v) b = put_entry e v b"
| "use_bucket (Touch e) b = touch_entry e b"

definition use_all :: "bi_use list \<Rightarrow> bi_bucket \<Rightarrow> bi_bucket" where
  "use_all us b = fold use_bucket us b"

definition lru_list :: "bi_use list \<Rightarrow> nat list" where
  "lru_list us = fold (\<lambda>u. lru_use (use_entry u)) us []"

lemma use_snoc [simp]:
  "use_all (us @ [u]) b = use_bucket u (use_all us b)" "lru_list (us @ [u]) = lru_use (use_entry u) (lru_list us)"
  "use_all [] b = b" "lru_list [] = []"
  by (simp_all add: use_all_def lru_list_def)

lemma use_bucket_ranks: "use_entry u < NR_SET \<Longrightarrow> lru_ranks (use_bucket u b) = age_ranks (use_entry u) (lru_ranks b)"
  by (cases u) (simp_all add: put_entry_ranks touch_entry_ranks)

lemma lru_list_wf: "\<forall>u \<in> set us. use_entry u < NR_SET \<Longrightarrow> distinct (lru_list us) \<and> set (lru_list us) \<subseteq> {0..<NR_SET}"
  by (induction us rule: rev_induct) (auto simp: lru_use_distinct)

lemma use_all_ranks:
  "\<forall>u \<in> set us. use_entry u < NR_SET \<Longrightarrow> i < NR_SET \<Longrightarrow>
     unat (lru_bit (use_all us (\<lambda>_. init_bi_entry) i)) = lru_rank i (lru_list us)"
proof (induction us arbitrary: i rule: rev_induct)
  case (snoc u us)
  let ?b = "use_all us (\<lambda>_. init_bi_entry)" and ?e = "use_entry u"
  have e: "?e < NR_SET" and us: "\<forall>u \<in> set us. use_entry u < NR_SET" using snoc.prems by simp_all
  have "unat (lru_bit (use_bucket u ?b i)) = age_ranks ?e (lru_ranks ?b) ! i"
    using use_bucket_ranks [OF e, of ?b] lru_ranks_nth(1) [OF snoc.prems(2)] by metis
  also have "\<dots> = (if i = ?e then 0 else if lru_rank i (lru_list us) < lru_rank ?e (lru_list us)
      then Suc (lru_rank i (lru_list us)) else lru_rank i (lru_list us))"
    using snoc.prems(2) e snoc.IH [OF us] by (simp add: age_ranks_def bi_config)
  also have "\<dots> = lru_rank i (lru_use ?e (lru_list us))"
    using lru_rank_use [of "lru_list us" ?e i] lru_list_wf [OF us] e by (simp add: bi_config)
  finally show ?case by simp
qed (simp add: lru_rank_def init_bi_entry_def)

lemma use_bucket_bpba: "bpba (use_bucket u b i) = (case u of Put e v \<Rightarrow> if i = e then bpba v else bpba (b i) | Touch e \<Rightarrow> bpba (b i))"
  by (cases u) (auto simp: put_entry_apply touch_entry_apply)

lemma use_all_valid:
  "bpba (use_all us (\<lambda>_. init_bi_entry) i) \<noteq> BI_PBA_INVALID \<Longrightarrow> i \<in> set (lru_list us)"
  by (induction us rule: rev_induct) (auto simp: use_bucket_bpba init_bi_entry_def split: bi_use.splits if_splits)

text \<open>A full bucket has used all its entries, so its list is complete and the rank 3 is that of the last one.\<close>

lemma full_list:
  assumes "\<forall>u \<in> set us. use_entry u < NR_SET" and "\<forall>i < NR_SET. bpba (use_all us (\<lambda>_. init_bi_entry) i) \<noteq> BI_PBA_INVALID"
  shows "set (lru_list us) = {0..<NR_SET} \<and> length (lru_list us) = NR_SET"
proof -
  have "set (lru_list us) = {0..<NR_SET}" using lru_list_wf [OF assms(1)] assms(2) use_all_valid by fastforce
  with distinct_card lru_list_wf [OF assms(1)] show ?thesis by force
qed

lemma full_rank_3:
  assumes us: "\<forall>u \<in> set us. use_entry u < NR_SET" and full: "\<forall>i < NR_SET. bpba (use_all us (\<lambda>_. init_bi_entry) i) \<noteq> BI_PBA_INVALID"
    and i: "i < NR_SET"
  shows "lru_bit (use_all us (\<lambda>_. init_bi_entry) i) = 3 \<longleftrightarrow> i = last (lru_list us)"
proof -
  let ?l = "lru_list us" and ?w = "lru_bit (use_all us (\<lambda>_. init_bi_entry) i)"
  note fl = full_list [OF us full]
  then have ne: "?l \<noteq> []" by (auto simp: bi_config)
  have "?w = 3 \<longleftrightarrow> unat ?w = 3" by (simp add: word_unat_eq_iff)
  also have "\<dots> \<longleftrightarrow> lru_pos i ?l = 3" using use_all_ranks [OF us i] fl i by (simp add: lru_rank_def)
  also have "\<dots> \<longleftrightarrow> lru_pos i ?l = lru_pos (last ?l) ?l"
    using lru_pos_last [OF conjunct1 [OF lru_list_wf [OF us]] ne] fl by (simp add: bi_config)
  also have "\<dots> \<longleftrightarrow> i = last ?l"
    using lru_pos_inj [of i ?l "last ?l"] conjunct1 [OF fl] i last_in_set [OF ne] by fastforce
  finally show ?thesis .
qed

lemma find_unique: "(\<And>i. i < n \<Longrightarrow> P i \<longleftrightarrow> i = k) \<Longrightarrow> k < n \<Longrightarrow> find P [0..<n] = Some k"
  by (simp add: find_upt_Some)

text \<open>
  C10: a bucket is a least-recently-used cache. After any sequence of uses of a fresh bucket the two LRU bits of an entry are its
  position in the list of the used entries ordered by their last use (3 for an entry never used). In a full bucket that does not
  have the fingerprint, \<open>get_target_entry\<close> chooses the entry whose last use is the oldest, and fails exactly
  when that one is dirty.
\<close>

theorem bi_lru_equiv:
  assumes us: "\<forall>u \<in> set us. use_entry u < NR_SET" and b: "b = use_all us (\<lambda>_. init_bi_entry)"
  shows "(\<forall>i < NR_SET. unat (lru_bit (b i)) = lru_rank i (lru_list us)) \<and>
     ((\<forall>i < NR_SET. bpba (b i) \<noteq> BI_PBA_INVALID \<and> fingerprint (b i) \<noteq> fp) \<longrightarrow>
        set (lru_list us) = {0..<NR_SET} \<and> distinct (lru_list us) \<and>
        get_target_entry b fp = (if dirty_bit (b (last (lru_list us))) then None else Some (last (lru_list us))))"
proof (intro conjI impI)
  show "\<forall>i < NR_SET. unat (lru_bit (b i)) = lru_rank i (lru_list us)" using use_all_ranks us b by blast
next
  assume full: "\<forall>i < NR_SET. bpba (b i) \<noteq> BI_PBA_INVALID \<and> fingerprint (b i) \<noteq> fp"
  then have v: "\<forall>i < NR_SET. bpba (use_all us (\<lambda>_. init_bi_entry) i) \<noteq> BI_PBA_INVALID" using b by blast
  note fl = full_list [OF us v]
  then show "set (lru_list us) = {0..<NR_SET}" "distinct (lru_list us)" using lru_list_wf [OF us] by auto
  have "last (lru_list us) \<in> set (lru_list us)" using fl by (intro last_in_set) (auto simp: bi_config)
  with fl have lt: "last (lru_list us) < NR_SET" by simp
  have "find (\<lambda>i. fingerprint (b i) = fp) [0..<NR_SET] = None" "find (\<lambda>i. bpba (b i) = BI_PBA_INVALID) [0..<NR_SET] = None"
    using full by (auto simp: find_upt_None)
  moreover have "find (\<lambda>i. lru_bit (b i) = 3) [0..<NR_SET] = Some (last (lru_list us))"
    using full_rank_3 [OF us v] b lt by (intro find_unique) auto
  ultimately show "get_target_entry b fp = (if dirty_bit (b (last (lru_list us))) then None else Some (last (lru_list us)))"
    by (simp add: get_target_entry_def)
qed

definition sample_uses :: "bi_use list" where
  "sample_uses = map (\<lambda>i. Put i (init_bi_entry\<lparr>fingerprint := 7 + of_nat i, bpba := 1\<rparr>)) [0, 1, 2, 3] @ [Touch 0]"

theorem bi_lru_equiv_witness:
  "lru_list sample_uses = [0, 3, 2, 1] \<and> get_target_entry (use_all sample_uses (\<lambda>_. init_bi_entry)) 99 = Some 1 \<and>
   map (\<lambda>i. unat (lru_bit (use_all sample_uses (\<lambda>_. init_bi_entry) i))) [0, 1, 2, 3] = [0, 3, 2, 1]"
proof -
  let ?b = "use_all sample_uses (\<lambda>_. init_bi_entry)"
  have l: "lru_list sample_uses = [0, 3, 2, 1]"
    by (simp add: lru_list_def sample_uses_def lru_use_def)
  have f: "bpba (?b i) = 1 \<and> \<not> dirty_bit (?b i) \<and> fingerprint (?b i) = 7 + of_nat i" if "i < NR_SET" for i
    using that by (auto simp: use_all_def sample_uses_def put_entry_apply touch_entry_apply init_bi_entry_def bi_config
        less_Suc_eq numeral_eq_Suc)
  have "\<forall>u \<in> set sample_uses. use_entry u < NR_SET" by (simp add: sample_uses_def bi_config)
  from bi_lru_equiv [OF this refl, of 99] have
    r: "\<forall>i < NR_SET. unat (lru_bit (?b i)) = lru_rank i [0, 3, 2, 1]" and
    t: "(\<forall>i < NR_SET. bpba (?b i) \<noteq> BI_PBA_INVALID \<and> fingerprint (?b i) \<noteq> 99) \<longrightarrow>
        get_target_entry ?b 99 = (if dirty_bit (?b 1) then None else Some 1)" by (simp_all add: l)
  have "fingerprint (?b i) \<noteq> 99" if "i < NR_SET" for i
  proof -
    have "i = 0 \<or> i = 1 \<or> i = 2 \<or> i = 3" using that by (auto simp: bi_config)
    with f [OF that] show ?thesis by auto
  qed
  with t f have "get_target_entry ?b 99 = Some 1" by (simp add: BI_PBA_INVALID_def bi_config)
  with l r show ?thesis by (simp add: lru_rank_def bi_config)
qed

end
