(* ===== verification/Handler.thy ===== *)
theory Handler
  imports Kv_Ops "HOL-Library.Multiset"
begin

section \<open>The request handler (\<open>src/handler.c\<close>)\<close>

text \<open>
  A handler is served by two threads of the program: the master forwards requests to it (\<open>forward_req_to_hlr\<close>, which takes the in-flight
  window \<open>flying\<close> first), and its own thread takes them from the queue (\<open>get_next_request\<close>) and works on them (\<open>request_handler\<close>).
  As the source stands, the loop of \<open>request_handler\<close> ends every request it takes and continues: what follows in the loop (the callbacks of \<open>done_q\<close>
  and the dispatch to the index) is not reached. The dispatch is modelled apart, as \<open>dispatch\<close>. The relation \<open>hsys_step\<close> interleaves the two
  threads on one handler; a lock makes each queue operation atomic, and one step is one call of the loop body on either side. A call of \<open>forward_req_to_hlr\<close> is one step: between taking the window
  and the enqueue the source lets the handler thread run, which then finds the window taken and the request not queued yet.
\<close>

subsection \<open>Operations\<close>

text \<open>\<open>None\<close>: the caller waits in \<open>cl_grap\<close>.\<close>

definition forward_req_to_hlr :: "ptr \<Rightarrow> 'p handler \<Rightarrow> (int \<times> 'p handler) res option" where
  "forward_req_to_hlr req h =
     (case cl_grap (flying h) of
        None \<Rightarrow> None
      | Some l \<Rightarrow> Some (ebind (q_enqueue req (req_q h)) (\<lambda>(ok, q).
          Inr (if ok then 0 else -1, h\<lparr>flying := l, req_q := q\<rparr>))))"

text \<open>The null pointer is returned when both queues are empty. \<open>ok\<close> is the outcome of the allocation in \<open>add_request_info\<close>.\<close>

definition get_next_request :: "(byte list \<Rightarrow> u64 \<times> u64) \<Rightarrow> bool \<Rightarrow> 'p handler \<Rightarrow> (ptr \<times> 'p handler) res" where
  "get_next_request CityHash128 ok h =
     ebind (q_dequeue (retry_q h)) (\<lambda>(req, q).
     if req \<noteq> NULL then Inr (req, h\<lparr>retry_q := q\<rparr>)
     else ebind (q_dequeue (req_q h)) (\<lambda>(req, q').
          let h1 = h\<lparr>retry_q := q, req_q := q'\<rparr>
          in if req = NULL then Inr (NULL, h1)
             else if vvalue (rvalue (req_arr h1 req)) = NULL
                  then ebind (add_request_info CityHash128 ok req h1) (\<lambda>h2. Inr (req, h2))
                  else Inr (req, h1)))"

text \<open>
  The loop of \<open>request_handler\<close> as a program counter: at the head of the loop, at \<open>req->end_req(req)\<close>, or returned. \<open>stop\<close> is
  \<open>stopflag_hlr\<close>.
\<close>

datatype hlr_pc = H_NEXT | H_END ptr | H_EXIT

fun request_handler_step :: "(byte list \<Rightarrow> u64 \<times> u64) \<Rightarrow> bool \<Rightarrow> bool \<Rightarrow> hlr_pc \<Rightarrow> 'p handler \<Rightarrow> (hlr_pc \<times> 'p handler) res" where
  "request_handler_step C stop ok H_NEXT h =
     (if stop \<and> now (flying h) = 0 then Inr (H_EXIT, h)
      else ebind (get_next_request C ok h) (\<lambda>(req, h1). Inr (if req = NULL then H_NEXT else H_END req, h1)))"
| "request_handler_step C stop ok (H_END req) h = ebind (net_end_req req h) (\<lambda>h1. Inr (H_NEXT, h1))"
| "request_handler_step C stop ok H_EXIT h = Inr (H_EXIT, h)"

text \<open>A bounded run of the thread alone, with the stop flag set and allocations that succeed.\<close>

fun request_handler_run :: "(byte list \<Rightarrow> u64 \<times> u64) \<Rightarrow> nat \<Rightarrow> hlr_pc \<Rightarrow> 'p handler \<Rightarrow> (hlr_pc \<times> 'p handler) res" where
  "request_handler_run C 0 pc h = Inr (pc, h)"
| "request_handler_run C (Suc n) pc h = ebind (request_handler_step C True True pc h) (\<lambda>(pc', h'). request_handler_run C n pc' h')"

subsection \<open>The master and the handler thread on one handler\<close>

text \<open>\<open>arrived\<close> records the messages taken from the network; \<open>pending\<close> is the request the master has made and not forwarded yet.\<close>

record 'p hsys =
  hlr :: "'p handler"
  pc :: hlr_pc
  pending :: "ptr option"
  arrived :: "(int \<times> netreq) list"

definition hsys_start :: "'p handler \<Rightarrow> 'p hsys" where
  "hsys_start h = \<lparr>hlr = h, pc = H_NEXT, pending = None, arrived = []\<rparr>"

inductive hsys_step :: "(byte list \<Rightarrow> u64 \<times> u64) \<Rightarrow> 'p hsys \<Rightarrow> 'p hsys \<Rightarrow> bool" for C where
  recv: "pending s = None \<Longrightarrow> make_request_from_netreq nr sock (hlr s) = Inr (req, h') \<Longrightarrow>
     hsys_step C s (s\<lparr>hlr := h', pending := Some req, arrived := arrived s @ [(sock, nr)]\<rparr>)"
| forward: "pending s = Some req \<Longrightarrow> forward_req_to_hlr req (hlr s) = Some (Inr (rc, h')) \<Longrightarrow>
     hsys_step C s (s\<lparr>hlr := h', pending := None\<rparr>)"
| handle: "request_handler_step C stop ok (pc s) (hlr s) = Inr (pc', h') \<Longrightarrow> hsys_step C s (s\<lparr>hlr := h', pc := pc'\<rparr>)"
| tick: "hsys_step C s (s\<lparr>hlr := (hlr s)\<lparr>clock := t\<rparr>\<rparr>)"

inductive hsys_reachable :: "(byte list \<Rightarrow> u64 \<times> u64) \<Rightarrow> 'p handler \<Rightarrow> 'p hsys \<Rightarrow> bool" for C h0 where
  start: "hsys_reachable C h0 (hsys_start h0)"
| step: "hsys_reachable C h0 s \<Longrightarrow> hsys_step C s s' \<Longrightarrow> hsys_reachable C h0 s'"

text \<open>What identifies a message, a request made for it, and its acknowledgement.\<close>

type_synonym tag = "int \<times> u32 \<times> req_type_t"

definition msg_tag :: "int \<times> netreq \<Rightarrow> tag" where
  "msg_tag m = (fst m, nr_seq_num (snd m), nr_type (snd m))"

definition req_tag :: "'p request \<Rightarrow> tag" where
  "req_tag r = (cl_sock r, seq_num r, rtype r)"

definition ack_tag :: "int \<times> netack \<Rightarrow> tag" where
  "ack_tag a = (fst a, ack_seq_num (snd a), ack_type (snd a))"

definition pc_reqs :: "hlr_pc \<Rightarrow> ptr list" where
  "pc_reqs p = (case p of H_END r \<Rightarrow> [r] | _ \<Rightarrow> [])"

text \<open>The requests in flight, oldest first.\<close>

definition inflight :: "'p hsys \<Rightarrow> ptr list" where
  "inflight s = pc_reqs (pc s) @ q_list (req_q (hlr s)) @ (case pending s of Some r \<Rightarrow> [r] | None \<Rightarrow> [])"

lemma pc_reqs_simps [simp]: "pc_reqs H_NEXT = []" "pc_reqs (H_END r) = [r]" "pc_reqs H_EXIT = []"
  by (simp_all add: pc_reqs_def)

subsection \<open>The invariant\<close>

text \<open>The state of a handler after \<open>handler_init\<close>, as far as the two threads use it.\<close>

definition hlr_ready :: "'p handler \<Rightarrow> bool" where
  "hlr_ready h \<longleftrightarrow> q_inv (req_pool h) \<and> q_list (req_pool h) = pool_ptrs \<and> req_q h = q_init (int QSIZE) \<and>
     retry_q h = q_init (int QSIZE) \<and> flying h = cl_init (int QDEPTH) False \<and> acks h = [] \<and> mem_wf (mem h)"

definition hlr_queues :: "'p handler \<Rightarrow> bool" where
  "hlr_queues h \<longleftrightarrow> q_inv (req_pool h) \<and> q_inv (req_q h) \<and> m_size (req_q h) = int QSIZE \<and>
     q_inv (retry_q h) \<and> q_list (retry_q h) = [] \<and> \<not> zero_lock (flying h) \<and> cnt (flying h) = int QDEPTH"

text \<open>The buffer of the request the thread works on is the only one allocated since the start.\<close>

definition only_buffer :: "hlr_pc \<Rightarrow> (ptr \<Rightarrow> mbuf option) \<Rightarrow> 'p handler \<Rightarrow> bool" where
  "only_buffer p c0 h \<longleftrightarrow>
     (case p of
        H_END r \<Rightarrow> (let v = vvalue (rvalue (req_arr h r))
                    in if v = NULL then cells (mem h) = c0 else c0 v = None \<and> (\<exists>b. cells (mem h) = c0(v \<mapsto> b)))
      | _ \<Rightarrow> cells (mem h) = c0)"

definition untouched :: "'p handler \<Rightarrow> 'p handler \<Rightarrow> bool" where
  "untouched h0 h \<longleftrightarrow> dev h = dev h0 \<and> disk h = disk h0 \<and> submitted h = submitted h0 \<and>
     iocb_pool h = iocb_pool h0 \<and> cb_pool h = cb_pool h0 \<and> retry_q h = retry_q h0"

definition hsys_inv :: "'p handler \<Rightarrow> 'p hsys \<Rightarrow> bool" where
  "hsys_inv h0 s \<longleftrightarrow> (let h = hlr s in hlr_queues h \<and> int QSIZE \<le> m_size (req_pool h) \<and>
     now (flying h) = int (length (pc_reqs (pc s) @ q_list (req_q h))) \<and> now (flying h) \<le> int QDEPTH \<and>
     mset (q_list (req_pool h)) + mset (inflight s) = mset pool_ptrs \<and>
     map ack_tag (acks h) @ map (\<lambda>r. req_tag (req_arr h r)) (inflight s) = map msg_tag (arrived s) \<and>
     mem_wf (mem h) \<and> (\<forall>r \<in> set (inflight s). r \<notin> set (pc_reqs (pc s)) \<longrightarrow> vvalue (rvalue (req_arr h r)) = NULL) \<and>
     only_buffer (pc s) (cells (mem h0)) h \<and> untouched h0 h)"

lemma map_upd_other: "x \<notin> set xs \<Longrightarrow> map (\<lambda>r. f ((g(x := y)) r)) xs = map (\<lambda>r. f (g r)) xs"
  by (induction xs) auto

lemma snoc_map: "xs @ [y] = map f zs \<Longrightarrow> xs = map f (take (length zs - 1) zs)"
  by (cases zs rule: rev_cases) auto

lemma hsys_invD:
  assumes "hsys_inv h0 s"
  shows "hlr_queues (hlr s)" "int QSIZE \<le> m_size (req_pool (hlr s))"
    "now (flying (hlr s)) = int (length (pc_reqs (pc s) @ q_list (req_q (hlr s))))" "now (flying (hlr s)) \<le> int QDEPTH"
    "mset (q_list (req_pool (hlr s))) + mset (inflight s) = mset pool_ptrs"
    "map ack_tag (acks (hlr s)) @ map (\<lambda>r. req_tag (req_arr (hlr s) r)) (inflight s) = map msg_tag (arrived s)"
    "mem_wf (mem (hlr s))"
    "\<And>r. r \<in> set (inflight s) \<Longrightarrow> r \<notin> set (pc_reqs (pc s)) \<Longrightarrow> vvalue (rvalue (req_arr (hlr s) r)) = NULL"
    "only_buffer (pc s) (cells (mem h0)) (hlr s)" "untouched h0 (hlr s)"
  using assms by (simp_all add: hsys_inv_def Let_def)

lemma hsys_inv_start: "hlr_ready h \<Longrightarrow> hsys_inv h (hsys_start h)"
  using lq.within_capacity [of "req_pool h"]
  by (simp add: hsys_inv_def hlr_ready_def hsys_start_def hlr_queues_def inflight_def only_buffer_def untouched_def cl_init_def)

text \<open>Every request is in one place: the pool and the requests in flight have no element in common and no element twice.\<close>

lemma hsys_distinct:
  assumes "hsys_inv h0 s"
  shows "distinct (q_list (req_pool (hlr s)) @ inflight s)" "NULL \<notin> set (q_list (req_pool (hlr s)))" "NULL \<notin> set (inflight s)"
    "length (q_list (req_pool (hlr s))) + length (inflight s) = QSIZE"
proof -
  note m = hsys_invD(5) [OF assms]
  then have ms: "mset (q_list (req_pool (hlr s)) @ inflight s) = mset pool_ptrs" by simp
  show "distinct (q_list (req_pool (hlr s)) @ inflight s)"
    unfolding mset_eq_imp_distinct_iff [OF ms] by (simp add: pool_ptrs_def)
  from mset_eq_setD [OF ms] have "set (q_list (req_pool (hlr s))) \<union> set (inflight s) = set pool_ptrs" by simp
  with null_notin_pool_ptrs show "NULL \<notin> set (q_list (req_pool (hlr s)))" "NULL \<notin> set (inflight s)" by blast+
  from mset_eq_length [OF ms] show "length (q_list (req_pool (hlr s))) + length (inflight s) = QSIZE" by simp
qed

lemma length_inflight:
  assumes "hsys_inv h0 s"
  shows "length (inflight s) \<le> QDEPTH + (case pending s of Some _ \<Rightarrow> 1 | None \<Rightarrow> 0)"
  using hsys_invD(3,4) [OF assms] by (auto simp: inflight_def split: option.splits)

lemma pool_nonempty:
  assumes inv: "hsys_inv h0 s" and p: "pending s = None"
  obtains req rest where "q_list (req_pool (hlr s)) = req # rest" "req \<noteq> NULL" "q_inv (req_pool (hlr s))"
proof -
  note d = hsys_distinct [OF inv]
  have "length (inflight s) < QSIZE" using length_inflight [OF inv] p by (simp add: config_defs)
  with d(4) obtain req rest where pool: "q_list (req_pool (hlr s)) = req # rest" by (cases "q_list (req_pool (hlr s))") auto
  with d(2) have "req \<noteq> NULL" by auto
  with pool hsys_invD(1) [OF inv] that show thesis by (auto simp: hlr_queues_def)
qed

lemma recv_bad_length:
  assumes "hsys_inv h0 s" and "pending s = None" and k: "\<not> unat (nr_keylen nr) \<le> length (nr_key nr)"
  shows "make_request_from_netreq nr sock (hlr s) = Inl OutOfBounds"
proof -
  obtain req rest where "q_list (req_pool (hlr s)) = req # rest" "req \<noteq> NULL" "q_inv (req_pool (hlr s))" using pool_nonempty [OF assms(1,2)] .
  with lq.deq_nonempty [of "req_pool (hlr s)"] k show ?thesis by (auto simp: make_request_from_netreq_def)
qed

lemma recv_ok:
  assumes inv: "hsys_inv h0 s" and p: "pending s = None" and k: "unat (nr_keylen nr) \<le> length (nr_key nr)"
  shows "\<exists>req h'. make_request_from_netreq nr sock (hlr s) = Inr (req, h') \<and>
     hsys_inv h0 (s\<lparr>hlr := h', pending := Some req, arrived := arrived s @ [(sock, nr)]\<rparr>)"
proof -
  let ?h = "hlr s"
  note i = hsys_invD [OF inv] and d = hsys_distinct [OF inv]
  obtain req rest where pool: "q_list (req_pool ?h) = req # rest" and nn: "req \<noteq> NULL" using pool_nonempty [OF inv p] by blast
  obtain q where q: "make_request_from_netreq nr sock ?h =
       Inr (req, ?h\<lparr>req_pool := q, req_arr := (req_arr ?h)(req := fill_request nr sock (clock ?h) (req_arr ?h req))\<rparr>)"
     "q_inv q" "q_list q = rest" "m_size q = m_size (req_pool ?h)"
    using make_request_ok [OF _ pool nn k, of sock] i(1) by (auto simp: hlr_queues_def)
  let ?h' = "?h\<lparr>req_pool := q, req_arr := (req_arr ?h)(req := fill_request nr sock (clock ?h) (req_arr ?h req))\<rparr>"
  let ?s = "s\<lparr>hlr := ?h', pending := Some req, arrived := arrived s @ [(sock, nr)]\<rparr>"
  have new: "req \<notin> set (inflight s)" using d(1) pool by auto
  have fl: "inflight ?s = inflight s @ [req]" using p by (simp add: inflight_def)
  have pcr: "req \<notin> set (pc_reqs (pc s))" "set (pc_reqs (pc s)) \<subseteq> set (inflight s)" using new by (auto simp: inflight_def)
  have "hlr_queues ?h'" using i(1) q(2) by (simp add: hlr_queues_def)
  moreover have "mset (q_list (req_pool ?h')) + mset (inflight ?s) = mset pool_ptrs" using i(5) pool q(3) fl by simp
  moreover have "map ack_tag (acks ?h') @ map (\<lambda>r. req_tag (req_arr ?h' r)) (inflight ?s) = map msg_tag (arrived ?s)"
    using i(6) new by (simp add: fl map_upd_other del: fun_upd_apply) (simp add: req_tag_def msg_tag_def)
  moreover have "\<forall>r \<in> set (inflight ?s). r \<notin> set (pc_reqs (pc s)) \<longrightarrow> vvalue (rvalue (req_arr ?h' r)) = NULL"
    using i(8) by (auto simp: fl)
  moreover have "only_buffer (pc s) (cells (mem h0)) ?h'" using i(9) pcr(1) by (cases "pc s") (auto simp: only_buffer_def Let_def)
  moreover have "untouched h0 ?h'" using i(10) by (simp add: untouched_def)
  ultimately have "hsys_inv h0 ?s" using i(2-4,7) q(4) by (simp add: hsys_inv_def Let_def)
  with q(1) show ?thesis by blast
qed

lemma forward_ok:
  assumes inv: "hsys_inv h0 s" and p: "pending s = Some req"
  shows "if now (flying (hlr s)) = int QDEPTH then forward_req_to_hlr req (hlr s) = None
    else \<exists>h'. forward_req_to_hlr req (hlr s) = Some (Inr (0, h')) \<and> hsys_inv h0 (s\<lparr>hlr := h', pending := None\<rparr>)"
proof (cases "now (flying (hlr s)) = int QDEPTH")
  case True
  then show ?thesis using hsys_invD(1) [OF inv] by (simp add: forward_req_to_hlr_def cl_grap_def hlr_queues_def)
next
  case False
  let ?h = "hlr s"
  note i = hsys_invD [OF inv]
  have lt: "now (flying ?h) < int QDEPTH" using False i(4) by simp
  have "int (length (q_list (req_q ?h))) < m_size (req_q ?h)"
    using i(1,3) lt by (simp add: hlr_queues_def config_defs)
  then obtain q where q: "q_enqueue req (req_q ?h) = Inr (True, q)" "q_inv q" "q_list q = q_list (req_q ?h) @ [req]" "m_size q = m_size (req_q ?h)"
    using lq.enq_room [of "req_q ?h" req] i(1) by (auto simp: hlr_queues_def)
  define l where "l = (flying ?h)\<lparr>now := now (flying ?h) + 1\<rparr>"
  have l: "cl_grap (flying ?h) = Some l" "now l = now (flying ?h) + 1" "\<not> zero_lock l" "cnt l = int QDEPTH"
    using False i(1) by (simp_all add: l_def cl_grap_def hlr_queues_def)
  let ?h' = "?h\<lparr>flying := l, req_q := q\<rparr>"
  let ?s = "s\<lparr>hlr := ?h', pending := None\<rparr>"
  have f: "forward_req_to_hlr req ?h = Some (Inr (0, ?h'))"
    using l(1) q(1) by (simp add: forward_req_to_hlr_def)
  have fl: "inflight ?s = inflight s" using p q(3) by (simp add: inflight_def)
  have "hlr_queues ?h'" using i(1) q(2,4) l(3,4) by (simp add: hlr_queues_def)
  moreover have "only_buffer (pc s) (cells (mem h0)) ?h'" using i(9) by (cases "pc s") (simp_all add: only_buffer_def Let_def)
  moreover have "untouched h0 ?h'" using i(10) by (simp add: untouched_def)
  moreover have "now (flying ?h') = int (length (pc_reqs (pc ?s) @ q_list (req_q ?h')))" "now (flying ?h') \<le> int QDEPTH" using i(3) lt q(3) l(2) by simp_all
  ultimately have "hsys_inv h0 ?s" using i(2,5-8) by (simp add: hsys_inv_def Let_def fl)
  with f False show ?thesis by auto
qed

text \<open>The thread takes a request: it gets its hashes and its buffer.\<close>

lemma get_next_ok:
  assumes inv: "hsys_inv h0 s" and pc: "pc s = H_NEXT"
  shows "\<exists>h'. get_next_request C True (hlr s) = Inr (case q_list (req_q (hlr s)) of [] \<Rightarrow> NULL | r # _ \<Rightarrow> r, h') \<and>
     hsys_inv h0 (s\<lparr>hlr := h', pc := (case q_list (req_q (hlr s)) of [] \<Rightarrow> H_NEXT | r # _ \<Rightarrow> H_END r)\<rparr>) \<and>
     q_list (req_q h') = tl (q_list (req_q (hlr s)))"
proof (cases "q_list (req_q (hlr s))")
  case Nil
  have "q_dequeue (retry_q (hlr s)) = Inr (NULL, retry_q (hlr s))" "q_dequeue (req_q (hlr s)) = Inr (NULL, req_q (hlr s))"
    using hsys_invD(1) [OF inv] Nil by (simp_all add: lq.deq_empty hlr_queues_def)
  then have "get_next_request C True (hlr s) = Inr (NULL, hlr s)" by (simp add: get_next_request_def)
  moreover have "s\<lparr>hlr := hlr s, pc := H_NEXT\<rparr> = s" using pc by simp
  ultimately show ?thesis using inv Nil by simp
next
  case (Cons req rest)
  let ?h = "hlr s"
  note i = hsys_invD [OF inv] and d = hsys_distinct [OF inv]
  have fl: "inflight s = req # rest @ (case pending s of Some r \<Rightarrow> [r] | None \<Rightarrow> [])" using pc Cons by (simp add: inflight_def)
  have nn: "req \<noteq> NULL" "req \<notin> set (tl (inflight s))" using d(1,3) fl by auto
  have v0: "vvalue (rvalue (req_arr ?h req)) = NULL" using i(8) [of req] fl pc by simp
  have c0: "cells (mem ?h) = cells (mem h0)" using i(9) pc by (simp add: only_buffer_def)
  have e: "q_dequeue (retry_q ?h) = Inr (NULL, retry_q ?h)" using i(1) by (simp add: lq.deq_empty hlr_queues_def)
  obtain q where q: "q_dequeue (req_q ?h) = Inr (req, q)" "q_inv q" "q_list q = rest" "m_size q = m_size (req_q ?h)"
    using lq.deq_nonempty [of "req_q ?h"] i(1) Cons by (auto simp: hlr_queues_def)
  let ?h1 = "?h\<lparr>req_q := q\<rparr>"
  obtain v m where v: "value_for True (req_arr ?h req) (mem ?h) = Inr (v, m)" "mem_wf m"
    "if rtype (req_arr ?h req) \<in> {REQ_TYPE_GET, REQ_TYPE_SET}
      then vvalue v = brk (mem ?h) \<and> cells m = (cells (mem ?h))(brk (mem ?h) \<mapsto> \<lparr>blen = unat (vlen v), bdat = \<lambda>_. 0\<rparr>)
      else v = rvalue (req_arr ?h req) \<and> m = mem ?h"
    using value_for_ok [OF i(7) v0] by (auto simp del: fun_upd_apply split: if_splits)
  obtain lo hi where C: "C (map (kkey (rkey (req_arr ?h req))) [0..<unat (klen (rkey (req_arr ?h req)))]) = (lo, hi)" by fastforce
  let ?r = "(req_arr ?h req)\<lparr>rkey := (rkey (req_arr ?h req))\<lparr>hash_low := lo, hash_high := hi\<rparr>, rvalue := v, params := None, temp_buf := NULL\<rparr>"
  let ?h' = "?h1\<lparr>mem := m, req_arr := (req_arr ?h)(req := ?r)\<rparr>"
  let ?s = "s\<lparr>hlr := ?h', pc := H_END req\<rparr>"
  have "add_request_info C True req ?h1 = Inr ?h'" using add_request_info_eq [of True ?h1 req v m C lo hi] v(1) C by simp
  then have g: "get_next_request C True ?h = Inr (req, ?h')" using e q(1) nn(1) v0 by (simp add: get_next_request_def)
  have fl': "inflight ?s = inflight s" using fl q(3) by (simp add: inflight_def)
  have tags: "(\<lambda>r. req_tag (req_arr ?h' r)) = (\<lambda>r. req_tag (req_arr ?h r))" by (auto simp: req_tag_def)
  have fresh: "brk (mem ?h) \<noteq> NULL" "cells (mem h0) (brk (mem ?h)) = None" using i(7) c0 by (auto simp: mem_wf_def)
  have buf: "only_buffer (H_END req) (cells (mem h0)) ?h'"
    using v(3) v0 c0 fresh by (auto simp: only_buffer_def Let_def split: if_splits)
  have "hlr_queues ?h'" using i(1) q(2,4) by (simp add: hlr_queues_def)
  moreover have "now (flying ?h') = int (length (pc_reqs (pc ?s) @ q_list (req_q ?h')))" using i(3) pc Cons q(3) by simp
  moreover have "map ack_tag (acks ?h') @ map (\<lambda>r. req_tag (req_arr ?h' r)) (inflight ?s) = map msg_tag (arrived ?s)"
    unfolding tags using i(6) fl' by simp
  moreover have "\<forall>r \<in> set (inflight ?s). r \<notin> set (pc_reqs (pc ?s)) \<longrightarrow> vvalue (rvalue (req_arr ?h' r)) = NULL"
    using i(8) pc fl' by auto
  moreover have "untouched h0 ?h'" using i(10) by (simp add: untouched_def)
  moreover have "mset (q_list (req_pool ?h')) + mset (inflight ?s) = mset pool_ptrs" unfolding fl' using i(5) by simp
  ultimately have "hsys_inv h0 ?s" using i(2,4) v(2) buf by (simp add: hsys_inv_def Let_def)
  with g Cons q(3) show ?thesis by auto
qed

text \<open>The thread ends the request it has taken.\<close>

lemma end_req_ok:
  assumes inv: "hsys_inv h0 s" and pc: "pc s = H_END req"
  shows "\<exists>h'. net_end_req req (hlr s) = Inr h' \<and> hsys_inv h0 (s\<lparr>hlr := h', pc := H_NEXT\<rparr>) \<and> req_q h' = req_q (hlr s)"
proof -
  let ?h = "hlr s"
  let ?v = "vvalue (rvalue (req_arr ?h req))"
  note i = hsys_invD [OF inv] and d = hsys_distinct [OF inv]
  obtain m where m: "mem_free ?v (mem ?h) = Inr m" "cells m = cells (mem h0)"
    using i(9) pc by (cases "?v = NULL") (auto simp: only_buffer_def Let_def mem_free_def fun_upd_idem)
  have room: "int (length (q_list (req_pool ?h))) < m_size (req_pool ?h)" using d(4) pc i(2) by (simp add: inflight_def)
  obtain q where q: "net_end_req req ?h = Inr (?h\<lparr>mem := m, req_pool := q,
       req_arr := (req_arr ?h)(req := (req_arr ?h req)\<lparr>rsw := sw_end (clock ?h) (rsw (req_arr ?h req))\<rparr>),
       flying := fst (cl_release (flying ?h)), acks := acks ?h @ [ack_of (clock ?h) (req_arr ?h req)]\<rparr>)"
     "q_inv q" "q_list q = q_list (req_pool ?h) @ [req]" "m_size q = m_size (req_pool ?h)"
    using net_end_req_ok [OF _ room m(1)] i(1) by (auto simp: hlr_queues_def)
  let ?h' = "?h\<lparr>mem := m, req_pool := q,
       req_arr := (req_arr ?h)(req := (req_arr ?h req)\<lparr>rsw := sw_end (clock ?h) (rsw (req_arr ?h req))\<rparr>),
       flying := fst (cl_release (flying ?h)), acks := acks ?h @ [ack_of (clock ?h) (req_arr ?h req)]\<rparr>"
  let ?s = "s\<lparr>hlr := ?h', pc := H_NEXT\<rparr>"
  have fl: "inflight s = req # inflight ?s" using pc by (simp add: inflight_def)
  have w: "fst (cl_release (flying ?h)) = (flying ?h)\<lparr>now := now (flying ?h) - 1\<rparr>" using i(1) by (simp add: cl_release_def hlr_queues_def)
  have tags: "(\<lambda>r. req_tag (req_arr ?h' r)) = (\<lambda>r. req_tag (req_arr ?h r))" by (auto simp: req_tag_def)
  have "hlr_queues ?h'" using i(1) q(2) w by (simp add: hlr_queues_def)
  moreover have "now (flying ?h') = int (length (pc_reqs (pc ?s) @ q_list (req_q ?h')))" "now (flying ?h') \<le> int QDEPTH" using i(3,4) pc w by simp_all
  moreover have "mset (q_list (req_pool ?h')) + mset (inflight ?s) = mset pool_ptrs" using i(5) fl q(3) by simp
  moreover have "map ack_tag (acks ?h') @ map (\<lambda>r. req_tag (req_arr ?h' r)) (inflight ?s) = map msg_tag (arrived ?s)"
    unfolding tags using i(6) fl by (simp add: ack_of_def ack_tag_def req_tag_def)
  moreover have "mem_wf (mem ?h')" using mem_wf_free [OF i(7) m(1)] by simp
  moreover have "\<forall>r \<in> set (inflight ?s). r \<notin> set (pc_reqs (pc ?s)) \<longrightarrow> vvalue (rvalue (req_arr ?h' r)) = NULL"
    using i(8) pc fl d(1) by auto
  moreover have "only_buffer H_NEXT (cells (mem h0)) ?h'" using m(2) by (simp add: only_buffer_def)
  moreover have "untouched h0 ?h'" using i(10) by (simp add: untouched_def)
  ultimately have "hsys_inv h0 ?s" using i(2) q(4) by (simp add: hsys_inv_def Let_def)
  with q(1) show ?thesis by auto
qed

lemma exit_ok: "hsys_inv h0 s \<Longrightarrow> pc s = H_NEXT \<Longrightarrow> hsys_inv h0 (s\<lparr>pc := H_EXIT\<rparr>)"
  by (simp add: hsys_inv_def only_buffer_def inflight_def)

lemma handle_ok:
  assumes "hsys_inv h0 s"
  shows "\<exists>pc' h'. request_handler_step C stop True (pc s) (hlr s) = Inr (pc', h') \<and> hsys_inv h0 (s\<lparr>hlr := h', pc := pc'\<rparr>)"
proof (cases "pc s")
  case H_NEXT
  show ?thesis
  proof (cases "stop \<and> now (flying (hlr s)) = 0")
    case True
    with H_NEXT exit_ok [OF assms H_NEXT] show ?thesis by simp
  next
    case False
    have nn: "q_list (req_q (hlr s)) = r # rs \<Longrightarrow> r \<noteq> NULL" for r rs
      using hsys_distinct(3) [OF assms] by (auto simp: inflight_def)
    obtain h' where g: "get_next_request C True (hlr s) = Inr (case q_list (req_q (hlr s)) of [] \<Rightarrow> NULL | r # _ \<Rightarrow> r, h')"
      "hsys_inv h0 (s\<lparr>hlr := h', pc := (case q_list (req_q (hlr s)) of [] \<Rightarrow> H_NEXT | r # _ \<Rightarrow> H_END r)\<rparr>)"
      using get_next_ok [OF assms H_NEXT, of C] by blast
    then have "request_handler_step C stop True (pc s) (hlr s) =
        Inr (case q_list (req_q (hlr s)) of [] \<Rightarrow> H_NEXT | r # _ \<Rightarrow> H_END r, h')"
      using H_NEXT False nn by (auto split: list.splits)
    with g(2) show ?thesis by blast
  qed
next
  case (H_END r)
  with end_req_ok [OF assms H_END] show ?thesis by auto
next
  case H_EXIT
  have "hsys_inv h0 (s\<lparr>pc := pc s\<rparr>)" using assms by simp
  then have "hsys_inv h0 (s\<lparr>pc := H_EXIT\<rparr>)" by (simp only: H_EXIT)
  with H_EXIT show ?thesis by simp
qed

lemma ebind_mono: "ebind x f = Inr y \<Longrightarrow> (\<And>v. f v = Inr y \<Longrightarrow> g v = Inr y) \<Longrightarrow> ebind x g = Inr y"
  by (cases x) auto

lemma get_next_request_memory:
  assumes "get_next_request C ok h = Inr y"
  shows "get_next_request C True h = Inr y"
proof -
  have add: "ebind (add_request_info C ok r g) (\<lambda>h2. Inr (r, h2)) = Inr y \<Longrightarrow> ebind (add_request_info C True r g) (\<lambda>h2. Inr (r, h2)) = Inr y" for r g
    by (cases "add_request_info C ok r g") (auto dest: add_request_info_memory)
  show ?thesis
    using assms unfolding get_next_request_def Let_def
    by (elim ebind_mono) (auto simp del: ebind_eq_Inr elim!: ebind_mono split: if_splits, erule add)
qed

lemma step_memory:
  assumes "request_handler_step C stop ok p h = Inr x"
  shows "request_handler_step C stop True p h = Inr x"
proof (cases p)
  case H_NEXT
  with assms get_next_request_memory [of C ok h] show ?thesis by (auto simp: res_simps split: if_splits)
qed (use assms in simp_all)

lemma hsys_inv_step: "hsys_step C s s' \<Longrightarrow> hsys_inv h0 s \<Longrightarrow> hsys_inv h0 s'"
proof (induction rule: hsys_step.induct)
  case (recv s nr sock req h')
  then have "unat (nr_keylen nr) \<le> length (nr_key nr)"
    by (auto simp: make_request_from_netreq_def res_simps split: if_splits)
  from recv_ok [OF recv(3,1) this, of sock] recv(2) show ?case by auto
next
  case (forward s req rc h')
  with forward_ok [OF forward(3,1)] show ?case by (auto split: if_splits)
next
  case (handle stop ok s pc' h')
  with handle_ok [OF handle(2), of C stop] step_memory [OF handle(1)] show ?case by auto
next
  case (tick s t)
  let ?s = "s\<lparr>hlr := (hlr s)\<lparr>clock := t\<rparr>\<rparr>"
  have "inflight ?s = inflight s" "hlr_queues (hlr ?s) = hlr_queues (hlr s)" "untouched h0 (hlr ?s) = untouched h0 (hlr s)"
    "only_buffer (pc s) (cells (mem h0)) (hlr ?s) = only_buffer (pc s) (cells (mem h0)) (hlr s)"
    by (simp_all add: inflight_def hlr_queues_def untouched_def only_buffer_def cong: hlr_pc.case_cong)
  with tick show ?case by (simp add: hsys_inv_def Let_def)
qed

lemma hsys_inv_reachable: "hsys_reachable C h0 s \<Longrightarrow> hlr_ready h0 \<Longrightarrow> hsys_inv h0 s"
  by (induction rule: hsys_reachable.induct) (auto intro: hsys_inv_start hsys_inv_step)

text \<open>With the stop flag set, the thread serves what is queued and returns.\<close>

lemma drain_ok:
  "hsys_inv h0 s \<Longrightarrow> pc s \<noteq> H_EXIT \<Longrightarrow>
     \<exists>h'. request_handler_run C (2 * length (q_list (req_q (hlr s))) + length (pc_reqs (pc s)) + 1) (pc s) (hlr s) = Inr (H_EXIT, h') \<and>
       hsys_inv h0 (s\<lparr>hlr := h', pc := H_EXIT\<rparr>) \<and> q_list (req_q h') = []"
proof (induction "2 * length (q_list (req_q (hlr s))) + length (pc_reqs (pc s))" arbitrary: s)
  case 0
  then have e: "q_list (req_q (hlr s)) = []" "pc s = H_NEXT" by (cases "pc s"; simp)+
  with hsys_invD(3) [OF 0(2)] exit_ok [OF 0(2)] show ?case by simp
next
  case (Suc n)
  note i = Suc.prems(1)
  show ?case
  proof (cases "pc s")
    case (H_END r)
    from end_req_ok [OF i H_END] obtain h1 where h1: "net_end_req r (hlr s) = Inr h1" "hsys_inv h0 (s\<lparr>hlr := h1, pc := H_NEXT\<rparr>)"
      "req_q h1 = req_q (hlr s)" by blast
    from Suc.hyps(1) [OF _ h1(2)] Suc.hyps(2) h1(3) H_END show ?thesis by (auto simp: h1(1))
  next
    case H_NEXT
    with Suc.hyps(2) obtain r rs where q: "q_list (req_q (hlr s)) = r # rs" by (cases "q_list (req_q (hlr s))") auto
    then have nn: "r \<noteq> NULL" using hsys_distinct(3) [OF i] by (auto simp: inflight_def)
    from get_next_ok [OF i H_NEXT, of C] q obtain h1 where h1: "get_next_request C True (hlr s) = Inr (r, h1)"
      "hsys_inv h0 (s\<lparr>hlr := h1, pc := H_END r\<rparr>)" "q_list (req_q h1) = rs" by auto
    have "now (flying (hlr s)) \<noteq> 0" using hsys_invD(3) [OF i] q by simp
    with h1(1) nn H_NEXT have st: "request_handler_step C True True (pc s) (hlr s) = Inr (H_END r, h1)" by simp
    have n: "n = 2 * length rs + 1" using Suc.hyps(2) q H_NEXT by simp
    from Suc.hyps(1) [OF _ h1(2)] h1(3) n obtain h' where "request_handler_run C (n + 1) (H_END r) h1 = Inr (H_EXIT, h')"
      "hsys_inv h0 (s\<lparr>hlr := h', pc := H_EXIT\<rparr>)" "q_list (req_q h') = []" by auto
    with st n q H_NEXT show ?thesis by (simp del: request_handler_step.simps)
  qed (use Suc.prems in simp)
qed

subsection \<open>Properties\<close>

text \<open>
  C1: every message is acknowledged once, in the order of arrival, and none is executed. In every state the master and the handler
  thread reach from a freshly initialised handler, the acknowledgements sent, followed by the requests in flight (the one in work, the queue, the one
  waiting for the window), are the messages received, with their socket, sequence number and type; each request of the pool
  is free or in flight, never both; at most \<open>QDEPTH\<close> requests have passed the window; and the device, its queue of I/Os and the disk are as they
  were: no request reaches the index.
\<close>

theorem handler_acks_in_order:
  assumes "hlr_ready h0" and "hsys_reachable C h0 s"
  shows "map ack_tag (acks (hlr s)) @ map (\<lambda>r. req_tag (req_arr (hlr s) r)) (inflight s) = map msg_tag (arrived s) \<and>
     mset (q_list (req_pool (hlr s))) + mset (inflight s) = mset pool_ptrs \<and>
     now (flying (hlr s)) = int (length (pc_reqs (pc s) @ q_list (req_q (hlr s)))) \<and> now (flying (hlr s)) \<le> int QDEPTH \<and>
     untouched h0 (hlr s) \<and> (pc_reqs (pc s) = [] \<longrightarrow> cells (mem (hlr s)) = cells (mem h0))"
proof -
  note i = hsys_invD [OF hsys_inv_reachable [OF assms(2,1)]]
  have "pc_reqs (pc s) = [] \<longrightarrow> cells (mem (hlr s)) = cells (mem h0)" using i(9) by (cases "pc s") (simp_all add: only_buffer_def)
  with i(3-6,10) show ?thesis by blast
qed

text \<open>A handler as \<open>handler_init\<close> leaves it on a device of four segments.\<close>

lemma handler_init_ready:
  assumes "SEGMENT_SIZE \<le> unat nb * unat bs" "unat nb * unat bs < 2 ^ 32 * SEGMENT_SIZE" "mok 0"
  shows "\<exists>h :: 'p handler. handler_init num True (Some nb) (Some bs) True dsk mok sok = Inr h \<and> hlr_ready h \<and> submitted h = []"
proof -
  from handler_init_ok [where 'p = 'p and mok = mok, OF assms, of num dsk sok] obtain h :: "'p handler" where
    h: "handler_init num True (Some nb) (Some bs) True dsk mok sok = Inr h" "hlr_ready h"
    by (auto simp: hlr_ready_def staged_ok_def)
  from h(1) obtain h1 :: "'p handler" where h1: "dev_abs_init True (Some nb) (Some bs) (hlr_alloc num dsk mok sok) = Inr h1" "submitted h = submitted h1"
    by (auto simp: handler_init_def hlr_fill_pools_def res_simps)
  from arg_cong [OF dev_abs_init_frame [OF h1(1)], of submitted] h1(2) have "submitted h = []" by (simp add: hlr_alloc_def)
  with h show ?thesis by blast
qed

lemma ex_ready: "\<exists>h :: 'p handler. hlr_ready h \<and> submitted h = []"
  using handler_init_ready [where 'p = 'p, of 16384 512 "\<lambda>_. True" 0 "\<lambda>_. 0" "\<lambda>_. True"] by (auto simp: config_defs)

text \<open>A message that was received, queued, and served.\<close>

lemma ex_served:
  fixes C :: "byte list \<Rightarrow> u64 \<times> u64"
  assumes k: "unat (nr_keylen nr) \<le> length (nr_key nr)"
  shows "\<exists>(h0 :: unit handler) s1 s2 s4. hlr_ready h0 \<and> hsys_reachable C h0 s1 \<and> pending s1 \<noteq> None \<and>
     hsys_reachable C h0 s2 \<and> pending s2 = None \<and> pc s2 = H_NEXT \<and> arrived s2 = [(5, nr)] \<and> length (q_list (req_q (hlr s2))) = 1 \<and>
     hsys_reachable C h0 s4 \<and> arrived s4 = [(5, nr)] \<and> inflight s4 = [] \<and> submitted h0 = []"
proof -
  obtain h0 :: "unit handler" where h0: "hlr_ready h0" "submitted h0 = []"
    using ex_ready by blast
  let ?s0 = "hsys_start h0"
  have i0: "hsys_inv h0 ?s0" "hsys_reachable C h0 ?s0" "pending ?s0 = None"
    using hsys_inv_start [OF h0(1)] hsys_reachable.start by (simp_all add: hsys_start_def)
  from recv_ok [OF i0(1,3) k, of 5] obtain r h1 where m: "make_request_from_netreq nr 5 h0 = Inr (r, h1)" by (auto simp: hsys_start_def)
  define s1 where "s1 = ?s0\<lparr>hlr := h1, pending := Some r, arrived := arrived ?s0 @ [(5, nr)]\<rparr>"
  have s1: "hsys_reachable C h0 s1" "pending s1 = Some r" "arrived s1 = [(5, nr)]" "pc s1 = H_NEXT"
    using hsys_reachable.step [OF i0(2) hsys_step.recv [OF i0(3)], of nr 5 r h1] m by (simp_all add: s1_def hsys_start_def)
  have i1: "hsys_inv h0 s1" by (rule hsys_inv_reachable [OF s1(1) h0(1)])
  have q1: "req_q h1 = req_q h0" "flying h1 = flying h0" using m by (auto simp: make_request_from_netreq_def res_simps split: if_splits)
  then have "now (flying (hlr s1)) \<noteq> int QDEPTH" "q_list (req_q (hlr s1)) = []"
    using h0(1) by (simp_all add: s1_def hlr_ready_def cl_init_def QDEPTH_def)
  with forward_ok [OF i1 s1(2)] obtain h2 where f: "forward_req_to_hlr r (hlr s1) = Some (Inr (0, h2))" by auto
  define s2 where "s2 = s1\<lparr>hlr := h2, pending := None\<rparr>"
  have s2: "hsys_reachable C h0 s2" "pending s2 = None" "arrived s2 = [(5, nr)]" "pc s2 = H_NEXT"
    using hsys_reachable.step [OF s1(1) hsys_step.forward [OF s1(2) f]] s1 by (simp_all add: s2_def)
  have i2: "hsys_inv h0 s2" by (rule hsys_inv_reachable [OF s2(1) h0(1)])
  have "now (flying h2) = 1"
    using f q1 h0(1) by (auto simp: forward_req_to_hlr_def cl_grap_def s1_def hlr_ready_def cl_init_def QDEPTH_def res_simps)
  with hsys_invD(3) [OF i2] s2(4) have l2: "length (q_list (req_q (hlr s2))) = 1" by (simp add: s2_def)
  then obtain r' where q2: "q_list (req_q (hlr s2)) = [r']" by (auto simp: length_Suc_conv)
  then have nn: "r' \<noteq> NULL" using hsys_distinct(3) [OF i2] by (auto simp: inflight_def)
  from get_next_ok [OF i2 s2(4), of C] q2 obtain h3 where g: "get_next_request C True (hlr s2) = Inr (r', h3)" "q_list (req_q h3) = []" by auto
  define s3 where "s3 = s2\<lparr>hlr := h3, pc := H_END r'\<rparr>"
  have "request_handler_step C False True (pc s2) (hlr s2) = Inr (H_END r', h3)" using g(1) nn s2(4) by simp
  from hsys_reachable.step [OF s2(1) hsys_step.handle [OF this]] have s3: "hsys_reachable C h0 s3" "pc s3 = H_END r'" by (simp_all add: s3_def)
  from end_req_ok [OF hsys_inv_reachable [OF s3(1) h0(1)] s3(2)] obtain h4 where e: "net_end_req r' (hlr s3) = Inr h4" "req_q h4 = req_q (hlr s3)" by blast
  have "request_handler_step C False True (pc s3) (hlr s3) = Inr (H_NEXT, h4)" using e(1) s3(2) by simp
  from hsys_reachable.step [OF s3(1) hsys_step.handle [OF this]] have s4: "hsys_reachable C h0 (s3\<lparr>hlr := h4, pc := H_NEXT\<rparr>)" .
  have "inflight (s3\<lparr>hlr := h4, pc := H_NEXT\<rparr>) = []" "arrived (s3\<lparr>hlr := h4, pc := H_NEXT\<rparr>) = [(5, nr)]"
    using e(2) g(2) s2(2,3) by (simp_all add: inflight_def s3_def)
  with h0 s1(1,2) s2 l2 s4 show ?thesis by blast
qed

theorem handler_acks_in_order_witness:
  "\<exists>(h0 :: unit handler) s. arrived s = [(5, \<lparr>nr_type = REQ_TYPE_SET, nr_keylen = 2, nr_seq_num = 7, nr_key = [65, 66], nr_kv_size = 1024\<rparr>)] \<and>
     hsys_reachable (\<lambda>_. (3, 4)) h0 s \<and> map ack_tag (acks (hlr s)) = [(5, 7, REQ_TYPE_SET)] \<and> submitted (hlr s) = []"
proof -
  let ?nr = "\<lparr>nr_type = REQ_TYPE_SET, nr_keylen = 2, nr_seq_num = 7, nr_key = [65, 66], nr_kv_size = 1024\<rparr>"
  obtain h0 :: "unit handler" and s where s: "hlr_ready h0" "hsys_reachable (\<lambda>_. (3, 4)) h0 s" "arrived s = [(5, ?nr)]" "inflight s = []"
    "submitted h0 = []"
    using ex_served [of ?nr "\<lambda>_. (3, 4)"] by auto
  from handler_acks_in_order [OF s(1,2)] s(3-5) have "map ack_tag (acks (hlr s)) = [(5, 7, REQ_TYPE_SET)]" "submitted (hlr s) = []"
    by (simp_all add: msg_tag_def untouched_def)
  with s(2,3) show ?thesis by (intro exI [of _ h0] exI [of _ s]) simp
qed

text \<open>
  C25: the handler never blocks for good, and crashes only for want of memory or for a bad message. In every reachable state the next step of the handler thread succeeds, when the allocation of a value does; when the master has no request
  in hand, it can take one for any message whose key length fits its key field (the pool is never empty), and reads out of bounds for any other; and when it has one, forwarding returns 0, or the window is
  full and the handler thread has work.
\<close>

theorem handler_never_stuck:
  assumes "hlr_ready h0" and "hsys_reachable C h0 s"
  shows "(\<exists>pc' h'. request_handler_step C stop True (pc s) (hlr s) = Inr (pc', h')) \<and>
     (pending s = None \<longrightarrow>
        (if unat (nr_keylen nr) \<le> length (nr_key nr) then \<exists>req h'. make_request_from_netreq nr sock (hlr s) = Inr (req, h')
         else make_request_from_netreq nr sock (hlr s) = Inl OutOfBounds)) \<and>
     (\<forall>req. pending s = Some req \<longrightarrow> (\<exists>h'. forward_req_to_hlr req (hlr s) = Some (Inr (0, h'))) \<or>
        forward_req_to_hlr req (hlr s) = None \<and> pc_reqs (pc s) @ q_list (req_q (hlr s)) \<noteq> [])"
proof -
  have i: "hsys_inv h0 s" by (rule hsys_inv_reachable [OF assms(2,1)])
  have "pc_reqs (pc s) @ q_list (req_q (hlr s)) \<noteq> []" if "now (flying (hlr s)) = int QDEPTH"
    using hsys_invD(3) [OF i] that by (auto simp: QDEPTH_def)
  then have "(\<exists>h'. forward_req_to_hlr req (hlr s) = Some (Inr (0, h'))) \<or>
        forward_req_to_hlr req (hlr s) = None \<and> pc_reqs (pc s) @ q_list (req_q (hlr s)) \<noteq> []" if "pending s = Some req" for req
    using forward_ok [OF i that] by (auto split: if_splits)
  moreover have "make_request_from_netreq nr sock (hlr s) = Inl OutOfBounds" if "pending s = None" "\<not> unat (nr_keylen nr) \<le> length (nr_key nr)"
    using recv_bad_length [OF i that] .
  ultimately show ?thesis using handle_ok [OF i, of C stop] recv_ok [OF i, of nr sock] by auto
qed

theorem handler_never_stuck_witness:
  "\<exists>(h0 :: unit handler) s req h'. hsys_reachable (\<lambda>_. (3, 4)) h0 s \<and> pending s = Some req \<and>
     (forward_req_to_hlr req (hlr s) = Some (Inr (0, h')) \<or> pc_reqs (pc s) @ q_list (req_q (hlr s)) \<noteq> [])"
proof -
  let ?nr = "\<lparr>nr_type = REQ_TYPE_SET, nr_keylen = 2, nr_seq_num = 7, nr_key = [65, 66], nr_kv_size = 1024\<rparr>"
  obtain h0 :: "unit handler" and s req where s: "hlr_ready h0" "hsys_reachable (\<lambda>_. (3, 4)) h0 s" "pending s = Some req"
    using ex_served [of ?nr "\<lambda>_. (3, 4)"] by auto
  from handler_never_stuck [OF s(1,2), of False ?nr 5] s(3)
  have "(\<exists>h'. forward_req_to_hlr req (hlr s) = Some (Inr (0, h'))) \<or> pc_reqs (pc s) @ q_list (req_q (hlr s)) \<noteq> []" by blast
  with s(2,3) show ?thesis by metis
qed

text \<open>
  C26: shutdown drains the queue. From every reachable state, with the stop flag set, the handler thread returns after two steps for each queued
  request and one more; every request that had been forwarded is then acknowledged, in order, and the window is empty.
\<close>

theorem handler_drains:
  assumes "hlr_ready h0" and "hsys_reachable C h0 s" and "pc s \<noteq> H_EXIT"
  shows "\<exists>h'. request_handler_run C (2 * length (q_list (req_q (hlr s))) + length (pc_reqs (pc s)) + 1) (pc s) (hlr s) = Inr (H_EXIT, h') \<and>
     q_list (req_q h') = [] \<and> now (flying h') = 0 \<and>
     map ack_tag (acks h') = map msg_tag (take (length (arrived s) - (if pending s = None then 0 else 1)) (arrived s))"
proof -
  from drain_ok [OF hsys_inv_reachable [OF assms(2,1)] assms(3), of C] obtain h' where
    r: "request_handler_run C (2 * length (q_list (req_q (hlr s))) + length (pc_reqs (pc s)) + 1) (pc s) (hlr s) = Inr (H_EXIT, h')"
    and i: "hsys_inv h0 (s\<lparr>hlr := h', pc := H_EXIT\<rparr>)" and q: "q_list (req_q h') = []" by blast
  have "now (flying h') = 0" using hsys_invD(3) [OF i] q by simp
  moreover have "map ack_tag (acks h') @ map (\<lambda>r. req_tag (req_arr h' r)) (case pending s of Some r \<Rightarrow> [r] | None \<Rightarrow> []) = map msg_tag (arrived s)"
    using hsys_invD(6) [OF i] q by (simp add: inflight_def)
  then have "map ack_tag (acks h') = map msg_tag (take (length (arrived s) - (if pending s = None then 0 else 1)) (arrived s))"
    by (cases "pending s") (auto dest: snoc_map)
  ultimately show ?thesis using r q by blast
qed

theorem handler_drains_witness:
  "\<exists>(h0 :: unit handler) s h'. hsys_reachable (\<lambda>_. (3, 4)) h0 s \<and> request_handler_run (\<lambda>_. (3, 4)) 3 H_NEXT (hlr s) = Inr (H_EXIT, h') \<and>
     map ack_tag (acks h') = [(5, 7, REQ_TYPE_SET)]"
proof -
  let ?nr = "\<lparr>nr_type = REQ_TYPE_SET, nr_keylen = 2, nr_seq_num = 7, nr_key = [65, 66], nr_kv_size = 1024\<rparr>"
  obtain h0 :: "unit handler" and s where s: "hlr_ready h0" "hsys_reachable (\<lambda>_. (3, 4)) h0 s" "pending s = None" "pc s = H_NEXT"
    "arrived s = [(5, ?nr)]" "length (q_list (req_q (hlr s))) = 1"
    using ex_served [of ?nr "\<lambda>_. (3, 4)"] by auto
  from handler_drains [OF s(1,2)] s(3-6) obtain h' where "request_handler_run (\<lambda>_. (3, 4)) 3 H_NEXT (hlr s) = Inr (H_EXIT, h')"
    "map ack_tag (acks h') = [(5, 7, REQ_TYPE_SET)]" by (auto simp: msg_tag_def eval_nat_numeral)
  with s(2) show ?thesis by (intro exI [of _ h0] exI [of _ s] exI [of _ h']) simp
qed

end
