(* ===== verification/Master.thy ===== *)
theory Master
  imports Handler
begin

section \<open>The master thread (\<open>src/master.c\<close>)\<close>

text \<open>
  The master reads messages from its clients, chooses a handler for each by the upper half of the first word of the hash of its key, makes a request of it
  and forwards it. \<open>process_request\<close> is \<open>__process_request\<close> with the handlers standing still: it gives up (\<open>None\<close>) where the code would wait, for
  the socket or in the window of a handler. \<open>msys_step\<close> runs the same loop body in steps, with the threads of all handlers in between. \<open>master_thread\<close> is
  the loop over the events of \<open>epoll_wait\<close>. Accepting a client and the set-up of the sockets are in \<open>Server\<close>: here the result of \<open>__accept_new_client\<close> is a
  value of the event.
\<close>

subsection \<open>Operations\<close>

definition MAX_NETREQ_BUF :: nat where "MAX_NETREQ_BUF = 1024"
definition MAX_HLR :: nat where "MAX_HLR = 32"

text \<open>
  The index of the handler of a message: \<open>(hashing_key_128(nr->key, nr->keylen).first >> 32) % mas->num_dev\<close>. The key is read from the 32 bytes of the
  message; without a device the remainder traps.
\<close>

definition hlr_idx :: "(byte list \<Rightarrow> u64 \<times> u64) \<Rightarrow> nat \<Rightarrow> netreq \<Rightarrow> nat res" where
  "hlr_idx CityHash128 num_dev nr =
     ebind (hashing_key_128 CityHash128 (nr_key nr) (nr_keylen nr)) (\<lambda>(first, _).
     if num_dev = 0 then Inl DivByZero else Inr (unat (drop_bit 32 first) mod num_dev))"

text \<open>The loop over the messages of a batch, from the socket \<open>fd\<close>.\<close>

fun forward_msgs ::
  "(byte list \<Rightarrow> u64 \<times> u64) \<Rightarrow> nat \<Rightarrow> int \<Rightarrow> netreq list \<Rightarrow> (nat \<Rightarrow> 'p handler) \<Rightarrow> (int \<times> (nat \<Rightarrow> 'p handler)) res option" where
  "forward_msgs C num_dev fd [] hs = Some (Inr (0, hs))"
| "forward_msgs C num_dev fd (nr # nrs) hs =
     (case hlr_idx C num_dev nr of
        Inl e \<Rightarrow> Some (Inl e)
      | Inr i \<Rightarrow>
          if MAX_HLR \<le> i then Some (Inl OutOfBounds)
          else (case make_request_from_netreq nr fd (hs i) of
                  Inl e \<Rightarrow> Some (Inl e)
                | Inr (req, h1) \<Rightarrow>
                    (case forward_req_to_hlr req h1 of
                       None \<Rightarrow> None
                     | Some (Inl e) \<Rightarrow> Some (Inl e)
                     | Some (Inr (rc, h2)) \<Rightarrow>
                         if rc \<noteq> 0 then Some (Inr (rc, hs(i := h2))) else forward_msgs C num_dev fd nrs (hs(i := h2)))))"

text \<open>\<open>mas->netreq_buf[i]\<close> for \<open>i < n_obj\<close>.\<close>

definition batch :: "byte list \<Rightarrow> netreq list" where
  "batch bs = map (\<lambda>i. netreq_of_bytes (take NETREQ_SIZE (drop (i * NETREQ_SIZE) bs))) [0..<length bs div NETREQ_SIZE]"

text \<open>The sockets of the clients, by descriptor. One that is closed has no entry; reading from it returns -1.\<close>

type_synonym socks = "int \<rightharpoonup> sock_ev list"

definition process_request ::
  "(byte list \<Rightarrow> u64 \<times> u64) \<Rightarrow> nat \<Rightarrow> int \<Rightarrow> socks \<times> (nat \<Rightarrow> 'p handler) \<Rightarrow> (int \<times> socks \<times> (nat \<Rightarrow> 'p handler)) res option" where
  "process_request C num_dev fd st =
     (case st of (sk, hs) \<Rightarrow>
      case sk fd of
        None \<Rightarrow> Some (Inr (0, sk, hs))
      | Some es \<Rightarrow>
          (case read_sock_bulk MAX_NETREQ_BUF NETREQ_SIZE es of
             None \<Rightarrow> None
           | Some (len, bs, es') \<Rightarrow>
               if len = -1 then Some (Inr (0, sk(fd \<mapsto> es'), hs))
               else if len = 0 then Some (Inr (1, sk(fd := None), hs))
               else (case forward_msgs C num_dev fd (batch bs) hs of
                       None \<Rightarrow> None
                     | Some r \<Rightarrow> Some (ebind r (\<lambda>(rc, hs'). Inr (rc, sk(fd \<mapsto> es'), hs'))))))"

text \<open>
  One event: on the listening socket, with the result of \<open>__accept_new_client\<close> and what the new client will send, or on the socket of a client.
\<close>

datatype ep_event = EP_ACCEPT int "sock_ev list" | EP_CLIENT int

text \<open>
  The loop over the events of one \<open>epoll_wait\<close>. The flag of the result: whether \<open>master_thread\<close> goes on; when it does not, the thread frees the master
  and returns.
\<close>

fun handle_events ::
  "(byte list \<Rightarrow> u64 \<times> u64) \<Rightarrow> nat \<Rightarrow> ep_event list \<Rightarrow> socks \<times> (nat \<Rightarrow> 'p handler) \<Rightarrow> (bool \<times> socks \<times> (nat \<Rightarrow> 'p handler)) res option" where
  "handle_events C num_dev [] st = Some (Inr (True, st))"
| "handle_events C num_dev (EP_ACCEPT fd es # evs) (sk, hs) =
     (if fd < 0 then Some (Inr (False, sk, hs)) else handle_events C num_dev evs (sk(fd \<mapsto> es), hs))"
| "handle_events C num_dev (EP_CLIENT fd # evs) st =
     (case process_request C num_dev fd st of
        None \<Rightarrow> None
      | Some (Inl e) \<Rightarrow> Some (Inl e)
      | Some (Inr (rc, st')) \<Rightarrow> if rc \<noteq> 0 then Some (Inr (False, st')) else handle_events C num_dev evs st')"

text \<open>The results of \<open>epoll_wait\<close>: \<open>None\<close> is an error, an empty list a return without events.\<close>

fun master_thread ::
  "(byte list \<Rightarrow> u64 \<times> u64) \<Rightarrow> nat \<Rightarrow> ep_event list option list \<Rightarrow> socks \<times> (nat \<Rightarrow> 'p handler) \<Rightarrow>
     (bool \<times> socks \<times> (nat \<Rightarrow> 'p handler)) res option" where
  "master_thread C num_dev [] st = Some (Inr (True, st))"
| "master_thread C num_dev (None # ws) st = Some (Inr (False, st))"
| "master_thread C num_dev (Some evs # ws) st =
     (case handle_events C num_dev evs st of
        None \<Rightarrow> None
      | Some (Inl e) \<Rightarrow> Some (Inl e)
      | Some (Inr (go, st')) \<Rightarrow> if go then master_thread C num_dev ws st' else Some (Inr (False, st')))"

subsection \<open>A batch of messages\<close>

text \<open>The messages of a list that belong to handler \<open>i\<close>.\<close>

definition routed :: "(byte list \<Rightarrow> u64 \<times> u64) \<Rightarrow> nat \<Rightarrow> nat \<Rightarrow> netreq \<Rightarrow> bool" where
  "routed C num_dev i nr \<longleftrightarrow> hlr_idx C num_dev nr = Inr i"

definition key_fits :: "netreq \<Rightarrow> bool" where
  "key_fits nr \<longleftrightarrow> unat (nr_keylen nr) \<le> length (nr_key nr)"

lemma hlr_idx_ok: "key_fits nr \<Longrightarrow> 0 < n \<Longrightarrow> \<exists>i < n. hlr_idx C n nr = Inr i"
  by (auto simp: hlr_idx_def hashing_key_128_def key_fits_def split: prod.splits)

lemma make_request_flying: "make_request_from_netreq nr fd h = Inr (req, h') \<Longrightarrow> flying h' = flying h"
  by (auto simp: make_request_from_netreq_def res_simps split: if_splits)

lemma forward_now: "forward_req_to_hlr req h = Some (Inr (rc, h')) \<Longrightarrow> \<not> zero_lock (flying h) \<Longrightarrow> now (flying h') = now (flying h) + 1"
  by (auto simp: forward_req_to_hlr_def cl_grap_def res_simps split: if_splits)

lemma forward_msgs_ok:
  assumes "\<And>i. hsys_inv (h0 i) (s i) \<and> pending (s i) = None" and "0 < n" and "n \<le> MAX_HLR" and "\<forall>nr \<in> set nrs. key_fits nr"
    and "\<And>i. now (flying (hlr (s i))) + int (length (filter (routed C n i) nrs)) \<le> int QDEPTH"
  shows "\<exists>hs'. forward_msgs C n fd nrs (\<lambda>i. hlr (s i)) = Some (Inr (0, hs')) \<and>
     (\<forall>i. hsys_inv (h0 i) ((s i)\<lparr>hlr := hs' i, arrived := arrived (s i) @ map (Pair fd) (filter (routed C n i) nrs)\<rparr>))"
  using assms(1,4,5)
proof (induction nrs arbitrary: s)
  case Nil
  then show ?case by (intro exI [of _ "\<lambda>i. hlr (s i)"]) simp
next
  case (Cons nr nrs)
  have k: "key_fits nr" using Cons.prems(2) by simp
  then obtain i where i: "hlr_idx C n nr = Inr i" "i < n" using hlr_idx_ok [OF _ assms(2)] by blast
  then have lt: "i < MAX_HLR" using assms(3) by simp
  have ri: "routed C n i nr" "j \<noteq> i \<Longrightarrow> \<not> routed C n j nr" for j using i(1) by (simp_all add: routed_def)
  have inv: "hsys_inv (h0 i) (s i)" "pending (s i) = None" using Cons.prems(1) by blast+
  from recv_ok [OF inv, of nr fd] k obtain req h1 where m: "make_request_from_netreq nr fd (hlr (s i)) = Inr (req, h1)"
    and inv1: "hsys_inv (h0 i) ((s i)\<lparr>hlr := h1, pending := Some req, arrived := arrived (s i) @ [(fd, nr)]\<rparr>)"
    by (auto simp: key_fits_def)
  have "now (flying h1) < int QDEPTH"
    using Cons.prems(3) [of i] ri(1) make_request_flying [OF m] by simp
  with forward_ok [OF inv1, of req] obtain h2 where f: "forward_req_to_hlr req h1 = Some (Inr (0, h2))"
    and inv2: "hsys_inv (h0 i) ((s i)\<lparr>arrived := arrived (s i) @ [(fd, nr)], hlr := h2, pending := None\<rparr>)"
    by auto
  let ?s = "s(i := (s i)\<lparr>arrived := arrived (s i) @ [(fd, nr)], hlr := h2, pending := None\<rparr>)"
  have n2: "now (flying h2) = now (flying (hlr (s i))) + 1"
    using forward_now [OF f] make_request_flying [OF m] hsys_invD(1) [OF inv(1)] by (simp add: hlr_queues_def)
  have "hsys_inv (h0 j) (?s j) \<and> pending (?s j) = None" for j using Cons.prems(1) inv2 by simp
  moreover have "now (flying (hlr (?s j))) + int (length (filter (routed C n j) nrs)) \<le> int QDEPTH" for j
    using Cons.prems(3) [of j] n2 ri(1) ri(2) [of j] by (cases "j = i") auto
  ultimately obtain hs' where hs: "forward_msgs C n fd nrs (\<lambda>j. hlr (?s j)) = Some (Inr (0, hs'))"
    "\<forall>j. hsys_inv (h0 j) ((?s j)\<lparr>hlr := hs' j, arrived := arrived (?s j) @ map (Pair fd) (filter (routed C n j) nrs)\<rparr>)"
    using Cons.IH [of ?s] Cons.prems(2) by auto
  have e: "(\<lambda>j. hlr (?s j)) = (\<lambda>j. hlr (s j))(i := h2)" by auto
  have "forward_msgs C n fd (nr # nrs) (\<lambda>j. hlr (s j)) = Some (Inr (0, hs'))"
    using i lt m f hs(1) [unfolded e] by simp
  moreover have "hsys_inv (h0 j) ((s j)\<lparr>hlr := hs' j, arrived := arrived (s j) @ map (Pair fd) (filter (routed C n j) (nr # nrs))\<rparr>)" for j
  proof (cases "j = i")
    case True
    have "(?s i)\<lparr>hlr := hs' i, arrived := arrived (?s i) @ map (Pair fd) (filter (routed C n i) nrs)\<rparr> =
        (s i)\<lparr>hlr := hs' i, arrived := arrived (s i) @ map (Pair fd) (filter (routed C n i) (nr # nrs))\<rparr>"
      using inv(2) ri(1) by (cases "s i") simp
    with hs(2) True show ?thesis by metis
  next
    case False
    with hs(2) [rule_format, of j] ri(2) [of j] show ?thesis by auto
  qed
  ultimately show ?case by blast
qed

text \<open>A batch of whole messages is decoded message by message.\<close>

lemma batch_blocks: "batch bs = blocks NETREQ_SIZE netreq_of_bytes bs"
  by (simp add: batch_def blocks_def)

lemma batch_concat: "\<forall>nr \<in> set nrs. netreq_wf nr \<Longrightarrow> batch (concat (map netreq_bytes nrs)) = nrs"
  unfolding batch_blocks by (intro blocks_concat) (simp_all add: length_netreq_bytes netreq_decode_encode NETREQ_SIZE_def)

subsection \<open>Properties\<close>

text \<open>
  The master delivers what its clients send. From a socket whose stream carries whole well-formed messages, however cut into chunks, \<open>__process_request\<close>
  takes a positive number \<open>k\<close> of them, leaves the rest in the stream, and appends each to the queue of the handler its key belongs to, in order: for every handler, the
  acknowledgements sent and the requests in work and queued are afterwards the messages that had arrived there followed by those of the \<open>k\<close> that are its own. The
  windows must have room; otherwise the master waits.
\<close>

theorem process_request_forwards:
  assumes hs: "\<And>i. hlr_ready (h0 i) \<and> hsys_reachable C (h0 i) (s i) \<and> pending (s i) = None" and n: "0 < n" "n \<le> MAX_HLR"
    and sk: "sk fd = Some es" "live_stream es" "hd es \<noteq> SOCK_ERR" and bytes: "stream_bytes es = concat (map netreq_bytes nrs)" "nrs \<noteq> []"
    and wf: "\<forall>nr \<in> set nrs. netreq_wf nr \<and> unat (nr_keylen nr) \<le> KEY_LEN"
    and room: "\<And>i. now (flying (hlr (s i))) + int (length (filter (routed C n i) nrs)) \<le> int QDEPTH"
  shows "\<exists>k es' hs'. 0 < k \<and> k \<le> length nrs \<and> process_request C n fd (sk, \<lambda>i. hlr (s i)) = Some (Inr (0, sk(fd \<mapsto> es'), hs')) \<and>
     stream_bytes es' = concat (map netreq_bytes (drop k nrs)) \<and>
     (\<forall>i. map ack_tag (acks (hs' i)) @ map (\<lambda>r. req_tag (req_arr (hs' i) r)) (pc_reqs (pc (s i)) @ q_list (req_q (hs' i))) =
        map msg_tag (arrived (s i) @ map (Pair fd) (filter (routed C n i) (take k nrs))))"
proof -
  have len: "\<forall>nr \<in> set nrs. length (netreq_bytes nr) = NETREQ_SIZE" using wf length_netreq_bytes by blast
  from read_blocks [OF sk(2,3) bytes len, of MAX_NETREQ_BUF] obtain k buf es' where k: "0 < k" and kle: "k \<le> length nrs"
    and rd: "read_sock_bulk MAX_NETREQ_BUF NETREQ_SIZE es = Some (int (length buf), buf, es')" "0 < length buf"
    and buf: "buf = concat (map netreq_bytes (take k nrs))" "stream_bytes es' = concat (map netreq_bytes (drop k nrs))"
    by (auto simp: MAX_NETREQ_BUF_def NETREQ_SIZE_def)
  have b: "batch buf = take k nrs" unfolding buf(1) by (rule batch_concat) (use wf in \<open>auto dest: in_set_takeD\<close>)
  have inv: "hsys_inv (h0 i) (s i) \<and> pending (s i) = None" for i using hs [of i] hsys_inv_reachable by blast
  have fits: "\<forall>nr \<in> set (take k nrs). key_fits nr" using wf by (auto simp: key_fits_def netreq_wf_def dest!: in_set_takeD)
  have room': "now (flying (hlr (s i))) + int (length (filter (routed C n i) (take k nrs))) \<le> int QDEPTH" for i
  proof -
    have "length (filter (routed C n i) nrs) = length (filter (routed C n i) (take k nrs)) + length (filter (routed C n i) (drop k nrs))"
      by (metis append_take_drop_id filter_append length_append)
    with room [of i] show ?thesis by simp
  qed
  obtain hs' where f: "forward_msgs C n fd (take k nrs) (\<lambda>i. hlr (s i)) = Some (Inr (0, hs'))"
    "\<And>i. hsys_inv (h0 i) ((s i)\<lparr>hlr := hs' i, arrived := arrived (s i) @ map (Pair fd) (filter (routed C n i) (take k nrs))\<rparr>)"
    using forward_msgs_ok [OF inv n fits room'] by blast
  have "process_request C n fd (sk, \<lambda>i. hlr (s i)) = Some (Inr (0, sk(fd \<mapsto> es'), hs'))"
    using sk(1) rd(1,2) b f(1) by (auto simp: process_request_def)
  moreover have "map ack_tag (acks (hs' i)) @ map (\<lambda>r. req_tag (req_arr (hs' i) r)) (pc_reqs (pc (s i)) @ q_list (req_q (hs' i))) =
        map msg_tag (arrived (s i) @ map (Pair fd) (filter (routed C n i) (take k nrs)))" for i
    using hsys_invD(6) [OF f(2), of i] inv [of i] by (simp add: inflight_def)
  ultimately show ?thesis using k kle buf(2) by blast
qed

lemma one_get_forwarded:
  "\<exists>(h0 :: unit handler) hs' es' nr. netreq_wf nr \<and> process_request (\<lambda>_. (2 ^ 32, 0)) 2 7 ([7 \<mapsto> [SOCK_DATA (netreq_bytes nr)]], \<lambda>_. h0) = Some (Inr (0, [7 \<mapsto> es'], hs')) \<and>
     map ack_tag (acks (hs' 1)) @ map (\<lambda>r. req_tag (req_arr (hs' 1) r)) (q_list (req_q (hs' 1))) = [(7, 1, REQ_TYPE_GET)]"
proof -
  let ?nr = "\<lparr>nr_type = REQ_TYPE_GET, nr_keylen = 2, nr_seq_num = 1, nr_key = replicate 32 65, nr_kv_size = 0\<rparr>" and ?C = "\<lambda>_ :: byte list. (2 ^ 32 :: u64, 0 :: u64)"
  obtain h0 :: "unit handler" where h0: "hlr_ready h0" using ex_ready by blast
  let ?s = "\<lambda>_ :: nat. hsys_start h0"
  have s: "hlr_ready h0 \<and> hsys_reachable ?C h0 (?s i) \<and> pending (?s i) = None" for i
    using h0 hsys_reachable.start by (auto simp: hsys_start_def)
  have wf: "netreq_wf ?nr" by (simp add: netreq_wf_def config_defs)
  have ne: "netreq_bytes ?nr \<noteq> []" by (simp add: netreq_bytes_def)
  have r: "routed ?C 2 1 ?nr" by (simp add: routed_def hlr_idx_def hashing_key_128_def)
  have f0: "now (flying h0) = 0" "acks h0 = []" using h0 by (simp_all add: hlr_ready_def cl_init_def)
  have room: "now (flying (hlr (?s i))) + int (length (filter (routed ?C 2 i) [?nr])) \<le> int QDEPTH" for i
    by (simp add: f0 hsys_start_def QDEPTH_def)
  have "\<exists>k es' hs'. 0 < k \<and> k \<le> length [?nr] \<and>
     process_request ?C 2 7 ([7 \<mapsto> [SOCK_DATA (netreq_bytes ?nr)]], \<lambda>i. hlr (?s i)) = Some (Inr (0, [7 \<mapsto> [SOCK_DATA (netreq_bytes ?nr)]](7 \<mapsto> es'), hs')) \<and>
     stream_bytes es' = concat (map netreq_bytes (drop k [?nr])) \<and>
     (\<forall>i. map ack_tag (acks (hs' i)) @ map (\<lambda>r. req_tag (req_arr (hs' i) r)) (pc_reqs (pc (?s i)) @ q_list (req_q (hs' i))) =
        map msg_tag (arrived (?s i) @ map (Pair 7) (filter (routed ?C 2 i) (take k [?nr]))))"
    by (rule process_request_forwards [where ?h0.0 = "\<lambda>_. h0"]) (use s wf ne room in \<open>auto simp: MAX_HLR_def config_defs\<close>)
  then obtain k es' hs' where p: "0 < k" "k \<le> 1"
    "process_request ?C 2 7 ([7 \<mapsto> [SOCK_DATA (netreq_bytes ?nr)]], \<lambda>i. h0) = Some (Inr (0, [7 \<mapsto> es'], hs'))"
    "\<forall>i. map ack_tag (acks (hs' i)) @ map (\<lambda>r. req_tag (req_arr (hs' i) r)) (q_list (req_q (hs' i))) =
        map (\<lambda>x. msg_tag (7, x)) (filter (routed ?C 2 i) (take k [?nr]))"
    by (auto simp: hsys_start_def comp_def)
  then have "k = 1" by simp
  with p(4) [rule_format, of 1] r f0(2) have "map ack_tag (acks (hs' 1)) @ map (\<lambda>r. req_tag (req_arr (hs' 1) r)) (q_list (req_q (hs' 1))) = [(7, 1, REQ_TYPE_GET)]"
    by (simp add: msg_tag_def)
  with p(3) wf show ?thesis by (intro exI [of _ h0] exI [of _ hs'] exI [of _ es'] exI [of _ ?nr]) simp
qed

text \<open>
  What the master does not check. A key length above the 32 bytes of the key field makes it read behind the message, a configuration without a device makes it
  divide by zero, and with more than 32 devices it uses an entry behind its array of handlers for every message whose key hashes there.
\<close>

theorem forward_msgs_unchecked:
  assumes "netreq_wf nr"
  shows "(KEY_LEN < unat (nr_keylen nr) \<longrightarrow> forward_msgs C n fd (nr # nrs) hs = Some (Inl OutOfBounds)) \<and>
     (unat (nr_keylen nr) \<le> KEY_LEN \<longrightarrow> forward_msgs C 0 fd (nr # nrs) hs = Some (Inl DivByZero)) \<and>
     (unat (nr_keylen nr) \<le> KEY_LEN \<and> MAX_HLR \<le> unat (drop_bit 32 (fst (C (take (unat (nr_keylen nr)) (nr_key nr))))) mod n \<and> 0 < n \<longrightarrow>
        forward_msgs C n fd (nr # nrs) hs = Some (Inl OutOfBounds))"
  using assms by (auto simp: hlr_idx_def hashing_key_128_def netreq_wf_def split: prod.splits)

theorem forward_msgs_unchecked_witness:
  "forward_msgs (\<lambda>_. (0, 0)) 0 7 [\<lparr>nr_type = REQ_TYPE_GET, nr_keylen = 2, nr_seq_num = 1, nr_key = replicate 32 65, nr_kv_size = 0\<rparr>]
     (\<lambda>_. hlr_alloc 0 (\<lambda>_. 0) (\<lambda>_. True) (\<lambda>_. True) :: unit handler) = Some (Inl DivByZero)"
  using forward_msgs_unchecked [of "\<lparr>nr_type = REQ_TYPE_GET, nr_keylen = 2, nr_seq_num = 1, nr_key = replicate 32 65, nr_kv_size = 0\<rparr>" "\<lambda>_. (0, 0)" 0 7 "[]"
      "\<lambda>_. hlr_alloc 0 (\<lambda>_. 0) (\<lambda>_. True) (\<lambda>_. True) :: unit handler"]
  by (simp add: netreq_wf_def config_defs)

text \<open>
  One client that closes its connection stops the server. The event of a client at the end of its stream closes its socket, and the master thread returns: neither the
  events of other clients reported with it nor any later one is handled.
\<close>

theorem master_stops_on_disconnect:
  assumes "sk fd = Some (SOCK_EOF # es)"
  shows "master_thread C n (Some (EP_CLIENT fd # evs) # ws) (sk, hs) = Some (Inr (False, sk(fd := None), hs))"
proof -
  have "read_sock_bulk MAX_NETREQ_BUF NETREQ_SIZE (SOCK_EOF # es) = Some (0, [], es)"
    by (simp add: read_sock_bulk_def read_sock_bulk_from.simps MAX_NETREQ_BUF_def NETREQ_SIZE_def)
  with assms show ?thesis by (simp add: process_request_def)
qed

theorem master_stops_on_disconnect_witness:
  "master_thread (\<lambda>_. (0, 0)) 1 [Some [EP_CLIENT 7, EP_CLIENT 8], Some [EP_CLIENT 8]]
     ([7 \<mapsto> [SOCK_EOF], 8 \<mapsto> [SOCK_DATA (replicate 42 0)]], \<lambda>_. hlr_alloc 0 (\<lambda>_. 0) (\<lambda>_. True) (\<lambda>_. True) :: unit handler) =
   Some (Inr (False, [8 \<mapsto> [SOCK_DATA (replicate 42 0)]], \<lambda>_. hlr_alloc 0 (\<lambda>_. 0) (\<lambda>_. True) (\<lambda>_. True)))"
proof -
  let ?sk = "[7 \<mapsto> [SOCK_EOF], 8 \<mapsto> [SOCK_DATA (replicate 42 0)]] :: socks" and ?hs = "\<lambda>_ :: nat. hlr_alloc 0 (\<lambda>_. 0) (\<lambda>_. True) (\<lambda>_. True) :: unit handler"
  have "?sk 7 = Some [SOCK_EOF]" "?sk(7 := None) = [8 \<mapsto> [SOCK_DATA (replicate 42 0)]]" by (auto simp: fun_eq_iff)
  with master_stops_on_disconnect [of ?sk 7 "[]" "\<lambda>_. (0, 0)" 1 "[EP_CLIENT 8]" "[Some [EP_CLIENT 8]]" ?hs] show ?thesis by metis
qed

subsection \<open>The whole server: one master, all handlers\<close>

text \<open>
  The loop body of \<open>__process_request\<close> in two steps (take a message, forward its request), interleaved with the threads of all handlers. The master is one
  thread: it takes a message only when no request is waiting to be forwarded. \<open>todo\<close> is the rest of the batch, \<open>received\<close> records the messages taken.
\<close>

record 'p msys =
  hsyss :: "nat \<Rightarrow> 'p hsys"
  todo :: "(int \<times> netreq) list"
  received :: "(int \<times> netreq) list"

definition msys_start :: "(nat \<Rightarrow> 'p handler) \<Rightarrow> 'p msys" where
  "msys_start h0 = \<lparr>hsyss = (\<lambda>i. hsys_start (h0 i)), todo = [], received = []\<rparr>"

inductive msys_step :: "(byte list \<Rightarrow> u64 \<times> u64) \<Rightarrow> nat \<Rightarrow> 'p msys \<Rightarrow> 'p msys \<Rightarrow> bool" for C n where
  m_read: "todo s = [] \<Longrightarrow> msys_step C n s (s\<lparr>todo := map (Pair fd) (batch bs)\<rparr>)"
| m_take: "todo s = (fd, nr) # rest \<Longrightarrow> \<forall>j. pending (hsyss s j) = None \<Longrightarrow> hlr_idx C n nr = Inr i \<Longrightarrow> i < MAX_HLR \<Longrightarrow>
     make_request_from_netreq nr fd (hlr (hsyss s i)) = Inr (req, h') \<Longrightarrow>
     msys_step C n s (s\<lparr>hsyss := (hsyss s)(i := (hsyss s i)\<lparr>hlr := h', pending := Some req, arrived := arrived (hsyss s i) @ [(fd, nr)]\<rparr>),
       todo := rest, received := received s @ [(fd, nr)]\<rparr>)"
| m_forward: "pending (hsyss s i) = Some req \<Longrightarrow> forward_req_to_hlr req (hlr (hsyss s i)) = Some (Inr (rc, h')) \<Longrightarrow>
     msys_step C n s (s\<lparr>hsyss := (hsyss s)(i := (hsyss s i)\<lparr>hlr := h', pending := None\<rparr>)\<rparr>)"
| m_handle: "request_handler_step C stop ok (pc (hsyss s i)) (hlr (hsyss s i)) = Inr (pc', h') \<Longrightarrow>
     msys_step C n s (s\<lparr>hsyss := (hsyss s)(i := (hsyss s i)\<lparr>hlr := h', pc := pc'\<rparr>)\<rparr>)"
| m_tick: "msys_step C n s (s\<lparr>hsyss := (hsyss s)(i := (hsyss s i)\<lparr>hlr := (hlr (hsyss s i))\<lparr>clock := t\<rparr>\<rparr>)\<rparr>)"

inductive msys_reachable :: "(byte list \<Rightarrow> u64 \<times> u64) \<Rightarrow> nat \<Rightarrow> (nat \<Rightarrow> 'p handler) \<Rightarrow> 'p msys \<Rightarrow> bool" for C n h0 where
  m_start: "msys_reachable C n h0 (msys_start h0)"
| m_step: "msys_reachable C n h0 s \<Longrightarrow> msys_step C n s s' \<Longrightarrow> msys_reachable C n h0 s'"

text \<open>The view of one handler: every step is a step of its own system, or leaves it alone.\<close>

lemma msys_step_hsys: "msys_step C n s s' \<Longrightarrow> hsyss s' i = hsyss s i \<or> hsys_step C (hsyss s i) (hsyss s' i)"
  by (induction rule: msys_step.induct) (auto intro: hsys_step.intros)

lemma msys_hsys_reachable: "msys_reachable C n h0 s \<Longrightarrow> hsys_reachable C (h0 i) (hsyss s i)"
proof (induction rule: msys_reachable.induct)
  case m_start
  then show ?case by (simp add: msys_start_def hsys_reachable.start)
next
  case (m_step s s')
  from msys_step_hsys [OF m_step(2), of i] m_step(3) show ?case by (auto intro: hsys_reachable.step)
qed

lemma msys_arrived: "msys_reachable C n h0 s \<Longrightarrow> arrived (hsyss s i) = filter (\<lambda>m. routed C n i (snd m)) (received s)"
proof (induction rule: msys_reachable.induct)
  case m_start
  then show ?case by (simp add: msys_start_def hsys_start_def)
next
  case (m_step s s')
  from m_step(2,3) show ?case by (induction rule: msys_step.induct) (auto simp: routed_def)
qed

text \<open>
  C2: the server acknowledges each message once, by the handler of its key, in order. In every state the master and all handler threads reach, for every handler, the
  acknowledgements it has sent followed by its requests in flight are the messages received that its index owns, in the order they were received. Two
  messages with the same key are therefore acknowledged in their order.
\<close>

theorem server_acks_per_handler:
  assumes "\<And>i. hlr_ready (h0 i)" and "msys_reachable C n h0 s"
  shows "map ack_tag (acks (hlr (hsyss s i))) @ map (\<lambda>r. req_tag (req_arr (hlr (hsyss s i)) r)) (inflight (hsyss s i)) =
       map msg_tag (filter (\<lambda>m. routed C n i (snd m)) (received s)) \<and> untouched (h0 i) (hlr (hsyss s i))"
  using hsys_invD(6,10) [OF hsys_inv_reachable [OF msys_hsys_reachable [OF assms(2)] assms(1)], of i] msys_arrived [OF assms(2), of i]
  by simp

theorem server_acks_per_handler_witness:
  "\<exists>(h0 :: unit handler) s. msys_reachable (\<lambda>_. (0, 0)) 1 (\<lambda>_. h0) s \<and>
     map ack_tag (acks (hlr (hsyss s 0))) @ map (\<lambda>r. req_tag (req_arr (hlr (hsyss s 0)) r)) (inflight (hsyss s 0)) = [(7, 1, REQ_TYPE_GET)]"
proof -
  let ?nr = "\<lparr>nr_type = REQ_TYPE_GET, nr_keylen = 2, nr_seq_num = 1, nr_key = replicate 32 65, nr_kv_size = 0\<rparr>" and ?C = "\<lambda>_ :: byte list. (0 :: u64, 0 :: u64)"
  obtain h0 :: "unit handler" where h0: "hlr_ready h0" using ex_ready by blast
  let ?s0 = "msys_start (\<lambda>_. h0)"
  have "netreq_wf ?nr" by (simp add: netreq_wf_def config_defs)
  then have b: "batch (netreq_bytes ?nr) = [?nr]" using batch_concat [of "[?nr]"] by simp
  define s1 where "s1 = ?s0\<lparr>todo := [(7, ?nr)]\<rparr>"
  have s1: "msys_reachable ?C 1 (\<lambda>_. h0) s1" "todo s1 = [(7, ?nr)]" "hsyss s1 j = hsys_start h0" for j
    using msys_reachable.m_step [OF msys_reachable.m_start msys_step.m_read, of "\<lambda>_. h0" ?C 1 7 "netreq_bytes ?nr"] b
    by (simp_all add: s1_def msys_start_def)
  obtain req h1 where m: "make_request_from_netreq ?nr 7 (hlr (hsyss s1 0)) = Inr (req, h1)"
    using recv_ok [OF hsys_inv_start [OF h0], of ?nr 7] by (auto simp: s1(3) hsys_start_def)
  have i: "hlr_idx ?C 1 ?nr = Inr 0" by (simp add: hlr_idx_def hashing_key_128_def)
  have p: "\<forall>j. pending (hsyss s1 j) = None" by (simp add: s1(3) hsys_start_def)
  obtain s2 where s2: "msys_reachable ?C 1 (\<lambda>_. h0) s2" "received s2 = [(7, ?nr)]"
    using msys_reachable.m_step [OF s1(1) msys_step.m_take [OF s1(2) p i _ m]] by (fastforce simp: MAX_HLR_def s1_def msys_start_def)
  have r: "routed ?C 1 0 ?nr" using i by (simp add: routed_def)
  from server_acks_per_handler [OF _ s2(1), of 0] h0 s2(2) r
  have "map ack_tag (acks (hlr (hsyss s2 0))) @ map (\<lambda>r. req_tag (req_arr (hlr (hsyss s2 0)) r)) (inflight (hsyss s2 0)) = [(7, 1, REQ_TYPE_GET)]"
    by (simp add: msg_tag_def)
  with s2(1) show ?thesis by (intro exI [of _ h0] exI [of _ s2]) simp
qed

end
