(* ===== verification/Server.thy ===== *)
theory Server
  imports Master
begin

section \<open>Starting the server (\<open>src/temp.cc\<close>, \<open>src/master.c\<close>)\<close>

text \<open>
  The command line, the listening socket, the epoll instance, the handlers, and the acceptance of clients. The system calls are the environment: the kernel hands out descriptors that are not in use
  and decides of each call on a descriptor whether it succeeds (\<open>outcomes\<close>, one per call, success when the list is exhausted); a call on a descriptor that is not open fails. \<open>fcntl(fd, F_GETFL)\<close> does not fail on
  an open descriptor. What \<open>getopt_long\<close> returns is a list of its results. A C string is the content of its buffer; reading one that has no terminator runs out of the buffer.
\<close>

subsection \<open>Descriptors\<close>

record kern =
  next_fd :: int
  open_fds :: "int list"
  nonblocking :: "int list"
  watched :: "(int \<times> int) list"
  outcomes :: "bool list"

definition sys_outcome :: "kern \<Rightarrow> bool \<times> kern" where
  "sys_outcome k = (case outcomes k of [] \<Rightarrow> (True, k) | b # bs \<Rightarrow> (b, k\<lparr>outcomes := bs\<rparr>))"

text \<open>\<open>socket\<close>, \<open>epoll_create1\<close>: a new descriptor or -1.\<close>

definition sys_open :: "kern \<Rightarrow> int \<times> kern" where
  "sys_open k = (case sys_outcome k of (ok, k1) \<Rightarrow>
     if ok then (next_fd k1, k1\<lparr>next_fd := next_fd k1 + 1, open_fds := next_fd k1 # open_fds k1\<rparr>) else (-1, k1))"

text \<open>A call on a descriptor.\<close>

definition sys_on :: "int \<Rightarrow> kern \<Rightarrow> bool \<times> kern" where
  "sys_on fd k = (if fd \<in> set (open_fds k) then sys_outcome k else (False, k))"

definition sys_close :: "int \<Rightarrow> kern \<Rightarrow> kern" where
  "sys_close fd k = k\<lparr>open_fds := removeAll fd (open_fds k), nonblocking := removeAll fd (nonblocking k),
     watched := filter (\<lambda>(e, f). e \<noteq> fd \<and> f \<noteq> fd) (watched k)\<rparr>"

text \<open>\<open>fcntl(fd, F_SETFL, flags | O_NONBLOCK)\<close> and \<open>epoll_ctl(epfd, EPOLL_CTL_ADD, fd, &events)\<close>.\<close>

definition sys_nonblock :: "int \<Rightarrow> kern \<Rightarrow> bool \<times> kern" where
  "sys_nonblock fd k = (case sys_on fd k of (ok, k1) \<Rightarrow> (ok, if ok then k1\<lparr>nonblocking := fd # nonblocking k1\<rparr> else k1))"

definition sys_watch :: "int \<Rightarrow> int \<Rightarrow> kern \<Rightarrow> bool \<times> kern" where
  "sys_watch epfd fd k = (if epfd \<in> set (open_fds k) then
     (case sys_on fd k of (ok, k1) \<Rightarrow> (ok, if ok then k1\<lparr>watched := (epfd, fd) # watched k1\<rparr> else k1)) else (False, k))"

subsection \<open>Sockets\<close>

definition socket_init :: "kern \<Rightarrow> int \<times> kern" where
  "socket_init k0 =
     (case sys_open k0 of (fd, k1) \<Rightarrow>
      if fd = -1 then (-1, k1) else
      case sys_nonblock fd k1 of (flags_set, k2) \<Rightarrow>
      if \<not> flags_set then (-1, sys_close fd k2) else
      case sys_on fd k2 of (option_set, k3) \<Rightarrow>
      if \<not> option_set then (-1, sys_close fd k3) else
      case sys_on fd k3 of (bound, k4) \<Rightarrow>
      if \<not> bound then (-1, sys_close fd k4) else
      case sys_on fd k4 of (listening, k5) \<Rightarrow>
      if \<not> listening then (-1, sys_close fd k5) else (fd, k5))"

text \<open>\<open>accept\<close> on the listening socket, then the flags and the registration of the new descriptor.\<close>

definition accept_new_client :: "int \<Rightarrow> int \<Rightarrow> kern \<Rightarrow> int \<times> kern" where
  "accept_new_client mas_fd mas_epfd k0 =
     (case (if mas_fd \<in> set (open_fds k0) then sys_open k0 else (-1, k0)) of (fd, k1) \<Rightarrow>
      if fd < 0 then (-1, k1) else
      case sys_nonblock fd k1 of (flags_set, k2) \<Rightarrow>
      if \<not> flags_set then (-1, sys_close fd k2) else
      case sys_watch mas_epfd fd k2 of (added, k3) \<Rightarrow>
      if \<not> added then (-1, sys_close fd k3) else (fd, k3))"

subsection \<open>Strings\<close>

definition NUL :: char where "NUL = CHR 0x00"

text \<open>A buffer read as a C string.\<close>

definition cstr :: "string \<Rightarrow> string res" where
  "cstr buf = (if NUL \<in> set buf then Inr (takeWhile (\<lambda>ch. ch \<noteq> NUL) buf) else Inl OutOfBounds)"

text \<open>\<open>calloc(32, 1)\<close> followed by \<open>strncpy(buf, src, strlen(src))\<close>: the terminator of \<open>src\<close> is not copied.\<close>

definition DEV_NAME_MAX :: nat where "DEV_NAME_MAX = 32"

definition dup_name :: "string \<Rightarrow> string res" where
  "dup_name src = (if length src \<le> DEV_NAME_MAX then Inr (src @ replicate (DEV_NAME_MAX - length src) NUL) else Inl OutOfBounds)"

text \<open>\<open>atoi\<close>: white space, a sign, digits.\<close>

definition digit_val :: "char \<Rightarrow> int" where
  "digit_val ch = of_char ch - 48"

definition is_digit :: "char \<Rightarrow> bool" where
  "is_digit ch \<longleftrightarrow> 0 \<le> digit_val ch \<and> digit_val ch \<le> 9"

definition is_space :: "char \<Rightarrow> bool" where
  "is_space ch \<longleftrightarrow> (of_char ch :: nat) = 32 \<or> (9 \<le> (of_char ch :: nat) \<and> (of_char ch :: nat) \<le> 13)"

definition atoi_digits :: "string \<Rightarrow> int" where
  "atoi_digits s = foldl (\<lambda>n ch. 10 * n + digit_val ch) 0 (takeWhile is_digit s)"

definition atoi :: "string \<Rightarrow> int" where
  "atoi s = (case dropWhile is_space s of
      [] \<Rightarrow> 0
    | ch # cs \<Rightarrow> if ch = CHR ''-'' then - atoi_digits cs else if ch = CHR ''+'' then atoi_digits cs else atoi_digits (ch # cs))"

subsection \<open>The command line\<close>

text \<open>
  The results of \<open>getopt_long\<close> before it returns -1: the option \<open>d\<close> with its argument and the arguments from \<open>argv[optind]\<close> on, a question mark, or another value.
\<close>

datatype getopt_res = OPT_D string "string list" | OPT_ERR | OPT_OTHER

record server =
  srv_num_dev :: int
  srv_device :: "string list"

datatype exit_kind = EXIT_FAILURE

text \<open>
  The loop over the devices: \<open>srv->device\<close> has 32 entries, and \<open>argv\<close> ends with a null pointer, which \<open>strlen\<close> dereferences.
\<close>

fun copy_devices :: "nat \<Rightarrow> nat \<Rightarrow> string list \<Rightarrow> string list res" where
  "copy_devices 0 i args = Inr []"
| "copy_devices (Suc n) i args =
     (if MAX_HLR \<le> i then Inl OutOfBounds
      else case args of
        [] \<Rightarrow> Inl NullDeref
      | arg # args' \<Rightarrow> ebind (dup_name arg) (\<lambda>buf. ebind (copy_devices n (Suc i) args') (\<lambda>bufs. Inr (buf # bufs))))"

fun getopt_loop :: "getopt_res list \<Rightarrow> bool \<times> server \<Rightarrow> (bool \<times> server) res" where
  "getopt_loop [] st = Inr st"
| "getopt_loop (OPT_D optarg args # os) (dev_flag, srv) =
     ebind (copy_devices (nat (atoi optarg)) 0 args) (\<lambda>bufs.
     getopt_loop os (True, srv\<lparr>srv_num_dev := atoi optarg, srv_device := bufs @ drop (length bufs) (srv_device srv)\<rparr>))"
| "getopt_loop (OPT_ERR # os) st = getopt_loop os st"
| "getopt_loop (OPT_OTHER # os) st = Inl Abort"

text \<open>The left value of the result: the process exits.\<close>

definition server_getopt :: "getopt_res list \<Rightarrow> server \<Rightarrow> (exit_kind + server) res" where
  "server_getopt os srv =
     ebind (getopt_loop os (False, srv)) (\<lambda>(dev_flag, srv'). Inr (if dev_flag then Inr srv' else Inl EXIT_FAILURE))"

subsection \<open>The master and its handlers\<close>

text \<open>What the system gives for a device: the outcomes of the calls of \<open>handler_init\<close>.\<close>

record dev_env =
  de_open :: bool
  de_nblk :: "u32 option"
  de_lbs :: "u32 option"
  de_io_setup :: bool
  de_disk :: "nat \<Rightarrow> byte"
  de_mmap :: "nat \<Rightarrow> bool"
  de_submit :: "nat \<Rightarrow> bool"

definition hlr_start :: "(string \<Rightarrow> dev_env) \<Rightarrow> nat \<Rightarrow> string \<Rightarrow> 'p handler res" where
  "hlr_start env num dev_name =
     ebind (cstr dev_name) (\<lambda>name. let e = env name in
     handler_init (int num) (de_open e) (de_nblk e) (de_lbs e) (de_io_setup e) (de_disk e) (de_mmap e) (de_submit e))"

record 'p master =
  mas_num_dev :: int
  mas_device :: "string list"
  mas_hlr :: "'p handler list"
  mas_fd :: int
  mas_epfd :: int

fun init_handlers :: "(string \<Rightarrow> dev_env) \<Rightarrow> nat \<Rightarrow> nat \<Rightarrow> string list \<Rightarrow> 'p handler list res" where
  "init_handlers env 0 i devs = Inr []"
| "init_handlers env (Suc n) i devs =
     (if MAX_HLR \<le> i \<or> length devs \<le> i then Inl OutOfBounds
      else ebind (hlr_start env i (devs ! i)) (\<lambda>h. ebind (init_handlers env n (Suc i) devs) (\<lambda>hs. Inr (h # hs))))"

text \<open>\<open>None\<close> is the null pointer. The thread of the master is started before the handlers are initialised.\<close>

definition master_init :: "(string \<Rightarrow> dev_env) \<Rightarrow> int \<Rightarrow> string list \<Rightarrow> kern \<Rightarrow> ('p master option \<times> kern) res" where
  "master_init env num_dev device k0 =
     (case socket_init k0 of (fd, k1) \<Rightarrow>
      case sys_open k1 of (epfd, k2) \<Rightarrow>
      if epfd < 0 then Inr (None, k2) else
      case sys_watch epfd fd k2 of (added, k3) \<Rightarrow>
      if \<not> added then Inr (None, sys_close epfd k3) else
      ebind (init_handlers env (nat num_dev) 0 device) (\<lambda>hs.
      Inr (Some \<lparr>mas_num_dev = num_dev, mas_device = device, mas_hlr = hs, mas_fd = fd, mas_epfd = epfd\<rparr>, k3)))"

definition master_free :: "'p master \<Rightarrow> kern \<Rightarrow> kern" where
  "master_free mas k = sys_close (mas_epfd mas) k"

text \<open>\<open>main\<close> up to \<open>pthread_join(server.mas->tid, NULL)\<close>, which reads the thread from the master.\<close>

definition server_main :: "(string \<Rightarrow> dev_env) \<Rightarrow> getopt_res list \<Rightarrow> kern \<Rightarrow> (exit_kind + ('p master \<times> kern)) res" where
  "server_main env os k =
     ebind (server_getopt os \<lparr>srv_num_dev = 0, srv_device = []\<rparr>) (\<lambda>r. case r of
        Inl x \<Rightarrow> Inr (Inl x)
      | Inr srv \<Rightarrow> ebind (master_init env (srv_num_dev srv) (srv_device srv) k) (\<lambda>(mas, k').
          case mas of None \<Rightarrow> Inl NullDeref | Some m \<Rightarrow> Inr (Inr (m, k'))))"
subsection \<open>Descriptors are accounted for\<close>

definition kern_ok :: "kern \<Rightarrow> bool" where
  "kern_ok k \<longleftrightarrow> (\<forall>fd \<in> set (open_fds k). 0 \<le> fd \<and> fd < next_fd k) \<and> 0 \<le> next_fd k"

lemmas sys_defs = sys_open_def sys_on_def sys_close_def sys_nonblock_def sys_watch_def sys_outcome_def

lemma removeAll_fresh: "kern_ok k \<Longrightarrow> removeAll (next_fd k) (open_fds k) = open_fds k"
  by (intro removeAll_id) (auto simp: kern_ok_def)

lemma sys_open_cases:
  assumes "kern_ok k" and "sys_open k = (fd, k')"
  shows "fd = -1 \<and> open_fds k' = open_fds k \<and> kern_ok k' \<or>
     0 \<le> fd \<and> fd \<notin> set (open_fds k) \<and> open_fds k' = fd # open_fds k \<and> kern_ok k'"
  using assms by (auto simp: sys_defs kern_ok_def split: list.splits if_splits) (simp_all add: less_imp_le)

lemma sys_on_open: "sys_on fd k = (ok, k') \<Longrightarrow> open_fds k' = open_fds k \<and> nonblocking k' = nonblocking k \<and> watched k' = watched k \<and> next_fd k' = next_fd k"
  by (auto simp: sys_defs split: list.splits if_splits)

lemma sys_nonblock_open: "sys_nonblock fd k = (ok, k') \<Longrightarrow> open_fds k' = open_fds k \<and> watched k' = watched k \<and> next_fd k' = next_fd k \<and> (ok \<longrightarrow> fd \<in> set (nonblocking k'))"
  by (auto simp: sys_nonblock_def split: prod.splits if_splits dest: sys_on_open)

lemma sys_watch_open:
  "sys_watch e fd k = (ok, k') \<Longrightarrow> open_fds k' = open_fds k \<and> nonblocking k' = nonblocking k \<and> next_fd k' = next_fd k \<and> (ok \<longrightarrow> (e, fd) \<in> set (watched k') \<and> fd \<in> set (open_fds k))"
  by (auto simp: sys_watch_def sys_on_def split: prod.splits if_splits dest: sys_on_open) (auto simp: sys_outcome_def split: list.splits)

lemma kern_ok_cong: "open_fds k' = open_fds k \<Longrightarrow> next_fd k' = next_fd k \<Longrightarrow> kern_ok k' = kern_ok k"
  by (simp add: kern_ok_def)

text \<open>Closing the descriptor that was opened last.\<close>

lemma sys_close_last:
  assumes "kern_ok k'" and "open_fds k' = fd # os" and "fd \<notin> set os"
  shows "open_fds (sys_close fd k') = os \<and> kern_ok (sys_close fd k')"
  using assms by (auto simp: sys_close_def kern_ok_def)

lemma socket_init_cases:
  assumes ok: "kern_ok k" and run: "socket_init k = (fd, k')"
  shows "kern_ok k' \<and> (fd = -1 \<and> open_fds k' = open_fds k \<or>
     0 \<le> fd \<and> fd \<notin> set (open_fds k) \<and> open_fds k' = fd # open_fds k \<and> fd \<in> set (nonblocking k'))"
proof -
  obtain f k1 where k1: "sys_open k = (f, k1)" by fastforce
  show ?thesis
  proof (cases "f = -1")
    case True
    with run k1 sys_open_cases [OF ok k1] show ?thesis by (auto simp: socket_init_def)
  next
    case False
    with sys_open_cases [OF ok k1] have f: "0 \<le> f" "f \<notin> set (open_fds k)" "open_fds k1 = f # open_fds k" "kern_ok k1" by auto
    obtain b2 k2 where k2: "sys_nonblock f k1 = (b2, k2)" by fastforce
    obtain b3 k3 where k3: "sys_on f k2 = (b3, k3)" by fastforce
    obtain b4 k4 where k4: "sys_on f k3 = (b4, k4)" by fastforce
    obtain b5 k5 where k5: "sys_on f k4 = (b5, k5)" by fastforce
    note s = sys_nonblock_open [OF k2] sys_on_open [OF k3] sys_on_open [OF k4] sys_on_open [OF k5]
    have kk: "open_fds k2 = f # open_fds k" "open_fds k3 = f # open_fds k" "open_fds k4 = f # open_fds k" "open_fds k5 = f # open_fds k"
      "kern_ok k2" "kern_ok k3" "kern_ok k4" "kern_ok k5" using s f(3,4) by (simp_all add: kern_ok_def)
    note cl = sys_close_last [OF kk(5,1) f(2)] sys_close_last [OF kk(6,2) f(2)] sys_close_last [OF kk(7,3) f(2)] sys_close_last [OF kk(8,4) f(2)]
    have "(fd, k') = (if \<not> b2 then (-1, sys_close f k2) else if \<not> b3 then (-1, sys_close f k3) else if \<not> b4 then (-1, sys_close f k4)
        else if \<not> b5 then (-1, sys_close f k5) else (f, k5))"
      using run k1 k2 k3 k4 k5 False by (auto simp: socket_init_def split: if_splits)
    then show ?thesis using f(1,2) kk s cl by (auto split: if_splits)
  qed
qed

lemma accept_cases:
  assumes ok: "kern_ok k" and run: "accept_new_client lfd epfd k = (fd, k')"
  shows "kern_ok k' \<and> (fd = -1 \<and> open_fds k' = open_fds k \<or>
     0 \<le> fd \<and> fd \<notin> set (open_fds k) \<and> open_fds k' = fd # open_fds k \<and> fd \<in> set (nonblocking k') \<and> (epfd, fd) \<in> set (watched k'))"
proof -
  obtain f k1 where k1: "(if lfd \<in> set (open_fds k) then sys_open k else (-1, k)) = (f, k1)" by fastforce
  show ?thesis
  proof (cases "f < 0")
    case True
    then have "open_fds k1 = open_fds k \<and> kern_ok k1" using k1 ok sys_open_cases [of k f k1] by (auto split: if_splits)
    with run k1 True show ?thesis by (auto simp: accept_new_client_def)
  next
    case False
    then have f: "0 \<le> f" "f \<notin> set (open_fds k)" "open_fds k1 = f # open_fds k" "kern_ok k1"
      using k1 sys_open_cases [OF ok, of f k1] by (auto split: if_splits)
    obtain b2 k2 where k2: "sys_nonblock f k1 = (b2, k2)" by fastforce
    obtain b3 k3 where k3: "sys_watch epfd f k2 = (b3, k3)" by fastforce
    note s = sys_nonblock_open [OF k2] sys_watch_open [OF k3]
    have kk: "open_fds k2 = f # open_fds k" "open_fds k3 = f # open_fds k" "kern_ok k2" "kern_ok k3" using s f(3,4) by (simp_all add: kern_ok_def)
    note cl = sys_close_last [OF kk(3,1) f(2)] sys_close_last [OF kk(4,2) f(2)]
    have "(fd, k') = (if \<not> b2 then (-1, sys_close f k2) else if \<not> b3 then (-1, sys_close f k3) else (f, k3))"
      using run k1 k2 k3 False by (auto simp: accept_new_client_def split: if_splits)
    then show ?thesis using f(1,2) kk s cl by (auto split: if_splits)
  qed
qed

subsection \<open>Command line and handlers\<close>

lemma cstr_dup_name:
  assumes "NUL \<notin> set name" and "length name < DEV_NAME_MAX"
  shows "\<exists>buf. dup_name name = Inr buf \<and> cstr buf = Inr name"
proof -
  have "takeWhile (\<lambda>ch. ch \<noteq> NUL) (name @ replicate (DEV_NAME_MAX - length name) NUL) = name"
    using assms by (subst takeWhile_append2) (auto simp: takeWhile_eq_Nil_iff)
  then show ?thesis using assms by (simp add: dup_name_def cstr_def)
qed

text \<open>A name of 32 characters fills its buffer: it is copied, and cannot be read back.\<close>

lemma dup_name_full: "NUL \<notin> set name \<Longrightarrow> length name = DEV_NAME_MAX \<Longrightarrow> dup_name name = Inr name \<and> cstr name = Inl OutOfBounds"
  by (simp add: dup_name_def cstr_def)

definition name_ok :: "string \<Rightarrow> bool" where
  "name_ok name \<longleftrightarrow> NUL \<notin> set name \<and> length name < DEV_NAME_MAX"

lemma copy_devices_ok:
  "\<forall>name \<in> set names. name_ok name \<Longrightarrow> i + length names \<le> MAX_HLR \<Longrightarrow>
     \<exists>bufs. copy_devices (length names) i (names @ extra) = Inr bufs \<and> map cstr bufs = map Inr names"
proof (induction names arbitrary: i)
  case (Cons name names)
  from Cons.prems obtain buf where buf: "dup_name name = Inr buf" "cstr buf = Inr name" using cstr_dup_name by (auto simp: name_ok_def)
  from Cons.IH [of "Suc i"] Cons.prems obtain bufs where "copy_devices (length names) (Suc i) (names @ extra) = Inr bufs" "map cstr bufs = map Inr names" by auto
  with buf Cons.prems show ?case by simp
qed simp

lemma copy_devices_missing:
  "\<forall>name \<in> set names. length name \<le> DEV_NAME_MAX \<Longrightarrow> length names < n \<Longrightarrow> i + length names < MAX_HLR \<Longrightarrow> copy_devices n i names = Inl NullDeref"
proof (induction names arbitrary: i n)
  case Nil
  then show ?case by (cases n) auto
next
  case (Cons name names)
  then obtain n' where "n = Suc n'" by (cases n) auto
  with Cons.IH [of n' "Suc i"] Cons.prems show ?case by (simp add: dup_name_def)
qed

lemma copy_devices_overflow:
  "\<forall>name \<in> set names. length name \<le> DEV_NAME_MAX \<Longrightarrow> MAX_HLR \<le> i + length names \<Longrightarrow> MAX_HLR < i + n \<Longrightarrow> i \<le> MAX_HLR \<Longrightarrow> copy_devices n i names = Inl OutOfBounds"
proof (induction names arbitrary: i n)
  case Nil
  then show ?case by (cases n) auto
next
  case (Cons name names)
  then obtain n' where n': "n = Suc n'" by (cases n) auto
  show ?case
  proof (cases "i = MAX_HLR")
    case False
    with Cons.IH [of "Suc i" n'] Cons.prems n' show ?thesis by (simp add: dup_name_def)
  qed (simp add: n')
qed
text \<open>A device that \<open>handler_init\<close> accepts.\<close>

definition dev_ok :: "dev_env \<Rightarrow> bool" where
  "dev_ok e \<longleftrightarrow> de_open e \<and> de_io_setup e \<and> de_mmap e 0 \<and>
     (case (de_nblk e, de_lbs e) of (Some nb, Some bs) \<Rightarrow> SEGMENT_SIZE \<le> unat nb * unat bs \<and> unat nb * unat bs < 2 ^ 32 * SEGMENT_SIZE | _ \<Rightarrow> False)"

definition hlr_fresh :: "'p handler \<Rightarrow> bool" where
  "hlr_fresh h \<longleftrightarrow> staged_ok h \<and> pools_hold QSIZE h \<and> req_q h = q_init (int QSIZE) \<and> retry_q h = q_init (int QSIZE) \<and> flying h = cl_init (int QDEPTH) False \<and> acks h = []"

text \<open>A handler that was opened on the device \<open>e\<close>, as the handler of the given number: its disk and the geometry of its log are those of the device.\<close>

definition hlr_on :: "dev_env \<Rightarrow> nat \<Rightarrow> 'p handler \<Rightarrow> bool" where
  "hlr_on e i h \<longleftrightarrow> number h = int i \<and> disk h = de_disk e \<and> Some (nr_logical_block (dev h)) = de_nblk e \<and> Some (logical_block_size (dev h)) = de_lbs e \<and>
     mmap_ok h = de_mmap e \<and> submit_ok h = de_submit e"

lemma handler_init_on:
  assumes "handler_init num opened nblk lbs setup dsk mok sok = Inr h"
  shows "number h = num \<and> disk h = dsk \<and> Some (nr_logical_block (dev h)) = nblk \<and> Some (logical_block_size (dev h)) = lbs \<and> mmap_ok h = mok \<and> submit_ok h = sok"
proof -
  from assms obtain h1 where h1: "dev_abs_init opened nblk lbs (hlr_alloc num dsk mok sok) = Inr h1" and f: "hlr_fill_pools h1 = Inr h"
    by (auto simp: handler_init_def res_simps split: if_splits)
  from f have "number h = number h1 \<and> disk h = disk h1 \<and> dev h = dev h1 \<and> mmap_ok h = mmap_ok h1 \<and> submit_ok h = submit_ok h1"
    by (auto simp: hlr_fill_pools_def res_simps)
  moreover have "number h1 = num \<and> disk h1 = dsk \<and> Some (nr_logical_block (dev h1)) = nblk \<and> Some (logical_block_size (dev h1)) = lbs \<and> mmap_ok h1 = mok \<and> submit_ok h1 = sok"
    using h1 by (auto simp: dev_abs_init_def alloc_seg_buffer_def mem_alloc_def Let_def res_simps hlr_alloc_def split: if_splits option.splits)
  ultimately show ?thesis by simp
qed

lemma hlr_start_ok:
  assumes "cstr buf = Inr name" and "dev_ok (env name)"
  shows "\<exists>h :: 'p handler. hlr_start env i buf = Inr h \<and> hlr_fresh h \<and> hlr_on (env name) i h"
proof -
  from assms(2) obtain nb bs where d: "de_nblk (env name) = Some nb" "de_lbs (env name) = Some bs" "de_open (env name)" "de_io_setup (env name)" "de_mmap (env name) 0"
    "SEGMENT_SIZE \<le> unat nb * unat bs" "unat nb * unat bs < 2 ^ 32 * SEGMENT_SIZE" by (auto simp: dev_ok_def split: option.splits)
  from handler_init_ok [where 'p = 'p and mok = "de_mmap (env name)", OF d(6,7,5), of "int i" "de_disk (env name)" "de_submit (env name)"]
  obtain h :: "'p handler" where
    h: "handler_init (int i) True (Some nb) (Some bs) True (de_disk (env name)) (de_mmap (env name)) (de_submit (env name)) = Inr h" "hlr_fresh h"
    by (auto simp: hlr_fresh_def)
  have "hlr_start env i buf = Inr h" using assms(1) d(1-4) h(1) by (simp add: hlr_start_def Let_def)
  moreover have "hlr_on (env name) i h" using handler_init_on [OF h(1)] d(1,2) by (simp add: hlr_on_def)
  ultimately show ?thesis using h(2) by blast
qed

lemma init_handlers_ok:
  "i + n \<le> length devs \<Longrightarrow> length devs \<le> MAX_HLR \<Longrightarrow> map cstr devs = map Inr names \<Longrightarrow> \<forall>name \<in> set names. dev_ok (env name) \<Longrightarrow>
     \<exists>hs :: 'p handler list. init_handlers env n i devs = Inr hs \<and> length hs = n \<and> (\<forall>j < n. hlr_fresh (hs ! j) \<and> hlr_on (env (names ! (i + j))) (i + j) (hs ! j))"
proof (induction n arbitrary: i)
  case (Suc n)
  from Suc.prems have i: "i < length devs" "i < MAX_HLR" by simp_all
  have "length names = length devs" using Suc.prems(3) by (metis length_map)
  then have "cstr (devs ! i) = Inr (names ! i)" "names ! i \<in> set names" using Suc.prems(3) i(1) by (metis nth_map, simp)
  with hlr_start_ok [of "devs ! i" "names ! i" env i] Suc.prems(4) obtain h :: "'p handler" where
    h: "hlr_start env i (devs ! i) = Inr h" "hlr_fresh h" "hlr_on (env (names ! i)) i h" by blast
  from Suc.IH [of "Suc i"] Suc.prems obtain hs :: "'p handler list" where hs: "init_handlers env n (Suc i) devs = Inr hs" "length hs = n"
    "\<forall>j < n. hlr_fresh (hs ! j) \<and> hlr_on (env (names ! (Suc i + j))) (Suc i + j) (hs ! j)" by auto
  have "hlr_fresh ((h # hs) ! j) \<and> hlr_on (env (names ! (i + j))) (i + j) ((h # hs) ! j)" if "j < Suc n" for j
    using that h(2,3) hs(3) by (cases j) auto
  with h(1) hs(1,2) i show ?case by (intro exI [of _ "h # hs"]) simp
qed simp

subsection \<open>Properties\<close>

text \<open>
  Descriptors on the error paths. Whatever the outcomes of the system calls, setting up the listening socket and accepting a client either return -1 and leave the open descriptors as they were, or
  return a new, open, non-blocking descriptor, which for a client is registered with epoll.
\<close>

theorem sockets_no_leak:
  assumes "kern_ok k"
  shows "(case socket_init k of (fd, k') \<Rightarrow> kern_ok k' \<and> (fd = -1 \<and> open_fds k' = open_fds k \<or>
       0 \<le> fd \<and> fd \<notin> set (open_fds k) \<and> open_fds k' = fd # open_fds k \<and> fd \<in> set (nonblocking k'))) \<and>
     (case accept_new_client lfd epfd k of (fd, k') \<Rightarrow> kern_ok k' \<and> (fd = -1 \<and> open_fds k' = open_fds k \<or>
       0 \<le> fd \<and> fd \<notin> set (open_fds k) \<and> open_fds k' = fd # open_fds k \<and> fd \<in> set (nonblocking k') \<and> (epfd, fd) \<in> set (watched k')))"
  using socket_init_cases [OF assms] accept_cases [OF assms] by (auto split: prod.splits)

text \<open>For the examples: devices of 8 MiB; a kernel with the three standard descriptors in use.\<close>

definition env0 :: "string \<Rightarrow> dev_env" where
  "env0 name = \<lparr>de_open = True, de_nblk = Some 16384, de_lbs = Some 512, de_io_setup = True, de_disk = (\<lambda>_. 0), de_mmap = (\<lambda>_. True), de_submit = (\<lambda>_. True)\<rparr>"

definition kern0 :: "bool list \<Rightarrow> kern" where
  "kern0 os = \<lparr>next_fd = 3, open_fds = [2, 1, 0], nonblocking = [], watched = [], outcomes = os\<rparr>"

theorem sockets_no_leak_witness:
  "(case socket_init (kern0 [True, True, True, False]) of (fd, k') \<Rightarrow> fd = -1 \<and> open_fds k' = [2, 1, 0]) \<and> kern_ok (snd (socket_init (kern0 [True, True, True, False])))"
  using sockets_no_leak [of "kern0 [True, True, True, False]"] by (simp add: kern_ok_def kern0_def socket_init_def sys_defs)

text \<open>
  A failed start. When \<open>master_init\<close> returns a null pointer it has closed what it opened but the listening socket, if that one was set up; \<open>master_free\<close> does not close it either.
  \<open>main\<close> does not test the pointer and reads the thread to join from it.
\<close>

theorem failed_start:
  assumes "kern_ok k" and "master_init env n devs k = Inr (None :: 'p master option, k')"
  shows "open_fds k' = (if fst (socket_init k) = -1 then open_fds k else fst (socket_init k) # open_fds k) \<and>
     (server_getopt os \<lparr>srv_num_dev = 0, srv_device = []\<rparr> = Inr (Inr \<lparr>srv_num_dev = n, srv_device = devs\<rparr>) \<longrightarrow>
        (server_main env os k :: (exit_kind + 'p master \<times> kern) res) = Inl NullDeref)"
proof
  obtain fd k1 where k1: "socket_init k = (fd, k1)" by fastforce
  obtain e k2 where k2: "sys_open k1 = (e, k2)" by fastforce
  obtain b k3 where k3: "sys_watch e fd k2 = (b, k3)" by fastforce
  have s: "kern_ok k1" "open_fds k1 = (if fd = -1 then open_fds k else fd # open_fds k)" using socket_init_cases [OF assms(1) k1] by auto
  show "open_fds k' = (if fst (socket_init k) = -1 then open_fds k else fst (socket_init k) # open_fds k)"
  proof (cases "e < 0")
    case True
    with sys_open_cases [OF s(1) k2] s(2) assms(2) k1 k2 show ?thesis by (auto simp: master_init_def)
  next
    case False
    with sys_open_cases [OF s(1) k2] have e: "e \<notin> set (open_fds k1)" "open_fds k2 = e # open_fds k1" "kern_ok k2" by auto
    with sys_watch_open [OF k3] have "open_fds k3 = e # open_fds k1" "kern_ok k3" by (simp_all add: kern_ok_def)
    from sys_close_last [OF this(2,1) e(1)] False s(2) assms(2) k1 k2 k3 show ?thesis by (auto simp: master_init_def res_simps split: if_splits)
  qed
  show "server_getopt os \<lparr>srv_num_dev = 0, srv_device = []\<rparr> = Inr (Inr \<lparr>srv_num_dev = n, srv_device = devs\<rparr>) \<longrightarrow>
        (server_main env os k :: (exit_kind + 'p master \<times> kern) res) = Inl NullDeref"
    using assms(2) by (simp add: server_main_def)
qed

theorem failed_start_witness:
  "\<exists>k'. master_init env0 0 [] (kern0 [True, True, True, True, True, False]) = Inr (None :: unit master option, k') \<and> open_fds k' = [3, 2, 1, 0] \<and>
     (server_main env0 [OPT_D ''0'' []] (kern0 [True, True, True, True, True, False]) :: (exit_kind + unit master \<times> kern) res) = Inl NullDeref"
proof -
  let ?k = "kern0 [True, True, True, True, True, False]"
  obtain k' where k': "master_init env0 0 [] ?k = Inr (None :: unit master option, k')" by (simp add: master_init_def kern0_def socket_init_def sys_defs)
  have "kern_ok ?k" "fst (socket_init ?k) = 3" "open_fds ?k = [2, 1, 0]" by (simp_all add: kern_ok_def kern0_def socket_init_def sys_defs)
  moreover have "server_getopt [OPT_D ''0'' []] \<lparr>srv_num_dev = 0, srv_device = []\<rparr> = Inr (Inr \<lparr>srv_num_dev = 0, srv_device = []\<rparr>)"
    by (simp add: server_getopt_def atoi_def atoi_digits_def is_space_def is_digit_def digit_val_def)
  ultimately show ?thesis using failed_start [OF _ k'] k' by auto
qed
text \<open>
  C39: a successful start. With the option \<open>-d n\<close> and at least \<open>n\<close> names of fewer than 32 characters, for at most 32 devices that \<open>handler_init\<close> accepts, and system calls that succeed, \<open>main\<close> reaches the
  wait for the master with one fresh handler per device, the \<open>i\<close>-th on the device of the \<open>i\<close>-th name (its disk, its block count and size), the names read back as given, and the listening socket non-blocking and registered with epoll.
\<close>

theorem server_starts:
  assumes "kern_ok k" and "outcomes k = []" and "length names \<le> MAX_HLR" and "atoi arg = int (length names)"
    and "\<forall>name \<in> set names. name_ok name" and "\<forall>name \<in> set names. dev_ok (env name)"
  shows "\<exists>(mas :: 'p master) k'. server_main env [OPT_D arg (names @ rest)] k = Inr (Inr (mas, k')) \<and>
     mas_num_dev mas = int (length names) \<and> map cstr (mas_device mas) = map Inr names \<and> length (mas_hlr mas) = length names \<and>
     (\<forall>i < length names. hlr_fresh (mas_hlr mas ! i) \<and> hlr_on (env (names ! i)) i (mas_hlr mas ! i)) \<and> open_fds k' = [mas_epfd mas, mas_fd mas] @ open_fds k \<and>
     (mas_epfd mas, mas_fd mas) \<in> set (watched k') \<and> mas_fd mas \<in> set (nonblocking k')"
proof -
  obtain bufs where bufs: "copy_devices (length names) 0 (names @ rest) = Inr bufs" "map cstr bufs = map Inr names"
    using copy_devices_ok [OF assms(5), of 0 rest] assms(3) by auto
  have len: "length bufs = length names" using bufs(2) by (metis length_map)
  have opt: "server_getopt [OPT_D arg (names @ rest)] \<lparr>srv_num_dev = 0, srv_device = []\<rparr> = Inr (Inr \<lparr>srv_num_dev = int (length names), srv_device = bufs\<rparr>)"
    using bufs(1) assms(4) by (simp add: server_getopt_def)
  obtain hs :: "'p handler list" where hs: "init_handlers env (length names) 0 bufs = Inr hs" "length hs = length names"
    "\<forall>j < length names. hlr_fresh (hs ! j) \<and> hlr_on (env (names ! j)) j (hs ! j)"
    using init_handlers_ok [of 0 "length names" bufs names env] bufs(2) len assms(3,6) by auto
  let ?f = "next_fd k"
  have sock: "socket_init k = (?f, k\<lparr>next_fd := ?f + 1, open_fds := ?f # open_fds k, nonblocking := ?f # nonblocking k\<rparr>)"
    using assms(1,2) by (simp add: socket_init_def sys_defs kern_ok_def)
  have "master_init env (int (length names)) bufs k = Inr (Some \<lparr>mas_num_dev = int (length names), mas_device = bufs, mas_hlr = hs, mas_fd = ?f, mas_epfd = ?f + 1\<rparr>,
      k\<lparr>next_fd := ?f + 2, open_fds := [?f + 1, ?f] @ open_fds k, nonblocking := ?f # nonblocking k, watched := (?f + 1, ?f) # watched k\<rparr>)"
    using assms(1,2) hs(1) by (simp add: master_init_def sock sys_defs kern_ok_def)
  with opt bufs(2) hs show ?thesis by (simp add: server_main_def)
qed

theorem server_starts_witness:
  "\<exists>(mas :: unit master) k'. server_main (env0(''/dev/sdc'' := (env0 [])\<lparr>de_disk := \<lambda>_. 7\<rparr>)) [OPT_D ''2'' [''/dev/sdb'', ''/dev/sdc'']] (kern0 []) = Inr (Inr (mas, k')) \<and>
     length (mas_hlr mas) = 2 \<and> disk (mas_hlr mas ! 0) 4096 = 0 \<and> disk (mas_hlr mas ! 1) 4096 = 7"
proof -
  let ?env = "env0(''/dev/sdc'' := (env0 [])\<lparr>de_disk := \<lambda>_. 7\<rparr>)" and ?names = "[''/dev/sdb'', ''/dev/sdc'']"
  have "atoi ''2'' = 2" by (simp add: atoi_def atoi_digits_def is_space_def is_digit_def digit_val_def)
  moreover have "kern_ok (kern0 [])" "outcomes (kern0 []) = []" by (simp_all add: kern_ok_def kern0_def)
  moreover have "dev_ok (?env name)" for name :: string by (simp add: dev_ok_def env0_def config_defs)
  moreover have "name_ok ''/dev/sdb''" "name_ok ''/dev/sdc''" by (simp_all add: name_ok_def NUL_def DEV_NAME_MAX_def)
  ultimately obtain mas :: "unit master" and k' where m: "server_main ?env [OPT_D ''2'' ?names] (kern0 []) = Inr (Inr (mas, k'))" "length (mas_hlr mas) = length ?names"
    "\<forall>i < length ?names. hlr_fresh (mas_hlr mas ! i) \<and> hlr_on (?env (?names ! i)) i (mas_hlr mas ! i)"
    using server_starts [where 'p = unit, of "kern0 []" ?names "''2''" ?env "[]"] by (auto simp: MAX_HLR_def)
  have "hlr_on (?env (?names ! 0)) 0 (mas_hlr mas ! 0)" using m(3) [rule_format, of 0] by simp
  moreover have "hlr_on (?env (?names ! 1)) 1 (mas_hlr mas ! 1)" using m(3) [rule_format, of 1] by simp
  ultimately have "disk (mas_hlr mas ! 0) 4096 = 0" "disk (mas_hlr mas ! 1) 4096 = 7" by (simp_all add: hlr_on_def env0_def)
  with m(1,2) show ?thesis by auto
qed

text \<open>
  What the command line does not check. Without the option the process exits; with fewer names than announced it dereferences the null pointer that ends \<open>argv\<close>; with more than 32 devices it writes
  behind \<open>srv->device\<close>; a longer name overflows its buffer; and a name of exactly 32 characters is copied without its terminator, so that opening the device reads behind the buffer.
\<close>

theorem command_line_unchecked:
  assumes "\<forall>name \<in> set names. length name \<le> DEV_NAME_MAX" and "atoi arg = int n"
  shows "server_getopt [] srv = Inr (Inl EXIT_FAILURE) \<and>
     (length names < n \<and> length names < MAX_HLR \<longrightarrow> server_getopt (OPT_D arg names # os) srv = Inl NullDeref) \<and>
     (MAX_HLR < n \<and> MAX_HLR \<le> length names \<longrightarrow> server_getopt (OPT_D arg names # os) srv = Inl OutOfBounds) \<and>
     (0 < n \<and> DEV_NAME_MAX < length long \<longrightarrow> server_getopt (OPT_D arg (long # names) # os) srv = Inl OutOfBounds) \<and>
     (NUL \<notin> set full \<and> length full = DEV_NAME_MAX \<longrightarrow> dup_name full = Inr full \<and> (hlr_start env i full :: 'p handler res) = Inl OutOfBounds)"
proof (intro conjI impI)
  show "server_getopt [] srv = Inr (Inl EXIT_FAILURE)" by (simp add: server_getopt_def)
  show "server_getopt (OPT_D arg names # os) srv = Inl NullDeref" if "length names < n \<and> length names < MAX_HLR"
    using that copy_devices_missing [OF assms(1), of n 0] assms(2) by (simp add: server_getopt_def)
  show "server_getopt (OPT_D arg names # os) srv = Inl OutOfBounds" if "MAX_HLR < n \<and> MAX_HLR \<le> length names"
    using that copy_devices_overflow [OF assms(1), of 0 n] assms(2) by (simp add: server_getopt_def)
  show "server_getopt (OPT_D arg (long # names) # os) srv = Inl OutOfBounds" if "0 < n \<and> DEV_NAME_MAX < length long"
    using that assms(2) by (cases n) (simp_all add: server_getopt_def dup_name_def MAX_HLR_def nat_add_distrib)
  show "dup_name full = Inr full" "(hlr_start env i full :: 'p handler res) = Inl OutOfBounds" if "NUL \<notin> set full \<and> length full = DEV_NAME_MAX"
    using that dup_name_full [of full] by (simp_all add: hlr_start_def)
qed

theorem command_line_unchecked_witness:
  "server_getopt [OPT_D ''2'' [''/dev/sdb'']] \<lparr>srv_num_dev = 0, srv_device = []\<rparr> = Inl NullDeref \<and> (hlr_start env0 0 (replicate 32 CHR ''a'') :: unit handler res) = Inl OutOfBounds"
proof -
  have "atoi ''2'' = int 2" by (simp add: atoi_def atoi_digits_def is_space_def is_digit_def digit_val_def)
  from command_line_unchecked [where 'p = unit, OF _ this, of "[''/dev/sdb'']" "\<lparr>srv_num_dev = 0, srv_device = []\<rparr>" "[]" "''''" "replicate 32 CHR ''a''" env0 0]
  show ?thesis by (simp add: DEV_NAME_MAX_def MAX_HLR_def NUL_def)
qed

end
