(* ===== verification/Handler_Free.thy ===== *)
theory Handler_Free
  imports Handler
begin

section \<open>Releasing a handler (\<open>handler_free\<close> of \<open>src/handler.c\<close>)\<close>

text \<open>
  \<open>handler_free\<close> waits for the threads of the handler to return and releases the six queues and the device. The model keeps the nodes of each queue in a store of its own and the buffers in the heap of the handler;
  the arrays of requests, control blocks and callbacks are functions and have nothing to release, and the index is released by the theory that owns it. The two waits
  are the hypothesis that the thread has returned, which \<open>handler_drains\<close> of \<open>Handler\<close> gives.
\<close>

subsection \<open>Operations\<close>

text \<open>\<open>q_free\<close> of one queue of the handler, in sequence: \<open>None\<close> does not return, \<open>Inl\<close> is a crash.\<close>

definition then_q_free ::
  "('p handler \<Rightarrow> ptr queue) \<Rightarrow> (ptr queue \<Rightarrow> 'p handler \<Rightarrow> 'p handler) \<Rightarrow> 'p handler res option \<Rightarrow> 'p handler res option" where
  "then_q_free get put r =
     (case r of
        Some (Inr h) \<Rightarrow> (case q_free (get h) of
            None \<Rightarrow> None | Some (Inl e) \<Rightarrow> Some (Inl e) | Some (Inr q) \<Rightarrow> Some (Inr (put q h)))
      | _ \<Rightarrow> r)"

definition handler_free :: "'p handler \<Rightarrow> 'p handler res option" where
  "handler_free h0 =
     map_option (\<lambda>r. ebind r (\<lambda>h. Inr (dev_abs_free h)))
      (then_q_free cb_pool (\<lambda>q h. h\<lparr>cb_pool := q\<rparr>)
      (then_q_free iocb_pool (\<lambda>q h. h\<lparr>iocb_pool := q\<rparr>)
      (then_q_free req_pool (\<lambda>q h. h\<lparr>req_pool := q\<rparr>)
      (then_q_free done_q (\<lambda>q h. h\<lparr>done_q := q\<rparr>)
      (then_q_free retry_q (\<lambda>q h. h\<lparr>retry_q := q\<rparr>)
      (then_q_free req_q (\<lambda>q h. h\<lparr>req_q := q\<rparr>) (Some (Inr h0))))))))"

subsection \<open>Everything is released\<close>

definition q_ready :: "ptr queue \<Rightarrow> bool" where
  "q_ready q \<longleftrightarrow> q_inv q \<and> NULL \<notin> set (q_list q)"

lemma q_free_nodes:
  assumes "q_ready q"
  shows "\<exists>q'. q_free q = Some (Inr q') \<and> nodes q' = (\<lambda>_. None)"
proof -
  from assms q_free_enough [of q] obtain q' where q': "q_free q = Some (Inr q')" "q_inv q'" "q_list q' = []" by (auto simp: q_ready_def)
  then obtain as where r: "q_rep q' as" by (auto simp: q_inv_def)
  with q_rep_Nil_iff [OF r] q'(3) have "dom (nodes q') = {}" by (simp add: q_rep_def)
  with q'(1) show ?thesis by (auto simp: dom_def)
qed

lemma handler_free_ok:
  assumes "q_ready (req_q h)" "q_ready (retry_q h)" "q_ready (done_q h)" "q_ready (req_pool h)" "q_ready (iocb_pool h)" "q_ready (cb_pool h)"
  shows "\<exists>h'. handler_free h = Some (Inr h') \<and> cells (mem h') = (cells (mem h))(staged_seg_buf (dev h) := None) \<and>
     (\<forall>q \<in> {req_q h', retry_q h', done_q h', req_pool h', iocb_pool h', cb_pool h'}. nodes q = (\<lambda>_. None))"
proof -
  from assms [THEN q_free_nodes] obtain q1 q2 q3 q4 q5 q6 where
    "q_free (req_q h) = Some (Inr q1)" "nodes q1 = (\<lambda>_. None)" "q_free (retry_q h) = Some (Inr q2)" "nodes q2 = (\<lambda>_. None)"
    "q_free (done_q h) = Some (Inr q3)" "nodes q3 = (\<lambda>_. None)" "q_free (req_pool h) = Some (Inr q4)" "nodes q4 = (\<lambda>_. None)"
    "q_free (iocb_pool h) = Some (Inr q5)" "nodes q5 = (\<lambda>_. None)" "q_free (cb_pool h) = Some (Inr q6)" "nodes q6 = (\<lambda>_. None)" by metis
  then show ?thesis by (simp add: handler_free_def then_q_free_def dev_abs_free_def munmap_def)
qed

text \<open>The two threads leave the queue of completed callbacks alone.\<close>

lemma add_request_info_done_q: "add_request_info C ok req h = Inr h' \<Longrightarrow> done_q h' = done_q h"
  by (auto simp: add_request_info_def res_simps Let_def split: prod.splits)

lemma hsys_step_done_q: "hsys_step C s s' \<Longrightarrow> done_q (hlr s') = done_q (hlr s)"
proof (induction rule: hsys_step.induct)
  case (handle stop ok s pc' h')
  then show ?case
    by (cases "pc s") (auto simp: get_next_request_def net_end_req_def send_ack_def res_simps Let_def split: if_splits dest: add_request_info_done_q)
qed (auto simp: make_request_from_netreq_def forward_req_to_hlr_def res_simps split: if_splits option.splits)

lemma hsys_done_q: "hsys_reachable C h0 s \<Longrightarrow> done_q (hlr s) = done_q h0"
  by (induction rule: hsys_reachable.induct) (simp_all add: hsys_start_def hsys_step_done_q)

text \<open>What \<open>handler_init\<close> leaves in the heap and in the pools.\<close>

lemma handler_init_heap:
  assumes "SEGMENT_SIZE \<le> unat nb * unat bs" "unat nb * unat bs < 2 ^ 32 * SEGMENT_SIZE" "mok 0"
    and run: "handler_init num True (Some nb) (Some bs) True dsk mok sok = Inr (h :: 'p handler)"
  shows "hlr_ready h" "done_q h = q_init (int QSIZE)" "q_ready (iocb_pool h)" "q_ready (cb_pool h)" "\<exists>b. cells (mem h) = [staged_seg_buf (dev h) \<mapsto> b]"
proof -
  from handler_init_ok [where 'p = 'p and mok = mok, OF assms(1-3), of num dsk sok] run show "hlr_ready h" by (auto simp: hlr_ready_def staged_ok_def)
  from run obtain h1 :: "'p handler" where h1: "dev_abs_init True (Some nb) (Some bs) (hlr_alloc num dsk mok sok) = Inr h1" "hlr_fill_pools h1 = Inr h"
    by (auto simp: handler_init_def res_simps)
  note fr = dev_abs_init_frame [OF h1(1)]
  have q0: "req_pool h1 = q_init (int QSIZE)" "iocb_pool h1 = q_init (int QSIZE)" "cb_pool h1 = q_init (int QSIZE)" "done_q h1 = q_init (int QSIZE)"
    by (subst fr, simp add: hlr_alloc_def)+
  obtain q where q: "enq_list q_enqueue pool_ptrs (q_init (int QSIZE)) = Inr q" "q_inv q" "q_list q = pool_ptrs" using fill_pool by blast
  have h: "h = h1\<lparr>req_pool := q, iocb_pool := q, cb_pool := q\<rparr>" using h1(2) q(1) by (simp add: hlr_fill_pools_def q0)
  show "done_q h = q_init (int QSIZE)" "q_ready (iocb_pool h)" "q_ready (cb_pool h)" using q q0 by (simp_all add: h q_ready_def)
  show "\<exists>b. cells (mem h) = [staged_seg_buf (dev h) \<mapsto> b]"
    using h1(1) assms(3) by (auto simp: h dev_abs_init_def alloc_seg_buffer_def mem_alloc_def hlr_alloc_def Let_def split: if_splits)
qed

subsection \<open>Properties\<close>

text \<open>
  C35: the life of a handler ends without a leak. From a handler that \<open>handler_init\<close> has made, after any interleaving of the master and the handler thread in which the thread has returned, \<open>handler_free\<close>
  returns, all nodes of the six queues are released, and no buffer is left in the heap.
\<close>

theorem handler_lifecycle:
  fixes nb bs :: u32
  assumes "SEGMENT_SIZE \<le> unat nb * unat bs" and "unat nb * unat bs < 2 ^ 32 * SEGMENT_SIZE" and "mok 0"
    and "handler_init num True (Some nb) (Some bs) True dsk mok sok = Inr (h0 :: 'p handler)"
    and "hsys_reachable C h0 s" and "pc s = H_EXIT"
  shows "\<exists>h'. handler_free (hlr s) = Some (Inr h') \<and> cells (mem h') = (\<lambda>_. None) \<and>
     (\<forall>q \<in> {req_q h', retry_q h', done_q h', req_pool h', iocb_pool h', cb_pool h'}. nodes q = (\<lambda>_. None))"
proof -
  note h0 = handler_init_heap [OF assms(1-4)]
  have inv: "hsys_inv h0 s" by (rule hsys_inv_reachable [OF assms(5) h0(1)])
  note i = hsys_invD [OF inv] and d = hsys_distinct [OF inv]
  have "q_ready (req_q (hlr s))" "q_ready (retry_q (hlr s))" "q_ready (req_pool (hlr s))"
    using i(1) d(2,3) by (auto simp: q_ready_def hlr_queues_def inflight_def)
  moreover have "q_ready (done_q (hlr s))" using hsys_done_q [OF assms(5)] h0(2) by (simp add: q_ready_def)
  moreover have u: "q_ready (iocb_pool (hlr s))" "q_ready (cb_pool (hlr s))" "dev (hlr s) = dev h0" using i(10) h0(3,4) by (simp_all add: untouched_def)
  moreover have "cells (mem (hlr s)) = cells (mem h0)" using i(9) assms(6) by (simp add: only_buffer_def)
  ultimately show ?thesis using handler_free_ok [of "hlr s"] h0(5) by auto
qed

theorem handler_lifecycle_witness:
  "\<exists>(h0 :: unit handler) s h'. handler_init 0 True (Some 16384) (Some 512) True (\<lambda>_. 0) (\<lambda>_. True) (\<lambda>_. True) = Inr h0 \<and>
     hsys_reachable (\<lambda>_. (3, 4)) h0 s \<and> handler_free (hlr s) = Some (Inr h') \<and> cells (mem h') = (\<lambda>_. None)"
proof -
  have a: "SEGMENT_SIZE \<le> unat (16384 :: u32) * unat (512 :: u32)" "unat (16384 :: u32) * unat (512 :: u32) < 2 ^ 32 * SEGMENT_SIZE" by (simp_all add: config_defs)
  obtain h0 :: "unit handler" where h0: "handler_init 0 True (Some 16384) (Some 512) True (\<lambda>_. 0) (\<lambda>_. True) (\<lambda>_. True) = Inr h0" "hlr_ready h0"
    using handler_init_ready [where 'p = unit, OF a, of "\<lambda>_. True" 0 "\<lambda>_. 0" "\<lambda>_. True"] by auto
  let ?s = "(hsys_start h0)\<lparr>hlr := h0, pc := H_EXIT\<rparr>"
  have "request_handler_step (\<lambda>_. (3, 4)) True True (pc (hsys_start h0)) (hlr (hsys_start h0)) = Inr (H_EXIT, h0)"
    using h0(2) by (simp add: hsys_start_def hlr_ready_def cl_init_def)
  from hsys_reachable.step [OF hsys_reachable.start hsys_step.handle [OF this]] have r: "hsys_reachable (\<lambda>_. (3, 4)) h0 ?s" .
  from handler_lifecycle [OF a _ h0(1) r] h0(1) r show ?thesis by auto
qed

end
