(* ===== verification/Old_Server.thy ===== *)
theory Old_Server
  imports Server Handler_Free
begin

section \<open>The older server (\<open>src/server.cc\<close>)\<close>

text \<open>
  The server before the master thread was split off: one file with the command line, the sockets, a thread that sends acknowledgements from a queue, and the loop over the events. The build uses \<open>src/temp.cc\<close> instead; the
  file still names \<open>struct net_req\<close> and \<open>struct net_ack\<close>, whose declarations are comments in \<open>include/util.h\<close>, with the fields of \<open>netreq\<close> and \<open>netack\<close>. It is
  modelled on the functions it shares with the present server, so that the two can be compared. The stopwatches only measure and are left out.

  \<open>srv->device\<close> is an array of 32 names of 16 characters inside the static structure: one zero-filled buffer, in which a long name runs into the next ones.
\<close>

subsection \<open>State\<close>

definition SV_NAME :: nat where "SV_NAME = 16"

record 'p sv_server =
  sv_fd :: int
  sv_epfd :: int
  sv_num_dev :: int
  sv_device :: string
  sv_hlr :: "nat \<Rightarrow> 'p handler"
  sv_client_fd :: int
  hlr_fwd_cnt :: "nat \<Rightarrow> u64"

text \<open>\<open>srv->num_dev\<close>, converted to the 64 bits of the hash for the remainder.\<close>

abbreviation sv_ndev :: "'p sv_server \<Rightarrow> nat" where
  "sv_ndev srv \<equiv> unat (word_of_int (sv_num_dev srv) :: u64)"

subsection \<open>The command line\<close>

fun sv_copy_devices :: "nat \<Rightarrow> nat \<Rightarrow> string list \<Rightarrow> string \<Rightarrow> string res" where
  "sv_copy_devices 0 i args names = Inr names"
| "sv_copy_devices (Suc n) i args names =
     (case args of
        [] \<Rightarrow> Inl NullDeref
      | arg # args' \<Rightarrow>
          if MAX_HLR * SV_NAME < i * SV_NAME + length arg then Inl OutOfBounds
          else sv_copy_devices n (Suc i) args' (take (i * SV_NAME) names @ arg @ drop (i * SV_NAME + length arg) names))"

fun sv_getopt_loop :: "getopt_res list \<Rightarrow> bool \<times> 'p sv_server \<Rightarrow> (bool \<times> 'p sv_server) res" where
  "sv_getopt_loop [] st = Inr st"
| "sv_getopt_loop (OPT_D optarg args # os) (dev_flag, srv) =
     ebind (sv_copy_devices (nat (atoi optarg)) 0 args (sv_device srv)) (\<lambda>names.
     sv_getopt_loop os (True, srv\<lparr>sv_num_dev := atoi optarg, sv_device := names\<rparr>))"
| "sv_getopt_loop (OPT_ERR # os) st = sv_getopt_loop os st"
| "sv_getopt_loop (OPT_OTHER # os) st = Inl Abort"

definition sv_getopt :: "getopt_res list \<Rightarrow> 'p sv_server \<Rightarrow> (exit_kind + 'p sv_server) res" where
  "sv_getopt os srv =
     ebind (sv_getopt_loop os (False, srv)) (\<lambda>(dev_flag, srv'). Inr (if dev_flag then Inr srv' else Inl EXIT_FAILURE))"

subsection \<open>Sockets and handlers\<close>

text \<open>Every failing call aborts.\<close>

definition connection_init :: "kern \<Rightarrow> (int \<times> int \<times> kern) res" where
  "connection_init k0 =
     (case sys_open k0 of (fd, k1) \<Rightarrow>
      if fd = -1 then Inl Abort else
      case sys_nonblock fd k1 of (flags_set, k2) \<Rightarrow>
      if \<not> flags_set then Inl Abort else
      case sys_on fd k2 of (option_set, k3) \<Rightarrow>
      if \<not> option_set then Inl Abort else
      case sys_on fd k3 of (bound, k4) \<Rightarrow>
      if \<not> bound then Inl Abort else
      case sys_on fd k4 of (listening, k5) \<Rightarrow>
      if \<not> listening then Inl Abort else
      case sys_open k5 of (epfd, k6) \<Rightarrow>
      if epfd < 0 then Inl Abort else
      case sys_watch epfd fd k6 of (added, k7) \<Rightarrow>
      if \<not> added then Inl Abort else Inr (fd, epfd, k7))"

fun sv_init_handlers :: "(string \<Rightarrow> dev_env) \<Rightarrow> string \<Rightarrow> nat \<Rightarrow> nat \<Rightarrow> (nat \<Rightarrow> 'p handler) \<Rightarrow> (nat \<Rightarrow> 'p handler) res" where
  "sv_init_handlers env names 0 i hs = Inr hs"
| "sv_init_handlers env names (Suc n) i hs =
     (if MAX_HLR \<le> i then Inl OutOfBounds
      else ebind (hlr_start env i (drop (i * SV_NAME) names)) (\<lambda>h. sv_init_handlers env names n (Suc i) (hs(i := h))))"

text \<open>The two flags: whether the calls that set the affinity succeed. The thread \<open>ack_sender\<close> is created in between.\<close>

definition server_init :: "(string \<Rightarrow> dev_env) \<Rightarrow> bool \<Rightarrow> bool \<Rightarrow> 'p sv_server \<Rightarrow> kern \<Rightarrow> ('p sv_server \<times> kern) res" where
  "server_init env aff0 aff1 srv k =
     (if \<not> aff0 then Inl Abort
      else if \<not> aff1 then Inl Abort
      else ebind (connection_init k) (\<lambda>(fd, epfd, k').
           ebind (sv_init_handlers env (sv_device srv) (nat (sv_num_dev srv)) 0 (sv_hlr srv)) (\<lambda>hs.
           Inr (srv\<lparr>sv_fd := fd, sv_epfd := epfd, sv_hlr := hs\<rparr>, k'))))"

text \<open>The calls of the master's \<open>__accept_new_client\<close>; the client accepted last is remembered.\<close>

definition sv_accept_new_client :: "'p sv_server \<Rightarrow> kern \<Rightarrow> int \<times> 'p sv_server \<times> kern" where
  "sv_accept_new_client srv k0 =
     (case (if sv_fd srv \<in> set (open_fds k0) then sys_open k0 else (-1, k0)) of (fd, k1) \<Rightarrow>
      if fd < 0 then (-1, srv, k1) else
      case sys_nonblock fd k1 of (flags_set, k2) \<Rightarrow>
      if \<not> flags_set then (-1, srv, sys_close fd k2) else
      case sys_watch (sv_epfd srv) fd k2 of (added, k3) \<Rightarrow>
      if \<not> added then (-1, srv, sys_close fd k3) else (fd, srv\<lparr>sv_client_fd := fd\<rparr>, k3))"

subsection \<open>Requests\<close>

fun sv_forward ::
  "(byte list \<Rightarrow> u64 \<times> u64) \<Rightarrow> int \<Rightarrow> netreq list \<Rightarrow> 'p sv_server \<Rightarrow> (int \<times> 'p sv_server) res option" where
  "sv_forward C fd [] srv = Some (Inr (0, srv))"
| "sv_forward C fd (nr # nrs) srv =
     (case hlr_idx C (sv_ndev srv) nr of
        Inl e \<Rightarrow> Some (Inl e)
      | Inr i \<Rightarrow>
          if MAX_HLR \<le> i then Some (Inl OutOfBounds)
          else let srv1 = srv\<lparr>hlr_fwd_cnt := (hlr_fwd_cnt srv)(i := hlr_fwd_cnt srv i + 1)\<rparr>
               in (case make_request_from_netreq nr fd (sv_hlr srv1 i) of
                     Inl e \<Rightarrow> Some (Inl e)
                   | Inr (req, h1) \<Rightarrow>
                       (case forward_req_to_hlr req h1 of
                          None \<Rightarrow> None
                        | Some (Inl e) \<Rightarrow> Some (Inl e)
                        | Some (Inr (rc, h2)) \<Rightarrow>
                            let srv2 = srv1\<lparr>sv_hlr := (sv_hlr srv1)(i := h2)\<rparr>
                            in if rc \<noteq> 0 then Some (Inr (rc, srv2)) else sv_forward C fd nrs srv2)))"

definition sv_process_request ::
  "(byte list \<Rightarrow> u64 \<times> u64) \<Rightarrow> int \<Rightarrow> 'p sv_server \<times> socks \<Rightarrow> (int \<times> 'p sv_server \<times> socks) res option" where
  "sv_process_request C client_fd st =
     (case st of (srv, sk) \<Rightarrow>
      case sk client_fd of
        None \<Rightarrow> Some (Inr (0, srv, sk))
      | Some es \<Rightarrow>
          (case read_sock_bulk QDEPTH NETREQ_SIZE es of
             None \<Rightarrow> None
           | Some (len, bs, es') \<Rightarrow>
               if len = -1 then Some (Inr (0, srv, sk(client_fd \<mapsto> es')))
               else if len = 0 then Some (Inr (1, srv, sk(client_fd := None)))
               else (case sv_forward C client_fd (batch bs) srv of
                       None \<Rightarrow> None
                     | Some r \<Rightarrow> Some (ebind r (\<lambda>(rc, srv'). Inr (rc, srv', sk(client_fd \<mapsto> es')))))))"

text \<open>The loop over the events: the result of accepting a client is ignored, and a request that fails aborts.\<close>

fun sv_handle_events ::
  "(byte list \<Rightarrow> u64 \<times> u64) \<Rightarrow> ep_event list \<Rightarrow> 'p sv_server \<times> socks \<Rightarrow> ('p sv_server \<times> socks) res option" where
  "sv_handle_events C [] st = Some (Inr st)"
| "sv_handle_events C (EP_ACCEPT fd es # evs) (srv, sk) =
     sv_handle_events C evs (if fd < 0 then (srv, sk) else (srv\<lparr>sv_client_fd := fd\<rparr>, sk(fd \<mapsto> es)))"
| "sv_handle_events C (EP_CLIENT fd # evs) st =
     (case sv_process_request C fd st of
        None \<Rightarrow> None
      | Some (Inl e) \<Rightarrow> Some (Inl e)
      | Some (Inr (rc, st')) \<Rightarrow> if rc < 0 then Some (Inl Abort) else sv_handle_events C evs st')"

fun handle_request ::
  "(byte list \<Rightarrow> u64 \<times> u64) \<Rightarrow> ep_event list option list \<Rightarrow> 'p sv_server \<times> socks \<Rightarrow> ('p sv_server \<times> socks) res option" where
  "handle_request C [] st = Some (Inr st)"
| "handle_request C (None # ws) st = Some (Inl Abort)"
| "handle_request C (Some evs # ws) st =
     (case sv_handle_events C evs st of
        None \<Rightarrow> None
      | Some (Inl e) \<Rightarrow> Some (Inl e)
      | Some (Inr st') \<Rightarrow> handle_request C ws st')"

text \<open>The static structure and the counters are zero at the start; the handlers there are the null pointers that \<open>server_init\<close> replaces.\<close>

definition sv_static :: "'p handler \<Rightarrow> 'p sv_server" where
  "sv_static h = \<lparr>sv_fd = 0, sv_epfd = 0, sv_num_dev = 0, sv_device = replicate (MAX_HLR * SV_NAME) NUL, sv_hlr = (\<lambda>_. h), sv_client_fd = 0, hlr_fwd_cnt = (\<lambda>_. 0)\<rparr>"

definition sv_main ::
  "(byte list \<Rightarrow> u64 \<times> u64) \<Rightarrow> (string \<Rightarrow> dev_env) \<Rightarrow> bool \<Rightarrow> bool \<Rightarrow> getopt_res list \<Rightarrow> ep_event list option list \<Rightarrow> 'p sv_server \<Rightarrow> kern \<Rightarrow>
     (exit_kind + 'p sv_server \<times> socks) res option" where
  "sv_main C env aff0 aff1 os ws srv k =
     (case sv_getopt os srv of
        Inl e \<Rightarrow> Some (Inl e)
      | Inr (Inl x) \<Rightarrow> Some (Inr (Inl x))
      | Inr (Inr srv1) \<Rightarrow>
          (case server_init env aff0 aff1 srv1 k of
             Inl e \<Rightarrow> Some (Inl e)
           | Inr (srv2, k') \<Rightarrow> map_option (\<lambda>r. ebind r (\<lambda>st. Inr (Inr st))) (handle_request C ws (srv2, Map.empty))))"

subsection \<open>The thread that sends acknowledgements\<close>

datatype ack_pc = A_INIT | A_LOOP | A_RET

record ack_state =
  ack_q :: "ptr queue"
  ack_mem :: "ptr \<rightharpoonup> netack"
  ack_sent :: "(int \<times> netack) list"

definition ack_sender :: "bool \<Rightarrow> int \<Rightarrow> ack_pc \<Rightarrow> ack_state \<Rightarrow> (ack_pc \<times> ack_state) res" where
  "ack_sender ack_sender_stop client_fd apc s =
     (case apc of
        A_INIT \<Rightarrow> Inr (A_LOOP, s\<lparr>ack_q := q_init (int QSIZE)\<rparr>)
      | A_LOOP \<Rightarrow>
          if ack_sender_stop then Inr (A_RET, s)
          else ebind (q_dequeue (ack_q s)) (\<lambda>(ack, q). let s1 = s\<lparr>ack_q := q\<rparr> in
               if ack = NULL then Inr (A_LOOP, s1)
               else (case ack_mem s1 ack of
                       None \<Rightarrow> Inl OutOfBounds
                     | Some na \<Rightarrow> Inr (A_LOOP, s1\<lparr>ack_sent := ack_sent s1 @ [(client_fd, na)], ack_mem := (ack_mem s1)(ack := None)\<rparr>)))
      | A_RET \<Rightarrow> Inr (A_RET, s))"

fun ack_sender_run :: "nat \<Rightarrow> int \<Rightarrow> ack_pc \<Rightarrow> ack_state \<Rightarrow> (ack_pc \<times> ack_state) res" where
  "ack_sender_run 0 fd apc s = Inr (apc, s)"
| "ack_sender_run (Suc n) fd apc s = ebind (ack_sender False fd apc s) (\<lambda>(apc', s'). ack_sender_run n fd apc' s')"

text \<open>
  \<open>server_exit\<close>, the handler of the interrupt signal: free the handlers, stop the thread and wait for it (\<open>None\<close> while it has not returned), close \<open>cl_sock\<close>, which nothing assigns and
  which is therefore the standard input, and the listening socket.
\<close>

fun sv_free_handlers :: "nat \<Rightarrow> nat \<Rightarrow> (nat \<Rightarrow> 'p handler) \<Rightarrow> (nat \<Rightarrow> 'p handler) res option" where
  "sv_free_handlers 0 i hs = Some (Inr hs)"
| "sv_free_handlers (Suc n) i hs =
     (case handler_free (hs i) of
        None \<Rightarrow> None
      | Some (Inl e) \<Rightarrow> Some (Inl e)
      | Some (Inr h) \<Rightarrow> sv_free_handlers n (Suc i) (hs(i := h)))"

definition server_exit :: "ack_pc \<Rightarrow> 'p sv_server \<Rightarrow> kern \<Rightarrow> ('p sv_server \<times> kern) res option" where
  "server_exit apc srv k =
     (case sv_free_handlers (nat (sv_num_dev srv)) 0 (sv_hlr srv) of
        None \<Rightarrow> None
      | Some (Inl e) \<Rightarrow> Some (Inl e)
      | Some (Inr hs) \<Rightarrow>
          if apc \<noteq> A_RET then None
          else Some (Inr (srv\<lparr>sv_hlr := hs\<rparr>, sys_close (sv_fd srv) (sys_close 0 k))))"

subsection \<open>Both servers on the same events\<close>

text \<open>A limit that the pending bytes do not reach does not matter: every \<open>read\<close> takes all of a chunk.\<close>

lemma below_limit: "0 < align \<Longrightarrow> 0 < m \<Longrightarrow> l \<le> align * m \<Longrightarrow> l = 0 \<or> l mod align \<noteq> 0 \<Longrightarrow> l < align * (m :: nat)"
  by (cases "l = align * m") auto

lemma read_limit:
  assumes "0 < align" and "length buf + length (stream_bytes es) \<le> align * m" and "length buf + length (stream_bytes es) \<le> align * m'" and "0 < m" and "0 < m'"
    and "buf = [] \<or> length buf mod align \<noteq> 0"
  shows "read_sock_bulk_from (align * m) align buf es = read_sock_bulk_from (align * m') align buf es"
  using assms(2,3,6)
proof (induction es arbitrary: buf)
  case Nil
  then have "length buf < align * m" "length buf < align * m'" using below_limit [OF assms(1,4), of "length buf"] below_limit [OF assms(1,5), of "length buf"] by auto
  then show ?case by (subst (1 2) read_sock_bulk_from.simps) simp
next
  case (Cons e es)
  have lt: "length buf < align * m" "length buf < align * m'"
    using Cons.prems below_limit [OF assms(1,4), of "length buf"] below_limit [OF assms(1,5), of "length buf"] by auto
  show ?case
  proof (cases e)
    case SOCK_ERR
    with Cons.prems have "read_sock_bulk_from (align * m) align buf es = read_sock_bulk_from (align * m') align buf es" by (intro Cons.IH) simp_all
    with SOCK_ERR lt show ?thesis by (subst (1 2) read_sock_bulk_from.simps) simp
  next
    case SOCK_EOF
    with lt show ?thesis by (subst (1 2) read_sock_bulk_from.simps) simp
  next
    case (SOCK_DATA bs)
    with Cons.prems have "length bs \<le> align * m - length buf" "length bs \<le> align * m' - length buf" by simp_all
    with Cons lt SOCK_DATA show ?thesis by (subst (1 2) read_sock_bulk_from.simps) simp
  qed
qed

lemma read_suffix:
  assumes "length buf + length (stream_bytes es) \<le> mx" and "read_sock_bulk_from mx align buf es = Some (len, buf', es')"
  shows "length (stream_bytes es') \<le> length (stream_bytes es)"
  using assms
proof (induction es arbitrary: buf)
  case Nil
  then show ?case by (subst (asm) read_sock_bulk_from.simps) (auto split: if_splits)
next
  case (Cons e es)
  show ?case
  proof (cases "length buf < mx")
    case True
    show ?thesis
    proof (cases e)
      case SOCK_ERR
      with Cons True show ?thesis by (subst (asm) (2) read_sock_bulk_from.simps) (auto split: if_splits)
    next
      case SOCK_EOF
      with Cons.prems True show ?thesis by (subst (asm) read_sock_bulk_from.simps) auto
    next
      case (SOCK_DATA bs)
      from Cons.prems(2) True SOCK_DATA Cons.prems(1) have
        "es' = es \<or> read_sock_bulk_from mx align (buf @ bs) es = Some (len, buf', es')"
        by (subst (asm) read_sock_bulk_from.simps) (auto split: if_splits)
      with Cons.IH [of "buf @ bs"] Cons.prems(1) SOCK_DATA show ?thesis by auto
    qed
  next
    case False
    with Cons.prems show ?thesis by (subst (asm) read_sock_bulk_from.simps) auto
  qed
qed

text \<open>A stream that the buffer of the older server holds, \<open>QDEPTH\<close> messages (the buffer of the master holds \<open>MAX_NETREQ_BUF\<close>).\<close>

definition fits :: "sock_ev list \<Rightarrow> bool" where
  "fits es \<longleftrightarrow> length (stream_bytes es) \<le> NETREQ_SIZE * QDEPTH"

definition socks_fit :: "socks \<Rightarrow> bool" where
  "socks_fit sk \<longleftrightarrow> (\<forall>fd es. sk fd = Some es \<longrightarrow> fits es)"

fun ev_fits :: "ep_event \<Rightarrow> bool" where
  "ev_fits (EP_ACCEPT fd es) = fits es"
| "ev_fits (EP_CLIENT fd) = True"

lemma read_fits:
  assumes "fits es"
  shows "read_sock_bulk QDEPTH NETREQ_SIZE es = read_sock_bulk MAX_NETREQ_BUF NETREQ_SIZE es"
  unfolding read_sock_bulk_def using assms by (intro read_limit) (simp_all add: fits_def NETREQ_SIZE_def config_defs MAX_NETREQ_BUF_def)

lemma fits_rest: "fits es \<Longrightarrow> read_sock_bulk QDEPTH NETREQ_SIZE es = Some (len, buf, es') \<Longrightarrow> fits es'"
  unfolding fits_def read_sock_bulk_def using read_suffix [of "[]" es "NETREQ_SIZE * QDEPTH"] by fastforce

lemma sv_forward_eq:
  assumes "forward_msgs C (sv_ndev srv) fd nrs (sv_hlr srv) = Some (Inr (0, hs'))"
  shows "sv_forward C fd nrs srv = Some (Inr (0, srv\<lparr>sv_hlr := hs', hlr_fwd_cnt := \<lambda>i. hlr_fwd_cnt srv i + of_nat (length (filter (routed C (sv_ndev srv) i) nrs))\<rparr>))"
  using assms
proof (induction nrs arbitrary: srv)
  case Nil
  then show ?case by simp
next
  case (Cons nr nrs)
  from Cons.prems obtain i req h1 h2 where i: "hlr_idx C (sv_ndev srv) nr = Inr i" "\<not> MAX_HLR \<le> i" "make_request_from_netreq nr fd (sv_hlr srv i) = Inr (req, h1)"
    "forward_req_to_hlr req h1 = Some (Inr (0, h2))" "forward_msgs C (sv_ndev srv) fd nrs ((sv_hlr srv)(i := h2)) = Some (Inr (0, hs'))"
    by (auto split: sum.splits prod.splits option.splits if_splits)
  let ?s = "srv\<lparr>hlr_fwd_cnt := (hlr_fwd_cnt srv)(i := hlr_fwd_cnt srv i + 1), sv_hlr := (sv_hlr srv)(i := h2)\<rparr>"
  have r: "routed C (sv_ndev srv) j nr \<longleftrightarrow> j = i" for j using i(1) by (auto simp: routed_def)
  have "sv_forward C fd (nr # nrs) srv = sv_forward C fd nrs ?s" using i(1-4) by (simp add: Let_def)
  also have "\<dots> = Some (Inr (0, ?s\<lparr>sv_hlr := hs', hlr_fwd_cnt := \<lambda>j. hlr_fwd_cnt ?s j + of_nat (length (filter (routed C (sv_ndev srv) j) nrs))\<rparr>))"
    using Cons.IH [of ?s] i(5) by (simp del: fun_upd_apply)
  finally show ?case by (auto simp: r fun_eq_iff)
qed

lemma sv_process_eq:
  assumes f: "socks_fit sk" and r: "process_request C (sv_ndev srv) fd (sk, sv_hlr srv) = Some (Inr (0, sk', hs'))"
  shows "\<exists>cnt. sv_process_request C fd (srv, sk) = Some (Inr (0, srv\<lparr>sv_hlr := hs', hlr_fwd_cnt := cnt\<rparr>, sk')) \<and> socks_fit sk'"
proof (cases "sk fd")
  case None
  with f r have "sv_process_request C fd (srv, sk) = Some (Inr (0, srv\<lparr>sv_hlr := hs', hlr_fwd_cnt := hlr_fwd_cnt srv\<rparr>, sk'))" "sk' = sk"
    by (simp_all add: sv_process_request_def process_request_def)
  with f show ?thesis by blast
next
  case (Some es)
  with f have fe: "fits es" by (simp add: socks_fit_def)
  from r Some obtain len bs es' where rd: "read_sock_bulk MAX_NETREQ_BUF NETREQ_SIZE es = Some (len, bs, es')"
    by (auto simp: process_request_def split: option.splits)
  have f': "socks_fit (sk(fd \<mapsto> es'))" using f fits_rest [OF fe] rd read_fits [OF fe] by (simp add: socks_fit_def)
  show ?thesis
  proof (cases "len = -1")
    case True
    with r Some rd have "hs' = sv_hlr srv" "sk' = sk(fd \<mapsto> es')" by (auto simp: process_request_def)
    with True Some rd read_fits [OF fe] f' show ?thesis by (intro exI [of _ "hlr_fwd_cnt srv"]) (simp add: sv_process_request_def)
  next
    case False
    with r Some rd have ne: "len \<noteq> 0" and fw: "forward_msgs C (sv_ndev srv) fd (batch bs) (sv_hlr srv) = Some (Inr (0, hs'))" "sk' = sk(fd \<mapsto> es')"
      by (auto simp: process_request_def res_simps split: if_splits option.splits)
    from sv_forward_eq [OF fw(1)] False ne Some rd read_fits [OF fe] f' fw(2) show ?thesis
      by (auto simp: sv_process_request_def)
  qed
qed

text \<open>What the two servers share: the handlers, and the number of devices.\<close>

definition sv_like :: "'p sv_server \<Rightarrow> nat \<Rightarrow> (nat \<Rightarrow> 'p handler) \<Rightarrow> bool" where
  "sv_like srv n hs \<longleftrightarrow> sv_ndev srv = n \<and> sv_hlr srv = hs"

lemma sv_events_eq:
  assumes "handle_events C n evs (sk, hs) = Some (Inr (True, sk', hs'))" and "sv_like srv n hs" and "socks_fit sk" and "\<forall>ev \<in> set evs. ev_fits ev"
  shows "\<exists>srv'. sv_handle_events C evs (srv, sk) = Some (Inr (srv', sk')) \<and> sv_like srv' n hs' \<and> socks_fit sk'"
  using assms
proof (induction evs arbitrary: sk hs srv)
  case Nil
  then show ?case by simp
next
  case (Cons ev evs)
  show ?case
  proof (cases ev)
    case (EP_ACCEPT fd es)
    with Cons.prems have p: "0 \<le> fd" "handle_events C n evs (sk(fd \<mapsto> es), hs) = Some (Inr (True, sk', hs'))" by (auto split: if_splits)
    have "sv_like (srv\<lparr>sv_client_fd := fd\<rparr>) n hs" "socks_fit (sk(fd \<mapsto> es))" using Cons.prems EP_ACCEPT by (auto simp: sv_like_def socks_fit_def)
    from Cons.IH [OF p(2) this] Cons.prems(4) EP_ACCEPT p(1) show ?thesis by (simp del: fun_upd_apply)
  next
    case (EP_CLIENT fd)
    with Cons.prems(1) obtain sk1 hs1 where p: "process_request C n fd (sk, hs) = Some (Inr (0, sk1, hs1))" "handle_events C n evs (sk1, hs1) = Some (Inr (True, sk', hs'))"
      by (auto split: option.splits sum.splits prod.splits if_splits)
    with sv_process_eq [OF Cons.prems(3), of C srv fd sk1 hs1] Cons.prems(2) obtain cnt where
      q: "sv_process_request C fd (srv, sk) = Some (Inr (0, srv\<lparr>sv_hlr := hs1, hlr_fwd_cnt := cnt\<rparr>, sk1))" "socks_fit sk1"
      by (auto simp: sv_like_def)
    have "sv_like (srv\<lparr>sv_hlr := hs1, hlr_fwd_cnt := cnt\<rparr>) n hs1" using Cons.prems(2) by (simp add: sv_like_def)
    from Cons.IH [OF p(2) this q(2)] Cons.prems(4) q(1) EP_CLIENT show ?thesis by simp
  qed
qed

lemma sv_loop_eq:
  assumes "master_thread C n ws (sk, hs) = Some (Inr (True, sk', hs'))" and "sv_like srv n hs" and "socks_fit sk" and "\<forall>w \<in> set ws. \<forall>evs ev. w = Some evs \<and> ev \<in> set evs \<longrightarrow> ev_fits ev"
  shows "\<exists>srv'. handle_request C ws (srv, sk) = Some (Inr (srv', sk')) \<and> sv_like srv' n hs'"
  using assms
proof (induction ws arbitrary: sk hs srv)
  case Nil
  then show ?case by simp
next
  case (Cons w ws)
  from Cons.prems(1) obtain evs sk1 hs1 where w: "w = Some evs" "handle_events C n evs (sk, hs) = Some (Inr (True, sk1, hs1))" "master_thread C n ws (sk1, hs1) = Some (Inr (True, sk', hs'))"
    by (cases w) (auto split: option.splits sum.splits prod.splits if_splits)
  from sv_events_eq [OF w(2) Cons.prems(2,3)] Cons.prems(4) w(1) obtain srv1 where
    s: "sv_handle_events C evs (srv, sk) = Some (Inr (srv1, sk1))" "sv_like srv1 n hs1" "socks_fit sk1" by auto
  have "\<forall>w \<in> set ws. \<forall>evs ev. w = Some evs \<and> ev \<in> set evs \<longrightarrow> ev_fits ev" using Cons.prems(4) by (meson list.set_intros(2))
  from Cons.IH [OF w(3) s(2,3) this] s(1) w(1) show ?case by simp
qed

subsection \<open>Names of devices\<close>

definition pad :: "string \<Rightarrow> string" where
  "pad name = name @ replicate (SV_NAME - length name) NUL"

text \<open>What a row of the array reads as, when the names from it on are these: a name of 16 characters has no terminator, and the next one follows.\<close>

fun glued :: "string list \<Rightarrow> string" where
  "glued [] = []"
| "glued (name # names) = (if length name < SV_NAME then name else name @ glued names)"

definition sv_name_ok :: "string \<Rightarrow> bool" where
  "sv_name_ok name \<longleftrightarrow> NUL \<notin> set name \<and> length name \<le> SV_NAME"

lemma length_pad: "sv_name_ok name \<Longrightarrow> length (pad name) = SV_NAME"
  by (simp add: pad_def sv_name_ok_def)

lemma sv_copy_devices_ok:
  "\<forall>name \<in> set names. sv_name_ok name \<Longrightarrow> length pre = i * SV_NAME \<Longrightarrow> length names \<le> m \<Longrightarrow> i + m = MAX_HLR \<Longrightarrow>
     sv_copy_devices (length names) i (names @ rest) (pre @ replicate (m * SV_NAME) NUL) =
       Inr (pre @ concat (map pad names) @ replicate ((m - length names) * SV_NAME) NUL)"
proof (induction names arbitrary: i m pre)
  case (Cons name names)
  then obtain m' where m': "m = Suc m'" by (cases m) auto
  have l: "length name \<le> SV_NAME" using Cons.prems(1) by (simp add: sv_name_ok_def)
  have "i * SV_NAME + length name \<le> MAX_HLR * SV_NAME" using m' l by (simp add: add_mult_distrib trans_le_add1 flip: Cons.prems(4))
  moreover have "drop (length name) (replicate (m * SV_NAME) NUL) = replicate (SV_NAME - length name) NUL @ replicate (m' * SV_NAME) NUL"
    using m' l by (simp flip: replicate_add)
  ultimately have "sv_copy_devices (length (name # names)) i ((name # names) @ rest) (pre @ replicate (m * SV_NAME) NUL) =
      sv_copy_devices (length names) (Suc i) (names @ rest) ((pre @ pad name) @ replicate (m' * SV_NAME) NUL)"
    using Cons.prems(2) by (simp add: pad_def)
  also have "\<dots> = Inr ((pre @ pad name) @ concat (map pad names) @ replicate ((m' - length names) * SV_NAME) NUL)"
    using Cons.prems m' length_pad [of name] by (intro Cons.IH) simp_all
  finally show ?case using m' by simp
qed simp

lemma cstr_append: "NUL \<notin> set xs \<Longrightarrow> cstr (xs @ ys) = ebind (cstr ys) (\<lambda>s. Inr (xs @ s))"
  by (auto simp: cstr_def takeWhile_append)

lemma cstr_glued: "\<forall>name \<in> set names. sv_name_ok name \<Longrightarrow> 0 < m \<Longrightarrow> cstr (concat (map pad names) @ replicate m NUL) = Inr (glued names)"
proof (induction names)
  case Nil
  then show ?case by (cases m) (simp_all add: cstr_def)
next
  case (Cons name names)
  then have n: "NUL \<notin> set name" "length name \<le> SV_NAME" by (simp_all add: sv_name_ok_def)
  show ?case
  proof (cases "length name < SV_NAME")
    case True
    then obtain k where "SV_NAME - length name = Suc k" by (cases "SV_NAME - length name") auto
    then have "cstr (replicate (SV_NAME - length name) NUL @ ys) = Inr []" for ys by (simp add: cstr_def)
    with n(1) True show ?thesis by (simp add: pad_def cstr_append)
  next
    case False
    with n Cons show ?thesis by (simp add: pad_def cstr_append)
  qed
qed

lemma drop_concat_rows: "\<forall>xs \<in> set xss. length xs = w \<Longrightarrow> i \<le> length xss \<Longrightarrow> drop (i * w) (concat xss @ ys) = concat (drop i xss) @ ys"
proof (induction xss arbitrary: i)
  case (Cons xs xss)
  then show ?case by (cases i) simp_all
qed simp

lemma sv_device_rows:
  assumes "\<forall>name \<in> set names. sv_name_ok name" and "length names < MAX_HLR" and "i \<le> length names"
  shows "cstr (drop (i * SV_NAME) (concat (map pad names) @ replicate ((MAX_HLR - length names) * SV_NAME) NUL)) = Inr (glued (drop i names))"
proof -
  have "drop (i * SV_NAME) (concat (map pad names) @ replicate ((MAX_HLR - length names) * SV_NAME) NUL) =
      concat (map pad (drop i names)) @ replicate ((MAX_HLR - length names) * SV_NAME) NUL"
    using assms length_pad by (subst drop_concat_rows) (auto simp: drop_map)
  moreover have "0 < (MAX_HLR - length names) * SV_NAME" using assms(2) by (simp add: SV_NAME_def)
  moreover have "\<forall>name \<in> set (drop i names). sv_name_ok name" using assms(1) by (meson in_set_dropD)
  ultimately show ?thesis using cstr_glued by simp
qed

subsection \<open>The start\<close>

text \<open>Every system call of \<open>connection_init\<close> succeeds, or the process aborts.\<close>

lemma connection_init_cases:
  assumes ok: "kern_ok k"
  shows "connection_init k = Inl Abort \<or> (\<exists>fd epfd k'. connection_init k = Inr (fd, epfd, k') \<and> kern_ok k' \<and> open_fds k' = [epfd, fd] @ open_fds k \<and>
     fd \<in> set (nonblocking k') \<and> (epfd, fd) \<in> set (watched k'))"
proof -
  obtain fd k5 where s: "socket_init k = (fd, k5)" by fastforce
  have c: "connection_init k = (if fd = -1 then Inl Abort else case sys_open k5 of (epfd, k6) \<Rightarrow> if epfd < 0 then Inl Abort else
      case sys_watch epfd fd k6 of (added, k7) \<Rightarrow> if \<not> added then Inl Abort else Inr (fd, epfd, k7))"
  proof -
    obtain f k1 where k1: "sys_open k = (f, k1)" by fastforce
    obtain b2 k2 where k2: "sys_nonblock f k1 = (b2, k2)" by fastforce
    obtain b3 k3 where k3: "sys_on f k2 = (b3, k3)" by fastforce
    obtain b4 k4 where k4: "sys_on f k3 = (b4, k4)" by fastforce
    obtain b5 k5' where k5': "sys_on f k4 = (b5, k5')" by fastforce
    show ?thesis
    proof (cases "f \<noteq> -1 \<and> b2 \<and> b3 \<and> b4 \<and> b5")
      case True
      with s k1 k2 k3 k4 k5' show ?thesis by (simp add: connection_init_def socket_init_def)
    next
      case False
      with s k1 k2 k3 k4 k5' have "fd = -1" "connection_init k = Inl Abort" by (auto simp: connection_init_def socket_init_def split: if_splits)
      then show ?thesis by simp
    qed
  qed
  show ?thesis
  proof (cases "fd = -1")
    case False
    with socket_init_cases [OF ok s] have f: "kern_ok k5" "open_fds k5 = fd # open_fds k" "fd \<in> set (nonblocking k5)" by auto
    obtain epfd k6 where e: "sys_open k5 = (epfd, k6)" by fastforce
    obtain b k7 where w: "sys_watch epfd fd k6 = (b, k7)" by fastforce
    have "nonblocking k6 = nonblocking k5" using e by (auto simp: sys_defs split: list.splits if_splits)
    with c False e w f sys_open_cases [OF f(1) e] sys_watch_open [OF w] show ?thesis by (auto simp: kern_ok_def)
  qed (simp add: c)
qed

lemma sv_init_handlers_ok:
  assumes "\<forall>j < n. \<exists>name. cstr (drop ((i + j) * SV_NAME) names) = Inr name \<and> dev_ok (env name)" and "i + n \<le> MAX_HLR"
  shows "\<exists>hs'. sv_init_handlers env names n i hs = Inr hs' \<and> (\<forall>j < n. hlr_fresh (hs' (i + j))) \<and> (\<forall>j < i. hs' j = hs j)"
  using assms
proof (induction n arbitrary: i hs)
  case (Suc n)
  from Suc.prems(1) [rule_format, of 0] obtain name where "cstr (drop (i * SV_NAME) names) = Inr name" "dev_ok (env name)" by auto
  from hlr_start_ok [where env = env and i = i, OF this] obtain h :: "'a handler" where h: "hlr_start env i (drop (i * SV_NAME) names) = Inr h" "hlr_fresh h" by blast
  have "\<forall>j < n. \<exists>name. cstr (drop ((Suc i + j) * SV_NAME) names) = Inr name \<and> dev_ok (env name)" using Suc.prems(1) by fastforce
  from Suc.IH [OF this, of "hs(i := h)"] Suc.prems(2) obtain hs' where
    hs': "sv_init_handlers env names n (Suc i) (hs(i := h)) = Inr hs'" "\<forall>j < n. hlr_fresh (hs' (Suc i + j))" "\<forall>j < Suc i. hs' j = (hs(i := h)) j" by (auto simp del: fun_upd_apply)
  have "hlr_fresh (hs' (i + j))" if "j < Suc n" for j
    using that hs'(2,3) h(2) by (cases j) auto
  with hs' h(1) Suc.prems(2) show ?case by auto
qed simp

subsection \<open>Acknowledgements\<close>

lemma ack_sender_one:
  assumes "q_inv (ack_q s)" and "q_list (ack_q s) = p # ps" and "p \<noteq> NULL" and "ack_mem s p = Some na"
  shows "\<exists>q. ack_sender False fd A_LOOP s = Inr (A_LOOP, s\<lparr>ack_q := q, ack_sent := ack_sent s @ [(fd, na)], ack_mem := (ack_mem s)(p := None)\<rparr>) \<and>
     q_inv q \<and> q_list q = ps"
  using lq.deq_nonempty [OF assms(1)] assms(2-4) by (auto simp: ack_sender_def Let_def)

text \<open>
  The thread takes the acknowledgements in order, sends all of them to the client that was accepted last, and releases each; with the flag set it returns at the next test.
\<close>

lemma ack_sender_drains:
  assumes "q_inv (ack_q s)" and "q_list (ack_q s) = ps" and "distinct ps" and "NULL \<notin> set ps" and "\<forall>p \<in> set ps. ack_mem s p \<noteq> None"
  shows "\<exists>s'. ack_sender_run (length ps) fd A_LOOP s = Inr (A_LOOP, s') \<and> q_list (ack_q s') = [] \<and> ack_sent s' = ack_sent s @ map (\<lambda>p. (fd, the (ack_mem s p))) ps \<and>
     ack_mem s' = (ack_mem s) |` (- set ps) \<and> ack_sender True fd A_LOOP s' = Inr (A_RET, s')"
  using assms
proof (induction ps arbitrary: s)
  case Nil
  then show ?case by (simp add: ack_sender_def)
next
  case (Cons p ps)
  then obtain na where na: "ack_mem s p = Some na" by auto
  with ack_sender_one [OF Cons.prems(1,2)] Cons.prems(4) obtain q where
    q: "ack_sender False fd A_LOOP s = Inr (A_LOOP, s\<lparr>ack_q := q, ack_sent := ack_sent s @ [(fd, na)], ack_mem := (ack_mem s)(p := None)\<rparr>)" "q_inv q" "q_list q = ps"
    by auto
  let ?s = "s\<lparr>ack_q := q, ack_sent := ack_sent s @ [(fd, na)], ack_mem := (ack_mem s)(p := None)\<rparr>"
  have "q_inv (ack_q ?s)" "q_list (ack_q ?s) = ps" "distinct ps" "NULL \<notin> set ps" "\<forall>p' \<in> set ps. ack_mem ?s p' \<noteq> None" using Cons.prems(3-5) q(2,3) by auto
  from Cons.IH [OF this] obtain s' where
    s': "ack_sender_run (length ps) fd A_LOOP ?s = Inr (A_LOOP, s')" "q_list (ack_q s') = []" "ack_sent s' = ack_sent ?s @ map (\<lambda>p. (fd, the (ack_mem ?s p))) ps"
    "ack_mem s' = (ack_mem ?s) |` (- set ps)" "ack_sender True fd A_LOOP s' = Inr (A_RET, s')" by blast
  have "map (\<lambda>p. (fd, the (ack_mem ?s p))) ps = map (\<lambda>p. (fd, the (ack_mem s p))) ps" using Cons.prems(3) by auto
  moreover have "(ack_mem ?s) |` (- set ps) = (ack_mem s) |` (- set (p # ps))" by (auto simp: restrict_map_def fun_eq_iff)
  ultimately show ?case using q(1) s' na by auto
qed

text \<open>The signal handler closes the standard input and leaves the epoll instance and the sockets of the clients open.\<close>

lemma server_exit_descriptors:
  assumes "server_exit A_RET srv k = Some (Inr (srv', k'))"
  shows "set (open_fds k') = set (open_fds k) - {0, sv_fd srv}"
  using assms by (auto simp: server_exit_def sys_close_def split: option.splits sum.splits)

subsection \<open>Properties\<close>

text \<open>
  C40: the master does what the older server did. Given the same handlers, and clients whose whole stream is at most the older server's buffer of \<open>QDEPTH\<close> messages (from a longer one the master takes up to \<open>MAX_NETREQ_BUF\<close> at a time), every run of the master's event loop that goes on to the end leaves
  sockets and handlers as the older loop does on the same events; the older one also counts the messages forwarded to each handler. They differ in what ends the loop: the master returns when a client disconnects or cannot be accepted, the
  older server goes on with the next event.
\<close>

theorem old_server_equiv:
  assumes "sv_like srv n hs" and "socks_fit sk" and "\<forall>w \<in> set ws. \<forall>evs ev. w = Some evs \<and> ev \<in> set evs \<longrightarrow> ev_fits ev"
  shows "(\<forall>sk' hs'. master_thread C n ws (sk, hs) = Some (Inr (True, sk', hs')) \<longrightarrow>
       (\<exists>srv'. handle_request C ws (srv, sk) = Some (Inr (srv', sk')) \<and> sv_like srv' n hs')) \<and>
     (\<forall>fd nrs hs'. forward_msgs C n fd nrs hs = Some (Inr (0, hs')) \<longrightarrow>
       sv_forward C fd nrs srv = Some (Inr (0, srv\<lparr>sv_hlr := hs', hlr_fwd_cnt := \<lambda>i. hlr_fwd_cnt srv i + of_nat (length (filter (routed C n i) nrs))\<rparr>))) \<and>
     (\<forall>fd es evs. sk fd = Some (SOCK_EOF # es) \<longrightarrow>
       handle_events C n (EP_CLIENT fd # evs) (sk, hs) = Some (Inr (False, sk(fd := None), hs)) \<and>
       sv_handle_events C (EP_CLIENT fd # evs) (srv, sk) = sv_handle_events C evs (srv, sk(fd := None))) \<and>
     (\<forall>fd es evs. fd < 0 \<longrightarrow>
       handle_events C n (EP_ACCEPT fd es # evs) (sk, hs) = Some (Inr (False, sk, hs)) \<and>
       sv_handle_events C (EP_ACCEPT fd es # evs) (srv, sk) = sv_handle_events C evs (srv, sk))"
proof -
  have eof: "read_sock_bulk m NETREQ_SIZE (SOCK_EOF # es) = Some (0, [], es)" if "0 < m" for m es
    using that by (simp add: read_sock_bulk_def read_sock_bulk_from.simps NETREQ_SIZE_def)
  have "handle_events C n (EP_CLIENT fd # evs) (sk, hs) = Some (Inr (False, sk(fd := None), hs)) \<and>
      sv_handle_events C (EP_CLIENT fd # evs) (srv, sk) = sv_handle_events C evs (srv, sk(fd := None))" if "sk fd = Some (SOCK_EOF # es)" for fd es evs
    using that eof [of MAX_NETREQ_BUF es] eof [of QDEPTH es] by (simp add: process_request_def sv_process_request_def MAX_NETREQ_BUF_def config_defs)
  with sv_loop_eq [OF _ assms] sv_forward_eq [of C srv] assms(1) show ?thesis by (auto simp: sv_like_def)
qed

theorem old_server_equiv_witness:
  "\<exists>(h0 :: unit handler) srv' sk' nr. handle_request (\<lambda>_. (2 ^ 32, 0)) [Some [EP_CLIENT 7]] ((sv_static h0)\<lparr>sv_num_dev := 2\<rparr>, [7 \<mapsto> [SOCK_DATA (netreq_bytes nr)]]) = Some (Inr (srv', sk')) \<and>
     map ack_tag (acks (sv_hlr srv' 1)) @ map (\<lambda>r. req_tag (req_arr (sv_hlr srv' 1) r)) (q_list (req_q (sv_hlr srv' 1))) = [(7, 1, REQ_TYPE_GET)]"
proof -
  obtain h0 :: "unit handler" and hs' es' nr where wf: "netreq_wf nr"
    and p: "process_request (\<lambda>_. (2 ^ 32, 0)) 2 7 ([7 \<mapsto> [SOCK_DATA (netreq_bytes nr)]], \<lambda>_. h0) = Some (Inr (0, [7 \<mapsto> es'], hs'))"
    and q: "map ack_tag (acks (hs' 1)) @ map (\<lambda>r. req_tag (req_arr (hs' 1) r)) (q_list (req_q (hs' 1))) = [(7, 1, REQ_TYPE_GET)]"
    using one_get_forwarded by blast
  let ?srv = "(sv_static h0)\<lparr>sv_num_dev := 2\<rparr>" and ?sk = "[7 \<mapsto> [SOCK_DATA (netreq_bytes nr)]] :: socks"
  have l: "sv_like ?srv 2 (\<lambda>_. h0)" "socks_fit ?sk"
    using length_netreq_bytes [OF wf] by (auto simp: sv_like_def sv_static_def socks_fit_def fits_def NETREQ_SIZE_def config_defs split: if_splits)
  have "master_thread (\<lambda>_. (2 ^ 32, 0)) 2 [Some [EP_CLIENT 7]] (?sk, \<lambda>_. h0) = Some (Inr (True, [7 \<mapsto> es'], hs'))" using p by simp
  with old_server_equiv [OF l, of "[Some [EP_CLIENT 7]]" "\<lambda>_. (2 ^ 32, 0)"] obtain srv' where
    "handle_request (\<lambda>_. (2 ^ 32, 0)) [Some [EP_CLIENT 7]] (?srv, ?sk) = Some (Inr (srv', [7 \<mapsto> es']))" "sv_like srv' 2 hs'" by fastforce
  with q show ?thesis by (auto simp: sv_like_def)
qed

text \<open>
  The start of the older server, and the names it opens. With at most 31 device names of at most 16 characters, successful system calls and devices that \<open>handler_init\<close> accepts, it starts one fresh handler
  per device. A name shorter than 16 characters is opened as given; one of exactly 16 is stored without a terminator, and the device opened in its place is the name glued to the ones that follow. Any
  system call that fails aborts the process before a handler is started.
\<close>

theorem old_server_starts:
  assumes "\<forall>name \<in> set names. sv_name_ok name" and "length names < MAX_HLR" and "atoi arg = int (length names)" and "\<forall>i < length names. dev_ok (env (glued (drop i names)))"
    and "kern_ok k" and "srv = sv_static h0"
  shows "\<exists>srv1. sv_getopt [OPT_D arg (names @ rest)] srv = Inr (Inr srv1) \<and> sv_num_dev srv1 = int (length names) \<and>
     (\<forall>i < length names. cstr (drop (i * SV_NAME) (sv_device srv1)) = Inr (glued (drop i names)) \<and>
        (length (names ! i) < SV_NAME \<longrightarrow> glued (drop i names) = names ! i)) \<and>
     (connection_init k = Inl Abort \<and> server_init env aff0 aff1 srv1 k = Inl Abort \<or>
      (\<exists>fd epfd k'. connection_init k = Inr (fd, epfd, k') \<and> open_fds k' = [epfd, fd] @ open_fds k \<and> fd \<in> set (nonblocking k') \<and> (epfd, fd) \<in> set (watched k') \<and>
        (if aff0 \<and> aff1 then \<exists>srv2. server_init env aff0 aff1 srv1 k = Inr (srv2, k') \<and> sv_fd srv2 = fd \<and> sv_epfd srv2 = epfd \<and> (\<forall>i < length names. hlr_fresh (sv_hlr srv2 i))
         else server_init env aff0 aff1 srv1 k = Inl Abort)))"
proof -
  let ?d = "concat (map pad names) @ replicate ((MAX_HLR - length names) * SV_NAME) NUL"
  let ?s = "srv\<lparr>sv_num_dev := int (length names), sv_device := ?d\<rparr>"
  have "sv_copy_devices (length names) 0 (names @ rest) (sv_device srv) = Inr ?d"
    using sv_copy_devices_ok [OF assms(1), of "[]" 0 MAX_HLR rest] assms(2,6) by (simp add: sv_static_def)
  then have opt: "sv_getopt [OPT_D arg (names @ rest)] srv = Inr (Inr ?s)" using assms(3) by (simp add: sv_getopt_def)
  have rows: "cstr (drop (i * SV_NAME) ?d) = Inr (glued (drop i names))" if "i < length names" for i
    using sv_device_rows [OF assms(1,2), of i] that by simp
  have short: "glued (drop i names) = names ! i" if "i < length names" "length (names ! i) < SV_NAME" for i
    using that by (simp flip: Cons_nth_drop_Suc)
  obtain hs where hs: "sv_init_handlers env ?d (length names) 0 (sv_hlr srv) = Inr hs" "\<forall>j < length names. hlr_fresh (hs j)"
    using sv_init_handlers_ok [of "length names" 0 ?d env "sv_hlr srv"] rows assms(2,4) by auto
  have "server_init env aff0 aff1 ?s k = (if aff0 \<and> aff1 then ebind (connection_init k) (\<lambda>(fd, epfd, k'). Inr (?s\<lparr>sv_fd := fd, sv_epfd := epfd, sv_hlr := hs\<rparr>, k')) else Inl Abort)"
    using hs(1) by (simp add: server_init_def)
  with connection_init_cases [OF assms(5)] opt rows short hs(2) show ?thesis by (intro exI [of _ ?s]) auto
qed

theorem old_server_starts_witness:
  "\<exists>srv1. sv_getopt [OPT_D ''2'' [''/dev/nvme10n1p12'', ''/dev/sdb'']] (sv_static (hlr_alloc 0 (\<lambda>_. 0) (\<lambda>_. True) (\<lambda>_. True) :: unit handler)) = Inr (Inr srv1) \<and>
     cstr (drop (0 * SV_NAME) (sv_device srv1)) = Inr ''/dev/nvme10n1p12/dev/sdb'' \<and> cstr (drop (1 * SV_NAME) (sv_device srv1)) = Inr ''/dev/sdb''"
proof -
  let ?names = "[''/dev/nvme10n1p12'', ''/dev/sdb'']"
  have a: "atoi ''2'' = int (length ?names)" by (simp add: atoi_def atoi_digits_def is_space_def is_digit_def digit_val_def)
  have n: "\<forall>name \<in> set ?names. sv_name_ok name" "length ?names < MAX_HLR" by (simp_all add: sv_name_ok_def NUL_def SV_NAME_def MAX_HLR_def)
  have d: "\<forall>i < length ?names. dev_ok (env0 (glued (drop i ?names)))" by (simp add: dev_ok_def env0_def config_defs)
  have k: "kern_ok (kern0 [])" by (simp add: kern_ok_def kern0_def)
  from old_server_starts [OF n a d k refl, of "[]" "hlr_alloc 0 (\<lambda>_. 0) (\<lambda>_. True) (\<lambda>_. True) :: unit handler" True True]
  obtain srv1 where s: "sv_getopt [OPT_D ''2'' (?names @ [])] (sv_static (hlr_alloc 0 (\<lambda>_. 0) (\<lambda>_. True) (\<lambda>_. True) :: unit handler)) = Inr (Inr srv1)"
    "\<forall>i < length ?names. cstr (drop (i * SV_NAME) (sv_device srv1)) = Inr (glued (drop i ?names)) \<and> (length (?names ! i) < SV_NAME \<longrightarrow> glued (drop i ?names) = ?names ! i)"
    by (elim exE conjE) (rule that; assumption)
  from s(2) [rule_format, of 0] s(2) [rule_format, of 1] s(1) show ?thesis by (auto simp: SV_NAME_def)
qed

end
