(* ===== verification/Keygen.thy ===== *)
theory Keygen
  imports Prelude "HOL-Library.Multiset"
begin

section \<open>The key generator of the client (\<open>src/keygen.c\<close>)\<close>

text \<open>
  The benchmark client draws its keys from a pool made once: each key is \<open>user\<close> followed by random digits. The load phase returns every key
  of the pool once, the query phase a random one: any, or one of the hot set with a given probability. The values of \<open>rand()\<close> are a parameter, \<open>rnd k\<close> for the
  \<open>k\<close>-th call; \<open>rand_pos\<close> counts the calls. The pool is a list of keys for the array of pointers; \<open>malloc\<close> fails only for the sizes it can never
  serve, the negative ones.
\<close>

subsection \<open>Operations\<close>

datatype key_dist_t = KEY_DIST_UNIFORM | KEY_DIST_LOCALITY | KEY_DIST_HOTSPOT

record keygen =
  key_pool :: "byte list list"
  nr_key :: u64
  key_size :: int
  key_dist :: key_dist_t
  query_ratio :: int
  hotset_ratio :: int
  nr_hotset :: u64
  nr_coldset :: u64
  load_cnt :: u64
  rand_pos :: nat

text \<open>The bytes of the string \<open>user\<close>, and of a key whose digits come from the calls of \<open>rand()\<close> from \<open>pos\<close> on.\<close>

definition user_bytes :: "byte list" where
  "user_bytes = [117, 115, 101, 114]"

definition gen_key :: "(nat \<Rightarrow> nat) \<Rightarrow> nat \<Rightarrow> nat \<Rightarrow> byte list" where
  "gen_key rnd pos ksz = user_bytes @ map (\<lambda>j. of_nat (48 + rnd (pos + j) mod 10)) [0..<ksz - 4]"

definition keygen_init :: "(nat \<Rightarrow> nat) \<Rightarrow> u64 \<Rightarrow> int \<Rightarrow> keygen res" where
  "keygen_init rnd nr ksz =
     (if 0 < nr \<and> ksz < 0 then Inl NullDeref
      else if 0 < nr \<and> ksz < 4 then Inl OutOfBounds
      else
       (let hot = nr div 100 * 50
        in Inr \<lparr>key_pool = map (\<lambda>i. gen_key rnd (i * (nat ksz - 4)) (nat ksz)) [0..<unat nr], nr_key = nr, key_size = ksz,
                key_dist = KEY_DIST_UNIFORM, query_ratio = 50, hotset_ratio = 50, nr_hotset = hot, nr_coldset = nr - hot, load_cnt = 0,
                rand_pos = unat nr * (nat ksz - 4)\<rparr>))"

text \<open>\<open>shuffle_key_pool\<close>: the loop from \<open>i\<close> on, \<open>k\<close> iterations before its end.\<close>

fun shuffle_from :: "(nat \<Rightarrow> nat) \<Rightarrow> nat \<Rightarrow> nat \<Rightarrow> byte list list \<Rightarrow> nat \<Rightarrow> byte list list \<times> nat" where
  "shuffle_from rnd nr 0 pool pos = (pool, pos)"
| "shuffle_from rnd nr (Suc k) pool pos =
     (let i = nr - Suc k; p = rnd pos mod nr
      in shuffle_from rnd nr k (pool[i := pool ! p, p := pool ! i]) (Suc pos))"

definition shuffle_key_pool :: "(nat \<Rightarrow> nat) \<Rightarrow> keygen \<Rightarrow> keygen" where
  "shuffle_key_pool rnd kg =
     (case shuffle_from rnd (unat (nr_key kg)) (unat (nr_key kg)) (key_pool kg) (rand_pos kg) of
        (pool, pos) \<Rightarrow> kg\<lparr>key_pool := pool, rand_pos := pos\<rparr>)"

definition set_key_dist :: "(nat \<Rightarrow> nat) \<Rightarrow> key_dist_t \<Rightarrow> int \<Rightarrow> int \<Rightarrow> keygen \<Rightarrow> keygen" where
  "set_key_dist rnd dist query hotset kg =
     (let kg0 = kg\<lparr>key_dist := dist\<rparr>
      in case dist of
           KEY_DIST_LOCALITY \<Rightarrow>
             (let kg1 = shuffle_key_pool rnd (shuffle_key_pool rnd (shuffle_key_pool rnd kg0));
                  hot = nr_key kg1 div 100 * of_int hotset
              in kg1\<lparr>query_ratio := query, hotset_ratio := hotset, nr_hotset := hot, nr_coldset := nr_key kg1 - hot\<rparr>)
         | _ \<Rightarrow> kg0)"

text \<open>\<open>None\<close> is the null pointer.\<close>

definition get_next_key_for_load :: "keygen \<Rightarrow> byte list option \<times> keygen" where
  "get_next_key_for_load kg =
     (if nr_key kg \<le> load_cnt kg then (None, kg)
      else (Some (key_pool kg ! unat (load_cnt kg)), kg\<lparr>load_cnt := load_cnt kg + 1\<rparr>))"

definition pool_at :: "keygen \<Rightarrow> nat \<Rightarrow> byte list option res" where
  "pool_at kg i = (if i < length (key_pool kg) then Inr (Some (key_pool kg ! i)) else Inl OutOfBounds)"

definition get_next_key :: "(nat \<Rightarrow> nat) \<Rightarrow> keygen \<Rightarrow> (byte list option \<times> keygen) res" where
  "get_next_key rnd kg =
     (let p = rand_pos kg
      in case key_dist kg of
           KEY_DIST_UNIFORM \<Rightarrow>
             if nr_key kg = 0 then Inl DivByZero
             else ebind (pool_at kg (rnd p mod unat (nr_key kg))) (\<lambda>k. Inr (k, kg\<lparr>rand_pos := Suc p\<rparr>))
         | KEY_DIST_LOCALITY \<Rightarrow>
             if int (rnd p mod 100) < query_ratio kg
             then (if nr_hotset kg = 0 then Inl DivByZero
                   else ebind (pool_at kg (rnd (Suc p) mod unat (nr_hotset kg))) (\<lambda>k. Inr (k, kg\<lparr>rand_pos := Suc (Suc p)\<rparr>)))
             else (if nr_coldset kg = 0 then Inl DivByZero
                   else ebind (pool_at kg (unat (nr_hotset kg + of_nat (rnd (Suc p) mod unat (nr_coldset kg)))))
                          (\<lambda>k. Inr (k, kg\<lparr>rand_pos := Suc (Suc p)\<rparr>)))
         | KEY_DIST_HOTSPOT \<Rightarrow> Inr (None, kg))"

subsection \<open>The invariant\<close>

text \<open>The pool has its size, and the hot and the cold set make it up.\<close>

definition keygen_ok :: "keygen \<Rightarrow> bool" where
  "keygen_ok kg \<longleftrightarrow> length (key_pool kg) = unat (nr_key kg) \<and> unat (nr_hotset kg) + unat (nr_coldset kg) = unat (nr_key kg) \<and> load_cnt kg \<le> nr_key kg"

lemma hotset_bound:
  assumes "0 \<le> r" and "r \<le> 100"
  shows "unat (nr div 100 * of_int r :: u64) = unat nr div 100 * nat r" "unat (nr div 100 * of_int r :: u64) \<le> unat nr"
proof -
  have r: "(of_int r :: u64) = of_nat (nat r)" "unat (of_nat (nat r) :: u64) = nat r" using assms unat_of_nat_u64 [of "nat r"] by simp_all
  have le: "unat nr div 100 * nat r \<le> unat nr"
    using mult_le_mono2 [of "nat r" 100 "unat nr div 100"] assms(2) div_times_less_eq_dividend [of "unat nr" 100] by linarith
  then have "unat nr div 100 * nat r < 18446744073709551616" using unat_u64_lt [of nr] by linarith
  then show e: "unat (nr div 100 * of_int r :: u64) = unat nr div 100 * nat r"
    unfolding r(1) by (subst unat_mult_u64) (simp_all add: unat_div r(2))
  show "unat (nr div 100 * of_int r :: u64) \<le> unat nr" unfolding e by (rule le)
qed

lemma shuffle_from_perm:
  assumes "k \<le> nr" and "length pool = nr"
  shows "mset (fst (shuffle_from rnd nr k pool pos)) = mset pool"
  using assms
proof (induction k arbitrary: pool pos)
  case (Suc k)
  let ?i = "nr - Suc k" and ?p = "rnd pos mod nr"
  have lt: "?i < length pool" "?p < length pool" using Suc.prems by auto
  then have "mset (pool[?i := pool ! ?p, ?p := pool ! ?i]) = mset pool" by (intro mset_swap)
  with Suc show ?case by (simp add: Let_def)
qed simp

lemma shuffle_key_pool_keeps:
  assumes "length (key_pool kg) = unat (nr_key kg)"
  shows "mset (key_pool (shuffle_key_pool rnd kg)) = mset (key_pool kg)" "nr_key (shuffle_key_pool rnd kg) = nr_key kg"
    "load_cnt (shuffle_key_pool rnd kg) = load_cnt kg" "key_dist (shuffle_key_pool rnd kg) = key_dist kg"
    "length (key_pool (shuffle_key_pool rnd kg)) = unat (nr_key (shuffle_key_pool rnd kg))"
proof -
  let ?r = "shuffle_from rnd (unat (nr_key kg)) (unat (nr_key kg)) (key_pool kg) (rand_pos kg)"
  have m: "mset (fst ?r) = mset (key_pool kg)" by (rule shuffle_from_perm) (use assms in simp_all)
  then show "mset (key_pool (shuffle_key_pool rnd kg)) = mset (key_pool kg)" "nr_key (shuffle_key_pool rnd kg) = nr_key kg"
    "load_cnt (shuffle_key_pool rnd kg) = load_cnt kg" "key_dist (shuffle_key_pool rnd kg) = key_dist kg"
    "length (key_pool (shuffle_key_pool rnd kg)) = unat (nr_key (shuffle_key_pool rnd kg))"
    using mset_eq_length [OF m] assms by (cases ?r; simp add: shuffle_key_pool_def)+
qed

text \<open>\<open>n\<close> calls of \<open>get_next_key_for_load\<close>, as the load phase makes them.\<close>

fun load_keys :: "nat \<Rightarrow> keygen \<Rightarrow> byte list option list \<times> keygen" where
  "load_keys 0 kg = ([], kg)"
| "load_keys (Suc n) kg =
     (case get_next_key_for_load kg of (k, kg1) \<Rightarrow> case load_keys n kg1 of (ks, kg2) \<Rightarrow> (k # ks, kg2))"

lemma load_keys_run:
  "length (key_pool kg) = unat (nr_key kg) \<Longrightarrow> unat (load_cnt kg) + n = unat (nr_key kg) \<Longrightarrow>
     load_keys n kg = (map Some (drop (unat (load_cnt kg)) (key_pool kg)), kg\<lparr>load_cnt := nr_key kg\<rparr>)"
proof (induction n arbitrary: kg)
  case 0
  then have "load_cnt kg = nr_key kg" by (simp add: word_unat_eq_iff)
  with 0 show ?case by simp
next
  case (Suc n)
  let ?c = "unat (load_cnt kg)"
  have lt: "?c < unat (nr_key kg)" using Suc.prems(2) by simp
  then have c1: "unat (load_cnt kg + 1) = Suc ?c" using unat_add_u64 [of "load_cnt kg" 1] unat_u64_lt [of "nr_key kg"] by simp
  have "\<not> nr_key kg \<le> load_cnt kg" using lt by (simp add: word_le_nat_alt)
  moreover have "load_keys n (kg\<lparr>load_cnt := load_cnt kg + 1\<rparr>) =
      (map Some (drop (Suc ?c) (key_pool kg)), kg\<lparr>load_cnt := nr_key kg\<rparr>)"
    using Suc.IH [of "kg\<lparr>load_cnt := load_cnt kg + 1\<rparr>"] Suc.prems c1 by simp
  moreover have "drop ?c (key_pool kg) = key_pool kg ! ?c # drop (Suc ?c) (key_pool kg)"
    using lt Suc.prems(1) by (simp add: Cons_nth_drop_Suc)
  ultimately show ?case by (simp add: get_next_key_for_load_def)
qed

subsection \<open>Properties\<close>

text \<open>
  The load phase goes through the pool once. With keys of at least four bytes, \<open>keygen_init\<close> makes the asked number of keys, each of the asked length, \<open>user\<close> and
  digits; as many calls of \<open>get_next_key_for_load\<close> return exactly the keys of the pool in order, and the next one returns the null pointer. A key
  size below four writes behind the key.
\<close>

theorem keygen_loads_all:
  assumes "0 < nr"
  shows "(4 \<le> ksz \<longrightarrow> (\<exists>kg. keygen_init rnd nr ksz = Inr kg \<and> keygen_ok kg \<and>
        (\<forall>k \<in> set (key_pool kg). length k = nat ksz \<and> take 4 k = user_bytes \<and> (\<forall>b \<in> set (drop 4 k). 48 \<le> b \<and> b \<le> 57)) \<and>
        fst (load_keys (unat nr) kg) = map Some (key_pool kg) \<and> length (key_pool kg) = unat nr \<and>
        fst (get_next_key_for_load (snd (load_keys (unat nr) kg))) = None)) \<and>
     (0 \<le> ksz \<and> ksz < 4 \<longrightarrow> keygen_init rnd nr ksz = Inl OutOfBounds)"
proof (intro conjI impI)
  assume k: "4 \<le> ksz"
  then obtain kg where kg: "keygen_init rnd nr ksz = Inr kg" by (auto simp: keygen_init_def Let_def)
  then have f: "key_pool kg = map (\<lambda>i. gen_key rnd (i * (nat ksz - 4)) (nat ksz)) [0..<unat nr]" "nr_key kg = nr" "load_cnt kg = 0"
    "nr_hotset kg = nr div 100 * of_int 50" "nr_coldset kg = nr - nr div 100 * of_int 50"
    using k by (auto simp: keygen_init_def Let_def split: if_splits)
  have len: "length (key_pool kg) = unat (nr_key kg)" by (simp add: f)
  have ok: "keygen_ok kg"
    using len hotset_bound(2) [of 50 nr] by (simp add: keygen_ok_def f unat_diff)
  have run: "load_keys (unat nr) kg = (map Some (key_pool kg), kg\<lparr>load_cnt := nr_key kg\<rparr>)"
    using load_keys_run [OF len, of "unat nr"] f(2,3) by simp
  have dig: "(48 :: byte) \<le> of_nat (48 + d mod 10) \<and> (of_nat (48 + d mod 10) :: byte) \<le> 57" for d :: nat
  proof -
    have d: "d mod 10 < 10" by simp
    then have "(48 + d mod 10) mod 2 ^ LENGTH(8) = 48 + d mod 10" by (intro mod_less) simp
    then have "unat (of_nat (48 + d mod 10) :: byte) = 48 + d mod 10" by (simp only: unat_of_nat)
    with d show ?thesis unfolding word_le_nat_alt by (simp del: of_nat_add)
  qed
  have key: "length (gen_key rnd p (nat ksz)) = nat ksz \<and> take 4 (gen_key rnd p (nat ksz)) = user_bytes \<and>
      (\<forall>b \<in> set (drop 4 (gen_key rnd p (nat ksz))). 48 \<le> b \<and> b \<le> 57)" for p
    using k dig by (auto simp: gen_key_def user_bytes_def)
  show "\<exists>kg. keygen_init rnd nr ksz = Inr kg \<and> keygen_ok kg \<and>
        (\<forall>k \<in> set (key_pool kg). length k = nat ksz \<and> take 4 k = user_bytes \<and> (\<forall>b \<in> set (drop 4 k). 48 \<le> b \<and> b \<le> 57)) \<and>
        fst (load_keys (unat nr) kg) = map Some (key_pool kg) \<and> length (key_pool kg) = unat nr \<and>
        fst (get_next_key_for_load (snd (load_keys (unat nr) kg))) = None"
    using kg ok key run by (intro exI [of _ kg]) (auto simp: f get_next_key_for_load_def)
qed (use assms in \<open>simp add: keygen_init_def\<close>)

theorem keygen_loads_all_witness:
  "\<exists>kg. keygen_init (\<lambda>k. k) 2 6 = Inr kg \<and> fst (load_keys 2 kg) = map Some (key_pool kg) \<and> length (key_pool kg) = 2"
  using keygen_loads_all [of 2 6 "\<lambda>k. k"] by auto

text \<open>
  The query phase stays in the pool. Setting a distribution with locality permutes the keys of the pool, and splits it into a hot set of \<open>ratio\<close> percent of the whole hundreds and the rest.
  Then a hot query returns a key of the hot set and a cold query one of the rest; a query of an empty set divides by zero, as happens to every hot query with fewer than 100 keys.
\<close>

theorem keygen_locality:
  assumes ok: "keygen_ok kg" and r: "0 \<le> r" "r \<le> 100"
  shows "let kg' = set_key_dist rnd KEY_DIST_LOCALITY q r kg; nr = unat (nr_key kg); hot = nr div 100 * nat r; p = rand_pos kg'
     in keygen_ok kg' \<and> mset (key_pool kg') = mset (key_pool kg) \<and>
       (int (rnd p mod 100) < q \<longrightarrow>
          (if hot = 0 then get_next_key rnd kg' = Inl DivByZero
           else \<exists>i < hot. get_next_key rnd kg' = Inr (Some (key_pool kg' ! i), kg'\<lparr>rand_pos := p + 2\<rparr>))) \<and>
       (\<not> int (rnd p mod 100) < q \<longrightarrow>
          (if hot = nr then get_next_key rnd kg' = Inl DivByZero
           else \<exists>i. hot \<le> i \<and> i < nr \<and> get_next_key rnd kg' = Inr (Some (key_pool kg' ! i), kg'\<lparr>rand_pos := p + 2\<rparr>)))"
proof -
  define kg' where "kg' = set_key_dist rnd KEY_DIST_LOCALITY q r kg"
  let ?h = "nr_key kg div 100 * of_int r" and ?nr = "unat (nr_key kg)" and ?p = "rand_pos kg'"
  define k0 where "k0 = kg\<lparr>key_dist := KEY_DIST_LOCALITY\<rparr>"
  have l: "length (key_pool k0) = unat (nr_key k0)" using ok by (simp add: keygen_ok_def k0_def)
  note s1 = shuffle_key_pool_keeps [OF l, of rnd]
  note s2 = shuffle_key_pool_keeps [OF s1(5), of rnd]
  note s3 = shuffle_key_pool_keeps [OF s2(5), of rnd]
  have f: "mset (key_pool kg') = mset (key_pool kg)" "nr_key kg' = nr_key kg" "nr_hotset kg' = ?h" "nr_coldset kg' = nr_key kg - ?h"
    "query_ratio kg' = q" "load_cnt kg' = load_cnt kg" "key_dist kg' = KEY_DIST_LOCALITY"
    using s1 s2 s3 by (simp_all add: kg'_def set_key_dist_def Let_def k0_def)
  note hb = hotset_bound [OF r, of "nr_key kg"]
  have cold: "unat (nr_coldset kg') = ?nr - unat ?h" using hb(2) by (simp add: f unat_diff)
  have len: "length (key_pool kg') = ?nr" using mset_eq_length [OF f(1)] ok by (simp add: keygen_ok_def)
  have ok': "keygen_ok kg'" using len cold hb(2) ok f by (simp add: keygen_ok_def)
  have hot: "\<exists>i < unat ?h. get_next_key rnd kg' = Inr (Some (key_pool kg' ! i), kg'\<lparr>rand_pos := ?p + 2\<rparr>)"
    if "int (rnd ?p mod 100) < q" "unat ?h \<noteq> 0"
  proof -
    have lt: "rnd (Suc ?p) mod unat ?h < unat ?h" using that(2) by simp
    have "?h \<noteq> 0" using that(2) by auto
    with that lt hb(2) len have "get_next_key rnd kg' = Inr (Some (key_pool kg' ! (rnd (Suc ?p) mod unat ?h)), kg'\<lparr>rand_pos := ?p + 2\<rparr>)"
      by (simp add: get_next_key_def f pool_at_def Let_def)
    with lt show ?thesis by blast
  qed
  have cld: "\<exists>i. unat ?h \<le> i \<and> i < ?nr \<and> get_next_key rnd kg' = Inr (Some (key_pool kg' ! i), kg'\<lparr>rand_pos := ?p + 2\<rparr>)"
    if "\<not> int (rnd ?p mod 100) < q" "unat ?h \<noteq> ?nr"
  proof -
    let ?d = "rnd (Suc ?p) mod unat (nr_coldset kg')"
    have nz: "unat (nr_coldset kg') \<noteq> 0" using cold hb(2) that(2) by simp
    then have d: "?d < unat (nr_coldset kg')" by simp
    then have "?d < 18446744073709551616" using unat_u64_lt [of "nr_coldset kg'"] by linarith
    then have "unat (of_nat ?d :: u64) = ?d" by (rule unat_of_nat_u64)
    moreover have lt: "unat ?h + ?d < ?nr" using d cold hb(2) by linarith
    moreover have "unat ?h + ?d < 18446744073709551616" using lt unat_u64_lt [of "nr_key kg"] by linarith
    ultimately have i: "unat (?h + of_nat ?d :: u64) = unat ?h + ?d" "unat ?h + ?d < ?nr"
      using unat_add_u64 [of ?h "of_nat ?d"] by simp_all
    from nz have "nr_coldset kg' \<noteq> 0" by auto
    with that i len f(3,5,7) have "get_next_key rnd kg' = Inr (Some (key_pool kg' ! (unat ?h + ?d)), kg'\<lparr>rand_pos := ?p + 2\<rparr>)"
      by (simp add: get_next_key_def pool_at_def Let_def)
    with i(2) show ?thesis by (intro exI [of _ "unat ?h + ?d"]) simp
  qed
  have z: "get_next_key rnd kg' = Inl DivByZero" if "int (rnd ?p mod 100) < q" "unat ?h = 0"
    using that by (simp add: get_next_key_def f Let_def unat_eq_zero)
  have z': "get_next_key rnd kg' = Inl DivByZero" if "\<not> int (rnd ?p mod 100) < q" "unat ?h = ?nr"
  proof -
    have "nr_coldset kg' = 0" using cold that(2) by (simp add: unat_eq_zero)
    with that(1) f(5,7) show ?thesis by (simp add: get_next_key_def Let_def)
  qed
  from ok' f(1) hot cld z z' show ?thesis unfolding Let_def kg'_def [symmetric] hb(1) [symmetric] by auto
qed

theorem keygen_locality_witness:
  "\<exists>kg. keygen_init (\<lambda>k. k) 200 6 = Inr kg \<and> (let kg' = set_key_dist (\<lambda>k. k) KEY_DIST_LOCALITY 100 40 kg
     in mset (key_pool kg') = mset (key_pool kg) \<and>
        (\<exists>i < 80. get_next_key (\<lambda>k. k) kg' = Inr (Some (key_pool kg' ! i), kg'\<lparr>rand_pos := rand_pos kg' + 2\<rparr>)))"
proof -
  obtain kg where kg: "keygen_init (\<lambda>k. k) 200 6 = Inr kg" "keygen_ok kg" "nr_key kg = 200"
    by (auto simp: keygen_init_def keygen_ok_def Let_def unat_diff)
  from keygen_locality [OF kg(2), of 40 "\<lambda>k. k" 100] kg(1,3) show ?thesis by (auto simp: Let_def)
qed

end
