(* ===== verification/Client.thy ===== *)
theory Client
  imports Keygen Net
begin

section \<open>The load phase of the client (\<open>src/client.cc\<close>, \<open>src/util.c\<close>)\<close>

text \<open>
  The client loads one SET per key of its pool, in bulks of up to 128 messages, with at most \<open>CLIENT_QDEPTH\<close> messages outstanding: the main thread takes a semaphore for
  each message (\<open>req_in\<close>), the thread \<open>ack_poller\<close> posts it for each acknowledgement (\<open>req_out\<close>), and \<open>wait_until_finish\<close> ends the phase when the semaphore
  is back at its initial value. \<open>load_step\<close> is the code of \<open>load_kvpairs\<close> with a program counter, \<open>csys_step\<close> interleaves it with the acknowledgements, of which the
  server sends one for each message sent. The number of keys \<open>NR_KEY\<close> is a parameter. Of the progress output the model keeps
  what can crash: the remainder modulo \<open>NR_KEY/100\<close> at the head of the outer loop, a division by zero when there are fewer than a hundred keys.
\<close>

subsection \<open>Operations\<close>

definition CLIENT_QDEPTH :: int where "CLIENT_QDEPTH = 1024"
definition BULK :: nat where "BULK = 128"

text \<open>\<open>None\<close>: the caller waits.\<close>

definition req_in :: "int \<Rightarrow> int option" where
  "req_in sem = (if sem = 0 then None else Some (sem - 1))"

definition req_out :: "int \<Rightarrow> int" where
  "req_out sem = sem + 1"

definition finished :: "int \<Rightarrow> int \<Rightarrow> bool" where
  "finished sem qdepth \<longleftrightarrow> sem = qdepth"

record client =
  kg :: keygen
  sem :: int
  seq_num_global :: u32
  li :: nat
  nr_arr :: "netreq list"
  sent :: "netreq list"
  cdf_table :: "nat \<Rightarrow> u64"

text \<open>
  Where \<open>load_kvpairs\<close> is: in the loop that fills \<open>nr_arr\<close>, at \<open>send_request_bulk\<close>, in \<open>wait_until_finish\<close>, or at its end. With \<open>nr_arr\<close> empty the
  first is the head of the outer loop, with its test and the progress output.
\<close>

datatype load_pc = L_FILL | L_SEND | L_WAIT | L_DONE

definition load_req :: "byte list \<Rightarrow> u32 \<Rightarrow> netreq" where
  "load_req key seq = \<lparr>nr_type = REQ_TYPE_SET, nr_keylen = of_nat KEY_LEN, nr_seq_num = seq, nr_key = take KEY_LEN key, nr_kv_size = of_nat VALUE_LEN\<rparr>"

definition load_fill :: "client \<Rightarrow> (load_pc \<times> client) res option" where
  "load_fill c =
     (if length (nr_arr c) < BULK
      then (case get_next_key_for_load (kg c) of
              (None, kg') \<Rightarrow> Some (Inr (L_SEND, c\<lparr>kg := kg'\<rparr>))
            | (Some key, kg') \<Rightarrow>
                (case req_in (sem c) of
                   None \<Rightarrow> None
                 | Some s \<Rightarrow>
                     if length key < KEY_LEN then Some (Inl OutOfBounds)
                     else Some (Inr (L_FILL, c\<lparr>kg := kg', sem := s, seq_num_global := seq_num_global c + 1, li := Suc (li c),
                                               nr_arr := nr_arr c @ [load_req key (seq_num_global c + 1)]\<rparr>))))
      else Some (Inr (L_SEND, c)))"

fun load_step :: "nat \<Rightarrow> load_pc \<Rightarrow> client \<Rightarrow> (load_pc \<times> client) res option" where
  "load_step nr_keys L_FILL c =
     (if nr_arr c = [] \<and> \<not> li c < nr_keys then Some (Inr (L_WAIT, c))
      else if nr_arr c = [] \<and> nr_keys div 100 = 0 then Some (Inl DivByZero)
      else load_fill c)"
| "load_step nr_keys L_SEND c = Some (Inr (L_FILL, c\<lparr>sent := sent c @ nr_arr c, nr_arr := []\<rparr>))"
| "load_step nr_keys L_WAIT c = Some (Inr (if finished (sem c) CLIENT_QDEPTH then L_DONE else L_WAIT, c))"
| "load_step nr_keys L_DONE c = Some (Inr (L_DONE, c))"

text \<open>The body of the loop of \<open>ack_poller\<close> over the acknowledgements it has read.\<close>

definition poll_ack :: "req_type_t \<Rightarrow> int \<Rightarrow> client \<Rightarrow> client res" where
  "poll_ack ty elapsed c =
     ebind (if ty = REQ_TYPE_GET then collect_latency elapsed (cdf_table c) else Inr (cdf_table c)) (\<lambda>t.
     Inr (c\<lparr>cdf_table := t, sem := req_out (sem c)\<rparr>))"

definition bench_init :: "(nat \<Rightarrow> nat) \<Rightarrow> u64 \<Rightarrow> client res" where
  "bench_init rnd nr =
     ebind (keygen_init rnd nr (int KEY_LEN)) (\<lambda>k.
     Inr \<lparr>kg = k, sem = CLIENT_QDEPTH, seq_num_global = 0, li = 0, nr_arr = [], sent = [], cdf_table = (\<lambda>_. 0)\<rparr>)"

subsection \<open>The client and the acknowledgements of its messages\<close>

record csys =
  cl :: client
  cpc :: load_pc
  acked :: nat

inductive csys_step :: "nat \<Rightarrow> csys \<Rightarrow> csys \<Rightarrow> bool" for n where
  c_load: "load_step n (cpc s) (cl s) = Some (Inr (pc', c')) \<Longrightarrow> csys_step n s (s\<lparr>cl := c', cpc := pc'\<rparr>)"
| c_ack: "acked s < length (sent (cl s)) \<Longrightarrow> poll_ack (nr_type (sent (cl s) ! acked s)) t (cl s) = Inr c' \<Longrightarrow>
     csys_step n s (s\<lparr>cl := c', acked := Suc (acked s)\<rparr>)"

inductive csys_reachable :: "nat \<Rightarrow> client \<Rightarrow> csys \<Rightarrow> bool" for n c0 where
  c_start: "csys_reachable n c0 \<lparr>cl = c0, cpc = L_FILL, acked = 0\<rparr>"
| c_step: "csys_reachable n c0 s \<Longrightarrow> csys_step n s s' \<Longrightarrow> csys_reachable n c0 s'"

text \<open>The requests of a load phase over a pool of keys, in order.\<close>

definition load_reqs :: "byte list list \<Rightarrow> netreq list" where
  "load_reqs pool = map (\<lambda>j. load_req (pool ! j) (of_nat (Suc j))) [0..<length pool]"

definition csys_inv :: "byte list list \<Rightarrow> csys \<Rightarrow> bool" where
  "csys_inv pool s \<longleftrightarrow> (let c = cl s; n = length pool in
     key_pool (kg c) = pool \<and> unat (keygen.nr_key (kg c)) = n \<and> unat (load_cnt (kg c)) = li c \<and> li c \<le> n \<and> (\<forall>k \<in> set pool. length k = KEY_LEN) \<and>
     seq_num_global c = of_nat (li c) \<and> sent c @ nr_arr c = take (li c) (load_reqs pool) \<and> length (nr_arr c) \<le> BULK \<and>
     acked s \<le> length (sent c) \<and> sem c = CLIENT_QDEPTH - int (li c - acked s) \<and> 0 \<le> sem c \<and>
     (cpc s = L_SEND \<longrightarrow> nr_arr c \<noteq> []) \<and>
     (cpc s \<in> {L_WAIT, L_DONE} \<longrightarrow> li c = n \<and> nr_arr c = []) \<and> (cpc s = L_DONE \<longrightarrow> acked s = n))"

lemma length_load_reqs [simp]: "length (load_reqs pool) = length pool"
  by (simp add: load_reqs_def)

lemma take_load_reqs: "i < length pool \<Longrightarrow> take (Suc i) (load_reqs pool) = take i (load_reqs pool) @ [load_req (pool ! i) (of_nat (Suc i))]"
  by (subst take_Suc_conv_app_nth) (simp_all add: load_reqs_def)

lemma csys_invD:
  assumes "csys_inv pool s"
  shows "key_pool (kg (cl s)) = pool" "unat (keygen.nr_key (kg (cl s))) = length pool" "unat (load_cnt (kg (cl s))) = li (cl s)" "li (cl s) \<le> length pool"
    "\<And>k. k \<in> set pool \<Longrightarrow> length k = KEY_LEN" "seq_num_global (cl s) = of_nat (li (cl s))"
    "sent (cl s) @ nr_arr (cl s) = take (li (cl s)) (load_reqs pool)" "length (nr_arr (cl s)) \<le> BULK" "acked s \<le> length (sent (cl s))"
    "sem (cl s) = CLIENT_QDEPTH - int (li (cl s) - acked s)" "0 \<le> sem (cl s)"
    "cpc s = L_SEND \<Longrightarrow> nr_arr (cl s) \<noteq> []"
    "cpc s \<in> {L_WAIT, L_DONE} \<Longrightarrow> li (cl s) = length pool \<and> nr_arr (cl s) = []" "cpc s = L_DONE \<Longrightarrow> acked s = length pool"
    "length (sent (cl s)) + length (nr_arr (cl s)) = li (cl s)"
proof -
  from assms have "sent (cl s) @ nr_arr (cl s) = take (li (cl s)) (load_reqs pool)" "li (cl s) \<le> length pool" by (simp_all add: csys_inv_def Let_def)
  from arg_cong [OF this(1), of length] this(2) show "length (sent (cl s)) + length (nr_arr (cl s)) = li (cl s)" by simp
qed (use assms in \<open>simp_all add: csys_inv_def Let_def\<close>)

text \<open>A step of the filling loop: the bulk is full, the pool is empty, the semaphore is, or a message is added.\<close>

lemma load_fill_cases:
  assumes inv: "csys_inv pool s" and pc: "cpc s = L_FILL"
  shows "if length (nr_arr (cl s)) = BULK \<or> li (cl s) = length pool then load_fill (cl s) = Some (Inr (L_SEND, cl s))
     else if sem (cl s) = 0 then load_fill (cl s) = None
     else \<exists>c'. load_fill (cl s) = Some (Inr (L_FILL, c')) \<and> csys_inv pool (s\<lparr>cl := c', cpc := L_FILL\<rparr>) \<and>
       li c' = Suc (li (cl s)) \<and> length (nr_arr c') = Suc (length (nr_arr (cl s)))"
proof (cases "length (nr_arr (cl s)) = BULK \<or> li (cl s) = length pool")
  case True
  note i = csys_invD [OF inv]
  have "keygen.nr_key (kg (cl s)) \<le> load_cnt (kg (cl s))" if "li (cl s) = length pool" using that i(2,3) by (simp add: word_le_nat_alt)
  with True show ?thesis by (auto simp: load_fill_def get_next_key_for_load_def)
next
  case False
  let ?c = "cl s"
  note i = csys_invD [OF inv]
  have lt: "li ?c < length pool" "length (nr_arr ?c) < BULK" using False i(4,8) by simp_all
  have nle: "\<not> keygen.nr_key (kg ?c) \<le> load_cnt (kg ?c)" using lt(1) i(2,3) by (simp add: word_le_nat_alt)
  have key: "length (pool ! li ?c) = KEY_LEN" using i(5) lt(1) by simp
  have cnt: "unat (load_cnt (kg ?c) + 1) = Suc (li ?c)"
    using unat_add_u64 [of "load_cnt (kg ?c)" 1] i(2,3) lt(1) unat_u64_lt [of "keygen.nr_key (kg ?c)"] by simp
  let ?c' = "?c\<lparr>kg := (kg ?c)\<lparr>load_cnt := load_cnt (kg ?c) + 1\<rparr>, sem := sem ?c - 1, seq_num_global := seq_num_global ?c + 1, li := Suc (li ?c),
     nr_arr := nr_arr ?c @ [load_req (pool ! li ?c) (seq_num_global ?c + 1)]\<rparr>"
  show ?thesis
  proof (cases "sem ?c = 0")
    case True
    with False lt(2) nle i(1,3) show ?thesis by (simp add: load_fill_def get_next_key_for_load_def req_in_def)
  next
    case sem: False
    have run: "load_fill ?c = Some (Inr (L_FILL, ?c'))"
      using lt(2) nle sem key i(1,3) by (simp add: load_fill_def get_next_key_for_load_def req_in_def)
    have "sent ?c' @ nr_arr ?c' = take (li ?c') (load_reqs pool)"
      using i(6,7) take_load_reqs [OF lt(1)] by (simp add: add.commute)
    moreover have "acked s \<le> li ?c" using i(9,15) by simp
    ultimately have "csys_inv pool (s\<lparr>cl := ?c', cpc := L_FILL\<rparr>)"
      using i lt cnt sem by (auto simp: csys_inv_def Let_def Suc_diff_le)
    with run False sem show ?thesis by auto
  qed
qed

text \<open>The head of the outer loop, and the steps of the inner one.\<close>

lemma load_step_head:
  assumes "csys_inv pool s" and "nr_arr (cl s) = []"
  shows "load_step (length pool) L_FILL (cl s) =
     (if li (cl s) = length pool then Some (Inr (L_WAIT, cl s)) else if length pool < 100 then Some (Inl DivByZero) else load_fill (cl s))"
  using csys_invD(4) [OF assms(1)] assms(2) by (auto simp: div_eq_0_iff)

lemma load_step_inner: "nr_arr c \<noteq> [] \<Longrightarrow> load_step n L_FILL c = load_fill c"
  by simp

lemma load_step_fillD:
  assumes "csys_inv pool s" and "load_step (length pool) L_FILL (cl s) = Some (Inr (pc', c'))"
  shows "if nr_arr (cl s) = [] \<and> li (cl s) = length pool then pc' = L_WAIT \<and> c' = cl s else load_fill (cl s) = Some (Inr (pc', c'))"
proof (cases "nr_arr (cl s) = []")
  case True
  with assms(2) load_step_head [OF assms(1)] show ?thesis by (simp del: load_step.simps split: if_splits)
next
  case False
  with assms(2) load_step_inner show ?thesis by simp
qed

lemma csys_inv_load:
  assumes inv: "csys_inv pool s" and st: "load_step (length pool) (cpc s) (cl s) = Some (Inr (pc', c'))"
  shows "csys_inv pool (s\<lparr>cl := c', cpc := pc'\<rparr>)"
proof (cases "cpc s")
  case L_FILL
  show ?thesis
  proof (cases "nr_arr (cl s) = [] \<and> li (cl s) = length pool")
    case True
    with load_step_fillD [OF inv] st L_FILL have "pc' = L_WAIT" "c' = cl s" by simp_all
    moreover have "acked s \<le> length pool" using csys_invD(4,9,15) [OF inv] by simp
    ultimately show ?thesis using True inv L_FILL by (simp add: csys_inv_def Let_def)
  next
    case False
    then have f: "load_fill (cl s) = Some (Inr (pc', c'))" using load_step_fillD [OF inv, of pc' c'] st L_FILL by (simp del: load_step.simps)
    show ?thesis
    proof (cases "length (nr_arr (cl s)) = BULK \<or> li (cl s) = length pool")
      case full: True
      with load_fill_cases [OF inv L_FILL] f have "pc' = L_SEND" "c' = cl s" by auto
      moreover have "nr_arr (cl s) \<noteq> []" using False full by (auto simp: BULK_def)
      ultimately show ?thesis using inv L_FILL by (simp add: csys_inv_def Let_def)
    next
      case False
      with load_fill_cases [OF inv L_FILL] f show ?thesis by (auto split: if_splits)
    qed
  qed
next
  case L_SEND
  with st have "pc' = L_FILL" "c' = (cl s)\<lparr>sent := sent (cl s) @ nr_arr (cl s), nr_arr := []\<rparr>" by auto
  moreover have "acked s \<le> li (cl s)" using csys_invD(9,15) [OF inv] by simp
  ultimately show ?thesis using inv L_SEND by (auto simp: csys_inv_def Let_def)
next
  case L_WAIT
  with st have e: "pc' = (if finished (sem (cl s)) CLIENT_QDEPTH then L_DONE else L_WAIT)" "c' = cl s" by auto
  have "acked s = length pool" if "sem (cl s) = CLIENT_QDEPTH" using csys_invD(9,10,13,15) [OF inv] L_WAIT that by simp
  with e inv L_WAIT show ?thesis by (auto simp: csys_inv_def Let_def finished_def)
next
  case L_DONE
  with st inv show ?thesis by (auto simp: csys_inv_def Let_def)
qed

lemma poll_ack_set: "poll_ack REQ_TYPE_SET t c = Inr (c\<lparr>sem := sem c + 1\<rparr>)"
  by (simp add: poll_ack_def req_out_def)

lemma sent_is_set:
  assumes "csys_inv pool s" and "i < length (sent (cl s))"
  shows "nr_type (sent (cl s) ! i) = REQ_TYPE_SET"
proof -
  note d = csys_invD [OF assms(1)]
  have lt: "i < length pool" "i < li (cl s)" using assms(2) d(4,15) by simp_all
  have "sent (cl s) ! i = (sent (cl s) @ nr_arr (cl s)) ! i" using assms(2) by (simp add: nth_append)
  also have "\<dots> = load_req (pool ! i) (of_nat (Suc i))" unfolding d(7) using lt by (simp add: load_reqs_def)
  finally show ?thesis by (simp add: load_req_def)
qed

lemma csys_inv_step: "csys_step (length pool) s s' \<Longrightarrow> csys_inv pool s \<Longrightarrow> csys_inv pool s'"
proof (induction rule: csys_step.induct)
  case (c_load s pc' c')
  then show ?case by (intro csys_inv_load)
next
  case (c_ack s t c')
  have "c' = (cl s)\<lparr>sem := sem (cl s) + 1\<rparr>" using c_ack(2) sent_is_set [OF c_ack(3,1)] poll_ack_set by simp
  moreover have "cpc s \<noteq> L_DONE" using csys_invD(13,14,15) [OF c_ack(3)] c_ack(1) by auto
  ultimately show ?case using c_ack(1,3) csys_invD(15) [OF c_ack(3)] by (auto simp: csys_inv_def Let_def Suc_diff_le)
qed

lemma bench_init_inv:
  assumes "0 < nr" and "bench_init rnd nr = Inr c"
  shows "csys_inv (key_pool (kg c)) \<lparr>cl = c, cpc = L_FILL, acked = 0\<rparr> \<and> length (key_pool (kg c)) = unat nr"
proof -
  from assms(2) obtain k where k: "keygen_init rnd nr (int KEY_LEN) = Inr k"
    "c = \<lparr>kg = k, sem = CLIENT_QDEPTH, seq_num_global = 0, li = 0, nr_arr = [], sent = [], cdf_table = (\<lambda>_. 0)\<rparr>"
    by (auto simp: bench_init_def res_simps)
  then have "key_pool k = map (\<lambda>i. gen_key rnd (i * (KEY_LEN - 4)) KEY_LEN) [0..<unat nr]" "keygen.nr_key k = nr" "load_cnt k = 0"
    by (auto simp: keygen_init_def Let_def config_defs split: if_splits)
  with k(2) show ?thesis by (auto simp: csys_inv_def Let_def gen_key_def user_bytes_def config_defs CLIENT_QDEPTH_def)
qed

lemma bench_init_ok: "\<exists>c. bench_init rnd nr = Inr c"
  by (simp add: bench_init_def keygen_init_def Let_def config_defs)

lemma csys_inv_reachable:
  assumes "0 < nr" and "bench_init rnd nr = Inr c0" and "csys_reachable (unat nr) c0 s"
  shows "csys_inv (key_pool (kg c0)) s"
  using assms(3)
proof (induction rule: csys_reachable.induct)
  case c_start
  from bench_init_inv [OF assms(1,2)] show ?case by blast
next
  case (c_step s s')
  with csys_inv_step [of "key_pool (kg c0)" s s'] bench_init_inv [OF assms(1,2)] show ?case by simp
qed

text \<open>Steps that do something, as opposed to waiting: the measure they decrease.\<close>

fun pc_rank :: "load_pc \<Rightarrow> nat" where
  "pc_rank L_FILL = 3" | "pc_rank L_SEND = 2" | "pc_rank L_WAIT = 1" | "pc_rank L_DONE = 0"

definition load_measure :: "nat \<Rightarrow> csys \<Rightarrow> nat" where
  "load_measure n s = 4 * (n - li (cl s)) + 2 * length (nr_arr (cl s)) + (n - acked s) + pc_rank (cpc s)"

lemma load_step_measure:
  assumes inv: "csys_inv pool s" and st: "load_step (length pool) (cpc s) (cl s) = Some (Inr (pc', c'))" and ne: "(pc', c') \<noteq> (cpc s, cl s)"
  shows "load_measure (length pool) (s\<lparr>cl := c', cpc := pc'\<rparr>) < load_measure (length pool) s"
proof (cases "cpc s")
  case L_FILL
  then consider "pc' = L_WAIT" "c' = cl s" | "load_fill (cl s) = Some (Inr (pc', c'))"
    using load_step_fillD [OF inv, of pc' c'] st by (metis (full_types))
  then show ?thesis
  proof cases
    case 2
    with load_fill_cases [OF inv L_FILL] L_FILL csys_invD(4) [OF inv] show ?thesis by (auto simp: load_measure_def split: if_splits)
  qed (use L_FILL in \<open>simp add: load_measure_def\<close>)
next
  case L_SEND
  with st csys_invD(12) [OF inv L_SEND] show ?thesis by (cases "nr_arr (cl s)") (auto simp: load_measure_def)
next
  case L_WAIT
  with st ne show ?thesis by (auto simp: load_measure_def split: if_splits)
next
  case L_DONE
  with st ne show ?thesis by auto
qed

lemma csys_step_measure: "csys_step (length pool) s s' \<Longrightarrow> csys_inv pool s \<Longrightarrow> s' \<noteq> s \<Longrightarrow> load_measure (length pool) s' < load_measure (length pool) s"
proof (induction rule: csys_step.induct)
  case (c_load s pc' c')
  then have "(pc', c') \<noteq> (cpc s, cl s)" by (cases s) auto
  with c_load show ?case by (intro load_step_measure)
next
  case (c_ack s t c')
  have "c' = (cl s)\<lparr>sem := sem (cl s) + 1\<rparr>" using c_ack(2) sent_is_set [OF c_ack(3,1)] poll_ack_set by simp
  with c_ack(1) csys_invD(4,15) [OF c_ack(3)] show ?case by (simp add: load_measure_def)
qed

lemma ack_possible:
  assumes "csys_inv pool s" and "acked s < length (sent (cl s))"
  shows "\<exists>s'. csys_step (length pool) s s' \<and> s' \<noteq> s"
proof -
  have "poll_ack (nr_type (sent (cl s) ! acked s)) 0 (cl s) = Inr ((cl s)\<lparr>sem := sem (cl s) + 1\<rparr>)"
    using sent_is_set [OF assms] poll_ack_set by simp
  from csys_step.c_ack [OF assms(2) this, of "length pool"] show ?thesis
    by (intro exI [of _ "s\<lparr>cl := (cl s)\<lparr>sem := sem (cl s) + 1\<rparr>, acked := Suc (acked s)\<rparr>"]) (cases s, simp)
qed

lemma csys_progress:
  assumes inv: "csys_inv pool s" and nd: "cpc s \<noteq> L_DONE" and many: "100 \<le> length pool"
  shows "\<exists>s'. csys_step (length pool) s s' \<and> s' \<noteq> s"
proof -
  note i = csys_invD [OF inv]
  have go: "\<exists>s'. csys_step (length pool) s s' \<and> s' \<noteq> s"
    if "load_step (length pool) (cpc s) (cl s) = Some (Inr (pc', c'))" "pc' \<noteq> cpc s \<or> li c' \<noteq> li (cl s)" for pc' c'
    using csys_step.c_load [OF that(1)] that(2) by (intro exI [of _ "s\<lparr>cl := c', cpc := pc'\<rparr>"]) (cases s, auto)
  show ?thesis
  proof (cases "cpc s")
    case L_FILL
    consider (ended) "nr_arr (cl s) = []" "li (cl s) = length pool" | (fill) "load_step (length pool) L_FILL (cl s) = load_fill (cl s)"
      using load_step_head [OF inv] load_step_inner many by fastforce
    then show ?thesis
    proof cases
      case ended
      with load_step_head [OF inv] L_FILL show ?thesis by (intro go [of L_WAIT "cl s"]) auto
    next
      case fill
      show ?thesis
      proof (cases "sem (cl s) = 0")
        case True
        then have "li (cl s) - acked s = 1024" using i(10) by (simp add: CLIENT_QDEPTH_def)
        then have "acked s < length (sent (cl s))" using i(8,15) by (simp add: BULK_def)
        then show ?thesis by (rule ack_possible [OF inv])
      next
        case False
        then obtain pc' c' where "load_fill (cl s) = Some (Inr (pc', c'))" "pc' \<noteq> cpc s \<or> li c' \<noteq> li (cl s)"
          using load_fill_cases [OF inv L_FILL] L_FILL by (auto split: if_splits)
        with fill L_FILL show ?thesis by (intro go [of pc' c']) simp_all
      qed
    qed
  next
    case L_SEND
    then show ?thesis by (intro go [of L_FILL]) auto
  next
    case L_WAIT
    show ?thesis
    proof (cases "finished (sem (cl s)) CLIENT_QDEPTH")
      case True
      with L_WAIT show ?thesis by (intro go [of L_DONE "cl s"]) auto
    next
      case False
      then have "acked s < length (sent (cl s))" using i(10,13,15) L_WAIT by (auto simp: finished_def)
      then show ?thesis by (rule ack_possible [OF inv])
    qed
  qed (use nd in simp)
qed

lemma reaches_done: "csys_reachable (length pool) c0 s \<Longrightarrow> csys_inv pool s \<Longrightarrow> 100 \<le> length pool \<Longrightarrow> \<exists>s'. csys_reachable (length pool) c0 s' \<and> cpc s' = L_DONE"
proof (induction "load_measure (length pool) s" arbitrary: s rule: less_induct)
  case less
  show ?case
  proof (cases "cpc s = L_DONE")
    case False
    then obtain s' where s': "csys_step (length pool) s s'" "s' \<noteq> s" using csys_progress [OF less.prems(2)] less.prems(3) by blast
    from less.hyps [OF csys_step_measure [OF s'(1) less.prems(2) s'(2)] csys_reachable.c_step [OF less.prems(1) s'(1)] csys_inv_step [OF s'(1) less.prems(2)] less.prems(3)]
    show ?thesis .
  qed (use less.prems in blast)
qed

lemma many_keys: "100 \<le> unat nr \<Longrightarrow> 0 < (nr :: u64)"
  by (cases "nr = 0") (simp_all add: word_neq_0_conv)

lemma load_reachable_end:
  assumes "100 \<le> unat nr" and "bench_init rnd nr = Inr c0"
  shows "\<exists>s. csys_reachable (unat nr) c0 s \<and> cpc s = L_DONE"
proof -
  from bench_init_inv [OF many_keys [OF assms(1)] assms(2)] have "csys_inv (key_pool (kg c0)) \<lparr>cl = c0, cpc = L_FILL, acked = 0\<rparr>" "length (key_pool (kg c0)) = unat nr" by blast+
  with reaches_done [OF csys_reachable.c_start] assms(1) show ?thesis by metis
qed

subsection \<open>Properties\<close>

text \<open>
  The load phase sends every key once. In every reachable state the messages sent are the first ones of the load (the keys of the pool in order, numbered from 1), and at most
  \<open>CLIENT_QDEPTH\<close> messages have been taken and not acknowledged; when the phase has ended, all have been sent and all acknowledged.
\<close>

theorem client_loads_in_order:
  assumes "0 < nr" and "bench_init rnd nr = Inr c0" and "csys_reachable (unat nr) c0 s"
  shows "sent (cl s) = take (length (sent (cl s))) (load_reqs (key_pool (kg c0))) \<and>
     int (length (sent (cl s)) + length (nr_arr (cl s)) - acked s) \<le> CLIENT_QDEPTH \<and>
     (cpc s = L_DONE \<longrightarrow> sent (cl s) = load_reqs (key_pool (kg c0)) \<and> acked s = unat nr)"
proof -
  let ?pool = "key_pool (kg c0)"
  note i = csys_invD [OF csys_inv_reachable [OF assms]]
  have len: "length ?pool = unat nr" using bench_init_inv [OF assms(1,2)] by blast
  have "take (length (sent (cl s))) (sent (cl s) @ nr_arr (cl s)) = take (length (sent (cl s))) (load_reqs ?pool)"
    unfolding i(7) using i(15) by (simp add: min_def)
  then have "sent (cl s) = take (length (sent (cl s))) (load_reqs ?pool)" by simp
  moreover have "sent (cl s) = load_reqs ?pool \<and> acked s = unat nr" if "cpc s = L_DONE"
    using i(7,13,14) that len by simp
  ultimately show ?thesis using i(10,11,15) by simp
qed

theorem client_loads_in_order_witness:
  "\<exists>c0 (s :: csys). bench_init (\<lambda>k. k) 300 = Inr c0 \<and> cpc s = L_DONE \<and> sent (cl s) = load_reqs (key_pool (kg c0)) \<and> acked s = 300"
proof -
  obtain c0 where c0: "bench_init (\<lambda>k. k) 300 = Inr c0" using bench_init_ok by blast
  obtain s where s: "csys_reachable (unat (300 :: u64)) c0 s" "cpc s = L_DONE" using load_reachable_end [OF _ c0] by auto
  from client_loads_in_order [OF _ c0 s(1)] s(2) c0 show ?thesis by auto
qed

text \<open>
  C32: the load phase ends. With at least a hundred keys, in every reachable state it has ended, or some step of the client or an acknowledgement changes the state; with any number of keys every step that changes the state decreases a
  measure. The main thread never waits for a semaphore with only unsent messages holding it. With fewer keys, but not none, the first step divides by zero.
\<close>

theorem client_load_ends:
  assumes "0 < nr" and "bench_init rnd nr = Inr c0" and "csys_reachable (unat nr) c0 s"
  shows "(100 \<le> unat nr \<longrightarrow> cpc s = L_DONE \<or> (\<exists>s'. csys_step (unat nr) s s' \<and> s' \<noteq> s)) \<and>
     (\<forall>s'. csys_step (unat nr) s s' \<and> s' \<noteq> s \<longrightarrow> load_measure (unat nr) s' < load_measure (unat nr) s) \<and>
     (unat nr < 100 \<longrightarrow> load_step (unat nr) L_FILL c0 = Some (Inl DivByZero))"
proof -
  have len: "length (key_pool (kg c0)) = unat nr" and i0: "csys_inv (key_pool (kg c0)) \<lparr>cl = c0, cpc = L_FILL, acked = 0\<rparr>"
    using bench_init_inv [OF assms(1,2)] by blast+
  note inv = csys_inv_reachable [OF assms]
  have "nr_arr c0 = []" "li c0 = 0" using assms(2) by (auto simp: bench_init_def res_simps)
  moreover have "0 < unat nr" using assms(1) by (simp add: unat_gt_0 word_neq_0_conv)
  ultimately have "load_step (unat nr) L_FILL c0 = Some (Inl DivByZero)" if "unat nr < 100" using load_step_head [OF i0] that len by simp
  with csys_progress [OF inv] csys_step_measure [of "key_pool (kg c0)" s, OF _ inv] show ?thesis unfolding len by blast
qed

theorem client_load_ends_witness:
  "\<exists>c0 s'. bench_init (\<lambda>k. k) 300 = Inr c0 \<and> csys_step 300 \<lparr>cl = c0, cpc = L_FILL, acked = 0\<rparr> s' \<and>
     load_measure 300 s' < load_measure 300 \<lparr>cl = c0, cpc = L_FILL, acked = 0\<rparr>"
proof -
  obtain c0 where c0: "bench_init (\<lambda>k. k) 300 = Inr c0" using bench_init_ok by blast
  from client_load_ends [OF _ c0 csys_reachable.c_start] c0 show ?thesis by auto
qed

end
