(* ===== verification/Client_Bench.thy ===== *)
theory Client_Bench
  imports Client
begin

section \<open>The query phase of the client (\<open>run_bench\<close> of \<open>src/client.cc\<close>)\<close>

text \<open>
  After the load the client sends GETs, one message at a time, for keys the generator draws from the pool, under the same semaphore; \<open>ack_poller\<close> counts the latency of each acknowledgement. \<open>bench_step\<close> is the code of
  \<open>run_bench\<close> with a program counter, over the state of the load phase: \<open>li\<close> is its loop variable and \<open>sent\<close> the messages of this phase. The number of queries \<open>NR_QUERY\<close> is a parameter; of the
  progress output the model keeps the remainder modulo \<open>NR_QUERY/100\<close>, a division by zero when there are fewer than a hundred queries.
\<close>

subsection \<open>Operations\<close>

datatype bench_pc = B_QUERY | B_WAIT | B_DONE

definition bench_req :: "byte list \<Rightarrow> u32 \<Rightarrow> netreq" where
  "bench_req key seq = \<lparr>nr_type = REQ_TYPE_GET, nr_keylen = of_nat KEY_LEN, nr_seq_num = seq, nr_key = take KEY_LEN key, nr_kv_size = of_nat VALUE_LEN\<rparr>"

text \<open>The body of the loop; a null pointer from \<open>get_next_key\<close> goes to \<open>memcpy\<close>.\<close>

definition bench_query :: "(nat \<Rightarrow> nat) \<Rightarrow> client \<Rightarrow> client res option" where
  "bench_query rnd c =
     (case req_in (sem c) of
        None \<Rightarrow> None
      | Some sv \<Rightarrow> Some (ebind (get_next_key rnd (kg c)) (\<lambda>(key, kg').
          case key of
            None \<Rightarrow> Inl NullDeref
          | Some k \<Rightarrow>
              if length k < KEY_LEN then Inl OutOfBounds
              else Inr (c\<lparr>kg := kg', sem := sv, seq_num_global := seq_num_global c + 1, li := Suc (li c),
                          sent := sent c @ [bench_req k (seq_num_global c + 1)]\<rparr>))))"

fun bench_step :: "(nat \<Rightarrow> nat) \<Rightarrow> nat \<Rightarrow> bench_pc \<Rightarrow> client \<Rightarrow> (bench_pc \<times> client) res option" where
  "bench_step rnd nr_query B_QUERY c =
     (if li c < nr_query
      then if nr_query div 100 = 0 then Some (Inl DivByZero)
           else map_option (\<lambda>r. ebind r (\<lambda>c'. Inr (B_QUERY, c'))) (bench_query rnd c)
      else Some (Inr (B_WAIT, c)))"
| "bench_step rnd nr_query B_WAIT c = Some (Inr (if finished (sem c) CLIENT_QDEPTH then B_DONE else B_WAIT, c))"
| "bench_step rnd nr_query B_DONE c = Some (Inr (B_DONE, c))"

text \<open>The start of the phase, on a client whose semaphore is back at its initial value.\<close>

definition bench_begin :: "(nat \<Rightarrow> nat) \<Rightarrow> key_dist_t \<Rightarrow> int \<Rightarrow> int \<Rightarrow> client \<Rightarrow> client" where
  "bench_begin rnd dist query hotset c = c\<lparr>kg := set_key_dist rnd dist query hotset (kg c), li := 0, sent := []\<rparr>"

record bsys =
  bcl :: client
  bpc :: bench_pc
  backed :: nat

inductive bsys_step :: "(nat \<Rightarrow> nat) \<Rightarrow> nat \<Rightarrow> bsys \<Rightarrow> bsys \<Rightarrow> bool" for rnd n where
  b_main: "bench_step rnd n (bpc s) (bcl s) = Some (Inr (pc', c')) \<Longrightarrow> bsys_step rnd n s (s\<lparr>bcl := c', bpc := pc'\<rparr>)"
| b_ack: "backed s < length (sent (bcl s)) \<Longrightarrow> poll_ack (nr_type (sent (bcl s) ! backed s)) t (bcl s) = Inr c' \<Longrightarrow>
     bsys_step rnd n s (s\<lparr>bcl := c', backed := Suc (backed s)\<rparr>)"

inductive bsys_reachable :: "(nat \<Rightarrow> nat) \<Rightarrow> nat \<Rightarrow> client \<Rightarrow> bsys \<Rightarrow> bool" for rnd n c0 where
  bs_start: "bsys_reachable rnd n c0 \<lparr>bcl = c0, bpc = B_QUERY, backed = 0\<rparr>"
| bs_step: "bsys_reachable rnd n c0 s \<Longrightarrow> bsys_step rnd n s s' \<Longrightarrow> bsys_reachable rnd n c0 s'"

subsection \<open>The generator serves every query\<close>

definition kg_serves :: "keygen \<Rightarrow> bool" where
  "kg_serves g \<longleftrightarrow> length (key_pool g) = unat (keygen.nr_key g) \<and> keygen.nr_key g \<noteq> 0 \<and> (\<forall>k \<in> set (key_pool g). length k = KEY_LEN) \<and>
     (key_dist g = KEY_DIST_UNIFORM \<or>
      key_dist g = KEY_DIST_LOCALITY \<and> nr_hotset g \<noteq> 0 \<and> nr_coldset g \<noteq> 0 \<and> unat (nr_hotset g) + unat (nr_coldset g) = unat (keygen.nr_key g))"

lemma pool_at_ok: "i < length (key_pool g) \<Longrightarrow> pool_at g i = Inr (Some (key_pool g ! i))"
  by (simp add: pool_at_def)

lemma cold_index:
  assumes "unat (nr_hotset g) + unat (nr_coldset g) = length (key_pool g)" and "length (key_pool g) = unat (keygen.nr_key g)" and "nr_coldset g \<noteq> 0"
  shows "unat (nr_hotset g + of_nat (r mod unat (nr_coldset g))) < length (key_pool g)"
proof -
  let ?d = "r mod unat (nr_coldset g)"
  have d: "?d < unat (nr_coldset g)" using assms(3) by (simp add: unat_gt_0)
  moreover have s: "length (key_pool g) < 18446744073709551616" using assms(2) unat_u64_lt [of "keygen.nr_key g"] by simp
  ultimately have "unat (of_nat ?d :: u64) = ?d" using assms(1) by (intro unat_of_nat_u64) linarith
  then show ?thesis using unat_add_u64 [of "nr_hotset g" "of_nat ?d"] d s assms(1) by simp
qed

lemma get_next_key_serves:
  assumes "kg_serves g"
  shows "\<exists>k g'. get_next_key rnd g = Inr (Some k, g') \<and> k \<in> set (key_pool g) \<and> key_pool g' = key_pool g \<and> kg_serves g'"
proof -
  have len: "length (key_pool g) = unat (keygen.nr_key g)" "0 < unat (keygen.nr_key g)" "keygen.nr_key g \<noteq> 0" using assms by (auto simp: kg_serves_def unat_gt_0)
  have pos: "kg_serves (g\<lparr>rand_pos := p\<rparr>)" for p using assms by (simp add: kg_serves_def)
  show ?thesis
  proof (cases "key_dist g = KEY_DIST_UNIFORM")
    case True
    have "rnd (rand_pos g) mod unat (keygen.nr_key g) < length (key_pool g)" using len(1,2) by simp
    with True len(3) pos show ?thesis by (auto simp: get_next_key_def pool_at_ok Let_def)
  next
    case False
    then have d: "key_dist g = KEY_DIST_LOCALITY" "nr_hotset g \<noteq> 0" "nr_coldset g \<noteq> 0" "unat (nr_hotset g) + unat (nr_coldset g) = length (key_pool g)"
      using assms by (auto simp: kg_serves_def)
    then have "0 < unat (nr_hotset g)" "unat (nr_hotset g) \<le> length (key_pool g)" by (simp_all add: unat_gt_0)
    then have "rnd (Suc (rand_pos g)) mod unat (nr_hotset g) < length (key_pool g)" by (metis mod_less_divisor less_le_trans)
    with d pos cold_index [OF d(4) len(1) d(3)] show ?thesis by (auto simp: get_next_key_def pool_at_ok Let_def)
  qed
qed

text \<open>Setting the distribution keeps the keys of the pool; with locality the two sets are not empty when there are a hundred keys and the ratio is between 1 and 99.\<close>

lemma set_key_dist_serves:
  assumes len: "length (key_pool g) = unat (keygen.nr_key g)" "0 < unat (keygen.nr_key g)" and keys: "\<forall>k \<in> set (key_pool g). length k = KEY_LEN"
    and dist: "dist = KEY_DIST_UNIFORM \<or> dist = KEY_DIST_LOCALITY \<and> 100 \<le> unat (keygen.nr_key g) \<and> 0 < r \<and> r < 100"
  shows "kg_serves (set_key_dist rnd dist q r g) \<and> set (key_pool (set_key_dist rnd dist q r g)) = set (key_pool g)"
proof (cases "dist = KEY_DIST_UNIFORM")
  case True
  with assms show ?thesis by (auto simp: set_key_dist_def kg_serves_def Let_def unat_gt_0)
next
  case False
  then have r: "dist = KEY_DIST_LOCALITY" "100 \<le> unat (keygen.nr_key g)" "0 < r" "r < 100" using dist by auto
  define g0 where "g0 = g\<lparr>key_dist := KEY_DIST_LOCALITY\<rparr>"
  have l: "length (key_pool g0) = unat (keygen.nr_key g0)" using len by (simp add: g0_def)
  note s1 = shuffle_key_pool_keeps [OF l, of rnd]
  note s2 = shuffle_key_pool_keeps [OF s1(5), of rnd]
  note s3 = shuffle_key_pool_keeps [OF s2(5), of rnd]
  let ?g = "set_key_dist rnd dist q r g" and ?h = "keygen.nr_key g div 100 * of_int r :: u64" and ?nr = "unat (keygen.nr_key g)"
  have f: "mset (key_pool ?g) = mset (key_pool g)" "keygen.nr_key ?g = keygen.nr_key g" "nr_hotset ?g = ?h" "nr_coldset ?g = keygen.nr_key g - ?h" "key_dist ?g = KEY_DIST_LOCALITY"
    using s1 s2 s3 r(1) by (simp_all add: set_key_dist_def Let_def g0_def)
  have hb: "unat ?h = ?nr div 100 * nat r" "unat ?h \<le> ?nr" using hotset_bound [of r "keygen.nr_key g"] r(3,4) by simp_all
  have "0 < ?nr div 100" using r(2) by (simp add: div_greater_zero_iff)
  then have "0 < unat ?h" "?nr div 100 * nat r < ?nr div 100 * 100" using hb(1) r(3,4) by auto
  moreover have "?nr div 100 * 100 \<le> ?nr" by simp
  ultimately have h: "0 < unat ?h" "unat ?h < ?nr" using hb(1) by linarith+
  have cold: "unat (keygen.nr_key g - ?h) = ?nr - unat ?h" using hb(2) by (simp add: unat_diff)
  have "?h \<noteq> 0" "keygen.nr_key g - ?h \<noteq> 0" "keygen.nr_key g \<noteq> 0" using h cold by (auto simp: unat_gt_0 [symmetric])
  moreover have "unat ?h + unat (keygen.nr_key g - ?h) = ?nr" using cold hb(2) by simp
  moreover have "length (key_pool ?g) = ?nr" "set (key_pool ?g) = set (key_pool g)" using mset_eq_length [OF f(1)] mset_eq_setD [OF f(1)] len(1) by simp_all
  ultimately show ?thesis using f(2-5) keys by (simp add: kg_serves_def)
qed

subsection \<open>The invariant of the phase\<close>

definition query_of :: "byte list list \<Rightarrow> u32 \<Rightarrow> nat \<Rightarrow> netreq \<Rightarrow> bool" where
  "query_of pool s0 j m \<longleftrightarrow> (\<exists>k \<in> set pool. m = bench_req k (s0 + of_nat (Suc j)))"

definition bsys_inv :: "byte list list \<Rightarrow> u32 \<Rightarrow> nat \<Rightarrow> bsys \<Rightarrow> bool" where
  "bsys_inv pool s0 n s \<longleftrightarrow> (let c = bcl s in
     kg_serves (kg c) \<and> key_pool (kg c) = pool \<and> li c = length (sent c) \<and> li c \<le> n \<and> seq_num_global c = s0 + of_nat (li c) \<and>
     (\<forall>j < length (sent c). query_of pool s0 j (sent c ! j)) \<and> backed s \<le> length (sent c) \<and>
     sem c = CLIENT_QDEPTH - int (li c - backed s) \<and> 0 \<le> sem c \<and>
     (bpc s \<in> {B_WAIT, B_DONE} \<longrightarrow> li c = n) \<and> (bpc s = B_DONE \<longrightarrow> backed s = n))"

lemma bench_query_ok:
  assumes inv: "bsys_inv pool s0 n s" and pc: "bpc s = B_QUERY" and lt: "li (bcl s) < n" and room: "sem (bcl s) \<noteq> 0"
  shows "\<exists>c'. bench_query rnd (bcl s) = Some (Inr c') \<and> bsys_inv pool s0 n (s\<lparr>bcl := c', bpc := B_QUERY\<rparr>) \<and> li c' = Suc (li (bcl s))"
proof -
  let ?c = "bcl s"
  have i: "kg_serves (kg ?c)" "key_pool (kg ?c) = pool" using inv by (simp_all add: bsys_inv_def Let_def)
  from get_next_key_serves [OF i(1), of rnd] obtain k g' where k: "get_next_key rnd (kg ?c) = Inr (Some k, g')" "k \<in> set pool" "key_pool g' = pool" "kg_serves g'"
    using i(2) by auto
  have len: "length k = KEY_LEN" using i k(2) by (simp add: kg_serves_def)
  let ?c' = "?c\<lparr>kg := g', sem := sem ?c - 1, seq_num_global := seq_num_global ?c + 1, li := Suc (li ?c), sent := sent ?c @ [bench_req k (seq_num_global ?c + 1)]\<rparr>"
  have run: "bench_query rnd ?c = Some (Inr ?c')" using k(1) len room by (simp add: bench_query_def req_in_def)
  have "query_of pool s0 (length (sent ?c)) (bench_req k (seq_num_global ?c + 1))"
    using inv k(2) by (auto simp: query_of_def bsys_inv_def Let_def algebra_simps)
  then have "bsys_inv pool s0 n (s\<lparr>bcl := ?c', bpc := B_QUERY\<rparr>)"
    using inv k(3,4) lt room by (auto simp: bsys_inv_def Let_def nth_append less_Suc_eq Suc_diff_le algebra_simps)
  with run show ?thesis by auto
qed

lemma bench_step_query:
  assumes "li c < n" and "bench_step rnd n B_QUERY c = Some (Inr (pc', c'))"
  shows "pc' = B_QUERY \<and> bench_query rnd c = Some (Inr c') \<and> sem c \<noteq> 0"
proof -
  have "map_option (\<lambda>r. ebind r (\<lambda>c'. Inr (B_QUERY, c'))) (bench_query rnd c) = Some (Inr (pc', c'))" using assms by (simp split: if_splits)
  then have "pc' = B_QUERY \<and> bench_query rnd c = Some (Inr c')" by (auto simp: res_simps)
  then show ?thesis by (auto simp: bench_query_def req_in_def split: if_splits)
qed

lemma bsys_inv_main:
  assumes inv: "bsys_inv pool s0 n s" and st: "bench_step rnd n (bpc s) (bcl s) = Some (Inr (pc', c'))"
  shows "bsys_inv pool s0 n (s\<lparr>bcl := c', bpc := pc'\<rparr>)"
proof (cases "bpc s")
  case B_QUERY
  show ?thesis
  proof (cases "li (bcl s) < n")
    case True
    with st B_QUERY have q: "pc' = B_QUERY" "bench_query rnd (bcl s) = Some (Inr c')" "sem (bcl s) \<noteq> 0" using bench_step_query by metis+
    from bench_query_ok [OF inv B_QUERY True q(3), of rnd] q(1,2) show ?thesis by auto
  next
    case False
    with st B_QUERY have "pc' = B_WAIT" "c' = bcl s" by simp_all
    with inv False show ?thesis by (auto simp: bsys_inv_def Let_def)
  qed
next
  case B_WAIT
  with st have e: "pc' = (if finished (sem (bcl s)) CLIENT_QDEPTH then B_DONE else B_WAIT)" "c' = bcl s" by auto
  with inv B_WAIT show ?thesis by (auto simp: bsys_inv_def Let_def finished_def)
next
  case B_DONE
  with st inv show ?thesis by (simp add: bsys_inv_def Let_def)
qed

lemma poll_ack_get: "poll_ack ty t c = Inr c' \<Longrightarrow> \<exists>tb. c' = c\<lparr>cdf_table := tb, sem := sem c + 1\<rparr>"
  by (auto simp: poll_ack_def req_out_def res_simps)

lemma bsys_inv_step: "bsys_step rnd n s s' \<Longrightarrow> bsys_inv pool s0 n s \<Longrightarrow> bsys_inv pool s0 n s'"
proof (induction rule: bsys_step.induct)
  case (b_main s pc' c')
  then show ?case by (intro bsys_inv_main)
next
  case (b_ack s t c')
  obtain tb where "c' = (bcl s)\<lparr>cdf_table := tb, sem := sem (bcl s) + 1\<rparr>" using poll_ack_get [OF b_ack(2)] by blast
  moreover have "bpc s \<noteq> B_DONE" using b_ack(1,3) by (auto simp: bsys_inv_def Let_def)
  ultimately show ?case using b_ack(1,3) by (auto simp: bsys_inv_def Let_def Suc_diff_le)
qed

text \<open>The steps that change the state decrease this measure.\<close>

definition bench_measure :: "nat \<Rightarrow> bsys \<Rightarrow> nat" where
  "bench_measure n s = 3 * (n - li (bcl s)) + (n - backed s) + (case bpc s of B_QUERY \<Rightarrow> 2 | B_WAIT \<Rightarrow> 1 | B_DONE \<Rightarrow> 0)"

lemma bsys_step_measure: "bsys_step rnd n s s' \<Longrightarrow> bsys_inv pool s0 n s \<Longrightarrow> s' \<noteq> s \<Longrightarrow> bench_measure n s' < bench_measure n s"
proof (induction rule: bsys_step.induct)
  case (b_main s pc' c')
  then have ne: "(pc', c') \<noteq> (bpc s, bcl s)" by (cases s) auto
  show ?case
  proof (cases "bpc s")
    case B_QUERY
    show ?thesis
    proof (cases "li (bcl s) < n")
      case True
      with b_main(1) B_QUERY have q: "pc' = B_QUERY" "bench_query rnd (bcl s) = Some (Inr c')" "sem (bcl s) \<noteq> 0" using bench_step_query by metis+
      from bench_query_ok [OF b_main(2) B_QUERY True q(3), of rnd] q(1,2) B_QUERY True show ?thesis by (auto simp: bench_measure_def)
    next
      case False
      with b_main(1) B_QUERY show ?thesis by (simp add: bench_measure_def)
    qed
  next
    case B_WAIT
    with b_main(1) ne show ?thesis by (auto simp: bench_measure_def split: if_splits)
  next
    case B_DONE
    with b_main(1) ne show ?thesis by simp
  qed
next
  case (b_ack s t c')
  obtain tb where "c' = (bcl s)\<lparr>cdf_table := tb, sem := sem (bcl s) + 1\<rparr>" using poll_ack_get [OF b_ack(2)] by blast
  with b_ack(1,3) show ?case by (auto simp: bench_measure_def bsys_inv_def Let_def)
qed

lemma poll_ack_latency:
  assumes "0 \<le> t"
  shows "if t < 10 * int CDF_TABLE_MAX then \<exists>c'. poll_ack ty t c = Inr c' else ty = REQ_TYPE_GET \<longrightarrow> poll_ack ty t c = Inl OutOfBounds"
proof (cases "t < 10 * int CDF_TABLE_MAX")
  case True
  with lat_bucket [OF assms] assms show ?thesis by (simp add: poll_ack_def collect_latency_def Let_def)
next
  case False
  with collect_latency_overflow show ?thesis by (simp add: poll_ack_def)
qed

lemma bsys_progress:
  assumes inv: "bsys_inv pool s0 n s" and nd: "bpc s \<noteq> B_DONE" and many: "100 \<le> n"
  shows "\<exists>s'. bsys_step rnd n s s' \<and> s' \<noteq> s"
proof -
  have ack: "\<exists>s'. bsys_step rnd n s s' \<and> s' \<noteq> s" if lt: "backed s < length (sent (bcl s))"
  proof -
    obtain c' where "poll_ack (nr_type (sent (bcl s) ! backed s)) 0 (bcl s) = Inr c'" using poll_ack_latency [of 0] by (auto simp: config_defs)
    from bsys_step.b_ack [OF lt this, of rnd n] show ?thesis by (intro exI [of _ "s\<lparr>bcl := c', backed := Suc (backed s)\<rparr>"]) (cases s, simp)
  qed
  have go: "\<exists>s'. bsys_step rnd n s s' \<and> s' \<noteq> s" if "bench_step rnd n (bpc s) (bcl s) = Some (Inr (pc', c'))" "pc' \<noteq> bpc s \<or> li c' \<noteq> li (bcl s)" for pc' c'
    using bsys_step.b_main [OF that(1)] that(2) by (intro exI [of _ "s\<lparr>bcl := c', bpc := pc'\<rparr>"]) (cases s, auto)
  show ?thesis
  proof (cases "bpc s")
    case B_QUERY
    show ?thesis
    proof (cases "li (bcl s) < n")
      case lt: True
      show ?thesis
      proof (cases "sem (bcl s) = 0")
        case True
        then have "backed s < length (sent (bcl s))" using inv by (auto simp: bsys_inv_def Let_def CLIENT_QDEPTH_def)
        then show ?thesis by (rule ack)
      next
        case False
        from bench_query_ok [OF inv B_QUERY lt False, of rnd] obtain c' where "bench_query rnd (bcl s) = Some (Inr c')" "li c' = Suc (li (bcl s))" by blast
        with B_QUERY lt many show ?thesis by (intro go [of B_QUERY c']) (auto simp: div_eq_0_iff)
      qed
    next
      case False
      with B_QUERY show ?thesis by (intro go [of B_WAIT "bcl s"]) auto
    qed
  next
    case B_WAIT
    show ?thesis
    proof (cases "finished (sem (bcl s)) CLIENT_QDEPTH")
      case True
      with B_WAIT show ?thesis by (intro go [of B_DONE "bcl s"]) auto
    next
      case False
      with inv B_WAIT have "backed s < length (sent (bcl s))" by (auto simp: bsys_inv_def Let_def finished_def)
      then show ?thesis by (rule ack)
    qed
  qed (use nd in simp)
qed

lemma bench_step_safe:
  assumes inv: "bsys_inv pool s0 n s" and many: "100 \<le> n"
  shows "bench_step rnd n (bpc s) (bcl s) \<noteq> Some (Inl e)"
proof (cases "bpc s = B_QUERY \<and> li (bcl s) < n \<and> sem (bcl s) \<noteq> 0")
  case True
  with bench_query_ok [OF inv, of rnd] many show ?thesis by (auto simp: div_eq_0_iff)
next
  case False
  with many show ?thesis by (cases "bpc s") (auto simp: bench_query_def req_in_def div_eq_0_iff)
qed

lemma bench_begin_inv:
  assumes inv: "csys_inv pool s" and ended: "cpc s = L_DONE" and n: "0 < length pool"
    and dist: "dist = KEY_DIST_UNIFORM \<or> dist = KEY_DIST_LOCALITY \<and> 100 \<le> length pool \<and> 0 < r \<and> r < 100"
  shows "\<exists>pool'. set pool' = set pool \<and> bsys_inv pool' (of_nat (length pool)) m \<lparr>bcl = bench_begin rnd dist q r (cl s), bpc = B_QUERY, backed = 0\<rparr>"
proof -
  note i = csys_invD [OF inv]
  have fin: "li (cl s) = length pool" "sem (cl s) = CLIENT_QDEPTH" "seq_num_global (cl s) = of_nat (length pool)" using i(6,10,13,14) ended by auto
  have "kg_serves (set_key_dist rnd dist q r (kg (cl s))) \<and> set (key_pool (set_key_dist rnd dist q r (kg (cl s)))) = set (key_pool (kg (cl s)))"
    by (rule set_key_dist_serves) (use i(1,2,5) n dist in auto)
  with fin i(1) show ?thesis
    by (intro exI [of _ "key_pool (set_key_dist rnd dist q r (kg (cl s)))"]) (simp add: bsys_inv_def Let_def bench_begin_def CLIENT_QDEPTH_def)
qed

lemma bsys_inv_reachable: "bsys_reachable rnd n c0 s \<Longrightarrow> bsys_inv pool s0 n \<lparr>bcl = c0, bpc = B_QUERY, backed = 0\<rparr> \<Longrightarrow> bsys_inv pool s0 n s"
  by (induction rule: bsys_reachable.induct) (auto intro: bsys_inv_step)

subsection \<open>Properties\<close>

text \<open>
  C38: the query phase after the load. With at least a hundred queries, uniformly or with locality over at least a hundred keys and a hot set between 1 and 99 percent, every message of the phase is a GET of a key of the pool, numbered on from the load;
  at most \<open>CLIENT_QDEPTH\<close> are outstanding; no step of the main thread crashes, and the poller counts every acknowledgement whose latency is less than a second, while one of a second or more is counted behind the end of its table; until the
  phase has ended some step changes the state, and every such step decreases a measure; at the end all queries have been sent and acknowledged.
\<close>

theorem client_queries_pool:
  assumes "0 < nr" and "bench_init rnd0 nr = Inr c0" and "csys_reachable (unat nr) c0 s" and "cpc s = L_DONE"
    and "dist = KEY_DIST_UNIFORM \<or> dist = KEY_DIST_LOCALITY \<and> 100 \<le> unat nr \<and> 0 < r \<and> r < 100"
    and "bsys_reachable rnd n (bench_begin rnd dist q r (cl s)) b" and "100 \<le> n"
  shows "(\<forall>j < length (sent (bcl b)). \<exists>k \<in> set (key_pool (kg c0)). sent (bcl b) ! j = bench_req k (of_nat (unat nr + Suc j))) \<and>
     length (sent (bcl b)) \<le> n \<and> int (length (sent (bcl b)) - backed b) \<le> CLIENT_QDEPTH \<and>
     (\<forall>e. bench_step rnd n (bpc b) (bcl b) \<noteq> Some (Inl e)) \<and>
     (\<forall>t \<ge> 0. if t < 10 * int CDF_TABLE_MAX then \<exists>c. poll_ack REQ_TYPE_GET t (bcl b) = Inr c else poll_ack REQ_TYPE_GET t (bcl b) = Inl OutOfBounds) \<and>
     (if bpc b = B_DONE then length (sent (bcl b)) = n \<and> backed b = n else \<exists>b'. bsys_step rnd n b b' \<and> b' \<noteq> b) \<and>
     (\<forall>b'. bsys_step rnd n b b' \<and> b' \<noteq> b \<longrightarrow> bench_measure n b' < bench_measure n b)"
proof -
  let ?pool = "key_pool (kg c0)"
  have len: "length ?pool = unat nr" using bench_init_inv [OF assms(1,2)] by blast
  have "0 < unat nr" using assms(1) by (simp add: unat_gt_0 word_neq_0_conv)
  then obtain pool where pool: "set pool = set ?pool" "bsys_inv pool (of_nat (unat nr)) n \<lparr>bcl = bench_begin rnd dist q r (cl s), bpc = B_QUERY, backed = 0\<rparr>"
    using bench_begin_inv [OF csys_inv_reachable [OF assms(1-3)] assms(4), of dist r n rnd q] assms(5) len by auto
  note inv = bsys_inv_reachable [OF assms(6) pool(2)]
  have q: "\<exists>k \<in> set ?pool. sent (bcl b) ! j = bench_req k (of_nat (unat nr + Suc j))" if "j < length (sent (bcl b))" for j
  proof -
    have "query_of pool (of_nat (unat nr)) j (sent (bcl b) ! j)" using inv that unfolding bsys_inv_def Let_def by blast
    then show ?thesis unfolding query_of_def of_nat_add pool(1) .
  qed
  have w: "length (sent (bcl b)) \<le> n" "int (length (sent (bcl b)) - backed b) \<le> CLIENT_QDEPTH" "bpc b = B_DONE \<Longrightarrow> length (sent (bcl b)) = n \<and> backed b = n"
    using inv by (auto simp: bsys_inv_def Let_def)
  have lat: "\<forall>t \<ge> 0. if t < 10 * int CDF_TABLE_MAX then \<exists>c. poll_ack REQ_TYPE_GET t (bcl b) = Inr c else poll_ack REQ_TYPE_GET t (bcl b) = Inl OutOfBounds"
    using poll_ack_latency [where ty = REQ_TYPE_GET and c = "bcl b"] by simp
  have dec: "\<forall>b'. bsys_step rnd n b b' \<and> b' \<noteq> b \<longrightarrow> bench_measure n b' < bench_measure n b" using bsys_step_measure [OF _ inv] by blast
  show ?thesis using q w lat dec bench_step_safe [OF inv assms(7)] bsys_progress [OF inv _ assms(7)] by (intro conjI) (simp_all del: bench_step.simps)
qed

theorem client_queries_pool_witness:
  "\<exists>c0 s. bench_init (\<lambda>k. k) 300 = Inr c0 \<and> csys_reachable 300 c0 s \<and> cpc s = L_DONE \<and>
     (\<exists>b'. bsys_step (\<lambda>k. k) 200 \<lparr>bcl = bench_begin (\<lambda>k. k) KEY_DIST_LOCALITY 80 20 (cl s), bpc = B_QUERY, backed = 0\<rparr> b')"
proof -
  obtain c0 where c0: "bench_init (\<lambda>k. k) 300 = Inr c0" using bench_init_ok by blast
  obtain s where s: "csys_reachable (unat (300 :: u64)) c0 s" "cpc s = L_DONE" using load_reachable_end [OF _ c0] by auto
  from client_queries_pool [OF _ c0 s _ bs_start, of KEY_DIST_LOCALITY 20 200 "\<lambda>k. k" 80] s c0
  show ?thesis by (intro exI [of _ c0] exI [of _ s]) auto
qed

end
