(* ===== verification/Ack_Wire.thy ===== *)
theory Ack_Wire
  imports Net
begin

section \<open>Acknowledgements on the wire (\<open>src/util.c\<close>, \<open>include/type.h\<close>)\<close>

text \<open>
  The packed \<open>struct netack\<close> and its 13 bytes on the wire, and the functions of \<open>util.c\<close> that put messages and acknowledgements on a socket and read an
  acknowledgement from one. They are built without \<open>SEND_ACK_BUFFERING\<close>, the variant of \<open>Ack_Buffer\<close>, and without \<open>YCSB\<close>. A \<open>write\<close> has the number of bytes the socket accepts, or a negative number for an
  error, as an argument: the functions return it and make one call only.
\<close>

subsection \<open>\<open>struct netack\<close>\<close>

definition NETACK_SIZE :: nat where "NETACK_SIZE = 13"

definition netack_bytes :: "netack \<Rightarrow> byte list" where
  "netack_bytes na = bytes_of_word 4 (ack_seq_num na) @ type_code (ack_type na) # bytes_of_word 8 (word_of_int (elapsed_time na) :: u64)"

definition netack_of_bytes :: "byte list \<Rightarrow> netack" where
  "netack_of_bytes bs =
     \<lparr>ack_seq_num = word_of_bytes (take 4 bs), ack_type = type_of_code (bs ! 4),
      elapsed_time = sint (word_of_bytes (take 8 (drop 5 bs)) :: u64)\<rparr>"

definition netack_wf :: "netack \<Rightarrow> bool" where
  "netack_wf na \<longleftrightarrow> - (2 ^ 63) \<le> elapsed_time na \<and> elapsed_time na < 2 ^ 63 \<and>
     (case ack_type na of REQ_TYPE_OTHER b \<Rightarrow> b \<notin> {0, 1, 2, 3, 4, 5} | _ \<Rightarrow> True)"

lemma length_netack_bytes [simp]: "length (netack_bytes na) = NETACK_SIZE"
  by (simp add: netack_bytes_def NETACK_SIZE_def)

lemma NETACK_SIZE_pos [simp]: "0 < NETACK_SIZE"
  by (simp add: NETACK_SIZE_def)

lemma sint_time: "- (2 ^ 63) \<le> t \<Longrightarrow> t < 2 ^ 63 \<Longrightarrow> sint (word_of_int t :: u64) = t"
  by (simp add: signed_take_bit_int_eq_self sint_sbintrunc')

lemma netack_decode_encode: "netack_wf na \<Longrightarrow> netack_of_bytes (netack_bytes na) = na"
  by (simp add: netack_of_bytes_def netack_bytes_def netack_wf_def type_of_code_code sint_time nth_append)

lemma list_13:
  assumes "length bs = 13"
  shows "bs = take 4 bs @ (bs ! 4) # take 8 (drop 5 bs)"
proof (rule nth_equalityI)
  fix i assume "i < length bs"
  then show "bs ! i = (take 4 bs @ (bs ! 4) # take 8 (drop 5 bs)) ! i"
    using assms by (cases "i < 4"; cases "i = 4") (auto simp: nth_append nth_Cons' intro: arg_cong)
qed (use assms in simp)

lemma netack_encode_decode:
  assumes "length bs = NETACK_SIZE"
  shows "netack_bytes (netack_of_bytes bs) = bs \<and> netack_wf (netack_of_bytes bs)"
proof -
  from assms have l: "length bs = 13" by (simp add: NETACK_SIZE_def)
  have "netack_bytes (netack_of_bytes bs) = take 4 bs @ (bs ! 4) # take 8 (drop 5 bs)"
    using l by (simp add: netack_bytes_def netack_of_bytes_def bytes_of_word_of_bytes)
  moreover have "netack_wf (netack_of_bytes bs)"
    using sint_lt [of "word_of_bytes (take 8 (drop 5 bs)) :: u64"] sint_ge [of "word_of_bytes (take 8 (drop 5 bs)) :: u64"]
    by (auto simp: netack_wf_def netack_of_bytes_def type_of_code_def)
  ultimately show ?thesis using list_13 [OF l] by simp
qed

subsection \<open>Writing to and reading from a socket\<close>

text \<open>\<open>write(sock, bs, n)\<close>: the result and the bytes that go out, when the socket takes \<open>r\<close>.\<close>

definition sys_write :: "int \<Rightarrow> byte list \<Rightarrow> int \<times> byte list" where
  "sys_write r bs = (if r < 0 then (-1, []) else (int (length (take (nat r) bs)), take (nat r) bs))"

definition send_request :: "int \<Rightarrow> netreq \<Rightarrow> int \<times> byte list" where
  "send_request r nr = sys_write r (netreq_bytes nr)"

definition send_request_bulk :: "int \<Rightarrow> netreq list \<Rightarrow> nat \<Rightarrow> int \<times> byte list" where
  "send_request_bulk r nr_arr count = sys_write r (concat (map netreq_bytes (take count nr_arr)))"

definition send_ack_bytes :: "int \<Rightarrow> netack \<Rightarrow> int \<times> byte list" where
  "send_ack_bytes r na = sys_write r (netack_bytes na)"

definition recv_ack :: "sock_ev list \<Rightarrow> (int \<times> byte list \<times> sock_ev list) option" where
  "recv_ack es = read_sock NETACK_SIZE es"

text \<open>The bytes of acknowledgements written one after the other.\<close>

fun send_acks :: "(int \<times> netack) list \<Rightarrow> byte list" where
  "send_acks [] = []"
| "send_acks ((r, na) # as) = snd (send_ack_bytes r na) @ send_acks as"

lemma send_ack_whole: "int NETACK_SIZE \<le> r \<Longrightarrow> send_ack_bytes r na = (int NETACK_SIZE, netack_bytes na)"
  by (simp add: send_ack_bytes_def sys_write_def)

lemma send_acks_whole: "\<forall>(r, na) \<in> set as. int NETACK_SIZE \<le> r \<Longrightarrow> send_acks as = concat (map (netack_bytes \<circ> snd) as)"
  by (induction as) (auto simp: send_ack_whole)

subsection \<open>Properties\<close>

text \<open>
  C22: acknowledgements survive the wire. Every 13 bytes are the encoding of the well-formed acknowledgement they decode to, and a well-formed one is decoded from its
  encoding. When the socket takes every acknowledgement whole, the receiver gets them all: \<open>recv_ack\<close> returns the first one, and a bulk read returns a positive number of them, in
  order, from any cutting of the stream into chunks, and leaves the others.
\<close>

theorem acks_survive_wire:
  assumes wf: "\<forall>(r, na) \<in> set as. netack_wf na \<and> int NETACK_SIZE \<le> r" and es: "live_stream es" "hd es \<noteq> SOCK_ERR" "stream_bytes es = send_acks as" "as \<noteq> []"
    and mx: "0 < mx"
  shows "(\<exists>buf es'. recv_ack es = Some (int NETACK_SIZE, buf, es') \<and> netack_of_bytes buf = snd (hd as)) \<and>
     (\<exists>k buf es'. 0 < k \<and> k \<le> length as \<and> read_sock_bulk mx NETACK_SIZE es = Some (int (length buf), buf, es') \<and>
        blocks NETACK_SIZE netack_of_bytes buf = map snd (take k as) \<and> stream_bytes es' = send_acks (drop k as)) \<and>
     (\<forall>bs. length bs = NETACK_SIZE \<longrightarrow> netack_wf (netack_of_bytes bs) \<and> netack_bytes (netack_of_bytes bs) = bs)"
proof -
  have w: "\<forall>(r, na) \<in> set as. int NETACK_SIZE \<le> r" and dec: "\<forall>na \<in> set (map snd as). length (netack_bytes na) = NETACK_SIZE \<and> netack_of_bytes (netack_bytes na) = na"
    using wf netack_decode_encode by fastforce+
  have bytes: "stream_bytes es = concat (map netack_bytes (map snd as))" using es(3) send_acks_whole [OF w] by simp
  have len: "length (stream_bytes es) = length as * NETACK_SIZE" using concat_blocks [of "map snd as" netack_bytes NETACK_SIZE 0] bytes by simp
  then have "NETACK_SIZE \<le> length (stream_bytes es)" using es(4) by (cases as) simp_all
  with read_sock_from_ok [OF es(1), of "[]" NETACK_SIZE] es(2) obtain buf es' where
    r: "recv_ack es = Some (int NETACK_SIZE, buf, es')" "length buf = NETACK_SIZE" "stream_bytes es = buf @ stream_bytes es'"
    by (auto simp: recv_ack_def read_sock_def)
  obtain a as' where as: "as = a # as'" using es(4) by (cases as) auto
  then have "buf = netack_bytes (snd a)" using r(2,3) bytes by (simp add: append_eq_append_conv)
  then have one: "\<exists>buf es'. recv_ack es = Some (int NETACK_SIZE, buf, es') \<and> netack_of_bytes buf = snd (hd as)" using r(1) as dec by auto
  obtain k buf es' where k: "0 < k" "k \<le> length as" "read_sock_bulk mx NETACK_SIZE es = Some (int (length buf), buf, es')"
    "buf = concat (map netack_bytes (take k (map snd as)))" "stream_bytes es' = concat (map netack_bytes (drop k (map snd as)))"
    using read_blocks [OF es(1,2) bytes _ _ NETACK_SIZE_pos mx] es(4) dec by auto
  have "blocks NETACK_SIZE netack_of_bytes buf = take k (map snd as)" 
    unfolding k(4) using dec by (intro blocks_concat) (auto simp: take_map dest!: in_set_takeD)
  moreover have "\<forall>(r, na) \<in> set (drop k as). int NETACK_SIZE \<le> r" using w set_drop_subset [of k as] by blast
  from send_acks_whole [OF this] k(5) have "stream_bytes es' = send_acks (drop k as)" by (simp add: drop_map)
  ultimately have "\<exists>k buf es'. 0 < k \<and> k \<le> length as \<and> read_sock_bulk mx NETACK_SIZE es = Some (int (length buf), buf, es') \<and>
        blocks NETACK_SIZE netack_of_bytes buf = map snd (take k as) \<and> stream_bytes es' = send_acks (drop k as)"
    using k(1-3) by (intro exI [of _ k] exI [of _ buf] exI [of _ es']) (simp add: take_map)
  with one netack_encode_decode show ?thesis by blast
qed

definition sample_ack :: netack where
  "sample_ack = \<lparr>ack_seq_num = 70000, ack_type = REQ_TYPE_GET, elapsed_time = -1\<rparr>"

theorem acks_survive_wire_witness:
  "\<exists>buf es'. recv_ack [SOCK_DATA (send_acks [(13, sample_ack)])] = Some (13, buf, es') \<and> netack_of_bytes buf = sample_ack"
proof -
  have wf: "\<forall>(r, na) \<in> set [(13, sample_ack)]. netack_wf na \<and> int NETACK_SIZE \<le> r"
    by (simp add: sample_ack_def netack_wf_def NETACK_SIZE_def)
  have "send_acks [(13, sample_ack)] = netack_bytes sample_ack" by (simp add: send_ack_whole NETACK_SIZE_def)
  moreover have "netack_bytes sample_ack \<noteq> []" by (simp add: netack_bytes_def)
  ultimately show ?thesis
    using acks_survive_wire [OF wf, of "[SOCK_DATA (send_acks [(13, sample_ack)])]" 1] by (auto simp: NETACK_SIZE_def)
qed

text \<open>
  A socket of the server does not block, and nobody looks at the result of \<open>send_ack\<close>: an acknowledgement of which the socket takes only a part, or
  nothing, is cut short on the wire, and what follows is not on a boundary of objects any more.
\<close>

lemma short_ack_misaligns:
  assumes "0 \<le> r" and "r < int NETACK_SIZE" and "\<forall>(q, na) \<in> set as. int NETACK_SIZE \<le> q"
  shows "send_acks ((r, na) # as) = take (nat r) (netack_bytes na) @ concat (map (netack_bytes \<circ> snd) as) \<and>
     length (send_acks ((r, na) # as)) mod NETACK_SIZE = nat r"
proof -
  have b: "send_acks ((r, na) # as) = take (nat r) (netack_bytes na) @ concat (map (netack_bytes \<circ> snd) as)"
    using assms(1) send_acks_whole [OF assms(3)] by (simp add: send_ack_bytes_def sys_write_def)
  have "length (concat (map (netack_bytes \<circ> snd) as)) = length as * NETACK_SIZE"
    using concat_blocks [of as "netack_bytes \<circ> snd" NETACK_SIZE 0] by simp
  with b assms(1,2) show ?thesis by (simp add: NETACK_SIZE_def mod_mult_self2 mult.commute)
qed

lemma failed_ack_lost: "send_acks ((-1, na) # as) = send_acks as"
  by (simp add: send_ack_bytes_def sys_write_def)

end
