(* ===== verification/Client_Main.thy ===== *)
theory Client_Main
  imports Client_Bench Ack_Wire
begin

section \<open>The threads of the client (\<open>main\<close> and \<open>ack_poller\<close> of \<open>src/client.cc\<close>)\<close>

text \<open>
  The client is its main thread (start the poller, connect, load, stop the poller, free) and the thread \<open>ack_poller\<close>, which reads acknowledgements from the
  socket and posts the semaphore once for each. They share the client of \<open>Client\<close>, the variable \<open>sock\<close> and the flag \<open>stopflag\<close>; each thread has a program counter.
  A step of the system is one of the main thread, one of the poller, or the arrival of acknowledgements for messages that were sent, cut into any chunks. What the
  descriptors have to read is part of the state: descriptor 0 is the standard input, because \<open>sock\<close> is 0 until \<open>socket\<close> returns.
\<close>

subsection \<open>Operations\<close>

datatype main_pc = M_SOCKET | M_CONNECT | M_LOAD load_pc | M_FREE | M_JOIN | M_RET

datatype poll_pc = P_TEST | P_READ int | P_ACKS "netack list" | P_RET

record cproc =
  pcl :: client
  psock :: int
  pstop :: bool
  pmain :: main_pc
  ppoll :: poll_pc
  pin :: "int \<Rightarrow> sock_ev list"
  pclosed :: "int list"
  pfreed :: bool
  packs :: "netack list"

text \<open>\<open>connect_server\<close> is two steps, because the poller reads \<open>sock\<close> in between: the arguments are the results of \<open>socket\<close> and \<open>connect\<close>.\<close>

definition connect_socket :: "int \<Rightarrow> cproc \<Rightarrow> cproc res" where
  "connect_socket fd s = (if fd = -1 then Inl Abort else Inr (s\<lparr>psock := fd, pmain := M_CONNECT\<rparr>))"

definition connect_server :: "bool \<Rightarrow> cproc \<Rightarrow> cproc res" where
  "connect_server connected s = (if \<not> connected then Inl Abort else Inr (s\<lparr>pmain := M_LOAD L_FILL\<rparr>))"

text \<open>
  \<open>bench_free\<close>: after the sleep the flag is set; then the loop around \<open>pthread_tryjoin_np\<close> runs until the poller has returned, the key generator is freed and the socket closed.
\<close>

fun bench_free :: "cproc \<Rightarrow> cproc" where
  "bench_free s =
     (if pmain s = M_FREE then s\<lparr>pstop := True, pmain := M_JOIN\<rparr>
      else if ppoll s = P_RET then s\<lparr>pfreed := True, pclosed := psock s # pclosed s, pmain := M_RET\<rparr>
      else s)"

definition client_main :: "nat \<Rightarrow> int \<Rightarrow> bool \<Rightarrow> cproc \<Rightarrow> cproc res option" where
  "client_main nr_keys fd connected s =
     (case pmain s of
        M_SOCKET \<Rightarrow> Some (connect_socket fd s)
      | M_CONNECT \<Rightarrow> Some (connect_server connected s)
      | M_LOAD pc \<Rightarrow>
          if pc = L_DONE then Some (Inr (s\<lparr>pmain := M_FREE\<rparr>))
          else map_option (\<lambda>r. ebind r (\<lambda>(pc', c). Inr (s\<lparr>pcl := c, pmain := M_LOAD pc'\<rparr>))) (load_step nr_keys pc (pcl s))
      | M_FREE \<Rightarrow> Some (Inr (bench_free s))
      | M_JOIN \<Rightarrow> Some (Inr (bench_free s))
      | M_RET \<Rightarrow> Some (Inr s))"

text \<open>
  \<open>ack_poller\<close>: test the flag, call \<open>read_sock_bulk\<close> on the descriptor \<open>sock\<close> has at the call, process the acknowledgements one by one. A read from the socket that is not
  connected yet fails at once; \<open>None\<close>: the thread is in \<open>read\<close> and there is nothing to read.
\<close>

definition ack_poller :: "cproc \<Rightarrow> cproc res option" where
  "ack_poller s =
     (case ppoll s of
        P_TEST \<Rightarrow> Some (Inr (s\<lparr>ppoll := if pstop s then P_RET else P_READ (psock s)\<rparr>))
      | P_READ fd \<Rightarrow>
          if pmain s = M_CONNECT \<and> fd = psock s then Some (Inr (s\<lparr>ppoll := P_TEST\<rparr>))
          else (case read_sock_bulk 128 NETACK_SIZE (pin s fd) of
                  None \<Rightarrow> None
                | Some (len, buf, es) \<Rightarrow>
                    (let s1 = s\<lparr>pin := (pin s)(fd := es)\<rparr>
                     in if len = -1 then Some (Inr (s1\<lparr>ppoll := P_TEST\<rparr>))
                        else if len = 0 then Some (Inr (s1\<lparr>ppoll := P_RET, pclosed := psock s # pclosed s\<rparr>))
                        else Some (Inr (s1\<lparr>ppoll := P_ACKS (blocks NETACK_SIZE netack_of_bytes buf)\<rparr>))))
      | P_ACKS [] \<Rightarrow> Some (Inr (s\<lparr>ppoll := P_TEST\<rparr>))
      | P_ACKS (na # nas) \<Rightarrow>
          Some (ebind (poll_ack (ack_type na) (elapsed_time na) (pcl s)) (\<lambda>c. Inr (s\<lparr>pcl := c, ppoll := P_ACKS nas\<rparr>)))
      | P_RET \<Rightarrow> Some (Inr s))"

definition data_stream :: "sock_ev list \<Rightarrow> bool" where
  "data_stream es \<longleftrightarrow> list_all (\<lambda>e. case e of SOCK_DATA bs \<Rightarrow> bs \<noteq> [] | _ \<Rightarrow> False) es"

text \<open>The acknowledgements that may arrive: the next ones for the messages sent, of their types.\<close>

definition acks_for :: "netreq list \<Rightarrow> netack list \<Rightarrow> bool" where
  "acks_for nrs nas \<longleftrightarrow> length nas \<le> length nrs \<and> list_all2 (\<lambda>na nr. netack_wf na \<and> ack_type na = nr_type nr) nas (take (length nas) nrs)"

inductive cp_step :: "nat \<Rightarrow> cproc \<Rightarrow> cproc \<Rightarrow> bool" for n where
  cp_main: "client_main n fd connected s = Some (Inr s') \<Longrightarrow> 0 < fd \<Longrightarrow> cp_step n s s'"
| cp_poll: "ack_poller s = Some (Inr s') \<Longrightarrow> cp_step n s s'"
| cp_net: "acks_for (sent (pcl s)) (packs s @ nas) \<Longrightarrow> data_stream es \<Longrightarrow> stream_bytes es = concat (map netack_bytes nas) \<Longrightarrow>
     cp_step n s (s\<lparr>pin := (pin s)(psock s := pin s (psock s) @ es), packs := packs s @ nas\<rparr>)"

text \<open>After \<open>bench_init\<close>: the poller has been created, the socket has not.\<close>

definition client_start :: "client \<Rightarrow> sock_ev list \<Rightarrow> cproc" where
  "client_start c stdin =
     \<lparr>pcl = c, psock = 0, pstop = False, pmain = M_SOCKET, ppoll = P_TEST, pin = (\<lambda>fd. if fd = 0 then stdin else []), pclosed = [], pfreed = False, packs = []\<rparr>"

subsection \<open>Streams of acknowledgements\<close>

lemma data_stream_live: "data_stream es \<Longrightarrow> live_stream es"
  by (induction es rule: live_stream.induct) (auto simp: data_stream_def)

lemma data_stream_hd: "data_stream es \<Longrightarrow> es \<noteq> [] \<Longrightarrow> hd es \<noteq> SOCK_ERR"
  by (cases es) (auto simp: data_stream_def)

lemma data_stream_empty: "data_stream es \<Longrightarrow> stream_bytes es = [] \<Longrightarrow> es = []"
  by (cases es) (auto simp: data_stream_def split: sock_ev.splits)

lemma data_stream_append [simp]: "data_stream (es @ es') \<longleftrightarrow> data_stream es \<and> data_stream es'"
  by (simp add: data_stream_def)

lemma stream_bytes_append [simp]: "stream_bytes (es @ es') = stream_bytes es @ stream_bytes es'"
  by (induction es rule: stream_bytes.induct) simp_all

lemma sys_read_data: "data_stream es \<Longrightarrow> sys_read n es = Some (len, bs, es') \<Longrightarrow> data_stream es'"
  by (cases "(n, es)" rule: sys_read.cases) (auto simp: data_stream_def split: if_splits)

lemma read_sock_bulk_from_data: "data_stream es \<Longrightarrow> read_sock_bulk_from mx align buf es = Some (len, buf', es') \<Longrightarrow> data_stream es'"
proof (induction "stream_measure es" arbitrary: es buf rule: less_induct)
  case less
  show ?case
  proof (cases "length buf < mx")
    case True
    with less.prems(2) obtain l bs es1 where r: "sys_read (mx - length buf) es = Some (l, bs, es1)"
      by (subst (asm) read_sock_bulk_from.simps) (auto split: option.splits)
    have d: "data_stream es1" "stream_measure es1 < stream_measure es"
      using sys_read_data [OF less.prems(1) r] sys_read_live [OF data_stream_live [OF less.prems(1)] r] True by auto
    from less.prems(2) r True d(1) less.hyps [OF d(2,1)] show ?thesis
      by (subst (asm) read_sock_bulk_from.simps) (auto split: if_splits)
  next
    case False
    with less.prems show ?thesis by (subst (asm) read_sock_bulk_from.simps) auto
  qed
qed

text \<open>A read of the poller: nothing to read, or the next acknowledgements.\<close>

lemma read_acks:
  assumes es: "data_stream es" "stream_bytes es = concat (map netack_bytes nas)" and wf: "\<forall>na \<in> set nas. netack_wf na"
  shows "if nas = [] then es = [] \<and> read_sock_bulk 128 NETACK_SIZE es = None
     else \<exists>k buf es'. 0 < k \<and> k \<le> length nas \<and> read_sock_bulk 128 NETACK_SIZE es = Some (int (length buf), buf, es') \<and> 0 < length buf \<and>
       blocks NETACK_SIZE netack_of_bytes buf = take k nas \<and> data_stream es' \<and> stream_bytes es' = concat (map netack_bytes (drop k nas))"
proof (cases "nas = []")
  case True
  then have "es = []" using data_stream_empty es by simp
  with True show ?thesis by (simp add: read_sock_bulk_def read_sock_bulk_from.simps NETACK_SIZE_def)
next
  case False
  then have "es \<noteq> []" using es(2) by (cases nas) (auto simp: netack_bytes_def)
  note h = data_stream_hd [OF es(1) this]
  obtain k buf es' where k: "0 < k" "k \<le> length nas" "read_sock_bulk 128 NETACK_SIZE es = Some (int (length buf), buf, es')" "0 < length buf"
    "buf = concat (map netack_bytes (take k nas))" "stream_bytes es' = concat (map netack_bytes (drop k nas))"
    using read_blocks [OF data_stream_live [OF es(1)] h es(2) False, of NETACK_SIZE 128] by auto
  have "blocks NETACK_SIZE netack_of_bytes buf = take k nas"
    unfolding k(5) using wf by (intro blocks_concat) (auto simp: netack_decode_encode dest!: in_set_takeD)
  moreover have "data_stream es'" using read_sock_bulk_from_data [OF es(1)] k(3) by (auto simp: read_sock_bulk_def)
  ultimately show ?thesis using False k by auto
qed

subsection \<open>A poller that reads the connection\<close>

fun load_pc_of :: "main_pc \<Rightarrow> load_pc" where
  "load_pc_of M_SOCKET = L_FILL" | "load_pc_of M_CONNECT = L_FILL" | "load_pc_of (M_LOAD pc) = pc" | "load_pc_of _ = L_DONE"

fun poll_acks_of :: "poll_pc \<Rightarrow> netack list" where
  "poll_acks_of (P_ACKS nas) = nas" | "poll_acks_of _ = []"

text \<open>
  \<open>cp_inv pool s a\<close>: the client is that of a load phase of which \<open>a\<close> messages are acknowledged. The acknowledgements sent are those processed, those the
  poller holds, and those that are still to be read.
\<close>

definition cp_inv :: "byte list list \<Rightarrow> cproc \<Rightarrow> nat \<Rightarrow> bool" where
  "cp_inv pool s a \<longleftrightarrow> csys_inv pool \<lparr>cl = pcl s, cpc = load_pc_of (pmain s), acked = a\<rparr> \<and> acks_for (sent (pcl s)) (packs s) \<and> 0 < psock s \<and>
     a \<le> length (packs s) \<and> ppoll s \<in> {P_TEST, P_READ (psock s), P_RET} \<union> range P_ACKS \<and> (ppoll s = P_RET \<longrightarrow> pstop s) \<and>
     (pstop s \<longleftrightarrow> pmain s \<in> {M_JOIN, M_RET}) \<and> pmain s \<noteq> M_SOCKET \<and> (pmain s = M_RET \<longrightarrow> ppoll s = P_RET) \<and>
     pclosed s = (if pmain s = M_RET then [psock s] else []) \<and> (pfreed s \<longleftrightarrow> pmain s = M_RET) \<and>
     data_stream (pin s (psock s)) \<and>
     (\<exists>rest. drop a (packs s) = poll_acks_of (ppoll s) @ rest \<and> stream_bytes (pin s (psock s)) = concat (map netack_bytes rest))"

lemma acks_forD: "acks_for nrs nas \<Longrightarrow> length nas \<le> length nrs" "acks_for nrs nas \<Longrightarrow> i < length nas \<Longrightarrow> netack_wf (nas ! i) \<and> ack_type (nas ! i) = nr_type (nrs ! i)"
  by (auto simp: acks_for_def list_all2_conv_all_nth)

lemma acks_for_wf: "acks_for nrs nas \<Longrightarrow> \<forall>na \<in> set nas. netack_wf na"
  using acks_forD(2) by (metis in_set_conv_nth)

lemma acks_for_mono: "acks_for nrs nas \<Longrightarrow> acks_for (nrs @ nrs') nas"
  by (auto simp: acks_for_def)

lemma load_step_sent: "load_step n pc c = Some (Inr (pc', c')) \<Longrightarrow> \<exists>ms. sent c' = sent c @ ms"
  by (cases pc) (auto simp: load_fill_def split: if_splits option.splits prod.splits)

lemma cp_inv_main:
  assumes inv: "cp_inv pool s a" and st: "client_main (length pool) fd connected s = Some (Inr s')"
  shows "cp_inv pool s' a"
proof (cases "pmain s")
  case (M_LOAD pc)
  show ?thesis
  proof (cases "pc = L_DONE")
    case True
    with st M_LOAD have "s' = s\<lparr>pmain := M_FREE\<rparr>" by (simp add: client_main_def)
    with inv M_LOAD True show ?thesis by (auto simp: cp_inv_def)
  next
    case False
    with st M_LOAD obtain pc' c where l: "load_step (length pool) pc (pcl s) = Some (Inr (pc', c))" "s' = s\<lparr>pcl := c, pmain := M_LOAD pc'\<rparr>"
      by (auto simp: client_main_def res_simps)
    have "csys_inv pool \<lparr>cl = c, cpc = pc', acked = a\<rparr>"
      using csys_inv_load [of pool "\<lparr>cl = pcl s, cpc = pc, acked = a\<rparr>" pc' c] inv l(1) M_LOAD by (simp add: cp_inv_def)
    moreover have "acks_for (sent c) (packs s)" using load_step_sent [OF l(1)] inv acks_for_mono by (auto simp: cp_inv_def)
    ultimately show ?thesis using inv M_LOAD l(2) by (auto simp: cp_inv_def)
  qed
qed (use inv st in \<open>auto simp: cp_inv_def client_main_def connect_server_def split: if_splits\<close>)

lemma poll_ack_inv:
  assumes inv: "cp_inv pool s a" and p: "ppoll s = P_ACKS (na # nas)"
  shows "\<exists>c. poll_ack (ack_type na) (elapsed_time na) (pcl s) = Inr c \<and> cp_inv pool (s\<lparr>pcl := c, ppoll := P_ACKS nas\<rparr>) (Suc a)"
proof -
  let ?cs = "\<lparr>cl = pcl s, cpc = load_pc_of (pmain s), acked = a\<rparr>"
  obtain rest where d: "drop a (packs s) = (na # nas) @ rest" "stream_bytes (pin s (psock s)) = concat (map netack_bytes rest)"
    using inv p by (auto simp: cp_inv_def)
  have lt: "a < length (packs s)" using d(1) by (metis Cons_eq_appendI drop_all list.discI not_le)
  have na: "packs s ! a = na" using d(1) by (metis Cons_eq_appendI hd_drop_conv_nth list.sel(1) lt)
  have ci: "csys_inv pool ?cs" and af: "acks_for (sent (pcl s)) (packs s)" using inv by (simp_all add: cp_inv_def)
  have ls: "a < length (sent (pcl s))" using acks_forD(1) [OF af] lt by simp
  have ty: "ack_type na = nr_type (sent (pcl s) ! a)" using acks_forD(2) [OF af lt] na by simp
  then have "ack_type na = REQ_TYPE_SET" using sent_is_set [OF ci] ls by simp
  then have r: "poll_ack (ack_type na) (elapsed_time na) (pcl s) = Inr ((pcl s)\<lparr>sem := sem (pcl s) + 1\<rparr>)" by (simp add: poll_ack_set)
  with ty csys_step.c_ack [of ?cs "elapsed_time na" "(pcl s)\<lparr>sem := sem (pcl s) + 1\<rparr>" "length pool"] ls
  have "csys_step (length pool) ?cs (?cs\<lparr>cl := (pcl s)\<lparr>sem := sem (pcl s) + 1\<rparr>, acked := Suc a\<rparr>)" by simp
  from csys_inv_step [OF this ci] have ci': "csys_inv pool \<lparr>cl = (pcl s)\<lparr>sem := sem (pcl s) + 1\<rparr>, cpc = load_pc_of (pmain s), acked = Suc a\<rparr>" by simp
  have "drop (Suc a) (packs s) = nas @ rest" using d(1) by (metis append_Cons drop_Suc list.sel(3) tl_drop)
  then have "\<exists>r. drop (Suc a) (packs s) = nas @ r \<and> stream_bytes (pin s (psock s)) = concat (map netack_bytes r)" using d(2) by blast
  with ci' inv lt r p show ?thesis by (auto simp: cp_inv_def)
qed

lemma read_ack_inv:
  assumes inv: "cp_inv pool s a" and p: "ppoll s = P_READ fd" and c: "pmain s \<noteq> M_CONNECT"
  shows "if pin s (psock s) = [] then ack_poller s = None
     else \<exists>s' nas. ack_poller s = Some (Inr s') \<and> cp_inv pool s' a \<and> ppoll s' = P_ACKS nas \<and> nas \<noteq> []"
proof -
  have fd: "fd = psock s" using inv p by (auto simp: cp_inv_def)
  have af: "acks_for (sent (pcl s)) (packs s)" and ds: "data_stream (pin s (psock s))" using inv by (simp_all add: cp_inv_def)
  obtain rest where d: "drop a (packs s) = rest" "stream_bytes (pin s (psock s)) = concat (map netack_bytes rest)"
    using inv p by (auto simp: cp_inv_def)
  have "\<forall>na \<in> set rest. netack_wf na" using acks_for_wf [OF af] d(1) set_drop_subset [of a "packs s"] by blast
  note r = read_acks [OF ds d(2) this]
  show ?thesis
  proof (cases "rest = []")
    case True
    with r c p fd show ?thesis by (auto simp: ack_poller_def)
  next
    case False
    with r obtain k buf es' where k: "read_sock_bulk 128 NETACK_SIZE (pin s (psock s)) = Some (int (length buf), buf, es')" "0 < length buf"
      "blocks NETACK_SIZE netack_of_bytes buf = take k rest" "data_stream es'" "stream_bytes es' = concat (map netack_bytes (drop k rest))" "0 < k" by auto
    let ?s = "s\<lparr>pin := (pin s)(psock s := es'), ppoll := P_ACKS (take k rest)\<rparr>"
    have "ack_poller s = Some (Inr ?s)" using k p fd c by (simp add: ack_poller_def)
    moreover have "\<exists>r. drop a (packs ?s) = poll_acks_of (ppoll ?s) @ r \<and> stream_bytes (pin ?s (psock ?s)) = concat (map netack_bytes r)"
      by (intro exI [of _ "drop k rest"]) (use d(1) k(5) in simp)
    then have "cp_inv pool ?s a" using inv p k(4) unfolding cp_inv_def by simp
    moreover have "pin s (psock s) \<noteq> []" using d(2) False by (cases rest) (auto simp: netack_bytes_def)
    moreover have "ppoll ?s = P_ACKS (take k rest)" "take k rest \<noteq> []" using False k(6) by simp_all
    ultimately show ?thesis by (metis (no_types, lifting))
  qed
qed

lemma cp_inv_poll:
  assumes inv: "cp_inv pool s a" and st: "ack_poller s = Some (Inr s')"
  shows "\<exists>a'. cp_inv pool s' a'"
proof (cases "ppoll s")
  case P_TEST
  then have "cp_inv pool (s\<lparr>ppoll := if pstop s then P_RET else P_READ (psock s)\<rparr>) a" using inv by (auto simp: cp_inv_def)
  with st P_TEST show ?thesis by (auto simp: ack_poller_def)
next
  case (P_READ fd)
  show ?thesis
  proof (cases "pmain s = M_CONNECT")
    case True
    moreover have "fd = psock s" using inv P_READ by (auto simp: cp_inv_def)
    ultimately have "s' = s\<lparr>ppoll := P_TEST\<rparr>" using st P_READ by (simp add: ack_poller_def)
    with inv P_READ show ?thesis by (auto simp: cp_inv_def)
  next
    case False
    with read_ack_inv [OF inv P_READ] st show ?thesis by (auto split: if_splits)
  qed
next
  case (P_ACKS nas)
  show ?thesis
  proof (cases nas)
    case Nil
    then have "s' = s\<lparr>ppoll := P_TEST\<rparr>" using st P_ACKS by (simp add: ack_poller_def)
    with inv P_ACKS Nil show ?thesis by (auto simp: cp_inv_def)
  next
    case (Cons na nas')
    with poll_ack_inv [OF inv, of na nas'] st P_ACKS show ?thesis by (auto simp: ack_poller_def)
  qed
next
  case P_RET
  with st inv show ?thesis by (auto simp: ack_poller_def)
qed

lemma cp_inv_step: "cp_step (length pool) s s' \<Longrightarrow> cp_inv pool s a \<Longrightarrow> \<exists>a'. cp_inv pool s' a'"
proof (induction rule: cp_step.induct)
  case (cp_main fd connected s s')
  then show ?case using cp_inv_main by blast
next
  case (cp_poll s s')
  then show ?case using cp_inv_poll by blast
next
  case (cp_net s nas es)
  let ?s = "s\<lparr>pin := (pin s)(psock s := pin s (psock s) @ es), packs := packs s @ nas\<rparr>"
  obtain rest where d: "drop a (packs s) = poll_acks_of (ppoll s) @ rest" "stream_bytes (pin s (psock s)) = concat (map netack_bytes rest)" "a \<le> length (packs s)"
    using cp_net(4) by (auto simp: cp_inv_def)
  then have "drop a (packs s @ nas) = poll_acks_of (ppoll s) @ (rest @ nas)" by simp
  moreover have "stream_bytes (pin s (psock s) @ es) = concat (map netack_bytes (rest @ nas))" using d(2) cp_net(3) by simp
  ultimately have "\<exists>r. drop a (packs ?s) = poll_acks_of (ppoll ?s) @ r \<and> stream_bytes (pin ?s (psock ?s)) = concat (map netack_bytes r)"
    by (intro exI [of _ "rest @ nas"]) simp
  then have "cp_inv pool ?s a" using cp_net(1,2,4) unfolding cp_inv_def by auto
  then show ?case by blast
qed

lemma cp_inv_steps: "(cp_step (length pool))\<^sup>*\<^sup>* s s' \<Longrightarrow> cp_inv pool s a \<Longrightarrow> \<exists>a'. cp_inv pool s' a'"
proof (induction rule: rtranclp_induct)
  case (step y z)
  then show ?case using cp_inv_step by blast
qed blast

lemma cp_inv_start:
  assumes "csys_inv pool \<lparr>cl = c, cpc = L_FILL, acked = 0\<rparr>" and "0 < fd" and "connect_socket fd (client_start c stdin) = Inr s"
  shows "cp_inv pool s 0"
  using assms by (auto simp: cp_inv_def connect_socket_def client_start_def acks_for_def data_stream_def)

text \<open>No step of the two threads crashes.\<close>

lemma client_main_safe:
  assumes inv: "cp_inv pool s a" and many: "100 \<le> length pool"
  shows "client_main (length pool) fd True s \<noteq> Some (Inl e)"
proof (cases "pmain s")
  case (M_LOAD pc)
  have ci: "csys_inv pool \<lparr>cl = pcl s, cpc = pc, acked = a\<rparr>" using inv M_LOAD by (simp add: cp_inv_def)
  have "load_step (length pool) pc (pcl s) \<noteq> Some (Inl e)" for e
  proof (cases pc)
    case L_FILL
    with load_step_head [OF ci] load_fill_cases [OF ci] many show ?thesis by (cases "nr_arr (pcl s) = []") (auto simp: load_step_inner split: if_splits)
  qed simp_all
  then have "map_option (\<lambda>r. ebind r (\<lambda>(pc', c). Inr (s\<lparr>pcl := c, pmain := M_LOAD pc'\<rparr>))) (load_step (length pool) pc (pcl s)) \<noteq> Some (Inl e)"
    by (auto simp: ebind_eq_Inl)
  with M_LOAD show ?thesis by (simp add: client_main_def)
qed (use inv in \<open>simp_all add: client_main_def connect_server_def cp_inv_def\<close>)

lemma ack_poller_safe:
  assumes inv: "cp_inv pool s a"
  shows "ack_poller s \<noteq> Some (Inl e)"
proof (cases "ppoll s")
  case (P_READ fd)
  then show ?thesis by (auto simp: ack_poller_def Let_def split: option.splits)
next
  case (P_ACKS nas)
  with poll_ack_inv [OF inv] show ?thesis by (cases nas) (fastforce simp: ack_poller_def)+
qed (simp_all add: ack_poller_def)

text \<open>At the end of the load everything has been sent, acknowledged and read.\<close>

lemma cp_inv_done:
  assumes inv: "cp_inv pool s a" and d: "load_pc_of (pmain s) = L_DONE"
  shows "a = length pool \<and> sent (pcl s) = load_reqs pool \<and> length (packs s) = length pool \<and> pin s (psock s) = [] \<and> poll_acks_of (ppoll s) = []"
proof -
  have ci: "csys_inv pool \<lparr>cl = pcl s, cpc = L_DONE, acked = a\<rparr>" using inv d by (simp add: cp_inv_def)
  note i = csys_invD [OF ci, simplified]
  have a: "a = length pool" using i(14) by simp
  have s: "sent (pcl s) = load_reqs pool" using i(7,13) by simp
  have "acks_for (sent (pcl s)) (packs s)" "a \<le> length (packs s)" using inv by (simp_all add: cp_inv_def)
  then have l: "length (packs s) = length pool" using acks_forD(1) s a by fastforce
  then have "drop a (packs s) = []" using a by simp
  with inv obtain rest where "[] = poll_acks_of (ppoll s) @ rest" "stream_bytes (pin s (psock s)) = concat (map netack_bytes rest)" by (auto simp: cp_inv_def)
  moreover have "data_stream (pin s (psock s))" using inv by (simp add: cp_inv_def)
  ultimately show ?thesis using a s l data_stream_empty by simp
qed

subsection \<open>Every load phase is one of the threads\<close>

text \<open>The poller waits in \<open>read\<close> with nothing to read, and everything that arrived has been processed.\<close>

definition cp_idle :: "cproc \<Rightarrow> csys \<Rightarrow> bool" where
  "cp_idle s cs \<longleftrightarrow> cl cs = pcl s \<and> pmain s = M_LOAD (cpc cs) \<and> acked cs = length (packs s) \<and> ppoll s = P_READ (psock s) \<and> pin s (psock s) = [] \<and> \<not> pstop s"

lemma cp_idle_ack:
  assumes inv: "cp_inv pool s (acked cs)" and id: "cp_idle s cs" and lt: "acked cs < length (sent (cl cs))"
    and pa: "poll_ack (nr_type (sent (cl cs) ! acked cs)) t (cl cs) = Inr c"
  shows "\<exists>s'. (cp_step (length pool))\<^sup>*\<^sup>* s s' \<and> cp_inv pool s' (Suc (acked cs)) \<and> cp_idle s' (cs\<lparr>cl := c, acked := Suc (acked cs)\<rparr>)"
proof -
  let ?n = "length pool" and ?na = "\<lparr>ack_seq_num = 0, ack_type = nr_type (sent (cl cs) ! acked cs), elapsed_time = 0\<rparr>"
  let ?s1 = "s\<lparr>pin := (pin s)(psock s := [SOCK_DATA (netack_bytes ?na)]), packs := packs s @ [?na]\<rparr>"
  note id' = id [unfolded cp_idle_def]
  have ci: "csys_inv pool \<lparr>cl = pcl s, cpc = cpc cs, acked = acked cs\<rparr>" using inv id' by (simp add: cp_inv_def)
  have ty: "nr_type (sent (cl cs) ! acked cs) = REQ_TYPE_SET" using sent_is_set [OF ci] lt id' by simp
  have c: "c = (pcl s)\<lparr>sem := sem (pcl s) + 1\<rparr>" using pa ty poll_ack_set id' by simp
  have wf: "netack_wf ?na" by (simp add: ty netack_wf_def)
  have "acks_for (sent (pcl s)) (packs s)" using inv by (simp add: cp_inv_def)
  then have af: "acks_for (sent (pcl s)) (packs s @ [?na])"
    using lt id' wf by (auto simp: acks_for_def take_Suc_conv_app_nth list_all2_appendI)
  have ne: "netack_bytes ?na \<noteq> []" by (simp add: netack_bytes_def)
  have "cp_step ?n s (s\<lparr>pin := (pin s)(psock s := pin s (psock s) @ [SOCK_DATA (netack_bytes ?na)]), packs := packs s @ [?na]\<rparr>)"
    by (rule cp_net [OF af]) (use ne in \<open>simp_all add: data_stream_def\<close>)
  then have st1: "cp_step ?n s ?s1" using id' by simp
  let ?s2 = "?s1\<lparr>pin := (pin s)(psock s := []), ppoll := P_ACKS [?na]\<rparr>"
  have len: "length (netack_bytes ?na) = 13" by (simp add: NETACK_SIZE_def)
  have rd: "read_sock_bulk 128 NETACK_SIZE [SOCK_DATA (netack_bytes ?na)] = Some (13, netack_bytes ?na, [])"
    using len by (simp add: read_sock_bulk_def read_sock_bulk_from.simps NETACK_SIZE_def)
  have bl: "blocks NETACK_SIZE netack_of_bytes (netack_bytes ?na) = [?na]"
    using blocks_append [of "netack_bytes ?na" NETACK_SIZE netack_of_bytes "[]"] netack_decode_encode [OF wf] by (simp add: blocks_def)
  have "ack_poller ?s1 = Some (Inr ?s2)" using id' rd bl by (simp add: ack_poller_def)
  note st2 = cp_poll [OF this, of ?n]
  let ?s3 = "?s2\<lparr>pcl := c, ppoll := P_ACKS []\<rparr>"
  have "ack_poller ?s2 = Some (Inr ?s3)" using ty c poll_ack_set by (simp add: ack_poller_def)
  note st3 = cp_poll [OF this, of ?n]
  have "ack_poller ?s3 = Some (Inr (?s3\<lparr>ppoll := P_TEST\<rparr>))" "ack_poller (?s3\<lparr>ppoll := P_TEST\<rparr>) = Some (Inr (?s3\<lparr>ppoll := P_READ (psock s)\<rparr>))"
    using id' by (simp_all add: ack_poller_def)
  note st45 = this [THEN cp_poll, of ?n]
  let ?s5 = "?s3\<lparr>ppoll := P_READ (psock s)\<rparr>"
  have run: "(cp_step ?n)\<^sup>*\<^sup>* s ?s5" using st1 st2 st3 st45 by (meson converse_rtranclp_into_rtranclp rtranclp.rtrancl_refl)
  have "csys_step ?n cs (cs\<lparr>cl := c, acked := Suc (acked cs)\<rparr>)" by (rule csys_step.c_ack [OF lt pa])
  then have "csys_inv pool (cs\<lparr>cl := c, acked := Suc (acked cs)\<rparr>)" using csys_inv_step ci id' by (metis csys.surjective old.unit.exhaust)
  then have "csys_inv pool \<lparr>cl = c, cpc = cpc cs, acked = Suc (acked cs)\<rparr>" by (cases cs) simp
  then have "cp_inv pool ?s5 (Suc (acked cs))" using inv id' af c by (auto simp: cp_inv_def data_stream_def)
  moreover have "cp_idle ?s5 (cs\<lparr>cl := c, acked := Suc (acked cs)\<rparr>)" using id' by (simp add: cp_idle_def)
  ultimately show ?thesis using run by blast
qed

lemma cp_idle_step:
  assumes st: "csys_step (length pool) cs cs'" and inv: "cp_inv pool s (acked cs)" and id: "cp_idle s cs"
  shows "\<exists>s'. (cp_step (length pool))\<^sup>*\<^sup>* s s' \<and> cp_inv pool s' (acked cs') \<and> cp_idle s' cs'"
  using st
proof cases
  case (c_load pc' c')
  show ?thesis
  proof (cases "cpc cs = L_DONE")
    case True
    with c_load have "cs' = cs" by simp
    with inv id show ?thesis by blast
  next
    case False
    let ?s = "s\<lparr>pcl := c', pmain := M_LOAD pc'\<rparr>"
    have m: "client_main (length pool) 1 True s = Some (Inr ?s)" using c_load(2) id False by (simp add: cp_idle_def client_main_def)
    then have "cp_step (length pool) s ?s" by (rule cp_main) simp
    moreover have "cp_inv pool ?s (acked cs')" using cp_inv_main [OF inv m] c_load(1) by simp
    moreover have "cp_idle ?s cs'" using id c_load(1) by (simp add: cp_idle_def)
    ultimately show ?thesis by blast
  qed
next
  case (c_ack t c')
  from cp_idle_ack [OF inv id c_ack(2,3)] c_ack(1) show ?thesis by simp
qed

lemma cp_idle_reachable:
  assumes "csys_reachable (length pool) c0 cs" and "cp_inv pool s 0" and "cp_idle s \<lparr>cl = c0, cpc = L_FILL, acked = 0\<rparr>"
  shows "\<exists>s'. (cp_step (length pool))\<^sup>*\<^sup>* s s' \<and> cp_inv pool s' (acked cs) \<and> cp_idle s' cs"
  using assms(1)
proof (induction rule: csys_reachable.induct)
  case c_start
  with assms(2,3) show ?case by force
next
  case (c_step cs cs')
  then obtain s' where s': "(cp_step (length pool))\<^sup>*\<^sup>* s s'" "cp_inv pool s' (acked cs)" "cp_idle s' cs" by blast
  from cp_idle_step [OF c_step(2) s'(2,3)] s'(1) show ?case by (meson rtranclp_trans)
qed

lemma cp_idle_start:
  assumes "connect_socket fd (client_start c0 stdin) = Inr s0" and "0 < fd" and inv: "cp_inv pool s0 0"
  shows "\<exists>s. (cp_step (length pool))\<^sup>*\<^sup>* s0 s \<and> cp_inv pool s 0 \<and> cp_idle s \<lparr>cl = c0, cpc = L_FILL, acked = 0\<rparr>"
proof -
  have s0: "s0 = (client_start c0 stdin)\<lparr>psock := fd, pmain := M_CONNECT\<rparr>" using assms(1) by (simp add: connect_socket_def split: if_splits)
  let ?s1 = "s0\<lparr>pmain := M_LOAD L_FILL\<rparr>" and ?s2 = "s0\<lparr>pmain := M_LOAD L_FILL, ppoll := P_READ fd\<rparr>"
  have m: "client_main (length pool) 1 True s0 = Some (Inr ?s1)" by (simp add: client_main_def s0 connect_server_def)
  have p: "ack_poller ?s1 = Some (Inr ?s2)" by (simp add: ack_poller_def s0 client_start_def)
  have "cp_step (length pool) s0 ?s1" by (rule cp_main [OF m]) simp
  with cp_poll [OF p, of "length pool"] have "(cp_step (length pool))\<^sup>*\<^sup>* s0 ?s2" by (meson converse_rtranclp_into_rtranclp rtranclp.rtrancl_refl)
  moreover have "cp_inv pool ?s2 0" using inv s0 by (auto simp: cp_inv_def client_start_def)
  moreover have "cp_idle ?s2 \<lparr>cl = c0, cpc = L_FILL, acked = 0\<rparr>" using assms(2) by (simp add: cp_idle_def s0 client_start_def)
  ultimately show ?thesis by blast
qed

text \<open>A run through the whole load with the poller waiting in \<open>read\<close> at its end.\<close>

lemma reaches_join:
  assumes "100 \<le> unat nr" and "bench_init rnd nr = Inr c0" and "0 < fd" and "connect_socket fd (client_start c0 stdin) = Inr s0"
  shows "\<exists>s. (cp_step (unat nr))\<^sup>*\<^sup>* s0 s \<and> pmain s = M_JOIN \<and> ppoll s = P_READ (psock s)"
proof -
  let ?pool = "key_pool (kg c0)"
  have len: "length ?pool = unat nr" and ci: "csys_inv ?pool \<lparr>cl = c0, cpc = L_FILL, acked = 0\<rparr>" using bench_init_inv [OF many_keys [OF assms(1)] assms(2)] by blast+
  have inv: "cp_inv ?pool s0 0" by (rule cp_inv_start [OF ci assms(3,4)])
  obtain s1 where s1: "(cp_step (unat nr))\<^sup>*\<^sup>* s0 s1" "cp_inv ?pool s1 0" "cp_idle s1 \<lparr>cl = c0, cpc = L_FILL, acked = 0\<rparr>"
    using cp_idle_start [OF assms(4,3) inv] len by auto
  obtain cs where cs: "csys_reachable (length ?pool) c0 cs" "cpc cs = L_DONE" using reaches_done [OF csys_reachable.c_start ci] assms(1) len by auto
  from cp_idle_reachable [OF cs(1) s1(2,3)] len obtain s2 where s2: "(cp_step (unat nr))\<^sup>*\<^sup>* s1 s2" "cp_idle s2 cs" by auto
  let ?s3 = "s2\<lparr>pmain := M_FREE\<rparr>" and ?s4 = "s2\<lparr>pmain := M_JOIN, pstop := True\<rparr>"
  have "client_main (unat nr) 1 True s2 = Some (Inr ?s3)" "client_main (unat nr) 1 True ?s3 = Some (Inr ?s4)"
    using s2(2) cs(2) by (simp_all add: client_main_def cp_idle_def)
  then have "cp_step (unat nr) s2 ?s3" "cp_step (unat nr) ?s3 ?s4" by (auto intro: cp_main [where fd = 1])
  with s1(1) s2(1) have "(cp_step (unat nr))\<^sup>*\<^sup>* s0 ?s4" by (meson rtranclp.rtrancl_into_rtrancl rtranclp_trans)
  moreover have "ppoll ?s4 = P_READ (psock ?s4)" using s2(2) by (simp add: cp_idle_def)
  ultimately show ?thesis by (intro exI [of _ ?s4]) simp
qed

subsection \<open>A poller that was too early\<close>

text \<open>\<open>early pool s\<close>: the poller waits for the standard input or has returned after its end; no acknowledgement has been processed.\<close>

definition early :: "byte list list \<Rightarrow> cproc \<Rightarrow> bool" where
  "early pool s \<longleftrightarrow> csys_inv pool \<lparr>cl = pcl s, cpc = load_pc_of (pmain s), acked = 0\<rparr> \<and> (if pmain s = M_SOCKET then psock s = 0 else 0 < psock s) \<and>
     (pmain s \<in> {M_SOCKET, M_CONNECT} \<longrightarrow> sent (pcl s) = []) \<and> (ppoll s = P_READ 0 \<and> pin s 0 \<in> {[], [SOCK_EOF]} \<or> ppoll s = P_RET)"

lemma early_main:
  assumes e: "early pool s" and n: "0 < length pool" and st: "client_main (length pool) fd connected s = Some (Inr s')" and fd: "0 < fd"
  shows "early pool s'"
proof (cases "pmain s")
  case (M_LOAD pc)
  have ci: "csys_inv pool \<lparr>cl = pcl s, cpc = pc, acked = 0\<rparr>" using e M_LOAD by (simp add: early_def)
  have nd: "pc \<noteq> L_DONE" using csys_invD(14) [OF ci] n by auto
  with st M_LOAD obtain pc' c where l: "load_step (length pool) pc (pcl s) = Some (Inr (pc', c))" "s' = s\<lparr>pcl := c, pmain := M_LOAD pc'\<rparr>"
    by (auto simp: client_main_def res_simps)
  have "csys_inv pool \<lparr>cl = c, cpc = pc', acked = 0\<rparr>"
    using csys_inv_load [of pool "\<lparr>cl = pcl s, cpc = pc, acked = 0\<rparr>" pc' c] ci l(1) by simp
  with e M_LOAD l(2) show ?thesis by (auto simp: early_def)
next
  case M_FREE
  with e n csys_invD(14) [of pool "\<lparr>cl = pcl s, cpc = L_DONE, acked = 0\<rparr>"] show ?thesis by (simp add: early_def)
next
  case M_JOIN
  with e n csys_invD(14) [of pool "\<lparr>cl = pcl s, cpc = L_DONE, acked = 0\<rparr>"] show ?thesis by (simp add: early_def)
next
  case M_RET
  with e n csys_invD(14) [of pool "\<lparr>cl = pcl s, cpc = L_DONE, acked = 0\<rparr>"] show ?thesis by (simp add: early_def)
qed (use e st fd in \<open>auto simp: early_def client_main_def connect_socket_def connect_server_def split: if_splits\<close>)

lemma early_poll:
  assumes e: "early pool s" and st: "ack_poller s = Some (Inr s')"
  shows "early pool s'"
proof (cases "ppoll s = P_RET")
  case True
  with st e show ?thesis by (simp add: ack_poller_def)
next
  case False
  then have p: "ppoll s = P_READ 0" "pin s 0 = [] \<or> pin s 0 = [SOCK_EOF]" using e by (auto simp: early_def)
  have nc: "\<not> (pmain s = M_CONNECT \<and> 0 = psock s)" using e by (auto simp: early_def split: if_splits)
  have "read_sock_bulk 128 NETACK_SIZE [] = None" "read_sock_bulk 128 NETACK_SIZE [SOCK_EOF] = Some (0, [], [])"
    by (simp_all add: read_sock_bulk_def read_sock_bulk_from.simps NETACK_SIZE_def)
  with p nc st e show ?thesis by (auto simp: ack_poller_def early_def)
qed

lemma early_net:
  assumes e: "early pool s" and net: "acks_for (sent (pcl s)) (packs s @ nas)" "data_stream es" "stream_bytes es = concat (map netack_bytes nas)"
  shows "early pool (s\<lparr>pin := (pin s)(psock s := pin s (psock s) @ es), packs := packs s @ nas\<rparr>)"
proof (cases "pmain s = M_SOCKET")
  case True
  then have "nas = []" using e acks_forD(1) [OF net(1)] by (auto simp: early_def)
  then have "es = []" using data_stream_empty net by simp
  with e show ?thesis by (simp add: early_def fun_upd_triv)
next
  case False
  with e show ?thesis by (auto simp: early_def)
qed

lemma early_steps: "(cp_step (length pool))\<^sup>*\<^sup>* s s' \<Longrightarrow> 0 < length pool \<Longrightarrow> early pool s \<Longrightarrow> early pool s'"
proof (induction rule: rtranclp_induct)
  case (step y z)
  from step(2) have "early pool y \<Longrightarrow> early pool z"
    by cases (use step(4) early_main early_poll early_net in blast)+
  with step(3-5) show ?case by blast
qed

subsection \<open>Properties\<close>

text \<open>
  C31: the two threads load the pool. With at least a hundred keys, and when the poller is not scheduled before \<open>socket\<close> has returned (the runs begin with \<open>sock\<close> assigned and the poller before its first test), then in every interleaving of the main thread, the poller and the arrival of
  acknowledgements, cut into any chunks: neither thread crashes, the messages sent are the first ones of the load, at most \<open>CLIENT_QDEPTH\<close> of the messages taken are not acknowledged; when the
  main thread is past the load, every key of the pool has been sent once and all acknowledgements have arrived and been read; and when the client has ended, the
  poller has returned before, and the socket was closed once. Such an end of the load is reachable.
\<close>

theorem client_threads_load:
  assumes "100 \<le> unat nr" and "bench_init rnd nr = Inr c0" and "0 < fd" and "connect_socket fd (client_start c0 stdin) = Inr s0" and "(cp_step (unat nr))\<^sup>*\<^sup>* s0 s"
  shows "(\<forall>e fd'. client_main (unat nr) fd' True s \<noteq> Some (Inl e) \<and> ack_poller s \<noteq> Some (Inl e)) \<and>
     sent (pcl s) @ nr_arr (pcl s) = take (li (pcl s)) (load_reqs (key_pool (kg c0))) \<and> li (pcl s) \<le> unat nr \<and> length (packs s) \<le> length (sent (pcl s)) \<and>
     int (li (pcl s) - length (packs s)) \<le> CLIENT_QDEPTH \<and>
     (pmain s \<in> {M_LOAD L_DONE, M_FREE, M_JOIN, M_RET} \<longrightarrow>
        sent (pcl s) = load_reqs (key_pool (kg c0)) \<and> length (packs s) = unat nr \<and> pin s (psock s) = [] \<and> sem (pcl s) = CLIENT_QDEPTH) \<and>
     (pmain s = M_RET \<longrightarrow> ppoll s = P_RET \<and> pfreed s \<and> pclosed s = [psock s]) \<and>
     (\<exists>s'. (cp_step (unat nr))\<^sup>*\<^sup>* s0 s' \<and> pmain s' = M_JOIN)"
proof -
  let ?pool = "key_pool (kg c0)"
  have len: "length ?pool = unat nr" and ci: "csys_inv ?pool \<lparr>cl = c0, cpc = L_FILL, acked = 0\<rparr>" using bench_init_inv [OF many_keys [OF assms(1)] assms(2)] by blast+
  have "(cp_step (length ?pool))\<^sup>*\<^sup>* s0 s" using assms(5) len by simp
  from cp_inv_steps [OF this cp_inv_start [OF ci assms(3,4)]] obtain a where inv: "cp_inv ?pool s a" by blast
  then have cs: "csys_inv ?pool \<lparr>cl = pcl s, cpc = load_pc_of (pmain s), acked = a\<rparr>" and af: "acks_for (sent (pcl s)) (packs s)" and al: "a \<le> length (packs s)"
    by (simp_all add: cp_inv_def)
  note i = csys_invD [OF cs, simplified]
  have win: "int (li (pcl s) - length (packs s)) \<le> CLIENT_QDEPTH" using i(10,11) al by (simp add: of_nat_diff)
  have d: "sent (pcl s) = load_reqs ?pool \<and> length (packs s) = unat nr \<and> pin s (psock s) = [] \<and> sem (pcl s) = CLIENT_QDEPTH"
    if "pmain s \<in> {M_LOAD L_DONE, M_FREE, M_JOIN, M_RET}"
  proof -
    have "load_pc_of (pmain s) = L_DONE" using that by auto
    from cp_inv_done [OF inv this] i(10,13) this len show ?thesis by simp
  qed
  have r: "pmain s = M_RET \<longrightarrow> ppoll s = P_RET \<and> pfreed s \<and> pclosed s = [psock s]" using inv by (simp add: cp_inv_def)
  obtain s' where "(cp_step (unat nr))\<^sup>*\<^sup>* s0 s'" "pmain s' = M_JOIN" using reaches_join [OF assms(1-4)] by blast
  with client_main_safe [OF inv] assms(1) ack_poller_safe [OF inv] i(4,7) acks_forD(1) [OF af] win d r len show ?thesis by auto
qed

theorem client_threads_load_witness:
  "\<exists>c0 s0 s. bench_init (\<lambda>k. k) 300 = Inr c0 \<and> connect_socket 3 (client_start c0 []) = Inr s0 \<and> (cp_step 300)\<^sup>*\<^sup>* s0 s \<and> pmain s = M_JOIN \<and>
     sent (pcl s) = load_reqs (key_pool (kg c0)) \<and> length (packs s) = 300"
proof -
  obtain c0 where c0: "bench_init (\<lambda>k. k) 300 = Inr c0" using bench_init_ok by blast
  obtain s0 where s0: "connect_socket 3 (client_start c0 []) = Inr s0" by (simp add: connect_socket_def)
  have nr: "100 \<le> unat (300 :: u64)" and fd: "0 < (3 :: int)" by simp_all
  obtain s where s: "(cp_step (unat (300 :: u64)))\<^sup>*\<^sup>* s0 s" "pmain s = M_JOIN" using reaches_join [OF nr c0 fd s0] by blast
  from client_threads_load [OF nr c0 fd s0 s(1)] s c0 s0 show ?thesis by auto
qed

text \<open>
  C33: the client does not end. The poller tests \<open>stopflag\<close> only between two reads, and its socket blocks: when \<open>bench_free\<close> sets the flag while the poller is in
  \<open>read\<close> (all acknowledgements having arrived, there is nothing more to read), no step of the client or of a server that keeps the connection changes the state any more, and the loop around
  \<open>pthread_tryjoin_np\<close> runs forever. Such a state is reachable, for every number of keys from a hundred on, when the poller
  was not scheduled before \<open>sock\<close> was assigned.
\<close>

theorem client_never_ends:
  assumes "100 \<le> unat nr" and "bench_init rnd nr = Inr c0" and "0 < fd" and "connect_socket fd (client_start c0 stdin) = Inr s0"
  shows "(\<exists>s. (cp_step (unat nr))\<^sup>*\<^sup>* s0 s \<and> pmain s = M_JOIN \<and> ppoll s = P_READ (psock s)) \<and>
     (\<forall>s s'. (cp_step (unat nr))\<^sup>*\<^sup>* s0 s \<and> pmain s = M_JOIN \<and> ppoll s = P_READ (psock s) \<and> (cp_step (unat nr))\<^sup>*\<^sup>* s s' \<longrightarrow> s' = s)"
proof (intro conjI allI impI)
  show "\<exists>s. (cp_step (unat nr))\<^sup>*\<^sup>* s0 s \<and> pmain s = M_JOIN \<and> ppoll s = P_READ (psock s)" by (rule reaches_join [OF assms])
next
  fix s s'
  assume h: "(cp_step (unat nr))\<^sup>*\<^sup>* s0 s \<and> pmain s = M_JOIN \<and> ppoll s = P_READ (psock s) \<and> (cp_step (unat nr))\<^sup>*\<^sup>* s s'"
  let ?pool = "key_pool (kg c0)"
  have len: "length ?pool = unat nr" and ci: "csys_inv ?pool \<lparr>cl = c0, cpc = L_FILL, acked = 0\<rparr>" using bench_init_inv [OF many_keys [OF assms(1)] assms(2)] by blast+
  have "(cp_step (length ?pool))\<^sup>*\<^sup>* s0 s" using h len by simp
  from cp_inv_steps [OF this cp_inv_start [OF ci assms(3,4)]] obtain a where inv: "cp_inv ?pool s a" by blast
  from cp_inv_done [OF inv] h have dn: "sent (pcl s) = load_reqs ?pool" "length (packs s) = length ?pool" "pin s (psock s) = []" by simp_all
  have stuck: "z = s" if "cp_step (unat nr) s z" for z
    using that
  proof cases
    case (cp_main fd connected)
    with h show ?thesis by (simp add: client_main_def)
  next
    case cp_poll
    with h read_ack_inv [OF inv] dn(3) show ?thesis by simp
  next
    case (cp_net nas es)
    then have "nas = []" using acks_forD(1) [OF cp_net(2)] dn(1,2) by simp
    moreover from this have "es = []" using data_stream_empty cp_net(3,4) by simp
    ultimately show ?thesis using cp_net(1) by simp
  qed
  have "(cp_step (unat nr))\<^sup>*\<^sup>* s s'" using h by blast
  then show "s' = s" by (induction rule: rtranclp_induct) (use stuck in auto)
qed

theorem client_never_ends_witness:
  "\<exists>c0 s0 s. bench_init (\<lambda>k. k) 100 = Inr c0 \<and> connect_socket 3 (client_start c0 []) = Inr s0 \<and> (cp_step 100)\<^sup>*\<^sup>* s0 s \<and> pmain s = M_JOIN \<and>
     (\<forall>s'. (cp_step 100)\<^sup>*\<^sup>* s s' \<longrightarrow> s' = s)"
proof -
  obtain c0 where c0: "bench_init (\<lambda>k. k) 100 = Inr c0" using bench_init_ok by blast
  obtain s0 where s0: "connect_socket 3 (client_start c0 []) = Inr s0" by (simp add: connect_socket_def)
  have nr: "100 \<le> unat (100 :: u64)" and fd: "0 < (3 :: int)" by simp_all
  from client_never_ends [OF nr c0 fd s0] c0 s0 show ?thesis by auto
qed

text \<open>
  C34: a poller that is too early stops the load. \<open>bench_init\<close> starts the poller before \<open>connect_server\<close> has assigned \<open>sock\<close>: a poller that is scheduled at once reads the
  standard input. If that is silent, the poller stays in this \<open>read\<close>, and if it is at its end, the poller returns; in both cases no acknowledgement is ever processed, at most \<open>CLIENT_QDEPTH\<close>
  messages are taken, and the load never ends.
\<close>

theorem client_early_poller:
  assumes "0 < nr" and "bench_init rnd nr = Inr c0" and "stdin \<in> {[], [SOCK_EOF]}"
  shows "\<exists>s0. ack_poller (client_start c0 stdin) = Some (Inr s0) \<and>
     (\<forall>s. (cp_step (unat nr))\<^sup>*\<^sup>* s0 s \<longrightarrow> ppoll s \<in> {P_READ 0, P_RET} \<and> int (li (pcl s)) \<le> CLIENT_QDEPTH \<and>
        pmain s \<notin> {M_LOAD L_DONE, M_FREE, M_JOIN, M_RET})"
proof -
  let ?pool = "key_pool (kg c0)" and ?s0 = "(client_start c0 stdin)\<lparr>ppoll := P_READ 0\<rparr>"
  have len: "length ?pool = unat nr" and ci: "csys_inv ?pool \<lparr>cl = c0, cpc = L_FILL, acked = 0\<rparr>" using bench_init_inv [OF assms(1,2)] by blast+
  have pos: "0 < length ?pool" using len assms(1) by (simp add: unat_gt_0 word_neq_0_conv)
  have "sent c0 = []" using assms(2) by (auto simp: bench_init_def res_simps)
  then have e0: "early ?pool ?s0" using ci assms(3) by (simp add: early_def client_start_def)
  have p: "ack_poller (client_start c0 stdin) = Some (Inr ?s0)" by (simp add: ack_poller_def client_start_def)
  have "ppoll s \<in> {P_READ 0, P_RET} \<and> int (li (pcl s)) \<le> CLIENT_QDEPTH \<and> pmain s \<notin> {M_LOAD L_DONE, M_FREE, M_JOIN, M_RET}"
    if "(cp_step (unat nr))\<^sup>*\<^sup>* ?s0 s" for s
  proof -
    have e: "early ?pool s" using early_steps [OF _ pos e0] that len by simp
    then have cs: "csys_inv ?pool \<lparr>cl = pcl s, cpc = load_pc_of (pmain s), acked = 0\<rparr>" by (simp add: early_def)
    note i = csys_invD [OF cs, simplified]
    have "load_pc_of (pmain s) \<noteq> L_DONE" using i(14) pos by auto
    moreover have "int (li (pcl s)) \<le> CLIENT_QDEPTH" using i(10,11) by simp
    ultimately show ?thesis using e by (auto simp: early_def)
  qed
  with p show ?thesis by blast
qed

theorem client_early_poller_witness:
  "\<exists>c0 s0. bench_init (\<lambda>k. k) 300 = Inr c0 \<and> ack_poller (client_start c0 [SOCK_EOF]) = Some (Inr s0) \<and>
     (\<forall>s. (cp_step 300)\<^sup>*\<^sup>* s0 s \<longrightarrow> pmain s \<noteq> M_RET)"
proof -
  obtain c0 where c0: "bench_init (\<lambda>k. k) 300 = Inr c0" using bench_init_ok by blast
  have nr: "0 < (300 :: u64)" by simp
  from client_early_poller [OF nr c0, of "[SOCK_EOF]"] c0 show ?thesis by auto
qed

end
