(* ===== verification/End_To_End.thy ===== *)
theory End_To_End
  imports Client_Main Master
begin

section \<open>The client and the server together\<close>

text \<open>
  One client (both threads, \<open>Client_Main\<close>) connected to the server (the master and all handlers, \<open>Master\<close>). The bytes the client writes are on their way
  until the master reads whole messages of them; the acknowledgements the handlers write to the socket arrive in the order of the writes, in any chunks. \<open>hist\<close> is the
  history of these writes: the handler and the acknowledgement. Each thread takes the steps it has in its own theory.
\<close>

subsection \<open>Steps\<close>

record 'p e2e =
  ecl :: cproc
  esrv :: "'p msys"
  up :: "byte list"
  hist :: "(nat \<times> netack) list"

text \<open>What a step of the client has written, and what a step of the server has.\<close>

definition written :: "cproc \<Rightarrow> cproc \<Rightarrow> byte list" where
  "written c c' = concat (map netreq_bytes (drop (length (sent (pcl c))) (sent (pcl c'))))"

definition new_acks :: "'p msys \<Rightarrow> 'p msys \<Rightarrow> nat \<Rightarrow> (int \<times> netack) list" where
  "new_acks m m' i = drop (length (acks (hlr (hsyss m i)))) (acks (hlr (hsyss m' i)))"

text \<open>A \<open>time_t\<close> has 64 bits; the clock of the model is unbounded, so that the latencies that occur are restricted to these.\<close>

definition time_fits :: "netack \<Rightarrow> bool" where
  "time_fits na \<longleftrightarrow> - (2 ^ 63) \<le> elapsed_time na \<and> elapsed_time na < 2 ^ 63"

text \<open>
  \<open>k\<close> keys, \<open>n\<close> devices, the socket of the client is \<open>cfd\<close> on the server's side. A step of the server that is not the read of a batch keeps the messages received and still
  to be handled; it changes one handler.
\<close>

inductive e2e_step :: "(byte list \<Rightarrow> u64 \<times> u64) \<Rightarrow> nat \<Rightarrow> int \<Rightarrow> nat \<Rightarrow> 'p e2e \<Rightarrow> 'p e2e \<Rightarrow> bool" for C n cfd k where
  e_main: "client_main k fd True (ecl s) = Some (Inr c) \<Longrightarrow> 0 < fd \<Longrightarrow> e2e_step C n cfd k s (s\<lparr>ecl := c, up := up s @ written (ecl s) c\<rparr>)"
| e_poll: "ack_poller (ecl s) = Some (Inr c) \<Longrightarrow> e2e_step C n cfd k s (s\<lparr>ecl := c\<rparr>)"
| e_deliver: "drop (length (packs (ecl s))) (map snd (hist s)) = nas @ rest \<Longrightarrow> data_stream es \<Longrightarrow> stream_bytes es = concat (map netack_bytes nas) \<Longrightarrow>
     e2e_step C n cfd k s (s\<lparr>ecl := (ecl s)\<lparr>pin := (pin (ecl s))(psock (ecl s) := pin (ecl s) (psock (ecl s)) @ es), packs := packs (ecl s) @ nas\<rparr>\<rparr>)"
| e_read: "todo (esrv s) = [] \<Longrightarrow> up s = bs @ rest \<Longrightarrow> length bs mod NETREQ_SIZE = 0 \<Longrightarrow>
     e2e_step C n cfd k s (s\<lparr>esrv := (esrv s)\<lparr>todo := map (Pair cfd) (batch bs)\<rparr>, up := rest\<rparr>)"
| e_serve: "msys_step C n (esrv s) m \<Longrightarrow> received m @ todo m = received (esrv s) @ todo (esrv s) \<Longrightarrow> \<forall>j. j \<noteq> i \<longrightarrow> hsyss m j = hsyss (esrv s) j \<Longrightarrow>
     \<forall>a \<in> set (new_acks (esrv s) m i). time_fits (snd a) \<Longrightarrow>
     e2e_step C n cfd k s (s\<lparr>esrv := m, hist := hist s @ map (\<lambda>a. (i, snd a)) (filter (\<lambda>a. fst a = cfd) (new_acks (esrv s) m i))\<rparr>)"

definition e2e_start :: "cproc \<Rightarrow> (nat \<Rightarrow> 'p handler) \<Rightarrow> 'p e2e" where
  "e2e_start c h0 = \<lparr>ecl = c, esrv = msys_start h0, up = [], hist = []\<rparr>"

subsection \<open>The invariant\<close>

text \<open>
  The bytes on their way are those of the messages sent and not read yet. The history, handler by handler, is what each handler has acknowledged. The client has got a part
  of it, in order.
\<close>

definition e2e_inv :: "(byte list \<Rightarrow> u64 \<times> u64) \<Rightarrow> nat \<Rightarrow> int \<Rightarrow> byte list list \<Rightarrow> (nat \<Rightarrow> 'p handler) \<Rightarrow> 'p e2e \<Rightarrow> bool" where
  "e2e_inv C n cfd pool h0 s \<longleftrightarrow> (\<exists>a. cp_inv pool (ecl s) a) \<and> msys_reachable C n h0 (esrv s) \<and>
     (\<exists>ms. map (Pair cfd) (sent (pcl (ecl s))) = received (esrv s) @ todo (esrv s) @ map (Pair cfd) ms \<and> up s = concat (map netreq_bytes ms)) \<and>
     (\<forall>i. acks (hlr (hsyss (esrv s) i)) = map (\<lambda>x. (cfd, snd x)) (filter (\<lambda>x. fst x = i) (hist s))) \<and>
     (\<forall>x \<in> set (hist s). time_fits (snd x)) \<and>
     (\<exists>rest. map snd (hist s) = packs (ecl s) @ rest)"

lemma add_request_info_acks: "add_request_info C ok req h = Inr h' \<Longrightarrow> acks h' = acks h"
  by (auto simp: add_request_info_def Let_def res_simps split: prod.splits)

lemma acks_grow:
  assumes "msys_step C n m m'"
  shows "acks (hlr (hsyss m' i)) = acks (hlr (hsyss m i)) @ new_acks m m' i"
proof -
  have h: "\<exists>as. acks h' = acks h @ as" if "request_handler_step C stop ok p h = Inr (p', h')" for stop ok p h p' and h' :: "'a handler"
  proof (cases p)
    case H_NEXT
    with that have "acks h' = acks h"
      by (auto simp: get_next_request_def Let_def res_simps split: if_splits dest: add_request_info_acks)
    then show ?thesis by simp
  next
    case (H_END r)
    with that net_end_req_ext [of r h h'] show ?thesis by (auto simp: res_simps hlr_ext_def)
  qed (use that in simp)
  have "\<exists>as. acks (hlr (hsyss m' i)) = acks (hlr (hsyss m i)) @ as"
    using assms
  proof cases
    case (m_handle stop ok j p' h')
    with h [OF m_handle(2)] show ?thesis by auto
  qed (auto simp: make_request_from_netreq_def forward_req_to_hlr_def res_simps split: if_splits option.splits)
  then show ?thesis by (auto simp: new_acks_def)
qed

lemma count_map: "count (mset (map h zs)) v = length (filter (\<lambda>z. h z = v) zs)"
  by (induction zs) auto

lemma class_subset:
  assumes "\<And>i. length (filter (\<lambda>x. f x = i) xs) \<le> length (filter (\<lambda>y. g y = Some i) ys)"
  shows "mset (map (Some \<circ> f) xs) \<subseteq># mset (map g ys)"
proof (rule mset_subset_eqI)
  fix v show "count (mset (map (Some \<circ> f) xs)) v \<le> count (mset (map g ys)) v"
    unfolding count_map using assms by (cases v) (auto simp: filter_empty_conv)
qed

lemma length_by_class:
  assumes "\<And>i. length (filter (\<lambda>x. f x = i) xs) \<le> length (filter (\<lambda>y. g y = Some i) ys)"
  shows "length xs \<le> length ys"
  using size_mset_mono [OF class_subset [OF assms]] by simp

lemma class_eq:
  assumes "\<And>i. length (filter (\<lambda>x. f x = i) xs) \<le> length (filter (\<lambda>y. g y = Some i) ys)" and "length xs = length ys"
  shows "length (filter (\<lambda>x. f x = i) xs) = length (filter (\<lambda>y. g y = Some i) ys)"
proof -
  have "mset (map (Some \<circ> f) xs) = mset (map g ys)"
    using class_subset [OF assms(1)] mset_subset_size [of "mset (map (Some \<circ> f) xs)" "mset (map g ys)"] assms(2) by (auto simp: subset_mset.le_less)
  then have "count (mset (map (Some \<circ> f) xs)) (Some i) = count (mset (map g ys)) (Some i)" by (rule arg_cong)
  then show ?thesis unfolding count_map by simp
qed

lemma e2e_invD:
  assumes "e2e_inv C n cfd pool h0 s"
  shows "\<exists>a. cp_inv pool (ecl s) a" "msys_reachable C n h0 (esrv s)"
    "\<exists>ms. map (Pair cfd) (sent (pcl (ecl s))) = received (esrv s) @ todo (esrv s) @ map (Pair cfd) ms \<and> up s = concat (map netreq_bytes ms)"
    "\<And>i. acks (hlr (hsyss (esrv s) i)) = map (\<lambda>x. (cfd, snd x)) (filter (\<lambda>x. fst x = i) (hist s))"
    "\<And>x. x \<in> set (hist s) \<Longrightarrow> time_fits (snd x)" "\<exists>rest. map snd (hist s) = packs (ecl s) @ rest"
  using assms by (simp_all add: e2e_inv_def)

text \<open>Every handler acknowledges the messages routed to it.\<close>

lemma e2e_acks:
  assumes "e2e_inv C n cfd pool h0 s" and "\<And>i. hlr_ready (h0 i)"
  shows "map ack_tag (acks (hlr (hsyss (esrv s) i))) @ map (\<lambda>r. req_tag (req_arr (hlr (hsyss (esrv s) i)) r)) (inflight (hsyss (esrv s) i)) =
     map msg_tag (filter (\<lambda>m. routed C n i (snd m)) (received (esrv s)))"
  using hsys_invD(6) [OF hsys_inv_reachable [OF msys_hsys_reachable [OF e2e_invD(2) [OF assms(1)]] assms(2)], of i] msys_arrived [OF e2e_invD(2) [OF assms(1)], of i]
  by simp

lemma hist_length:
  assumes "e2e_inv C n cfd pool h0 s" and "\<And>i. hlr_ready (h0 i)"
  shows "length (hist s) \<le> length (received (esrv s))"
proof (rule length_by_class)
  fix i
  let ?g = "\<lambda>m. case hlr_idx C n (snd m) of Inr i \<Rightarrow> Some i | Inl _ \<Rightarrow> None"
  have "length (acks (hlr (hsyss (esrv s) i))) \<le> length (filter (\<lambda>m. routed C n i (snd m)) (received (esrv s)))"
    using arg_cong [OF e2e_acks [OF assms, of i], of length] by simp
  moreover have "(\<lambda>m :: int \<times> netreq. routed C n i (snd m)) = (\<lambda>m. ?g m = Some i)" by (auto simp: routed_def fun_eq_iff split: sum.splits)
  ultimately show "length (filter (\<lambda>x. fst x = i) (hist s)) \<le> length (filter (\<lambda>m. ?g m = Some i) (received (esrv s)))"
    using e2e_invD(4) [OF assms(1), of i] by simp
qed

text \<open>All messages of the load are SETs.\<close>

lemma received_is_set:
  assumes "e2e_inv C n cfd pool h0 s" and "m \<in> set (received (esrv s) @ todo (esrv s))"
  shows "fst m = cfd \<and> nr_type (snd m) = REQ_TYPE_SET"
proof -
  obtain a where "cp_inv pool (ecl s) a" using e2e_invD(1) [OF assms(1)] by blast
  then have ci: "csys_inv pool \<lparr>cl = pcl (ecl s), cpc = load_pc_of (pmain (ecl s)), acked = a\<rparr>" by (simp add: cp_inv_def)
  obtain ms where "map (Pair cfd) (sent (pcl (ecl s))) = received (esrv s) @ todo (esrv s) @ map (Pair cfd) ms" using e2e_invD(3) [OF assms(1)] by blast
  from arg_cong [OF this, of set] assms(2) obtain nr where m: "m = (cfd, nr)" "nr \<in> set (sent (pcl (ecl s)))" by auto
  then show ?thesis using sent_is_set [OF ci] by (auto simp: in_set_conv_nth)
qed

lemma hist_is_set:
  assumes inv: "e2e_inv C n cfd pool h0 s" and h0: "\<And>i. hlr_ready (h0 i)" and x: "x \<in> set (hist s)"
  shows "ack_type (snd x) = REQ_TYPE_SET \<and> netack_wf (snd x)"
proof -
  let ?i = "fst x"
  have "(cfd, snd x) \<in> set (acks (hlr (hsyss (esrv s) ?i)))" using e2e_invD(4) [OF inv, of ?i] x by force
  then have "ack_tag (cfd, snd x) \<in> set (map ack_tag (acks (hlr (hsyss (esrv s) ?i))) @ map (\<lambda>r. req_tag (req_arr (hlr (hsyss (esrv s) ?i)) r)) (inflight (hsyss (esrv s) ?i)))"
    unfolding set_append set_map by blast
  then have "ack_tag (cfd, snd x) \<in> set (map msg_tag (filter (\<lambda>m. routed C n ?i (snd m)) (received (esrv s))))"
    unfolding e2e_acks [OF inv h0, of ?i] .
  then have "ack_type (snd x) = REQ_TYPE_SET" using received_is_set [OF inv] by (auto simp: ack_tag_def msg_tag_def)
  with e2e_invD(5) [OF inv x] show ?thesis by (simp add: netack_wf_def time_fits_def)
qed

text \<open>What arrives at the client are acknowledgements as its own theory expects them.\<close>

lemma deliver_acks_for:
  assumes inv: "e2e_inv C n cfd pool h0 s" and h0: "\<And>i. hlr_ready (h0 i)"
    and d: "drop (length (packs (ecl s))) (map snd (hist s)) = nas @ rest"
  shows "acks_for (sent (pcl (ecl s))) (packs (ecl s) @ nas) \<and> map snd (hist s) = (packs (ecl s) @ nas) @ rest"
proof -
  let ?p = "packs (ecl s)"
  obtain a where "cp_inv pool (ecl s) a" using e2e_invD(1) [OF inv] by blast
  then have ci: "csys_inv pool \<lparr>cl = pcl (ecl s), cpc = load_pc_of (pmain (ecl s)), acked = a\<rparr>" by (simp add: cp_inv_def)
  have h: "map snd (hist s) = ?p @ nas @ rest" using e2e_invD(6) [OF inv] d by auto
  obtain ms where ms: "map (Pair cfd) (sent (pcl (ecl s))) = received (esrv s) @ todo (esrv s) @ map (Pair cfd) ms" using e2e_invD(3) [OF inv] by blast
  have "length (?p @ nas) \<le> length (hist s)" using arg_cong [OF h, of length] by simp
  also have "\<dots> \<le> length (sent (pcl (ecl s)))" using hist_length [OF inv h0] arg_cong [OF ms, of length] by simp
  finally have l: "length (?p @ nas) \<le> length (sent (pcl (ecl s)))" .
  have "ack_type na = REQ_TYPE_SET \<and> netack_wf na" if "na \<in> set (?p @ nas)" for na
  proof -
    have "na \<in> snd ` set (hist s)" using that arg_cong [OF h, of set] by auto
    with hist_is_set [OF inv h0] show ?thesis by blast
  qed
  then have "ack_type ((?p @ nas) ! i) = REQ_TYPE_SET \<and> netack_wf ((?p @ nas) ! i)" if "i < length (?p @ nas)" for i using that nth_mem by blast
  then have "acks_for (sent (pcl (ecl s))) (?p @ nas)"
    using l sent_is_set [OF ci] unfolding acks_for_def list_all2_conv_all_nth by simp
  then show ?thesis using h by simp
qed

lemma sent_loaded:
  assumes "e2e_inv C n cfd pool h0 s" and "nr \<in> set (sent (pcl (ecl s)))"
  shows "netreq_wf nr \<and> key_fits nr"
proof -
  obtain a where "cp_inv pool (ecl s) a" using e2e_invD(1) [OF assms(1)] by blast
  then have ci: "csys_inv pool \<lparr>cl = pcl (ecl s), cpc = load_pc_of (pmain (ecl s)), acked = a\<rparr>" by (simp add: cp_inv_def)
  note i = csys_invD [OF ci, simplified]
  have "nr \<in> set (take (li (pcl (ecl s))) (load_reqs pool))" using assms(2) arg_cong [OF i(7), of set] by auto
  then obtain j where "nr = load_req (pool ! j) (of_nat (Suc j))" "j < length pool" by (auto simp: load_reqs_def dest!: in_set_takeD)
  moreover have "length (pool ! j) = KEY_LEN" if "j < length pool" for j using i(5) that by simp
  ultimately show ?thesis by (auto simp: load_req_def netreq_wf_def key_fits_def config_defs)
qed

lemma client_main_frame:
  assumes "client_main k fd True c = Some (Inr c')"
  shows "packs c' = packs c \<and> (\<exists>ms. sent (pcl c') = sent (pcl c) @ ms)"
proof (cases "pmain c")
  case (M_LOAD pc)
  with assms show ?thesis by (auto simp: client_main_def res_simps split: if_splits dest: load_step_sent)
qed (use assms in \<open>auto simp: client_main_def connect_socket_def connect_server_def split: if_splits\<close>)

lemma ack_poller_frame:
  assumes "ack_poller c = Some (Inr c')"
  shows "packs c' = packs c \<and> sent (pcl c') = sent (pcl c)"
  using assms by (auto simp: ack_poller_def Let_def poll_ack_def res_simps split: poll_pc.splits list.splits option.splits if_splits)

lemma e2e_main:
  assumes inv: "e2e_inv C n cfd pool h0 s" and st: "client_main (length pool) fd True (ecl s) = Some (Inr c)"
  shows "e2e_inv C n cfd pool h0 (s\<lparr>ecl := c, up := up s @ written (ecl s) c\<rparr>)"
proof -
  obtain a where a: "cp_inv pool (ecl s) a" using e2e_invD(1) [OF inv] by blast
  obtain ms' where c: "packs c = packs (ecl s)" "sent (pcl c) = sent (pcl (ecl s)) @ ms'" using client_main_frame [OF st] by blast
  obtain ms where "map (Pair cfd) (sent (pcl (ecl s))) = received (esrv s) @ todo (esrv s) @ map (Pair cfd) ms" "up s = concat (map netreq_bytes ms)"
    using e2e_invD(3) [OF inv] by blast
  then have "map (Pair cfd) (sent (pcl c)) = received (esrv s) @ todo (esrv s) @ map (Pair cfd) (ms @ ms') \<and> up s @ written (ecl s) c = concat (map netreq_bytes (ms @ ms'))"
    using c(2) by (simp add: written_def)
  then have "\<exists>ms. map (Pair cfd) (sent (pcl c)) = received (esrv s) @ todo (esrv s) @ map (Pair cfd) ms \<and> up s @ written (ecl s) c = concat (map netreq_bytes ms)" by blast
  moreover have "\<exists>a. cp_inv pool c a" using cp_inv_main [OF a st] by blast
  ultimately show ?thesis using inv c(1) unfolding e2e_inv_def by simp
qed

lemma e2e_poll:
  assumes inv: "e2e_inv C n cfd pool h0 s" and st: "ack_poller (ecl s) = Some (Inr c)"
  shows "e2e_inv C n cfd pool h0 (s\<lparr>ecl := c\<rparr>)"
proof -
  obtain a where a: "cp_inv pool (ecl s) a" using e2e_invD(1) [OF inv] by blast
  with inv cp_inv_poll [OF a st] ack_poller_frame [OF st] show ?thesis unfolding e2e_inv_def by simp
qed

lemma e2e_deliver:
  assumes inv: "e2e_inv C n cfd pool h0 s" and h0: "\<And>i. hlr_ready (h0 i)" and d: "drop (length (packs (ecl s))) (map snd (hist s)) = nas @ rest"
    and es: "data_stream es" "stream_bytes es = concat (map netack_bytes nas)"
  shows "e2e_inv C n cfd pool h0 (s\<lparr>ecl := (ecl s)\<lparr>pin := (pin (ecl s))(psock (ecl s) := pin (ecl s) (psock (ecl s)) @ es), packs := packs (ecl s) @ nas\<rparr>\<rparr>)"
proof -
  let ?c = "(ecl s)\<lparr>pin := (pin (ecl s))(psock (ecl s) := pin (ecl s) (psock (ecl s)) @ es), packs := packs (ecl s) @ nas\<rparr>"
  obtain a where a: "cp_inv pool (ecl s) a" using e2e_invD(1) [OF inv] by blast
  note af = deliver_acks_for [OF inv h0 d]
  have "cp_step (length pool) (ecl s) ?c" using conjunct1 [OF af] es by (intro cp_net)
  moreover have "\<exists>r. map snd (hist s) = (packs (ecl s) @ nas) @ r" using af by blast
  ultimately show ?thesis using cp_inv_step [OF _ a] inv unfolding e2e_inv_def by simp
qed

lemma e2e_read:
  assumes inv: "e2e_inv C n cfd pool h0 s" and t: "todo (esrv s) = []" and u: "up s = bs @ rest" "length bs mod NETREQ_SIZE = 0"
  shows "e2e_inv C n cfd pool h0 (s\<lparr>esrv := (esrv s)\<lparr>todo := map (Pair cfd) (batch bs)\<rparr>, up := rest\<rparr>)"
proof -
  obtain ms where ms: "map (Pair cfd) (sent (pcl (ecl s))) = received (esrv s) @ map (Pair cfd) ms" "up s = concat (map netreq_bytes ms)"
    using e2e_invD(3) [OF inv] t by auto
  have "set ms \<subseteq> set (sent (pcl (ecl s)))" using arg_cong [OF ms(1), of set] by auto
  then have wf: "\<forall>nr \<in> set ms. netreq_wf nr" using sent_loaded [OF inv] by blast
  define j where "j = length bs div NETREQ_SIZE"
  have j: "length bs = j * NETREQ_SIZE" using u(2) by (auto simp: j_def)
  have len: "\<forall>nr \<in> set ms. length (netreq_bytes nr) = NETREQ_SIZE" using wf length_netreq_bytes by blast
  have "bs = take (j * NETREQ_SIZE) (up s)" "rest = drop (j * NETREQ_SIZE) (up s)" using u(1) j by simp_all
  then have b: "bs = concat (map netreq_bytes (take j ms))" "rest = concat (map netreq_bytes (drop j ms))"
    using concat_blocks [OF len, of j] ms(2) by simp_all
  have "batch bs = take j ms" unfolding b(1) using wf by (intro batch_concat) (auto dest: in_set_takeD)
  then have "map (Pair cfd) (sent (pcl (ecl s))) = received (esrv s) @ map (Pair cfd) (batch bs) @ map (Pair cfd) (drop j ms)"
    using ms(1) by (simp flip: map_append)
  moreover have "msys_reachable C n h0 ((esrv s)\<lparr>todo := map (Pair cfd) (batch bs)\<rparr>)"
    using e2e_invD(2) [OF inv] t by (blast intro: msys_reachable.m_step msys_step.m_read)
  ultimately show ?thesis using inv b(2) unfolding e2e_inv_def by auto
qed

lemma e2e_serve:
  assumes inv: "e2e_inv C n cfd pool h0 s" and h0: "\<And>i. hlr_ready (h0 i)" and st: "msys_step C n (esrv s) m" "received m @ todo m = received (esrv s) @ todo (esrv s)"
    and one: "\<forall>j. j \<noteq> i \<longrightarrow> hsyss m j = hsyss (esrv s) j" and tm: "\<forall>a \<in> set (new_acks (esrv s) m i). time_fits (snd a)"
  shows "e2e_inv C n cfd pool h0 (s\<lparr>esrv := m, hist := hist s @ map (\<lambda>a. (i, snd a)) (filter (\<lambda>a. fst a = cfd) (new_acks (esrv s) m i))\<rparr>)"
proof -
  let ?new = "new_acks (esrv s) m i" and ?h = "hist s @ map (\<lambda>a. (i, snd a)) (filter (\<lambda>a. fst a = cfd) (new_acks (esrv s) m i))"
  have r: "msys_reachable C n h0 m" using e2e_invD(2) [OF inv] st(1) by (rule msys_reachable.m_step)
  have cfd: "fst x = cfd" if "x \<in> set (received m)" for x using received_is_set [OF inv, of x] that st(2) by (metis Un_iff set_append)
  have "fst a = cfd" if "a \<in> set (acks (hlr (hsyss m i)))" for a
  proof -
    have "ack_tag a \<in> set (map msg_tag (arrived (hsyss m i)))"
      unfolding hsys_invD(6) [OF hsys_inv_reachable [OF msys_hsys_reachable [OF r] h0], of i, symmetric] using that by simp
    then show ?thesis using cfd msys_arrived [OF r, of i] by (auto simp: ack_tag_def msg_tag_def)
  qed
  then have "\<forall>a \<in> set ?new. fst a = cfd" unfolding acks_grow [OF st(1), of i] by simp
  then have new: "filter (\<lambda>a. fst a = cfd) ?new = ?new" "map (\<lambda>a. (cfd, snd a)) ?new = ?new"
    by (simp add: filter_id_conv, intro map_idI, auto simp: prod_eq_iff)
  have "acks (hlr (hsyss m j)) = map (\<lambda>x. (cfd, snd x)) (filter (\<lambda>x. fst x = j) ?h)" for j
  proof (cases "j = i")
    case True
    then show ?thesis using acks_grow [OF st(1), of i] e2e_invD(4) [OF inv, of i] new by (simp add: filter_map o_def)
  next
    case False
    then show ?thesis using one e2e_invD(4) [OF inv, of j] by (simp add: filter_map o_def)
  qed
  moreover have "\<forall>x \<in> set ?h. time_fits (snd x)" using e2e_invD(5) [OF inv] tm by auto
  moreover have "\<exists>rest. map snd ?h = packs (ecl s) @ rest" using e2e_invD(6) [OF inv] by auto
  ultimately show ?thesis using inv r st(2) unfolding e2e_inv_def by (simp flip: append_assoc)
qed

lemma e2e_inv_step: "e2e_step C n cfd (length pool) s s' \<Longrightarrow> (\<And>i. hlr_ready (h0 i)) \<Longrightarrow> e2e_inv C n cfd pool h0 s \<Longrightarrow> e2e_inv C n cfd pool h0 s'"
proof (induction rule: e2e_step.induct)
  case (e_main fd s c)
  show ?case by (rule e2e_main [OF e_main(4,1)])
next
  case (e_poll s c)
  show ?case by (rule e2e_poll [OF e_poll(3,1)])
next
  case (e_deliver s nas rest es)
  show ?case by (rule e2e_deliver [OF e_deliver(5,4,1-3)])
next
  case (e_read s bs rest)
  show ?case by (rule e2e_read [OF e_read(5,1-3)])
next
  case (e_serve s m i)
  show ?case by (rule e2e_serve [OF e_serve(6,5,1-4)])
qed

lemma e2e_inv_steps:
  assumes "(e2e_step C n cfd (length pool))\<^sup>*\<^sup>* s s'" and "\<And>i. hlr_ready (h0 i)" and "e2e_inv C n cfd pool h0 s"
  shows "e2e_inv C n cfd pool h0 s'"
  using assms(1,3)
proof (induction rule: rtranclp_induct)
  case (step y z)
  from e2e_inv_step [OF step(2) assms(2) step(3) [OF step(4)]] show ?case .
qed

lemma e2e_inv_start:
  assumes "cp_inv pool c 0" and "sent (pcl c) = []" and "packs c = []" and "\<And>i. hlr_ready (h0 i)"
  shows "e2e_inv C n cfd pool h0 (e2e_start c h0)"
  using assms by (auto simp: e2e_inv_def e2e_start_def msys_start_def hsys_start_def hlr_ready_def intro: msys_reachable.m_start [unfolded msys_start_def hsys_start_def])

subsection \<open>The end of the load\<close>

text \<open>When every message is acknowledged, nothing is in flight anywhere.\<close>

lemma all_acked:
  assumes inv: "e2e_inv C n cfd pool h0 s" and h0: "\<And>i. hlr_ready (h0 i)" and l: "length (hist s) = length (sent (pcl (ecl s)))"
  shows "received (esrv s) = map (Pair cfd) (sent (pcl (ecl s))) \<and> todo (esrv s) = [] \<and> up s = [] \<and> inflight (hsyss (esrv s) i) = []"
proof -
  obtain ms where ms: "map (Pair cfd) (sent (pcl (ecl s))) = received (esrv s) @ todo (esrv s) @ map (Pair cfd) ms" "up s = concat (map netreq_bytes ms)"
    using e2e_invD(3) [OF inv] by blast
  have len: "length (received (esrv s)) = length (hist s)" "todo (esrv s) = []" "ms = []"
    using hist_length [OF inv h0] l arg_cong [OF ms(1), of length] by auto
  let ?g = "\<lambda>m. case hlr_idx C n (snd m) of Inr i \<Rightarrow> Some i | Inl _ \<Rightarrow> None"
  have g: "(\<lambda>m :: int \<times> netreq. routed C n j (snd m)) = (\<lambda>m. ?g m = Some j)" for j by (auto simp: routed_def fun_eq_iff split: sum.splits)
  have le: "length (filter (\<lambda>x. fst x = j) (hist s)) + length (inflight (hsyss (esrv s) j)) = length (filter (\<lambda>m. ?g m = Some j) (received (esrv s)))" for j
    using arg_cong [OF e2e_acks [OF inv h0, of j], of length] e2e_invD(4) [OF inv, of j] unfolding g by simp
  have "length (filter (\<lambda>x. fst x = i) (hist s)) = length (filter (\<lambda>m. ?g m = Some i) (received (esrv s)))"
    using le len(1) by (intro class_eq) (metis le_add1, simp)
  with le [of i] ms len show ?thesis by simp
qed

end
