(* ===== verification/Load_Complete.thy ===== *)
theory Load_Complete
  imports End_To_End
begin

section \<open>The load can always be completed\<close>

text \<open>
  No state that the client and the server reach together, with the handler threads running, is a trap: the server can work off what is on its way, the poller can
  process what has been acknowledged, and then the main thread can go on, until the load has ended.
\<close>

subsection \<open>The server works off its messages\<close>

definition h_work :: "'p hsys \<Rightarrow> nat" where
  "h_work hs = 2 * length (q_list (req_q (hlr hs))) + length (pc_reqs (pc hs)) + (case pending hs of Some _ \<Rightarrow> 3 | None \<Rightarrow> 0)"

definition srv_work :: "nat \<Rightarrow> 'p e2e \<Rightarrow> nat" where
  "srv_work n s = (\<Sum>i < n. h_work (hsyss (esrv s) i)) + 4 * length (todo (esrv s)) + 5 * (length (up s) div NETREQ_SIZE)"

definition running :: "'p e2e \<Rightarrow> bool" where
  "running s \<longleftrightarrow> (\<forall>i. pc (hsyss (esrv s) i) \<noteq> H_EXIT)"

lemma sum_less_one: "i < (n :: nat) \<Longrightarrow> \<forall>j. j \<noteq> i \<longrightarrow> f j = g j \<Longrightarrow> f i < g i \<Longrightarrow> (\<Sum>j < n. f j) < (\<Sum>j < n. g j :: nat)"
  by (rule sum_strict_mono_ex1) (auto simp: le_less)

lemma e2e_hsys_inv:
  assumes "e2e_inv C n cfd pool h0 s" and "\<And>i. hlr_ready (h0 i)"
  shows "hsys_inv (h0 i) (hsyss (esrv s) i)"
  by (rule hsys_inv_reachable [OF msys_hsys_reachable [OF e2e_invD(2) [OF assms(1)]] assms(2)])

text \<open>Only the handlers of the devices have work.\<close>

lemma idle_beyond:
  assumes inv: "e2e_inv C n cfd pool h0 s" and h0: "\<And>i. hlr_ready (h0 i)" and i: "n \<le> i"
  shows "inflight (hsyss (esrv s) i) = []"
proof -
  have "\<not> routed C n i nr" for nr using i by (auto simp: routed_def hlr_idx_def res_simps split: if_splits prod.splits) (metis gr_zeroI leD mod_less_divisor)
  with arg_cong [OF e2e_acks [OF inv h0, of i], of length] show ?thesis by simp
qed

text \<open>A step of the server that acknowledges nothing.\<close>

lemma e_quiet:
  assumes "msys_step C n (esrv s) m" and "received m @ todo m = received (esrv s) @ todo (esrv s)" and "\<forall>j. j \<noteq> i \<longrightarrow> hsyss m j = hsyss (esrv s) j"
    and "acks (hlr (hsyss m i)) = acks (hlr (hsyss (esrv s) i))"
  shows "e2e_step C n cfd k s (s\<lparr>esrv := m\<rparr>)"
proof -
  have na: "new_acks (esrv s) m i = []" using assms(4) by (simp add: new_acks_def)
  have "e2e_step C n cfd k s (s\<lparr>esrv := m, hist := hist s @ map (\<lambda>a. (i, snd a)) (filter (\<lambda>a. fst a = cfd) (new_acks (esrv s) m i))\<rparr>)"
    by (rule e_serve [OF assms(1-3)]) (simp add: na)
  then show ?thesis unfolding na by simp
qed

text \<open>A handler takes the next request of its queue, or ends the one it has; before that, the clock may show the time the request came.\<close>

lemma serve_handler:
  assumes inv: "e2e_inv C n cfd pool h0 s" and h0: "\<And>i. hlr_ready (h0 i)" and run: "running s" and w: "pc_reqs (pc (hsyss (esrv s) i)) @ q_list (req_q (hlr (hsyss (esrv s) i))) \<noteq> []" and i: "i < n"
  shows "\<exists>s'. (e2e_step C n cfd k)\<^sup>*\<^sup>* s s' \<and> srv_work n s' < srv_work n s \<and> running s' \<and> ecl s' = ecl s"
proof (cases "pc (hsyss (esrv s) i)")
  case H_NEXT
  let ?m = "esrv s"
  let ?x = "hsyss ?m i"
  note hi = e2e_hsys_inv [OF inv h0, of i]
  obtain r rs where q: "q_list (req_q (hlr ?x)) = r # rs" using w H_NEXT by (cases "q_list (req_q (hlr ?x))") auto
  then have nn: "r \<noteq> NULL" using hsys_distinct(3) [OF hi] by (auto simp: inflight_def)
  from get_next_ok [OF hi H_NEXT, of C] q obtain h1 where h1: "get_next_request C True (hlr ?x) = Inr (r, h1)" "q_list (req_q h1) = rs" by auto
  with H_NEXT nn have st: "request_handler_step C False True (pc ?x) (hlr ?x) = Inr (H_END r, h1)" by simp
  let ?m' = "?m\<lparr>hsyss := (hsyss ?m)(i := ?x\<lparr>hlr := h1, pc := H_END r\<rparr>)\<rparr>"
  have ms: "msys_step C n ?m ?m'" by (rule m_handle [OF st])
  have a: "acks h1 = acks (hlr ?x)" using h1(1) by (auto simp: get_next_request_def Let_def res_simps split: if_splits dest: add_request_info_acks)
  then have e: "e2e_step C n cfd k s (s\<lparr>esrv := ?m'\<rparr>)" by (intro e_quiet [OF ms, of i]) simp_all
  have "(\<Sum>j < n. h_work (hsyss ?m' j)) < (\<Sum>j < n. h_work (hsyss ?m j))"
    by (rule sum_less_one [OF i]) (use H_NEXT q h1(2) in \<open>auto simp: h_work_def\<close>)
  then have "srv_work n (s\<lparr>esrv := ?m'\<rparr>) < srv_work n s" by (simp add: srv_work_def)
  moreover have "running (s\<lparr>esrv := ?m'\<rparr>)" using run by (simp add: running_def)
  ultimately show ?thesis using e by (intro exI [of _ "s\<lparr>esrv := ?m'\<rparr>"]) auto
next
  case (H_END r)
  let ?m = "esrv s"
  let ?x = "hsyss ?m i"
  let ?t = "sw_start_tv (rsw (req_arr (hlr ?x) r))"
  let ?x1 = "?x\<lparr>hlr := (hlr ?x)\<lparr>clock := ?t\<rparr>\<rparr>"
  let ?m1 = "?m\<lparr>hsyss := (hsyss ?m)(i := ?x1)\<rparr>"
  have ms1: "msys_step C n ?m ?m1" by (rule m_tick)
  then have e1: "e2e_step C n cfd k s (s\<lparr>esrv := ?m1\<rparr>)" by (intro e_quiet [OF ms1, of i]) simp_all
  have hi: "hsys_inv (h0 i) ?x1" by (rule hsys_inv_step [OF hsys_step.tick e2e_hsys_inv [OF inv h0, of i]])
  have pc1: "pc ?x1 = H_END r" using H_END by simp
  obtain h' where h': "net_end_req r (hlr ?x1) = Inr h'" "req_q h' = req_q (hlr ?x1)" using end_req_ok [OF hi pc1] by blast
  then have st: "request_handler_step C False True (pc (hsyss ?m1 i)) (hlr (hsyss ?m1 i)) = Inr (H_NEXT, h')" using pc1 by simp
  let ?m2 = "?m1\<lparr>hsyss := (hsyss ?m1)(i := (hsyss ?m1 i)\<lparr>hlr := h', pc := H_NEXT\<rparr>)\<rparr>"
  have ms2: "msys_step C n ?m1 ?m2" by (rule m_handle [OF st])
  have "acks h' = acks (hlr ?x1) @ [ack_of ?t (req_arr (hlr ?x1) r)]" using h'(1)
    by (auto simp: net_end_req_def Let_def send_ack_def res_simps ack_of_def sw_get_usec_diff sw_end_def)
  then have na2: "new_acks ?m1 ?m2 i = [ack_of ?t (req_arr (hlr ?x1) r)]" by (simp add: new_acks_def)
  let ?s2 = "s\<lparr>esrv := ?m2, hist := hist s @ map (\<lambda>a. (i, snd a)) (filter (\<lambda>a. fst a = cfd) (new_acks ?m1 ?m2 i))\<rparr>"
  have "e2e_step C n cfd k (s\<lparr>esrv := ?m1\<rparr>) ((s\<lparr>esrv := ?m1\<rparr>)\<lparr>esrv := ?m2, hist := hist (s\<lparr>esrv := ?m1\<rparr>) @ map (\<lambda>a. (i, snd a)) (filter (\<lambda>a. fst a = cfd) (new_acks (esrv (s\<lparr>esrv := ?m1\<rparr>)) ?m2 i))\<rparr>)"
    by (rule e_serve) (use ms2 na2 in \<open>simp_all add: time_fits_def ack_of_def\<close>)
  then have e2: "e2e_step C n cfd k (s\<lparr>esrv := ?m1\<rparr>) ?s2" by simp
  have "(\<Sum>j < n. h_work (hsyss ?m2 j)) < (\<Sum>j < n. h_work (hsyss ?m j))"
    by (rule sum_less_one [OF i]) (use H_END h'(2) in \<open>auto simp: h_work_def\<close>)
  then have "srv_work n ?s2 < srv_work n s" by (simp add: srv_work_def)
  moreover have "running ?s2" using run by (simp add: running_def)
  moreover have "(e2e_step C n cfd k)\<^sup>*\<^sup>* s ?s2" using e1 e2 by (meson converse_rtranclp_into_rtranclp r_into_rtranclp)
  ultimately show ?thesis by (intro exI [of _ ?s2]) simp
next
  case H_EXIT
  with run show ?thesis by (auto simp: running_def)
qed

lemma serve_forward:
  assumes inv: "e2e_inv C n cfd pool h0 s" and h0: "\<And>i. hlr_ready (h0 i)" and run: "running s" and i: "i < n"
    and p: "pending (hsyss (esrv s) i) = Some r" and w: "pc_reqs (pc (hsyss (esrv s) i)) @ q_list (req_q (hlr (hsyss (esrv s) i))) = []"
  shows "\<exists>s'. (e2e_step C n cfd k)\<^sup>*\<^sup>* s s' \<and> srv_work n s' < srv_work n s \<and> running s' \<and> ecl s' = ecl s"
proof -
  let ?m = "esrv s"
  let ?x = "hsyss ?m i"
  note hi = e2e_hsys_inv [OF inv h0, of i]
  have "now (flying (hlr ?x)) \<noteq> int QDEPTH" using hsys_invD(3) [OF hi] w by (simp add: config_defs)
  with forward_ok [OF hi p] obtain h' where f: "forward_req_to_hlr r (hlr ?x) = Some (Inr (0, h'))" "hsys_inv (h0 i) (?x\<lparr>hlr := h', pending := None\<rparr>)" by auto
  let ?m' = "?m\<lparr>hsyss := (hsyss ?m)(i := ?x\<lparr>hlr := h', pending := None\<rparr>)\<rparr>"
  have ms: "msys_step C n ?m ?m'" by (rule m_forward [OF p f(1)])
  have h': "acks h' = acks (hlr ?x)" "now (flying h') = now (flying (hlr ?x)) + 1"
    using f(1) forward_now [OF f(1)] hsys_invD(1) [OF hi] by (auto simp: forward_req_to_hlr_def res_simps hlr_queues_def split: option.splits)
  have l: "length (q_list (req_q h')) \<le> 1" "pc_reqs (pc ?x) = []" using hsys_invD(3) [OF f(2)] hsys_invD(3) [OF hi] h'(2) w by simp_all
  have e: "e2e_step C n cfd k s (s\<lparr>esrv := ?m'\<rparr>)" using h'(1) by (intro e_quiet [OF ms, of i]) simp_all
  have "(\<Sum>j < n. h_work (hsyss ?m' j)) < (\<Sum>j < n. h_work (hsyss ?m j))"
    by (rule sum_less_one [OF i]) (use p l in \<open>auto simp: h_work_def\<close>)
  then have "srv_work n (s\<lparr>esrv := ?m'\<rparr>) < srv_work n s" by (simp add: srv_work_def)
  moreover have "running (s\<lparr>esrv := ?m'\<rparr>)" using run by (simp add: running_def)
  ultimately show ?thesis using e by (intro exI [of _ "s\<lparr>esrv := ?m'\<rparr>"]) auto
qed

lemma sum_add_one: "i < (n :: nat) \<Longrightarrow> \<forall>j. j \<noteq> i \<longrightarrow> f j = g j \<Longrightarrow> f i = g i + c \<Longrightarrow> (\<Sum>j < n. f j) = (\<Sum>j < n. g j :: nat) + c"
  by (simp add: sum.remove [of _ i])

lemma serve_take:
  assumes inv: "e2e_inv C n cfd pool h0 s" and h0: "\<And>i. hlr_ready (h0 i)" and run: "running s" and n: "0 < n" "n \<le> MAX_HLR"
    and p: "\<forall>j. pending (hsyss (esrv s) j) = None" and t: "todo (esrv s) = m # rest"
  shows "\<exists>s'. (e2e_step C n cfd k)\<^sup>*\<^sup>* s s' \<and> srv_work n s' < srv_work n s \<and> running s' \<and> ecl s' = ecl s"
proof -
  obtain fd nr where m: "m = (fd, nr)" by (cases m)
  obtain ms where ms: "map (Pair cfd) (sent (pcl (ecl s))) = received (esrv s) @ todo (esrv s) @ map (Pair cfd) ms" using e2e_invD(3) [OF inv] by blast
  from arg_cong [OF this, of set] t m have "nr \<in> set (sent (pcl (ecl s)))" by auto
  then have k: "key_fits nr" using sent_loaded [OF inv] by blast
  obtain i where i: "hlr_idx C n nr = Inr i" "i < n" using hlr_idx_ok [OF k n(1)] by blast
  let ?m = "esrv s"
  let ?x = "hsyss ?m i"
  obtain req h' where r: "make_request_from_netreq nr fd (hlr ?x) = Inr (req, h')"
    using recv_ok [OF e2e_hsys_inv [OF inv h0, of i], of nr fd] p k by (auto simp: key_fits_def)
  let ?m' = "?m\<lparr>hsyss := (hsyss ?m)(i := ?x\<lparr>hlr := h', pending := Some req, arrived := arrived ?x @ [(fd, nr)]\<rparr>), todo := rest, received := received ?m @ [(fd, nr)]\<rparr>"
  have ms: "msys_step C n ?m ?m'" by (rule m_take [OF _ p i(1) _ r]) (use t m i(2) n(2) in simp_all)
  have h': "acks h' = acks (hlr ?x)" "req_q h' = req_q (hlr ?x)" using r by (auto simp: make_request_from_netreq_def res_simps split: if_splits)
  have e: "e2e_step C n cfd k s (s\<lparr>esrv := ?m'\<rparr>)" using h'(1) t m by (intro e_quiet [OF ms, of i]) simp_all
  have "(\<Sum>j < n. h_work (hsyss ?m' j)) = (\<Sum>j < n. h_work (hsyss ?m j)) + 3"
    by (rule sum_add_one [OF i(2)]) (use p h'(2) in \<open>auto simp: h_work_def\<close>)
  then have "srv_work n (s\<lparr>esrv := ?m'\<rparr>) < srv_work n s" using t by (simp add: srv_work_def)
  moreover have "running (s\<lparr>esrv := ?m'\<rparr>)" using run by (simp add: running_def)
  ultimately show ?thesis using e by (intro exI [of _ "s\<lparr>esrv := ?m'\<rparr>"]) auto
qed

text \<open>The bytes on their way are whole messages.\<close>

lemma up_whole:
  assumes inv: "e2e_inv C n cfd pool h0 s"
  shows "length (up s) mod NETREQ_SIZE = 0" "length (batch (up s)) = length (up s) div NETREQ_SIZE"
proof -
  obtain ms where ms: "map (Pair cfd) (sent (pcl (ecl s))) = received (esrv s) @ todo (esrv s) @ map (Pair cfd) ms" "up s = concat (map netreq_bytes ms)"
    using e2e_invD(3) [OF inv] by blast
  have "set ms \<subseteq> set (sent (pcl (ecl s)))" using arg_cong [OF ms(1), of set] by auto
  then have "\<forall>nr \<in> set ms. length (netreq_bytes nr) = NETREQ_SIZE" using sent_loaded [OF inv] length_netreq_bytes by blast
  from concat_blocks [OF this] ms(2) show "length (up s) mod NETREQ_SIZE = 0" by simp
  show "length (batch (up s)) = length (up s) div NETREQ_SIZE" by (simp add: batch_def)
qed

lemma serve_read:
  assumes inv: "e2e_inv C n cfd pool h0 s" and run: "running s" and t: "todo (esrv s) = []" "up s \<noteq> []"
  shows "\<exists>s'. (e2e_step C n cfd k)\<^sup>*\<^sup>* s s' \<and> srv_work n s' < srv_work n s \<and> running s' \<and> ecl s' = ecl s"
proof -
  let ?s = "s\<lparr>esrv := (esrv s)\<lparr>todo := map (Pair cfd) (batch (up s))\<rparr>, up := []\<rparr>"
  note u = up_whole [OF inv]
  have "e2e_step C n cfd k s ?s" by (rule e_read [OF t(1) _ u(1)]) simp
  moreover have "0 < length (up s) div NETREQ_SIZE" using u(1) t(2) by (metis bot_nat_0.not_eq_extremum div_mult_mod_eq length_0_conv mult_0 plus_nat.add_0)
  then have "srv_work n ?s < srv_work n s" using u(2) t(1) by (simp add: srv_work_def)
  moreover have "running ?s" using run by (simp add: running_def)
  ultimately show ?thesis by (intro exI [of _ ?s]) auto
qed

lemma serve_progress:
  assumes inv: "e2e_inv C n cfd pool h0 s" and h0: "\<And>i. hlr_ready (h0 i)" and run: "running s" and n: "0 < n" "n \<le> MAX_HLR" and w: "srv_work n s \<noteq> 0"
  shows "\<exists>s'. (e2e_step C n cfd k)\<^sup>*\<^sup>* s s' \<and> srv_work n s' < srv_work n s \<and> running s' \<and> ecl s' = ecl s"
proof -
  let ?m = "esrv s"
  let ?busy = "\<lambda>i. pc_reqs (pc (hsyss ?m i)) @ q_list (req_q (hlr (hsyss ?m i))) \<noteq> []"
  consider (handler) i where "i < n" "?busy i" | (forward) i r where "i < n" "\<not> ?busy i" "pending (hsyss ?m i) = Some r" |
    (idle) "\<forall>i < n. \<not> ?busy i \<and> pending (hsyss ?m i) = None" by (metis not_Some_eq)
  then show ?thesis
  proof cases
    case handler
    then show ?thesis using serve_handler [OF inv h0 run] by blast
  next
    case forward
    then show ?thesis using serve_forward [OF inv h0 run forward(1,3)] by blast
  next
    case idle
    have p: "pending (hsyss ?m j) = None" for j
    proof (cases "j < n")
      case False
      with idle_beyond [OF inv h0, of j] show ?thesis by (simp add: inflight_def split: option.splits)
    qed (use idle in blast)
    have "h_work (hsyss ?m i) = 0" if "i < n" for i using idle that by (auto simp: h_work_def)
    then have z: "srv_work n s = 4 * length (todo ?m) + 5 * (length (up s) div NETREQ_SIZE)" by (simp add: srv_work_def)
    show ?thesis
    proof (cases "todo ?m")
      case Nil
      with z w have "up s \<noteq> []" by auto
      then show ?thesis by (rule serve_read [OF inv run Nil])
    next
      case (Cons m rest)
      then show ?thesis using serve_take [OF inv h0 run n _ Cons] p by blast
    qed
  qed
qed

lemma server_idles:
  assumes h0: "\<And>i. hlr_ready (h0 i)" and n: "0 < n" "n \<le> MAX_HLR" and inv: "e2e_inv C n cfd pool h0 s" and run: "running s"
  shows "\<exists>s'. (e2e_step C n cfd (length pool))\<^sup>*\<^sup>* s s' \<and> e2e_inv C n cfd pool h0 s' \<and> srv_work n s' = 0 \<and> running s' \<and> ecl s' = ecl s"
  using inv run
proof (induction "srv_work n s" arbitrary: s rule: less_induct)
  case less
  show ?case
  proof (cases "srv_work n s = 0")
    case True
    with less.prems show ?thesis by blast
  next
    case False
    from serve_progress [OF less.prems(1) h0 less.prems(2) n False, of "length pool"] obtain s1 where
      s1: "(e2e_step C n cfd (length pool))\<^sup>*\<^sup>* s s1" "srv_work n s1 < srv_work n s" "running s1" "ecl s1 = ecl s" by blast
    from less.hyps [OF s1(2) e2e_inv_steps [OF s1(1) h0 less.prems(1)] s1(3)] obtain s2 where
      "(e2e_step C n cfd (length pool))\<^sup>*\<^sup>* s1 s2" "e2e_inv C n cfd pool h0 s2" "srv_work n s2 = 0" "running s2" "ecl s2 = ecl s1" by blast
    with s1(1,4) show ?thesis by (metis rtranclp_trans)
  qed
qed

text \<open>When the server is idle, everything the client has sent is acknowledged.\<close>

lemma idle_acked:
  assumes inv: "e2e_inv C n cfd pool h0 s" and h0: "\<And>i. hlr_ready (h0 i)" and n: "0 < n" and z: "srv_work n s = 0"
  shows "length (hist s) = length (sent (pcl (ecl s)))"
proof -
  obtain ms where ms: "map (Pair cfd) (sent (pcl (ecl s))) = received (esrv s) @ todo (esrv s) @ map (Pair cfd) ms" "up s = concat (map netreq_bytes ms)"
    using e2e_invD(3) [OF inv] by blast
  have t: "todo (esrv s) = []" "length (up s) div NETREQ_SIZE = 0" and w: "\<And>i. i < n \<Longrightarrow> h_work (hsyss (esrv s) i) = 0" using z by (auto simp: srv_work_def)
  have "up s = []" using up_whole(1) [OF inv] t(2) by (metis div_mult_mod_eq length_0_conv mult_0 plus_nat.add_0)
  then have "ms = []" using ms(2) by (cases ms) (auto simp: netreq_bytes_def)
  then have r: "map (Pair cfd) (sent (pcl (ecl s))) = received (esrv s)" using ms(1) t(1) by simp
  have fl: "inflight (hsyss (esrv s) i) = []" for i
  proof (cases "i < n")
    case True
    with w [OF True] show ?thesis by (auto simp: inflight_def h_work_def split: option.splits)
  qed (use idle_beyond [OF inv h0] in simp)
  have ex: "\<exists>i. routed C n i (snd m)" if "m \<in> set (received (esrv s))" for m
  proof -
    have "snd m \<in> set (sent (pcl (ecl s)))" using that unfolding r [symmetric] by auto
    then show ?thesis using sent_loaded [OF inv] hlr_idx_ok [OF _ n] unfolding routed_def by blast
  qed
  have "length (received (esrv s)) \<le> length (hist s)"
  proof (rule length_by_class [where f = "\<lambda>m. (SOME i. routed C n i (snd m))" and g = "\<lambda>x. Some (fst x)"])
    fix i
    have "(SOME j. routed C n j (snd m)) = i \<longleftrightarrow> routed C n i (snd m)" if "m \<in> set (received (esrv s))" for m
      using ex [OF that] by (metis (no_types, lifting) Inr_inject routed_def someI_ex)
    then have "filter (\<lambda>m. (SOME j. routed C n j (snd m)) = i) (received (esrv s)) = filter (\<lambda>m. routed C n i (snd m)) (received (esrv s))"
      by (intro filter_cong) simp_all
    with arg_cong [OF e2e_acks [OF inv h0, of i], of length] fl [of i] e2e_invD(4) [OF inv, of i]
    show "length (filter (\<lambda>m. (SOME j. routed C n j (snd m)) = i) (received (esrv s))) \<le> length (filter (\<lambda>x. Some (fst x) = Some i) (hist s))" by simp
  qed
  with hist_length [OF inv h0] r show ?thesis by (metis le_antisym length_map)
qed

subsection \<open>The poller processes what has been acknowledged\<close>

text \<open>What the poller leaves alone.\<close>

definition same_load :: "cproc \<Rightarrow> cproc \<Rightarrow> bool" where
  "same_load c c' \<longleftrightarrow> pmain c' = pmain c \<and> li (pcl c') = li (pcl c) \<and> sent (pcl c') = sent (pcl c) \<and> nr_arr (pcl c') = nr_arr (pcl c)"

fun poll_rank :: "poll_pc \<Rightarrow> nat" where
  "poll_rank (P_ACKS []) = 5" | "poll_rank P_TEST = 4" | "poll_rank (P_READ fd) = 3" | "poll_rank (P_ACKS (na # nas)) = 2" | "poll_rank P_RET = 0"

definition poll_measure :: "cproc \<Rightarrow> nat \<Rightarrow> nat" where
  "poll_measure c a = 8 * (length (packs c) - a) + poll_rank (ppoll c)"

lemma ack_poller_same: "ack_poller c = Some (Inr c') \<Longrightarrow> same_load c c'"
  by (auto simp: same_load_def ack_poller_def Let_def poll_ack_def res_simps split: poll_pc.splits list.splits option.splits if_splits)

lemma poll_progress:
  assumes inv: "cp_inv pool c a" and pm: "pmain c = M_LOAD lp" and lt: "a < length (packs c)"
  shows "\<exists>c' a'. ack_poller c = Some (Inr c') \<and> cp_inv pool c' a' \<and> poll_measure c' a' < poll_measure c a"
proof (cases "ppoll c")
  case P_TEST
  have ns: "\<not> pstop c" using inv pm by (simp add: cp_inv_def)
  have "cp_inv pool (c\<lparr>ppoll := P_READ (psock c)\<rparr>) a" using inv P_TEST by (auto simp: cp_inv_def)
  moreover have "ack_poller c = Some (Inr (c\<lparr>ppoll := P_READ (psock c)\<rparr>))" using P_TEST ns by (simp add: ack_poller_def)
  ultimately show ?thesis using P_TEST by (auto simp: poll_measure_def)
next
  case (P_READ fd)
  have d: "pin c (psock c) \<noteq> []"
  proof
    assume e: "pin c (psock c) = []"
    obtain rest where "drop a (packs c) = rest" "stream_bytes (pin c (psock c)) = concat (map netack_bytes rest)" using inv P_READ by (auto simp: cp_inv_def)
    with e lt show False by (cases rest) (auto simp: netack_bytes_def)
  qed
  with read_ack_inv [OF inv P_READ] pm obtain c' nas where c': "ack_poller c = Some (Inr c')" "cp_inv pool c' a" "ppoll c' = P_ACKS nas" "nas \<noteq> []" by auto
  moreover have "packs c' = packs c" using ack_poller_frame [OF c'(1)] by simp
  ultimately show ?thesis using P_READ by (cases nas) (auto simp: poll_measure_def)
next
  case (P_ACKS nas)
  show ?thesis
  proof (cases nas)
    case Nil
    then have "ack_poller c = Some (Inr (c\<lparr>ppoll := P_TEST\<rparr>))" using P_ACKS by (simp add: ack_poller_def)
    moreover have "cp_inv pool (c\<lparr>ppoll := P_TEST\<rparr>) a" using inv P_ACKS Nil by (auto simp: cp_inv_def)
    ultimately show ?thesis using P_ACKS Nil by (auto simp: poll_measure_def)
  next
    case (Cons na nas')
    with poll_ack_inv [OF inv, of na nas'] P_ACKS obtain c' where c': "poll_ack (ack_type na) (elapsed_time na) (pcl c) = Inr c'" "cp_inv pool (c\<lparr>pcl := c', ppoll := P_ACKS nas'\<rparr>) (Suc a)" by auto
    then have "ack_poller c = Some (Inr (c\<lparr>pcl := c', ppoll := P_ACKS nas'\<rparr>))" using P_ACKS Cons by (simp add: ack_poller_def)
    moreover have "poll_measure (c\<lparr>pcl := c', ppoll := P_ACKS nas'\<rparr>) (Suc a) < poll_measure c a"
      using lt P_ACKS Cons by (cases nas') (simp_all add: poll_measure_def)
    ultimately show ?thesis using c'(2) by blast
  qed
next
  case P_RET
  with inv pm have False by (auto simp: cp_inv_def)
  then show ?thesis ..
qed

text \<open>The state after the client's part changed.\<close>

lemma poller_runs:
  assumes "cp_inv pool (ecl s) a" and "pmain (ecl s) = M_LOAD lp"
  shows "\<exists>c. (e2e_step C n cfd (length pool))\<^sup>*\<^sup>* s (s\<lparr>ecl := c\<rparr>) \<and> same_load (ecl s) c \<and> packs c = packs (ecl s) \<and> cp_inv pool c (length (packs c))"
  using assms
proof (induction "poll_measure (ecl s) a" arbitrary: s a rule: less_induct)
  case less
  show ?case
  proof (cases "a < length (packs (ecl s))")
    case False
    then have "a = length (packs (ecl s))" using less.prems(1) by (simp add: cp_inv_def)
    with less.prems(1) show ?thesis by (intro exI [of _ "ecl s"]) (simp add: same_load_def)
  next
    case True
    from poll_progress [OF less.prems True] obtain c' a' where c': "ack_poller (ecl s) = Some (Inr c')" "cp_inv pool c' a'" "poll_measure c' a' < poll_measure (ecl s) a" by blast
    note f = ack_poller_frame [OF c'(1)] ack_poller_same [OF c'(1)]
    have e: "e2e_step C n cfd (length pool) s (s\<lparr>ecl := c'\<rparr>)" by (rule e_poll [OF c'(1)])
    have "pmain (ecl (s\<lparr>ecl := c'\<rparr>)) = M_LOAD lp" using f(2) less.prems(2) by (simp add: same_load_def)
    with less.hyps [of "s\<lparr>ecl := c'\<rparr>" a'] c'(2,3) obtain c where
      c: "(e2e_step C n cfd (length pool))\<^sup>*\<^sup>* (s\<lparr>ecl := c'\<rparr>) (s\<lparr>ecl := c\<rparr>)" "same_load c' c" "packs c = packs c'" "cp_inv pool c (length (packs c))" by auto
    have "(e2e_step C n cfd (length pool))\<^sup>*\<^sup>* s (s\<lparr>ecl := c\<rparr>)" using e c(1) by (rule converse_rtranclp_into_rtranclp)
    with c f show ?thesis by (intro exI [of _ c]) (simp add: same_load_def)
  qed
qed

lemma deliver_all:
  assumes inv: "e2e_inv C n cfd pool h0 s"
  shows "\<exists>c. (e2e_step C n cfd k)\<^sup>*\<^sup>* s (s\<lparr>ecl := c\<rparr>) \<and> same_load (ecl s) c \<and> packs c = map snd (hist s)"
proof -
  obtain nas where nas: "map snd (hist s) = packs (ecl s) @ nas" using e2e_invD(6) [OF inv] by blast
  let ?es = "if nas = [] then [] else [SOCK_DATA (concat (map netack_bytes nas))]"
  let ?c = "(ecl s)\<lparr>pin := (pin (ecl s))(psock (ecl s) := pin (ecl s) (psock (ecl s)) @ ?es), packs := packs (ecl s) @ nas\<rparr>"
  have "data_stream ?es" by (cases nas) (auto simp: data_stream_def netack_bytes_def)
  then have "e2e_step C n cfd k s (s\<lparr>ecl := ?c\<rparr>)" using nas by (intro e_deliver [where nas = nas and rest = "[]"]) simp_all
  then show ?thesis using nas by (intro exI [of _ ?c]) (auto simp: same_load_def)
qed


subsection \<open>The main thread goes on\<close>

definition main_measure :: "nat \<Rightarrow> cproc \<Rightarrow> nat" where
  "main_measure k c = load_measure k \<lparr>cl = pcl c, cpc = load_pc_of (pmain c), acked = 0\<rparr>"

lemma main_measure_same: "same_load c c' \<Longrightarrow> main_measure k c' = main_measure k c"
  by (simp add: same_load_def main_measure_def load_measure_def)

lemma main_progress:
  assumes inv: "cp_inv pool c (length (sent (pcl c)))" and pm: "pmain c = M_LOAD lp" "lp \<noteq> L_DONE" and many: "100 \<le> length pool"
  shows "\<exists>c' lp'. client_main (length pool) 1 True c = Some (Inr c') \<and> pmain c' = M_LOAD lp' \<and> main_measure (length pool) c' < main_measure (length pool) c"
proof -
  let ?cs = "\<lparr>cl = pcl c, cpc = lp, acked = length (sent (pcl c))\<rparr>"
  have ci: "csys_inv pool ?cs" using inv pm by (simp add: cp_inv_def)
  obtain cs' where "csys_step (length pool) ?cs cs'" "cs' \<noteq> ?cs" using csys_progress [OF ci _ many] pm(2) by auto
  then obtain lp' c' where l: "load_step (length pool) lp (pcl c) = Some (Inr (lp', c'))" "(lp', c') \<noteq> (lp, pcl c)"
    by cases auto
  from load_step_measure [OF ci] l have "load_measure (length pool) (?cs\<lparr>cl := c', cpc := lp'\<rparr>) < load_measure (length pool) ?cs" by simp
  then have "main_measure (length pool) (c\<lparr>pcl := c', pmain := M_LOAD lp'\<rparr>) < main_measure (length pool) c"
    using pm by (simp add: main_measure_def load_measure_def)
  moreover have "client_main (length pool) 1 True c = Some (Inr (c\<lparr>pcl := c', pmain := M_LOAD lp'\<rparr>))" using l(1) pm by (simp add: client_main_def)
  ultimately show ?thesis by auto
qed

text \<open>Server, poller, main thread, in turns.\<close>

lemma load_round:
  assumes h0: "\<And>i. hlr_ready (h0 i)" and n: "0 < n" "n \<le> MAX_HLR" and many: "100 \<le> length pool" and inv: "e2e_inv C n cfd pool h0 s" and run: "running s" and pm: "pmain (ecl s) = M_LOAD lp" "lp \<noteq> L_DONE"
  shows "\<exists>s' lp'. (e2e_step C n cfd (length pool))\<^sup>*\<^sup>* s s' \<and> running s' \<and> pmain (ecl s') = M_LOAD lp' \<and> main_measure (length pool) (ecl s') < main_measure (length pool) (ecl s)"
proof -
  let ?R = "(e2e_step C n cfd (length pool))\<^sup>*\<^sup>*"
  obtain s1 where s1: "?R s s1" "e2e_inv C n cfd pool h0 s1" "srv_work n s1 = 0" "running s1" "ecl s1 = ecl s"
    using server_idles [OF h0 n inv run] by blast
  have all: "length (hist s1) = length (sent (pcl (ecl s)))" using idle_acked [OF s1(2) h0 n(1) s1(3)] s1(5) by simp
  obtain c2 where c2: "?R s1 (s1\<lparr>ecl := c2\<rparr>)" "same_load (ecl s) c2" "packs c2 = map snd (hist s1)"
    using deliver_all [OF s1(2)] s1(5) by auto
  from e2e_inv_steps [OF c2(1) h0 s1(2)] obtain a where "cp_inv pool (ecl (s1\<lparr>ecl := c2\<rparr>)) a" using e2e_invD(1) by blast
  moreover have "pmain (ecl (s1\<lparr>ecl := c2\<rparr>)) = M_LOAD lp" using c2(2) pm(1) by (simp add: same_load_def)
  ultimately obtain c3 where c3: "?R (s1\<lparr>ecl := c2\<rparr>) (s1\<lparr>ecl := c3\<rparr>)" "same_load c2 c3" "packs c3 = packs c2" "cp_inv pool c3 (length (packs c3))"
    using poller_runs [of pool "s1\<lparr>ecl := c2\<rparr>" a lp C n cfd] by auto
  have same: "same_load (ecl s) c3" using c2(2) c3(2) by (simp add: same_load_def)
  then have "length (packs c3) = length (sent (pcl c3))" "pmain c3 = M_LOAD lp" using all c2(3) c3(3) pm(1) by (simp_all add: same_load_def)
  with main_progress [of pool c3 lp] c3(4) pm(2) many obtain c4 lp' where
    c4: "client_main (length pool) 1 True c3 = Some (Inr c4)" "pmain c4 = M_LOAD lp'" "main_measure (length pool) c4 < main_measure (length pool) c3" by auto
  let ?s4 = "s1\<lparr>ecl := c4, up := up s1 @ written c3 c4\<rparr>"
  have "e2e_step C n cfd (length pool) (s1\<lparr>ecl := c3\<rparr>) ?s4" using e_main [of "length pool" 1 "s1\<lparr>ecl := c3\<rparr>" c4 C n cfd] c4(1) by simp
  with s1(1) c2(1) c3(1) have "?R s ?s4" by (meson rtranclp.rtrancl_into_rtrancl rtranclp_trans)
  moreover have "running ?s4" using s1(4) by (simp add: running_def)
  moreover have "main_measure (length pool) (ecl ?s4) < main_measure (length pool) (ecl s)" using c4(3) main_measure_same [OF same] by simp
  ultimately show ?thesis using c4(2) by (intro exI [of _ ?s4] exI [of _ lp']) simp
qed

lemma load_completes:
  assumes h0: "\<And>i. hlr_ready (h0 i)" and n: "0 < n" "n \<le> MAX_HLR" and many: "100 \<le> length pool" and inv: "e2e_inv C n cfd pool h0 s" and run: "running s" and pm: "pmain (ecl s) = M_LOAD lp"
  shows "\<exists>s'. (e2e_step C n cfd (length pool))\<^sup>*\<^sup>* s s' \<and> pmain (ecl s') = M_LOAD L_DONE \<and> running s'"
  using inv run pm
proof (induction "main_measure (length pool) (ecl s)" arbitrary: s lp rule: less_induct)
  case less
  show ?case
  proof (cases "lp = L_DONE")
    case True
    with less.prems show ?thesis by blast
  next
    case False
    from load_round [OF h0 n many less.prems False] obtain s1 lp1 where
      s1: "(e2e_step C n cfd (length pool))\<^sup>*\<^sup>* s s1" "running s1" "pmain (ecl s1) = M_LOAD lp1" "main_measure (length pool) (ecl s1) < main_measure (length pool) (ecl s)" by blast
    from less.hyps [OF s1(4) e2e_inv_steps [OF s1(1) h0 less.prems(1)] s1(2,3)] s1(1) show ?thesis by (meson rtranclp_trans)
  qed
qed

lemma load_completes_connect:
  assumes h0: "\<And>i. hlr_ready (h0 i)" and n: "0 < n" "n \<le> MAX_HLR" and many: "100 \<le> length pool" and inv: "e2e_inv C n cfd pool h0 s" and run: "running s"
  shows "pmain (ecl s) \<in> {M_FREE, M_JOIN, M_RET} \<or> (\<exists>s'. (e2e_step C n cfd (length pool))\<^sup>*\<^sup>* s s' \<and> pmain (ecl s') = M_LOAD L_DONE \<and> running s')"
proof (cases "pmain (ecl s)")
  case M_CONNECT
  let ?s = "s\<lparr>ecl := (ecl s)\<lparr>pmain := M_LOAD L_FILL\<rparr>\<rparr>"
  have "client_main (length pool) 1 True (ecl s) = Some (Inr ((ecl s)\<lparr>pmain := M_LOAD L_FILL\<rparr>))" using M_CONNECT by (simp add: client_main_def connect_server_def)
  from e_main [OF this, of C n cfd] have e: "e2e_step C n cfd (length pool) s ?s" by (simp add: written_def)
  have r: "running ?s" using run by (simp add: running_def)
  from load_completes [OF h0 n many e2e_inv_step [OF e h0 inv] r, of L_FILL] e show ?thesis by (auto intro: converse_rtranclp_into_rtranclp)
next
  case M_SOCKET
  then show ?thesis using e2e_invD(1) [OF inv] by (auto simp: cp_inv_def)
next
  case (M_LOAD lp)
  then show ?thesis using load_completes [OF h0 n many inv run M_LOAD] by blast
qed simp_all

lemma e2e_start_inv:
  assumes "100 \<le> unat nr" and "bench_init rnd nr = Inr c0" and "0 < fd" and "connect_socket fd (client_start c0 stdin) = Inr c1" and "\<And>i. hlr_ready (h0 i)"
  shows "e2e_inv C n cfd (key_pool (kg c0)) h0 (e2e_start c1 h0)" "length (key_pool (kg c0)) = unat nr"
proof -
  have ci: "csys_inv (key_pool (kg c0)) \<lparr>cl = c0, cpc = L_FILL, acked = 0\<rparr>" using bench_init_inv [OF many_keys [OF assms(1)] assms(2)] by blast
  have "sent (pcl c1) = []" "packs c1 = []" using assms(2,4) by (auto simp: connect_socket_def client_start_def bench_init_def res_simps split: if_splits)
  from e2e_inv_start [OF cp_inv_start [OF ci assms(3,4)] this assms(5)] show "e2e_inv C n cfd (key_pool (kg c0)) h0 (e2e_start c1 h0)" .
  show "length (key_pool (kg c0)) = unat nr" using bench_init_inv [OF many_keys [OF assms(1)] assms(2)] by blast
qed

subsection \<open>Properties\<close>

text \<open>
  C3: the load, end to end. With at least a hundred keys, in every run of the client's two threads, the network, the master and all handlers that begins with the socket of the client assigned and its poller before the first test (a
  poller that is scheduled earlier reads the standard input), and in which the sockets take every acknowledgement whole: the messages the server has taken are the first ones the client has
  sent; the acknowledgements that have arrived are the first ones the handlers have written; neither thread of the client crashes. When the client has finished its load, every key of the pool has been received once, in order;
  every handler has acknowledged exactly the keys its index owns, in the order of the pool, and has nothing in flight; and no handler has touched its device: nothing that was acknowledged has been stored.
\<close>

theorem end_to_end_load:
  assumes "100 \<le> unat nr" and "bench_init rnd nr = Inr c0" and "0 < fd" and "connect_socket fd (client_start c0 stdin) = Inr c1" and h0: "\<And>i. hlr_ready (h0 i)"
    and run: "(e2e_step C n cfd (unat nr))\<^sup>*\<^sup>* (e2e_start c1 h0) s"
  shows "(\<exists>ms. map (Pair cfd) (sent (pcl (ecl s))) = received (esrv s) @ todo (esrv s) @ ms) \<and>
     (\<exists>rest. map snd (hist s) = packs (ecl s) @ rest) \<and>
     (\<forall>i. acks (hlr (hsyss (esrv s) i)) = map (\<lambda>x. (cfd, snd x)) (filter (\<lambda>x. fst x = i) (hist s))) \<and>
     (\<forall>e fd'. client_main (unat nr) fd' True (ecl s) \<noteq> Some (Inl e) \<and> ack_poller (ecl s) \<noteq> Some (Inl e)) \<and>
     (pmain (ecl s) \<in> {M_LOAD L_DONE, M_FREE, M_JOIN, M_RET} \<longrightarrow>
        received (esrv s) = map (Pair cfd) (load_reqs (key_pool (kg c0))) \<and>
        (\<forall>i. inflight (hsyss (esrv s) i) = [] \<and> untouched (h0 i) (hlr (hsyss (esrv s) i)) \<and>
           map ack_tag (acks (hlr (hsyss (esrv s) i))) = map msg_tag (filter (\<lambda>m. routed C n i (snd m)) (map (Pair cfd) (load_reqs (key_pool (kg c0)))))))"
proof -
  let ?pool = "key_pool (kg c0)"
  note st = e2e_start_inv [OF assms(1-4) h0]
  have len: "length ?pool = unat nr" by (rule st(2))
  have inv: "e2e_inv C n cfd ?pool h0 s" using e2e_inv_steps [OF _ h0 st(1)] run len by simp
  then obtain a where a: "cp_inv ?pool (ecl s) a" using e2e_invD(1) by blast
  have safe: "\<forall>e fd'. client_main (unat nr) fd' True (ecl s) \<noteq> Some (Inl e) \<and> ack_poller (ecl s) \<noteq> Some (Inl e)"
    using client_main_safe [OF a] ack_poller_safe [OF a] assms(1) len by simp
  have pre: "\<exists>ms. map (Pair cfd) (sent (pcl (ecl s))) = received (esrv s) @ todo (esrv s) @ ms" using e2e_invD(3) [OF inv] by blast
  have "received (esrv s) = map (Pair cfd) (load_reqs ?pool) \<and> inflight (hsyss (esrv s) i) = [] \<and> untouched (h0 i) (hlr (hsyss (esrv s) i)) \<and>
      map ack_tag (acks (hlr (hsyss (esrv s) i))) = map msg_tag (filter (\<lambda>m. routed C n i (snd m)) (map (Pair cfd) (load_reqs ?pool)))"
    if "pmain (ecl s) \<in> {M_LOAD L_DONE, M_FREE, M_JOIN, M_RET}" for i
  proof -
    have "load_pc_of (pmain (ecl s)) = L_DONE" using that by auto
    from cp_inv_done [OF a this] have d: "sent (pcl (ecl s)) = load_reqs ?pool" "length (packs (ecl s)) = length ?pool" by simp_all
    have "length (packs (ecl s)) \<le> length (hist s)" using e2e_invD(6) [OF inv] by (metis length_append length_map le_add1)
    moreover have "length (hist s) \<le> length (sent (pcl (ecl s)))" using hist_length [OF inv h0] e2e_invD(3) [OF inv] by (metis length_append length_map le_add1 le_trans)
    ultimately have "length (hist s) = length (sent (pcl (ecl s)))" using d by simp
    from all_acked [OF inv h0 this, of i] e2e_acks [OF inv h0, of i] d(1)
      hsys_invD(10) [OF hsys_inv_reachable [OF msys_hsys_reachable [OF e2e_invD(2) [OF inv]] h0], of i]
    show ?thesis by simp
  qed
  with pre safe e2e_invD(4,6) [OF inv] show ?thesis by blast
qed

text \<open>For the examples: 300 keys, and handlers as \<open>handler_init\<close> leaves them.\<close>

lemma sample_system:
  "\<exists>c0 c1 (h0 :: unit handler). bench_init (\<lambda>k. k) 300 = Inr c0 \<and> connect_socket 3 (client_start c0 []) = Inr c1 \<and> hlr_ready h0"
  using bench_init_ok ex_ready [where 'p = unit] by (fastforce simp: connect_socket_def)

theorem end_to_end_load_witness:
  "\<exists>(c0 :: client) c1 (h0 :: unit handler) s. (e2e_step (\<lambda>_. (0, 0)) 2 7 300)\<^sup>*\<^sup>* (e2e_start c1 (\<lambda>_. h0)) s \<and> pmain (ecl s) = M_LOAD L_DONE \<and>
     received (esrv s) = map (Pair 7) (load_reqs (key_pool (kg c0))) \<and> length (received (esrv s)) = 300 \<and> dev (hlr (hsyss (esrv s) 0)) = dev h0"
proof -
  obtain c0 c1 and h0 :: "unit handler" where c: "bench_init (\<lambda>k. k) 300 = Inr c0" "connect_socket 3 (client_start c0 []) = Inr c1" and h0: "hlr_ready h0"
    using sample_system by blast
  have nr: "100 \<le> unat (300 :: u64)" "0 < (3 :: int)" and n: "0 < (2 :: nat)" "2 \<le> MAX_HLR" by (simp_all add: MAX_HLR_def)
  note st = e2e_start_inv [OF nr(1) c(1) nr(2) c(2), of "\<lambda>_. h0", OF h0]
  have "running (e2e_start c1 (\<lambda>_. h0))" "pmain (ecl (e2e_start c1 (\<lambda>_. h0))) = M_CONNECT"
    using c(2) by (auto simp: running_def e2e_start_def msys_start_def hsys_start_def connect_socket_def)
  with load_completes_connect [OF h0 n _ st(1)] st(2) obtain s where
    s: "(e2e_step (\<lambda>_. (0, 0)) 2 7 (unat (300 :: u64)))\<^sup>*\<^sup>* (e2e_start c1 (\<lambda>_. h0)) s" "pmain (ecl s) = M_LOAD L_DONE" by fastforce
  from end_to_end_load [OF nr(1) c(1) nr(2) c(2) h0 s(1)] s(2) have
    "received (esrv s) = map (Pair 7) (load_reqs (key_pool (kg c0)))" "untouched h0 (hlr (hsyss (esrv s) 0))" by blast+
  with s st(2) show ?thesis by (intro exI [of _ c0] exI [of _ c1] exI [of _ h0] exI [of _ s]) (simp add: untouched_def)
qed

text \<open>
  C4: the load is never stuck. With at least a hundred keys and between 1 and \<open>MAX_HLR\<close> handlers, in every state that the client and the server reach together from the moment at which the socket of the client is assigned and its poller is
  before its first test, with acknowledgements written whole, and in which no handler thread has returned, the client is past its load, or the threads and the network can go on
  so that the load ends: there is no deadlock between the client's semaphore, the windows and queues of the handlers and the sockets.
\<close>

theorem load_never_stuck:
  assumes "100 \<le> unat nr" and "bench_init rnd nr = Inr c0" and "0 < fd" and "connect_socket fd (client_start c0 stdin) = Inr c1" and h0: "\<And>i. hlr_ready (h0 i)"
    and n: "0 < n" "n \<le> MAX_HLR" and run: "(e2e_step C n cfd (unat nr))\<^sup>*\<^sup>* (e2e_start c1 h0) s" and "\<forall>i. pc (hsyss (esrv s) i) \<noteq> H_EXIT"
  shows "pmain (ecl s) \<in> {M_FREE, M_JOIN, M_RET} \<or> (\<exists>s'. (e2e_step C n cfd (unat nr))\<^sup>*\<^sup>* s s' \<and> pmain (ecl s') = M_LOAD L_DONE)"
proof -
  note st = e2e_start_inv [OF assms(1-4) h0]
  have "e2e_inv C n cfd (key_pool (kg c0)) h0 s" using e2e_inv_steps [OF _ h0 st(1)] run st(2) by simp
  from load_completes_connect [OF h0 n _ this] assms(1,9) st(2) show ?thesis by (auto simp: running_def)
qed

theorem load_never_stuck_witness:
  "\<exists>c1 (h0 :: unit handler) s. hlr_ready h0 \<and> (e2e_step (\<lambda>_. (0, 0)) 2 7 300)\<^sup>*\<^sup>* (e2e_start c1 (\<lambda>_. h0)) s \<and> pmain (ecl s) = M_LOAD L_DONE"
proof -
  obtain c0 c1 and h0 :: "unit handler" where c: "bench_init (\<lambda>k. k) 300 = Inr c0" "connect_socket 3 (client_start c0 []) = Inr c1" and h0: "hlr_ready h0"
    using sample_system by blast
  let ?s = "e2e_start c1 (\<lambda>_. h0)"
  have nr: "100 \<le> unat (300 :: u64)" "0 < (3 :: int)" and n: "0 < (2 :: nat)" "2 \<le> MAX_HLR" by (simp_all add: MAX_HLR_def)
  have r: "\<forall>i. pc (hsyss (esrv ?s) i) \<noteq> H_EXIT" "pmain (ecl ?s) = M_CONNECT"
    using c(2) by (auto simp: e2e_start_def msys_start_def hsys_start_def connect_socket_def)
  from load_never_stuck [OF nr(1) c(1) nr(2) c(2) h0 n rtranclp.rtrancl_refl r(1), of "\<lambda>_. (0, 0)" 7] r(2) h0 show ?thesis by fastforce
qed

end
