(* ===== verification/Lfqueue.thy ===== *)
theory Lfqueue
  imports Queue
begin

section \<open>The lock-free queue (\<open>src/lfqueue.c\<close>, \<open>include/lfqueue.h\<close>)\<close>

text \<open>
  A linked list with a dummy node in front, updated by compare-and-swap. Unlike the operations of \<open>queue.c\<close>, these are not atomic: each is a program with a program
  counter (\<open>lf_pc\<close>), and \<open>lfq_step\<close> executes one access to shared memory of it, in the order of the source and with sequentially consistent memory (the
  \<open>__sync\<close> built-ins are full barriers). The argument \<open>n->next\<close> of a compare-and-swap is read before the swap, in a step of its own. Nodes live in a store
  indexed by address, like those of \<open>queue.c\<close>; an access to a node that has been freed is a crash, and \<open>malloc\<close> may return any free address, also one freed before.

  The system \<open>lfsys\<close> interleaves any number of threads; which of them enqueue and which dequeue is a parameter. With one thread of each kind the queue is a bounded FIFO
  queue without invalid accesses; with a second producer or a second consumer it is not.
\<close>

subsection \<open>Data\<close>

record lfq =
  lf_size :: int
  lf_m_size :: int
  lf_head :: ptr
  lf_tail :: ptr
  lf_nodes :: "ptr \<Rightarrow> ptr node option"

text \<open>\<open>malloc\<close> of a node at the address \<open>a\<close> and the two assignments that follow it; \<open>free\<close> of a node.\<close>

definition lf_new :: "ptr \<Rightarrow> ptr \<Rightarrow> lfq \<Rightarrow> lfq" where
  "lf_new a v q = q\<lparr>lf_nodes := (lf_nodes q)(a \<mapsto> \<lparr>node_d = v, node_next = NULL\<rparr>)\<rparr>"

definition lf_drop :: "ptr \<Rightarrow> lfq \<Rightarrow> lfq res" where
  "lf_drop a q = (if lf_nodes q a = None then Inl BadFree else Inr (q\<lparr>lf_nodes := (lf_nodes q)(a := None)\<rparr>))"

definition lf_at :: "lfq \<Rightarrow> ptr \<Rightarrow> ptr node res" where
  "lf_at q p = (if p = NULL then Inl NullDeref else case lf_nodes q p of None \<Rightarrow> Inl OutOfBounds | Some n \<Rightarrow> Inr n)"

definition lfq_init :: "ptr \<Rightarrow> int \<Rightarrow> lfq" where
  "lfq_init a qs = lf_new a NULL \<lparr>lf_size = 0, lf_m_size = qs, lf_head = a, lf_tail = a, lf_nodes = (\<lambda>_. None)\<rparr>"

subsection \<open>The operations, one shared access at a time\<close>

text \<open>
  \<open>E_\<close>: where \<open>lfq_enqueue\<close> is, with its locals \<open>_node\<close> and \<open>n\<close>; \<open>D_\<close>: where \<open>lfq_dequeue\<close> is, with its locals \<open>n\<close> and \<open>val\<close>. The pending
  statement of each: \<open>E_TAIL\<close> reads \<open>q->tail\<close>, \<open>E_FULL\<close> tests the size, \<open>E_DROP\<close> frees the new node, \<open>E_LINK\<close> swaps \<open>n->next\<close>, \<open>E_HELP\<close> and \<open>E_HELP_CAS\<close>
  advance a tail that lags, \<open>E_SWING\<close> swaps \<open>q->tail\<close>, \<open>E_COUNT\<close> adds to the size; \<open>D_HEAD\<close> reads \<open>q->head\<close>, \<open>D_NEXT\<close> tests \<open>n->next\<close>, \<open>D_ARG\<close> and \<open>D_CAS\<close>
  swap \<open>q->head\<close>, \<open>D_VAL\<close> and \<open>D_DATA\<close> read \<open>n->next->n\<close>, \<open>D_FREE\<close> frees \<open>n\<close>, \<open>D_COUNT\<close> subtracts from the size.
\<close>

datatype lf_pc =
    LF_IDLE
  | E_TAIL ptr | E_FULL ptr ptr | E_DROP ptr | E_LINK ptr ptr | E_HELP ptr ptr | E_HELP_CAS ptr ptr ptr | E_SWING ptr ptr | E_COUNT | E_RET bool
  | D_HEAD | D_NEXT ptr | D_ARG ptr | D_CAS ptr ptr | D_VAL ptr | D_DATA ptr ptr | D_FREE ptr ptr | D_COUNT ptr | D_RET ptr

fun lfq_step :: "lf_pc \<Rightarrow> lfq \<Rightarrow> (lf_pc \<times> lfq) res" where
  "lfq_step (E_TAIL nd) q = Inr (E_FULL nd (lf_tail q), q)"
| "lfq_step (E_FULL nd n) q = Inr (if lf_size q = lf_m_size q then E_DROP nd else E_LINK nd n, q)"
| "lfq_step (E_DROP nd) q = ebind (lf_drop nd q) (\<lambda>q'. Inr (E_RET False, q'))"
| "lfq_step (E_LINK nd n) q =
     ebind (lf_at q n) (\<lambda>c.
     if node_next c = NULL then Inr (E_SWING nd n, q\<lparr>lf_nodes := (lf_nodes q)(n \<mapsto> c\<lparr>node_next := nd\<rparr>)\<rparr>)
     else Inr (E_HELP nd n, q))"
| "lfq_step (E_HELP nd n) q = ebind (lf_at q n) (\<lambda>c. Inr (E_HELP_CAS nd n (node_next c), q))"
| "lfq_step (E_HELP_CAS nd n nx) q = Inr (E_TAIL nd, if lf_tail q = n then q\<lparr>lf_tail := nx\<rparr> else q)"
| "lfq_step (E_SWING nd n) q = Inr (E_COUNT, if lf_tail q = n then q\<lparr>lf_tail := nd\<rparr> else q)"
| "lfq_step E_COUNT q = Inr (E_RET True, q\<lparr>lf_size := lf_size q + 1\<rparr>)"
| "lfq_step D_HEAD q = Inr (D_NEXT (lf_head q), q)"
| "lfq_step (D_NEXT n) q = ebind (lf_at q n) (\<lambda>c. Inr (if node_next c = NULL then D_RET NULL else D_ARG n, q))"
| "lfq_step (D_ARG n) q = ebind (lf_at q n) (\<lambda>c. Inr (D_CAS n (node_next c), q))"
| "lfq_step (D_CAS n nx) q = (if lf_head q = n then Inr (D_VAL n, q\<lparr>lf_head := nx\<rparr>) else Inr (D_HEAD, q))"
| "lfq_step (D_VAL n) q = ebind (lf_at q n) (\<lambda>c. Inr (D_DATA n (node_next c), q))"
| "lfq_step (D_DATA n nx) q = ebind (lf_at q nx) (\<lambda>c. Inr (D_FREE n (node_d c), q))"
| "lfq_step (D_FREE n v) q = ebind (lf_drop n q) (\<lambda>q'. Inr (D_COUNT v, q'))"
| "lfq_step (D_COUNT v) q = Inr (D_RET v, q\<lparr>lf_size := lf_size q - 1\<rparr>)"
| "lfq_step (E_RET b) q = Inr (E_RET b, q)"
| "lfq_step (D_RET v) q = Inr (D_RET v, q)"
| "lfq_step LF_IDLE q = Inr (LF_IDLE, q)"

text \<open>A call that no other thread interleaves with: the steps up to the return. \<open>None\<close>: the loop does not end.\<close>

fun lf_returned :: "lf_pc \<Rightarrow> bool" where
  "lf_returned (E_RET b) = True" | "lf_returned (D_RET v) = True" | "lf_returned LF_IDLE = True" | "lf_returned pc = False"

partial_function (option) lfq_run :: "lf_pc \<Rightarrow> lfq \<Rightarrow> (lf_pc \<times> lfq) res option" where
  "lfq_run pc q =
     (if lf_returned pc then Some (Inr (pc, q))
      else case lfq_step pc q of Inl e \<Rightarrow> Some (Inl e) | Inr (pc', q') \<Rightarrow> lfq_run pc' q')"

definition lfq_enqueue :: "ptr \<Rightarrow> ptr \<Rightarrow> lfq \<Rightarrow> (lf_pc \<times> lfq) res option" where
  "lfq_enqueue a val q = lfq_run (E_TAIL a) (lf_new a val q)"

definition lfq_dequeue :: "lfq \<Rightarrow> (lf_pc \<times> lfq) res option" where
  "lfq_dequeue q = lfq_run D_HEAD q"

text \<open>The loop of \<open>lfq_free\<close>, up to the release of the queue itself.\<close>

partial_function (option) lfq_free :: "lfq \<Rightarrow> lfq res option" where
  "lfq_free q =
     (case lfq_dequeue q of
        None \<Rightarrow> None
      | Some (Inl e) \<Rightarrow> Some (Inl e)
      | Some (Inr (pc, q')) \<Rightarrow> if pc = D_RET NULL then Some (Inr q') else lfq_free q')"

subsection \<open>Threads\<close>

record lfsys =
  lfqueue :: lfq
  th :: "nat \<Rightarrow> lf_pc"
  offered :: "nat \<Rightarrow> ptr"
  accepted :: "ptr list"
  got :: "ptr list"

text \<open>
  What a scheduler may choose: thread \<open>t\<close> calls \<open>lfq_enqueue\<close> with a value, a pointer that is not null, and \<open>malloc\<close> returns the address \<open>a\<close>; it calls
  \<open>lfq_dequeue\<close>; or it takes the next step, which may be the return to its caller. \<open>accepted\<close> and \<open>got\<close> record what the calls returned: the values of the
  enqueues that returned 1, and the values that dequeues returned.
\<close>

datatype lf_act = A_ENQ nat ptr ptr | A_DEQ nat | A_GO nat

fun lf_do :: "lf_act \<Rightarrow> lfsys \<Rightarrow> lfsys res option" where
  "lf_do (A_ENQ t v a) s =
     (if th s t = LF_IDLE \<and> v \<noteq> NULL \<and> a \<noteq> NULL \<and> lf_nodes (lfqueue s) a = None
      then Some (Inr (s\<lparr>lfqueue := lf_new a v (lfqueue s), th := (th s)(t := E_TAIL a), offered := (offered s)(t := v)\<rparr>))
      else None)"
| "lf_do (A_DEQ t) s = (if th s t = LF_IDLE then Some (Inr (s\<lparr>th := (th s)(t := D_HEAD)\<rparr>)) else None)"
| "lf_do (A_GO t) s =
     (case th s t of
        LF_IDLE \<Rightarrow> None
      | E_RET b \<Rightarrow> Some (Inr (s\<lparr>th := (th s)(t := LF_IDLE), accepted := accepted s @ (if b then [offered s t] else [])\<rparr>))
      | D_RET v \<Rightarrow> Some (Inr (s\<lparr>th := (th s)(t := LF_IDLE), got := got s @ (if v = NULL then [] else [v])\<rparr>))
      | pc \<Rightarrow> Some (ebind (lfq_step pc (lfqueue s)) (\<lambda>(pc', q'). Inr (s\<lparr>lfqueue := q', th := (th s)(t := pc')\<rparr>))))"

text \<open>Only the threads of \<open>P\<close> enqueue, only those of \<open>C\<close> dequeue.\<close>

fun lf_allowed :: "nat set \<Rightarrow> nat set \<Rightarrow> lf_act \<Rightarrow> bool" where
  "lf_allowed P C (A_ENQ t v a) = (t \<in> P)" | "lf_allowed P C (A_DEQ t) = (t \<in> C)" | "lf_allowed P C (A_GO t) = True"

definition lfsys_start :: "lfq \<Rightarrow> lfsys" where
  "lfsys_start q = \<lparr>lfqueue = q, th = (\<lambda>_. LF_IDLE), offered = (\<lambda>_. NULL), accepted = [], got = []\<rparr>"

inductive lf_reachable :: "nat set \<Rightarrow> nat set \<Rightarrow> lfq \<Rightarrow> lfsys \<Rightarrow> bool" for P C q0 where
  lf_start: "lf_reachable P C q0 (lfsys_start q0)"
| lf_next: "lf_reachable P C q0 s \<Longrightarrow> lf_allowed P C act \<Longrightarrow> lf_do act s = Some (Inr s') \<Longrightarrow> lf_reachable P C q0 s'"

text \<open>A schedule, executed.\<close>

fun lf_exec :: "lf_act list \<Rightarrow> lfsys \<Rightarrow> lfsys option" where
  "lf_exec [] s = Some s"
| "lf_exec (act # acts) s = (case lf_do act s of Some (Inr s') \<Rightarrow> lf_exec acts s' | _ \<Rightarrow> None)"

lemma lf_exec_reachable:
  "lf_exec acts s = Some s' \<Longrightarrow> lf_reachable P C q0 s \<Longrightarrow> \<forall>act \<in> set acts. lf_allowed P C act \<Longrightarrow> lf_reachable P C q0 s'"
proof (induction acts arbitrary: s)
  case (Cons act acts)
  from Cons.prems(1) obtain s1 where s1: "lf_do act s = Some (Inr s1)" "lf_exec acts s1 = Some s'" by (auto split: option.splits sum.splits)
  from Cons.prems(3) have "lf_allowed P C act" by simp
  from Cons.IH [OF s1(2) lf_next [OF Cons.prems(2) this s1(1)]] Cons.prems(3) show ?case by simp
qed simp

subsection \<open>One producer and one consumer: the invariant\<close>

text \<open>
  The nodes of the queue, with the dummy first, are \<open>as\<close>; \<open>lf_old\<close> is the former dummy, which the consumer has unlinked and not freed yet, \<open>lf_priv\<close> the node of the
  producer that is not linked yet. \<open>lf_linked\<close>: the value the producer has linked without having returned yet. \<open>lf_took\<close>: the consumer has moved the head and not counted.
\<close>

fun lf_old :: "lf_pc \<Rightarrow> ptr list" where
  "lf_old (D_VAL n) = [n]" | "lf_old (D_DATA n nx) = [n]" | "lf_old (D_FREE n v) = [n]" | "lf_old pc = []"

fun lf_priv :: "lf_pc \<Rightarrow> ptr list" where
  "lf_priv (E_TAIL nd) = [nd]" | "lf_priv (E_FULL nd n) = [nd]" | "lf_priv (E_DROP nd) = [nd]" | "lf_priv (E_LINK nd n) = [nd]" | "lf_priv pc = []"

fun lf_linked :: "lf_pc \<Rightarrow> ptr \<Rightarrow> ptr list" where
  "lf_linked (E_SWING nd n) v = [v]" | "lf_linked E_COUNT v = [v]" | "lf_linked (E_RET b) v = (if b then [v] else [])" | "lf_linked pc v = []"

fun lf_uncounted :: "lf_pc \<Rightarrow> int" where
  "lf_uncounted (E_SWING nd n) = 1" | "lf_uncounted E_COUNT = 1" | "lf_uncounted pc = 0"

fun lf_took :: "lf_pc \<Rightarrow> int" where
  "lf_took (D_VAL n) = 1" | "lf_took (D_DATA n nx) = 1" | "lf_took (D_FREE n v) = 1" | "lf_took (D_COUNT v) = 1" | "lf_took pc = 0"

fun lf_hand :: "lf_pc \<Rightarrow> ptr \<Rightarrow> ptr list" where
  "lf_hand (D_VAL n) d = [d]" | "lf_hand (D_DATA n nx) d = [d]" | "lf_hand (D_FREE n v) d = [v]" | "lf_hand (D_COUNT v) d = [v]"
| "lf_hand (D_RET v) d = (if v = NULL then [] else [v])" | "lf_hand pc d = []"

text \<open>What the locals of the two threads say, where \<open>l\<close> is the last node and \<open>room\<close> says that a node may be linked.\<close>

fun lf_prod_ok :: "lf_pc \<Rightarrow> ptr \<Rightarrow> ptr \<Rightarrow> bool \<Rightarrow> bool" where
  "lf_prod_ok LF_IDLE l ta room = (ta = l)" | "lf_prod_ok (E_TAIL nd) l ta room = (ta = l)" | "lf_prod_ok (E_DROP nd) l ta room = (ta = l)"
| "lf_prod_ok (E_FULL nd n) l ta room = (ta = l \<and> n = l)" | "lf_prod_ok (E_LINK nd n) l ta room = (ta = l \<and> n = l \<and> room)"
| "lf_prod_ok (E_SWING nd n) l ta room = (nd = l \<and> ta = n)" | "lf_prod_ok E_COUNT l ta room = (ta = l)" | "lf_prod_ok (E_RET b) l ta room = (ta = l)"
| "lf_prod_ok pc l ta room = False"

fun lf_cons_ok :: "lf_pc \<Rightarrow> ptr list \<Rightarrow> bool" where
  "lf_cons_ok LF_IDLE as = True" | "lf_cons_ok D_HEAD as = True" | "lf_cons_ok (D_NEXT n) as = (n = hd as)" | "lf_cons_ok (D_ARG n) as = (n = hd as \<and> tl as \<noteq> [])"
| "lf_cons_ok (D_CAS n nx) as = (n = hd as \<and> tl as \<noteq> [] \<and> nx = hd (tl as))" | "lf_cons_ok (D_VAL n) as = True" | "lf_cons_ok (D_DATA n nx) as = (nx = hd as)"
| "lf_cons_ok (D_FREE n v) as = True" | "lf_cons_ok (D_COUNT v) as = True" | "lf_cons_ok (D_RET v) as = True" | "lf_cons_ok pc as = False"

text \<open>The accepted values, with the one on its way in, are the values returned, the one on its way out and those stored, in this order.\<close>

definition lf_balance :: "ptr list \<Rightarrow> ptr list \<Rightarrow> ptr list \<Rightarrow> ptr list \<Rightarrow> ptr list \<Rightarrow> bool" where
  "lf_balance acc pend gt hand stored \<longleftrightarrow> acc @ pend = gt @ hand @ stored \<and> NULL \<notin> set (acc @ pend)"

definition spsc_inv :: "nat \<Rightarrow> nat \<Rightarrow> int \<Rightarrow> lfsys \<Rightarrow> ptr list \<Rightarrow> bool" where
  "spsc_inv p c m s as \<longleftrightarrow> (let q = lfqueue s; ns = lf_nodes q; P = th s p; C = th s c; os = lf_old C; L = int (length (tl as)) in
     (\<forall>t. t \<noteq> p \<longrightarrow> t \<noteq> c \<longrightarrow> th s t = LF_IDLE) \<and> lf_m_size q = m \<and>
     as \<noteq> [] \<and> lf_head q = hd as \<and> chain ns (hd (os @ as)) (os @ as) \<and> distinct (os @ as) \<and>
     dom ns = set (os @ as @ lf_priv P) \<and> set (lf_priv P) \<inter> set (os @ as) = {} \<and>
     (\<forall>nd \<in> set (lf_priv P). nd \<noteq> NULL \<and> ns nd = Some \<lparr>node_d = offered s p, node_next = NULL\<rparr>) \<and>
     lf_prod_ok P (last as) (lf_tail q) (L + lf_took C < m) \<and> lf_cons_ok C as \<and>
     (P \<noteq> LF_IDLE \<longrightarrow> offered s p \<noteq> NULL) \<and>
     lf_balance (accepted s) (lf_linked P (offered s p)) (got s) (lf_hand C (node_d (the (ns (hd as))))) (payloads ns (tl as)) \<and>
     lf_size q = L - lf_uncounted P + lf_took C \<and> L + lf_took C \<le> m)"

lemmas spsc_simps = spsc_inv_def Let_def lf_at_def lf_drop_def lf_new_def

lemma spsc_prod_step:
  assumes inv: "spsc_inv p c m s as" and ne: "p \<noteq> c" and run: "\<not> lf_returned (th s p)" and nl: "\<And>nd n. th s p \<noteq> E_LINK nd n"
  shows "\<exists>pc' q'. lfq_step (th s p) (lfqueue s) = Inr (pc', q') \<and> spsc_inv p c m (s\<lparr>lfqueue := q', th := (th s)(p := pc')\<rparr>) as"
proof (cases "th s p")
  case (E_TAIL nd)
  with inv ne show ?thesis by (simp add: spsc_simps)
next
  case (E_FULL nd n)
  with inv ne show ?thesis by (auto simp: spsc_simps)
next
  case (E_DROP nd)
  with inv ne show ?thesis by (cases as) (auto simp: spsc_simps)
next
  case (E_SWING nd n)
  with inv ne show ?thesis by (simp add: spsc_simps)
next
  case E_COUNT
  with inv ne show ?thesis by (simp add: spsc_simps)
qed (use inv run nl in \<open>simp_all add: spsc_simps\<close>)

lemma chain_link:
  "chain ns p (bs @ [t]) \<Longrightarrow> distinct (bs @ [t]) \<Longrightarrow> b \<notin> set (bs @ [t]) \<Longrightarrow> b \<noteq> NULL \<Longrightarrow> ns t = Some n \<Longrightarrow>
     ns b = Some \<lparr>node_d = x, node_next = NULL\<rparr> \<Longrightarrow> chain (ns(t \<mapsto> n\<lparr>node_next := b\<rparr>)) p (bs @ [t, b]) \<and> node_next n = NULL"
  by (induction bs arbitrary: p) auto

lemma payloads_next [simp]: "ns t = Some n \<Longrightarrow> payloads (ns(t \<mapsto> n\<lparr>node_next := b\<rparr>)) as = payloads ns as"
  by (auto simp: payloads_def)

lemma lf_balance_link: "lf_balance acc [] gt hand stored \<Longrightarrow> v \<noteq> NULL \<Longrightarrow> lf_balance acc [v] gt hand (stored @ [v])"
  by (auto simp: lf_balance_def)

lemma lf_balance_hand: "lf_balance acc pend gt [v] stored \<Longrightarrow> v \<noteq> NULL"
proof -
  assume "lf_balance acc pend gt [v] stored"
  then have "acc @ pend = gt @ [v] @ stored" "NULL \<notin> set (acc @ pend)" unfolding lf_balance_def by blast+
  then show ?thesis by auto
qed

lemma lf_prod_ok_mono: "lf_prod_ok pc l ta r \<Longrightarrow> (r \<Longrightarrow> r') \<Longrightarrow> lf_prod_ok pc l ta r'"
  by (cases pc) auto

lemma chain_start: "chain ns a as \<Longrightarrow> as \<noteq> [] \<Longrightarrow> chain ns (hd as) as"
  by (cases as) auto

lemma lf_cons_ok_snoc: "lf_cons_ok pc as \<Longrightarrow> as \<noteq> [] \<Longrightarrow> lf_cons_ok pc (as @ [x])"
  by (cases pc) auto

lemma spsc_link_step:
  assumes inv: "spsc_inv p c m s as" and ne: "p \<noteq> c" and pc: "th s p = E_LINK nd n"
  shows "\<exists>q'. lfq_step (th s p) (lfqueue s) = Inr (E_SWING nd n, q') \<and> spsc_inv p c m (s\<lparr>lfqueue := q', th := (th s)(p := E_SWING nd n)\<rparr>) (as @ [nd])"
proof -
  let ?q = "lfqueue s" and ?C = "th s c"
  obtain bs where as: "as = bs @ [n]"
    using inv pc by (cases as rule: rev_cases) (auto simp: spsc_simps)
  have i: "lf_nodes ?q nd = Some \<lparr>node_d = offered s p, node_next = NULL\<rparr>" "nd \<noteq> NULL" "offered s p \<noteq> NULL" "nd \<notin> set (lf_old ?C @ as)"
    "chain (lf_nodes ?q) (hd (lf_old ?C @ as)) (lf_old ?C @ as)" "distinct (lf_old ?C @ as)" "dom (lf_nodes ?q) = set (lf_old ?C @ as @ [nd])"
    using inv pc by (simp_all add: spsc_simps)
  then obtain cn where cn: "lf_nodes ?q n = Some cn" using as by auto
  have n: "n \<noteq> NULL" using chain_nonnull [OF i(5)] as by simp
  let ?ns = "(lf_nodes ?q)(n \<mapsto> cn\<lparr>node_next := nd\<rparr>)"
  from chain_link [of "lf_nodes ?q" _ "lf_old ?C @ bs" n nd cn "offered s p"] i cn as
  have ch: "chain ?ns (hd (lf_old ?C @ as)) (lf_old ?C @ as @ [nd])" "node_next cn = NULL" by auto
  have run: "lfq_step (th s p) ?q = Inr (E_SWING nd n, ?q\<lparr>lf_nodes := ?ns\<rparr>)" using pc n cn ch(2) by (simp add: lf_at_def)
  have hd: "hd (lf_old ?C @ as @ [nd]) = hd (lf_old ?C @ as)" "hd (as @ [nd]) = hd as" "tl (as @ [nd]) = tl as @ [nd]" using as by (cases bs; cases "lf_old ?C"; simp)+
  have val: "node_d (the (?ns (hd as))) = node_d (the (lf_nodes ?q (hd as)))" using cn by simp
  have nd: "payloads ?ns (tl as @ [nd]) = payloads (lf_nodes ?q) (tl as) @ [offered s p]" using cn i(1,4) as by (auto simp: payloads_append) (auto simp: payloads_def)
  have "spsc_inv p c m (s\<lparr>lfqueue := ?q\<lparr>lf_nodes := ?ns\<rparr>, th := (th s)(p := E_SWING nd n)\<rparr>) (as @ [nd])"
    using inv pc ne ch i cn hd val nd lf_balance_link [OF _ i(3)] as lf_cons_ok_snoc [of ?C as nd]
    by (simp add: spsc_simps)
  with run show ?thesis by blast
qed

lemma spsc_cons_step:
  assumes inv: "spsc_inv p c m s as" and ne: "p \<noteq> c" and run: "\<not> lf_returned (th s c)" and nc: "\<And>n nx. th s c \<noteq> D_CAS n nx"
  shows "\<exists>pc' q'. lfq_step (th s c) (lfqueue s) = Inr (pc', q') \<and> spsc_inv p c m (s\<lparr>lfqueue := q', th := (th s)(c := pc')\<rparr>) as"
proof (cases "th s c")
  case D_HEAD
  with inv ne show ?thesis by (simp add: spsc_simps)
next
  case (D_NEXT n)
  with inv ne show ?thesis by (cases as; cases "tl as") (auto simp: spsc_simps)
next
  case (D_ARG n)
  with inv ne show ?thesis by (cases as; cases "tl as") (auto simp: spsc_simps)
next
  case (D_VAL n)
  with inv ne show ?thesis by (cases as) (auto simp: spsc_simps)
next
  case (D_DATA n nx)
  with inv ne show ?thesis by (cases as) (auto simp: spsc_simps)
next
  case (D_FREE n v)
  have nn: "lf_nodes (lfqueue s) n \<noteq> None" "n \<notin> set as" "n \<notin> set (lf_priv (th s p))" "as \<noteq> []" using inv D_FREE by (auto simp: spsc_simps)
  then have "n \<noteq> hd as" "n \<notin> set (tl as)" by (cases as; simp)+
  with inv ne D_FREE nn show ?thesis by (auto simp: spsc_simps dest: chain_start)
next
  case (D_COUNT v)
  then have "v \<noteq> NULL" using inv 
    by (intro lf_balance_hand [of "accepted s" "lf_linked (th s p) (offered s p)" "got s" v "payloads (lf_nodes (lfqueue s)) (tl as)"]) (simp add: spsc_simps)
  moreover have "lf_prod_ok (th s p) (last as) (lf_tail (lfqueue s)) (int (length (tl as)) < m)"
    by (rule lf_prod_ok_mono [of _ _ _ "int (length (tl as)) + 1 < m"]) (use inv D_COUNT in \<open>simp_all add: spsc_simps\<close>)
  ultimately show ?thesis using inv ne D_COUNT by (simp add: spsc_simps)
qed (use inv run nc in \<open>simp_all add: spsc_simps\<close>)

lemma spsc_cas_step:
  assumes inv: "spsc_inv p c m s as" and ne: "p \<noteq> c" and pc: "th s c = D_CAS n nx"
  shows "\<exists>q'. lfq_step (th s c) (lfqueue s) = Inr (D_VAL n, q') \<and> spsc_inv p c m (s\<lparr>lfqueue := q', th := (th s)(c := D_VAL n)\<rparr>) (tl as)"
proof -
  obtain bs where as: "as = n # nx # bs" using inv pc by (cases as; cases "tl as") (auto simp: spsc_simps)
  have last: "last as = last (tl as)" using as by simp
  have "lf_balance acc pend gt [] (payloads ns (nx # bs)) = lf_balance acc pend gt [node_d (the (ns nx))] (payloads ns bs)" for acc pend gt ns
    by (simp add: lf_balance_def payloads_def)
  then show ?thesis using inv ne pc as last by (simp add: spsc_simps algebra_simps insert_commute)
qed

lemma spsc_call:
  assumes inv: "spsc_inv p c m s as" and ne: "p \<noteq> c"
  shows "lf_do (A_ENQ p v a) s = Some (Inr s') \<Longrightarrow> spsc_inv p c m s' as"
    and "lf_do (A_DEQ c) s = Some (Inr s') \<Longrightarrow> spsc_inv p c m s' as"
proof -
  assume "lf_do (A_ENQ p v a) s = Some (Inr s')"
  then have s': "th s p = LF_IDLE" "v \<noteq> NULL" "a \<noteq> NULL" "lf_nodes (lfqueue s) a = None"
    "s' = s\<lparr>lfqueue := lf_new a v (lfqueue s), th := (th s)(p := E_TAIL a), offered := (offered s)(p := v)\<rparr>" by (auto split: if_splits)
  have "a \<notin> set (lf_old (th s c) @ as)" using inv s'(4) unfolding spsc_inv_def Let_def by (metis UnI1 domIff set_append append_assoc)
  moreover have "as \<noteq> []" using inv by (simp add: spsc_simps)
  ultimately have "a \<noteq> hd as" "a \<notin> set (tl as)" "a \<notin> set as" "a \<notin> set (lf_old (th s c))" by (cases as; simp)+
  then show "spsc_inv p c m s' as" using inv ne s' by (simp add: spsc_simps)
next
  assume "lf_do (A_DEQ c) s = Some (Inr s')"
  then have "th s c = LF_IDLE" "s' = s\<lparr>th := (th s)(c := D_HEAD)\<rparr>" by (auto split: if_splits)
  then show "spsc_inv p c m s' as" using inv ne by (simp add: spsc_simps)
qed
lemma lf_do_go:
  "\<not> lf_returned (th s t) \<Longrightarrow> lf_do (A_GO t) s = Some (ebind (lfq_step (th s t) (lfqueue s)) (\<lambda>(pc', q'). Inr (s\<lparr>lfqueue := q', th := (th s)(t := pc')\<rparr>)))"
  by (cases "th s t") simp_all

lemma lf_balance_accept: "lf_balance acc pend gt hand stored \<Longrightarrow> lf_balance (acc @ pend) [] gt hand stored"
  unfolding lf_balance_def append_Nil2 .

lemma lf_balance_got: "lf_balance acc pend gt hand stored \<Longrightarrow> lf_balance acc pend (gt @ hand) [] stored"
  unfolding lf_balance_def append_assoc append_Nil .

lemma spsc_return:
  assumes inv: "spsc_inv p c m s as" and ne: "p \<noteq> c"
  shows "th s p = E_RET b \<Longrightarrow> spsc_inv p c m (s\<lparr>th := (th s)(p := LF_IDLE), accepted := accepted s @ (if b then [offered s p] else [])\<rparr>) as"
    and "th s c = D_RET v \<Longrightarrow> spsc_inv p c m (s\<lparr>th := (th s)(c := LF_IDLE), got := got s @ (if v = NULL then [] else [v])\<rparr>) as"
  using inv ne by (simp_all add: spsc_simps lf_balance_accept lf_balance_got split del: if_split)

lemma spsc_prod_pc: "spsc_inv p c m s as \<Longrightarrow> lf_returned (th s p) \<Longrightarrow> th s p = LF_IDLE \<or> (\<exists>b. th s p = E_RET b)"
  by (cases "th s p") (simp_all add: spsc_simps)

lemma spsc_cons_pc: "spsc_inv p c m s as \<Longrightarrow> lf_returned (th s c) \<Longrightarrow> th s c = LF_IDLE \<or> (\<exists>v. th s c = D_RET v)"
  by (cases "th s c") (simp_all add: spsc_simps)

lemma spsc_go:
  assumes inv: "spsc_inv p c m s as" and ne: "p \<noteq> c" and t: "th s t \<noteq> LF_IDLE"
  shows "\<exists>s' as'. lf_do (A_GO t) s = Some (Inr s') \<and> spsc_inv p c m s' as'"
proof -
  have "t = p \<or> t = c" using inv t unfolding spsc_inv_def Let_def by blast
  then show ?thesis
  proof (cases "lf_returned (th s t)")
    case True
    with inv t \<open>t = p \<or> t = c\<close> spsc_prod_pc [OF inv] spsc_cons_pc [OF inv] consider b where "t = p" "th s p = E_RET b" | v where "t = c" "th s c = D_RET v" by blast
    then show ?thesis using spsc_return [OF inv ne] by cases (auto simp del: fun_upd_apply)
  next
    case False
    note go = lf_do_go [of s t, OF this]
    consider "t = p" "\<And>nd n. th s p \<noteq> E_LINK nd n" | nd n where "t = p" "th s p = E_LINK nd n" | "t = c" "\<And>n nx. th s c \<noteq> D_CAS n nx" | n nx where "t = c" "th s c = D_CAS n nx"
      using \<open>t = p \<or> t = c\<close> by blast
    then show ?thesis
    proof cases
      case 1
      with spsc_prod_step [OF inv ne] False go show ?thesis by fastforce
    next
      case 2
      with spsc_link_step [OF inv ne] go show ?thesis by fastforce
    next
      case 3
      with spsc_cons_step [OF inv ne] False go show ?thesis by fastforce
    next
      case 4
      with spsc_cas_step [OF inv ne] go show ?thesis by fastforce
    qed
  qed
qed

lemma spsc_start: "a \<noteq> NULL \<Longrightarrow> 0 \<le> m \<Longrightarrow> spsc_inv p c m (lfsys_start (lfq_init a m)) [a]"
  by (simp add: spsc_simps lfsys_start_def lfq_init_def lf_balance_def payloads_def)

lemma spsc_reachable:
  assumes "lf_reachable {p} {c} (lfq_init a m) s" and "p \<noteq> c" and "a \<noteq> NULL" and "0 \<le> m"
  shows "\<exists>as. spsc_inv p c m s as"
  using assms(1)
proof (induction rule: lf_reachable.induct)
  case lf_start
  from spsc_start [OF assms(3,4)] show ?case by blast
next
  case (lf_next s act s')
  then obtain as where inv: "spsc_inv p c m s as" by blast
  show ?case
  proof (cases act)
    case (A_ENQ t v b)
    with lf_next spsc_call(1) [OF inv assms(2)] show ?thesis by (metis lf_allowed.simps(1) singletonD)
  next
    case (A_DEQ t)
    with lf_next spsc_call(2) [OF inv assms(2)] show ?thesis by (metis lf_allowed.simps(2) singletonD)
  next
    case (A_GO t)
    then have "th s t \<noteq> LF_IDLE" using lf_next by auto
    from spsc_go [OF inv assms(2) this] lf_next A_GO show ?thesis by auto
  qed
qed
text \<open>With one producer and one consumer no swap fails: every step of a thread brings its call nearer to its return.\<close>

fun lf_rank :: "lf_pc \<Rightarrow> nat" where
  "lf_rank (E_TAIL nd) = 6" | "lf_rank (E_FULL nd n) = 5" | "lf_rank (E_DROP nd) = 4" | "lf_rank (E_LINK nd n) = 4" | "lf_rank (E_SWING nd n) = 3" | "lf_rank E_COUNT = 2"
| "lf_rank D_HEAD = 9" | "lf_rank (D_NEXT n) = 8" | "lf_rank (D_ARG n) = 7" | "lf_rank (D_CAS n nx) = 6" | "lf_rank (D_VAL n) = 5" | "lf_rank (D_DATA n nx) = 4"
| "lf_rank (D_FREE n v) = 3" | "lf_rank (D_COUNT v) = 2" | "lf_rank (E_RET b) = 1" | "lf_rank (D_RET v) = 1" | "lf_rank pc = 0"

lemma spsc_rank:
  assumes inv: "spsc_inv p c m s as" and ne: "p \<noteq> c" and go: "lf_do (A_GO t) s = Some (Inr s')"
  shows "lf_rank (th s' t) < lf_rank (th s t)"
proof -
  have "th s t \<noteq> LF_IDLE" using go by auto
  then have t: "t = p \<or> t = c" using inv unfolding spsc_inv_def Let_def by blast
  have ok: "lf_prod_ok (th s p) (last as) (lf_tail (lfqueue s)) (int (length (tl as)) + lf_took (th s c) < m)" "lf_cons_ok (th s c) as" "lf_head (lfqueue s) = hd as"
    using inv by (simp_all add: spsc_simps)
  have link: "\<exists>q'. lfq_step (th s p) (lfqueue s) = Inr (E_SWING nd n, q')" if "th s p = E_LINK nd n" for nd n using spsc_link_step [OF inv ne that] by blast
  show ?thesis using t go ok link by (cases "th s t") (auto simp: res_simps split: if_splits)
qed

subsection \<open>A single thread: the contract of a bounded queue\<close>

definition lfq_rep :: "lfq \<Rightarrow> ptr list \<Rightarrow> bool" where
  "lfq_rep q as \<longleftrightarrow> as \<noteq> [] \<and> chain (lf_nodes q) (lf_head q) as \<and> distinct as \<and> dom (lf_nodes q) = set as \<and> lf_tail q = last as \<and>
     lf_size q = int (length (tl as)) \<and> lf_size q \<le> lf_m_size q"

definition lfq_list :: "lfq \<Rightarrow> ptr list" where
  "lfq_list q = tl (walk (lf_nodes q) (lf_head q) (Suc (nat (lf_size q))))"

lemma lfq_list_rep: "lfq_rep q as \<Longrightarrow> lfq_list q = payloads (lf_nodes q) (tl as)"
proof -
  assume r: "lfq_rep q as"
  then have "Suc (nat (lf_size q)) = length as" by (cases as) (auto simp: lfq_rep_def)
  with r walk_chain [of "lf_nodes q" "lf_head q" as] show ?thesis by (cases as) (auto simp: lfq_list_def lfq_rep_def payloads_def)
qed

lemma lfq_run_ret [simp]: "lf_returned pc \<Longrightarrow> lfq_run pc q = Some (Inr (pc, q))"
  by (simp add: lfq_run.simps)

lemma lfq_run_go: "\<not> lf_returned pc \<Longrightarrow> lfq_step pc q = Inr (pc', q') \<Longrightarrow> lfq_run pc q = lfq_run pc' q'"
  by (subst lfq_run.simps) simp

lemma chain_last: "chain ns p (bs @ [t]) \<Longrightarrow> node_next (the (ns t)) = NULL"
  by (induction bs arbitrary: p) auto

lemma lfq_enqueue_rep:
  assumes r: "lfq_rep q as" and a: "a \<noteq> NULL" "lf_nodes q a = None"
  shows "if lf_size q = lf_m_size q then lfq_enqueue a v q = Some (Inr (E_RET False, q))
     else \<exists>q'. lfq_enqueue a v q = Some (Inr (E_RET True, q')) \<and> lfq_rep q' (as @ [a]) \<and> lfq_list q' = lfq_list q @ [v] \<and> lf_m_size q' = lf_m_size q"
proof (cases "lf_size q = lf_m_size q")
  case True
  have "lfq_enqueue a v q = Some (Inr (E_RET False, q\<lparr>lf_nodes := (lf_nodes q)(a := None)\<rparr>))"
    using True by (simp add: lfq_enqueue_def lfq_run_go lf_new_def lf_drop_def)
  moreover have "q\<lparr>lf_nodes := (lf_nodes q)(a := None)\<rparr> = q" using a(2) by (simp add: fun_upd_idem)
  ultimately show ?thesis using True by simp
next
  case False
  obtain bs t where as: "as = bs @ [t]" using r by (cases as rule: rev_cases) (auto simp: lfq_rep_def)
  have t: "lf_tail q = t" "t \<noteq> NULL" "a \<notin> set as" "t \<noteq> a" "lf_nodes q t \<noteq> None" using r as a by (auto simp: lfq_rep_def dest: chain_nonnull)
  then obtain n where n: "lf_nodes q t = Some n" by blast
  let ?ns = "(lf_nodes q)(a \<mapsto> \<lparr>node_d = v, node_next = NULL\<rparr>, t \<mapsto> n\<lparr>node_next := a\<rparr>)"
  let ?q = "q\<lparr>lf_nodes := ?ns, lf_tail := a, lf_size := lf_size q + 1\<rparr>"
  have "chain ?ns (lf_head q) (bs @ [t, a])"
    by (rule chain_snoc) (use r as t n a in \<open>auto simp: lfq_rep_def\<close>)
  then have rep: "lfq_rep ?q (as @ [a])" using r as t False by (auto simp: lfq_rep_def)
  from r as have "chain (lf_nodes q) (lf_head q) (bs @ [t])" by (simp add: lfq_rep_def)
  then have "node_next n = NULL" using n chain_last by fastforce
  then have run: "lfq_enqueue a v q = Some (Inr (E_RET True, ?q))"
    using t n False by (simp add: lfq_enqueue_def lfq_run_go lf_new_def lf_at_def)
  have "payloads ?ns (tl as @ [a]) = payloads (lf_nodes q) (tl as) @ [v]"
  proof -
    have "a \<notin> set (tl as)" using t(3) by (cases as) auto
    then show ?thesis using t(4) n by (auto simp: payloads_def)
  qed
  then have "lfq_list ?q = lfq_list q @ [v]" using lfq_list_rep [OF rep] lfq_list_rep [OF r] as by (cases bs) auto
  with run rep False show ?thesis by auto
qed
lemma lfq_dequeue_rep:
  assumes r: "lfq_rep q (d # as)"
  shows "case as of [] \<Rightarrow> lfq_dequeue q = Some (Inr (D_RET NULL, q))
     | b # bs \<Rightarrow> \<exists>q'. lfq_dequeue q = Some (Inr (D_RET (hd (lfq_list q)), q')) \<and> lfq_rep q' as \<and> lfq_list q' = tl (lfq_list q) \<and> lf_m_size q' = lf_m_size q"
proof (cases as)
  case Nil
  then obtain n where "lf_head q = d" "d \<noteq> NULL" "lf_nodes q d = Some n" "node_next n = NULL" using r by (auto simp: lfq_rep_def)
  with Nil show ?thesis by (simp add: lfq_dequeue_def lfq_run_go lf_at_def)
next
  case (Cons b bs)
  then obtain n nb where n: "lf_head q = d" "d \<noteq> NULL" "lf_nodes q d = Some n" "node_next n = b" "b \<noteq> NULL" "lf_nodes q b = Some nb"
    using r by (auto simp: lfq_rep_def)
  let ?q = "q\<lparr>lf_head := b, lf_nodes := (lf_nodes q)(d := None), lf_size := lf_size q - 1\<rparr>"
  have run: "lfq_dequeue q = Some (Inr (D_RET (node_d nb), ?q))"
    using n by (simp add: lfq_dequeue_def lfq_run_go lf_at_def lf_drop_def)
  have rep: "lfq_rep ?q as" using r Cons n by (auto simp: lfq_rep_def)
  have "lfq_list q = node_d nb # payloads (lf_nodes q) bs" "lfq_list ?q = payloads ((lf_nodes q)(d := None)) bs"
    using lfq_list_rep [OF r] lfq_list_rep [OF rep] Cons n by (simp_all add: payloads_def)
  moreover have "d \<notin> set bs" using r Cons by (simp add: lfq_rep_def)
  ultimately show ?thesis using run rep Cons by auto
qed

lemma lfq_rep_size:
  assumes "lfq_rep q as"
  shows "lf_size q = int (length (lfq_list q))" and "length as = Suc (length (lfq_list q))"
proof -
  have "length (lfq_list q) = length (tl as)" using lfq_list_rep [OF assms] by (simp add: payloads_def)
  with assms show "lf_size q = int (length (lfq_list q))" "length as = Suc (length (lfq_list q))" by (auto simp: lfq_rep_def)
qed

lemma lfq_rep_empty: "lfq_rep q as \<Longrightarrow> lfq_list q = [] \<Longrightarrow> \<exists>d. as = [d]"
  using lfq_rep_size(2) [of q as] by (auto simp: length_Suc_conv)

lemma lfq_rep_nonempty: "lfq_rep q as \<Longrightarrow> lfq_list q \<noteq> [] \<Longrightarrow> \<exists>d b bs. as = d # b # bs"
  using lfq_rep_size(2) [of q as] by (cases as; cases "tl as") auto

lemma lfq_init_rep: "a \<noteq> NULL \<Longrightarrow> 0 \<le> m \<Longrightarrow> lfq_rep (lfq_init a m) [a] \<and> lfq_list (lfq_init a m) = [] \<and> lf_m_size (lfq_init a m) = m"
  by (simp add: lfq_rep_def lfq_init_def lf_new_def lfq_list_def)

text \<open>
  The calls as their caller sees them, with an allocator that returns the first address behind the allocated ones. They satisfy the contract \<open>bounded_fifo\<close> of the
  queue of \<open>queue.c\<close>.
\<close>

definition lfq_fresh :: "lfq \<Rightarrow> ptr" where
  "lfq_fresh q = Suc (Max (insert 0 (dom (lf_nodes q))))"

definition lfq_enq :: "ptr \<Rightarrow> lfq \<Rightarrow> (bool \<times> lfq) res" where
  "lfq_enq v q = ebind (the (lfq_enqueue (lfq_fresh q) v q)) (\<lambda>(pc, q'). Inr (pc = E_RET True, q'))"

definition lfq_deq :: "lfq \<Rightarrow> (ptr \<times> lfq) res" where
  "lfq_deq q = ebind (the (lfq_dequeue q)) (\<lambda>(pc, q'). Inr (case pc of D_RET v \<Rightarrow> v | _ \<Rightarrow> NULL, q'))"

definition lfq_inv :: "lfq \<Rightarrow> bool" where
  "lfq_inv q \<longleftrightarrow> (\<exists>as. lfq_rep q as)"

lemma lfq_fresh_free: "lfq_rep q as \<Longrightarrow> lfq_fresh q \<noteq> NULL \<and> lf_nodes q (lfq_fresh q) = None"
proof -
  assume "lfq_rep q as"
  then have "finite (dom (lf_nodes q))" by (simp add: lfq_rep_def)
  then have "x < lfq_fresh q" if "x \<in> dom (lf_nodes q)" for x using that by (simp add: lfq_fresh_def less_Suc_eq_le)
  then have "lfq_fresh q \<notin> dom (lf_nodes q)" by blast
  then show ?thesis by (auto simp: lfq_fresh_def)
qed

interpretation lf: bounded_fifo lfq_enq lfq_deq lfq_list lf_m_size lfq_inv
proof unfold_locales
  fix q x
  assume "lfq_inv q" and l: "int (length (lfq_list q)) < lf_m_size q"
  then obtain as where r: "lfq_rep q as" by (auto simp: lfq_inv_def)
  with lfq_enqueue_rep [OF r, of "lfq_fresh q" x] lfq_fresh_free [OF r] lfq_rep_size(1) [OF r] l
  show "\<exists>q'. lfq_enq x q = Inr (True, q') \<and> lfq_inv q' \<and> lfq_list q' = lfq_list q @ [x] \<and> lf_m_size q' = lf_m_size q"
    by (auto simp: lfq_enq_def lfq_inv_def)
next
  fix q x
  assume "lfq_inv q" and "int (length (lfq_list q)) = lf_m_size q"
  then obtain as where r: "lfq_rep q as" "lf_size q = lf_m_size q" using lfq_rep_size(1) unfolding lfq_inv_def by fastforce
  with lfq_enqueue_rep [OF r(1), of "lfq_fresh q" x] lfq_fresh_free [OF r(1)] show "lfq_enq x q = Inr (False, q)"
    by (simp add: lfq_enq_def)
next
  fix q
  assume "lfq_inv q" and ne: "lfq_list q \<noteq> []"
  then obtain d b bs where r: "lfq_rep q (d # b # bs)" using lfq_rep_nonempty unfolding lfq_inv_def by blast
  from lfq_dequeue_rep [OF r] show "\<exists>q'. lfq_deq q = Inr (hd (lfq_list q), q') \<and> lfq_inv q' \<and> lfq_list q' = tl (lfq_list q) \<and> lf_m_size q' = lf_m_size q"
    by (auto simp: lfq_deq_def lfq_inv_def)
next
  fix q
  assume "lfq_inv q" and "lfq_list q = []"
  then obtain d where "lfq_rep q [d]" using lfq_rep_empty unfolding lfq_inv_def by blast
  from lfq_dequeue_rep [OF this] show "lfq_deq q = Inr (NULL, q)" by (simp add: lfq_deq_def)
next
  fix q
  assume "lfq_inv q"
  then obtain as where r: "lfq_rep q as" unfolding lfq_inv_def by blast
  then show "int (length (lfq_list q)) \<le> lf_m_size q" using lfq_rep_size(1) [OF r] by (simp add: lfq_rep_def)
qed

lemma lfq_free_rep:
  "lfq_rep q as \<Longrightarrow> NULL \<notin> set (lfq_list q) \<Longrightarrow> \<exists>q'. lfq_free q = Some (Inr q') \<and> dom (lf_nodes q') = {last as}"
proof (induction as arbitrary: q)
  case Nil
  then show ?case by (simp add: lfq_rep_def)
next
  case (Cons d as)
  show ?case
  proof (cases as)
    case Nil
    with Cons.prems(1) lfq_dequeue_rep [OF Cons.prems(1)] show ?thesis by (subst lfq_free.simps) (simp add: lfq_rep_def)
  next
    case (Cons b bs)
    with lfq_dequeue_rep [OF Cons.prems(1)] obtain q' where
      q': "lfq_dequeue q = Some (Inr (D_RET (hd (lfq_list q)), q'))" "lfq_rep q' as" "lfq_list q' = tl (lfq_list q)" by auto
    have ne: "lfq_list q \<noteq> []" using lfq_rep_size(2) [OF Cons.prems(1)] Cons by auto
    then have "hd (lfq_list q) \<noteq> NULL" "NULL \<notin> set (lfq_list q')" using Cons.prems(2) q'(3) by (cases "lfq_list q"; auto)+
    with Cons.IH [OF q'(2)] q'(1) Cons show ?thesis by (subst lfq_free.simps) simp
  qed
qed
lemma lf_took_nonneg: "0 \<le> lf_took pc"
  by (cases pc) simp_all

lemma length_lf_hand: "length (lf_hand pc d) \<le> 1"
  by (cases pc) simp_all

subsection \<open>Properties\<close>

text \<open>
  C36: one producer and one consumer. Whatever the interleaving of the two threads and the addresses \<open>malloc\<close> returns: no step accesses a node that is not allocated;
  the values returned are, in order, the first ones of those accepted (with the one that is linked and whose call has not returned); between calls what is accepted and
  not returned is exactly what is stored, at most \<open>m_size\<close> values, counted by \<open>size\<close>.
\<close>

theorem lfq_spsc_fifo:
  assumes "lf_reachable {p} {c} (lfq_init a m) s" and "p \<noteq> c" and "a \<noteq> NULL" and "0 \<le> m"
  shows "(\<exists>rest. accepted s @ lf_linked (th s p) (offered s p) = got s @ rest \<and> int (length rest) \<le> m + 1) \<and>
     (th s p = LF_IDLE \<and> th s c = LF_IDLE \<longrightarrow>
        accepted s = got s @ lfq_list (lfqueue s) \<and> lf_size (lfqueue s) = int (length (lfq_list (lfqueue s))) \<and> lf_size (lfqueue s) \<le> m) \<and>
     (\<forall>t e. lf_do (A_GO t) s \<noteq> Some (Inl e))"
proof (intro conjI impI allI)
  obtain as where inv: "spsc_inv p c m s as" using spsc_reachable [OF assms] by blast
  then have bal: "lf_balance (accepted s) (lf_linked (th s p) (offered s p)) (got s)
      (lf_hand (th s c) (node_d (the (lf_nodes (lfqueue s) (hd as))))) (payloads (lf_nodes (lfqueue s)) (tl as))" by (simp add: spsc_simps)
  have "int (length (tl as)) + lf_took (th s c) \<le> m" "0 \<le> lf_took (th s c)" using inv by (simp_all add: spsc_simps lf_took_nonneg)
  then have "int (length (lf_hand (th s c) (node_d (the (lf_nodes (lfqueue s) (hd as)))) @ payloads (lf_nodes (lfqueue s)) (tl as))) \<le> m + 1"
    using length_lf_hand [of "th s c" "node_d (the (lf_nodes (lfqueue s) (hd as)))"] by (simp add: payloads_def)
  with bal show "\<exists>rest. accepted s @ lf_linked (th s p) (offered s p) = got s @ rest \<and> int (length rest) \<le> m + 1"
    unfolding lf_balance_def by blast
  {
    assume idle: "th s p = LF_IDLE \<and> th s c = LF_IDLE"
    with inv have rep: "lfq_rep (lfqueue s) as" by (auto simp: spsc_simps lfq_rep_def)
    show "accepted s = got s @ lfq_list (lfqueue s)" using bal idle lfq_list_rep [OF rep] by (simp add: lf_balance_def)
    show "lf_size (lfqueue s) = int (length (lfq_list (lfqueue s)))" by (rule lfq_rep_size(1) [OF rep])
    show "lf_size (lfqueue s) \<le> m" using inv idle by (simp add: spsc_simps)
  }
  show "lf_do (A_GO t) s \<noteq> Some (Inl e)" for t e
  proof (cases "th s t = LF_IDLE")
    case False
    with spsc_go [OF inv assms(2)] show ?thesis by fastforce
  qed simp
qed

text \<open>A schedule: the producer links its value, the consumer takes it before the producer has moved the tail and counted.\<close>

definition lf_overtake :: "lf_act list" where
  "lf_overtake = [A_ENQ 0 7 2, A_GO 0, A_GO 0, A_GO 0, A_DEQ 1, A_GO 1, A_GO 1, A_GO 1, A_GO 1, A_GO 1, A_GO 1, A_GO 1, A_GO 1]"

lemmas lf_eval = lfsys_start_def lfq_init_def lf_new_def lf_at_def lf_drop_def lf_overtake_def

theorem lfq_spsc_fifo_witness:
  "\<exists>s. lf_exec (lf_overtake @ [A_GO 1, A_GO 0, A_GO 0, A_GO 0]) (lfsys_start (lfq_init 1 4)) = Some s \<and>
     accepted s = got s @ lfq_list (lfqueue s) \<and> got s = [7] \<and> lf_size (lfqueue s) = 0"
proof -
  obtain s where s: "lf_exec (lf_overtake @ [A_GO 1, A_GO 0, A_GO 0, A_GO 0]) (lfsys_start (lfq_init 1 4)) = Some s"
    "th s 0 = LF_IDLE" "th s 1 = LF_IDLE" "got s = [7]" "lf_size (lfqueue s) = 0"
    by (simp add: lf_eval)
  have "lf_reachable {0} {1} (lfq_init 1 4) s"
    by (rule lf_exec_reachable [OF s(1) lf_start]) (simp add: lf_overtake_def)
  from lfq_spsc_fifo [OF this] s show ?thesis by simp
qed

text \<open>
  The calls of one producer and one consumer return. No compare-and-swap fails, so each step of a call decreases its rank, which is at most 9: an enqueue returns after at
  most six steps of its thread, a dequeue after at most nine, however the other thread is scheduled, and an unfinished call always has a next step.
\<close>

theorem lfq_spsc_wait_free:
  assumes "lf_reachable {p} {c} (lfq_init a m) s" and "p \<noteq> c" and "a \<noteq> NULL" and "0 \<le> m" and "th s t \<noteq> LF_IDLE"
  shows "\<exists>s'. lf_do (A_GO t) s = Some (Inr s') \<and> lf_rank (th s' t) < lf_rank (th s t) \<and> lf_rank (th s t) \<le> (if t = p then 6 else 9) \<and>
     (lf_rank (th s' t) = 0 \<longleftrightarrow> th s' t = LF_IDLE)"
proof -
  obtain as where inv: "spsc_inv p c m s as" using spsc_reachable [OF assms(1-4)] by blast
  from spsc_go [OF inv assms(2,5)] obtain s' as' where s': "lf_do (A_GO t) s = Some (Inr s')" "spsc_inv p c m s' as'" by blast
  have rank: "lf_rank (th s t) \<le> (if t = p then 6 else 9)" using inv by (cases "t = p"; cases "th s t") (simp_all add: spsc_simps)
  have t: "t = p \<or> t = c" using inv assms(5) unfolding spsc_inv_def Let_def by blast
  have "lf_prod_ok (th s' p) (last as') (lf_tail (lfqueue s')) (int (length (tl as')) + lf_took (th s' c) < m)" using s'(2) by (simp add: spsc_simps)
  moreover have "lf_cons_ok (th s' c) as'" using s'(2) by (simp add: spsc_simps)
  ultimately have "lf_rank (th s' t) = 0 \<longleftrightarrow> th s' t = LF_IDLE" using t by (cases "th s' t") auto
  with s'(1) rank spsc_rank [OF inv assms(2) s'(1)] show ?thesis by (intro exI [of _ s'] conjI)
qed

theorem lfq_spsc_wait_free_witness:
  "\<exists>s s'. lf_exec lf_overtake (lfsys_start (lfq_init 1 4)) = Some s \<and> lf_do (A_GO 0) s = Some (Inr s') \<and> lf_rank (th s' 0) < lf_rank (th s 0)"
proof -
  obtain s where s: "lf_exec lf_overtake (lfsys_start (lfq_init 1 4)) = Some s" "th s 0 \<noteq> LF_IDLE" by (simp add: lf_eval)
  have "lf_reachable {0} {1} (lfq_init 1 4) s"
    by (rule lf_exec_reachable [OF s(1) lf_start]) (simp add: lf_overtake_def)
  from lfq_spsc_wait_free [OF this _ _ _ s(2)] s(1) show ?thesis by auto
qed

text \<open>
  C37: the queue is not safe for more threads. With two producers the consumer frees a node that the tail still points to, and the second producer accesses it; two producers
  also exceed the capacity, both passing the test before either counts. With two consumers one frees the node that the other has read from \<open>head\<close> and accesses next.
\<close>

theorem lfq_sharing_breaks:
  "(\<exists>s. lf_reachable {0, 2} {1} (lfq_init 1 4) s \<and> lf_do (A_GO 2) s = Some (Inl OutOfBounds)) \<and>
   (\<exists>s. lf_reachable {0, 2} {1} (lfq_init 1 1) s \<and> accepted s = [7, 8] \<and> lf_size (lfqueue s) = 2 \<and> lf_m_size (lfqueue s) = 1) \<and>
   (\<exists>s. lf_reachable {0} {1, 2} (lfq_init 1 4) s \<and> lf_do (A_GO 2) s = Some (Inl OutOfBounds))"
proof (intro conjI)
  let ?a = "lf_overtake @ [A_ENQ 2 8 3, A_GO 2, A_GO 2]"
  obtain s where s: "lf_exec ?a (lfsys_start (lfq_init 1 4)) = Some s" "lf_do (A_GO 2) s = Some (Inl OutOfBounds)" by (simp add: lf_eval)
  have "lf_reachable {0, 2} {1} (lfq_init 1 4) s" by (rule lf_exec_reachable [OF s(1) lf_start]) (simp add: lf_overtake_def)
  with s(2) show "\<exists>s. lf_reachable {0, 2} {1} (lfq_init 1 4) s \<and> lf_do (A_GO 2) s = Some (Inl OutOfBounds)" by blast
next
  let ?a = "[A_ENQ 0 7 2, A_GO 0, A_GO 0, A_GO 0, A_GO 0, A_ENQ 2 8 3, A_GO 2, A_GO 2, A_GO 0, A_GO 0, A_GO 2, A_GO 2, A_GO 2, A_GO 2]"
  obtain s where s: "lf_exec ?a (lfsys_start (lfq_init 1 1)) = Some s" "accepted s = [7, 8]" "lf_size (lfqueue s) = 2" "lf_m_size (lfqueue s) = 1" by (simp add: lf_eval)
  have "lf_reachable {0, 2} {1} (lfq_init 1 1) s" by (rule lf_exec_reachable [OF s(1) lf_start]) simp
  with s(2-) show "\<exists>s. lf_reachable {0, 2} {1} (lfq_init 1 1) s \<and> accepted s = [7, 8] \<and> lf_size (lfqueue s) = 2 \<and> lf_m_size (lfqueue s) = 1" by blast
next
  let ?a = "[A_ENQ 0 7 2, A_GO 0, A_GO 0, A_GO 0, A_GO 0, A_GO 0, A_GO 0, A_DEQ 2, A_GO 2, A_DEQ 1, A_GO 1, A_GO 1, A_GO 1, A_GO 1, A_GO 1, A_GO 1, A_GO 1]"
  obtain s where s: "lf_exec ?a (lfsys_start (lfq_init 1 4)) = Some s" "lf_do (A_GO 2) s = Some (Inl OutOfBounds)" by (simp add: lf_eval)
  have "lf_reachable {0} {1, 2} (lfq_init 1 4) s" by (rule lf_exec_reachable [OF s(1) lf_start]) simp
  with s(2) show "\<exists>s. lf_reachable {0} {1, 2} (lfq_init 1 4) s \<and> lf_do (A_GO 2) s = Some (Inl OutOfBounds)" by blast
qed

text \<open>
  A single thread. On a well-formed queue every call returns and acts on the list of stored values as a bounded FIFO queue does, whatever free address \<open>malloc\<close> returns:
  an enqueue appends while there is room and otherwise leaves the queue as it was, its node freed; a dequeue removes the first value or returns a null pointer. \<open>lfq_free\<close> of a queue of
  pointers that are not null returns with exactly one node still allocated, the dummy, which is never released.
\<close>

theorem lfq_sequential:
  assumes "lfq_inv q" and "a \<noteq> NULL" and "lf_nodes q a = None"
  shows "(\<exists>q'. lfq_enqueue a v q = Some (Inr (E_RET (int (length (lfq_list q)) < lf_m_size q), q')) \<and> lfq_inv q' \<and>
        (if int (length (lfq_list q)) < lf_m_size q then lfq_list q' = lfq_list q @ [v] else q' = q)) \<and>
     (\<exists>q'. lfq_dequeue q = Some (Inr (D_RET (case lfq_list q of [] \<Rightarrow> NULL | x # xs \<Rightarrow> x), q')) \<and> lfq_inv q' \<and> lfq_list q' = tl (lfq_list q)) \<and>
     (NULL \<notin> set (lfq_list q) \<longrightarrow> (\<exists>q' d. lfq_free q = Some (Inr q') \<and> dom (lf_nodes q') = {d}))"
proof (intro conjI impI)
  obtain as where r: "lfq_rep q as" using assms(1) unfolding lfq_inv_def by blast
  have size: "lf_size q = int (length (lfq_list q))" "lf_size q \<le> lf_m_size q" using lfq_rep_size(1) [OF r] r by (simp_all add: lfq_rep_def)
  show "\<exists>q'. lfq_enqueue a v q = Some (Inr (E_RET (int (length (lfq_list q)) < lf_m_size q), q')) \<and> lfq_inv q' \<and>
       (if int (length (lfq_list q)) < lf_m_size q then lfq_list q' = lfq_list q @ [v] else q' = q)"
    using lfq_enqueue_rep [OF r assms(2,3), of v] size assms(1) by (auto simp: lfq_inv_def split: if_splits)
  show "\<exists>q'. lfq_dequeue q = Some (Inr (D_RET (case lfq_list q of [] \<Rightarrow> NULL | x # xs \<Rightarrow> x), q')) \<and> lfq_inv q' \<and> lfq_list q' = tl (lfq_list q)"
  proof (cases "lfq_list q")
    case Nil
    with lfq_rep_empty [OF r] r obtain d where "lfq_rep q [d]" by blast
    from lfq_dequeue_rep [OF this] Nil assms(1) show ?thesis by simp
  next
    case (Cons x xs)
    then have "lfq_list q \<noteq> []" by simp
    with lfq_rep_nonempty [OF r] r obtain d b bs where "lfq_rep q (d # b # bs)" by blast
    from lfq_dequeue_rep [OF this] Cons show ?thesis by (auto simp: lfq_inv_def)
  qed
  show "\<exists>q' d. lfq_free q = Some (Inr q') \<and> dom (lf_nodes q') = {d}" if "NULL \<notin> set (lfq_list q)" using lfq_free_rep [OF r that] by blast
qed

theorem lfq_sequential_witness:
  "\<exists>q'. lfq_enqueue 2 7 (lfq_init 1 4) = Some (Inr (E_RET True, q')) \<and> lfq_list q' = [7]"
proof -
  have "lfq_inv (lfq_init 1 4)" "lfq_list (lfq_init 1 4) = []" "lf_m_size (lfq_init 1 4) = 4" using lfq_init_rep [of 1 4] by (auto simp: lfq_inv_def)
  moreover have "lf_nodes (lfq_init 1 4) 2 = None" by (simp add: lf_eval)
  ultimately show ?thesis using lfq_sequential [of "lfq_init 1 4" 2 7] by auto
qed

end
