(* ===== verification/Ack_Buffer.thy ===== *)
theory Ack_Buffer
  imports Ack_Wire
begin

section \<open>Buffered acknowledgements (\<open>src/util.c\<close>, \<open>SEND_ACK_BUFFERING\<close>)\<close>

text \<open>
  The variant of \<open>send_ack\<close> that collects the acknowledgements of all requests but GETs in a buffer of the thread, \<open>ack_buf\<close>, and writes them when it is full. The first \<open>buf_cnt\<close> entries of the array
  are a list. The build does not select the variant: the line that defines \<open>SEND_ACK_BUFFERING\<close> is a comment. Outside this variant of \<open>send_ack\<close> nothing calls \<open>ack_buf_flush\<close>. As for
  the other writes to a socket, the number of bytes the socket takes is an argument.
\<close>

definition ACK_BUF_MAX :: nat where "ACK_BUF_MAX = 64"

definition ack_buf_flush :: "int \<Rightarrow> netack list \<Rightarrow> int \<times> byte list \<times> netack list" where
  "ack_buf_flush r buf = (case sys_write r (concat (map netack_bytes buf)) of (len, bs) \<Rightarrow> (len, bs, []))"

definition send_ack_buffered :: "int \<Rightarrow> netack \<Rightarrow> netack list \<Rightarrow> int \<times> byte list \<times> netack list" where
  "send_ack_buffered r na buf =
     (if ack_type na = REQ_TYPE_GET then (case sys_write r (netack_bytes na) of (len, bs) \<Rightarrow> (len, bs, buf))
      else let buf' = buf @ [na] in if length buf' = ACK_BUF_MAX then ack_buf_flush r buf' else (0, [], buf'))"

text \<open>One thread that sends acknowledgements, each to the socket of its client: what every socket gets, and what stays in the buffer.\<close>

fun send_all_buffered :: "(nat \<times> int \<times> netack) list \<Rightarrow> netack list \<Rightarrow> (nat \<Rightarrow> byte list) \<Rightarrow> netack list \<times> (nat \<Rightarrow> byte list)" where
  "send_all_buffered [] buf out = (buf, out)"
| "send_all_buffered ((s, r, na) # as) buf out =
     (case send_ack_buffered r na buf of (_, bs, buf') \<Rightarrow> send_all_buffered as buf' (out(s := out s @ bs)))"

abbreviation is_get :: "netack \<Rightarrow> bool" where
  "is_get na \<equiv> ack_type na = REQ_TYPE_GET"

lemma sys_write_whole: "int (length bs) \<le> r \<Longrightarrow> sys_write r bs = (int (length bs), bs)"
  by (simp add: sys_write_def)

lemma length_acks: "length (concat (map netack_bytes buf)) = length buf * NETACK_SIZE"
  by (induction buf) simp_all

text \<open>A call on a socket that takes everything sends the acknowledgements \<open>W\<close> and keeps the rest.\<close>

lemma send_ack_buffered_cases:
  assumes "int (ACK_BUF_MAX * NETACK_SIZE) \<le> r" and "length buf < ACK_BUF_MAX"
  obtains (get) "is_get na" "send_ack_buffered r na buf = (int NETACK_SIZE, netack_bytes na, buf)"
  | (keep) "\<not> is_get na" "Suc (length buf) < ACK_BUF_MAX" "send_ack_buffered r na buf = (0, [], buf @ [na])"
  | (flush) "\<not> is_get na" "Suc (length buf) = ACK_BUF_MAX" "send_ack_buffered r na buf = (int (ACK_BUF_MAX * NETACK_SIZE), concat (map netack_bytes (buf @ [na])), [])"
proof -
  have "1 * NETACK_SIZE \<le> ACK_BUF_MAX * NETACK_SIZE" using assms(2) by (intro mult_le_mono1) simp
  then have r: "int NETACK_SIZE \<le> r" using assms(1) by linarith
  consider "is_get na" | "\<not> is_get na" "Suc (length buf) < ACK_BUF_MAX" | "\<not> is_get na" "Suc (length buf) = ACK_BUF_MAX" using assms(2) by linarith
  then show thesis
  proof cases
    case 1
    then show thesis using get r by (simp add: send_ack_buffered_def sys_write_whole)
  next
    case 2
    then show thesis using keep by (simp add: send_ack_buffered_def)
  next
    case 3
    then have "send_ack_buffered r na buf = ack_buf_flush r (buf @ [na])" by (simp add: send_ack_buffered_def)
    also have "\<dots> = (int (ACK_BUF_MAX * NETACK_SIZE), concat (map netack_bytes (buf @ [na])), [])"
      unfolding ack_buf_flush_def using 3(2) assms(1) length_acks [of "buf @ [na]"] by (subst sys_write_whole) simp_all
    finally show thesis using flush 3 by simp
  qed
qed

text \<open>
  With one client whose socket takes everything no acknowledgement is lost or reordered among its kind: the wire carries whole acknowledgements \<open>W\<close>, the GETs in order, and the others in order up to those
  still in the buffer, of which there are as many as the number of the others leaves modulo the capacity.
\<close>

definition buffered :: "netack list \<Rightarrow> netack list \<Rightarrow> netack list \<Rightarrow> netack list \<Rightarrow> bool" where
  "buffered nas buf W buf' \<longleftrightarrow> filter is_get W = filter is_get nas \<and>
     filter (\<lambda>na. \<not> is_get na) W @ buf' = buf @ filter (\<lambda>na. \<not> is_get na) nas \<and>
     length buf' = (length buf + length (filter (\<lambda>na. \<not> is_get na) nas)) mod ACK_BUF_MAX"

lemma buffered_get: "is_get na \<Longrightarrow> buffered nas buf W buf' \<Longrightarrow> buffered (na # nas) buf (na # W) buf'"
  by (simp add: buffered_def)

lemma buffered_keep: "\<not> is_get na \<Longrightarrow> buffered nas (buf @ [na]) W buf' \<Longrightarrow> buffered (na # nas) buf W buf'"
  by (simp add: buffered_def)

lemma buffered_flush:
  assumes "\<not> is_get na" and "\<forall>na \<in> set buf. \<not> is_get na" and "Suc (length buf) = ACK_BUF_MAX" and "buffered nas [] W buf'"
  shows "buffered (na # nas) buf (buf @ na # W) buf'"
proof -
  have "filter is_get buf = []" "filter (\<lambda>na. \<not> is_get na) buf = buf" using assms(2) by (auto simp: filter_empty_conv filter_id_conv)
  moreover have "(length buf + Suc n) mod ACK_BUF_MAX = n mod ACK_BUF_MAX" for n using assms(3) by (metis add_Suc_shift mod_add_self1)
  ultimately show ?thesis using assms(1,4) by (simp add: buffered_def)
qed

lemma buffered_acks_conserved:
  assumes "\<forall>(s', r, na) \<in> set as. s' = s \<and> int (ACK_BUF_MAX * NETACK_SIZE) \<le> r" and "length buf < ACK_BUF_MAX" and "\<forall>na \<in> set buf. \<not> is_get na"
  shows "\<exists>W buf'. send_all_buffered as buf out = (buf', out(s := out s @ concat (map netack_bytes W))) \<and>
     buffered (map (snd \<circ> snd) as) buf W buf'"
  using assms
proof (induction as arbitrary: buf out)
  case Nil
  then show ?case by - (rule exI [of _ "[]"], rule exI [of _ buf], simp add: buffered_def)
next
  case (Cons a as)
  obtain r na where a: "a = (s, r, na)" "int (ACK_BUF_MAX * NETACK_SIZE) \<le> r" using Cons.prems(1) by (cases a) auto
  have as: "\<forall>(s', r, na) \<in> set as. s' = s \<and> int (ACK_BUF_MAX * NETACK_SIZE) \<le> r" using Cons.prems(1) by simp
  from a(2) Cons.prems(2) show ?case
  proof (cases rule: send_ack_buffered_cases [of r buf na])
    case get
    from Cons.IH [OF as Cons.prems(2,3), of "out(s := out s @ netack_bytes na)"] obtain W buf' where
      "send_all_buffered as buf (out(s := out s @ netack_bytes na)) = (buf', out(s := out s @ netack_bytes na @ concat (map netack_bytes W)))"
      "buffered (map (snd \<circ> snd) as) buf W buf'" unfolding fun_upd_upd fun_upd_same append_assoc by blast
    with get a buffered_get [OF get(1)] show ?thesis by - (rule exI [of _ "na # W"], rule exI [of _ buf'], simp add: comp_def fun_upd_def)
  next
    case keep
    have "\<forall>na \<in> set (buf @ [na]). \<not> is_get na" "length (buf @ [na]) < ACK_BUF_MAX" using keep(1,2) Cons.prems(3) by auto
    from Cons.IH [OF as this(2,1), of out] obtain W buf' where
      "send_all_buffered as (buf @ [na]) out = (buf', out(s := out s @ concat (map netack_bytes W)))"
      "buffered (map (snd \<circ> snd) as) (buf @ [na]) W buf'" by blast
    with keep a buffered_keep [OF keep(1)] show ?thesis by - (rule exI [of _ W], rule exI [of _ buf'], simp add: comp_def, simp add: fun_upd_def)
  next
    case flush
    let ?B = "concat (map netack_bytes (buf @ [na]))"
    have "length ([] :: netack list) < ACK_BUF_MAX" "\<forall>na \<in> set []. \<not> is_get na" by (simp_all add: ACK_BUF_MAX_def)
    from Cons.IH [OF as this, of "out(s := out s @ ?B)"] obtain W buf' where
      "send_all_buffered as [] (out(s := out s @ ?B)) = (buf', out(s := out s @ ?B @ concat (map netack_bytes W)))"
      "buffered (map (snd \<circ> snd) as) [] W buf'" unfolding fun_upd_upd fun_upd_same append_assoc by blast
    with flush a buffered_flush [OF flush(1) Cons.prems(3) flush(2)] show ?thesis by - (rule exI [of _ "buf @ na # W"], rule exI [of _ buf'], simp add: comp_def fun_upd_def)
  qed
qed

text \<open>
  So a client that loads \<open>n\<close> pairs, and waits for all their acknowledgements, waits for ever unless the capacity divides \<open>n\<close>: the last \<open>n mod ACK_BUF_MAX\<close> of them stay in the buffer.
\<close>

lemma buffered_load_incomplete:
  assumes "\<forall>(s', r, na) \<in> set as. s' = s \<and> int (ACK_BUF_MAX * NETACK_SIZE) \<le> r \<and> \<not> is_get na"
  shows "\<exists>buf'. send_all_buffered as [] (\<lambda>_. []) = (buf', (\<lambda>_. [])(s := concat (map netack_bytes (take (length as - length as mod ACK_BUF_MAX) (map (snd \<circ> snd) as))))) \<and>
     length buf' = length as mod ACK_BUF_MAX"
proof -
  let ?nas = "map (snd \<circ> snd) as"
  have "\<forall>na \<in> set ?nas. \<not> is_get na" using assms by auto
  then have all: "filter (\<lambda>na. \<not> is_get na) ?nas = ?nas" "filter is_get ?nas = []" by (auto simp: filter_id_conv filter_empty_conv)
  have "\<forall>(s', r, na) \<in> set as. s' = s \<and> int (ACK_BUF_MAX * NETACK_SIZE) \<le> r" using assms by blast
  from buffered_acks_conserved [OF this, of "[]" "\<lambda>_. []"] obtain W buf' where
    w: "send_all_buffered as [] (\<lambda>_. []) = (buf', (\<lambda>_. [])(s := concat (map netack_bytes W)))" and b: "buffered ?nas [] W buf'" by (auto simp: ACK_BUF_MAX_def)
  have "filter is_get W = []" "filter (\<lambda>na. \<not> is_get na) W @ buf' = ?nas" and len: "length buf' = length as mod ACK_BUF_MAX"
    using b all unfolding buffered_def by simp_all
  moreover from this(1) have "filter (\<lambda>na. \<not> is_get na) W = W" by (auto simp: filter_empty_conv filter_id_conv)
  ultimately have "W @ buf' = ?nas" by simp
  then have "W = take (length ?nas - length buf') ?nas" by (metis append_eq_conv_conj length_append add_diff_cancel_right')
  with w len show ?thesis by simp
qed

text \<open>
  The buffer belongs to the thread and not to the socket: with two clients the acknowledgements of one are written to the socket of the other.
\<close>

lemma buffered_acks_wrong_client:
  assumes "length nas = ACK_BUF_MAX - 1" and "\<forall>na \<in> set nas. \<not> is_get na" and "\<not> is_get na'" and "int (ACK_BUF_MAX * NETACK_SIZE) \<le> r"
  shows "send_all_buffered (map (\<lambda>na. (s, r, na)) nas @ [(s', r, na')]) [] (\<lambda>_. []) = ([], (\<lambda>_. [])(s' := concat (map netack_bytes (nas @ [na']))))"
proof -
  have keep: "send_all_buffered (map (\<lambda>na. (s, r, na)) xs @ zs) buf out = send_all_buffered zs (buf @ xs) out"
    if "length (buf @ xs) < ACK_BUF_MAX" "\<forall>na \<in> set xs. \<not> is_get na" for xs zs buf out
    using that
  proof (induction xs arbitrary: buf)
    case (Cons x xs)
    then have "send_ack_buffered r x buf = (0, [], buf @ [x])" by (simp add: send_ack_buffered_def)
    with Cons.IH [of "buf @ [x]"] Cons.prems show ?case by (simp add: fun_upd_triv)
  qed simp
  have l: "length nas < ACK_BUF_MAX" "Suc (length nas) = ACK_BUF_MAX" using assms(1) by (simp_all add: ACK_BUF_MAX_def)
  from assms(4) l(1) have "send_ack_buffered r na' nas = (int (ACK_BUF_MAX * NETACK_SIZE), concat (map netack_bytes (nas @ [na'])), [])"
    by (cases rule: send_ack_buffered_cases [of r nas na']) (use assms(3) l(2) in simp_all)
  with keep [of "[]" nas "[(s', r, na')]" "\<lambda>_. []"] l(1) assms(2) show ?thesis by simp
qed

end
