(* ===== verification/Spec2Isabelle.thy ===== *)
theory Spec2Isabelle
  imports Timing Hopscotch Kv_Store Bigkv_Race Bi_Lru Disk_Io Old_Server Load_Complete Lfqueue Ack_Buffer
begin

text \<open>
  \<^bold>\<open>A key-value server over a log-structured device.\<close>

  \<^bold>\<open>The program.\<close> A master thread (\<open>src/master.c\<close>) reads fixed-size messages from its clients, chooses one handler per message by the hash of the key, takes a request
  from that handler's pool and queues it, after taking the handler's in-flight window. Each handler (\<open>src/handler.c\<close>) owns one block device, a thread that serves its queue, a thread that
  polls for completed I/Os (\<open>src/poller.c\<close>), and one index: the two-level BigKV index (\<open>src/bigkv_index.c\<close>, the one the build selects) or the hopscotch table
  (\<open>src/hopscotch.c\<close>). The device (\<open>src/device.c\<close>, \<open>src/aio.c\<close>) is a log of segments: pairs are appended to the staged segment in memory, which is written out when it is full. Ending a request
  (\<open>src/request.c\<close>) acknowledges it, releases the window and returns it to the pool. The client (\<open>src/client.cc\<close>, \<open>src/keygen.c\<close>) loads a pool of keys and measures latencies.

  \<^bold>\<open>The theories.\<close>
  \<^item> \<open>Prelude\<close>: widths, constants of \<open>include/config.h\<close>, crashes as the left values of a sum, the heap of buffers, words.
  \<^item> \<open>Queue\<close> (\<open>src/queue.c\<close>): linked nodes in a store; the locale \<open>bounded_fifo\<close> is what every other component uses of it.
  \<^item> \<open>Cond_Lock\<close> (\<open>src/cond_lock.c\<close>): the window, with a step relation of the threads that wait for it. \<open>Stopwatch\<close>, \<open>Timing\<close> (\<open>include/stopwatch.h\<close>): microseconds, and
    seconds as a floating-point number whose rounding is a parameter.
  \<^item> \<open>Handler_Types\<close> (\<open>include/handler.h\<close>, \<open>request.h\<close>, \<open>device.h\<close>): the record of a handler, which also holds what the outside world gives and takes: the I/Os in progress, the acknowledgements
    sent, the clock, the outcomes of system calls.
  \<^item> \<open>Device\<close>: allocation in the log, the staged segment, submission of I/Os, \<open>handler_init\<close>. \<open>Net\<close> (\<open>src/util.c\<close>, \<open>include/type.h\<close>): the wire format, the read loops, the latency table; \<open>Ack_Wire\<close>: acknowledgements on the wire, and
    the writes to a socket; \<open>Ack_Buffer\<close>: their buffered variant. \<open>Request\<close>.
  \<^item> \<open>Kv_Ops\<close>: what both indexes share, the dispatch of requests to an index, and the contract of an index (the locale \<open>kv_index\<close>).
  \<^item> \<open>Hopscotch\<close>. \<open>Part_Table\<close>, \<open>Bi_Bucket\<close>, \<open>Bigkv_Index\<close>: the BigKV index from the bytes of a partition table (the locale \<open>entry_store\<close>) through the buckets to GET and SET; \<open>Bigkv_Ops\<close> and
    \<open>Bigkv_Evict\<close> follow its operations through the log.
    \<open>Bi_Lru\<close> compares the LRU bits of a bucket with a list of entries ordered by their last use.
  \<^item> \<open>Poller\<close>: the completion of I/Os; \<open>Bigkv_Disk\<close> composes it with GET; \<open>Disk_Io\<close>: the transfers of the kernel between the disk and the buffers, and the log as the map of what
    was written to it.
  \<^item> \<open>Bigkv_Log\<close>: every pass of a BigKV SET or GET as a run of the device, with the buffers and callbacks it owns; \<open>Kv_Store\<close>: the index, the log, the disk and the completions together, as a map from keys to the
    bytes stored for them; \<open>Bigkv_Race\<close>: a GET and a SET on the same partition table.
  \<^item> \<open>Handler\<close>: the loop of the handler thread, forwarding, and the two threads on one handler as a step relation; \<open>Handler_Free\<close>: the release of a handler; \<open>Master\<close>: the master and all handlers.
  \<^item> \<open>Server\<close> (\<open>src/temp.cc\<close>, the set-up of \<open>src/master.c\<close>): the command line, the sockets, the start of the master, with the kernel's descriptors as state.
    \<open>Old_Server\<close> (\<open>src/server.cc\<close>): the server before the master was split off, over the functions both share.
  \<^item> \<open>Keygen\<close>, \<open>Client\<close>, \<open>Client_Bench\<close>: the key generator, the load phase and the query phase; \<open>Client_Main\<close>: the two threads of the client, from the connection to the release.
  \<^item> \<open>End_To_End\<close>, \<open>Load_Complete\<close>: the client, the network, the master and all handlers as one system.
  \<^item> \<open>Lfqueue\<close> (\<open>src/lfqueue.c\<close>): the lock-free queue, one access to shared memory at a time, with any number of threads; a second interpretation of \<open>bounded_fifo\<close>.

  \<^bold>\<open>How the model follows the code.\<close> A struct is a record with the fields of the source, a bit-field a word of its width, a pointer a number (0 is the null pointer) into an array or the heap. A C function is
  a HOL function of the same name from the state to the state; \<open>Inl\<close> is a crash (an abort, a null dereference, an access out of bounds, a bad free, a division by zero). A function pointer is a constructor of
  \<open>cb_func\<close>, run by the index that installs it. The hash function (CityHash, not in the repository) and \<open>rand\<close> are arguments. Threads are step relations; a step is one call under a lock, or
  the body of one loop. The loop by \<open>goto\<close> and the retries of the BigKV index are recursive functions with a termination proof; the socket loops, which may run for ever, are partial functions with \<open>None\<close>
  for not returning, and the framing theorem shows that they return. No definition needs fuel but the bounded runs of the threads, whose bounds the theorems state.

  \<^bold>\<open>What is shown.\<close> The queue refines a bounded list; the window is never exceeded and no wake-up is lost. Allocations are inside the staged segment, rounded to grains, and disjoint until the log
  wraps; what is written to the log stays in the staged segment, in a write in progress or on the disk until its segment is staged again, and is read back from there, as long as no segment is staged while its last write is in progress. A partition table is a finite map, a bucket a write-back cache of it: replacing or persisting an entry loses nothing, and the LRU bits are the order of the last uses. SET and GET
  of both indexes change what is stored as specified, are acknowledged once, and round-trip; in every run of the BigKV index under this condition, with evictions, partition tables and completions in any order, a key of the abstract map is found in its bucket and its bytes are read back as they were stored; making room in a hopscotch neighbourhood keeps the stored items. The pools of requests, callbacks and control
  blocks are conserved. Messages are framed and delivered in order to the handler of their key, and acknowledged once, in order; shutdown drains the queue; with at least a hundred keys the load phase of the client sends each
  key once and ends, in every interleaving of the two threads that begins with the socket assigned, and with at least a hundred queries the query phase stays in the pool and ends. Client and server together deliver messages and acknowledgements in order and never get stuck, and at the end of the load each handler has
  acknowledged the keys it owns. The master handles the same events as the older server did. A handler's life from \<open>handler_init\<close> to \<open>handler_free\<close> releases all it allocated. Failing system calls leave no descriptor behind when a client is
  accepted. The lock-free queue is a bounded FIFO queue for one producer and one consumer.

  \<^bold>\<open>What the proofs found.\<close> The loop of \<open>request_handler\<close> ends every request before the dispatch, so that no request reaches the index (\<open>handler_acks_in_order\<close>); a GET in a partition without a table stops the
  server; a GET can replace the address of a newer SET, and a whole partition table by an older one; a GET of an unknown key leaks its copy of the table; an update in the hopscotch index stores the old value again, and the tag 0 matches free slots; the log wraps onto segment 0; the completion thread
  compares the result with a positive \<open>EINVAL\<close>; a read can overtake the write of the segment it reads; acknowledgements are lost when the socket of the client is full, and the buffered variant keeps the last ones and mixes up clients; the client does not end, because it waits for a
  thread that is blocked in \<open>read\<close>, and its poller may read the standard input; its progress output divides by zero for fewer than a hundred keys or queries; one client that disconnects stops the master; key lengths and the number of devices are unchecked; a failed start dereferences a
  null pointer and leaves a socket open, and a device name of 32 characters is not terminated; the lock-free queue accesses freed nodes with two producers or two consumers.

  \<^bold>\<open>Not modelled.\<close> Signals, processor affinity and the creation and join of the server's threads: that a thread has returned is a hypothesis of the release of a handler, and that the master thread runs before its handlers are initialised is
  not part of the relations. A call of \<open>forward_req_to_hlr\<close> is one step, the time between the window and the queue is not seen. Of allocations the ones the code tests can fail (\<open>set_value\<close>, the buffers of segments), the others
  succeed; memory from \<open>aligned_alloc\<close> has unknown content. The kernel transfers whole ranges or reports an error. Clocks are unbounded. Printing and the statistics of time. The release of the indexes and of the key generator, which only frees their tables. The variants the build does not select (YCSB, SPDK), but for the buffered acknowledgements. In the theorems on one operation of
  an index what a read delivers is a variable; the content of the disk is followed at the level of the device, in \<open>Disk_Io\<close>, and through whole runs of the BigKV index in \<open>Kv_Store\<close>, whose map holds the keys as long as their entry is in a
  bucket: what a partition table read from the disk says is again a variable there.
\<close>

subsection \<open>Both indexes under the dispatch of the handler\<close>

text \<open>
  C30: both indexes keep to their contract. Whatever sequence of requests the dispatch of the handler gives to the hopscotch or to the BigKV index, a run that does not crash leaves the index well-formed (the LRU bits in
  order, nothing written behind its tables) and only extends what the handler has done: acknowledgements and I/Os are added, never taken back, and the request queue, the disk and the clock are untouched.
\<close>

theorem indexes_keep_contract:
  "(dispatch_all hopscotch_set hopscotch_get reqs hs g = Some (Inr (hs', g')) \<and> hop_ok hs \<longrightarrow> hop_ok hs' \<and> hlr_ext g g') \<and>
   (dispatch_all bigkv_index_set bigkv_index_get reqs bi h = Some (Inr (bi', h')) \<and> bi_ok bi \<longrightarrow> bi_ok bi' \<and> hlr_ext h h')"
  using hop.dispatch_all_keeps bi.dispatch_all_keeps by blast

theorem indexes_keep_contract_witness:
  "\<exists>(h :: bi_params handler) bi' h'. dispatch_all bigkv_index_set bigkv_index_get [1] bigkv_index_init h = Some (Inr (bi', h')) \<and>
     acks h = [] \<and> length (acks h') = 1 \<and> bi_ok bi' \<and> hlr_ext h h'"
proof -
  obtain h :: "bi_params handler" and ba where h: "index_env QSIZE h" "req_buf 1 h ba" "rtype (req_arr h 1) = REQ_TYPE_SET"
    "unat (vlen (rvalue (req_arr h 1))) = 1024" "params (req_arr h 1) = None" "klen (rkey (req_arr h 1)) = 2" "acks h = []" "unat (nr_segment (dev h)) < 2 ^ 24"
    using ex_set_and_get [where 'p = bi_params and ty = REQ_TYPE_GET and C = "\<lambda>_. (9, 5)"] by auto
  have e: "index_env (Suc (Suc 0)) h" using h(1) by (auto simp: index_env_def config_defs intro: pools_hold_mono)
  obtain bi' h' where s: "bigkv_index_set 1 bigkv_index_init h = Inr (0, bi', h')" "acks h' = acks h @ [ack_of (clock h) (req_arr h 1)]"
    using bi_set_logged [OF e h(8,2) refl h(5), of bigkv_index_init "\<lambda>_. init_bi_entry" 0] h(4,6)
    by (auto simp: bi_init_bucket init_bucket_target config_defs)
  have "dispatch_all bigkv_index_set bigkv_index_get [1] bigkv_index_init h = Some (Inr (bi', h'))"
    using s(1) h(3) by (simp add: dispatch_def)
  with indexes_keep_contract [of "[1]" _ _ _ _ bigkv_index_init h bi' h'] bi_ok_init s(2) h(7) show ?thesis
    by (intro exI [of _ h] exI [of _ bi'] exI [of _ h']) simp
qed

end
